(* ===== verification/Amber_Prelude.thy ===== *)
theory Amber_Prelude
  imports Main "HOL-Library.Word" "HOL-Library.List_Lexorder" "HOL-Library.Multiset"
begin

text \<open>
  Shared vocabulary of the development: machine words and byte strings, the
  parts of Go's standard library the packages call (\<open>encoding/binary\<close>,
  \<open>bytes.Compare\<close>, \<open>sort.Search\<close>, \<open>slices.SortFunc\<close>, \<open>math/bits.Len64\<close>,
  writes into a byte slice), and the generic lemmas on them that the component
  theories use. Byte slices are lists of 8-bit words; a Go result
  \<open>(value, error)\<close> is a sum with \<open>Inl\<close> for the error.
\<close>

unbundle bit_operations_syntax

type_synonym byte = "8 word"
type_synonym bytes = "8 word list"
type_synonym u16 = "16 word"
type_synonym u32 = "32 word"
type_synonym u64 = "64 word"

named_theorems codec_simps \<open>evaluation of fixed-width encoders and decoders\<close>
named_theorems key_simps \<open>accessors of lookup keys\<close>

section \<open>encoding/binary, big endian\<close>

primrec be_bytes :: "nat \<Rightarrow> nat \<Rightarrow> bytes" where
  "be_bytes 0 v = []"
| "be_bytes (Suc n) v = be_bytes n (v div 256) @ [of_nat v]"

definition be_val :: "bytes \<Rightarrow> nat" where
  "be_val bs = foldl (\<lambda>a b. a * 256 + unat b) 0 bs"

definition PutUint16 :: "u16 \<Rightarrow> bytes" where
  "PutUint16 w = be_bytes 2 (unat w)"

definition PutUint32 :: "u32 \<Rightarrow> bytes" where
  "PutUint32 w = be_bytes 4 (unat w)"

definition PutUint64 :: "u64 \<Rightarrow> bytes" where
  "PutUint64 w = be_bytes 8 (unat w)"

definition Uint16 :: "bytes \<Rightarrow> u16" where
  "Uint16 bs = of_nat (be_val (take 2 bs))"

definition Uint32 :: "bytes \<Rightarrow> u32" where
  "Uint32 bs = of_nat (be_val (take 4 bs))"

definition Uint64 :: "bytes \<Rightarrow> u64" where
  "Uint64 bs = of_nat (be_val (take 8 bs))"

text \<open>A sub-slice \<open>b[lo:hi]\<close>.\<close>

definition slice :: "nat \<Rightarrow> nat \<Rightarrow> 'a list \<Rightarrow> 'a list" where
  "slice lo hi xs = take (hi - lo) (drop lo xs)"

text \<open>Overwriting a byte string from an offset on, zero-filling a gap, as a
  positional file write does.\<close>

definition write_at :: "bytes \<Rightarrow> nat \<Rightarrow> bytes \<Rightarrow> bytes" where
  "write_at f off data =
     take off f @ replicate (off - length f) 0 @ data @ drop (off + length data) f"

section \<open>bytes.Compare, sort.Search, slices.SortFunc, bits.Len64\<close>

fun bytes_Compare :: "bytes \<Rightarrow> bytes \<Rightarrow> int" where
  "bytes_Compare [] [] = 0"
| "bytes_Compare [] (y # ys) = -1"
| "bytes_Compare (x # xs) [] = 1"
| "bytes_Compare (x # xs) (y # ys) =
     (if x < y then -1 else if y < x then 1 else bytes_Compare xs ys)"

function search_loop :: "(nat \<Rightarrow> bool) \<Rightarrow> nat \<Rightarrow> nat \<Rightarrow> nat" where
  "search_loop f i j =
     (if i < j
      then let h = (i + j) div 2
           in if \<not> f h then search_loop f (h + 1) j else search_loop f i h
      else i)"
  by pat_completeness auto
termination
  by (relation "measure (\<lambda>(f, i, j). j - i)") (auto simp: Let_def)

declare search_loop.simps [simp del]

definition sort_Search :: "nat \<Rightarrow> (nat \<Rightarrow> bool) \<Rightarrow> nat" where
  "sort_Search n f = search_loop f 0 n"

fun insert_by :: "('a \<Rightarrow> 'a \<Rightarrow> int) \<Rightarrow> 'a \<Rightarrow> 'a list \<Rightarrow> 'a list" where
  "insert_by cmp x [] = [x]"
| "insert_by cmp x (y # ys) = (if cmp x y \<le> 0 then x # y # ys else y # insert_by cmp x ys)"

text \<open>\<open>SortFunc\<close> leaves equal elements in an unspecified order; every use in the
  development is on elements that the comparison tells apart, where the sorted
  list is unique.\<close>

fun SortFunc :: "('a \<Rightarrow> 'a \<Rightarrow> int) \<Rightarrow> 'a list \<Rightarrow> 'a list" where
  "SortFunc cmp [] = []"
| "SortFunc cmp (x # xs) = insert_by cmp x (SortFunc cmp xs)"

fun bit_len :: "nat \<Rightarrow> nat" where
  "bit_len n = (if n = 0 then 0 else Suc (bit_len (n div 2)))"

declare bit_len.simps [simp del]

definition bits_Len64 :: "u64 \<Rightarrow> nat" where
  "bits_Len64 w = bit_len (unat w)"

section \<open>Loops that may stop early\<close>

text \<open>A loop whose body may return an error, or run out of fuel (\<open>None\<close>).\<close>

primrec fold_err :: "('s \<Rightarrow> 'x \<Rightarrow> ('e + 's) option) \<Rightarrow> 's \<Rightarrow> 'x list \<Rightarrow> ('e + 's) option" where
  "fold_err f s [] = Some (Inr s)"
| "fold_err f s (x # xs) =
     (case f s x of
        None \<Rightarrow> None
      | Some (Inl e) \<Rightarrow> Some (Inl e)
      | Some (Inr s') \<Rightarrow> fold_err f s' xs)"

text \<open>The results of a fallible function on every element, or the first error.\<close>

primrec map_err :: "('x \<Rightarrow> 'e + 'y) \<Rightarrow> 'x list \<Rightarrow> 'e + 'y list" where
  "map_err f [] = Inr []"
| "map_err f (x # xs) =
     (case f x of
        Inl e \<Rightarrow> Inl e
      | Inr y \<Rightarrow> (case map_err f xs of Inl e \<Rightarrow> Inl e | Inr ys \<Rightarrow> Inr (y # ys)))"

section \<open>Lemmas: big-endian numbers\<close>

lemma length_be_bytes [simp]: "length (be_bytes n v) = n"
  by (induction n arbitrary: v) auto

lemma be_val_Nil [simp]: "be_val [] = 0"
  by (simp add: be_val_def)

lemma be_val_snoc [simp]: "be_val (bs @ [b]) = be_val bs * 256 + unat b"
  by (simp add: be_val_def)

lemma be_val_bound: "be_val bs < 256 ^ length bs"
proof (induction bs rule: rev_induct)
  case (snoc b bs)
  have "unat b < 256" using unsigned_less [of b] by simp
  with snoc show ?case by simp
qed simp

lemma be_val_bytes: "be_val (be_bytes n v) = v mod 256 ^ n"
proof (induction n arbitrary: v)
  case (Suc n)
  have "v mod 256 ^ Suc n = (v div 256 mod 256 ^ n) * 256 + v mod 256"
    using mod_mult2_eq [of v 256 "256 ^ n"] by simp
  with Suc show ?case by (simp add: unat_of_nat)
qed simp

lemma be_bytes_val: "be_bytes (length bs) (be_val bs) = bs"
proof (induction bs rule: rev_induct)
  case (snoc b bs)
  have b: "unat b < 256" using unsigned_less [of b] by simp
  have "(of_nat (be_val bs * 256 + unat b) :: byte) = b"
  proof -
    have "unat (of_nat (be_val bs * 256 + unat b) :: byte) = unat b"
      using b by (simp only: unat_of_nat) simp
    then show ?thesis by (rule word_unat_eq_iff [THEN iffD2])
  qed
  then show ?case using b snoc by simp
qed simp

lemma be_bytes_map: "be_bytes n v = map (\<lambda>i. of_nat (v div 256 ^ (n - 1 - i))) [0..<n]"
proof (induction n arbitrary: v)
  case (Suc n)
  have "of_nat (v div 256 div 256 ^ (n - 1 - i)) = (of_nat (v div 256 ^ (n - i)) :: byte)"
    if "i < n" for i
  proof -
    have "n - i = Suc (n - 1 - i)" using that by simp
    then show ?thesis by (simp add: div_mult2_eq)
  qed
  with Suc show ?case by simp
qed simp

lemma be_val_append: "be_val (xs @ ys) = be_val xs * 256 ^ length ys + be_val ys"
proof (induction ys rule: rev_induct)
  case (snoc y ys)
  have "be_val (xs @ ys @ [y]) = be_val ((xs @ ys) @ [y])" by simp
  with snoc show ?case by (simp only: be_val_snoc) (simp add: algebra_simps)
qed simp

lemma be_val_zeros [simp]: "be_val (replicate n 0 @ bs) = be_val bs"
  by (induction bs rule: rev_induct)
     (induction n, simp_all add: be_val_def flip: append_assoc)

lemma unat_mod_self [simp]: "unat w mod 2 ^ LENGTH('a) = unat (w :: 'a::len word)"
  by (rule mod_less) (rule unsigned_less)

lemma unat_byte [simp]: "unat (b :: byte) < 256"
  using unsigned_less [of b] by simp

lemma unat_u32: "unat (w :: u32) < 2 ^ 32"
  using unsigned_less [of w] by simp

lemma unat_u64: "unat (w :: u64) < 2 ^ 64"
  using unsigned_less [of w] by simp

lemma PutUint_length [simp, codec_simps]:
  "length (PutUint16 a) = 2" "length (PutUint32 b) = 4" "length (PutUint64 c) = 8"
  by (simp_all add: PutUint16_def PutUint32_def PutUint64_def)

lemma Uint16_PutUint16 [simp, codec_simps]: "Uint16 (PutUint16 w @ rest) = w"
  using unat_mod_self [of w] by (simp add: Uint16_def PutUint16_def be_val_bytes of_nat_unat)

lemma Uint32_PutUint32 [simp, codec_simps]: "Uint32 (PutUint32 w @ rest) = w"
  using unat_mod_self [of w] by (simp add: Uint32_def PutUint32_def be_val_bytes of_nat_unat)

lemma Uint64_PutUint64 [simp, codec_simps]: "Uint64 (PutUint64 w @ rest) = w"
  using unat_mod_self [of w] by (simp add: Uint64_def PutUint64_def be_val_bytes of_nat_unat)

lemma Uint_PutUint_exact [simp, codec_simps]:
  "Uint16 (PutUint16 a) = a" "Uint32 (PutUint32 b) = b" "Uint64 (PutUint64 c) = c"
  using Uint16_PutUint16 [of a "[]"] Uint32_PutUint32 [of b "[]"] Uint64_PutUint64 [of c "[]"]
  by simp_all

lemma unat_Uint16: "unat (Uint16 bs) = be_val (take 2 bs)"
proof -
  have "be_val (take 2 bs) < 256 ^ length (take 2 bs)" by (rule be_val_bound)
  also have "\<dots> \<le> 256 ^ 2" by (rule power_increasing) auto
  finally show ?thesis by (simp add: Uint16_def unat_of_nat)
qed

lemma unat_ucast_wider:
  assumes "LENGTH('a) \<le> LENGTH('b)"
  shows "unat (ucast (w :: 'a::len word) :: 'b::len word) = unat w"
proof -
  have "unat w < 2 ^ LENGTH('a)" by (rule unsigned_less)
  also have "\<dots> \<le> 2 ^ LENGTH('b)" using assms by (intro power_increasing) auto
  finally show ?thesis by (simp add: unsigned_ucast_eq take_bit_nat_eq_self)
qed

lemma unat_Uint32: "unat (Uint32 bs) = be_val (take 4 bs)"
proof -
  have "be_val (take 4 bs) < 256 ^ length (take 4 bs)" by (rule be_val_bound)
  also have "\<dots> \<le> 256 ^ 4" by (rule power_increasing) auto
  finally show ?thesis by (simp add: Uint32_def unat_of_nat)
qed

lemma unat_Uint64: "unat (Uint64 bs) = be_val (take 8 bs)"
proof -
  have "be_val (take 8 bs) < 256 ^ length (take 8 bs)" by (rule be_val_bound)
  also have "\<dots> \<le> 256 ^ 8" by (rule power_increasing) auto
  finally show ?thesis by (simp add: Uint64_def unat_of_nat)
qed

lemma PutUint32_Uint32: "length bs = 4 \<Longrightarrow> PutUint32 (Uint32 bs) = bs"
  using be_bytes_val [of bs] by (simp add: PutUint32_def unat_Uint32)

lemma PutUint64_Uint64: "length bs = 8 \<Longrightarrow> PutUint64 (Uint64 bs) = bs"
  using be_bytes_val [of bs] by (simp add: PutUint64_def unat_Uint64)

section \<open>Lemmas: comparing, searching, sorting\<close>

lemma bytes_Compare_iff:
  "(bytes_Compare xs ys = 0 \<longleftrightarrow> xs = ys) \<and> (bytes_Compare xs ys < 0 \<longleftrightarrow> xs < ys)"
proof (induction xs ys rule: bytes_Compare.induct)
  case (4 x xs y ys)
  then show ?case by (auto simp: not_less_iff_gr_or_eq)
qed (auto)

lemma bytes_Compare_eq [simp]: "bytes_Compare xs ys = 0 \<longleftrightarrow> xs = ys"
  using bytes_Compare_iff by blast

lemma bytes_Compare_less [simp]: "bytes_Compare xs ys < 0 \<longleftrightarrow> xs < ys"
  using bytes_Compare_iff by blast

lemma bytes_Compare_le [simp]: "bytes_Compare xs ys \<le> 0 \<longleftrightarrow> xs \<le> ys"
  using bytes_Compare_iff [of xs ys] by (auto simp: le_less)

lemma bytes_Compare_ge [simp]: "0 \<le> bytes_Compare xs ys \<longleftrightarrow> ys \<le> xs"
  using bytes_Compare_less [of xs ys] by (simp add: not_less [symmetric] del: bytes_Compare_less)

lemma bytes_Compare_greater [simp]: "0 < bytes_Compare xs ys \<longleftrightarrow> ys < xs"
  using bytes_Compare_le [of xs ys] by (simp add: not_le [symmetric] del: bytes_Compare_le)

lemma search_loop_spec:
  assumes "i \<le> j" and "\<And>a b. a \<le> b \<Longrightarrow> b < n \<Longrightarrow> f a \<Longrightarrow> f b" and "j \<le> n"
    and "\<And>a. a < i \<Longrightarrow> \<not> f a" and "\<And>b. j \<le> b \<Longrightarrow> b < n \<Longrightarrow> f b"
  shows "search_loop f i j \<le> n \<and> (\<forall>a < search_loop f i j. \<not> f a) \<and>
         (\<forall>b. search_loop f i j \<le> b \<longrightarrow> b < n \<longrightarrow> f b)"
  using assms
proof (induction f i j rule: search_loop.induct)
  case (1 f i j)
  define h where "h = (i + j) div 2"
  show ?case
  proof (cases "i < j")
    case False
    with "1.prems"(1) have "i = j" by simp
    then show ?thesis
      using "1.prems" by (simp add: search_loop.simps [of f j j])
  next
    case True
    then have h: "i \<le> h" "h < j" by (auto simp: h_def)
    show ?thesis
    proof (cases "f h")
      case True
      have up: "f b" if "h \<le> b" "b < n" for b
        using "1.prems"(2) [OF that] True by simp
      have "search_loop f i j = search_loop f i h"
        using \<open>i < j\<close> True by (simp add: search_loop.simps [of f i j] Let_def h_def)
      moreover have "search_loop f i h \<le> n \<and> (\<forall>a < search_loop f i h. \<not> f a) \<and>
         (\<forall>b. search_loop f i h \<le> b \<longrightarrow> b < n \<longrightarrow> f b)"
        using "1.IH"(2) [OF \<open>i < j\<close> h_def] True h "1.prems" up by simp
      ultimately show ?thesis by simp
    next
      case False
      have down: "\<not> f a" if "a < h + 1" for a
      proof
        assume "f a"
        with that h "1.prems"(3) have "f h" using "1.prems"(2) [of a h] by simp
        with False show False by simp
      qed
      have "search_loop f i j = search_loop f (h + 1) j"
        using \<open>i < j\<close> False by (simp add: search_loop.simps [of f i j] Let_def h_def)
      moreover have "search_loop f (h + 1) j \<le> n \<and> (\<forall>a < search_loop f (h + 1) j. \<not> f a) \<and>
         (\<forall>b. search_loop f (h + 1) j \<le> b \<longrightarrow> b < n \<longrightarrow> f b)"
        using "1.IH"(1) [OF \<open>i < j\<close> h_def] False h "1.prems" down by simp
      ultimately show ?thesis by simp
    qed
  qed
qed

text \<open>\<open>sort.Search\<close> finds the least index at which a monotone predicate holds.\<close>

lemma sort_Search_spec:
  assumes "\<And>a b. a \<le> b \<Longrightarrow> b < n \<Longrightarrow> f a \<Longrightarrow> f b"
  shows "sort_Search n f \<le> n" and "a < sort_Search n f \<Longrightarrow> \<not> f a"
    and "sort_Search n f \<le> b \<Longrightarrow> b < n \<Longrightarrow> f b"
  using search_loop_spec [of 0 n n f] assms by (auto simp: sort_Search_def)

lemma sort_Search_cong:
  assumes "\<And>i. i < n \<Longrightarrow> f i = g i"
  shows "sort_Search n f = sort_Search n g"
proof -
  have "search_loop f i j = search_loop g i j" if "j \<le> n" for i j
    using that assms
  proof (induction f i j rule: search_loop.induct)
    case (1 f i j)
    show ?case
    proof (cases "i < j")
      case True
      define h where "h = (i + j) div 2"
      have "h < n" using True "1.prems"(1) by (simp add: h_def)
      then have "f h = g h" by (rule "1.prems"(2))
      then show ?thesis
        using "1.IH" [OF True h_def] "1.prems" True \<open>h < n\<close>
        by (subst (1 2) search_loop.simps) (simp add: Let_def h_def [symmetric])
    qed (simp add: search_loop.simps)
  qed
  then show ?thesis by (simp add: sort_Search_def)
qed

lemma sort_Search_eqI:
  assumes "\<And>a b. a \<le> b \<Longrightarrow> b < n \<Longrightarrow> f a \<Longrightarrow> f b"
    and "m \<le> n" and "\<And>a. a < m \<Longrightarrow> \<not> f a" and "\<And>b. m \<le> b \<Longrightarrow> b < n \<Longrightarrow> f b"
  shows "sort_Search n f = m"
proof (rule antisym)
  show "sort_Search n f \<le> m"
  proof (rule ccontr)
    assume "\<not> sort_Search n f \<le> m"
    then have "m < sort_Search n f" by simp
    then have "\<not> f m" and "m < n"
      using sort_Search_spec(1,2) [where n = n and f = f, OF assms(1)] by (auto intro: less_le_trans)
    with assms(4) show False by simp
  qed
  show "m \<le> sort_Search n f"
  proof (rule ccontr)
    assume "\<not> m \<le> sort_Search n f"
    then have "sort_Search n f < m" by simp
    with assms(2,3) show False
      using sort_Search_spec(3) [where n = n and f = f and b = "sort_Search n f", OF assms(1)] by auto
  qed
qed

text \<open>On a list over which the predicate is monotone, the search skips a prefix.\<close>

lemma sort_Search_takeWhile:
  assumes "\<And>i j. i \<le> j \<Longrightarrow> j < length xs \<Longrightarrow> P (xs ! i) \<Longrightarrow> P (xs ! j)"
  shows "sort_Search (length xs) (\<lambda>i. P (xs ! i)) = length (takeWhile (\<lambda>x. \<not> P x) xs)"
proof (rule sort_Search_eqI)
  let ?m = "length (takeWhile (\<lambda>x. \<not> P x) xs)"
  show "?m \<le> length xs" by (rule length_takeWhile_le)
  show "\<not> P (xs ! a)" if "a < ?m" for a
    using nth_length_takeWhile that by (metis nth_mem set_takeWhileD takeWhile_nth)
  show "P (xs ! b)" if "?m \<le> b" "b < length xs" for b
    using assms [OF that] nth_length_takeWhile [of "\<lambda>x. \<not> P x" xs] that by auto
qed (rule assms)

lemma drop_takeWhile: "drop (length (takeWhile P xs)) xs = dropWhile P xs"
  by (simp add: dropWhile_eq_drop)

lemma mset_insert_by [simp]: "mset (insert_by cmp x xs) = add_mset x (mset xs)"
  by (induction xs) auto

lemma mset_SortFunc [simp]: "mset (SortFunc cmp xs) = mset xs"
  by (induction xs) auto

lemma set_SortFunc [simp]: "set (SortFunc cmp xs) = set xs"
  using mset_SortFunc [of cmp xs] by (metis set_mset_mset)

lemma length_SortFunc [simp]: "length (SortFunc cmp xs) = length xs"
  using mset_SortFunc [of cmp xs] by (metis size_mset)

text \<open>A comparison that reads a linearly ordered sort key.\<close>

definition cmp_key :: "('a \<Rightarrow> 'a \<Rightarrow> int) \<Rightarrow> ('a \<Rightarrow> 'k::linorder) \<Rightarrow> bool" where
  "cmp_key cmp key \<longleftrightarrow> (\<forall>a b. cmp a b \<le> 0 \<longleftrightarrow> key a \<le> key b)"

lemma SortFunc_sort_key:
  assumes "cmp_key cmp key"
  shows "SortFunc cmp xs = sort_key key xs"
proof -
  have "insert_by cmp x ys = insort_key key x ys" for x ys
    using assms by (induction ys) (auto simp: cmp_key_def)
  then show ?thesis by (induction xs) auto
qed

text \<open>Sorting by a key that is distinct on the elements does not depend on the
  order they arrive in.\<close>

lemma SortFunc_perm:
  assumes "cmp_key cmp key" and "mset xs = mset ys" and "inj_on key (set xs)"
  shows "SortFunc cmp xs = SortFunc cmp ys"
proof -
  have "sort_key key xs = sort_key key ys"
    using assms(2,3) by (intro sort_key_inj_key_eq) auto
  then show ?thesis by (simp add: SortFunc_sort_key [OF assms(1)])
qed

text \<open>Cutting a sorted list at a predicate that is closed downwards.\<close>

lemma sorted_filter_split:
  assumes "sorted (map f xs)" and "\<And>x y. f x \<le> f y \<Longrightarrow> P y \<Longrightarrow> P x"
  shows "filter P xs @ filter (\<lambda>x. \<not> P x) xs = xs"
  using assms(1)
proof (induction xs)
  case (Cons x xs)
  show ?case
  proof (cases "P x")
    case False
    then have "\<forall>y \<in> set xs. \<not> P y" using Cons.prems assms(2) by fastforce
    then show ?thesis using False by (simp add: filter_empty_conv)
  qed (use Cons in simp)
qed simp

text \<open>Binary search for one key in a strictly sorted list.\<close>

lemma sort_Search_find:
  fixes k :: "'k::linorder"
  assumes "sorted_wrt (<) (map f xs)"
  defines "i \<equiv> sort_Search (length xs) (\<lambda>i. k \<le> f (xs ! i))"
  shows "i \<le> length xs" and "i < length xs \<and> f (xs ! i) = k \<longleftrightarrow> k \<in> f ` set xs"
proof -
  have up: "k \<le> f (xs ! b)" if "a \<le> b" "b < length xs" "k \<le> f (xs ! a)" for a b
  proof (cases "a = b")
    case False
    then have "f (xs ! a) < f (xs ! b)" using assms(1) that by (simp add: sorted_wrt_iff_nth_less)
    with that(3) show ?thesis by simp
  qed (use that in simp)
  have spec: "i \<le> length xs" "\<And>a. a < i \<Longrightarrow> \<not> k \<le> f (xs ! a)"
    "\<And>b. i \<le> b \<Longrightarrow> b < length xs \<Longrightarrow> k \<le> f (xs ! b)"
    using sort_Search_spec [of "length xs" "\<lambda>i. k \<le> f (xs ! i)"] up unfolding i_def by blast+
  show "i \<le> length xs" by (rule spec(1))
  have "i < length xs \<and> f (xs ! i) = k" if k: "k \<in> f ` set xs"
  proof -
    obtain j where j: "j < length xs" "f (xs ! j) = k" using k by (auto simp: in_set_conv_nth)
    have "i \<le> j"
    proof (rule ccontr)
      assume "\<not> i \<le> j"
      then have "\<not> k \<le> f (xs ! j)" using spec(2) [of j] by simp
      with j show False by simp
    qed
    moreover have "k \<le> f (xs ! i)" using spec(3) [of i] \<open>i \<le> j\<close> j by simp
    moreover have "f (xs ! i) < f (xs ! j)" if "i < j"
      using assms(1) that j(1) by (simp add: sorted_wrt_iff_nth_less)
    ultimately have "i = j" using j(2) by (cases "i < j") auto
    then show ?thesis using j by simp
  qed
  then show "i < length xs \<and> f (xs ! i) = k \<longleftrightarrow> k \<in> f ` set xs" by auto
qed

section \<open>Lemmas: bit length\<close>

lemma bit_len_bounds: "0 < n \<Longrightarrow> 2 ^ (bit_len n - 1) \<le> n \<and> n < 2 ^ bit_len n"
proof (induction n rule: bit_len.induct)
  case (1 n)
  show ?case
  proof (cases "n div 2 = 0")
    case True
    then have "n = 1" using "1.prems" by auto
    then show ?thesis by (simp add: bit_len.simps)
  next
    case False
    then have IH: "2 ^ (bit_len (n div 2) - 1) \<le> n div 2 \<and> n div 2 < 2 ^ bit_len (n div 2)"
      using "1.IH" "1.prems" by simp
    have pos: "0 < bit_len (n div 2)"
      using False by (simp add: bit_len.simps [of "n div 2"])
    have "bit_len n = Suc (bit_len (n div 2))"
      using "1.prems" by (simp add: bit_len.simps [of n])
    with IH pos show ?thesis by (cases "bit_len (n div 2)") auto
  qed
qed

lemma bit_len_zero [simp]: "bit_len 0 = 0"
  by (simp add: bit_len.simps)

lemma bit_len_pos: "0 < n \<Longrightarrow> 0 < bit_len n"
  by (simp add: bit_len.simps [of n])

lemma bit_len_le: "n < 2 ^ m \<Longrightarrow> bit_len n \<le> m"
proof (cases "n = 0")
  case False
  assume "n < 2 ^ m"
  then have "2 ^ (bit_len n - 1) < (2::nat) ^ m"
    using bit_len_bounds [of n] False by linarith
  then have "bit_len n - 1 < m" by simp
  then show ?thesis using bit_len_pos [of n] False by simp
qed simp

section \<open>Lemmas: slices and positional writes\<close>

lemma length_slice [simp]: "length (slice lo hi xs) = min (hi - lo) (length xs - lo)"
  by (simp add: slice_def min.commute)

lemma slice_append1 [simp]: "hi \<le> length xs \<Longrightarrow> slice lo hi (xs @ ys) = slice lo hi xs"
  by (auto simp: slice_def)

lemma slice_append2 [simp]:
  "length xs \<le> lo \<Longrightarrow> slice lo hi (xs @ ys) = slice (lo - length xs) (hi - length xs) ys"
  by (simp add: slice_def)

lemma slice_all [simp]: "length xs \<le> hi \<Longrightarrow> slice 0 hi xs = xs"
  by (simp add: slice_def)

lemma slice_middle: "slice (length xs) (length xs + length ys) (xs @ ys @ zs) = ys"
  by (simp add: slice_def)

lemma slice_split: "lo \<le> mid \<Longrightarrow> mid \<le> hi \<Longrightarrow> slice lo mid xs @ slice mid hi xs = slice lo hi xs"
proof -
  assume "lo \<le> mid" "mid \<le> hi"
  then have "hi - lo = (mid - lo) + (hi - mid)" by simp
  then show ?thesis
    using \<open>lo \<le> mid\<close> by (simp only: slice_def take_add drop_drop) simp
qed

lemma slice_one: "i < length xs \<Longrightarrow> slice i (Suc i) xs = [xs ! i]"
  by (simp add: slice_def take_Suc_conv_app_nth)

lemma slice_update: "hi \<le> i \<Longrightarrow> slice lo hi (xs[i := v]) = slice lo hi xs"
  by (cases "lo \<le> i") (simp_all add: slice_def drop_update_swap)

text \<open>Rows of one width in a row.\<close>

lemma concat_rows:
  assumes "\<forall>x \<in> set xs. length x = n"
  shows "length (concat xs) = n * length xs" "i \<le> length xs \<Longrightarrow> drop (i * n) (concat xs) = concat (drop i xs)"
proof -
  show "length (concat xs) = n * length xs" using assms by (induction xs) auto
  show "i \<le> length xs \<Longrightarrow> drop (i * n) (concat xs) = concat (drop i xs)"
    using assms
  proof (induction xs arbitrary: i)
    case (Cons x xs)
    then show ?case by (cases i) (auto simp: add.commute [of n] drop_drop [symmetric] simp del: drop_drop)
  qed simp
qed

lemma concat_row_at:
  assumes "\<forall>x \<in> set xs. length x = n" and "i < length xs"
  shows "drop (i * n) (concat xs) = xs ! i @ concat (drop (Suc i) xs)"
  using concat_rows(2) [OF assms(1), of i] assms(2) by (simp add: Cons_nth_drop_Suc [symmetric])

lemma take_slice: "take n xs = slice 0 n xs"
  by (simp add: slice_def)

lemma list_all2_set1: "list_all2 P xs ys \<Longrightarrow> x \<in> set xs \<Longrightarrow> \<exists>y \<in> set ys. P x y"
  by (induction xs ys rule: list_all2_induct) auto

lemma list_all2_set2: "list_all2 P xs ys \<Longrightarrow> y \<in> set ys \<Longrightarrow> \<exists>x \<in> set xs. P x y"
  by (induction xs ys rule: list_all2_induct) auto

lemma map_err_ok: "map_err f xs = Inr ys \<longleftrightarrow> list_all2 (\<lambda>x y. f x = Inr y) xs ys"
proof (induction xs arbitrary: ys)
  case (Cons x xs)
  have "map_err f (x # xs) = Inr ys \<longleftrightarrow>
      (\<exists>z zs. ys = z # zs \<and> f x = Inr z \<and> map_err f xs = Inr zs)"
    by (auto split: sum.splits)
  then show ?case by (auto simp: Cons.IH list_all2_Cons1)
qed auto

lemma map_err_bad: "map_err f xs = Inl e \<Longrightarrow> \<exists>x \<in> set xs. f x = Inl e"
  by (induction xs) (auto split: sum.splits)

lemma map_err_ok_map: "(\<And>x. x \<in> set xs \<Longrightarrow> f x = Inr (g x)) \<Longrightarrow> map_err f xs = Inr (map g xs)"
  by (induction xs) auto

lemma xor_right_cancel: "a XOR c = b XOR c \<Longrightarrow> a = (b :: 'a::len word)"
proof -
  assume "a XOR c = b XOR c"
  then have "(a XOR c) XOR c = (b XOR c) XOR c" by simp
  then show ?thesis by (simp add: xor.assoc)
qed

lemma write_at_end [simp]: "write_at f (length f) data = f @ data"
  by (simp add: write_at_def)

lemma take_write_at: "n \<le> off \<Longrightarrow> off \<le> length f \<Longrightarrow> take n (write_at f off data) = take n f"
  by (simp add: write_at_def)

lemma take_write_at_over:
  "off \<le> length f \<Longrightarrow> take (off + length data) (write_at f off data) = take off f @ data"
  by (simp add: write_at_def)

lemma length_write_at: "length (write_at f off data) = max (length f) (off + length data)"
  by (auto simp: write_at_def)

text \<open>Iterating a step that lowers a measure.\<close>

lemma funpow_shrinks:
  assumes "\<And>p. P p \<Longrightarrow> P (f p) \<and> m (f p) \<le> m p - (1 :: nat)" and "P p"
  shows "P ((f ^^ n) p) \<and> m ((f ^^ n) p) \<le> m p - n"
proof (induction n)
  case 0
  then show ?case using assms(2) by simp
next
  case (Suc n)
  then show ?case using assms(1) [of "(f ^^ n) p"] by simp linarith
qed

end
