(* ===== verification/Amber_Key.thy ===== *)
theory Amber_Key
  imports Amber_Prelude
begin

text \<open>
  Package \<open>key\<close>: the 32-byte lookup key. A key is the byte array of the source,
  here a byte list that the well-formedness predicate \<open>is_key\<close> bounds to 32 bytes;
  the accessors, \<open>Validate\<close>, \<open>Parse\<close> and the constructors follow key.go line by line.
  BLAKE3 is a third-party package and a parameter of \<open>New\<close>. The lemmas show that
  \<open>NewFromHash\<close> and the accessors are inverse to each other on canonical keys, so a
  canonical key is determined by its type, length and truncated hash.
\<close>

section \<open>Types and errors\<close>

type_synonym key = bytes
type_synonym ktype = "8 word"

datatype key_err =
    ErrBadKeyLength nat
  | ErrReservedBitSet
  | ErrReservedType ktype
  | ErrNonCanonicalLength

definition Size :: nat where "Size = 32"

definition Blob :: ktype where "Blob = 0"
definition FileNode :: ktype where "FileNode = 1"
definition DirLeaf :: ktype where "DirLeaf = 2"
definition DirNode :: ktype where "DirNode = 3"
definition XattrSet :: ktype where "XattrSet = 4"

lemmas ktype_defs = Blob_def FileNode_def DirLeaf_def DirNode_def XattrSet_def

definition IsValid :: "ktype \<Rightarrow> bool" where
  "IsValid t \<longleftrightarrow> t \<le> XattrSet"

fun decimal :: "nat \<Rightarrow> string" where
  "decimal n = (if n < 10 then [char_of (48 + n)] else decimal (n div 10) @ [char_of (48 + n mod 10)])"

declare decimal.simps [simp del]

definition Type_String :: "ktype \<Rightarrow> string" where
  "Type_String t =
     (if t = Blob then ''Blob''
      else if t = FileNode then ''FileNode''
      else if t = DirLeaf then ''DirLeaf''
      else if t = DirNode then ''DirNode''
      else if t = XattrSet then ''XattrSet''
      else ''Type('' @ decimal (unat t) @ '')'')"

section \<open>Accessors\<close>

definition Key_Type :: "key \<Rightarrow> ktype" where
  "Key_Type k = drop_bit 4 (k ! 0)"

definition LengthSize :: "key \<Rightarrow> nat" where
  "LengthSize k = unat (k ! 0 AND 7) + 1"

definition Key_Length :: "key \<Rightarrow> u64" where
  "Key_Length k =
     (let ls = LengthSize k in Uint64 (replicate (8 - ls) 0 @ slice 1 (1 + ls) k))"

definition Key_Hash :: "key \<Rightarrow> bytes" where
  "Key_Hash k = drop (1 + LengthSize k) k"

definition lengthSizeFor :: "u64 \<Rightarrow> nat" where
  "lengthSizeFor len = (if len = 0 then 1 else (bits_Len64 len + 7) div 8)"

section \<open>Validation and construction\<close>

definition Validate :: "key \<Rightarrow> key_err + unit" where
  "Validate k =
     (if k ! 0 AND 8 \<noteq> 0 then Inl ErrReservedBitSet
      else if \<not> IsValid (Key_Type k) then Inl (ErrReservedType (Key_Type k))
      else if k ! 1 = 0 \<and> \<not> (LengthSize k = 1 \<and> Key_Length k = 0) then Inl ErrNonCanonicalLength
      else Inr ())"

definition Parse :: "bytes \<Rightarrow> key_err + key" where
  "Parse b =
     (if length b \<noteq> Size then Inl (ErrBadKeyLength (length b))
      else case Validate b of Inl e \<Rightarrow> Inl e | Inr _ \<Rightarrow> Inr b)"

definition hex_digit :: "nat \<Rightarrow> char" where
  "hex_digit n = char_of (if n < 10 then 48 + n else 87 + n)"

definition hex_byte :: "byte \<Rightarrow> string" where
  "hex_byte b = [hex_digit (unat b div 16), hex_digit (unat b mod 16)]"

definition Key_String :: "key \<Rightarrow> string" where
  "Key_String k = concat (map hex_byte k)"

definition NewFromHash :: "ktype \<Rightarrow> u64 \<Rightarrow> bytes \<Rightarrow> key_err + key" where
  "NewFromHash t len fullHash =
     (if \<not> IsValid t then Inl (ErrReservedType t)
      else let ls = lengthSizeFor len
           in Inr ((push_bit 4 t OR of_nat (ls - 1)) #
                   drop (8 - ls) (PutUint64 len) @ take (Size - 1 - ls) fullHash))"

definition Key_New :: "(bytes \<Rightarrow> bytes) \<Rightarrow> ktype \<Rightarrow> u64 \<Rightarrow> bytes \<Rightarrow> key_err + key" where
  "Key_New blake3 t len serialized = NewFromHash t len (blake3 serialized)"

section \<open>Well-formedness\<close>

definition is_key :: "key \<Rightarrow> bool" where
  "is_key k \<longleftrightarrow> length k = Size"

definition canonical :: "key \<Rightarrow> bool" where
  "canonical k \<longleftrightarrow> is_key k \<and> Validate k = Inr ()"

section \<open>Lemmas: the length field\<close>

lemma lengthSizeFor_range: "1 \<le> lengthSizeFor len \<and> lengthSizeFor len \<le> 8"
proof (cases "len = 0")
  case False
  then have "0 < unat len" by (simp add: unat_gt_0)
  then have "0 < bits_Len64 len" by (simp add: bits_Len64_def bit_len_pos)
  moreover have "bits_Len64 len \<le> 64"
    unfolding bits_Len64_def by (rule bit_len_le) (rule unat_u64)
  ultimately show ?thesis using False by (auto simp: lengthSizeFor_def)
qed (simp add: lengthSizeFor_def)

lemma lengthSizeFor_upper: "unat len < 256 ^ lengthSizeFor len"
proof (cases "len = 0")
  case False
  define L where "L = bit_len (unat len)"
  have "unat len < 2 ^ L"
    using False bit_len_bounds [of "unat len"] by (simp add: L_def unat_gt_0)
  also have "\<dots> \<le> 2 ^ (8 * ((L + 7) div 8))" by (rule power_increasing) auto
  finally show ?thesis using False by (simp add: lengthSizeFor_def bits_Len64_def L_def power_mult)
qed (simp add: lengthSizeFor_def)

lemma lengthSizeFor_lower: "len \<noteq> 0 \<Longrightarrow> 256 ^ (lengthSizeFor len - 1) \<le> unat len"
proof -
  assume nz: "len \<noteq> 0"
  define L where "L = bit_len (unat len)"
  have pos: "0 < L" using nz by (simp add: L_def unat_gt_0 bit_len_pos)
  have "(256::nat) ^ ((L + 7) div 8 - 1) = 2 ^ (8 * ((L + 7) div 8 - 1))"
    by (simp add: power_mult)
  also have "\<dots> \<le> 2 ^ (L - 1)" using pos by (intro power_increasing) auto
  also have "\<dots> \<le> unat len"
    using nz bit_len_bounds [of "unat len"] by (simp add: L_def unat_gt_0)
  finally show ?thesis using nz by (simp add: lengthSizeFor_def bits_Len64_def L_def)
qed

lemma power256_between_unique:
  assumes "256 ^ a \<le> (n::nat)" "n < 256 ^ Suc a" "256 ^ b \<le> n" "n < 256 ^ Suc b"
  shows "a = b"
proof (rule ccontr)
  assume "a \<noteq> b"
  then consider "Suc a \<le> b" | "Suc b \<le> a" by linarith
  then show False
  proof cases
    case 1
    then have "(256::nat) ^ Suc a \<le> 256 ^ b" by (intro power_increasing) auto
    with assms show False by linarith
  next
    case 2
    then have "(256::nat) ^ Suc b \<le> 256 ^ a" by (intro power_increasing) auto
    with assms show False by linarith
  qed
qed

lemma lengthSizeFor_unique:
  assumes "1 \<le> m" "256 ^ (m - 1) \<le> unat len" "unat len < 256 ^ m"
  shows "lengthSizeFor len = m"
proof -
  have nz: "len \<noteq> 0"
  proof
    assume "len = 0"
    with assms(2) show False by simp
  qed
  obtain a where a: "m = Suc a" using assms(1) by (cases m) auto
  obtain b where b: "lengthSizeFor len = Suc b"
    using lengthSizeFor_range [of len] by (cases "lengthSizeFor len") auto
  have "a = b"
    using assms lengthSizeFor_upper [of len] lengthSizeFor_lower [OF nz] a b
    by (intro power256_between_unique [of a "unat len" b]) simp_all
  with a b show ?thesis by simp
qed

lemma drop_be_bytes: "m \<le> n \<Longrightarrow> drop (n - m) (be_bytes n v) = be_bytes m v"
proof (induction n arbitrary: m v)
  case (Suc n)
  show ?case
  proof (cases m)
    case (Suc m')
    then show ?thesis using Suc.IH [of m' "v div 256"] Suc.prems by simp
  qed simp
qed simp

lemma be_bytes_top: "be_bytes (Suc m) v ! 0 = of_nat (v div 256 ^ m)"
proof (induction m arbitrary: v)
  case (Suc m)
  have "be_bytes (Suc (Suc m)) v ! 0 = be_bytes (Suc m) (v div 256) ! 0"
    by (subst be_bytes.simps(2)) (simp add: nth_append del: be_bytes.simps)
  also have "\<dots> = of_nat (v div 256 div 256 ^ m)" by (rule Suc.IH)
  finally show ?case by (simp add: div_mult2_eq)
qed simp

lemma be_val_top: "bs \<noteq> [] \<Longrightarrow> bs ! 0 \<noteq> 0 \<Longrightarrow> 256 ^ (length bs - 1) \<le> be_val bs"
proof (cases bs)
  case (Cons b rest)
  assume "bs ! 0 \<noteq> 0"
  with Cons have "1 \<le> unat b" by (simp add: unat_gt_0 Suc_le_eq)
  then have "1 * 256 ^ length rest \<le> unat b * 256 ^ length rest" by (rule mult_le_mono1)
  moreover have "be_val bs = unat b * 256 ^ length rest + be_val rest"
    using be_val_append [of "[b]" rest] Cons by (simp add: be_val_def)
  ultimately have "256 ^ length rest \<le> be_val bs" by linarith
  then show ?thesis using Cons by simp
qed simp

section \<open>Lemmas: the header byte\<close>

lemma small_type_cases: "IsValid t \<Longrightarrow> t = 0 \<or> t = 1 \<or> t = 2 \<or> t = 3 \<or> t = 4"
proof -
  assume "IsValid t"
  then have "unat t \<le> 4" by (simp add: IsValid_def XattrSet_def word_le_nat_alt)
  then have "unat t = 0 \<or> unat t = 1 \<or> unat t = 2 \<or> unat t = 3 \<or> unat t = 4" by linarith
  then show ?thesis by (auto simp: word_unat_eq_iff)
qed

lemma header_fields:
  assumes "IsValid t" "1 \<le> ls" "ls \<le> 8"
  defines "h \<equiv> push_bit 4 t OR of_nat (ls - 1) :: byte"
  shows "drop_bit 4 h = t" "h AND 8 = 0" "unat (h AND 7) + 1 = ls"
proof -
  have "ls = 1 \<or> ls = 2 \<or> ls = 3 \<or> ls = 4 \<or> ls = 5 \<or> ls = 6 \<or> ls = 7 \<or> ls = 8"
    using assms(2,3) by linarith
  then show "drop_bit 4 h = t" "h AND 8 = 0" "unat (h AND 7) + 1 = ls"
    using small_type_cases [OF assms(1)] by (auto simp: h_def)
qed

section \<open>Lemmas: constructor and accessors are inverse\<close>

lemma Parse_ok: "Parse b = Inr k \<longleftrightarrow> k = b \<and> canonical b"
  by (auto simp: Parse_def canonical_def is_key_def split: sum.splits)

lemma canonical_parts:
  "canonical k \<longleftrightarrow> is_key k \<and> k ! 0 AND 8 = 0 \<and> IsValid (Key_Type k) \<and>
     (k ! 1 = 0 \<longrightarrow> LengthSize k = 1 \<and> Key_Length k = 0)"
  by (auto simp: canonical_def Validate_def split: if_splits)

lemma LengthSize_range: "1 \<le> LengthSize k \<and> LengthSize k \<le> 8"
proof -
  have "k ! 0 AND 7 \<le> (7 :: byte)" by (rule word_and_le1)
  then have "unat (k ! 0 AND 7) \<le> 7" by (simp add: word_le_nat_alt)
  then show ?thesis by (simp add: LengthSize_def)
qed

lemma unat_Key_Length:
  assumes "is_key k"
  shows "unat (Key_Length k) = be_val (slice 1 (1 + LengthSize k) k)"
proof -
  define ls where "ls = LengthSize k"
  have "ls \<le> 8" using LengthSize_range [of k] by (simp add: ls_def)
  then show ?thesis
    using assms by (simp add: Key_Length_def ls_def [symmetric] Let_def unat_Uint64 is_key_def Size_def)
qed

lemma NewFromHash_fields:
  assumes "NewFromHash t len h = Inr k" and "length h = 32"
  shows "is_key k" "Key_Type k = t" "LengthSize k = lengthSizeFor len"
    "k ! 0 AND 8 = 0" "slice 1 (1 + lengthSizeFor len) k = be_bytes (lengthSizeFor len) (unat len)"
    "Key_Hash k = take (31 - lengthSizeFor len) h"
proof -
  define ls where "ls = lengthSizeFor len"
  have ls: "1 \<le> ls" "ls \<le> 8" using lengthSizeFor_range by (auto simp: ls_def)
  have t: "IsValid t" using assms(1) by (auto simp: NewFromHash_def split: if_splits)
  have mid: "drop (8 - ls) (PutUint64 len) = be_bytes ls (unat len)"
    using ls by (simp add: PutUint64_def drop_be_bytes)
  have k: "k = (push_bit 4 t OR of_nat (ls - 1)) # be_bytes ls (unat len) @ take (31 - ls) h"
    using assms(1) t mid by (simp add: NewFromHash_def Let_def ls_def [symmetric] Size_def)
  show "is_key k" using ls assms(2) by (simp add: k is_key_def Size_def)
  show "Key_Type k = t" "k ! 0 AND 8 = 0"
    using header_fields [OF t ls] by (simp_all add: Key_Type_def k)
  show L: "LengthSize k = lengthSizeFor len"
    using header_fields(3) [OF t ls] by (simp add: LengthSize_def k ls_def del: of_nat_diff)
  show "slice 1 (1 + lengthSizeFor len) k = be_bytes (lengthSizeFor len) (unat len)"
    by (simp add: slice_def k ls_def)
  show "Key_Hash k = take (31 - lengthSizeFor len) h"
    by (simp add: Key_Hash_def L) (simp add: k ls_def)
qed

lemma NewFromHash_Length:
  assumes "NewFromHash t len h = Inr k" and "length h = 32"
  shows "Key_Length k = len"
proof -
  have "unat (Key_Length k) = unat len mod 256 ^ lengthSizeFor len"
    using NewFromHash_fields(1,3,5) [OF assms] by (simp add: unat_Key_Length be_val_bytes)
  also have "\<dots> = unat len" by (rule mod_less) (rule lengthSizeFor_upper)
  finally show ?thesis by (rule word_unat_eq_iff [THEN iffD2])
qed

lemma NewFromHash_canonical:
  assumes "NewFromHash t len h = Inr k" and "length h = 32"
  shows "canonical k"
proof -
  define ls where "ls = lengthSizeFor len"
  obtain m where m: "ls = Suc m"
    using lengthSizeFor_range [of len] by (cases ls) (auto simp: ls_def)
  have t: "IsValid t" using assms(1) by (auto simp: NewFromHash_def split: if_splits)
  have k1: "k ! 1 = of_nat (unat len div 256 ^ m)"
  proof -
    have "k ! 1 = slice 1 (1 + ls) k ! 0"
      using NewFromHash_fields(1) [OF assms] m by (simp add: slice_def is_key_def Size_def)
    also have "\<dots> = be_bytes (Suc m) (unat len) ! 0"
      using NewFromHash_fields(5) [OF assms] by (simp only: ls_def [symmetric] m)
    also have "\<dots> = of_nat (unat len div 256 ^ m)" by (rule be_bytes_top)
    finally show ?thesis .
  qed
  have "len = 0" if z: "k ! 1 = 0"
  proof (rule ccontr)
    assume nz: "len \<noteq> 0"
    have lo: "256 ^ m \<le> unat len" and hi: "unat len < 256 ^ Suc m"
      using lengthSizeFor_lower [OF nz] lengthSizeFor_upper [of len] by (simp_all add: ls_def [symmetric] m)
    have "1 \<le> unat len div 256 ^ m" using lo by (simp add: Suc_le_eq div_greater_zero_iff)
    moreover have "unat len div 256 ^ m < 256" using hi by (simp add: less_mult_imp_div_less)
    moreover have "unat (of_nat (unat len div 256 ^ m) :: byte) = 0" using z k1 by simp
    ultimately show False by (simp only: unat_of_nat) simp
  qed
  then show ?thesis
    using NewFromHash_fields [OF assms] t NewFromHash_Length [OF assms]
    by (auto simp: canonical_parts lengthSizeFor_def)
qed

lemma canonical_lengthSizeFor:
  assumes "canonical k"
  shows "lengthSizeFor (Key_Length k) = LengthSize k"
proof (cases "k ! 1 = 0")
  case True
  then show ?thesis using assms by (simp add: canonical_parts lengthSizeFor_def)
next
  case False
  define f where "f = slice 1 (1 + LengthSize k) k"
  have len: "length f = LengthSize k"
    using assms LengthSize_range [of k] by (simp add: f_def canonical_parts is_key_def Size_def)
  have "f ! 0 \<noteq> 0" "f \<noteq> []"
    using False assms LengthSize_range [of k]
    by (auto simp: f_def slice_def canonical_parts is_key_def Size_def)
  then have "256 ^ (LengthSize k - 1) \<le> be_val f" using be_val_top [of f] len by simp
  moreover have "be_val f < 256 ^ LengthSize k" using be_val_bound [of f] len by simp
  ultimately show ?thesis
    using assms LengthSize_range [of k]
    by (intro lengthSizeFor_unique) (simp_all add: unat_Key_Length canonical_parts f_def)
qed

lemma header_byte_eq:
  assumes "(b :: byte) AND 8 = 0"
  shows "push_bit 4 (drop_bit 4 b) OR (b AND 7) = b"
proof (rule bit_word_eqI)
  fix n assume n: "n < LENGTH(8)"
  have "\<not> bit (b AND 8) 3" using assms by simp
  then have b3: "\<not> bit b 3" by (simp add: bit_and_iff)
  have "n = 0 \<or> n = 1 \<or> n = 2 \<or> n = 3 \<or> n = 4 \<or> n = 5 \<or> n = 6 \<or> n = 7"
    using n by auto
  then show "bit (push_bit 4 (drop_bit 4 b) OR (b AND 7)) n = bit b n"
    using b3 by (auto simp: bit_simps)
qed

text \<open>A canonical key is rebuilt from its own type, length and hash.\<close>

lemma canonical_rebuild:
  assumes "canonical k" and "length pad = LengthSize k + 1"
  shows "NewFromHash (Key_Type k) (Key_Length k) (Key_Hash k @ pad) = Inr k"
proof -
  define ls where "ls = LengthSize k"
  have ls: "1 \<le> ls" "ls \<le> 8" using LengthSize_range by (auto simp: ls_def)
  have key: "length k = 32" and b8: "k ! 0 AND 8 = 0" and t: "IsValid (Key_Type k)"
    using assms by (simp_all add: canonical_parts is_key_def Size_def)
  have LS: "lengthSizeFor (Key_Length k) = ls"
    using canonical_lengthSizeFor [OF assms(1)] by (simp add: ls_def)
  have h: "push_bit 4 (Key_Type k) OR of_nat (ls - 1) = k ! 0"
    using header_byte_eq [OF b8] by (simp add: Key_Type_def ls_def LengthSize_def of_nat_unat)
  have mid: "drop (8 - ls) (PutUint64 (Key_Length k)) = slice 1 (1 + ls) k"
  proof -
    have "drop (8 - ls) (PutUint64 (Key_Length k)) = be_bytes ls (be_val (slice 1 (1 + ls) k))"
      using ls assms by (simp add: PutUint64_def drop_be_bytes unat_Key_Length canonical_parts ls_def)
    also have "\<dots> = slice 1 (1 + ls) k"
      using be_bytes_val [of "slice 1 (1 + ls) k"] ls key by simp
    finally show ?thesis .
  qed
  have "take (31 - ls) (Key_Hash k @ pad) = Key_Hash k"
    using key by (simp add: Key_Hash_def ls_def)
  moreover have "k = k ! 0 # slice 1 (1 + ls) k @ Key_Hash k"
    using key by (cases k) (auto simp: slice_def Key_Hash_def ls_def)
  ultimately show ?thesis
    using t LS h mid by (simp add: NewFromHash_def Let_def Size_def)
qed

section \<open>Properties\<close>

text \<open>C32: a canonical key is exactly what \<open>NewFromHash\<close> builds from some type, length
  and digest, and it is determined by its type, payload length and truncated hash.\<close>

theorem key_canonical_iff:
  "(canonical k \<longleftrightarrow> (\<exists>t len h. length h = 32 \<and> NewFromHash t len h = Inr k)) \<and>
   (canonical k \<and> canonical k' \<longrightarrow>
     (k = k' \<longleftrightarrow> Key_Type k = Key_Type k' \<and> Key_Length k = Key_Length k' \<and> Key_Hash k = Key_Hash k'))"
proof -
  let ?pad = "\<lambda>k. replicate (LengthSize k + 1) (0 :: byte)"
  have full: "length (Key_Hash k @ ?pad k) = 32" if "canonical k" for k
    using that LengthSize_range [of k]
    by (simp add: Key_Hash_def canonical_def is_key_def Size_def)
  have rebuilt: "NewFromHash (Key_Type k) (Key_Length k) (Key_Hash k @ ?pad k) = Inr k" if "canonical k" for k
    using that by (rule canonical_rebuild) simp
  have "k = k'" if "canonical k" "canonical k'" "Key_Type k = Key_Type k'"
    "Key_Length k = Key_Length k'" "Key_Hash k = Key_Hash k'"
  proof -
    have "LengthSize k = LengthSize k'"
      using canonical_lengthSizeFor [OF that(1)] canonical_lengthSizeFor [OF that(2)] that(4) by simp
    then show ?thesis using rebuilt [OF that(1)] rebuilt [OF that(2)] that by simp
  qed
  then show ?thesis using NewFromHash_canonical full rebuilt by blast
qed

theorem key_canonical_iff_witness:
  "\<exists>k k'. canonical k \<and> canonical k' \<and> Key_Length k = Key_Length k' \<and> k \<noteq> k' \<and>
     \<not> (Key_Type k = Key_Type k' \<and> Key_Length k = Key_Length k' \<and> Key_Hash k = Key_Hash k')"
proof -
  let ?k = "0 # 5 # replicate 30 (7 :: byte)" and ?k' = "0x10 # 5 # replicate 30 (7 :: byte)"
  have "canonical ?k" "canonical ?k'" "Key_Length ?k = Key_Length ?k'" by code_simp+
  then show ?thesis
    using key_canonical_iff [of ?k ?k'] by (intro exI [of _ ?k] exI [of _ ?k']) simp
qed

text \<open>For a defined type, \<open>NewFromHash\<close> returns a key that \<open>Parse\<close> accepts and whose
  accessors give back the type, the 64-bit length and the leading digest bytes; for a
  reserved type it returns \<open>ErrReservedType\<close>.\<close>

theorem key_roundtrip:
  assumes "length h = 32"
  shows "if IsValid t
         then \<exists>k. NewFromHash t len h = Inr k \<and> Parse k = Inr k \<and> Key_Type k = t \<and>
                  Key_Length k = len \<and> Key_Hash k = take (31 - LengthSize k) h \<and> length (Key_String k) = 64
         else NewFromHash t len h = Inl (ErrReservedType t)"
proof (cases "IsValid t")
  case True
  then obtain k where k: "NewFromHash t len h = Inr k"
    by (cases "NewFromHash t len h") (auto simp: NewFromHash_def Let_def)
  have "length (Key_String k) = 64"
    using NewFromHash_fields(1) [OF k assms] by (simp add: Key_String_def hex_byte_def length_concat comp_def sum_list_triv is_key_def Size_def)
  then show ?thesis
    using True k NewFromHash_fields [OF k assms] NewFromHash_Length [OF k assms]
      NewFromHash_canonical [OF k assms] by (auto simp: Parse_ok)
qed (simp add: NewFromHash_def)

theorem key_roundtrip_witness:
  "\<exists>k. NewFromHash DirNode 70000 (replicate 32 9) = Inr k \<and> Parse k = Inr k \<and> Key_Type k = DirNode \<and>
       Key_Length k = 70000 \<and> Key_Hash k = take (31 - LengthSize k) (replicate 32 9) \<and>
       length (Key_String k) = 64"
proof -
  have "IsValid DirNode" by (simp add: IsValid_def ktype_defs)
  then show ?thesis using key_roundtrip [of "replicate 32 9" DirNode 70000] by simp
qed

end
