(* ===== verification/Amber_Pack.thy ===== *)
theory Amber_Pack
  imports Amber_Key
begin

text \<open>
  Package \<open>amberpack\<close>: the record codec shared by segments and wire packs
  (record.go) and the wire pack writer and reader (pack.go). CRC-32C is the standard
  library's checksum, defined bit by bit; zstd is a third-party package and a
  parameter of the codec (\<open>zstd\<close>), of which \<open>zstd_ok\<close> states the documented round
  trip. A reader's iterator is the list of what it yields together with the error it
  ends with. The lemmas give the record and stream round trips, the detection of
  truncated streams and of a changed payload byte, and the error of each bad record.
\<close>

section \<open>hash/crc32, Castagnoli\<close>

definition crc_poly :: u32 where "crc_poly = 0x82F63B78"

definition crc_bit :: "u32 \<Rightarrow> u32" where
  "crc_bit c = (if bit c 0 then drop_bit 1 c XOR crc_poly else drop_bit 1 c)"

definition crc_byte :: "u32 \<Rightarrow> byte \<Rightarrow> u32" where
  "crc_byte c v = (crc_bit ^^ 8) (c XOR ucast v)"

definition crc32_Update :: "u32 \<Rightarrow> bytes \<Rightarrow> u32" where
  "crc32_Update c p = NOT (foldl crc_byte (NOT c) p)"

definition crc32_Checksum :: "bytes \<Rightarrow> u32" where
  "crc32_Checksum p = crc32_Update 0 p"

section \<open>The record codec\<close>

record zstd =
  EncodeAll :: "bytes \<Rightarrow> bytes"
  DecodeAll :: "bytes \<Rightarrow> nat \<Rightarrow> bytes option"

datatype pack_err =
    ErrCorrupt string
  | ErrTooLarge nat
  | ErrMalformed string

definition RecHeaderSize :: nat where "RecHeaderSize = 46"
definition tagChunk :: byte where "tagChunk = 1"
definition flagZstd :: byte where "flagZstd = 1"
definition MaxPayload :: nat where "MaxPayload = 268435456"
definition zero4 :: bytes where "zero4 = [0, 0, 0, 0]"

record Record =
  Rec_Key :: key
  Rec_Flags :: byte
  Rec_Ulen :: u32
  Rec_Slen :: u32

definition payloadFits :: "nat \<Rightarrow> bool" where
  "payloadFits n \<longleftrightarrow> n \<le> MaxPayload"

definition EncodeRecord :: "zstd \<Rightarrow> key \<Rightarrow> bytes \<Rightarrow> pack_err + bytes" where
  "EncodeRecord Z k data =
     (if \<not> payloadFits (length data) then Inl (ErrTooLarge (length data))
      else let comp = EncodeAll Z data;
               (payload, flags) = (if length comp < length data then (comp, flagZstd) else (data, 0));
               hdr = tagChunk # k @ flags # PutUint32 (of_nat (length data)) @ PutUint32 (of_nat (length payload));
               crc = crc32_Checksum (hdr @ zero4 @ payload)
           in Inr (hdr @ PutUint32 crc @ payload))"

definition ParseRecord :: "bytes \<Rightarrow> pack_err + Record" where
  "ParseRecord b =
     (if length b < RecHeaderSize then Inl (ErrCorrupt ''truncated record header'')
      else if b ! 0 \<noteq> tagChunk then Inl (ErrCorrupt ''unexpected record tag'')
      else let flags = b ! 33; ulen = Uint32 (slice 34 38 b); slen = Uint32 (slice 38 42 b) in
      if flags AND NOT flagZstd \<noteq> 0 then Inl (ErrCorrupt ''unknown record flags'')
      else if length b < RecHeaderSize + unat slen then Inl (ErrCorrupt ''truncated record payload'')
      else if flags AND flagZstd = 0 \<and> ulen \<noteq> slen then Inl (ErrCorrupt ''raw record with ulen != slen'')
      else if unat ulen > MaxPayload then Inl (ErrCorrupt ''record ulen exceeds limit'')
      else if flags AND flagZstd \<noteq> 0 \<and> slen \<ge> ulen then Inl (ErrCorrupt ''compressed record with slen >= ulen'')
      else let c = crc32_Update 0 (take 42 b);
               c = crc32_Update c zero4;
               c = crc32_Update c (slice RecHeaderSize (RecHeaderSize + unat slen) b) in
      if c \<noteq> Uint32 (slice 42 46 b) then Inl (ErrCorrupt ''record CRC mismatch'')
      else case Parse (slice 1 33 b) of
             Inl e \<Rightarrow> Inl (ErrCorrupt ''record key'')
           | Inr k \<Rightarrow> Inr \<lparr>Rec_Key = k, Rec_Flags = flags, Rec_Ulen = ulen, Rec_Slen = slen\<rparr>)"

definition DecodePayload :: "zstd \<Rightarrow> byte \<Rightarrow> u32 \<Rightarrow> bytes \<Rightarrow> pack_err + bytes" where
  "DecodePayload Z flags ulen stored =
     (if flags AND flagZstd = 0 then Inr stored
      else case DecodeAll Z stored (unat ulen) of
             None \<Rightarrow> Inl (ErrCorrupt ''zstd'')
           | Some out \<Rightarrow>
               if (of_nat (length out) :: u32) \<noteq> ulen then Inl (ErrCorrupt ''decompressed length'')
               else Inr out)"

section \<open>The wire pack\<close>

record object =
  Obj_Key :: key
  Obj_Bytes :: bytes

definition packMagic :: bytes where
  "packMagic = [0x41, 0x4D, 0x42, 0x45, 0x52, 0x50, 0x4B, 0x03]"

definition tagEnd :: byte where "tagEnd = 0"

record pwriter =
  bw :: bytes
  wroteHeader :: bool

definition NewWriter :: pwriter where
  "NewWriter = \<lparr>bw = [], wroteHeader = False\<rparr>"

definition ensureHeader :: "pwriter \<Rightarrow> pwriter" where
  "ensureHeader w =
     (if wroteHeader w then w else w\<lparr>bw := bw w @ packMagic, wroteHeader := True\<rparr>)"

definition Writer_Add :: "zstd \<Rightarrow> pwriter \<Rightarrow> object \<Rightarrow> pack_err option \<times> pwriter" where
  "Writer_Add Z w obj =
     (let w1 = ensureHeader w in
      case EncodeRecord Z (Obj_Key obj) (Obj_Bytes obj) of
        Inl e \<Rightarrow> (Some e, w1)
      | Inr r \<Rightarrow> (None, w1\<lparr>bw := bw w1 @ r\<rparr>))"

definition Writer_AddRecord :: "pwriter \<Rightarrow> bytes \<Rightarrow> pwriter" where
  "Writer_AddRecord w r = (let w1 = ensureHeader w in w1\<lparr>bw := bw w1 @ r\<rparr>)"

definition Writer_Close :: "pwriter \<Rightarrow> pwriter" where
  "Writer_Close w = (let w1 = ensureHeader w in w1\<lparr>bw := bw w1 @ [tagEnd]\<rparr>)"

record RawRecord =
  Raw_Record :: Record
  Raw_Bytes :: bytes

definition read_chunk :: "bytes \<Rightarrow> pack_err + (RawRecord \<times> bytes)" where
  "read_chunk br =
     (if length br < RecHeaderSize then Inl (ErrMalformed ''truncated record header'')
      else let hdr = take RecHeaderSize br; slen = Uint32 (slice 38 42 hdr) in
      if unat slen > MaxPayload then Inl (ErrMalformed ''record payload exceeds limit'')
      else if length br < RecHeaderSize + unat slen then Inl (ErrMalformed ''truncated record payload'')
      else let full = take (RecHeaderSize + unat slen) br in
      case ParseRecord full of
        Inl e \<Rightarrow> Inl (ErrMalformed ''bad record'')
      | Inr r \<Rightarrow> Inr (\<lparr>Raw_Record = r, Raw_Bytes = full\<rparr>, drop (RecHeaderSize + unat slen) br))"

lemma read_chunk_shorter: "read_chunk br = Inr (raw, rest) \<Longrightarrow> length rest < length br"
  by (auto simp: read_chunk_def Let_def RecHeaderSize_def split: if_splits sum.splits)

function read_records :: "bytes \<Rightarrow> RawRecord list \<times> pack_err option" where
  "read_records br =
     (case br of
        [] \<Rightarrow> ([], Some (ErrMalformed ''truncated before end marker''))
      | tag # _ \<Rightarrow>
          if tag = tagEnd then ([], None)
          else if tag = tagChunk then
            (case read_chunk br of
               Inl e \<Rightarrow> ([], Some e)
             | Inr (raw, rest) \<Rightarrow> (let (rs, err) = read_records rest in (raw # rs, err)))
          else ([], Some (ErrMalformed ''bad record tag'')))"
  by pat_completeness auto
termination
  by (relation "measure length") (auto dest: read_chunk_shorter)

declare read_records.simps [simp del]

definition Reader_Records :: "bytes \<Rightarrow> RawRecord list \<times> pack_err option" where
  "Reader_Records r =
     (if length r < length packMagic then ([], Some (ErrMalformed ''reading magic''))
      else if take (length packMagic) r \<noteq> packMagic then ([], Some (ErrMalformed ''bad magic''))
      else read_records (drop (length packMagic) r))"

fun decode_raws :: "zstd \<Rightarrow> RawRecord list \<Rightarrow> pack_err option \<Rightarrow> object list \<times> pack_err option" where
  "decode_raws Z [] err = ([], err)"
| "decode_raws Z (raw # raws) err =
     (case DecodePayload Z (Rec_Flags (Raw_Record raw)) (Rec_Ulen (Raw_Record raw))
             (drop RecHeaderSize (Raw_Bytes raw)) of
        Inl e \<Rightarrow> ([], Some (ErrMalformed ''bad payload''))
      | Inr payload \<Rightarrow>
          (let (os, err') = decode_raws Z raws err
           in (\<lparr>Obj_Key = Rec_Key (Raw_Record raw), Obj_Bytes = payload\<rparr> # os, err')))"

definition Reader_All :: "zstd \<Rightarrow> bytes \<Rightarrow> object list \<times> pack_err option" where
  "Reader_All Z r = (let (raws, err) = Reader_Records r in decode_raws Z raws err)"

section \<open>What the codec relies on\<close>

text \<open>zstd decodes what it encoded, into a buffer of exactly the decoded size.\<close>

definition zstd_ok :: "zstd \<Rightarrow> bool" where
  "zstd_ok Z \<longleftrightarrow> (\<forall>d. length d \<le> MaxPayload \<longrightarrow> DecodeAll Z (EncodeAll Z d) (length d) = Some d)"

text \<open>A run-length coder that satisfies it, for concrete instances.\<close>

definition rle_zstd :: zstd where
  "rle_zstd =
     \<lparr>EncodeAll = (\<lambda>d. if 3 < length d \<and> length d < 256 \<and> d = replicate (length d) (hd d)
                        then [1, of_nat (length d), hd d] else 0 # d),
      DecodeAll = (\<lambda>s n. case s of
                            [] \<Rightarrow> None
                          | t # r \<Rightarrow>
                              if t = 0 then (if length r \<le> n then Some r else None)
                              else if length r = 2 \<and> unat (r ! 0) \<le> n
                                   then Some (replicate (unat (r ! 0)) (r ! 1)) else None)\<rparr>"

section \<open>Lemmas: the checksum\<close>

lemma crc32_Update_append: "crc32_Update (crc32_Update c p) q = crc32_Update c (p @ q)"
  by (simp add: crc32_Update_def)

lemma crc_bit_inj: "crc_bit a = crc_bit b \<Longrightarrow> a = b"
proof (rule bit_word_eqI)
  fix n assume eq: "crc_bit a = crc_bit b" and n: "n < LENGTH(32)"
  have top: "bit (crc_bit c) 31 = bit c 0" for c
    by (auto simp: crc_bit_def crc_poly_def bit_simps dest: bit_imp_le_length)
  have low: "bit a 0 = bit b 0" using top [of a] top [of b] eq by simp
  have "drop_bit 1 a = drop_bit 1 b"
    using eq low by (auto simp: crc_bit_def split: if_splits dest: xor_right_cancel)
  then have "bit (drop_bit 1 a) (n - 1) = bit (drop_bit 1 b) (n - 1)" by simp
  then show "bit a n = bit b n" using low by (cases n) (auto simp: bit_simps)
qed

lemma crc_bits_inj: "(crc_bit ^^ n) a = (crc_bit ^^ n) b \<Longrightarrow> a = b"
  by (induction n) (auto dest: crc_bit_inj)

lemma crc_byte_inj_state: "crc_byte a v = crc_byte b v \<Longrightarrow> a = b"
proof -
  assume "crc_byte a v = crc_byte b v"
  then have "a XOR ucast v = b XOR ucast v" by (auto simp: crc_byte_def dest: crc_bits_inj)
  then show "a = b" by (rule xor_right_cancel)
qed

lemma crc_byte_inj_byte: "crc_byte a v = crc_byte a w \<Longrightarrow> v = w"
proof -
  assume "crc_byte a v = crc_byte a w"
  then have "a XOR ucast v = a XOR ucast w" by (auto simp: crc_byte_def dest: crc_bits_inj)
  then have "(ucast v :: u32) = ucast w" by (metis xor.commute xor_right_cancel)
  then have "unat (ucast v :: u32) = unat (ucast w :: u32)" by simp
  then show "v = w" by (simp add: unat_ucast_wider word_unat_eq_iff)
qed

lemma crc_fold_inj: "foldl crc_byte a p = foldl crc_byte b p \<Longrightarrow> a = b"
  by (induction p arbitrary: a b) (auto dest: crc_byte_inj_state)

text \<open>Changing exactly one byte changes the checksum.\<close>

lemma crc32_one_byte:
  assumes "v \<noteq> w"
  shows "crc32_Checksum (p @ v # q) \<noteq> crc32_Checksum (p @ w # q)"
proof
  assume "crc32_Checksum (p @ v # q) = crc32_Checksum (p @ w # q)"
  then have "foldl crc_byte (crc_byte (foldl crc_byte (NOT 0) p) v) q =
             foldl crc_byte (crc_byte (foldl crc_byte (NOT 0) p) w) q"
    by (simp add: crc32_Checksum_def crc32_Update_def)
  then have "crc_byte (foldl crc_byte (NOT 0) p) v = crc_byte (foldl crc_byte (NOT 0) p) w"
    by (rule crc_fold_inj)
  then show False using assms by (auto dest: crc_byte_inj_byte)
qed

section \<open>Lemmas: one record\<close>

lemmas rec_consts = RecHeaderSize_def tagChunk_def flagZstd_def MaxPayload_def

text \<open>The layout of a record: header fields, checksum, stored payload.\<close>

definition rec_hdr :: "key \<Rightarrow> byte \<Rightarrow> u32 \<Rightarrow> u32 \<Rightarrow> bytes" where
  "rec_hdr k flags ulen slen = tagChunk # k @ flags # PutUint32 ulen @ PutUint32 slen"

definition rec_bytes :: "key \<Rightarrow> byte \<Rightarrow> u32 \<Rightarrow> bytes \<Rightarrow> bytes" where
  "rec_bytes k flags ulen payload =
     (let hdr = rec_hdr k flags ulen (of_nat (length payload))
      in hdr @ PutUint32 (crc32_Checksum (hdr @ zero4 @ payload)) @ payload)"

text \<open>The header invariants that \<open>ParseRecord\<close> checks.\<close>

definition rec_lens_ok :: "byte \<Rightarrow> u32 \<Rightarrow> nat \<Rightarrow> bool" where
  "rec_lens_ok flags ulen n \<longleftrightarrow>
     n < 2 ^ 32 \<and> unat ulen \<le> MaxPayload \<and>
     (flags = 0 \<and> unat ulen = n \<or> flags = flagZstd \<and> n < unat ulen)"

lemma rec_hdr_length [simp]: "is_key k \<Longrightarrow> length (rec_hdr k flags ulen slen) = 42"
  by (simp add: rec_hdr_def is_key_def Size_def)

lemma rec_bytes_length [simp]: "is_key k \<Longrightarrow> length (rec_bytes k flags ulen payload) = 46 + length payload"
  by (simp add: rec_bytes_def Let_def)

lemma rec_bytes_fields:
  assumes "is_key k"
  shows "rec_bytes k flags ulen payload ! 0 = tagChunk"
    "rec_bytes k flags ulen payload ! 33 = flags"
    "slice 1 33 (rec_bytes k flags ulen payload) = k"
    "slice 34 38 (rec_bytes k flags ulen payload) = PutUint32 ulen"
    "slice 38 42 (rec_bytes k flags ulen payload) = PutUint32 (of_nat (length payload))"
    "drop 46 (rec_bytes k flags ulen payload) = payload"
  using assms
  by (simp_all add: rec_bytes_def rec_hdr_def Let_def slice_def is_key_def Size_def nth_append)

lemma flags_checks:
  "flags AND NOT flagZstd = 0 \<longleftrightarrow> flags = 0 \<or> flags = flagZstd"
  "(0 :: byte) AND flagZstd = 0" "flagZstd AND flagZstd = flagZstd" "flagZstd \<noteq> 0"
proof -
  show "flags AND NOT flagZstd = 0 \<longleftrightarrow> flags = 0 \<or> flags = flagZstd"
  proof
    assume a: "flags AND NOT flagZstd = 0"
    have "flags = (flags AND flagZstd) OR (flags AND NOT flagZstd)"
      by (rule bit_word_eqI) (auto simp: bit_simps)
    with a have "flags = flags AND 1" by (simp add: flagZstd_def)
    also have "\<dots> = of_bool (bit flags 0)" by (simp add: and_one_eq bit_0 mod2_eq_if)
    finally show "flags = 0 \<or> flags = flagZstd" by (cases "bit flags 0") (auto simp: flagZstd_def)
  qed (auto simp: flagZstd_def)
qed (simp_all add: flagZstd_def)

lemma ParseRecord_crc:
  assumes "is_key k"
  shows "crc32_Update (crc32_Update (crc32_Update 0 (take 42 (rec_bytes k flags ulen payload))) zero4)
           (slice 46 (46 + length payload) (rec_bytes k flags ulen payload @ rest)) =
         crc32_Checksum (rec_hdr k flags ulen (of_nat (length payload)) @ zero4 @ payload)"
  using assms
  by (simp add: crc32_Update_append crc32_Checksum_def rec_bytes_def Let_def slice_def)

lemma ParseRecord_rec_bytes:
  assumes "canonical k" and "rec_lens_ok flags ulen (length payload)"
  shows "ParseRecord (rec_bytes k flags ulen payload @ rest) =
     Inr \<lparr>Rec_Key = k, Rec_Flags = flags, Rec_Ulen = ulen, Rec_Slen = of_nat (length payload)\<rparr>"
proof -
  define r where "r = rec_bytes k flags ulen payload"
  have k: "is_key k" using assms(1) by (simp add: canonical_def)
  have len: "length r = 46 + length payload" using k by (simp add: r_def)
  have n: "unat (of_nat (length payload) :: u32) = length payload"
    using assms(2) by (simp add: rec_lens_ok_def unat_of_nat)
  have fields: "(r @ rest) ! 0 = tagChunk" "(r @ rest) ! 33 = flags" "slice 1 33 (r @ rest) = k"
    "slice 34 38 (r @ rest) = PutUint32 ulen" "slice 38 42 (r @ rest) = PutUint32 (of_nat (length payload))"
    "take 42 (r @ rest) = take 42 r"
    using rec_bytes_fields [OF k, of flags ulen payload] len
    by (simp_all add: r_def nth_append)
  have crcf: "slice 42 46 (r @ rest) =
      PutUint32 (crc32_Checksum (rec_hdr k flags ulen (of_nat (length payload)) @ zero4 @ payload))"
    using k by (simp add: r_def rec_bytes_def Let_def slice_def)
  have crc: "crc32_Update (crc32_Update (crc32_Update 0 (take 42 r)) zero4)
      (slice 46 (46 + length payload) (r @ rest)) =
      crc32_Checksum (rec_hdr k flags ulen (of_nat (length payload)) @ zero4 @ payload)"
    using ParseRecord_crc [OF k] by (simp add: r_def)
  have lens: "flags = 0 \<and> ulen = of_nat (length payload) \<or>
      flags = flagZstd \<and> \<not> (of_nat (length payload) :: u32) \<ge> ulen"
    using assms(2) n by (auto simp: rec_lens_ok_def word_le_nat_alt word_unat_eq_iff)
  have key: "Parse k = Inr k" using assms(1) by (simp add: Parse_ok)
  have small: "\<not> unat ulen > MaxPayload" using assms(2) by (simp add: rec_lens_ok_def)
  have long: "\<not> length (r @ rest) < 46" "\<not> length (r @ rest) < 46 + length payload"
    using len by auto
  from lens show ?thesis
  proof
    assume raw: "flags = 0 \<and> ulen = of_nat (length payload)"
    show ?thesis
      unfolding ParseRecord_def Let_def r_def [symmetric] fields crcf RecHeaderSize_def
      using long raw small key by (simp add: crc n flags_checks)
  next
    assume comp: "flags = flagZstd \<and> \<not> (of_nat (length payload) :: u32) \<ge> ulen"
    show ?thesis
      unfolding ParseRecord_def Let_def r_def [symmetric] fields crcf RecHeaderSize_def
      using long comp small key by (simp add: crc n flags_checks)
  qed
qed

text \<open>Inversion of a successful parse.\<close>

lemma ParseRecord_ok:
  assumes "ParseRecord b = Inr r"
  shows "46 + unat (Rec_Slen r) \<le> length b" "b ! 0 = tagChunk" "Rec_Key r = slice 1 33 b" "canonical (Rec_Key r)"
    "Rec_Flags r = b ! 33" "Rec_Ulen r = Uint32 (slice 34 38 b)" "Rec_Slen r = Uint32 (slice 38 42 b)"
    "b ! 33 AND NOT flagZstd = 0" "unat (Rec_Ulen r) \<le> MaxPayload"
    "b ! 33 AND flagZstd = 0 \<Longrightarrow> Rec_Ulen r = Rec_Slen r"
    "b ! 33 AND flagZstd \<noteq> 0 \<Longrightarrow> Rec_Slen r < Rec_Ulen r"
    "Uint32 (slice 42 46 b) = crc32_Update (crc32_Update (crc32_Update 0 (take 42 b)) zero4)
        (slice 46 (46 + unat (Rec_Slen r)) b)"
  using assms unfolding ParseRecord_def Let_def RecHeaderSize_def
  by (simp_all add: Parse_ok not_less split: if_splits sum.splits) auto

lemma ParseRecord_lens:
  assumes "ParseRecord b = Inr r"
  shows "rec_lens_ok (Rec_Flags r) (Rec_Ulen r) (unat (Rec_Slen r))"
  using ParseRecord_ok(5,8,9,10,11) [OF assms] unat_u32 [of "Rec_Slen r"]
  by (auto simp: rec_lens_ok_def flags_checks word_less_nat_alt)

lemma ParseRecord_bytes:
  assumes "ParseRecord b = Inr r"
  shows "take (46 + unat (Rec_Slen r)) b =
     rec_bytes (Rec_Key r) (Rec_Flags r) (Rec_Ulen r) (slice 46 (46 + unat (Rec_Slen r)) b)"
proof -
  note ok = ParseRecord_ok [OF assms]
  define p where "p = slice 46 (46 + unat (Rec_Slen r)) b"
  have plen: "length p = unat (Rec_Slen r)" using ok(1) by (simp add: p_def)
  have "length b \<ge> 46" using ok(1) by simp
  then have w: "slice 34 38 b = PutUint32 (Rec_Ulen r)" "slice 38 42 b = PutUint32 (of_nat (length p))"
    by (simp_all add: ok(6,7) plen PutUint32_Uint32 of_nat_unat)
  have "take 42 b = slice 0 1 b @ slice 1 33 b @ slice 33 34 b @ slice 34 38 b @ slice 38 42 b"
    by (simp add: take_slice slice_split)
  moreover have "slice 0 1 b = [tagChunk]" "slice 33 34 b = [Rec_Flags r]"
    using slice_one [of 0 b] slice_one [of 33 b] ok(1,2,5) by (cases b; simp)+
  ultimately have hdr: "take 42 b = rec_hdr (Rec_Key r) (Rec_Flags r) (Rec_Ulen r) (of_nat (length p))"
    by (simp add: rec_hdr_def w ok(3))
  have crc: "slice 42 46 b = PutUint32 (crc32_Checksum (take 42 b @ zero4 @ p))"
  proof -
    have "slice 42 46 b = PutUint32 (Uint32 (slice 42 46 b))"
      using \<open>46 \<le> length b\<close> by (simp add: PutUint32_Uint32)
    then show ?thesis using ok(12) by (simp add: crc32_Update_append crc32_Checksum_def p_def)
  qed
  have "take (46 + unat (Rec_Slen r)) b = take 42 b @ slice 42 46 b @ p"
    by (simp add: take_slice slice_split p_def)
  then show ?thesis
    by (simp add: rec_bytes_def Let_def hdr [symmetric] crc p_def [symmetric])
qed

lemma ParseRecord_extend:
  assumes "ParseRecord b = Inr r"
  shows "ParseRecord (take (46 + unat (Rec_Slen r)) b @ rest) = Inr r"
proof -
  define p where "p = slice 46 (46 + unat (Rec_Slen r)) b"
  have plen: "length p = unat (Rec_Slen r)" using ParseRecord_ok(1) [OF assms] by (simp add: p_def)
  have "ParseRecord (rec_bytes (Rec_Key r) (Rec_Flags r) (Rec_Ulen r) p @ rest) =
      Inr \<lparr>Rec_Key = Rec_Key r, Rec_Flags = Rec_Flags r, Rec_Ulen = Rec_Ulen r, Rec_Slen = of_nat (length p)\<rparr>"
    using ParseRecord_ok(4) [OF assms] ParseRecord_lens [OF assms] plen
    by (intro ParseRecord_rec_bytes) simp_all
  then show ?thesis
    using ParseRecord_bytes [OF assms] by (simp add: p_def [symmetric] plen of_nat_unat)
qed

section \<open>Lemmas: encoding\<close>

text \<open>The stored form of an object: compressed when that is strictly smaller.\<close>

definition stored_form :: "zstd \<Rightarrow> bytes \<Rightarrow> byte \<times> bytes" where
  "stored_form Z data =
     (if length (EncodeAll Z data) < length data then (flagZstd, EncodeAll Z data) else (0, data))"

lemma EncodeRecord_ok:
  "length data \<le> MaxPayload \<Longrightarrow>
   EncodeRecord Z k data =
     Inr (rec_bytes k (fst (stored_form Z data)) (of_nat (length data)) (snd (stored_form Z data)))"
  by (simp add: EncodeRecord_def payloadFits_def stored_form_def rec_bytes_def rec_hdr_def Let_def)

lemma EncodeRecord_iff:
  "EncodeRecord Z k data = Inr r \<longleftrightarrow>
     length data \<le> MaxPayload \<and>
     r = rec_bytes k (fst (stored_form Z data)) (of_nat (length data)) (snd (stored_form Z data))"
  using EncodeRecord_ok [of data Z k] by (auto simp: EncodeRecord_def payloadFits_def)

lemma unat_payload_length: "n \<le> MaxPayload \<Longrightarrow> unat (of_nat n :: u32) = n"
  by (simp add: MaxPayload_def unat_of_nat)

lemma stored_form_lens:
  assumes "length data \<le> MaxPayload"
  shows "rec_lens_ok (fst (stored_form Z data)) (of_nat (length data)) (length (snd (stored_form Z data)))"
  using assms
  by (auto simp: rec_lens_ok_def stored_form_def unat_payload_length MaxPayload_def flagZstd_def)

lemma DecodePayload_stored:
  assumes "zstd_ok Z" and "length data \<le> MaxPayload"
  shows "DecodePayload Z (fst (stored_form Z data)) (of_nat (length data)) (snd (stored_form Z data)) = Inr data"
  using assms
  by (auto simp: DecodePayload_def stored_form_def flags_checks zstd_ok_def unat_payload_length)

lemma rle_zstd_ok: "zstd_ok rle_zstd"
proof -
  have "DecodeAll rle_zstd (EncodeAll rle_zstd d) (length d) = Some d" for d
  proof (cases "3 < length d \<and> length d < 256 \<and> d = replicate (length d) (hd d)")
    case True
    then have "unat (of_nat (length d) :: byte) = length d" by (simp add: unat_of_nat)
    with True show ?thesis by (simp add: rle_zstd_def)
  next
    case False
    then have "EncodeAll rle_zstd d = 0 # d" by (simp add: rle_zstd_def)
    then show ?thesis by (simp add: rle_zstd_def)
  qed
  then show ?thesis by (simp add: zstd_ok_def)
qed

section \<open>Lemmas: streams\<close>

text \<open>A list of whole records: what each of them parses to.\<close>

definition whole_record :: "bytes \<Rightarrow> Record \<Rightarrow> bool" where
  "whole_record b r \<longleftrightarrow> ParseRecord b = Inr r \<and> length b = 46 + unat (Rec_Slen r)"

lemma whole_record_slen:
  assumes "whole_record b r"
  shows "unat (Rec_Slen r) \<le> MaxPayload"
  using ParseRecord_lens [of b r] assms by (auto simp: whole_record_def rec_lens_ok_def)

lemma whole_record_parse: "whole_record b r \<Longrightarrow> ParseRecord (b @ rest) = Inr r"
  using ParseRecord_extend [of b r rest] by (simp add: whole_record_def)

lemma whole_record_encode:
  assumes "canonical k" and "EncodeRecord Z k data = Inr b"
  shows "whole_record b \<lparr>Rec_Key = k, Rec_Flags = fst (stored_form Z data),
     Rec_Ulen = of_nat (length data), Rec_Slen = of_nat (length (snd (stored_form Z data)))\<rparr>"
proof -
  have fits: "length data \<le> MaxPayload"
    and b: "b = rec_bytes k (fst (stored_form Z data)) (of_nat (length data)) (snd (stored_form Z data))"
    using assms(2) by (auto simp: EncodeRecord_iff)
  have k: "is_key k" using assms(1) by (simp add: canonical_def)
  have "length (snd (stored_form Z data)) < 2 ^ 32"
    using stored_form_lens [OF fits] by (simp add: rec_lens_ok_def)
  then show ?thesis
    using ParseRecord_rec_bytes [OF assms(1) stored_form_lens [OF fits], of Z "[]"] k
    by (simp add: whole_record_def b unat_of_nat)
qed

lemma read_records_end [simp]: "read_records (tagEnd # rest) = ([], None)"
  by (subst read_records.simps) simp

lemma read_chunk_whole:
  assumes "whole_record b r"
  shows "read_chunk (b @ rest) = Inr (\<lparr>Raw_Record = r, Raw_Bytes = b\<rparr>, rest)"
proof -
  have p: "ParseRecord b = Inr r" and len: "length b = 46 + unat (Rec_Slen r)"
    using assms by (auto simp: whole_record_def)
  have l46: "46 \<le> length b" using len by simp
  then have "slice 38 42 (take 46 (b @ rest)) = slice 38 42 b" by (simp add: slice_def drop_take)
  then have slen: "Uint32 (slice 38 42 (take 46 (b @ rest))) = Rec_Slen r"
    by (simp only: ParseRecord_ok(7) [OF p])
  have guards: "\<not> length (b @ rest) < 46" "\<not> length (b @ rest) < 46 + unat (Rec_Slen r)"
    "\<not> MaxPayload < unat (Rec_Slen r)"
    using len whole_record_slen [OF assms] by auto
  have cut: "take (46 + unat (Rec_Slen r)) (b @ rest) = b" "drop (46 + unat (Rec_Slen r)) (b @ rest) = rest"
    by (simp_all add: len [symmetric])
  show ?thesis
    unfolding read_chunk_def Let_def RecHeaderSize_def slen cut using guards by (simp add: p)
qed

lemma read_records_Cons:
  assumes "whole_record b r"
  shows "read_records (b @ rest) =
     (\<lparr>Raw_Record = r, Raw_Bytes = b\<rparr> # fst (read_records rest), snd (read_records rest))"
proof -
  have p: "ParseRecord b = Inr r" and len: "length b = 46 + unat (Rec_Slen r)"
    using assms by (auto simp: whole_record_def)
  obtain b' where b: "b = tagChunk # b'" using ParseRecord_ok(2) [OF p] len by (cases b) auto
  have "read_records (b @ rest) =
      (case read_chunk (b @ rest) of
         Inl e \<Rightarrow> ([], Some e)
       | Inr (raw, rest) \<Rightarrow> (let (rs, err) = read_records rest in (raw # rs, err)))"
    by (subst read_records.simps) (simp add: b tagChunk_def tagEnd_def)
  then show ?thesis by (simp add: read_chunk_whole [OF assms] split_beta)
qed

lemma read_records_whole:
  assumes "list_all2 whole_record bs rs"
  shows "read_records (concat bs @ rest) =
     (map2 (\<lambda>b r. \<lparr>Raw_Record = r, Raw_Bytes = b\<rparr>) bs rs @ fst (read_records rest), snd (read_records rest))"
  using assms by (induction bs rs rule: list_all2_induct) (simp_all add: read_records_Cons)


text \<open>A stream that stops inside a record, or before the end marker, is malformed.\<close>

lemma read_records_cut:
  assumes "whole_record b r" and "n < length b"
  shows "\<exists>msg. read_records (take n b) = ([], Some (ErrMalformed msg))"
proof (cases n)
  case 0
  then show ?thesis by (subst read_records.simps) simp
next
  case (Suc m)
  have p: "ParseRecord b = Inr r" and len: "length b = 46 + unat (Rec_Slen r)"
    using assms by (auto simp: whole_record_def)
  obtain b' where b: "b = tagChunk # b'" using ParseRecord_ok(2) [OF p] len by (cases b) auto
  have "\<exists>msg. read_chunk (take n b) = Inl (ErrMalformed msg)"
  proof (cases "n < 46")
    case True
    then have "length (take n b) < 46" by simp
    then show ?thesis by (simp add: read_chunk_def RecHeaderSize_def)
  next
    case False
    then have "slice 38 42 (take 46 (take n b)) = slice 38 42 b" by (simp add: slice_def drop_take)
    then have slen: "Uint32 (slice 38 42 (take 46 (take n b))) = Rec_Slen r"
      by (simp only: ParseRecord_ok(7) [OF p])
    show ?thesis
      unfolding read_chunk_def Let_def RecHeaderSize_def slen using False assms(2) len by auto
  qed
  then show ?thesis
    by (subst read_records.simps) (auto simp: b Suc tagChunk_def tagEnd_def)
qed

lemma read_records_prefix:
  assumes "list_all2 whole_record bs rs" and "n \<le> length (concat bs)"
  shows "\<exists>m msg. read_records (take n (concat bs)) =
     (take m (map2 (\<lambda>b r. \<lparr>Raw_Record = r, Raw_Bytes = b\<rparr>) bs rs), Some (ErrMalformed msg))"
  using assms
proof (induction bs rs arbitrary: n rule: list_all2_induct)
  case Nil
  then show ?case by (subst read_records.simps) simp
next
  case (Cons b bs r rs)
  show ?case
  proof (cases "n < length b")
    case True
    then obtain msg where "read_records (take n b) = ([], Some (ErrMalformed msg))"
      using read_records_cut [OF Cons.hyps(1)] by blast
    with True show ?thesis by (intro exI [of _ 0] exI [of _ msg]) simp
  next
    case False
    then have "n - length b \<le> length (concat bs)" using Cons.prems by simp
    from Cons.IH [OF this] obtain m msg where "read_records (take (n - length b) (concat bs)) =
        (take m (map2 (\<lambda>b r. \<lparr>Raw_Record = r, Raw_Bytes = b\<rparr>) bs rs), Some (ErrMalformed msg))"
      by blast
    with False show ?thesis
      by (intro exI [of _ "Suc m"] exI [of _ msg]) (simp add: read_records_Cons [OF Cons.hyps(1)])
  qed
qed

section \<open>Lemmas: what a writer produces\<close>

text \<open>Adding a batch, stopping at the first error as the callers do.\<close>

fun add_all :: "zstd \<Rightarrow> pwriter \<Rightarrow> object list \<Rightarrow> pack_err option \<times> pwriter" where
  "add_all Z w [] = (None, w)"
| "add_all Z w (o' # os) =
     (case Writer_Add Z w o' of (Some e, w1) \<Rightarrow> (Some e, w1) | (None, w1) \<Rightarrow> add_all Z w1 os)"

definition obj_record :: "zstd \<Rightarrow> object \<Rightarrow> bytes" where
  "obj_record Z obj = rec_bytes (Obj_Key obj) (fst (stored_form Z (Obj_Bytes obj)))
     (of_nat (length (Obj_Bytes obj))) (snd (stored_form Z (Obj_Bytes obj)))"

definition obj_head :: "zstd \<Rightarrow> object \<Rightarrow> Record" where
  "obj_head Z obj = \<lparr>Rec_Key = Obj_Key obj, Rec_Flags = fst (stored_form Z (Obj_Bytes obj)),
     Rec_Ulen = of_nat (length (Obj_Bytes obj)),
     Rec_Slen = of_nat (length (snd (stored_form Z (Obj_Bytes obj))))\<rparr>"

definition packable :: "object \<Rightarrow> bool" where
  "packable obj \<longleftrightarrow> canonical (Obj_Key obj) \<and> length (Obj_Bytes obj) \<le> MaxPayload"

lemma obj_record_whole:
  assumes "packable obj"
  shows "whole_record (obj_record Z obj) (obj_head Z obj)"
  using assms whole_record_encode [of "Obj_Key obj" Z "Obj_Bytes obj" "obj_record Z obj"]
  by (simp add: packable_def EncodeRecord_iff obj_record_def obj_head_def)

lemma add_all_ok:
  assumes "\<forall>obj \<in> set os. packable obj"
  shows "add_all Z w os =
     (None, if os = [] then w
            else (ensureHeader w)\<lparr>bw := bw (ensureHeader w) @ concat (map (obj_record Z) os)\<rparr>)"
  using assms
proof (induction os arbitrary: w)
  case (Cons obj os)
  have "EncodeRecord Z (Obj_Key obj) (Obj_Bytes obj) = Inr (obj_record Z obj)"
    using Cons.prems by (simp add: EncodeRecord_ok packable_def obj_record_def)
  with Cons show ?case by (simp add: Writer_Add_def Let_def ensureHeader_def)
qed simp

lemma written_pack:
  assumes "\<forall>obj \<in> set os. packable obj"
  shows "fst (add_all Z NewWriter os) = None"
    "bw (Writer_Close (snd (add_all Z NewWriter os))) = packMagic @ concat (map (obj_record Z) os) @ [tagEnd]"
  using assms by (simp_all add: add_all_ok Writer_Close_def ensureHeader_def NewWriter_def Let_def)

lemma objs_whole:
  "\<forall>obj \<in> set os. packable obj \<Longrightarrow> list_all2 whole_record (map (obj_record Z) os) (map (obj_head Z) os)"
  by (simp add: list_all2_conv_all_nth obj_record_whole)

abbreviation raw_of :: "zstd \<Rightarrow> object \<Rightarrow> RawRecord" where
  "raw_of Z obj \<equiv> \<lparr>Raw_Record = obj_head Z obj, Raw_Bytes = obj_record Z obj\<rparr>"

lemma raws_of_map:
  "map2 (\<lambda>b r. \<lparr>Raw_Record = r, Raw_Bytes = b\<rparr>) (map (obj_record Z) os) (map (obj_head Z) os) = map (raw_of Z) os"
  by (induction os) auto

lemma decode_raws_objs:
  assumes "zstd_ok Z" and "\<forall>obj \<in> set os. packable obj"
  shows "decode_raws Z (map (raw_of Z) os) err = (os, err)"
  using assms(2)
proof (induction os)
  case (Cons obj os)
  have "is_key (Obj_Key obj)" using Cons.prems by (simp add: packable_def canonical_def)
  then have "drop 46 (obj_record Z obj) = snd (stored_form Z (Obj_Bytes obj))"
    by (simp add: obj_record_def rec_bytes_fields)
  with Cons show ?case
    by (simp add: obj_head_def RecHeaderSize_def packable_def DecodePayload_stored [OF assms(1)])
qed simp

section \<open>Properties\<close>

text \<open>C31: a record encoded for a canonical key parses back to that key, with the payload
  decoding to the object, also when more bytes follow it; it is never longer than the
  header plus the object, and only an object above the payload limit is refused.\<close>

theorem record_roundtrip:
  assumes "zstd_ok Z" and "canonical k"
  shows "if length data \<le> MaxPayload
         then \<exists>b r. EncodeRecord Z k data = Inr b \<and> ParseRecord (b @ rest) = Inr r \<and> Rec_Key r = k \<and>
                unat (Rec_Ulen r) = length data \<and> length b = RecHeaderSize + unat (Rec_Slen r) \<and>
                length b \<le> RecHeaderSize + length data \<and>
                DecodePayload Z (Rec_Flags r) (Rec_Ulen r) (drop RecHeaderSize b) = Inr data
         else EncodeRecord Z k data = Inl (ErrTooLarge (length data))"
proof (cases "length data \<le> MaxPayload")
  case True
  define obj where "obj = \<lparr>Obj_Key = k, Obj_Bytes = data\<rparr>"
  have pk: "packable obj" using assms True by (simp add: packable_def obj_def)
  have w: "whole_record (obj_record Z obj) (obj_head Z obj)" by (rule obj_record_whole [OF pk])
  have "is_key k" using assms(2) by (simp add: canonical_def)
  then have "drop 46 (obj_record Z obj) = snd (stored_form Z data)"
    and "length (obj_record Z obj) = 46 + length (snd (stored_form Z data))"
    by (simp_all add: obj_record_def rec_bytes_fields obj_def)
  moreover have "length (snd (stored_form Z data)) \<le> length data" by (simp add: stored_form_def)
  ultimately show ?thesis
    using True w whole_record_parse [OF w, of rest] DecodePayload_stored [OF assms(1) True]
    by (intro if_P [THEN iffD2, OF True] exI [of _ "obj_record Z obj"] exI [of _ "obj_head Z obj"])
       (simp add: EncodeRecord_ok obj_record_def obj_head_def obj_def RecHeaderSize_def
          whole_record_def unat_payload_length)
qed (simp add: EncodeRecord_def payloadFits_def)

theorem record_roundtrip_witness:
  "\<exists>b r. EncodeRecord rle_zstd (0 # 5 # replicate 30 7) [9, 9, 9, 9, 9] = Inr b \<and>
     ParseRecord (b @ [1]) = Inr r \<and> Rec_Key r = 0 # 5 # replicate 30 7 \<and>
     unat (Rec_Ulen r) = length [9, 9, 9, 9, 9 :: byte] \<and> length b = RecHeaderSize + unat (Rec_Slen r) \<and>
     length b \<le> RecHeaderSize + length [9, 9, 9, 9, 9 :: byte] \<and>
     DecodePayload rle_zstd (Rec_Flags r) (Rec_Ulen r) (drop RecHeaderSize b) = Inr [9, 9, 9, 9, 9]"
proof -
  have "canonical (0 # 5 # replicate 30 7)" by code_simp
  moreover have "length [9, 9, 9, 9, 9 :: byte] \<le> MaxPayload" by (simp add: MaxPayload_def)
  ultimately show ?thesis
    using record_roundtrip [OF rle_zstd_ok, of "0 # 5 # replicate 30 7" "[9, 9, 9, 9, 9]" "[1]"]
    by (simp only: if_True)
qed

text \<open>C28: the pack a writer produces for any list of objects reads back as exactly those
  objects in order, with no error, and nothing after the end marker is read.\<close>

theorem pack_roundtrip:
  assumes "zstd_ok Z" and "\<forall>obj \<in> set os. packable obj"
  shows "fst (add_all Z NewWriter os) = None \<and>
         Reader_All Z (bw (Writer_Close (snd (add_all Z NewWriter os))) @ junk) = (os, None)"
proof -
  have "read_records (concat (map (obj_record Z) os) @ tagEnd # junk) = (map (raw_of Z) os, None)"
    using read_records_whole [OF objs_whole [OF assms(2)], of Z "tagEnd # junk"] by (simp add: raws_of_map)
  then show ?thesis
    by (simp add: written_pack(1) [OF assms(2)] Reader_All_def Reader_Records_def written_pack(2) [OF assms(2)] decode_raws_objs [OF assms])
qed

theorem pack_roundtrip_witness:
  "Reader_All rle_zstd (bw (Writer_Close (snd (add_all rle_zstd NewWriter
     [\<lparr>Obj_Key = 0 # 5 # replicate 30 7, Obj_Bytes = [9, 9, 9, 9, 9]\<rparr>]))) @ []) =
   ([\<lparr>Obj_Key = 0 # 5 # replicate 30 7, Obj_Bytes = [9, 9, 9, 9, 9]\<rparr>], None)"
proof -
  have "canonical (0 # 5 # replicate 30 7)" by code_simp
  then have "packable \<lparr>Obj_Key = 0 # 5 # replicate 30 7, Obj_Bytes = [9, 9, 9, 9, 9]\<rparr>"
    by (simp add: packable_def MaxPayload_def)
  then show ?thesis by (intro pack_roundtrip [OF rle_zstd_ok, THEN conjunct2]) simp
qed

text \<open>C29: a pack cut short anywhere, even right before its end marker, yields a prefix of
  its records and then \<open>ErrMalformed\<close>; truncation is never taken for a complete pack.\<close>

theorem pack_truncation_detected:
  assumes "\<forall>obj \<in> set os. packable obj"
    and "n < length (bw (Writer_Close (snd (add_all Z NewWriter os))))"
  shows "\<exists>m msg. Reader_Records (take n (bw (Writer_Close (snd (add_all Z NewWriter os))))) =
           (take m (map (raw_of Z) os), Some (ErrMalformed msg))"
proof (cases "n < 8")
  case True
  then show ?thesis by (intro exI [of _ 0]) (simp add: Reader_Records_def packMagic_def)
next
  case False
  let ?body = "concat (map (obj_record Z) os)"
  have out: "bw (Writer_Close (snd (add_all Z NewWriter os))) = packMagic @ ?body @ [tagEnd]"
    by (rule written_pack(2) [OF assms(1)])
  have m8: "length packMagic = 8" by (simp add: packMagic_def)
  have le: "n - 8 \<le> length ?body" using assms(2) False by (simp add: out m8)
  have "take n (packMagic @ ?body @ [tagEnd]) = packMagic @ take (n - 8) ?body"
    using False le m8 by simp
  then have "Reader_Records (take n (bw (Writer_Close (snd (add_all Z NewWriter os))))) =
      read_records (take (n - 8) ?body)"
    by (simp only: out) (simp add: Reader_Records_def)
  then show ?thesis
    using read_records_prefix [OF objs_whole [OF assms(1)] le] by (simp add: raws_of_map)
qed

theorem pack_truncation_detected_witness:
  "\<exists>m msg. Reader_Records (take 8 (bw (Writer_Close (snd (add_all rle_zstd NewWriter []))))) =
     (take m (map (raw_of rle_zstd) []), Some (ErrMalformed msg))"
  by (rule pack_truncation_detected) (simp_all add: Writer_Close_def ensureHeader_def NewWriter_def packMagic_def)

text \<open>C30: changing one stored payload byte of a valid record makes \<open>ParseRecord\<close> report
  the checksum mismatch.\<close>

theorem payload_byte_flip_detected:
  assumes "ParseRecord b = Inr r" and "46 \<le> i" and "i < 46 + unat (Rec_Slen r)" and "v \<noteq> b ! i"
  shows "ParseRecord (b[i := v]) = Inl (ErrCorrupt ''record CRC mismatch'')"
proof -
  note ok = ParseRecord_ok [OF assms(1)]
  define p where "p = slice 46 (46 + unat (Rec_Slen r)) b"
  have i: "i < length b" using ok(1) assms(3) by simp
  have plen: "length p = unat (Rec_Slen r)" using ok(1) by (simp add: p_def)
  have fields: "slice lo hi (b[i := v]) = slice lo hi b" if "hi \<le> 46" for lo hi
    using that assms(2) by (simp add: slice_update)
  have "slice 46 (46 + unat (Rec_Slen r)) (b[i := v]) = p[i - 46 := v]"
    using assms(2) by (simp add: p_def slice_def drop_update_swap take_update_swap)
  moreover have "p = take (i - 46) p @ b ! i # drop (Suc (i - 46)) p"
    using assms(2,3) plen ok(1) id_take_nth_drop [of "i - 46" p] by (simp add: p_def slice_def)
  moreover have "p[i - 46 := v] = take (i - 46) p @ v # drop (Suc (i - 46)) p"
    using assms(2,3) plen by (simp add: upd_conv_take_nth_drop)
  ultimately have "crc32_Checksum (take 42 b @ zero4 @ slice 46 (46 + unat (Rec_Slen r)) (b[i := v])) \<noteq>
      crc32_Checksum (take 42 b @ zero4 @ p)"
    using crc32_one_byte [OF assms(4), of "take 42 b @ zero4 @ take (i - 46) p" "drop (Suc (i - 46)) p"]
    by simp
  then have bad: "crc32_Update (crc32_Update (crc32_Update 0 (take 42 b)) zero4)
      (slice 46 (46 + unat (Rec_Slen r)) (b[i := v])) \<noteq> Uint32 (slice 42 46 b)"
    using ok(12) by (simp add: crc32_Update_append crc32_Checksum_def p_def)
  show ?thesis
    using ok(1,2,8) ok(6,7,9,10,11)
    unfolding ParseRecord_def Let_def RecHeaderSize_def
    using bad assms(2) by (simp add: fields) (auto simp: not_le)
qed

theorem payload_byte_flip_detected_witness:
  "ParseRecord ((obj_record rle_zstd \<lparr>Obj_Key = 0 # 5 # replicate 30 7, Obj_Bytes = [1]\<rparr>)[46 := 2]) =
     Inl (ErrCorrupt ''record CRC mismatch'')"
proof -
  define obj where "obj = \<lparr>Obj_Key = 0 # 5 # replicate 30 (7 :: byte), Obj_Bytes = [1 :: byte]\<rparr>"
  have key: "canonical (0 # 5 # replicate 30 7)" by code_simp
  then have "packable obj" by (simp add: packable_def MaxPayload_def obj_def)
  then have w: "ParseRecord (obj_record rle_zstd obj) = Inr (obj_head rle_zstd obj)"
    using obj_record_whole by (simp add: whole_record_def)
  have sf: "stored_form rle_zstd [1] = (0, [1])" by (simp add: stored_form_def rle_zstd_def)
  have "drop 46 (obj_record rle_zstd obj) = [1]"
    using key by (simp add: obj_record_def obj_def sf rec_bytes_fields canonical_def)
  then have "obj_record rle_zstd obj ! 46 = 1"
    using nth_drop [of 46 "obj_record rle_zstd obj" 0] key
    by (simp add: obj_record_def obj_def sf canonical_def)
  then show ?thesis
    using payload_byte_flip_detected [OF w, of 46 2] by (simp add: obj_def obj_head_def sf)
qed

end
