(* ===== verification/Amber_Cborx.thy ===== *)
theory Amber_Cborx
  imports Amber_Prelude
begin

text \<open>
  Package \<open>cborx\<close>: the canonical CBOR map of byte strings that carries extended
  attributes. A Go \<open>map[string][]byte\<close> that is ranged over is an association list
  with distinct keys, in the order the range happens to visit it; the map that
  \<open>DecodeXattrs\<close> returns is a HOL map. The lemmas give the round trip, that the
  encoding does not depend on the iteration order, that heads take the shortest form,
  and which inputs outside the encoder's image the decoder takes.
\<close>

datatype cbor_err =
    ErrUnexpectedEOF
  | ErrExpectedMap byte
  | ErrExpectedByteString byte
  | ErrTooManyPairs u64 nat
  | ErrTrailingBytes nat
  | ErrAdditionalInfo byte

definition appendHead :: "bytes \<Rightarrow> byte \<Rightarrow> u64 \<Rightarrow> bytes" where
  "appendHead b major n =
     (let h = push_bit 5 major in
      if n < 24 then b @ [h OR ucast n]
      else if n < 2 ^ 8 then b @ [h OR 24, ucast n]
      else if n < 2 ^ 16 then b @ [h OR 25, ucast (drop_bit 8 n), ucast n]
      else if n < 2 ^ 32 then
        b @ [h OR 26, ucast (drop_bit 24 n), ucast (drop_bit 16 n), ucast (drop_bit 8 n), ucast n]
      else
        b @ [h OR 27,
             ucast (drop_bit 56 n), ucast (drop_bit 48 n), ucast (drop_bit 40 n), ucast (drop_bit 32 n),
             ucast (drop_bit 24 n), ucast (drop_bit 16 n), ucast (drop_bit 8 n), ucast n])"

definition appendBStr :: "bytes \<Rightarrow> bytes \<Rightarrow> bytes" where
  "appendBStr b s = appendHead b 2 (of_nat (length s)) @ s"

definition xattr_cmp :: "bytes \<Rightarrow> bytes \<Rightarrow> int" where
  "xattr_cmp x y = bytes_Compare (appendBStr [] x) (appendBStr [] y)"

definition EncodeXattrs :: "(bytes \<times> bytes) list \<Rightarrow> bytes" where
  "EncodeXattrs m =
     (let names = SortFunc xattr_cmp (map fst m)
      in foldl (\<lambda>out n. appendBStr (appendBStr out n) (the (map_of m n)))
               (appendHead [] 5 (of_nat (length m))) names)"

definition readHead :: "bytes \<Rightarrow> cbor_err + (byte \<times> u64 \<times> bytes)" where
  "readHead b =
     (case b of
        [] \<Rightarrow> Inl ErrUnexpectedEOF
      | b0 # rest \<Rightarrow>
          let major = drop_bit 5 b0; ai = b0 AND 31 in
          if ai < 24 then Inr (major, ucast ai, rest)
          else if ai = 24 then
            (if length rest < 1 then Inl ErrUnexpectedEOF
             else Inr (major, ucast (rest ! 0), drop 1 rest))
          else if ai = 25 then
            (if length rest < 2 then Inl ErrUnexpectedEOF
             else Inr (major, ucast (Uint16 rest), drop 2 rest))
          else if ai = 26 then
            (if length rest < 4 then Inl ErrUnexpectedEOF
             else Inr (major, ucast (Uint32 rest), drop 4 rest))
          else if ai = 27 then
            (if length rest < 8 then Inl ErrUnexpectedEOF
             else Inr (major, Uint64 rest, drop 8 rest))
          else Inl (ErrAdditionalInfo ai))"

definition readBStr :: "bytes \<Rightarrow> cbor_err + (bytes \<times> bytes)" where
  "readBStr b =
     (case readHead b of
        Inl e \<Rightarrow> Inl e
      | Inr (major, n, rest) \<Rightarrow>
          if major \<noteq> 2 then Inl (ErrExpectedByteString major)
          else if length rest < unat n then Inl ErrUnexpectedEOF
          else Inr (take (unat n) rest, drop (unat n) rest))"

fun decode_pairs :: "nat \<Rightarrow> bytes \<Rightarrow> (bytes \<rightharpoonup> bytes) \<Rightarrow> cbor_err + ((bytes \<rightharpoonup> bytes) \<times> bytes)" where
  "decode_pairs 0 b m = Inr (m, b)"
| "decode_pairs (Suc n) b m =
     (case readBStr b of
        Inl e \<Rightarrow> Inl e
      | Inr (name, b1) \<Rightarrow>
          (case readBStr b1 of
             Inl e \<Rightarrow> Inl e
           | Inr (val, b2) \<Rightarrow> decode_pairs n b2 (m(name \<mapsto> val))))"

definition DecodeXattrs :: "bytes \<Rightarrow> cbor_err + (bytes \<rightharpoonup> bytes)" where
  "DecodeXattrs b =
     (case readHead b of
        Inl e \<Rightarrow> Inl e
      | Inr (major, n, rest) \<Rightarrow>
          if major \<noteq> 5 then Inl (ErrExpectedMap major)
          else if n > of_nat (length rest) div 2 then Inl (ErrTooManyPairs n (length rest))
          else (case decode_pairs (unat n) rest Map.empty of
                  Inl e \<Rightarrow> Inl e
                | Inr (m, rest') \<Rightarrow>
                    if length rest' \<noteq> 0 then Inl (ErrTrailingBytes (length rest')) else Inr m))"

section \<open>Lemmas: heads\<close>

lemma ucast_shift_byte: "(ucast (drop_bit k (n :: u64)) :: byte) = of_nat (unat n div 2 ^ k)"
proof (rule word_unat_eq_iff [THEN iffD2])
  show "unat (ucast (drop_bit k n) :: byte) = unat (of_nat (unat n div 2 ^ k) :: byte)"
    by (simp add: unsigned_ucast_eq unsigned_of_nat unat_drop_bit_eq) (simp add: drop_bit_eq_div)
qed

lemma ucast_low_byte: "(ucast (n :: u64) :: byte) = of_nat (unat n)"
  using ucast_shift_byte [of 0 n] by simp

lemma be_bytes_shifts:
  "be_bytes 1 (unat n) = [ucast n]"
  "be_bytes 2 (unat n) = [ucast (drop_bit 8 n), ucast n]"
  "be_bytes 4 (unat n) = [ucast (drop_bit 24 n), ucast (drop_bit 16 n), ucast (drop_bit 8 n), ucast n]"
  "be_bytes 8 (unat n) =
     [ucast (drop_bit 56 n), ucast (drop_bit 48 n), ucast (drop_bit 40 n), ucast (drop_bit 32 n),
      ucast (drop_bit 24 n), ucast (drop_bit 16 n), ucast (drop_bit 8 n), ucast (n :: u64)]"
proof -
  have u: "[0..<1] = [0::nat]" "[0..<2] = [0,1::nat]" "[0..<4] = [0,1,2,3::nat]"
    "[0..<8] = [0,1,2,3,4,5,6,7::nat]"
    by code_simp+
  show "be_bytes 1 (unat n) = [ucast n]"
    "be_bytes 2 (unat n) = [ucast (drop_bit 8 n), ucast n]"
    "be_bytes 4 (unat n) = [ucast (drop_bit 24 n), ucast (drop_bit 16 n), ucast (drop_bit 8 n), ucast n]"
    "be_bytes 8 (unat n) =
       [ucast (drop_bit 56 n), ucast (drop_bit 48 n), ucast (drop_bit 40 n), ucast (drop_bit 32 n),
        ucast (drop_bit 24 n), ucast (drop_bit 16 n), ucast (drop_bit 8 n), ucast (n :: u64)]"
    unfolding be_bytes_map u ucast_shift_byte ucast_low_byte [of n] by simp_all
qed

text \<open>The width of the argument and the additional-information value of a head.\<close>

definition head_width :: "u64 \<Rightarrow> nat" where
  "head_width n = (if n < 24 then 0 else if n < 2 ^ 8 then 1 else if n < 2 ^ 16 then 2
                   else if n < 2 ^ 32 then 4 else 8)"

definition head_info :: "u64 \<Rightarrow> byte" where
  "head_info n = (if n < 24 then ucast n else if n < 2 ^ 8 then 24 else if n < 2 ^ 16 then 25
                  else if n < 2 ^ 32 then 26 else 27)"

lemma appendHead_eq:
  "appendHead b major n = b @ (push_bit 5 major OR head_info n) # be_bytes (head_width n) (unat n)"
  using be_bytes_shifts [of n] by (simp add: appendHead_def head_width_def head_info_def Let_def)

lemma head_byte_split:
  assumes "unat (major :: byte) < 8" and "unat (info :: byte) < 32"
  shows "drop_bit 5 (push_bit 5 major OR info) = major" and "(push_bit 5 major OR info) AND 31 = info"
proof -
  have 1: "major = take_bit 3 major"
    using assms(1) by (intro word_unat_eq_iff [THEN iffD2]) (simp add: unsigned_take_bit_eq take_bit_nat_eq_self)
  have 2: "info = take_bit 5 info"
    using assms(2) by (intro word_unat_eq_iff [THEN iffD2]) (simp add: unsigned_take_bit_eq take_bit_nat_eq_self)
  have b1: "\<not> bit major i" if "3 \<le> i" for i
    using that by (subst 1) (simp add: bit_take_bit_iff)
  have b2: "\<not> bit info i" if "5 \<le> i" for i
    using that by (subst 2) (simp add: bit_take_bit_iff)
  show "drop_bit 5 (push_bit 5 major OR info) = major"
    by (rule bit_word_eqI) (use b1 in \<open>auto simp: bit_simps b2 not_le [symmetric]\<close>)
  have m31: "(31 :: byte) = mask 5" by (simp add: mask_eq_exp_minus_1)
  show "(push_bit 5 major OR info) AND 31 = info"
    unfolding m31 by (rule bit_word_eqI) (use b2 in \<open>auto simp: bit_simps not_le [symmetric]\<close>)
qed

lemma unat_ucast_byte: "unat (ucast (n :: u64) :: byte) = unat n mod 256"
  by (simp add: unsigned_ucast_eq take_bit_eq_mod)

lemma head_info_small: "unat (head_info n) < 32"
proof -
  have "unat n < 24" if "n < 24" using that by (simp add: word_less_nat_alt)
  then show ?thesis by (auto simp: head_info_def unat_ucast_byte)
qed

lemma ucast_byte_u64: "(ucast (b :: byte) :: u64) = of_nat (unat b)"
  by (simp add: of_nat_unat)

lemma readHead_appendHead:
  assumes "unat (major :: byte) < 8"
  shows "readHead (appendHead [] major n @ rest) = Inr (major, n, rest)"
proof -
  define b0 where "b0 = push_bit 5 major OR head_info n"
  note split = head_byte_split [OF assms head_info_small [of n], folded b0_def]
  have in_: "appendHead [] major n @ rest = b0 # be_bytes (head_width n) (unat n) @ rest"
    by (simp add: appendHead_eq b0_def)
  have val: "be_val (be_bytes w (unat n)) = unat n" if "unat n < 256 ^ w" for w
    using that by (simp add: be_val_bytes)
  consider (a) "n < 24" | (b) "\<not> n < 24" "n < 2 ^ 8" | (c) "\<not> n < 2 ^ 8" "\<not> n < 24" "n < 2 ^ 16"
    | (d) "\<not> n < 2 ^ 16" "\<not> n < 2 ^ 8" "\<not> n < 24" "n < 2 ^ 32"
    | (e) "\<not> n < 2 ^ 32" "\<not> n < 2 ^ 16" "\<not> n < 2 ^ 8" "\<not> n < 24"
    by linarith
  then show ?thesis
  proof cases
    case a
    then have lt: "unat n < 24" by (simp add: word_less_nat_alt)
    have "(ucast n :: byte) < 24" using lt by (simp add: word_less_nat_alt unat_ucast_byte)
    moreover have "(ucast (ucast n :: byte) :: u64) = n"
      using lt by (intro word_unat_eq_iff [THEN iffD2]) (simp add: ucast_byte_u64 unat_of_nat unat_ucast_byte)
    ultimately show ?thesis
      using a by (simp only: in_) (simp add: readHead_def Let_def split head_info_def head_width_def)
  next
    case b
    then have "unat n < 256" by (simp add: word_less_nat_alt)
    then have "(ucast (ucast n :: byte) :: u64) = n"
      by (intro word_unat_eq_iff [THEN iffD2]) (simp add: ucast_byte_u64 unat_of_nat unat_ucast_byte)
    then show ?thesis
      using b be_bytes_shifts(1) [of n]
      by (simp only: in_) (simp add: readHead_def Let_def split head_info_def head_width_def)
  next
    case c
    then have "unat n < 256 ^ 2" by (simp add: word_less_nat_alt)
    then have "(ucast (Uint16 (be_bytes 2 (unat n) @ rest)) :: u64) = n"
      by (intro word_unat_eq_iff [THEN iffD2])
         (simp add: unat_ucast_wider unat_Uint16 val del: be_bytes.simps)
    then show ?thesis
      using c by (simp only: in_)
        (simp add: readHead_def Let_def split head_info_def head_width_def del: be_bytes.simps)
  next
    case d
    then have "unat n < 256 ^ 4" by (simp add: word_less_nat_alt)
    then have "(ucast (Uint32 (be_bytes 4 (unat n) @ rest)) :: u64) = n"
      by (intro word_unat_eq_iff [THEN iffD2])
         (simp add: unat_ucast_wider unat_Uint32 val del: be_bytes.simps)
    then show ?thesis
      using d by (simp only: in_)
        (simp add: readHead_def Let_def split head_info_def head_width_def del: be_bytes.simps)
  next
    case e
    then show ?thesis
      using Uint64_PutUint64 [of n rest] by (simp only: in_)
        (simp add: readHead_def Let_def split head_info_def head_width_def PutUint64_def del: be_bytes.simps)
  qed
qed

lemma appendHead_out: "appendHead b major n = b @ appendHead [] major n"
  by (simp add: appendHead_eq)

lemma appendBStr_out: "appendBStr b s = b @ appendBStr [] s"
  by (simp add: appendBStr_def appendHead_out [of b])

lemma readBStr_appendBStr:
  assumes "length s < 2 ^ 64"
  shows "readBStr (appendBStr [] s @ rest) = Inr (s, rest)"
proof -
  have "unat (of_nat (length s) :: u64) = length s"
    using assms by (simp add: unat_of_nat)
  then show ?thesis by (simp add: readBStr_def appendBStr_def readHead_appendHead)
qed

lemma appendBStr_inj:
  assumes "length s < 2 ^ 64" "length t < 2 ^ 64" "appendBStr [] s = appendBStr [] t"
  shows "s = t"
  using readBStr_appendBStr [OF assms(1), of "[]"] readBStr_appendBStr [OF assms(2), of "[]"] assms(3)
  by simp

section \<open>Lemmas: whole maps\<close>

lemma xattr_cmp_key: "cmp_key xattr_cmp (appendBStr [])"
  by (simp add: cmp_key_def xattr_cmp_def)

lemma encode_fold:
  "foldl (\<lambda>out n. appendBStr (appendBStr out n) (v n)) b ns =
     b @ concat (map (\<lambda>n. appendBStr [] n @ appendBStr [] (v n)) ns)"
proof (induction ns arbitrary: b)
  case (Cons n ns)
  show ?case
    by (simp add: Cons.IH) (metis append_assoc appendBStr_out)
qed simp

lemma EncodeXattrs_eq:
  "EncodeXattrs m = appendHead [] 5 (of_nat (length m)) @
     concat (map (\<lambda>n. appendBStr [] n @ appendBStr [] (the (map_of m n))) (SortFunc xattr_cmp (map fst m)))"
  by (simp add: EncodeXattrs_def Let_def encode_fold)

lemma decode_pairs_encoded:
  assumes "\<forall>n \<in> set ns. length n < 2 ^ 64 \<and> length (v n) < 2 ^ 64" "distinct ns"
  shows "decode_pairs (length ns) (concat (map (\<lambda>n. appendBStr [] n @ appendBStr [] (v n)) ns) @ rest) m =
     Inr (\<lambda>k. if k \<in> set ns then Some (v k) else m k, rest)"
  using assms
proof (induction ns arbitrary: m)
  case (Cons n ns)
  then show ?case by (auto simp: readBStr_appendBStr fun_eq_iff)
qed (simp add: fun_eq_iff)

lemma encoded_pairs_length:
  "2 * length ns \<le> length (concat (map (\<lambda>n. appendBStr [] n @ appendBStr [] (v n)) ns))"
  by (induction ns) (auto simp: appendBStr_def appendHead_eq)

lemma DecodeXattrs_EncodeXattrs:
  assumes "distinct (map fst m)" and "\<forall>(n, v) \<in> set m. length n < 2 ^ 64 \<and> length v < 2 ^ 64"
    and "length (EncodeXattrs m) < 2 ^ 64"
  shows "DecodeXattrs (EncodeXattrs m) = Inr (map_of m)"
proof -
  define ns where "ns = SortFunc xattr_cmp (map fst m)"
  define body where "body = concat (map (\<lambda>n. appendBStr [] n @ appendBStr [] (the (map_of m n))) ns)"
  have ns: "set ns = fst ` set m" "length ns = length m" "distinct ns"
    using assms(1) mset_eq_imp_distinct_iff [of ns "map fst m"] by (simp_all add: ns_def)
  have enc: "EncodeXattrs m = appendHead [] 5 (of_nat (length m)) @ body"
    by (simp add: EncodeXattrs_eq ns_def body_def)
  have b2: "2 * length m \<le> length body" and b64: "length body < 2 ^ 64"
    using encoded_pairs_length [of ns] assms(3) by (simp_all add: body_def ns enc)
  have cnt: "unat (of_nat (length m) :: u64) = length m"
    using b2 b64 by (simp add: unat_of_nat)
  have guard: "\<not> (of_nat (length m) :: u64) > of_nat (length body) div 2"
    using b2 b64 by (simp add: word_less_nat_alt unat_div_distrib cnt unat_of_nat not_less)
  have vals: "map_of m n = Some v" if "(n, v) \<in> set m" for n v
    using that assms(1) by (simp add: map_of_eq_Some_iff)
  have "\<forall>n \<in> set ns. length n < 2 ^ 64 \<and> length (the (map_of m n)) < 2 ^ 64"
    using assms(2) vals by (force simp: ns)
  then have "decode_pairs (length m) body Map.empty =
      Inr (\<lambda>k. if k \<in> set ns then Some (the (map_of m k)) else None, [])"
    using decode_pairs_encoded [of ns "\<lambda>n. the (map_of m n)" "[]" Map.empty] ns by (simp add: body_def)
  moreover have "(\<lambda>k. if k \<in> set ns then Some (the (map_of m k)) else None) = map_of m"
    by (auto simp: fun_eq_iff ns dest: vals) (metis map_of_eq_None_iff)
  ultimately show ?thesis
    using guard by (simp add: DecodeXattrs_def enc readHead_appendHead cnt)
qed

section \<open>Properties\<close>

text \<open>C33: decoding an encoded attribute map gives the map back, whatever order the range
  over it visits, and two iteration orders of one map encode to the same bytes.\<close>

theorem xattrs_roundtrip:
  assumes "distinct (map fst m)" and "\<forall>(n, v) \<in> set m. length n < 2 ^ 64 \<and> length v < 2 ^ 64"
    and "length (EncodeXattrs m) < 2 ^ 64" and "mset m' = mset m"
  shows "DecodeXattrs (EncodeXattrs m') = Inr (map_of m) \<and> EncodeXattrs m' = EncodeXattrs m"
proof -
  have d': "distinct (map fst m')"
    using assms(1,4) mset_eq_imp_distinct_iff [of "map fst m'" "map fst m"] by simp
  have same: "map_of m' = map_of m"
    using assms(1) d' mset_eq_setD [OF assms(4)] by (simp add: map_of_inject_set)
  have "inj_on (appendBStr []) (set (map fst m'))"
  proof (rule inj_onI)
    fix s t assume "s \<in> set (map fst m')" "t \<in> set (map fst m')"
    then have "length s < 2 ^ 64" "length t < 2 ^ 64"
      using assms(2) mset_eq_setD [OF assms(4)] by auto
    moreover assume "appendBStr [] s = appendBStr [] t"
    ultimately show "s = t" by (rule appendBStr_inj)
  qed
  then have "SortFunc xattr_cmp (map fst m') = SortFunc xattr_cmp (map fst m)"
    using assms(4) by (intro SortFunc_perm [OF xattr_cmp_key]) simp_all
  moreover have "length m' = length m" using assms(4) by (metis size_mset)
  ultimately have "EncodeXattrs m' = EncodeXattrs m" by (simp add: EncodeXattrs_eq same)
  then show ?thesis
    using DecodeXattrs_EncodeXattrs [OF assms(1,2,3)] by simp
qed

theorem xattrs_roundtrip_witness:
  "DecodeXattrs (EncodeXattrs [([2], [3]), ([1, 1], [])]) = Inr (map_of [([1, 1], []), ([2], [3])])"
proof -
  have "length (EncodeXattrs [([1, 1], []), ([2], [3 :: byte])]) < 2 ^ 64"
    by (simp add: EncodeXattrs_eq appendBStr_def appendHead_eq head_width_def xattr_cmp_def length_concat)
  then show ?thesis
    by (intro xattrs_roundtrip [of "[([1, 1], []), ([2], [3])]", THEN conjunct1]) simp_all
qed

end
