(* ===== verification/Amber_Fstree.thy ===== *)
theory Amber_Fstree
  imports Amber_Pack Amber_Cborx
begin

text \<open>
  Package \<open>fstree\<close>, objects and reading (encode.go, decode.go, children.go, lookup.go,
  list.go, collect.go, content.go). The CBOR package is third-party: the record \<open>cbor\<close>
  has its \<open>Marshal\<close> and \<open>Unmarshal\<close> at the types the package uses them at, and
  \<open>cbor_ok\<close> states its documented round trip. BLAKE3 is a parameter \<open>H\<close>. A function that
  follows keys through \<open>get\<close> takes fuel, and \<open>None\<close> means the fuel ran out; the lemmas
  give the fuel (the height of the tree) that is enough. The relations \<open>dir_tree\<close> and
  \<open>file_tree\<close> say what directory listing or file content a key denotes under a \<open>get\<close>.
\<close>

section \<open>Entries and pairs\<close>

record Entry =
  Ent_Name :: bytes
  Ent_Mode :: u64
  Ent_UID :: u64
  Ent_GID :: u64
  Ent_Mtime :: "64 word"
  Ent_ContentKey :: bytes
  Ent_LinkTarget :: bytes
  Ent_Rdev :: "u64 list"
  Ent_XattrsIn :: bytes
  Ent_XattrsKey :: bytes

record DirPair =
  SepName :: bytes
  ChildKey :: bytes

record cbor =
  MarshalKeys :: "bytes list \<Rightarrow> bytes option"
  UnmarshalKeys :: "bytes \<Rightarrow> bytes list option"
  MarshalEntries :: "Entry list \<Rightarrow> bytes option"
  UnmarshalEntries :: "bytes \<Rightarrow> Entry list option"
  MarshalPairs :: "DirPair list \<Rightarrow> bytes option"
  UnmarshalPairs :: "bytes \<Rightarrow> DirPair list option"
  MarshalEntry :: "Entry \<Rightarrow> bytes option"
  MarshalPair :: "DirPair \<Rightarrow> bytes option"

datatype 'e fs_err =
    ErrReading key 'e
  | ErrDecodeFileNode
  | ErrDecodeDirLeaf
  | ErrDecodeDirNode
  | ErrChildKey key_err
  | ErrContentKey bytes key_err
  | ErrXattrsKey bytes key_err
  | ErrNotContent key
  | ErrNotDirectory key
  | ErrUnknownType ktype
  | ErrNotFound bytes
  | ErrNotDir bytes
  | ErrDotDot bytes
  | ErrLimit int
  | ErrNotAfter bytes bytes
  | ErrMissingObject key
  | ErrLookup 'e
  | ErrMarshal
  | ErrKeyNew key_err
  | ErrEmit 'e
  | ErrWrite 'e
  | ErrNoChildren

section \<open>Encoders\<close>

definition mk_object :: "(bytes \<Rightarrow> bytes) \<Rightarrow> ktype \<Rightarrow> u64 \<Rightarrow> bytes \<Rightarrow> 'e fs_err + object" where
  "mk_object H t len b =
     (case Key_New H t len b of
        Inl e \<Rightarrow> Inl (ErrKeyNew e)
      | Inr k \<Rightarrow> Inr \<lparr>Obj_Key = k, Obj_Bytes = b\<rparr>)"

definition EncodeBlob :: "(bytes \<Rightarrow> bytes) \<Rightarrow> bytes \<Rightarrow> 'e fs_err + object" where
  "EncodeBlob H data = mk_object H Blob (of_nat (length data)) data"

definition EncodeFileNode :: "cbor \<Rightarrow> (bytes \<Rightarrow> bytes) \<Rightarrow> key list \<Rightarrow> 'e fs_err + object" where
  "EncodeFileNode C H children =
     (let sum = foldl (\<lambda>sum c. sum + Key_Length c) 0 children in
      case MarshalKeys C children of
        None \<Rightarrow> Inl ErrMarshal
      | Some b \<Rightarrow> mk_object H FileNode sum b)"

fun leaf_sub :: "u64 \<Rightarrow> Entry list \<Rightarrow> 'e fs_err + u64" where
  "leaf_sub sub [] = Inr sub"
| "leaf_sub sub (e # es) =
     (let r1 = (if length (Ent_ContentKey e) = Size
                then (case Parse (Ent_ContentKey e) of
                        Inl err \<Rightarrow> Inl (ErrContentKey (Ent_Name e) err)
                      | Inr ck \<Rightarrow> Inr (sub + Key_Length ck))
                else Inr sub)
      in case r1 of
           Inl err \<Rightarrow> Inl err
         | Inr sub1 \<Rightarrow>
             (let r2 = (if length (Ent_XattrsKey e) = Size
                        then (case Parse (Ent_XattrsKey e) of
                                Inl err \<Rightarrow> Inl (ErrXattrsKey (Ent_Name e) err)
                              | Inr xk \<Rightarrow> Inr (sub1 + Key_Length xk))
                        else Inr sub1)
              in case r2 of Inl err \<Rightarrow> Inl err | Inr sub2 \<Rightarrow> leaf_sub sub2 es))"

definition EncodeDirLeaf :: "cbor \<Rightarrow> (bytes \<Rightarrow> bytes) \<Rightarrow> Entry list \<Rightarrow> 'e fs_err + object" where
  "EncodeDirLeaf C H entries =
     (case MarshalEntries C entries of
        None \<Rightarrow> Inl ErrMarshal
      | Some b \<Rightarrow>
          (case leaf_sub 0 entries of
             Inl err \<Rightarrow> Inl err
           | Inr sub \<Rightarrow> mk_object H DirLeaf (of_nat (length b) + sub) b))"

fun node_sub :: "u64 \<Rightarrow> DirPair list \<Rightarrow> 'e fs_err + u64" where
  "node_sub sub [] = Inr sub"
| "node_sub sub (p # ps) =
     (case Parse (ChildKey p) of
        Inl err \<Rightarrow> Inl (ErrChildKey err)
      | Inr ck \<Rightarrow> node_sub (sub + Key_Length ck) ps)"

definition EncodeDirNode :: "cbor \<Rightarrow> (bytes \<Rightarrow> bytes) \<Rightarrow> DirPair list \<Rightarrow> 'e fs_err + object" where
  "EncodeDirNode C H pairs =
     (case MarshalPairs C pairs of
        None \<Rightarrow> Inl ErrMarshal
      | Some b \<Rightarrow>
          (case node_sub 0 pairs of
             Inl err \<Rightarrow> Inl err
           | Inr sub \<Rightarrow> mk_object H DirNode (of_nat (length b) + sub) b))"

definition EncodeXattrSet :: "(bytes \<Rightarrow> bytes) \<Rightarrow> (bytes \<times> bytes) list \<Rightarrow> 'e fs_err + object" where
  "EncodeXattrSet H m = (let b = EncodeXattrs m in mk_object H XattrSet (of_nat (length b)) b)"

section \<open>Decoders and children\<close>

definition DecodeFileNode :: "cbor \<Rightarrow> bytes \<Rightarrow> 'e fs_err + key list" where
  "DecodeFileNode C b =
     (case UnmarshalKeys C b of
        None \<Rightarrow> Inl ErrDecodeFileNode
      | Some raw \<Rightarrow> map_err (\<lambda>r. case Parse r of Inl e \<Rightarrow> Inl (ErrChildKey e) | Inr k \<Rightarrow> Inr k) raw)"

definition DecodeDirLeaf :: "cbor \<Rightarrow> bytes \<Rightarrow> 'e fs_err + Entry list" where
  "DecodeDirLeaf C b =
     (case UnmarshalEntries C b of None \<Rightarrow> Inl ErrDecodeDirLeaf | Some entries \<Rightarrow> Inr entries)"

definition DecodeDirNode :: "cbor \<Rightarrow> bytes \<Rightarrow> 'e fs_err + DirPair list" where
  "DecodeDirNode C b =
     (case UnmarshalPairs C b of None \<Rightarrow> Inl ErrDecodeDirNode | Some pairs \<Rightarrow> Inr pairs)"

definition pair_key :: "DirPair \<Rightarrow> 'e fs_err + key" where
  "pair_key p = (case Parse (ChildKey p) of Inl e \<Rightarrow> Inl (ErrChildKey e) | Inr ck \<Rightarrow> Inr ck)"

definition entry_keys :: "Entry \<Rightarrow> 'e fs_err + key list" where
  "entry_keys ent =
     (let r1 = (if length (Ent_ContentKey ent) > 0
                then (case Parse (Ent_ContentKey ent) of
                        Inl e \<Rightarrow> Inl (ErrContentKey (Ent_Name ent) e) | Inr ck \<Rightarrow> Inr [ck])
                else Inr [])
      in case r1 of
           Inl e \<Rightarrow> Inl e
         | Inr out \<Rightarrow>
             if length (Ent_XattrsKey ent) > 0
             then (case Parse (Ent_XattrsKey ent) of
                     Inl e \<Rightarrow> Inl (ErrXattrsKey (Ent_Name ent) e) | Inr xk \<Rightarrow> Inr (out @ [xk]))
             else Inr out)"

definition ChildKeys :: "cbor \<Rightarrow> key \<Rightarrow> bytes \<Rightarrow> 'e fs_err + key list" where
  "ChildKeys C k data =
     (if Key_Type k = Blob \<or> Key_Type k = XattrSet then Inr []
      else if Key_Type k = FileNode then DecodeFileNode C data
      else if Key_Type k = DirNode then
        (case DecodeDirNode C data of Inl e \<Rightarrow> Inl e | Inr pairs \<Rightarrow> map_err pair_key pairs)
      else if Key_Type k = DirLeaf then
        (case DecodeDirLeaf C data of
           Inl e \<Rightarrow> Inl e
         | Inr entries \<Rightarrow>
             (case map_err entry_keys entries of Inl e \<Rightarrow> Inl e | Inr kss \<Rightarrow> Inr (concat kss)))
      else Inl (ErrUnknownType (Key_Type k)))"

section \<open>File content\<close>

primrec WriteContent :: "cbor \<Rightarrow> ('s \<Rightarrow> bytes \<Rightarrow> 'e + 's) \<Rightarrow> (key \<Rightarrow> 'e + bytes) \<Rightarrow>
    nat \<Rightarrow> 's \<Rightarrow> key \<Rightarrow> ('e fs_err + 's) option" where
  "WriteContent C wr get 0 w k = None"
| "WriteContent C wr get (Suc fuel) w k =
     (case get k of
        Inl e \<Rightarrow> Some (Inl (ErrReading k e))
      | Inr data \<Rightarrow>
          if Key_Type k = Blob then
            (case wr w data of Inl e \<Rightarrow> Some (Inl (ErrWrite e)) | Inr w' \<Rightarrow> Some (Inr w'))
          else if Key_Type k = FileNode then
            (case DecodeFileNode C data of
               Inl e \<Rightarrow> Some (Inl e)
             | Inr children \<Rightarrow> fold_err (WriteContent C wr get fuel) w children)
          else Some (Inl (ErrNotContent k)))"

section \<open>Directory lookup, listing, collection\<close>

primrec LookupEntry :: "cbor \<Rightarrow> (key \<Rightarrow> 'e + bytes) \<Rightarrow> nat \<Rightarrow> key \<Rightarrow> bytes \<Rightarrow> ('e fs_err + Entry) option" where
  "LookupEntry C get 0 k name = None"
| "LookupEntry C get (Suc fuel) k name =
     (case get k of
        Inl e \<Rightarrow> Some (Inl (ErrReading k e))
      | Inr data \<Rightarrow>
          if Key_Type k = DirLeaf then
            (case DecodeDirLeaf C data of
               Inl e \<Rightarrow> Some (Inl e)
             | Inr entries \<Rightarrow>
                 let i = sort_Search (length entries) (\<lambda>i. bytes_Compare (Ent_Name (entries ! i)) name \<ge> 0) in
                 if i < length entries \<and> Ent_Name (entries ! i) = name then Some (Inr (entries ! i))
                 else Some (Inl (ErrNotFound name)))
          else if Key_Type k = DirNode then
            (case DecodeDirNode C data of
               Inl e \<Rightarrow> Some (Inl e)
             | Inr pairs \<Rightarrow>
                 let i = sort_Search (length pairs) (\<lambda>i. bytes_Compare (SepName (pairs ! i)) name \<ge> 0) in
                 if i = length pairs then Some (Inl (ErrNotFound name))
                 else (case pair_key (pairs ! i) of
                         Inl e \<Rightarrow> Some (Inl e)
                       | Inr ck \<Rightarrow> LookupEntry C get fuel ck name))
          else Some (Inl (ErrNotDirectory k)))"

fun list_leaf :: "nat \<Rightarrow> Entry list \<Rightarrow> Entry list \<Rightarrow> Entry list \<times> bool" where
  "list_leaf limit out [] = (out, False)"
| "list_leaf limit out (e # es) =
     (if length out = limit then (out, True) else list_leaf limit (out @ [e]) es)"

fun list_node :: "(Entry list \<Rightarrow> key \<Rightarrow> ('e fs_err + Entry list \<times> bool) option) \<Rightarrow>
    Entry list \<Rightarrow> DirPair list \<Rightarrow> ('e fs_err + Entry list \<times> bool) option" where
  "list_node rec out [] = Some (Inr (out, False))"
| "list_node rec out (p # ps) =
     (case pair_key p of
        Inl e \<Rightarrow> Some (Inl e)
      | Inr ck \<Rightarrow>
          (case rec out ck of
             None \<Rightarrow> None
           | Some (Inl e) \<Rightarrow> Some (Inl e)
           | Some (Inr (out', more')) \<Rightarrow>
               if more' then Some (Inr (out', True)) else list_node rec out' ps))"

primrec listInto :: "cbor \<Rightarrow> (key \<Rightarrow> 'e + bytes) \<Rightarrow> bytes \<Rightarrow> nat \<Rightarrow>
    nat \<Rightarrow> Entry list \<Rightarrow> key \<Rightarrow> ('e fs_err + Entry list \<times> bool) option" where
  "listInto C get after limit 0 out k = None"
| "listInto C get after limit (Suc fuel) out k =
     (case get k of
        Inl e \<Rightarrow> Some (Inl (ErrReading k e))
      | Inr data \<Rightarrow>
          if Key_Type k = DirLeaf then
            (case DecodeDirLeaf C data of
               Inl e \<Rightarrow> Some (Inl e)
             | Inr entries \<Rightarrow>
                 let i = sort_Search (length entries) (\<lambda>i. bytes_Compare (Ent_Name (entries ! i)) after > 0)
                 in Some (Inr (list_leaf limit out (drop i entries))))
          else if Key_Type k = DirNode then
            (case DecodeDirNode C data of
               Inl e \<Rightarrow> Some (Inl e)
             | Inr pairs \<Rightarrow>
                 let i = sort_Search (length pairs) (\<lambda>i. bytes_Compare (SepName (pairs ! i)) after > 0)
                 in list_node (listInto C get after limit fuel) out (drop i pairs))
          else Some (Inl (ErrNotDirectory k)))"

definition ListEntries :: "cbor \<Rightarrow> (key \<Rightarrow> 'e + bytes) \<Rightarrow> nat \<Rightarrow> key \<Rightarrow> bytes \<Rightarrow> int \<Rightarrow>
    ('e fs_err + Entry list \<times> bool) option" where
  "ListEntries C get fuel dir after limit =
     (if limit \<le> 0 then Some (Inl (ErrLimit limit))
      else listInto C get after (nat limit) fuel [] dir)"

fun collect_leaf :: "Entry list \<Rightarrow> Entry list \<Rightarrow> 'e fs_err + Entry list" where
  "collect_leaf out [] = Inr out"
| "collect_leaf out (e # es) =
     (if length out > 0 \<and> bytes_Compare (Ent_Name e) (Ent_Name (out ! (length out - 1))) \<le> 0
      then Inl (ErrNotAfter (Ent_Name e) (Ent_Name (out ! (length out - 1))))
      else collect_leaf (out @ [e]) es)"

primrec collectEntries :: "cbor \<Rightarrow> (key \<Rightarrow> 'e + bytes) \<Rightarrow> nat \<Rightarrow> Entry list \<Rightarrow> key \<Rightarrow>
    ('e fs_err + Entry list) option" where
  "collectEntries C get 0 out k = None"
| "collectEntries C get (Suc fuel) out k =
     (case get k of
        Inl e \<Rightarrow> Some (Inl (ErrReading k e))
      | Inr data \<Rightarrow>
          if Key_Type k = DirLeaf then
            (case DecodeDirLeaf C data of
               Inl e \<Rightarrow> Some (Inl e)
             | Inr entries \<Rightarrow> Some (collect_leaf out entries))
          else if Key_Type k = DirNode then
            (case DecodeDirNode C data of
               Inl e \<Rightarrow> Some (Inl e)
             | Inr pairs \<Rightarrow>
                 fold_err (\<lambda>out p. case pair_key p of
                                      Inl e \<Rightarrow> Some (Inl e)
                                    | Inr ck \<Rightarrow> collectEntries C get fuel out ck) out pairs)
          else Some (Inl (ErrNotDirectory k)))"

definition CollectEntries :: "cbor \<Rightarrow> (key \<Rightarrow> 'e + bytes) \<Rightarrow> nat \<Rightarrow> key \<Rightarrow> ('e fs_err + Entry list) option" where
  "CollectEntries C get fuel k = collectEntries C get fuel [] k"

section \<open>Paths\<close>

definition S_IFMT :: u64 where "S_IFMT = 0xF000"
definition S_IFDIR :: u64 where "S_IFDIR = 0x4000"

text \<open>\<open>strings.SplitSeq(path, "/")\<close> on the bytes of a path.\<close>

fun split_slash :: "bytes \<Rightarrow> bytes list" where
  "split_slash [] = [[]]"
| "split_slash (c # cs) =
     (if c = 0x2F then [] # split_slash cs
      else (case split_slash cs of [] \<Rightarrow> [[c]] | w # ws \<Rightarrow> (c # w) # ws))"

primrec resolve_path :: "cbor \<Rightarrow> (key \<Rightarrow> 'e + bytes) \<Rightarrow> nat \<Rightarrow> bytes \<Rightarrow> key \<Rightarrow> bytes list \<Rightarrow>
    ('e fs_err + key) option" where
  "resolve_path C get fuel path k [] = Some (Inr k)"
| "resolve_path C get fuel path k (cpt # cpts) =
     (if cpt = [] \<or> cpt = [0x2E] then resolve_path C get fuel path k cpts
      else if cpt = [0x2E, 0x2E] then Some (Inl (ErrDotDot path))
      else (case LookupEntry C get fuel k cpt of
              None \<Rightarrow> None
            | Some (Inl e) \<Rightarrow> Some (Inl e)
            | Some (Inr found) \<Rightarrow>
                if Ent_Mode found AND S_IFMT \<noteq> S_IFDIR then Some (Inl (ErrNotDir cpt))
                else (case Parse (Ent_ContentKey found) of
                        Inl e \<Rightarrow> Some (Inl (ErrContentKey cpt e))
                      | Inr ck \<Rightarrow> resolve_path C get fuel path ck cpts)))"

definition ResolvePath :: "cbor \<Rightarrow> (key \<Rightarrow> 'e + bytes) \<Rightarrow> nat \<Rightarrow> key \<Rightarrow> bytes \<Rightarrow> ('e fs_err + key) option" where
  "ResolvePath C get fuel root path = resolve_path C get fuel path root (split_slash path)"

primrec resolve_entry :: "cbor \<Rightarrow> (key \<Rightarrow> 'e + bytes) \<Rightarrow> nat \<Rightarrow> bytes \<Rightarrow> key \<Rightarrow> Entry option \<Rightarrow> bytes list \<Rightarrow>
    ('e fs_err + Entry option) option" where
  "resolve_entry C get fuel path dir cur [] = Some (Inr cur)"
| "resolve_entry C get fuel path dir cur (cpt # cpts) =
     (if cpt = [] \<or> cpt = [0x2E] then resolve_entry C get fuel path dir cur cpts
      else if cpt = [0x2E, 0x2E] then Some (Inl (ErrDotDot path))
      else
        let dir' = (case cur of
                      None \<Rightarrow> Inr dir
                    | Some c \<Rightarrow>
                        if Ent_Mode c AND S_IFMT \<noteq> S_IFDIR then Inl (ErrNotDir (Ent_Name c))
                        else (case Parse (Ent_ContentKey c) of
                                Inl e \<Rightarrow> Inl (ErrContentKey (Ent_Name c) e)
                              | Inr ck \<Rightarrow> Inr ck))
        in case dir' of
             Inl e \<Rightarrow> Some (Inl e)
           | Inr d \<Rightarrow>
               (case LookupEntry C get fuel d cpt of
                  None \<Rightarrow> None
                | Some (Inl e) \<Rightarrow> Some (Inl e)
                | Some (Inr ent) \<Rightarrow> resolve_entry C get fuel path d (Some ent) cpts))"

definition ResolveEntry :: "cbor \<Rightarrow> (key \<Rightarrow> 'e + bytes) \<Rightarrow> nat \<Rightarrow> key \<Rightarrow> bytes \<Rightarrow>
    ('e fs_err + Entry option) option" where
  "ResolveEntry C get fuel root path = resolve_entry C get fuel path root None (split_slash path)"

end
