(* ===== verification/Amber_Tree.thy ===== *)
theory Amber_Tree
  imports Amber_Fstree
begin

text \<open>
  What a key denotes in an object store: \<open>dir_tree\<close> relates a directory key to its
  entries and \<open>file_tree\<close> a content key to its bytes, each with a height that bounds the
  fuel of the readers. The lemmas show that lookup, paging, collection and content
  reading compute exactly what the relations say.
\<close>

section \<open>Denotation of directory and content keys\<close>

inductive dir_tree :: "cbor \<Rightarrow> (key \<Rightarrow> 'e + bytes) \<Rightarrow> nat \<Rightarrow> key \<Rightarrow> Entry list \<Rightarrow> bool"
  for C :: cbor and get :: "key \<Rightarrow> 'e + bytes" where
  leaf: "Key_Type k = DirLeaf \<Longrightarrow> get k = Inr b \<Longrightarrow> UnmarshalEntries C b = Some es \<Longrightarrow>
         dir_tree C get (Suc n) k es"
| node: "Key_Type k = DirNode \<Longrightarrow> get k = Inr b \<Longrightarrow> UnmarshalPairs C b = Some ps \<Longrightarrow>
         list_all2 (\<lambda>p es. canonical (ChildKey p) \<and> es \<noteq> [] \<and> SepName p = Ent_Name (last es) \<and>
                           dir_tree C get n (ChildKey p) es) ps ess \<Longrightarrow>
         dir_tree C get (Suc n) k (concat ess)"

inductive file_tree :: "cbor \<Rightarrow> (key \<Rightarrow> 'e + bytes) \<Rightarrow> nat \<Rightarrow> key \<Rightarrow> bytes \<Rightarrow> bool"
  for C :: cbor and get :: "key \<Rightarrow> 'e + bytes" where
  blob: "Key_Type k = Blob \<Longrightarrow> get k = Inr b \<Longrightarrow> file_tree C get (Suc n) k b"
| fnode: "Key_Type k = FileNode \<Longrightarrow> get k = Inr b \<Longrightarrow> UnmarshalKeys C b = Some ks \<Longrightarrow>
         list_all2 (\<lambda>ck c. canonical ck \<and> file_tree C get n ck c) ks cs \<Longrightarrow>
         file_tree C get (Suc n) k (concat cs)"

definition names_sorted :: "Entry list \<Rightarrow> bool" where
  "names_sorted es \<longleftrightarrow> sorted_wrt (<) (map Ent_Name es)"

definition find_entry :: "bytes \<Rightarrow> Entry list \<Rightarrow> Entry option" where
  "find_entry name es = List.find (\<lambda>e. Ent_Name e = name) es"

definition after_entries :: "bytes \<Rightarrow> Entry list \<Rightarrow> Entry list" where
  "after_entries after es = filter (\<lambda>e. after < Ent_Name e) es"

section \<open>Lemmas: heights and sorted listings\<close>

lemma dir_tree_mono: "dir_tree C get n k es \<Longrightarrow> n \<le> m \<Longrightarrow> dir_tree C get m k es"
proof (induction arbitrary: m rule: dir_tree.induct)
  case (leaf k b es n)
  then show ?case by (cases m) (auto intro: dir_tree.leaf)
next
  case (node k b ps n ess)
  then obtain m' where m: "m = Suc m'" "n \<le> m'" by (cases m) auto
  have "list_all2 (\<lambda>p es. canonical (ChildKey p) \<and> es \<noteq> [] \<and> SepName p = Ent_Name (last es) \<and>
          dir_tree C get m' (ChildKey p) es) ps ess"
    by (rule list_all2_mono [OF node.IH]) (use m(2) in auto)
  then show ?case using node.hyps m(1) by (auto intro: dir_tree.node)
qed

lemma file_tree_mono: "file_tree C get n k c \<Longrightarrow> n \<le> m \<Longrightarrow> file_tree C get m k c"
proof (induction arbitrary: m rule: file_tree.induct)
  case (blob k b n)
  then show ?case by (cases m) (auto intro: file_tree.blob)
next
  case (fnode k b ks n cs)
  then obtain m' where m: "m = Suc m'" "n \<le> m'" by (cases m) auto
  have "list_all2 (\<lambda>ck c. canonical ck \<and> file_tree C get m' ck c) ks cs"
    by (rule list_all2_mono [OF fnode.IH]) (use m(2) in auto)
  then show ?case using fnode.hyps m(1) by (auto intro: file_tree.fnode)
qed

lemma names_sorted_Nil [simp]: "names_sorted []"
  by (simp add: names_sorted_def)

lemma names_sorted_Cons [simp]:
  "names_sorted (e # es) \<longleftrightarrow> (\<forall>e' \<in> set es. Ent_Name e < Ent_Name e') \<and> names_sorted es"
  by (auto simp: names_sorted_def)

lemma names_sorted_append:
  "names_sorted (xs @ ys) \<longleftrightarrow>
     names_sorted xs \<and> names_sorted ys \<and> (\<forall>x \<in> set xs. \<forall>y \<in> set ys. Ent_Name x < Ent_Name y)"
  by (auto simp: names_sorted_def sorted_wrt_append)

lemma names_sorted_last: "names_sorted es \<Longrightarrow> e \<in> set es \<Longrightarrow> Ent_Name e \<le> Ent_Name (last es)"
  by (induction es rule: rev_induct) (auto simp: names_sorted_append)

lemma names_sorted_nth:
  "names_sorted es \<Longrightarrow> i \<le> j \<Longrightarrow> j < length es \<Longrightarrow> Ent_Name (es ! i) \<le> Ent_Name (es ! j)"
  unfolding names_sorted_def by (cases "i = j") (auto simp: sorted_wrt_iff_nth_less less_imp_le)

lemma find_entry_simps [simp]:
  "find_entry name [] = None"
  "find_entry name (e # es) = (if Ent_Name e = name then Some e else find_entry name es)"
  by (simp_all add: find_entry_def)

lemma find_entry_append [simp]:
  "find_entry name (xs @ ys) = (case find_entry name xs of None \<Rightarrow> find_entry name ys | Some e \<Rightarrow> Some e)"
  by (induction xs) auto

lemma find_entry_None: "find_entry name es = None \<longleftrightarrow> (\<forall>e \<in> set es. Ent_Name e \<noteq> name)"
  by (induction es) auto

lemma pair_key_canonical [simp]: "canonical (ChildKey p) \<Longrightarrow> pair_key p = Inr (ChildKey p)"
  by (simp add: pair_key_def Parse_ok [THEN iffD2])

text \<open>The separators of a node whose listing is sorted.\<close>

lemma seps_sorted:
  assumes "list_all2 (\<lambda>p es. es \<noteq> [] \<and> SepName p = Ent_Name (last es)) ps ess"
    and "names_sorted (concat ess)"
  shows "sorted_wrt (<) (map SepName ps)"
  using assms
proof (induction ps ess rule: list_all2_induct)
  case (Cons p ps es ess)
  have "Ent_Name (last es) < SepName q" if q: "q \<in> set ps" for q
  proof -
    obtain es' where "es' \<in> set ess" "es' \<noteq> []" "SepName q = Ent_Name (last es')"
      using Cons.hyps(2) q by (fastforce simp: list_all2_conv_all_nth in_set_conv_nth)
    moreover have "last es \<in> set es" using Cons.hyps(1) by simp
    ultimately show ?thesis using Cons.prems by (fastforce simp: names_sorted_append)
  qed
  then show ?case using Cons by (auto simp: names_sorted_append)
qed simp

lemma sorted_nth_le:
  "sorted_wrt (<) xs \<Longrightarrow> i \<le> j \<Longrightarrow> j < length xs \<Longrightarrow> xs ! i \<le> (xs ! j :: 'a::order)"
  by (cases "i = j") (auto simp: sorted_wrt_iff_nth_less less_imp_le)

lemma search_seps:
  assumes "sorted_wrt (<) (map (f :: 'a \<Rightarrow> bytes) xs)" and "\<And>a b. a \<le> b \<Longrightarrow> P a \<Longrightarrow> P b"
  shows "sort_Search (length xs) (\<lambda>i. P (f (xs ! i))) = length (takeWhile (\<lambda>x. \<not> P (f x)) xs)"
proof (rule sort_Search_takeWhile)
  fix i j assume "i \<le> j" "j < length xs" "P (f (xs ! i))"
  then show "P (f (xs ! j))"
    using sorted_nth_le [OF assms(1), of i j] assms(2) by simp
qed

section \<open>Lemmas: lookup\<close>

lemma leaf_lookup:
  assumes "names_sorted es"
  shows "(let i = sort_Search (length es) (\<lambda>i. bytes_Compare (Ent_Name (es ! i)) name \<ge> 0) in
          if i < length es \<and> Ent_Name (es ! i) = name then Some (es ! i) else None) = find_entry name es"
proof -
  have i: "sort_Search (length es) (\<lambda>i. name \<le> Ent_Name (es ! i)) =
      length (takeWhile (\<lambda>e. \<not> name \<le> Ent_Name e) es)"
    using assms by (intro search_seps) (auto simp: names_sorted_def)
  have "(let i = length (takeWhile (\<lambda>e. \<not> name \<le> Ent_Name e) es) in
          if i < length es \<and> Ent_Name (es ! i) = name then Some (es ! i) else None) = find_entry name es"
    using assms
  proof (induction es)
    case (Cons e es)
    show ?case
    proof (cases "name \<le> Ent_Name e")
      case True
      then have "find_entry name es = None" if "Ent_Name e \<noteq> name"
        using Cons.prems that by (fastforce simp: find_entry_None)
      then show ?thesis using True by auto
    next
      case False
      then have "Ent_Name e \<noteq> name" by auto
      then show ?thesis using False Cons by (simp add: Let_def split: if_split_asm)
    qed
  qed simp
  then show ?thesis by (simp add: i)
qed

text \<open>The one child that can hold a name.\<close>

lemma node_lookup:
  assumes "list_all2 (\<lambda>p es. es \<noteq> [] \<and> SepName p = Ent_Name (last es)) ps ess"
    and "names_sorted (concat ess)"
  shows "let i = length (takeWhile (\<lambda>p. \<not> name \<le> SepName p) ps) in
         find_entry name (concat ess) = (if i = length ps then None else find_entry name (ess ! i)) \<and>
         (i < length ps \<longrightarrow> names_sorted (ess ! i))"
  using assms
proof (induction ps ess rule: list_all2_induct)
  case (Cons p ps es ess)
  have sorted: "names_sorted es" "names_sorted (concat ess)"
    and below: "\<And>x y. x \<in> set es \<Longrightarrow> y \<in> set (concat ess) \<Longrightarrow> Ent_Name x < Ent_Name y"
    using Cons.prems by (auto simp: names_sorted_append)
  have le: "Ent_Name x \<le> SepName p" if "x \<in> set es" for x
    using names_sorted_last [OF sorted(1) that] Cons.hyps(1) by simp
  show ?case
  proof (cases "name \<le> SepName p")
    case True
    have "last es \<in> set es" using Cons.hyps(1) by simp
    then have "\<forall>y \<in> set (concat ess). Ent_Name y \<noteq> name"
      using True below Cons.hyps(1) by fastforce
    then have "find_entry name (concat ess) = None" by (simp add: find_entry_None)
    then show ?thesis using True sorted by (auto split: option.splits)
  next
    case False
    then have "find_entry name es = None" using le by (auto simp: find_entry_None)
    then show ?thesis using False Cons.IH [OF sorted(2)] by (simp add: Let_def)
  qed
qed simp

definition lookup_result :: "bytes \<Rightarrow> Entry list \<Rightarrow> 'e fs_err + Entry" where
  "lookup_result name es = (case find_entry name es of None \<Rightarrow> Inl (ErrNotFound name) | Some e \<Rightarrow> Inr e)"

lemma dir_node_seps:
  assumes "list_all2 (\<lambda>p es. canonical (ChildKey p) \<and> es \<noteq> [] \<and> SepName p = Ent_Name (last es) \<and> Q p es) ps ess"
  shows "list_all2 (\<lambda>p es. es \<noteq> [] \<and> SepName p = Ent_Name (last es)) ps ess"
  using assms by (rule list_all2_mono) auto

lemma LookupEntry_tree:
  assumes "dir_tree C get n k es" and "names_sorted es" and "n \<le> fuel"
  shows "LookupEntry C get fuel k name = Some (lookup_result name es)"
  using assms
proof (induction arbitrary: fuel rule: dir_tree.induct)
  case (leaf k b es n)
  then obtain f where f: "fuel = Suc f" by (cases fuel) auto
  have "Key_Type k = DirLeaf" by fact
  then show ?case
    using leaf leaf_lookup [OF leaf.prems(1), of name]
    by (auto simp: f DecodeDirLeaf_def lookup_result_def Let_def eq_commute [of _ "find_entry name es"]
        split: if_splits option.splits)
next
  case (node k b ps n ess)
  then obtain f where f: "fuel = Suc f" "n \<le> f" by (cases fuel) auto
  note seps = dir_node_seps [OF node.IH]
  define i where "i = length (takeWhile (\<lambda>p. \<not> name \<le> SepName p) ps)"
  have i: "sort_Search (length ps) (\<lambda>i. name \<le> SepName (ps ! i)) = i"
    unfolding i_def using seps_sorted [OF seps node.prems(1)] by (intro search_seps) auto
  have pick: "find_entry name (concat ess) = (if i = length ps then None else find_entry name (ess ! i))"
    "i < length ps \<Longrightarrow> names_sorted (ess ! i)"
    using node_lookup [OF seps node.prems(1), of name] by (auto simp: i_def Let_def)
  have le: "i \<le> length ps" by (simp add: i_def length_takeWhile_le)
  have child: "canonical (ChildKey (ps ! i)) \<and> LookupEntry C get f (ChildKey (ps ! i)) name =
      Some (lookup_result name (ess ! i))" if "i < length ps"
    using list_all2_nthD [OF node.IH that] pick(2) [OF that] f(2) by auto
  show ?case
  proof (cases "i = length ps")
    case True
    then show ?thesis
      using node.hyps(1-3) pick(1)
      by (simp add: f(1) DecodeDirNode_def i lookup_result_def ktype_defs Let_def)
  next
    case False
    then show ?thesis
      using node.hyps(1-3) pick(1) child le
      by (simp add: f(1) DecodeDirNode_def i lookup_result_def ktype_defs Let_def)
  qed
qed

section \<open>Lemmas: paging\<close>

lemma list_leaf_eq:
  "length out \<le> limit \<Longrightarrow>
   list_leaf limit out es = (out @ take (limit - length out) es, limit < length out + length es)"
proof (induction limit out es rule: list_leaf.induct)
  case (2 limit out e es)
  show ?case
  proof (cases "length out = limit")
    case False
    then obtain m where m: "limit - length out = Suc m" using "2.prems" by (cases "limit - length out") auto
    have "limit - Suc (length out) = m" using m by simp
    then show ?thesis using 2 False m by simp
  qed simp
qed simp

lemma after_dropWhile:
  "names_sorted es \<Longrightarrow> dropWhile (\<lambda>e. \<not> after < Ent_Name e) es = after_entries after es"
proof (induction es)
  case (Cons e es)
  show ?case
  proof (cases "after < Ent_Name e")
    case True
    then have "\<forall>e' \<in> set es. after < Ent_Name e'" using Cons.prems by auto
    with True show ?thesis by (simp add: after_entries_def)
  next
    case False
    then show ?thesis using Cons by (simp add: after_entries_def)
  qed
qed (simp add: after_entries_def)

lemma after_entries_append [simp]:
  "after_entries after (xs @ ys) = after_entries after xs @ after_entries after ys"
  by (simp add: after_entries_def)

lemma after_entries_none:
  "names_sorted es \<Longrightarrow> es \<noteq> [] \<Longrightarrow> \<not> after < Ent_Name (last es) \<Longrightarrow> after_entries after es = []"
  using names_sorted_last by (fastforce simp: after_entries_def filter_empty_conv)

text \<open>What a page holds: the listing after a name, cut at the limit, and whether it was cut.\<close>

definition page_of :: "nat \<Rightarrow> Entry list \<Rightarrow> Entry list \<Rightarrow> Entry list \<times> bool" where
  "page_of limit out es = (out @ take (limit - length out) es, limit < length out + length es)"

lemma list_node_pages:
  assumes "list_all2 (\<lambda>p es. canonical (ChildKey p) \<and>
      (\<forall>out. length out \<le> limit \<longrightarrow> rec out (ChildKey p) = Some (Inr (page_of limit out (after_entries after es))))) ps ess"
    and "length out \<le> limit"
  shows "list_node rec out ps = Some (Inr (page_of limit out (after_entries after (concat ess))))"
  using assms
proof (induction ps ess arbitrary: out rule: list_all2_induct)
  case Nil
  then show ?case by (simp add: page_of_def after_entries_def)
next
  case (Cons p ps es ess)
  let ?xs = "after_entries after es"
  have step: "rec out (ChildKey p) = Some (Inr (page_of limit out ?xs))" and key: "canonical (ChildKey p)"
    using Cons.hyps(1) Cons.prems by auto
  show ?case
  proof (cases "limit < length out + length ?xs")
    case True
    then have "limit - length out - length ?xs = 0" by simp
    then show ?thesis using True step key by (simp add: page_of_def)
  next
    case False
    then have "list_node rec (out @ ?xs) ps =
        Some (Inr (page_of limit (out @ ?xs) (after_entries after (concat ess))))"
      by (intro Cons.IH) simp
    then show ?thesis using False step key by (simp add: page_of_def add.assoc)
  qed
qed

lemma listInto_tree:
  assumes "dir_tree C get n k es" and "names_sorted es" and "n \<le> fuel" and "length out \<le> limit"
  shows "listInto C get after limit fuel out k = Some (Inr (page_of limit out (after_entries after es)))"
  using assms
proof (induction arbitrary: fuel out rule: dir_tree.induct)
  case (leaf k b es n)
  then obtain f where f: "fuel = Suc f" by (cases fuel) auto
  have "sort_Search (length es) (\<lambda>i. after < Ent_Name (es ! i)) =
      length (takeWhile (\<lambda>e. \<not> after < Ent_Name e) es)"
    using leaf.prems(1) by (intro search_seps) (auto simp: names_sorted_def)
  then have d: "drop (sort_Search (length es) (\<lambda>i. after < Ent_Name (es ! i))) es = after_entries after es"
    using leaf.prems(1) by (simp add: drop_takeWhile after_dropWhile)
  have dl: "length es - sort_Search (length es) (\<lambda>i. after < Ent_Name (es ! i)) = length (after_entries after es)"
    using arg_cong [OF d, of length] by simp
  show ?case
    using leaf by (simp add: f DecodeDirLeaf_def d dl list_leaf_eq page_of_def)
next
  case (node k b ps n ess)
  then obtain f where f: "fuel = Suc f" "n \<le> f" by (cases fuel) auto
  note seps = dir_node_seps [OF node.IH]
  define m where "m = length (takeWhile (\<lambda>p. \<not> after < SepName p) ps)"
  have m: "sort_Search (length ps) (\<lambda>i. after < SepName (ps ! i)) = m"
    unfolding m_def using seps_sorted [OF seps node.prems(1)] by (intro search_seps) auto
  have sorted: "names_sorted es" if "es \<in> set ess" for es
    using node.prems(1) that by (induction ess) (auto simp: names_sorted_append)
  have len: "length ps = length ess" using node.IH by (rule list_all2_lengthD)
  have "after_entries after es = []" if es: "es \<in> set (take m ess)" for es
  proof -
    obtain i where i: "i < m" "i < length ess" "es = ess ! i"
      using es by (auto simp: in_set_conv_nth)
    then have "\<not> after < SepName (ps ! i)"
      using nth_mem [of i "takeWhile (\<lambda>p. \<not> after < SepName p) ps"] set_takeWhileD takeWhile_nth
      unfolding m_def by metis
    moreover have "es \<noteq> [] \<and> SepName (ps ! i) = Ent_Name (last es)"
      using list_all2_nthD2 [OF seps i(2)] i(3) by simp
    ultimately show ?thesis using after_entries_none [of es after] sorted [of es] i by simp
  qed
  then have skip: "after_entries after (concat (take m ess)) = []"
    by (auto simp: after_entries_def filter_empty_conv)
  have "list_node (listInto C get after limit f) out (drop m ps) =
      Some (Inr (page_of limit out (after_entries after (concat (drop m ess)))))"
  proof (rule list_node_pages [OF _ node.prems(3)])
    have "list_all2 (\<lambda>p es. es \<in> set ess \<and> canonical (ChildKey p) \<and>
        (\<forall>x xa. names_sorted es \<longrightarrow> n \<le> x \<longrightarrow> length xa \<le> limit \<longrightarrow>
          listInto C get after limit x xa (ChildKey p) = Some (Inr (page_of limit xa (after_entries after es))))) ps ess"
      using node.IH by (auto simp: list_all2_conv_all_nth)
    then show "list_all2 (\<lambda>p es. canonical (ChildKey p) \<and>
        (\<forall>out. length out \<le> limit \<longrightarrow> listInto C get after limit f out (ChildKey p) =
           Some (Inr (page_of limit out (after_entries after es))))) (drop m ps) (drop m ess)"
      using sorted f(2) by (intro list_all2_dropI) (auto elim!: list_all2_mono)
  qed
  moreover have "after_entries after (concat ess) = after_entries after (concat (drop m ess))"
    using skip after_entries_append [of after "concat (take m ess)" "concat (drop m ess)"]
    by (metis append_Nil append_take_drop_id concat_append)
  ultimately show ?case
    using node.hyps(1-3) by (simp add: f(1) DecodeDirNode_def m ktype_defs)
qed

section \<open>Lemmas: collecting\<close>

lemma collect_leaf_eq:
  "collect_leaf out es = (if names_sorted (out @ es) then Inr (out @ es) else collect_leaf out es)"
  if "names_sorted out"
  using that
proof (induction es arbitrary: out)
  case (Cons e es)
  show ?case
  proof (cases "names_sorted (out @ e # es)")
    case True
    then have "\<not> (length out > 0 \<and> Ent_Name e \<le> Ent_Name (out ! (length out - 1)))"
      by (cases out rule: rev_cases) (auto simp: names_sorted_append)
    then show ?thesis using True Cons.IH [of "out @ [e]"] by (simp add: names_sorted_append)
  qed simp
qed simp

lemma collect_leaf_sorted:
  "collect_leaf out es = Inr out' \<Longrightarrow> names_sorted out \<Longrightarrow> names_sorted out'"
proof (induction es arbitrary: out)
  case (Cons e es)
  then have "names_sorted (out @ [e])"
    using names_sorted_last [of out]
    by (cases out rule: rev_cases) (fastforce simp: names_sorted_append split: if_splits)+
  then show ?case using Cons by (auto split: if_splits)
qed simp

lemma fold_err_inv:
  assumes "fold_err f s xs = Some (Inr s')" and "P s"
    and "\<And>s x s'. x \<in> set xs \<Longrightarrow> f s x = Some (Inr s') \<Longrightarrow> P s \<Longrightarrow> P s'"
  shows "P s'"
  using assms
proof (induction xs arbitrary: s)
  case (Cons x xs)
  then obtain s1 where s1: "f s x = Some (Inr s1)" "fold_err f s1 xs = Some (Inr s')"
    by (auto split: option.splits sum.splits)
  show ?case by (rule Cons.IH [OF s1(2)]) (use Cons.prems s1 in auto)
qed simp

lemma collectEntries_sorted:
  "collectEntries C get fuel out k = Some (Inr out') \<Longrightarrow> names_sorted out \<Longrightarrow> names_sorted out'"
proof (induction fuel arbitrary: out out' k)
  case (Suc fuel)
  from Suc.prems show ?case
    by (auto split: sum.splits if_splits intro: collect_leaf_sorted elim!: fold_err_inv [where P = names_sorted]
        dest: Suc.IH)
qed simp

lemma fold_collect:
  assumes "list_all2 (\<lambda>p es. canonical (ChildKey p) \<and>
      (\<forall>out. names_sorted (out @ es) \<longrightarrow> rec out (ChildKey p) = Some (Inr (out @ es)))) ps ess"
    and "names_sorted (out @ concat ess)"
  shows "fold_err (\<lambda>out p. case pair_key p of Inl e \<Rightarrow> Some (Inl e) | Inr ck \<Rightarrow> rec out ck) out ps =
     Some (Inr (out @ concat ess))"
  using assms
proof (induction ps ess arbitrary: out rule: list_all2_induct)
  case (Cons p ps es ess)
  have "names_sorted (out @ es)" using Cons.prems by (auto simp: names_sorted_append)
  then have "rec out (ChildKey p) = Some (Inr (out @ es))" using Cons.hyps(1) by blast
  then show ?case using Cons.hyps(1) Cons.IH [of "out @ es"] Cons.prems by simp
qed simp

lemma collectEntries_tree:
  assumes "dir_tree C get n k es" and "names_sorted (out @ es)" and "n \<le> fuel"
  shows "collectEntries C get fuel out k = Some (Inr (out @ es))"
  using assms
proof (induction arbitrary: fuel out rule: dir_tree.induct)
  case (leaf k b es n)
  then obtain f where f: "fuel = Suc f" by (cases fuel) auto
  show ?case
    using leaf collect_leaf_eq [of out es] by (simp add: f DecodeDirLeaf_def names_sorted_append)
next
  case (node k b ps n ess)
  then obtain f where f: "fuel = Suc f" "n \<le> f" by (cases fuel) auto
  have "list_all2 (\<lambda>p es. canonical (ChildKey p) \<and>
      (\<forall>out. names_sorted (out @ es) \<longrightarrow> collectEntries C get f out (ChildKey p) = Some (Inr (out @ es)))) ps ess"
    using node.IH by (rule list_all2_mono) (use f(2) in auto)
  then show ?case
    using fold_collect [of "collectEntries C get f" ps ess out] node.hyps(1-3) node.prems(1)
    by (simp add: f(1) DecodeDirNode_def ktype_defs)
qed

section \<open>Lemmas: file content\<close>

definition append_writer :: "bytes \<Rightarrow> bytes \<Rightarrow> 'e + bytes" where
  "append_writer w b = Inr (w @ b)"

lemma DecodeFileNode_canonical:
  "UnmarshalKeys C b = Some ks \<Longrightarrow> \<forall>k \<in> set ks. canonical k \<Longrightarrow> DecodeFileNode C b = Inr ks"
  using map_err_ok_map [of ks "\<lambda>r. case Parse r of Inl e \<Rightarrow> Inl (ErrChildKey e) | Inr k \<Rightarrow> Inr k" id]
  by (simp add: DecodeFileNode_def Parse_ok [THEN iffD2])

lemma fold_content:
  assumes "list_all2 (\<lambda>k c. \<forall>w. rec w k = Some (Inr (w @ c))) ks cs"
  shows "fold_err rec w ks = Some (Inr (w @ concat cs))"
  using assms by (induction ks cs arbitrary: w rule: list_all2_induct) auto

lemma WriteContent_tree:
  assumes "file_tree C get n k c" and "n \<le> fuel"
  shows "WriteContent C append_writer get fuel w k = Some (Inr (w @ c))"
  using assms
proof (induction arbitrary: fuel w rule: file_tree.induct)
  case (blob k b n)
  then obtain f where f: "fuel = Suc f" by (cases fuel) auto
  then show ?case using blob by (simp add: append_writer_def)
next
  case (fnode k b ks n cs)
  then obtain f where f: "fuel = Suc f" "n \<le> f" by (cases fuel) auto
  have "list_all2 (\<lambda>k c. \<forall>w. WriteContent C append_writer get f w k = Some (Inr (w @ c))) ks cs"
    using fnode.IH by (rule list_all2_mono) (use f(2) in auto)
  then have "fold_err (WriteContent C append_writer get f) w ks = Some (Inr (w @ concat cs))"
    by (rule fold_content)
  moreover have "\<forall>k \<in> set ks. canonical k"
    using fnode.IH by (auto simp: list_all2_conv_all_nth in_set_conv_nth)
  ultimately show ?case
    using fnode.hyps(1-3) by (simp add: f(1) ktype_defs DecodeFileNode_canonical)
qed

end
