(* ===== verification/Amber_Chunkers.thy ===== *)
theory Amber_Chunkers
  imports Amber_Prelude
begin

text \<open>
  Package \<open>chunkers\<close>: the item chunker that decides where a run of index items ends,
  and the driver of the byte chunker. BLAKE3 and the ultracdc chunker are third-party
  packages: the hash is a parameter, and the byte chunker is the list of chunks its
  \<open>Next\<close> calls return, with the error the last one reports. Run bounds are Go
  \<open>int\<close>s, so their 64-bit wrap-around is written out.
\<close>

record ItemChunker =
  MinRun :: int
  MaxRun :: int
  ic_mask :: u64

definition wrap64 :: "int \<Rightarrow> int" where
  "wrap64 i = signed_take_bit 63 i"

definition NewItemChunker :: "nat \<Rightarrow> ItemChunker" where
  "NewItemChunker nbits =
     (let avg = wrap64 (2 ^ nbits)
      in \<lparr>MinRun = max (avg div 4) 2, MaxRun = wrap64 (avg * 4),
          ic_mask = (if nbits > 0 then push_bit nbits 1 - 1 else 0)\<rparr>)"

definition LittleEndian_Uint64 :: "bytes \<Rightarrow> u64" where
  "LittleEndian_Uint64 bs = of_nat (be_val (rev (take 8 bs)))"

definition IsBoundary :: "(bytes \<Rightarrow> bytes) \<Rightarrow> ItemChunker \<Rightarrow> bytes \<Rightarrow> nat \<Rightarrow> bool" where
  "IsBoundary blake3 c enc runLen =
     (if int runLen \<ge> MaxRun c then True
      else if int runLen < MinRun c then False
      else LittleEndian_Uint64 (take 8 (blake3 enc)) AND ic_mask c = 0)"

text \<open>What one \<open>Next\<close> call returns: a chunk and no error, the end of input, or a
  read error; the last two may still carry a final chunk.\<close>

datatype 'e next_result =
    NextChunk bytes
  | NextEOF bytes
  | NextErr bytes 'e

fun SplitBytes :: "'e next_result list \<Rightarrow> ('s \<Rightarrow> bytes \<Rightarrow> 'e + 's) \<Rightarrow> 's \<Rightarrow> ('e + 's) option" where
  "SplitBytes [] fn s = None"
| "SplitBytes (NextChunk chunk # c) fn s =
     (if length chunk > 0
      then (case fn s chunk of Inl ferr \<Rightarrow> Some (Inl ferr) | Inr s' \<Rightarrow> SplitBytes c fn s')
      else SplitBytes c fn s)"
| "SplitBytes (NextEOF chunk # c) fn s =
     (if length chunk > 0
      then (case fn s chunk of Inl ferr \<Rightarrow> Some (Inl ferr) | Inr s' \<Rightarrow> Some (Inr s'))
      else Some (Inr s))"
| "SplitBytes (NextErr chunk err # c) fn s =
     (if length chunk > 0
      then (case fn s chunk of Inl ferr \<Rightarrow> Some (Inl ferr) | Inr s' \<Rightarrow> Some (Inl err))
      else Some (Inl err))"

section \<open>Lemmas\<close>

lemma IsBoundary_min:
  "IsBoundary H c enc n \<Longrightarrow> 2 \<le> MinRun c \<Longrightarrow> 2 \<le> MaxRun c \<Longrightarrow> 2 \<le> n"
  by (auto simp: IsBoundary_def split: if_splits)

lemma IsBoundary_max: "int n \<ge> MaxRun c \<Longrightarrow> IsBoundary H c enc n"
  by (simp add: IsBoundary_def)

lemma wrap64_id: "- (2 ^ 63) \<le> i \<Longrightarrow> i < 2 ^ 63 \<Longrightarrow> wrap64 i = i"
  by (simp add: wrap64_def signed_take_bit_int_eq_self)

text \<open>For every bit count whose bounds fit an \<open>int\<close>, runs have at least two items.\<close>

lemma NewItemChunker_bounds:
  assumes "nbits < 61"
  shows "MinRun (NewItemChunker nbits) = max (2 ^ nbits div 4) 2" "MaxRun (NewItemChunker nbits) = 2 ^ nbits * 4"
    "2 \<le> MinRun (NewItemChunker nbits)" "2 \<le> MaxRun (NewItemChunker nbits)"
proof -
  have "(2::int) ^ nbits \<le> 2 ^ 60" using assms by (intro power_increasing) auto
  then have w: "wrap64 (2 ^ nbits) = 2 ^ nbits" "wrap64 (2 ^ nbits * 4) = 2 ^ nbits * 4"
    by (intro wrap64_id; simp add: order.trans [of _ 0])+
  show "MinRun (NewItemChunker nbits) = max (2 ^ nbits div 4) 2" "MaxRun (NewItemChunker nbits) = 2 ^ nbits * 4"
    by (simp_all add: NewItemChunker_def Let_def w)
  have "(1::int) \<le> 2 ^ nbits" by simp
  then have "(2::int) \<le> 2 ^ nbits * 4" by linarith
  then show "2 \<le> MinRun (NewItemChunker nbits)" "2 \<le> MaxRun (NewItemChunker nbits)"
    unfolding NewItemChunker_def Let_def w by simp_all
qed

lemma SplitBytes_chunks:
  "SplitBytes (map NextChunk cs @ [NextEOF []]) (\<lambda>s c. Inr (s @ [c])) s = Some (Inr (s @ filter (\<lambda>c. c \<noteq> []) cs))"
  by (induction cs arbitrary: s) auto

end
