(* ===== verification/Amber_Build.thy ===== *)
theory Amber_Build
  imports Amber_Tree Amber_Chunkers
begin

text \<open>
  The streaming builders of package \<open>fstree\<close> (index_builder.go, dir_builder.go): the index
  builder keeps one open run per level and closes a run into a node that is added one
  level up; the directory builder puts runs of entries below it. An \<open>Emit\<close> is a function
  on the sink's state. \<open>add\<close> and the loop of \<open>Finish\<close> take fuel, because with run bounds
  below two the code would not stop; the lemmas give the fuel that is enough.

  The locale \<open>index_tree\<close> is the contract of a node encoder; the builder is proved correct
  once in it and interpreted for directory indexes and for file indexes.
\<close>

section \<open>Index builder\<close>

record idxLevel =
  lv_keys :: "key list"
  lv_seps :: "bytes list"
  lv_runLen :: nat

record IndexBuilder =
  ib_ic :: ItemChunker
  ib_isDir :: bool
  ib_levels :: "idxLevel list"

definition NewFileIndexBuilder :: "ItemChunker \<Rightarrow> IndexBuilder" where
  "NewFileIndexBuilder ic = \<lparr>ib_ic = ic, ib_isDir = False, ib_levels = []\<rparr>"

definition newDirIndexBuilder :: "ItemChunker \<Rightarrow> IndexBuilder" where
  "newDirIndexBuilder ic = \<lparr>ib_ic = ic, ib_isDir = True, ib_levels = []\<rparr>"

definition emptyLevel :: idxLevel where
  "emptyLevel = \<lparr>lv_keys = [], lv_seps = [], lv_runLen = 0\<rparr>"

definition ib_ensure :: "IndexBuilder \<Rightarrow> nat \<Rightarrow> IndexBuilder" where
  "ib_ensure ib l = ib\<lparr>ib_levels := ib_levels ib @ replicate (l + 1 - length (ib_levels ib)) emptyLevel\<rparr>"

definition hasAny :: "IndexBuilder \<Rightarrow> bool" where
  "hasAny ib \<longleftrightarrow> length (ib_levels ib) > 0"

definition itemEnc :: "cbor \<Rightarrow> IndexBuilder \<Rightarrow> key \<Rightarrow> bytes \<Rightarrow> 'e fs_err + bytes" where
  "itemEnc C ib ck sep =
     (if \<not> ib_isDir ib then Inr ck
      else case MarshalPair C \<lparr>SepName = sep, ChildKey = ck\<rparr> of
             None \<Rightarrow> Inl ErrMarshal | Some enc \<Rightarrow> Inr enc)"

definition ib_reset :: "IndexBuilder \<Rightarrow> nat \<Rightarrow> IndexBuilder" where
  "ib_reset ib l = ib\<lparr>ib_levels := (ib_levels ib)[l := emptyLevel]\<rparr>"

definition buildNode :: "cbor \<Rightarrow> (bytes \<Rightarrow> bytes) \<Rightarrow> bool \<Rightarrow> idxLevel \<Rightarrow> 'e fs_err + object \<times> bytes" where
  "buildNode C H isDir L =
     (if isDir then
        let pairs = map (\<lambda>i. \<lparr>SepName = lv_seps L ! i, ChildKey = lv_keys L ! i\<rparr>) [0..<length (lv_keys L)]
        in case EncodeDirNode C H pairs of
             Inl e \<Rightarrow> Inl e
           | Inr obj \<Rightarrow> Inr (obj, lv_seps L ! (length (lv_seps L) - 1))
      else case EncodeFileNode C H (lv_keys L) of Inl e \<Rightarrow> Inl e | Inr obj \<Rightarrow> Inr (obj, []))"

type_synonym ('e, 's) emit = "'s \<Rightarrow> object \<Rightarrow> 'e + 's"
type_synonym ('e, 's, 'r) built = "('e fs_err + 'r \<times> 's) option"

text \<open>Closing a level; the call back into \<open>add\<close> one level up is a parameter.\<close>

definition closeLevel :: "cbor \<Rightarrow> (bytes \<Rightarrow> bytes) \<Rightarrow> ('e, 's) emit \<Rightarrow>
    (IndexBuilder \<Rightarrow> nat \<Rightarrow> key \<Rightarrow> bytes \<Rightarrow> 's \<Rightarrow> ('e, 's, IndexBuilder) built) \<Rightarrow>
    IndexBuilder \<Rightarrow> nat \<Rightarrow> 's \<Rightarrow> ('e, 's, IndexBuilder) built" where
  "closeLevel C H emit add ib l s =
     (case buildNode C H (ib_isDir ib) (ib_levels ib ! l) of
        Inl e \<Rightarrow> Some (Inl e)
      | Inr (obj, sep) \<Rightarrow>
          let ib1 = ib_reset ib l in
          (case emit s obj of
             Inl e \<Rightarrow> Some (Inl (ErrEmit e))
           | Inr s1 \<Rightarrow> add ib1 (l + 1) (Obj_Key obj) sep s1))"

primrec ib_add :: "cbor \<Rightarrow> (bytes \<Rightarrow> bytes) \<Rightarrow> ('e, 's) emit \<Rightarrow> nat \<Rightarrow>
    IndexBuilder \<Rightarrow> nat \<Rightarrow> key \<Rightarrow> bytes \<Rightarrow> 's \<Rightarrow> ('e, 's, IndexBuilder) built" where
  "ib_add C H emit 0 ib l ck sep s = None"
| "ib_add C H emit (Suc fuel) ib l ck sep s =
     (let ib0 = ib_ensure ib l;
          L = ib_levels ib0 ! l;
          L1 = \<lparr>lv_keys = lv_keys L @ [ck],
                lv_seps = (if ib_isDir ib then lv_seps L @ [sep] else lv_seps L),
                lv_runLen = lv_runLen L + 1\<rparr>;
          ib1 = ib0\<lparr>ib_levels := (ib_levels ib0)[l := L1]\<rparr>
      in case itemEnc C ib ck sep of
           Inl e \<Rightarrow> Some (Inl e)
         | Inr enc \<Rightarrow>
             if IsBoundary H (ib_ic ib) enc (lv_runLen L1)
             then closeLevel C H emit (ib_add C H emit fuel) ib1 l s
             else Some (Inr (ib1, s)))"

definition AddChild :: "cbor \<Rightarrow> (bytes \<Rightarrow> bytes) \<Rightarrow> ('e, 's) emit \<Rightarrow> nat \<Rightarrow>
    IndexBuilder \<Rightarrow> key \<Rightarrow> bytes \<Rightarrow> 's \<Rightarrow> ('e, 's, IndexBuilder) built" where
  "AddChild C H emit fuel ib childKey sep s = ib_add C H emit fuel ib 0 childKey sep s"

primrec ib_finish :: "cbor \<Rightarrow> (bytes \<Rightarrow> bytes) \<Rightarrow> ('e, 's) emit \<Rightarrow> nat \<Rightarrow> nat \<Rightarrow>
    IndexBuilder \<Rightarrow> nat \<Rightarrow> 's \<Rightarrow> ('e, 's, key) built" where
  "ib_finish C H emit afuel 0 ib l s = None"
| "ib_finish C H emit afuel (Suc fuel) ib l s =
     (if l < length (ib_levels ib) then
        let L = ib_levels ib ! l; isTop = (l = length (ib_levels ib) - 1) in
        if lv_runLen L = 0 then ib_finish C H emit afuel fuel ib (l + 1) s
        else if lv_runLen L = 1 then
          let ck = lv_keys L ! 0;
              sep = (if ib_isDir ib then lv_seps L ! 0 else []);
              ib1 = ib_reset ib l
          in if isTop then Some (Inr (ck, s))
             else (case ib_add C H emit afuel ib1 (l + 1) ck sep s of
                     None \<Rightarrow> None
                   | Some (Inl e) \<Rightarrow> Some (Inl e)
                   | Some (Inr (ib2, s2)) \<Rightarrow> ib_finish C H emit afuel fuel ib2 (l + 1) s2)
        else
          (case buildNode C H (ib_isDir ib) L of
             Inl e \<Rightarrow> Some (Inl e)
           | Inr (obj, sep) \<Rightarrow>
               let ib1 = ib_reset ib l in
               (case emit s obj of
                  Inl e \<Rightarrow> Some (Inl (ErrEmit e))
                | Inr s1 \<Rightarrow>
                    (case ib_add C H emit afuel ib1 (l + 1) (Obj_Key obj) sep s1 of
                       None \<Rightarrow> None
                     | Some (Inl e) \<Rightarrow> Some (Inl e)
                     | Some (Inr (ib2, s2)) \<Rightarrow> ib_finish C H emit afuel fuel ib2 (l + 1) s2)))
      else Some (Inl ErrNoChildren))"

definition Index_Finish :: "cbor \<Rightarrow> (bytes \<Rightarrow> bytes) \<Rightarrow> ('e, 's) emit \<Rightarrow> nat \<Rightarrow>
    IndexBuilder \<Rightarrow> 's \<Rightarrow> ('e, 's, key) built" where
  "Index_Finish C H emit fuel ib s = ib_finish C H emit fuel fuel ib 0 s"

section \<open>Directory builder\<close>

record DirBuilder =
  db_ic :: ItemChunker
  db_idx :: IndexBuilder
  db_leaf :: "Entry list"
  db_leafMax :: bytes
  db_runLen :: nat

definition NewDirBuilder :: "ItemChunker \<Rightarrow> DirBuilder" where
  "NewDirBuilder ic =
     \<lparr>db_ic = ic, db_idx = newDirIndexBuilder ic, db_leaf = [], db_leafMax = [], db_runLen = 0\<rparr>"

definition closeLeaf :: "cbor \<Rightarrow> (bytes \<Rightarrow> bytes) \<Rightarrow> ('e, 's) emit \<Rightarrow> nat \<Rightarrow>
    DirBuilder \<Rightarrow> 's \<Rightarrow> ('e, 's, DirBuilder) built" where
  "closeLeaf C H emit fuel db s =
     (case EncodeDirLeaf C H (db_leaf db) of
        Inl e \<Rightarrow> Some (Inl e)
      | Inr obj \<Rightarrow>
          let sep = db_leafMax db;
              db1 = db\<lparr>db_leaf := [], db_leafMax := [], db_runLen := 0\<rparr>
          in case emit s obj of
               Inl e \<Rightarrow> Some (Inl (ErrEmit e))
             | Inr s1 \<Rightarrow>
                 (case AddChild C H emit fuel (db_idx db1) (Obj_Key obj) sep s1 of
                    None \<Rightarrow> None
                  | Some (Inl e) \<Rightarrow> Some (Inl e)
                  | Some (Inr (ib, s2)) \<Rightarrow> Some (Inr (db1\<lparr>db_idx := ib\<rparr>, s2))))"

definition AddEntry :: "cbor \<Rightarrow> (bytes \<Rightarrow> bytes) \<Rightarrow> ('e, 's) emit \<Rightarrow> nat \<Rightarrow>
    DirBuilder \<Rightarrow> Entry \<Rightarrow> 's \<Rightarrow> ('e, 's, DirBuilder) built" where
  "AddEntry C H emit fuel db e s =
     (case MarshalEntry C e of
        None \<Rightarrow> Some (Inl ErrMarshal)
      | Some enc \<Rightarrow>
          let db1 = db\<lparr>db_leaf := db_leaf db @ [e], db_leafMax := Ent_Name e, db_runLen := db_runLen db + 1\<rparr>
          in if IsBoundary H (db_ic db) enc (db_runLen db1) then closeLeaf C H emit fuel db1 s
             else Some (Inr (db1, s)))"

definition Dir_Finish :: "cbor \<Rightarrow> (bytes \<Rightarrow> bytes) \<Rightarrow> ('e, 's) emit \<Rightarrow> nat \<Rightarrow>
    DirBuilder \<Rightarrow> 's \<Rightarrow> ('e, 's, key) built" where
  "Dir_Finish C H emit fuel db s =
     (if db_runLen db > 0 \<or> \<not> hasAny (db_idx db)
      then (case closeLeaf C H emit fuel db s of
              None \<Rightarrow> None
            | Some (Inl e) \<Rightarrow> Some (Inl e)
            | Some (Inr (db1, s1)) \<Rightarrow> Index_Finish C H emit fuel (db_idx db1) s1)
      else Index_Finish C H emit fuel (db_idx db) s)"

section \<open>What the builders rely on\<close>

text \<open>The decoder's default limit on array elements (fxamacker/cbor, \<open>MaxArrayElements\<close>).\<close>

definition MaxArrayElements :: nat where "MaxArrayElements = 131072"

text \<open>Entries the ingest writes: keys are canonical and inline attributes are an encoded
  attribute map.\<close>

definition wf_entry :: "Entry \<Rightarrow> bool" where
  "wf_entry e \<longleftrightarrow>
     (length (Ent_ContentKey e) = Size \<longrightarrow> canonical (Ent_ContentKey e)) \<and>
     (length (Ent_XattrsKey e) = Size \<longrightarrow> canonical (Ent_XattrsKey e)) \<and>
     (Ent_XattrsIn e = [] \<or> (\<exists>m. Ent_XattrsIn e = EncodeXattrs m))"

text \<open>Marshalling these types succeeds, and decoding an array within the limit gives it back.\<close>

definition cbor_ok :: "cbor \<Rightarrow> bool" where
  "cbor_ok C \<longleftrightarrow>
     (\<forall>ks. length ks \<le> MaxArrayElements \<longrightarrow>
        (\<exists>b. MarshalKeys C ks = Some b \<and> UnmarshalKeys C b = Some ks)) \<and>
     (\<forall>es. length es \<le> MaxArrayElements \<and> (\<forall>e \<in> set es. wf_entry e) \<longrightarrow>
        (\<exists>b. MarshalEntries C es = Some b \<and> UnmarshalEntries C b = Some es)) \<and>
     (\<forall>ps. length ps \<le> MaxArrayElements \<longrightarrow>
        (\<exists>b. MarshalPairs C ps = Some b \<and> UnmarshalPairs C b = Some ps)) \<and>
     (\<forall>e. wf_entry e \<longrightarrow> MarshalEntry C e \<noteq> None) \<and> (\<forall>p. MarshalPair C p \<noteq> None)"

text \<open>The digest has 32 bytes.\<close>

definition digest_ok :: "(bytes \<Rightarrow> bytes) \<Rightarrow> bool" where
  "digest_ok H \<longleftrightarrow> (\<forall>b. length (H b) = 32)"

definition chunker_ok :: "ItemChunker \<Rightarrow> bool" where
  "chunker_ok ic \<longleftrightarrow> 2 \<le> MinRun ic \<and> 2 \<le> MaxRun ic \<and> MaxRun ic \<le> int MaxArrayElements"

text \<open>A sink that keeps what it is given, and a store that holds objects.\<close>

definition collect_emit :: "('e, object list) emit" where
  "collect_emit s obj = Inr (s @ [obj])"

definition holds :: "(key \<Rightarrow> 'e + bytes) \<Rightarrow> object list \<Rightarrow> bool" where
  "holds get objs \<longleftrightarrow> (\<forall>obj \<in> set objs. get (Obj_Key obj) = Inr (Obj_Bytes obj))"

section \<open>The contract of a node encoder\<close>

definition level_items :: "bool \<Rightarrow> idxLevel \<Rightarrow> (key \<times> bytes) list" where
  "level_items isDir L = (if isDir then zip (lv_keys L) (lv_seps L) else map (\<lambda>k. (k, [])) (lv_keys L))"

definition level_wf :: "bool \<Rightarrow> idxLevel \<Rightarrow> bool" where
  "level_wf isDir L \<longleftrightarrow> lv_runLen L = length (lv_keys L) \<and>
     lv_seps L = (if isDir then lv_seps L else []) \<and> (isDir \<longrightarrow> length (lv_seps L) = length (lv_keys L))"

definition pending :: "IndexBuilder \<Rightarrow> nat" where
  "pending ib = sum_list (map lv_runLen (ib_levels ib))"

lemma level_items_length: "level_wf isDir L \<Longrightarrow> length (level_items isDir L) = lv_runLen L"
  by (auto simp: level_wf_def level_items_def)

lemma emptyLevel_simps [simp]:
  "lv_keys emptyLevel = []" "lv_seps emptyLevel = []" "lv_runLen emptyLevel = 0"
  "level_wf isDir emptyLevel" "level_items isDir emptyLevel = []"
  by (auto simp: emptyLevel_def level_wf_def level_items_def)

lemma collect_emit_eq: "collect_emit S obj = Inr (S @ [obj])"
  by (simp add: collect_emit_def)

lemma holds_append [simp]: "holds get (S @ T) \<longleftrightarrow> holds get S \<and> holds get T"
  by (auto simp: holds_def)

lemma holds_mono: "holds get S' \<Longrightarrow> set S \<subseteq> set S' \<Longrightarrow> holds get S"
  by (auto simp: holds_def)

locale index_tree =
  fixes C :: cbor and H :: "bytes \<Rightarrow> bytes" and isDir :: bool
    and good :: "key \<Rightarrow> bytes \<Rightarrow> 'a list \<Rightarrow> bool"
    and den :: "(key \<Rightarrow> 'e + bytes) \<Rightarrow> nat \<Rightarrow> key \<Rightarrow> 'a list \<Rightarrow> bool"
  assumes den_mono: "den get n k c \<Longrightarrow> n \<le> m \<Longrightarrow> den get m k c"
    and item_ok: "good ck sep c \<Longrightarrow> ib_isDir ib = isDir \<Longrightarrow> \<exists>enc. itemEnc C ib ck sep = (Inr enc :: 'e fs_err + bytes)"
    and node_ok: "level_wf isDir L \<Longrightarrow> lv_keys L \<noteq> [] \<Longrightarrow> length (lv_keys L) \<le> MaxArrayElements \<Longrightarrow>
      list_all2 (\<lambda>(k, sep) c. good k sep c) (level_items isDir L) cs \<Longrightarrow>
      \<exists>obj sep. buildNode C H isDir L = (Inr (obj, sep) :: 'e fs_err + object \<times> bytes) \<and>
        good (Obj_Key obj) sep (concat cs) \<and>
        (\<forall>get n. get (Obj_Key obj) = Inr (Obj_Bytes obj) \<longrightarrow>
           list_all2 (\<lambda>(k, sep) c. den get n k c) (level_items isDir L) cs \<longrightarrow>
           den get (Suc n) (Obj_Key obj) (concat cs))"
begin

text \<open>A child that is already emitted: it denotes its content in every store that holds
  the objects emitted so far.\<close>

definition child :: "object list \<Rightarrow> key \<Rightarrow> bytes \<Rightarrow> 'a list \<Rightarrow> bool" where
  "child S k sep c \<longleftrightarrow> good k sep c \<and> (\<exists>n. \<forall>get. holds get S \<longrightarrow> den get n k c)"

definition level_inv :: "ItemChunker \<Rightarrow> object list \<Rightarrow> idxLevel \<Rightarrow> 'a list list \<Rightarrow> bool" where
  "level_inv ic S L cs \<longleftrightarrow> level_wf isDir L \<and> int (lv_runLen L) < MaxRun ic \<and>
     list_all2 (\<lambda>(k, sep) c. child S k sep c) (level_items isDir L) cs"

definition inv :: "IndexBuilder \<Rightarrow> object list \<Rightarrow> 'a list list list \<Rightarrow> bool" where
  "inv ib S css \<longleftrightarrow> ib_isDir ib = isDir \<and> chunker_ok (ib_ic ib) \<and>
     list_all2 (level_inv (ib_ic ib) S) (ib_levels ib) css"

definition content :: "'a list list list \<Rightarrow> 'a list" where
  "content css = concat (map concat (rev css))"

definition empty_below :: "IndexBuilder \<Rightarrow> nat \<Rightarrow> bool" where
  "empty_below ib l \<longleftrightarrow> (\<forall>j < l. j < length (ib_levels ib) \<longrightarrow> lv_runLen (ib_levels ib ! j) = 0)"

lemma child_mono: "child S k sep c \<Longrightarrow> set S \<subseteq> set S' \<Longrightarrow> child S' k sep c"
  unfolding child_def by (meson holds_mono)

lemma level_inv_mono: "level_inv ic S L cs \<Longrightarrow> set S \<subseteq> set S' \<Longrightarrow> level_inv ic S' L cs"
  unfolding level_inv_def by (auto elim!: list_all2_mono intro: child_mono)

lemma level_inv_empty [simp]: "chunker_ok ic \<Longrightarrow> level_inv ic S emptyLevel cs \<longleftrightarrow> cs = []"
  by (auto simp: level_inv_def chunker_ok_def)

lemma level_inv_zero: "level_inv ic S L cs \<Longrightarrow> lv_runLen L = 0 \<longleftrightarrow> cs = []"
  by (auto simp: level_inv_def dest!: list_all2_lengthD level_items_length)

lemma children_height:
  assumes "list_all2 (\<lambda>(k, sep) c. child S k sep c) items cs"
  shows "\<exists>n. list_all2 (\<lambda>(k, sep) c. \<forall>get. holds get S \<longrightarrow> den get n k c) items cs"
  using assms
proof (induction items cs rule: list_all2_induct)
  case (Cons x xs c cs)
  obtain n where n: "list_all2 (\<lambda>(k, sep) c. \<forall>get. holds get S \<longrightarrow> den get n k c) xs cs"
    using Cons.IH by blast
  obtain k sep where x: "x = (k, sep)" by (cases x)
  obtain m where m: "\<And>get. holds get S \<Longrightarrow> den get m k c"
    using Cons.hyps(1) by (auto simp: x child_def)
  have "list_all2 (\<lambda>(k, sep) c. \<forall>get. holds get S \<longrightarrow> den get (max m n) k c) xs cs"
    using n by (rule list_all2_mono) (auto intro: den_mono)
  moreover have "den get (max m n) k c" if "holds get S" for get
    using den_mono [OF m [OF that], of "max m n"] by simp
  ultimately show ?case by (intro exI [of _ "max m n"]) (auto simp: x)
qed simp

lemma node_child:
  assumes "level_wf isDir L" and "lv_keys L \<noteq> []" and "length (lv_keys L) \<le> MaxArrayElements"
    and "list_all2 (\<lambda>(k, sep) c. child S k sep c) (level_items isDir L) cs"
  shows "\<exists>obj sep. buildNode C H isDir L = (Inr (obj, sep) :: 'e fs_err + object \<times> bytes) \<and>
     child (S @ [obj]) (Obj_Key obj) sep (concat cs)"
proof -
  have "list_all2 (\<lambda>(k, sep) c. good k sep c) (level_items isDir L) cs"
    using assms(4) by (rule list_all2_mono) (auto simp: child_def)
  from node_ok [OF assms(1-3) this] obtain obj sep where
    b: "buildNode C H isDir L = (Inr (obj, sep) :: 'e fs_err + object \<times> bytes)"
    and g: "good (Obj_Key obj) sep (concat cs)"
    and d: "\<And>get n. get (Obj_Key obj) = Inr (Obj_Bytes obj) \<Longrightarrow>
        list_all2 (\<lambda>(k, sep) c. den get n k c) (level_items isDir L) cs \<Longrightarrow>
        den get (Suc n) (Obj_Key obj) (concat cs)" by blast
  obtain n where n: "list_all2 (\<lambda>(k, sep) c. \<forall>get. holds get S \<longrightarrow> den get n k c) (level_items isDir L) cs"
    using children_height [OF assms(4)] by blast
  have "den get (Suc n) (Obj_Key obj) (concat cs)" if h: "holds get (S @ [obj])" for get
  proof (rule d)
    show "get (Obj_Key obj) = Inr (Obj_Bytes obj)" using h by (simp add: holds_def)
    show "list_all2 (\<lambda>(k, sep) c. den get n k c) (level_items isDir L) cs"
      using n by (rule list_all2_mono) (use h in auto)
  qed
  then show ?thesis using b g by (auto simp: child_def)
qed

end

section \<open>Adding a child\<close>

lemma pending_update:
  "l < length (ib_levels ib) \<Longrightarrow>
   pending (ib\<lparr>ib_levels := (ib_levels ib)[l := L]\<rparr>) + lv_runLen (ib_levels ib ! l) = pending ib + lv_runLen L"
proof -
  assume "l < length (ib_levels ib)"
  moreover from this have "lv_runLen (ib_levels ib ! l) \<le> sum_list (map lv_runLen (ib_levels ib))"
    by (intro member_le_sum_list) auto
  ultimately show ?thesis by (simp add: pending_def map_update sum_list_update)
qed

lemma last_update: "xs \<noteq> [] \<Longrightarrow> last (xs[i := x]) = (if i = length xs - 1 then x else last xs)"
  by (auto simp: last_conv_nth nth_list_update)

context index_tree
begin

lemma content_split:
  assumes "l < length css" and "\<And>j. j < l \<Longrightarrow> css ! j = []"
  shows "content css = content (drop (Suc l) css) @ concat (css ! l)"
proof -
  have "content (take l css) = []"
    using assms by (auto simp: content_def in_set_conv_nth)
  moreover have "content (take l css @ css ! l # drop (Suc l) css) =
      content (drop (Suc l) css) @ concat (css ! l) @ content (take l css)"
    by (simp add: content_def)
  ultimately show ?thesis using arg_cong [OF id_take_nth_drop [OF assms(1)], of content] by simp
qed

lemma content_update:
  assumes "l < length css" and "\<And>j. j < l \<Longrightarrow> css ! j = []"
  shows "content (css[l := x]) = content (drop (Suc l) css) @ concat x"
  using content_split [of l "css[l := x]"] assms by simp

lemma inv_nth: "inv ib S css \<Longrightarrow> l < length (ib_levels ib) \<Longrightarrow> level_inv (ib_ic ib) S (ib_levels ib ! l) (css ! l)"
  unfolding inv_def by (auto dest: list_all2_nthD)

lemma inv_length: "inv ib S css \<Longrightarrow> length css = length (ib_levels ib)"
  by (auto simp: inv_def dest: list_all2_lengthD)

lemma inv_update:
  assumes "inv ib S css" and "level_inv (ib_ic ib) S' L cs" and "set S \<subseteq> set S'"
  shows "inv (ib\<lparr>ib_levels := (ib_levels ib)[l := L]\<rparr>) S' (css[l := cs])"
proof -
  have "list_all2 (level_inv (ib_ic ib) S') (ib_levels ib) css"
    using assms(1) level_inv_mono [OF _ assms(3)] by (auto simp only: inv_def elim!: list_all2_mono)
  then show ?thesis using assms by (auto simp: inv_def intro: list_all2_update_cong)
qed

lemma inv_empty_below: "inv ib S css \<Longrightarrow> empty_below ib l \<Longrightarrow> j < l \<Longrightarrow> j < length css \<Longrightarrow> css ! j = []"
  using inv_nth [of ib S css j] inv_length [of ib S css] level_inv_zero by (auto simp: empty_below_def)

lemma inv_ensure:
  assumes "inv ib S css" and "l \<le> length (ib_levels ib)" and "empty_below ib l"
  shows "inv (ib_ensure ib l) S (css @ replicate (l + 1 - length (ib_levels ib)) [])"
    and "content (css @ replicate (l + 1 - length (ib_levels ib)) []) = content css"
    and "empty_below (ib_ensure ib l) l" and "pending (ib_ensure ib l) = pending ib"
proof -
  have "chunker_ok (ib_ic ib)" using assms(1) by (simp add: inv_def)
  then have "list_all2 (level_inv (ib_ic ib) S) (replicate n emptyLevel) (replicate n [])" for n
    by (simp add: list_all2_conv_all_nth)
  then show "inv (ib_ensure ib l) S (css @ replicate (l + 1 - length (ib_levels ib)) [])"
    using assms(1) by (simp add: inv_def ib_ensure_def list_all2_appendI)
  show "content (css @ replicate (l + 1 - length (ib_levels ib)) []) = content css"
    by (simp add: content_def)
  show "empty_below (ib_ensure ib l) l" using assms(2,3) by (auto simp: empty_below_def ib_ensure_def nth_append)
  show "pending (ib_ensure ib l) = pending ib" by (simp add: pending_def ib_ensure_def sum_list_replicate)
qed

text \<open>One more item at the end of a run.\<close>

lemma level_inv_append:
  assumes "level_inv ic S L cs" and "child S ck sep c" and "isDir \<or> sep = []"
  defines "L1 \<equiv> \<lparr>lv_keys = lv_keys L @ [ck],
     lv_seps = (if isDir then lv_seps L @ [sep] else lv_seps L), lv_runLen = lv_runLen L + 1\<rparr>"
  shows "level_wf isDir L1" and "list_all2 (\<lambda>(k, sep) c. child S k sep c) (level_items isDir L1) (cs @ [c])"
proof -
  have wf: "level_wf isDir L" and items: "list_all2 (\<lambda>(k, sep) c. child S k sep c) (level_items isDir L) cs"
    using assms(1) by (auto simp: level_inv_def)
  show "level_wf isDir L1" using wf by (auto simp: level_wf_def L1_def)
  have "level_items isDir L1 = level_items isDir L @ [(ck, sep)]"
    using wf assms(3) by (auto simp: level_items_def L1_def level_wf_def)
  then show "list_all2 (\<lambda>(k, sep) c. child S k sep c) (level_items isDir L1) (cs @ [c])"
    using items assms(2) by (auto intro: list_all2_appendI)
qed

definition top_ok :: "IndexBuilder \<Rightarrow> nat \<Rightarrow> bool" where
  "top_ok ib l \<longleftrightarrow> length (ib_levels ib) \<le> l + 1 \<or> lv_runLen (last (ib_levels ib)) > 0"

text \<open>What an \<open>add\<close> at level \<open>l\<close> achieves: the child's content goes to the end, and levels
  and pending items grow by at most the bounds that \<open>Finish\<close> needs.\<close>

definition added :: "IndexBuilder \<Rightarrow> nat \<Rightarrow> 'a list list list \<Rightarrow> 'a list \<Rightarrow> object list \<Rightarrow>
    IndexBuilder \<Rightarrow> object list \<Rightarrow> 'a list list list \<Rightarrow> bool" where
  "added ib l css c S ib' S' css' \<longleftrightarrow>
     inv ib' S' css' \<and> empty_below ib' l \<and> content css' = content css @ c \<and> set S \<subseteq> set S' \<and>
     l < length (ib_levels ib') \<and> lv_runLen (last (ib_levels ib')) > 0 \<and> ib_ic ib' = ib_ic ib \<and>
     pending ib' \<le> pending ib + 1 \<and>
     length (ib_levels ib') + pending ib' \<le> max (length (ib_levels ib)) (l + 1) + pending ib + 1"

lemma add_ok:
  assumes "inv ib S css" and "empty_below ib l" and "l \<le> length (ib_levels ib)" and "top_ok ib l"
    and "child S ck sep c" and "isDir \<or> sep = []" and "length (ib_levels ib) + 2 \<le> fuel + l"
  shows "\<exists>ib' S' css'. ib_add C H (collect_emit :: ('e, object list) emit) fuel ib l ck sep S = Some (Inr (ib', S')) \<and>
     added ib l css c S ib' S' css'"
  using assms
proof (induction fuel arbitrary: ib S css l ck sep c)
  case 0
  then show ?case by simp
next
  case (Suc fuel)
  define ib0 where "ib0 = ib_ensure ib l"
  define css0 where "css0 = css @ replicate (l + 1 - length (ib_levels ib)) []"
  define L where "L = ib_levels ib0 ! l"
  define L1 where "L1 = \<lparr>lv_keys = lv_keys L @ [ck],
     lv_seps = (if isDir then lv_seps L @ [sep] else lv_seps L), lv_runLen = lv_runLen L + 1\<rparr>"
  define ib1 where "ib1 = ib0\<lparr>ib_levels := (ib_levels ib0)[l := L1]\<rparr>"
  have ic: "chunker_ok (ib_ic ib)" and dir: "ib_isDir ib = isDir" using Suc.prems(1) by (auto simp: inv_def)
  have same: "ib_ic ib0 = ib_ic ib" "ib_isDir ib0 = isDir" using dir by (simp_all add: ib0_def ib_ensure_def)
  have len0: "length (ib_levels ib0) = max (length (ib_levels ib)) (l + 1)" and l0: "l < length (ib_levels ib0)"
    using Suc.prems(3) by (auto simp: ib0_def ib_ensure_def)
  have ne0: "ib_levels ib0 \<noteq> []" using l0 by auto
  note ens = inv_ensure [OF Suc.prems(1,3,2), folded ib0_def css0_def]
  have lc: "length css0 = length (ib_levels ib0)" by (rule inv_length [OF ens(1)])
  have below: "css0 ! j = []" if "j < l" for j
    using inv_empty_below [OF ens(1,3) that] that l0 lc by simp
  have Linv: "level_inv (ib_ic ib) S L (css0 ! l)" using inv_nth [OF ens(1) l0] same by (simp add: L_def)
  note L1 = level_inv_append [OF Linv Suc.prems(5,6), folded L1_def]
  obtain enc where enc: "itemEnc C ib ck sep = (Inr enc :: 'e fs_err + bytes)"
    using item_ok [of ck sep c ib] Suc.prems(5) dir by (auto simp: child_def)
  have unf: "ib_add C H (collect_emit :: ('e, object list) emit) (Suc fuel) ib l ck sep S =
      (if IsBoundary H (ib_ic ib) enc (lv_runLen L1)
       then closeLevel C H collect_emit (ib_add C H collect_emit fuel) ib1 l S else Some (Inr (ib1, S)))"
    by (simp add: Let_def enc ib1_def L1_def L_def ib0_def dir)
  have content0: "content css = content (drop (Suc l) css0) @ concat (css0 ! l)"
    using content_split [of l css0] below l0 lc ens(2) by simp
  show ?case
  proof (cases "IsBoundary H (ib_ic ib) enc (lv_runLen L1)")
    case False
    have "int (lv_runLen L1) < MaxRun (ib_ic ib)" using False IsBoundary_max not_le by blast
    then have "inv ib1 S (css0[l := css0 ! l @ [c]])"
      unfolding ib1_def using L1 same by (intro inv_update [OF ens(1)]) (auto simp: level_inv_def)
    moreover have "content (css0[l := css0 ! l @ [c]]) = content css @ c"
      using content_update [of l css0] below l0 lc content0 by simp
    moreover have "pending ib1 = pending ib + 1"
      using pending_update [OF l0, of L1] ens(4) by (simp add: ib1_def L_def [symmetric]) (simp add: L1_def)
    moreover have "lv_runLen (last (ib_levels ib1)) > 0"
    proof (cases "l = length (ib_levels ib0) - 1")
      case True
      then have "last (ib_levels ib1) = L1" using ne0 last_update [of "ib_levels ib0" l L1] by (simp add: ib1_def)
      then show ?thesis by (simp add: L1_def)
    next
      case False
      then have "ib_levels ib0 = ib_levels ib" using Suc.prems(3) len0 by (auto simp: ib0_def ib_ensure_def)
      then show ?thesis
        using Suc.prems(4) False l0 ne0 last_update [of "ib_levels ib0" l L1]
        by (auto simp: ib1_def top_ok_def)
    qed
    moreover have "empty_below ib1 l" using ens(3) by (auto simp: empty_below_def ib1_def)
    ultimately show ?thesis
      using False len0 l0 same unfolding unf added_def
      by (intro exI [of _ ib1] exI [of _ S] exI [of _ "css0[l := css0 ! l @ [c]]"]) (auto simp: ib1_def)
  next
    case True
    have run: "2 \<le> lv_runLen L1" using IsBoundary_min [OF True] ic by (simp add: chunker_ok_def)
    then have old: "l < length (ib_levels ib)"
      using Suc.prems(3) by (cases "l = length (ib_levels ib)")
        (auto simp: L1_def L_def ib0_def ib_ensure_def nth_append)
    then have ib0: "ib0 = ib" and css0: "css0 = css" by (simp_all add: ib0_def ib_ensure_def css0_def)
    have nonempty: "lv_keys L1 \<noteq> []" by (simp add: L1_def)
    have "int (lv_runLen L1) \<le> MaxRun (ib_ic ib)" using Linv by (simp add: level_inv_def L1_def)
    then have short: "length (lv_keys L1) \<le> MaxArrayElements"
      using L1(1) ic by (simp add: level_wf_def chunker_ok_def)
    obtain obj nsep where node: "buildNode C H isDir L1 = (Inr (obj, nsep) :: 'e fs_err + object \<times> bytes)"
      and nchild: "child (S @ [obj]) (Obj_Key obj) nsep (concat (css ! l @ [c]))"
      using node_child [OF L1(1) nonempty short L1(2)] css0 by auto
    define ib2 where "ib2 = ib\<lparr>ib_levels := (ib_levels ib)[l := emptyLevel]\<rparr>"
    have inv2: "inv ib2 (S @ [obj]) (css[l := []])"
      unfolding ib2_def using Suc.prems(1) ic by (intro inv_update) auto
    have eb2: "empty_below ib2 (l + 1)"
      using Suc.prems(2) by (auto simp: empty_below_def ib2_def nth_list_update less_Suc_eq)
    have top2: "top_ok ib2 (l + 1)"
      using Suc.prems(4) old ne0 ib0 last_update [of "ib_levels ib" l emptyLevel]
      by (auto simp: top_ok_def ib2_def split: if_splits)
    have nsep: "isDir \<or> nsep = []" using node by (cases isDir) (auto simp: buildNode_def split: sum.splits)
    have step: "closeLevel C H (collect_emit :: ('e, object list) emit) (ib_add C H collect_emit fuel) ib1 l S =
        ib_add C H collect_emit fuel ib2 (l + 1) (Obj_Key obj) nsep (S @ [obj])"
      using old node dir
      by (simp add: closeLevel_def ib1_def ib0 ib2_def ib_reset_def collect_emit_def Let_def)
    have "\<exists>ib' S' css'. ib_add C H (collect_emit :: ('e, object list) emit) fuel ib2 (l + 1) (Obj_Key obj) nsep (S @ [obj]) =
        Some (Inr (ib', S')) \<and> added ib2 (l + 1) (css[l := []]) (concat (css ! l @ [c])) (S @ [obj]) ib' S' css'"
      using old Suc.prems(7) by (intro Suc.IH [OF inv2 eb2 _ top2 nchild nsep]) (auto simp: ib2_def)
    then obtain ib' S' css' where res: "ib_add C H (collect_emit :: ('e, object list) emit) fuel ib2 (l + 1) (Obj_Key obj) nsep (S @ [obj]) =
        Some (Inr (ib', S'))" and ad: "added ib2 (l + 1) (css[l := []]) (concat (css ! l @ [c])) (S @ [obj]) ib' S' css'"
      by blast
    have cont: "content (css[l := []]) = content (drop (Suc l) css)"
      using content_update [of l css "[]"] below l0 lc css0 ib0 by simp
    have pend: "pending ib2 + lv_runLen L = pending ib" and r1: "1 \<le> lv_runLen L"
      using pending_update [OF old, of emptyLevel] run by (simp_all add: ib2_def L_def ib0 L1_def)
    have "added ib l css c S ib' S' css'"
      using ad pend r1 cont content0 css0 unfolding added_def
      by (auto simp: ib2_def empty_below_def)
    then show ?thesis using True res step unf by auto
  qed
qed

end

section \<open>Finishing an index\<close>

context index_tree
begin

lemma inv_reset:
  assumes "inv ib S css" and "empty_below ib l" and "l < length (ib_levels ib)" and "set S \<subseteq> set S1"
  shows "inv (ib_reset ib l) S1 (css[l := []])" and "empty_below (ib_reset ib l) (l + 1)"
    and "content (css[l := []]) @ concat (css ! l) = content css"
    and "pending (ib_reset ib l) + lv_runLen (ib_levels ib ! l) = pending ib"
proof -
  show "inv (ib_reset ib l) S1 (css[l := []])"
    unfolding ib_reset_def using assms(1,4) by (intro inv_update) (auto simp: inv_def)
  show "empty_below (ib_reset ib l) (l + 1)"
    using assms(2) by (auto simp: empty_below_def ib_reset_def nth_list_update less_Suc_eq)
  have l: "l < length css" using inv_length [OF assms(1)] assms(3) by simp
  moreover have "css ! j = []" if "j < l" for j
    using inv_empty_below [OF assms(1,2) that] that l by simp
  ultimately show "content (css[l := []]) @ concat (css ! l) = content css"
    using content_split [of l css] content_update [of l css "[]"] by simp
  show "pending (ib_reset ib l) + lv_runLen (ib_levels ib ! l) = pending ib"
    using pending_update [OF assms(3), of emptyLevel] by (simp add: ib_reset_def)
qed

text \<open>Closing the run at level \<open>l\<close> and adding its child one level up.\<close>

lemma move_up:
  assumes "inv ib S css" and "empty_below ib l" and "l < length (ib_levels ib)"
    and "lv_runLen (last (ib_levels ib)) > 0" and "set S \<subseteq> set S1"
    and "child S1 k sep (concat (css ! l))" and "isDir \<or> sep = []"
    and "lv_runLen (ib_levels ib ! l) = 1 \<and> l + 1 < length (ib_levels ib) \<or> 2 \<le> lv_runLen (ib_levels ib ! l)"
    and "length (ib_levels ib) + pending ib + 2 \<le> afuel"
  shows "\<exists>ib' S' css'. ib_add C H (collect_emit :: ('e, object list) emit) afuel (ib_reset ib l) (l + 1) k sep S1 =
       Some (Inr (ib', S')) \<and> inv ib' S' css' \<and> empty_below ib' (l + 1) \<and> l + 1 < length (ib_levels ib') \<and>
     lv_runLen (last (ib_levels ib')) > 0 \<and> content css' = content css \<and> set S \<subseteq> set S' \<and>
     2 * pending ib' + length (ib_levels ib') \<le> 2 * pending ib + length (ib_levels ib) \<and>
     length (ib_levels ib') + pending ib' \<le> length (ib_levels ib) + pending ib"
proof -
  note r = inv_reset [OF assms(1,2,3,5)]
  have len: "length (ib_levels (ib_reset ib l)) = length (ib_levels ib)" by (simp add: ib_reset_def)
  have "ib_levels ib \<noteq> []" using assms(3) by auto
  then have "top_ok (ib_reset ib l) (l + 1)"
    using assms(3,4) last_update [of "ib_levels ib" l emptyLevel] by (auto simp: top_ok_def ib_reset_def)
  then obtain ib' S' css' where
    res: "ib_add C H (collect_emit :: ('e, object list) emit) afuel (ib_reset ib l) (l + 1) k sep S1 = Some (Inr (ib', S'))"
    and ad: "added (ib_reset ib l) (l + 1) (css[l := []]) (concat (css ! l)) S1 ib' S' css'"
    using add_ok [OF r(1,2) _ _ assms(6,7), of afuel] assms(3,9) len by auto
  have "max (length (ib_levels ib)) (l + 2) + pending (ib_reset ib l) + 1 \<le> length (ib_levels ib) + pending ib"
    "pending (ib_reset ib l) + 2 \<le> pending ib + 1"
    using assms(3,8) r(4) by auto
  then have "length (ib_levels ib') + pending ib' \<le> length (ib_levels ib) + pending ib" "pending ib' \<le> pending ib"
    using ad len by (auto simp: added_def)
  then show ?thesis
    using ad r(3) assms(5) res unfolding added_def
    by (intro exI [of _ ib'] exI [of _ S'] exI [of _ css']) auto
qed

lemma single_item:
  assumes "level_inv ic S L cs" and "lv_runLen L = 1"
  shows "child S (lv_keys L ! 0) (if isDir then lv_seps L ! 0 else []) (concat cs)"
proof -
  have "length (lv_keys L) = Suc 0" using assms by (simp add: level_inv_def level_wf_def)
  then obtain k where k: "lv_keys L = [k]" by (auto simp: length_Suc_conv)
  have items: "list_all2 (\<lambda>(k, sep) c. child S k sep c) (level_items isDir L) cs"
    using assms(1) by (simp add: level_inv_def)
  have seps: "isDir \<longrightarrow> length (lv_seps L) = Suc 0" using assms by (auto simp: level_inv_def level_wf_def)
  show ?thesis
  proof (cases isDir)
    case True
    then have "length (lv_seps L) = Suc 0" using seps by blast
    then obtain s where "lv_seps L = [s]" by (auto simp: length_Suc_conv)
    then show ?thesis using items k True by (auto simp: level_items_def list_all2_Cons1)
  next
    case False
    then show ?thesis using items k by (auto simp: level_items_def list_all2_Cons1)
  qed
qed

lemma close_node:
  assumes "inv ib S css" and "l < length (ib_levels ib)" and "1 \<le> lv_runLen (ib_levels ib ! l)"
  shows "\<exists>obj sep. buildNode C H isDir (ib_levels ib ! l) = (Inr (obj, sep) :: 'e fs_err + object \<times> bytes) \<and>
     child (S @ [obj]) (Obj_Key obj) sep (concat (css ! l)) \<and> (isDir \<or> sep = [])"
proof -
  let ?L = "ib_levels ib ! l"
  have L: "level_inv (ib_ic ib) S ?L (css ! l)" by (rule inv_nth [OF assms(1,2)])
  have "chunker_ok (ib_ic ib)" using assms(1) by (simp add: inv_def)
  then have "lv_keys ?L \<noteq> []" "length (lv_keys ?L) \<le> MaxArrayElements"
    using L assms(3) by (auto simp: level_inv_def level_wf_def chunker_ok_def)
  with L obtain obj sep where b: "buildNode C H isDir ?L = (Inr (obj, sep) :: 'e fs_err + object \<times> bytes)"
    "child (S @ [obj]) (Obj_Key obj) sep (concat (css ! l))"
    using node_child [of ?L S "css ! l"] by (auto simp: level_inv_def)
  moreover have "isDir \<or> sep = []" using b(1) by (cases isDir) (auto simp: buildNode_def split: sum.splits)
  ultimately show ?thesis by blast
qed

lemma finish_ok:
  assumes "inv ib S css" and "empty_below ib l" and "l < length (ib_levels ib)"
    and "lv_runLen (last (ib_levels ib)) > 0"
    and "2 * pending ib + length (ib_levels ib) < fuel + l" and "length (ib_levels ib) + pending ib + 2 \<le> afuel"
  shows "\<exists>root S' sep. ib_finish C H (collect_emit :: ('e, object list) emit) afuel fuel ib l S = Some (Inr (root, S')) \<and>
     child S' root sep (content css) \<and> set S \<subseteq> set S'"
  using assms
proof (induction fuel arbitrary: ib S css l)
  case 0
  then have "lv_runLen (last (ib_levels ib)) \<le> pending ib"
    unfolding pending_def by (intro member_le_sum_list) auto
  with 0 show ?case by simp
next
  case (Suc fuel)
  note prems = Suc.prems
  let ?L = "ib_levels ib ! l"
  have dir: "ib_isDir ib = isDir" using prems(1) by (simp add: inv_def)
  have L: "level_inv (ib_ic ib) S ?L (css ! l)" by (rule inv_nth [OF prems(1,3)])
  have top: "last (ib_levels ib) = ?L" if "l = length (ib_levels ib) - 1"
    using that prems(3) by (subst last_conv_nth) auto
  consider (zero) "lv_runLen ?L = 0" | (root) "lv_runLen ?L = 1" "l = length (ib_levels ib) - 1"
    | (single) "lv_runLen ?L = 1" "l + 1 < length (ib_levels ib)" | (run) "2 \<le> lv_runLen ?L"
    using prems(3) by linarith
  then show ?case
  proof cases
    case zero
    then have "l + 1 < length (ib_levels ib)" using top prems(3,4) by (cases "l = length (ib_levels ib) - 1") auto
    moreover have "empty_below ib (l + 1)" using prems(2) zero by (auto simp: empty_below_def less_Suc_eq)
    ultimately show ?thesis using Suc.IH [OF prems(1), of "l + 1"] prems zero by simp
  next
    case root
    have "content css = concat (css ! l)"
      using content_split [of l css] inv_empty_below [OF prems(1,2)] inv_length [OF prems(1)] prems(3) root(2)
      by (simp add: content_def [of "[]"])
    then have "child S (lv_keys ?L ! 0) (if isDir then lv_seps ?L ! 0 else []) (content css)"
      using single_item [OF L root(1)] by simp
    then show ?thesis using prems(3) root by (auto simp: Let_def)
  next
    case single
    have "isDir \<or> (if isDir then lv_seps ?L ! 0 else []) = []" by simp
    from move_up [OF prems(1-4) _ single_item [OF L single(1)] this _ prems(6)] single
    obtain ib' S' css' where st: "ib_add C H (collect_emit :: ('e, object list) emit) afuel (ib_reset ib l) (l + 1)
        (lv_keys ?L ! 0) (if isDir then lv_seps ?L ! 0 else []) S = Some (Inr (ib', S'))"
      "inv ib' S' css'" "empty_below ib' (l + 1)" "l + 1 < length (ib_levels ib')" "lv_runLen (last (ib_levels ib')) > 0"
      "content css' = content css" "set S \<subseteq> set S'"
      "2 * pending ib' + length (ib_levels ib') \<le> 2 * pending ib + length (ib_levels ib)"
      "length (ib_levels ib') + pending ib' \<le> length (ib_levels ib) + pending ib" by auto
    obtain root S2 sep where "ib_finish C H (collect_emit :: ('e, object list) emit) afuel fuel ib' (l + 1) S' = Some (Inr (root, S2))"
      "child S2 root sep (content css)" "set S' \<subseteq> set S2"
      using Suc.IH [OF st(2-5)] st(6,8,9) prems(5,6) by auto
    then show ?thesis using prems(3) single st(1,7) dir by (auto simp: Let_def)
  next
    case run
    obtain obj sep where node: "buildNode C H isDir ?L = (Inr (obj, sep) :: 'e fs_err + object \<times> bytes)"
      "child (S @ [obj]) (Obj_Key obj) sep (concat (css ! l))" "isDir \<or> sep = []"
      using close_node [OF prems(1,3)] run by auto
    from move_up [OF prems(1-4) _ node(2,3) _ prems(6)] run
    obtain ib' S' css' where st: "ib_add C H (collect_emit :: ('e, object list) emit) afuel (ib_reset ib l) (l + 1)
        (Obj_Key obj) sep (S @ [obj]) = Some (Inr (ib', S'))"
      "inv ib' S' css'" "empty_below ib' (l + 1)" "l + 1 < length (ib_levels ib')" "lv_runLen (last (ib_levels ib')) > 0"
      "content css' = content css" "set S \<subseteq> set S'"
      "2 * pending ib' + length (ib_levels ib') \<le> 2 * pending ib + length (ib_levels ib)"
      "length (ib_levels ib') + pending ib' \<le> length (ib_levels ib) + pending ib" by auto
    obtain root S2 sep2 where "ib_finish C H (collect_emit :: ('e, object list) emit) afuel fuel ib' (l + 1) S' = Some (Inr (root, S2))"
      "child S2 root sep2 (content css)" "set S' \<subseteq> set S2"
      using Suc.IH [OF st(2-5)] st(6,8,9) prems(5,6) by auto
    then show ?thesis
      using prems(3) run st(1,7) dir node(1) by (auto simp: Let_def collect_emit_eq [of S obj])
  qed
qed

end

section \<open>A whole index\<close>

context index_tree
begin

definition ready :: "IndexBuilder \<Rightarrow> object list \<Rightarrow> 'a list list list \<Rightarrow> bool" where
  "ready ib S css \<longleftrightarrow> inv ib S css \<and> (ib_levels ib \<noteq> [] \<longrightarrow> lv_runLen (last (ib_levels ib)) > 0)"

definition weight :: "IndexBuilder \<Rightarrow> nat" where
  "weight ib = length (ib_levels ib) + pending ib"

lemma ready_new:
  "chunker_ok ic \<Longrightarrow> ready \<lparr>ib_ic = ic, ib_isDir = isDir, ib_levels = []\<rparr> S []"
  "weight \<lparr>ib_ic = ic, ib_isDir = isDir, ib_levels = []\<rparr> = 0" "content [] = []"
  by (simp_all add: ready_def inv_def weight_def pending_def content_def)

lemma AddChild_ok:
  assumes "ready ib S css" and "set S \<subseteq> set S1" and "child S1 k sep c" and "isDir \<or> sep = []"
    and "weight ib + 2 \<le> fuel"
  shows "\<exists>ib' S' css'. AddChild C H (collect_emit :: ('e, object list) emit) fuel ib k sep S1 = Some (Inr (ib', S')) \<and>
     ready ib' S' css' \<and> content css' = content css @ c \<and> set S1 \<subseteq> set S' \<and> ib_levels ib' \<noteq> [] \<and>
     weight ib' \<le> weight ib + 2 \<and> ib_ic ib' = ib_ic ib"
proof -
  have inv1: "inv ib S1 css"
    using assms(1) level_inv_mono [OF _ assms(2)] by (auto simp only: ready_def inv_def elim!: list_all2_mono)
  have top: "top_ok ib 0" and eb: "empty_below ib 0"
    using assms(1) by (auto simp: top_ok_def ready_def empty_below_def)
  obtain ib' S' css' where
    "ib_add C H (collect_emit :: ('e, object list) emit) fuel ib 0 k sep S1 = Some (Inr (ib', S'))"
    and ad: "added ib 0 css c S1 ib' S' css'"
    using add_ok [OF inv1 eb _ top assms(3,4), of fuel] assms(5) by (auto simp: weight_def)
  then show ?thesis
    by (intro exI [of _ ib'] exI [of _ S'] exI [of _ css'])
       (auto simp: AddChild_def added_def ready_def weight_def)
qed

lemma Index_Finish_ok:
  assumes "ready ib S css" and "ib_levels ib \<noteq> []" and "2 * weight ib + 2 \<le> fuel"
  shows "\<exists>root S' sep. Index_Finish C H (collect_emit :: ('e, object list) emit) fuel ib S = Some (Inr (root, S')) \<and>
     child S' root sep (content css) \<and> set S \<subseteq> set S'"
  using finish_ok [of ib S css 0 fuel fuel] assms
  by (simp add: Index_Finish_def ready_def weight_def empty_below_def)

end

section \<open>Directory and file indexes meet the contract\<close>

lemma mk_object_ok:
  assumes "digest_ok H" and "IsValid t"
  obtains k where "mk_object H t len b = Inr \<lparr>Obj_Key = k, Obj_Bytes = b\<rparr>"
    "canonical k" "Key_Type k = t" "Key_Length k = len"
proof -
  have h: "length (H b) = 32" using assms(1) by (simp add: digest_ok_def)
  obtain k where k: "NewFromHash t len (H b) = Inr k"
    using assms(2) by (cases "NewFromHash t len (H b)") (auto simp: NewFromHash_def Let_def)
  show thesis
    using that [of k] k NewFromHash_canonical [OF k h] NewFromHash_fields(2) [OF k h] NewFromHash_Length [OF k h]
    by (simp add: mk_object_def Key_New_def)
qed

lemma valid_types [simp]:
  "IsValid Blob" "IsValid FileNode" "IsValid DirLeaf" "IsValid DirNode" "IsValid XattrSet"
  by (simp_all add: IsValid_def ktype_defs)

definition deps_ok :: "cbor \<Rightarrow> (bytes \<Rightarrow> bytes) \<Rightarrow> bool" where
  "deps_ok C H \<longleftrightarrow> cbor_ok C \<and> digest_ok H"

definition dir_good :: "cbor \<Rightarrow> (bytes \<Rightarrow> bytes) \<Rightarrow> key \<Rightarrow> bytes \<Rightarrow> Entry list \<Rightarrow> bool" where
  "dir_good C H k sep es \<longleftrightarrow> deps_ok C H \<and> canonical k \<and> es \<noteq> [] \<and> sep = Ent_Name (last es)"

definition file_good :: "cbor \<Rightarrow> (bytes \<Rightarrow> bytes) \<Rightarrow> key \<Rightarrow> bytes \<Rightarrow> bytes \<Rightarrow> bool" where
  "file_good C H k sep c \<longleftrightarrow> deps_ok C H \<and> canonical k \<and> Key_Length k = of_nat (length c)"

lemma node_sub_ok: "\<forall>p \<in> set ps. canonical (ChildKey p) \<Longrightarrow> \<exists>n. node_sub sub ps = Inr n"
  by (induction ps arbitrary: sub) (auto simp: Parse_ok [THEN iffD2])

lemma EncodeDirNode_ok:
  assumes "deps_ok C H" and "\<forall>p \<in> set ps. canonical (ChildKey p)" and "length ps \<le> MaxArrayElements"
  obtains k b where "EncodeDirNode C H ps = (Inr \<lparr>Obj_Key = k, Obj_Bytes = b\<rparr> :: 'e fs_err + object)"
    "canonical k" "Key_Type k = DirNode" "UnmarshalPairs C b = Some ps"
proof -
  obtain b where b: "MarshalPairs C ps = Some b" "UnmarshalPairs C b = Some ps"
    using assms(1,3) by (auto simp: deps_ok_def cbor_ok_def)
  obtain n where n: "node_sub 0 ps = (Inr n :: 'e fs_err + u64)" using node_sub_ok [OF assms(2)] by blast
  obtain k where "mk_object H DirNode (of_nat (length b) + n) b = (Inr \<lparr>Obj_Key = k, Obj_Bytes = b\<rparr> :: 'e fs_err + object)"
    "canonical k" "Key_Type k = DirNode"
    by (rule mk_object_ok [of H DirNode]) (use assms(1) in \<open>simp_all add: deps_ok_def\<close>)
  then show thesis using that [of k b] b n by (simp add: EncodeDirNode_def)
qed

lemma last_concat: "ess \<noteq> [] \<Longrightarrow> last ess \<noteq> [] \<Longrightarrow> last (concat ess) = last (last ess)"
  by (cases ess rule: rev_cases) auto

lemma foldl_lengths:
  "list_all2 (\<lambda>k c. Key_Length k = of_nat (length c)) ks cs \<Longrightarrow>
   foldl (\<lambda>sum c. sum + Key_Length c) s ks = s + of_nat (length (concat cs))"
  by (induction ks cs arbitrary: s rule: list_all2_induct) (auto simp: add.assoc)

lemma EncodeFileNode_ok:
  assumes "deps_ok C H" and "list_all2 (\<lambda>k c. Key_Length k = of_nat (length c)) ks cs" and "length ks \<le> MaxArrayElements"
  obtains k b where "EncodeFileNode C H ks = (Inr \<lparr>Obj_Key = k, Obj_Bytes = b\<rparr> :: 'e fs_err + object)"
    "canonical k" "Key_Type k = FileNode" "Key_Length k = of_nat (length (concat cs))" "UnmarshalKeys C b = Some ks"
proof -
  obtain b where b: "MarshalKeys C ks = Some b" "UnmarshalKeys C b = Some ks"
    using assms(1,3) by (auto simp: deps_ok_def cbor_ok_def)
  obtain k where "mk_object H FileNode (of_nat (length (concat cs))) b = (Inr \<lparr>Obj_Key = k, Obj_Bytes = b\<rparr> :: 'e fs_err + object)"
    "canonical k" "Key_Type k = FileNode" "Key_Length k = of_nat (length (concat cs))"
    by (rule mk_object_ok [of H FileNode]) (use assms(1) in \<open>simp_all add: deps_ok_def\<close>)
  then show thesis using that [of k b] b foldl_lengths [OF assms(2), of 0] by (simp add: EncodeFileNode_def)
qed

interpretation dir_index: index_tree C H True "dir_good C H" "dir_tree C" for C H
proof
  show "dir_tree C get m k es" if "dir_tree C get n k es" "n \<le> m" for get :: "key \<Rightarrow> 'e + bytes" and n k es m
    using that by (rule dir_tree_mono)
  show "\<exists>enc. itemEnc C ib ck sep = (Inr enc :: 'e fs_err + bytes)"
    if "dir_good C H ck sep es" "ib_isDir ib = True" for ck sep es ib
    using that by (auto simp: itemEnc_def dir_good_def deps_ok_def cbor_ok_def split: option.splits)
next
  fix L ess
  assume wf: "level_wf True L" and ne: "lv_keys L \<noteq> []" and len: "length (lv_keys L) \<le> MaxArrayElements"
    and items: "list_all2 (\<lambda>(k, sep) es. dir_good C H k sep es) (level_items True L) ess"
  define ps where "ps = map (\<lambda>i. \<lparr>SepName = lv_seps L ! i, ChildKey = lv_keys L ! i\<rparr>) [0..<length (lv_keys L)]"
  have sl: "length (lv_seps L) = length (lv_keys L)" using wf by (simp add: level_wf_def)
  have el: "length ess = length (lv_keys L)"
    using items sl by (auto simp: level_items_def dest: list_all2_lengthD)
  have good: "dir_good C H (lv_keys L ! i) (lv_seps L ! i) (ess ! i)" if "i < length (lv_keys L)" for i
    using list_all2_nthD [OF items, of i] that sl by (simp add: level_items_def)
  have deps: "deps_ok C H" using good [of 0] ne by (auto simp: dir_good_def)
  have can: "\<forall>p \<in> set ps. canonical (ChildKey p)" using good by (auto simp: ps_def dir_good_def)
  obtain k b where enc: "EncodeDirNode C H ps = (Inr \<lparr>Obj_Key = k, Obj_Bytes = b\<rparr> :: 'e fs_err + object)"
    and k: "canonical k" "Key_Type k = DirNode" and b: "UnmarshalPairs C b = Some ps"
    using EncodeDirNode_ok [OF deps can] len by (auto simp: ps_def)
  let ?sep = "lv_seps L ! (length (lv_seps L) - 1)"
  have "ess \<noteq> []" using el ne by auto
  moreover have "last ess \<noteq> []" "?sep = Ent_Name (last (last ess))"
    using good [of "length (lv_keys L) - 1"] ne sl el \<open>ess \<noteq> []\<close> by (auto simp: dir_good_def last_conv_nth)
  ultimately have "dir_good C H k ?sep (concat ess)"
    using deps k by (auto simp: dir_good_def last_concat)
  moreover have "dir_tree C get (Suc n) k (concat ess)"
    if g: "get k = Inr b" and sub: "list_all2 (\<lambda>(k, sep) es. dir_tree C get n k es) (level_items True L) ess"
    for get :: "key \<Rightarrow> 'e + bytes" and n
  proof -
    have "dir_tree C get n (lv_keys L ! i) (ess ! i)" if "i < length (lv_keys L)" for i
      using list_all2_nthD [OF sub, of i] that sl by (simp add: level_items_def)
    then have "list_all2 (\<lambda>p es. canonical (ChildKey p) \<and> es \<noteq> [] \<and> SepName p = Ent_Name (last es) \<and>
        dir_tree C get n (ChildKey p) es) ps ess"
      using good el by (auto simp: list_all2_conv_all_nth ps_def dir_good_def)
    then show ?thesis using k(2) g b by (blast intro: dir_tree.node)
  qed
  ultimately show "\<exists>obj sep. buildNode C H True L = (Inr (obj, sep) :: 'e fs_err + object \<times> bytes) \<and>
      dir_good C H (Obj_Key obj) sep (concat ess) \<and>
      (\<forall>get n. get (Obj_Key obj) = Inr (Obj_Bytes obj) \<longrightarrow>
        list_all2 (\<lambda>(k, sep) es. dir_tree C get n k es) (level_items True L) ess \<longrightarrow>
        dir_tree C (get :: key \<Rightarrow> 'e + bytes) (Suc n) (Obj_Key obj) (concat ess))"
    using enc by (intro exI [of _ "\<lparr>Obj_Key = k, Obj_Bytes = b\<rparr>"] exI [of _ ?sep])
      (auto simp: buildNode_def Let_def ps_def [symmetric])
qed

interpretation file_index: index_tree C H False "file_good C H" "file_tree C" for C H
proof
  show "file_tree C get m k c" if "file_tree C get n k c" "n \<le> m" for get :: "key \<Rightarrow> 'e + bytes" and n k c m
    using that by (rule file_tree_mono)
  show "\<exists>enc. itemEnc C ib ck sep = (Inr enc :: 'e fs_err + bytes)" if "ib_isDir ib = False" for ck sep ib
    using that by (simp add: itemEnc_def)
next
  fix L cs
  assume wf: "level_wf False L" and ne: "lv_keys L \<noteq> []" and len: "length (lv_keys L) \<le> MaxArrayElements"
    and items: "list_all2 (\<lambda>(k, sep) c. file_good C H k sep c) (level_items False L) cs"
  have good: "list_all2 (\<lambda>k c. file_good C H k [] c) (lv_keys L) cs"
    using items by (simp add: level_items_def list_all2_map1)
  have deps: "deps_ok C H" using good ne by (cases "lv_keys L") (auto simp: list_all2_Cons1 file_good_def)
  have "list_all2 (\<lambda>k c. Key_Length k = of_nat (length c)) (lv_keys L) cs"
    using good by (rule list_all2_mono) (simp add: file_good_def)
  then obtain k b where enc: "EncodeFileNode C H (lv_keys L) = (Inr \<lparr>Obj_Key = k, Obj_Bytes = b\<rparr> :: 'e fs_err + object)"
    and k: "canonical k" "Key_Type k = FileNode" "Key_Length k = of_nat (length (concat cs))"
    and b: "UnmarshalKeys C b = Some (lv_keys L)"
    using EncodeFileNode_ok [OF deps _ len] by metis
  have "file_tree C get (Suc n) k (concat cs)"
    if "get k = Inr b" "list_all2 (\<lambda>(k, sep) c. file_tree C get n k c) (level_items False L) cs"
    for get :: "key \<Rightarrow> 'e + bytes" and n
  proof -
    have "list_all2 (\<lambda>k c. file_tree C get n k c) (lv_keys L) cs"
      using that(2) by (simp add: level_items_def list_all2_map1)
    then have "list_all2 (\<lambda>ck c. canonical ck \<and> file_tree C get n ck c) (lv_keys L) cs"
      using good by (auto simp: list_all2_conv_all_nth file_good_def)
    then show ?thesis using k(2) that(1) b by (blast intro: file_tree.fnode)
  qed
  then show "\<exists>obj sep. buildNode C H False L = (Inr (obj, sep) :: 'e fs_err + object \<times> bytes) \<and>
      file_good C H (Obj_Key obj) sep (concat cs) \<and>
      (\<forall>get n. get (Obj_Key obj) = Inr (Obj_Bytes obj) \<longrightarrow>
        list_all2 (\<lambda>(k, sep) c. file_tree C get n k c) (level_items False L) cs \<longrightarrow>
        file_tree C (get :: key \<Rightarrow> 'e + bytes) (Suc n) (Obj_Key obj) (concat cs))"
    using enc deps k by (intro exI [of _ "\<lparr>Obj_Key = k, Obj_Bytes = b\<rparr>"] exI [of _ "[]"])
      (auto simp: buildNode_def file_good_def)
qed


end
