(* ===== verification/Amber_Walk.thy ===== *)
theory Amber_Walk
  imports Amber_Tree
begin

text \<open>
  The two breadth-first walks of package \<open>fstree\<close> (reachable.go, checkcomplete.go). A
  round expands the whole frontier; the source does it with an error group, of which
  the model keeps the result by frontier position and, when several lookups fail, the
  error of the first in that order. A round may be expanded only while there is fuel;
  the lemmas show that one round more than the number of reachable keys is enough.
\<close>

section \<open>The walk\<close>

fun visit_new :: "key set \<Rightarrow> key list \<Rightarrow> key list \<Rightarrow> key list \<Rightarrow> key set \<times> key list \<times> key list" where
  "visit_new seen out nxt [] = (seen, out, nxt)"
| "visit_new seen out nxt (ck # cks) =
     (if ck \<in> seen then visit_new seen out nxt cks
      else visit_new (insert ck seen) (out @ [ck]) (nxt @ [ck]) cks)"

primrec bfs_loop :: "(key \<Rightarrow> 'err + key list) \<Rightarrow> nat \<Rightarrow> key set \<Rightarrow> key list \<Rightarrow> key list \<Rightarrow>
    ('err + key list) option" where
  "bfs_loop expand 0 seen out frontier = (if frontier = [] then Some (Inr out) else None)"
| "bfs_loop expand (Suc fuel) seen out frontier =
     (if frontier = [] then Some (Inr out)
      else case map_err expand frontier of
             Inl e \<Rightarrow> Some (Inl e)
           | Inr childLists \<Rightarrow>
               (case visit_new seen out [] (concat childLists) of
                  (seen', out', nxt) \<Rightarrow> bfs_loop expand fuel seen' out' nxt))"

definition is_leaf_key :: "key \<Rightarrow> bool" where
  "is_leaf_key k \<longleftrightarrow> Key_Type k = Blob \<or> Key_Type k = XattrSet"

definition expand_get :: "cbor \<Rightarrow> (key \<Rightarrow> 'e + bytes) \<Rightarrow> key \<Rightarrow> 'e fs_err + key list" where
  "expand_get C get k =
     (if is_leaf_key k then Inr []
      else case get k of Inl e \<Rightarrow> Inl (ErrReading k e) | Inr data \<Rightarrow> ChildKeys C k data)"

definition ReachableKeys :: "cbor \<Rightarrow> (key \<Rightarrow> 'e + bytes) \<Rightarrow> nat \<Rightarrow> key \<Rightarrow> ('e fs_err + key list) option" where
  "ReachableKeys C get fuel root = bfs_loop (expand_get C get) fuel {root} [root] [root]"

definition expand_check :: "cbor \<Rightarrow> (key \<Rightarrow> 'e + bytes) \<Rightarrow> (key \<Rightarrow> 'e + bool) \<Rightarrow> key \<Rightarrow> 'e fs_err + key list" where
  "expand_check C get has k =
     (if is_leaf_key k
      then (case has k of
              Inl e \<Rightarrow> Inl (ErrLookup e)
            | Inr ok \<Rightarrow> if \<not> ok then Inl (ErrMissingObject k) else Inr [])
      else case get k of Inl e \<Rightarrow> Inl (ErrReading k e) | Inr data \<Rightarrow> ChildKeys C k data)"

definition CheckComplete :: "cbor \<Rightarrow> (key \<Rightarrow> 'e + bytes) \<Rightarrow> (key \<Rightarrow> 'e + bool) \<Rightarrow> nat \<Rightarrow> key \<Rightarrow>
    ('e fs_err + key list) option" where
  "CheckComplete C get has fuel root = bfs_loop (expand_check C get has) fuel {root} [root] [root]"

section \<open>Reachability\<close>

definition succ_rel :: "(key \<Rightarrow> 'err + key list) \<Rightarrow> (key \<times> key) set" where
  "succ_rel expand = {(a, b). \<exists>cs. expand a = Inr cs \<and> b \<in> set cs}"

definition reach :: "(key \<Rightarrow> 'err + key list) \<Rightarrow> key \<Rightarrow> key set" where
  "reach expand root = (succ_rel expand)\<^sup>* `` {root}"

lemma reach_root [simp]: "root \<in> reach expand root"
  by (simp add: reach_def)

lemma reach_step: "a \<in> reach expand root \<Longrightarrow> expand a = Inr cs \<Longrightarrow> b \<in> set cs \<Longrightarrow> b \<in> reach expand root"
  by (auto simp: reach_def succ_rel_def intro: rtrancl_into_rtrancl)

lemma reach_closed:
  assumes "root \<in> S" and "\<And>a cs. a \<in> S \<Longrightarrow> expand a = Inr cs \<Longrightarrow> set cs \<subseteq> S"
  shows "reach expand root \<subseteq> S"
proof
  fix k assume "k \<in> reach expand root"
  then have "(root, k) \<in> (succ_rel expand)\<^sup>*" by (simp add: reach_def)
  then show "k \<in> S"
    by (induction rule: rtrancl_induct) (use assms in \<open>auto simp: succ_rel_def\<close>)
qed

lemma reach_finite:
  assumes "finite {a. \<exists>cs. expand a = Inr cs \<and> cs \<noteq> []}"
  shows "finite (reach expand root)"
proof (rule finite_subset)
  let ?P = "{a. \<exists>cs. expand a = Inr cs \<and> cs \<noteq> []}"
  let ?S = "insert root (\<Union>a \<in> ?P. set (case expand a of Inl e \<Rightarrow> [] | Inr cs \<Rightarrow> cs))"
  show "reach expand root \<subseteq> ?S"
  proof (rule reach_closed)
    fix a cs assume "expand a = Inr cs"
    then show "set cs \<subseteq> ?S" by (cases "cs = []") force+
  qed simp
  show "finite ?S" using assms by (intro finite.insertI finite_UN_I finite_set)
qed

section \<open>Lemmas: one round and the loop\<close>

lemma visit_new_spec:
  assumes "visit_new seen out nxt cks = (seen', out', nxt')"
  shows "\<exists>new. out' = out @ new \<and> nxt' = nxt @ new \<and> seen' = seen \<union> set cks \<and>
           set new = set cks - seen \<and> distinct new"
  using assms
proof (induction seen out nxt cks arbitrary: seen' out' nxt' rule: visit_new.induct)
  case (2 seen out nxt ck cks)
  show ?case
  proof (cases "ck \<in> seen")
    case True
    then show ?thesis using 2 by fastforce
  next
    case False
    then obtain new where "out' = (out @ [ck]) @ new" "nxt' = (nxt @ [ck]) @ new"
      "seen' = insert ck seen \<union> set cks" "set new = set cks - insert ck seen" "distinct new"
      using 2 by fastforce
    then show ?thesis using False by (intro exI [of _ "ck # new"]) auto
  qed
qed auto

text \<open>The loop invariant: what was visited is reachable, and everything visited outside
  the frontier has been expanded.\<close>

definition bfs_inv :: "(key \<Rightarrow> 'err + key list) \<Rightarrow> key \<Rightarrow> key set \<Rightarrow> key list \<Rightarrow> key list \<Rightarrow> bool" where
  "bfs_inv expand root seen out frontier \<longleftrightarrow>
     seen = set out \<and> distinct out \<and> out \<noteq> [] \<and> hd out = root \<and>
     set out \<subseteq> reach expand root \<and> set frontier \<subseteq> set out \<and>
     (\<forall>k \<in> set out - set frontier. \<exists>cs. expand k = Inr cs \<and> set cs \<subseteq> set out)"

lemma bfs_inv_step:
  assumes "bfs_inv expand root seen out frontier" and "map_err expand frontier = Inr cls"
    and "visit_new seen out [] (concat cls) = (seen', out', nxt)"
  shows "bfs_inv expand root seen' out' nxt" and "\<exists>new. out' = out @ new \<and> nxt = new \<and> set new \<inter> seen = {}"
proof -
  obtain new where new: "out' = out @ new" "nxt = new" "seen' = seen \<union> set (concat cls)"
    "set new = set (concat cls) - seen" "distinct new"
    using visit_new_spec [OF assms(3)] by auto
  show "\<exists>new. out' = out @ new \<and> nxt = new \<and> set new \<inter> seen = {}" using new by auto
  have cls: "list_all2 (\<lambda>k cs. expand k = Inr cs) frontier cls" using assms(2) by (simp add: map_err_ok)
  note inv = assms(1) [unfolded bfs_inv_def]
  have from_frontier: "\<exists>k \<in> set frontier. expand k = Inr cs" if cs: "cs \<in> set cls" for cs
    using list_all2_set2 [OF cls] cs by blast
  have "set (concat cls) \<subseteq> reach expand root"
  proof
    fix c assume "c \<in> set (concat cls)"
    then obtain cs where cs: "c \<in> set cs" "cs \<in> set cls" by auto
    from from_frontier [OF cs(2)] obtain k where "k \<in> set frontier" "expand k = Inr cs" by blast
    with cs(1) show "c \<in> reach expand root" using inv reach_step [of k expand root cs c] by blast
  qed
  moreover have "\<exists>cs. expand k = Inr cs \<and> set cs \<subseteq> set out'" if k: "k \<in> set out" for k
  proof (cases "k \<in> set frontier")
    case True
    then obtain cs where "expand k = Inr cs" "cs \<in> set cls"
      using list_all2_set1 [OF cls] by blast
    then show ?thesis using new(1,4) inv by auto
  next
    case False
    then obtain cs where "expand k = Inr cs" "set cs \<subseteq> set out" using inv k by blast
    then show ?thesis using new(1) by auto
  qed
  ultimately show "bfs_inv expand root seen' out' nxt"
    unfolding bfs_inv_def using inv new by (intro conjI) auto
qed

text \<open>With enough fuel the walk returns: all reachable keys when every one of them can be
  expanded, and an error otherwise.\<close>

lemma bfs_loop_total:
  assumes "bfs_inv expand root seen out frontier" and "finite (reach expand root)"
    and "card (reach expand root - seen) < fuel \<or> frontier = []"
  shows "(\<exists>ks. bfs_loop expand fuel seen out frontier = Some (Inr ks) \<and> distinct ks \<and> ks \<noteq> [] \<and>
             hd ks = root \<and> set ks = reach expand root \<and> (\<forall>k \<in> set ks. \<exists>cs. expand k = Inr cs)) \<or>
         (\<exists>e. bfs_loop expand fuel seen out frontier = Some (Inl e) \<and>
             (\<exists>k \<in> reach expand root. expand k = Inl e))"
  using assms(1,3)
proof (induction fuel arbitrary: seen out frontier)
  case (Suc fuel)
  note inv = Suc.prems(1)
  show ?case
  proof (cases "frontier = []")
    case True
    then have "reach expand root \<subseteq> set out"
      using inv hd_in_set [of out] by (intro reach_closed) (fastforce simp: bfs_inv_def)+
    then show ?thesis using True inv by (auto simp: bfs_inv_def)
  next
    case False
    show ?thesis
    proof (cases "map_err expand frontier")
      case (Inl e)
      then show ?thesis using False inv map_err_bad [OF Inl] by (auto simp: bfs_inv_def)
    next
      case (Inr cls)
      obtain seen' out' nxt where v: "visit_new seen out [] (concat cls) = (seen', out', nxt)"
        by (cases "visit_new seen out [] (concat cls)") auto
      have inv': "bfs_inv expand root seen' out' nxt"
        and new: "out' = out @ nxt" "set nxt \<inter> seen = {}"
        using bfs_inv_step [OF inv Inr v] by auto
      have "card (reach expand root - seen') < fuel" if "nxt \<noteq> []"
      proof -
        have "reach expand root - seen' \<subset> reach expand root - seen"
          using that new inv inv' by (cases nxt) (auto simp: bfs_inv_def)
        then have "card (reach expand root - seen') < card (reach expand root - seen)"
          using assms(2) by (intro psubset_card_mono) auto
        then show ?thesis using Suc.prems(2) False by simp
      qed
      then show ?thesis using Suc.IH [OF inv'] False Inr v by auto
    qed
  qed
next
  case 0
  then have "frontier = []" by simp
  moreover from this have "reach expand root \<subseteq> set out"
    using 0 hd_in_set [of out] by (intro reach_closed) (fastforce simp: bfs_inv_def)+
  ultimately show ?case using 0 by (auto simp: bfs_inv_def)
qed

lemma bfs_inv_init: "bfs_inv expand root {root} [root] [root]"
  by (simp add: bfs_inv_def)

lemma bfs_walk:
  assumes "finite (reach expand root)" and "card (reach expand root) \<le> fuel"
  shows "if \<forall>k \<in> reach expand root. \<exists>cs. expand k = Inr cs
         then \<exists>ks. bfs_loop expand fuel {root} [root] [root] = Some (Inr ks) \<and> distinct ks \<and>
                hd ks = root \<and> set ks = reach expand root
         else \<exists>e. bfs_loop expand fuel {root} [root] [root] = Some (Inl e)"
proof -
  have "reach expand root - {root} \<subset> reach expand root" using reach_root [of root expand] by blast
  then have "card (reach expand root - {root}) < card (reach expand root)"
    using assms(1) by (intro psubset_card_mono) auto
  then have c: "card (reach expand root - {root}) < fuel \<or> [root] = []" using assms(2) by simp
  from bfs_loop_total [OF bfs_inv_init assms(1) c] show ?thesis
  proof
    assume "\<exists>ks. bfs_loop expand fuel {root} [root] [root] = Some (Inr ks) \<and> distinct ks \<and> ks \<noteq> [] \<and>
      hd ks = root \<and> set ks = reach expand root \<and> (\<forall>k \<in> set ks. \<exists>cs. expand k = Inr cs)"
    then obtain ks where ks: "bfs_loop expand fuel {root} [root] [root] = Some (Inr ks)" "distinct ks"
      "hd ks = root" "set ks = reach expand root" "\<forall>k \<in> set ks. \<exists>cs. expand k = Inr cs" by blast
    then have ok: "\<forall>k \<in> reach expand root. \<exists>cs. expand k = Inr cs" by blast
    show ?thesis unfolding if_P [OF ok] using ks(1-4) by blast
  next
    assume "\<exists>e. bfs_loop expand fuel {root} [root] [root] = Some (Inl e) \<and>
      (\<exists>k \<in> reach expand root. expand k = Inl e)"
    then obtain e k where e: "bfs_loop expand fuel {root} [root] [root] = Some (Inl e)"
      and k: "k \<in> reach expand root" "expand k = Inl e" by blast
    have "\<not> (\<exists>cs. expand k = Inr cs)" using k(2) by simp
    then have bad: "\<not> (\<forall>k \<in> reach expand root. \<exists>cs. expand k = Inr cs)" using k(1) by blast
    show ?thesis unfolding if_not_P [OF bad] using e by blast
  qed
qed

end
