(* ===== verification/Amber_BuildTree.thy ===== *)
theory Amber_BuildTree
  imports Amber_Build Amber_Walk
begin

text \<open>
  The builders end to end: a directory built from a sorted entry stream, and a file
  built from its chunks, read back as what went in, from any store that holds the
  emitted objects. A self-delimiting codec gives a concrete instance of the CBOR
  hypothesis.
\<close>

section \<open>The loops of the callers\<close>

primrec add_entries :: "cbor \<Rightarrow> (bytes \<Rightarrow> bytes) \<Rightarrow> ('e, 's) emit \<Rightarrow> nat \<Rightarrow>
    DirBuilder \<Rightarrow> Entry list \<Rightarrow> 's \<Rightarrow> ('e, 's, DirBuilder) built" where
  "add_entries C H emit fuel db [] s = Some (Inr (db, s))"
| "add_entries C H emit fuel db (e # es) s =
     (case AddEntry C H emit fuel db e s of
        None \<Rightarrow> None
      | Some (Inl err) \<Rightarrow> Some (Inl err)
      | Some (Inr (db1, s1)) \<Rightarrow> add_entries C H emit fuel db1 es s1)"

definition build_dir :: "cbor \<Rightarrow> (bytes \<Rightarrow> bytes) \<Rightarrow> ItemChunker \<Rightarrow> nat \<Rightarrow> Entry list \<Rightarrow>
    ('e, object list, key) built" where
  "build_dir C H ic fuel es =
     (case add_entries C H collect_emit fuel (NewDirBuilder ic) es [] of
        None \<Rightarrow> None
      | Some (Inl err) \<Rightarrow> Some (Inl err)
      | Some (Inr (db, s)) \<Rightarrow> Dir_Finish C H collect_emit fuel db s)"

primrec add_chunks :: "cbor \<Rightarrow> (bytes \<Rightarrow> bytes) \<Rightarrow> ('e, 's) emit \<Rightarrow> nat \<Rightarrow>
    IndexBuilder \<Rightarrow> bytes list \<Rightarrow> 's \<Rightarrow> ('e, 's, IndexBuilder) built" where
  "add_chunks C H emit fuel ib [] s = Some (Inr (ib, s))"
| "add_chunks C H emit fuel ib (c # cs) s =
     (case EncodeBlob H c of
        Inl err \<Rightarrow> Some (Inl err)
      | Inr obj \<Rightarrow>
          (case emit s obj of
             Inl e \<Rightarrow> Some (Inl (ErrEmit e))
           | Inr s1 \<Rightarrow>
               (case AddChild C H emit fuel ib (Obj_Key obj) [] s1 of
                  None \<Rightarrow> None
                | Some (Inl err) \<Rightarrow> Some (Inl err)
                | Some (Inr (ib1, s2)) \<Rightarrow> add_chunks C H emit fuel ib1 cs s2)))"

definition build_file :: "cbor \<Rightarrow> (bytes \<Rightarrow> bytes) \<Rightarrow> ItemChunker \<Rightarrow> nat \<Rightarrow> bytes list \<Rightarrow>
    ('e, object list, key) built" where
  "build_file C H ic fuel cs =
     (case add_chunks C H collect_emit fuel (NewFileIndexBuilder ic) cs [] of
        None \<Rightarrow> None
      | Some (Inl err) \<Rightarrow> Some (Inl err)
      | Some (Inr (ib, s)) \<Rightarrow> Index_Finish C H collect_emit fuel ib s)"

section \<open>Lemmas: leaves\<close>

lemma leaf_sub_ok: "\<forall>e \<in> set es. wf_entry e \<Longrightarrow> \<exists>n. leaf_sub sub es = Inr n"
  by (induction es arbitrary: sub) (auto simp: wf_entry_def Let_def Parse_ok [THEN iffD2])

lemma EncodeDirLeaf_ok:
  assumes "deps_ok C H" and "\<forall>e \<in> set es. wf_entry e" and "length es \<le> MaxArrayElements"
  obtains k b where "EncodeDirLeaf C H es = (Inr \<lparr>Obj_Key = k, Obj_Bytes = b\<rparr> :: 'e fs_err + object)"
    "canonical k" "Key_Type k = DirLeaf" "UnmarshalEntries C b = Some es"
proof -
  obtain b where b: "MarshalEntries C es = Some b" "UnmarshalEntries C b = Some es"
    using assms by (auto simp: deps_ok_def cbor_ok_def)
  obtain n where n: "leaf_sub 0 es = (Inr n :: 'e fs_err + u64)" using leaf_sub_ok [OF assms(2)] by blast
  obtain k where "mk_object H DirLeaf (of_nat (length b) + n) b = (Inr \<lparr>Obj_Key = k, Obj_Bytes = b\<rparr> :: 'e fs_err + object)"
    "canonical k" "Key_Type k = DirLeaf"
    by (rule mk_object_ok [of H DirLeaf]) (use assms(1) in \<open>simp_all add: deps_ok_def\<close>)
  then show thesis using that [of k b] b n by (simp add: EncodeDirLeaf_def)
qed

abbreviation dchild :: "cbor \<Rightarrow> (bytes \<Rightarrow> bytes) \<Rightarrow> 'e itself \<Rightarrow> object list \<Rightarrow> key \<Rightarrow> bytes \<Rightarrow> Entry list \<Rightarrow> bool" where
  "dchild C H T \<equiv> index_tree.child (dir_good C H) (dir_tree C :: (key \<Rightarrow> 'e + bytes) \<Rightarrow> nat \<Rightarrow> key \<Rightarrow> Entry list \<Rightarrow> bool)"

abbreviation dready :: "cbor \<Rightarrow> (bytes \<Rightarrow> bytes) \<Rightarrow> 'e itself \<Rightarrow> IndexBuilder \<Rightarrow> object list \<Rightarrow> Entry list list list \<Rightarrow> bool" where
  "dready C H T \<equiv> index_tree.ready True (dir_good C H) (dir_tree C :: (key \<Rightarrow> 'e + bytes) \<Rightarrow> nat \<Rightarrow> key \<Rightarrow> Entry list \<Rightarrow> bool)"

section \<open>Lemmas: the directory builder\<close>

text \<open>The state of a directory builder after the entries \<open>es\<close>: the index holds a prefix of
  them, the open leaf the rest.\<close>

definition db_inv :: "'e itself \<Rightarrow> cbor \<Rightarrow> (bytes \<Rightarrow> bytes) \<Rightarrow> DirBuilder \<Rightarrow> object list \<Rightarrow>
    Entry list list list \<Rightarrow> Entry list \<Rightarrow> bool" where
  "db_inv T C H db S css es \<longleftrightarrow>
     dready C H T (db_idx db) S css \<and> chunker_ok (db_ic db) \<and> deps_ok C H \<and>
     dir_index.content css @ db_leaf db = es \<and> db_runLen db = length (db_leaf db) \<and>
     (db_leaf db \<noteq> [] \<longrightarrow> db_leafMax db = Ent_Name (last (db_leaf db))) \<and>
     int (db_runLen db) \<le> MaxRun (db_ic db) \<and> (\<forall>e \<in> set es. wf_entry e) \<and>
     dir_index.weight (db_idx db) \<le> 2 * length (dir_index.content css)"

lemma db_inv_new:
  assumes "chunker_ok ic" and "deps_ok C H"
  shows "db_inv T C H (NewDirBuilder ic) S [] []"
  using assms dir_index.ready_new(1) [OF assms(1)]
  by (simp add: db_inv_def NewDirBuilder_def newDirIndexBuilder_def dir_index.ready_new chunker_ok_def)

lemma leaf_child:
  assumes "deps_ok C H" and "\<forall>e \<in> set es. wf_entry e" and "length es \<le> MaxArrayElements" and "es \<noteq> []"
  obtains obj where "EncodeDirLeaf C H es = (Inr obj :: 'e fs_err + object)"
    "dchild C H TYPE('e) (S @ [obj]) (Obj_Key obj) (Ent_Name (last es)) es"
proof -
  obtain k b where e: "EncodeDirLeaf C H es = (Inr \<lparr>Obj_Key = k, Obj_Bytes = b\<rparr> :: 'e fs_err + object)"
    "canonical k" "Key_Type k = DirLeaf" "UnmarshalEntries C b = Some es"
    using EncodeDirLeaf_ok [OF assms(1-3), where 'e = 'e] by metis
  have "dir_tree C get 1 k es" if "holds get (S @ [\<lparr>Obj_Key = k, Obj_Bytes = b\<rparr>])" for get :: "key \<Rightarrow> 'e + bytes"
    using e(3,4) that by (auto simp: holds_def intro: dir_tree.leaf)
  then have "dchild C H TYPE('e) (S @ [\<lparr>Obj_Key = k, Obj_Bytes = b\<rparr>]) k (Ent_Name (last es)) es"
    using assms(1,4) e(2) by (auto simp: dir_index.child_def dir_good_def intro!: exI [of _ 1])
  then show thesis using that [OF e(1)] by simp
qed

text \<open>Closing a non-empty leaf moves it into the index.\<close>

lemma closeLeaf_ok:
  assumes "db_inv TYPE('e) C H db S css es" and "db_leaf db \<noteq> []" and "2 * length es + 2 \<le> fuel"
  shows "\<exists>db' S' css'. closeLeaf C H (collect_emit :: ('e, object list) emit) fuel db S = Some (Inr (db', S')) \<and>
     db_inv TYPE('e) C H db' S' css' es \<and> db_leaf db' = [] \<and> db_ic db' = db_ic db \<and> set S \<subseteq> set S' \<and>
     ib_levels (db_idx db') \<noteq> []"
proof -
  note inv = assms(1) [unfolded db_inv_def]
  have len: "length (db_leaf db) \<le> MaxArrayElements" using inv by (auto simp: chunker_ok_def)
  have wf: "\<forall>e \<in> set (db_leaf db). wf_entry e" using inv by auto
  obtain obj where enc: "EncodeDirLeaf C H (db_leaf db) = (Inr obj :: 'e fs_err + object)"
    and ch: "dchild C H TYPE('e) (S @ [obj]) (Obj_Key obj) (db_leafMax db) (db_leaf db)"
    using leaf_child [OF _ wf len assms(2), where 'e = 'e and S = S and C = C and H = H] inv assms(2) by metis
  have "length (dir_index.content css) \<le> length es" using inv by auto
  then have "dir_index.weight (db_idx db) + 2 \<le> fuel" using inv assms(3) by simp
  with inv ch obtain ib S' css' where
    st: "AddChild C H (collect_emit :: ('e, object list) emit) fuel (db_idx db) (Obj_Key obj) (db_leafMax db) (S @ [obj]) = Some (Inr (ib, S'))"
    and rd: "dready C H TYPE('e) ib S' css'" and cont: "dir_index.content css' = dir_index.content css @ db_leaf db"
    and "set (S @ [obj]) \<subseteq> set S'" "ib_levels ib \<noteq> []" "dir_index.weight ib \<le> dir_index.weight (db_idx db) + 2"
    using dir_index.AddChild_ok [of C H "db_idx db" S css "S @ [obj]" "Obj_Key obj" "db_leafMax db" "db_leaf db" fuel]
    by auto
  moreover have "length (dir_index.content css) + 1 \<le> length (dir_index.content css')"
    using assms(2) cont by (simp add: Suc_le_eq)
  moreover have "0 \<le> MaxRun (db_ic db)" using inv by (auto simp: chunker_ok_def)
  ultimately show ?thesis
    using inv enc
    by (intro exI [of _ "db\<lparr>db_leaf := [], db_leafMax := [], db_runLen := 0, db_idx := ib\<rparr>"] exI [of _ S'] exI [of _ css'])
       (auto simp: closeLeaf_def db_inv_def Let_def collect_emit_eq [of S obj])
qed

lemma AddEntry_ok:
  assumes "db_inv TYPE('e) C H db S css es" and "int (db_runLen db) < MaxRun (db_ic db)"
    and "wf_entry e" and "2 * length es + 4 \<le> fuel"
  shows "\<exists>db' S' css'. AddEntry C H (collect_emit :: ('e, object list) emit) fuel db e S = Some (Inr (db', S')) \<and>
     db_inv TYPE('e) C H db' S' css' (es @ [e]) \<and> int (db_runLen db') < MaxRun (db_ic db') \<and>
     db_ic db' = db_ic db \<and> set S \<subseteq> set S'"
proof -
  note inv = assms(1) [unfolded db_inv_def]
  obtain enc where enc: "MarshalEntry C e = Some enc"
    using inv assms(3) by (auto simp: deps_ok_def cbor_ok_def)
  define db1 where "db1 = db\<lparr>db_leaf := db_leaf db @ [e], db_leafMax := Ent_Name e, db_runLen := db_runLen db + 1\<rparr>"
  have inv1: "db_inv TYPE('e) C H db1 S css (es @ [e])"
    using inv assms(2,3) by (auto simp: db_inv_def db1_def)
  show ?thesis
  proof (cases "IsBoundary H (db_ic db) enc (db_runLen db1)")
    case False
    then have "int (db_runLen db1) < MaxRun (db_ic db)" using IsBoundary_max not_le by blast
    then show ?thesis
      using False inv1 enc by (intro exI [of _ db1] exI [of _ S] exI [of _ css])
        (auto simp: AddEntry_def Let_def db1_def)
  next
    case True
    have "db_leaf db1 \<noteq> []" by (simp add: db1_def)
    from closeLeaf_ok [OF inv1 this, of fuel] assms(4)
    obtain db' S' css' where st: "closeLeaf C H (collect_emit :: ('e, object list) emit) fuel db1 S = Some (Inr (db', S'))"
      and inv': "db_inv TYPE('e) C H db' S' css' (es @ [e])" and c: "db_leaf db' = []" "db_ic db' = db_ic db1" "set S \<subseteq> set S'"
      by auto
    have "int (db_runLen db') < MaxRun (db_ic db')"
      using inv' c(1) by (simp add: db_inv_def chunker_ok_def)
    then show ?thesis
      using True st inv' c enc by (intro exI [of _ db'] exI [of _ S'] exI [of _ css'])
        (auto simp: AddEntry_def Let_def db1_def)
  qed
qed

lemma add_entries_ok:
  assumes "db_inv TYPE('e) C H db S css es0" and "int (db_runLen db) < MaxRun (db_ic db)"
    and "\<forall>e \<in> set es. wf_entry e" and "2 * length (es0 @ es) + 4 \<le> fuel"
  shows "\<exists>db' S' css'. add_entries C H (collect_emit :: ('e, object list) emit) fuel db es S = Some (Inr (db', S')) \<and>
     db_inv TYPE('e) C H db' S' css' (es0 @ es)"
  using assms
proof (induction es arbitrary: db S css es0)
  case (Cons e es)
  from AddEntry_ok [OF Cons.prems(1,2), of e fuel] Cons.prems(3,4)
  obtain db1 S1 css1 where "AddEntry C H (collect_emit :: ('e, object list) emit) fuel db e S = Some (Inr (db1, S1))"
    "db_inv TYPE('e) C H db1 S1 css1 (es0 @ [e])" "int (db_runLen db1) < MaxRun (db_ic db1)" by auto
  then show ?case using Cons.IH [of db1 S1 css1 "es0 @ [e]"] Cons.prems(3,4) by auto
qed auto

lemma Dir_Finish_ok:
  assumes "db_inv TYPE('e) C H db S css es" and "es \<noteq> []" and "4 * length es + 4 \<le> fuel"
  shows "\<exists>root S' sep. Dir_Finish C H (collect_emit :: ('e, object list) emit) fuel db S = Some (Inr (root, S')) \<and>
     dchild C H TYPE('e) S' root sep es"
proof -
  have fin: "\<exists>root S' sep. Index_Finish C H (collect_emit :: ('e, object list) emit) fuel (db_idx d) S0 = Some (Inr (root, S')) \<and>
      dchild C H TYPE('e) S' root sep es"
    if d: "db_inv TYPE('e) C H d S0 css0 es" "db_leaf d = []" "ib_levels (db_idx d) \<noteq> []" for d S0 css0
  proof -
    have c: "dready C H TYPE('e) (db_idx d) S0 css0" "dir_index.content css0 = es"
      "2 * dir_index.weight (db_idx d) + 2 \<le> fuel"
      using d(1,2) assms(3) by (auto simp: db_inv_def)
    show ?thesis using dir_index.Index_Finish_ok [OF c(1) d(3) c(3)] c(2) by blast
  qed
  show ?thesis
  proof (cases "db_leaf db = []")
    case False
    from closeLeaf_ok [OF assms(1) False, of fuel] assms(3)
    obtain db' S' css' where st: "closeLeaf C H (collect_emit :: ('e, object list) emit) fuel db S = Some (Inr (db', S'))"
      "db_inv TYPE('e) C H db' S' css' es" "db_leaf db' = []" "ib_levels (db_idx db') \<noteq> []" by auto
    then show ?thesis using fin [OF st(2-4)] False assms(1) by (auto simp: Dir_Finish_def db_inv_def)
  next
    case True
    have "ib_levels (db_idx db) \<noteq> []"
      using assms(1,2) True by (auto simp: db_inv_def dir_index.ready_def dir_index.inv_def dir_index.content_def)
    then show ?thesis using fin [OF assms(1) True] True assms(1)
      by (auto simp: Dir_Finish_def db_inv_def hasAny_def)
  qed
qed

text \<open>The empty directory is one empty leaf.\<close>

lemma build_dir_empty:
  assumes "chunker_ok ic" and "deps_ok C H" and "4 \<le> fuel"
  shows "\<exists>root obj. build_dir C H ic fuel [] = (Some (Inr (root, [obj])) :: ('e, object list, key) built) \<and>
     Obj_Key obj = root \<and> canonical root \<and> Key_Type root = DirLeaf \<and> UnmarshalEntries C (Obj_Bytes obj) = Some []"
proof -
  obtain k b where e: "EncodeDirLeaf C H [] = (Inr \<lparr>Obj_Key = k, Obj_Bytes = b\<rparr> :: 'e fs_err + object)"
    "canonical k" "Key_Type k = DirLeaf" "UnmarshalEntries C b = Some []"
    using EncodeDirLeaf_ok [OF assms(2), of "[]", where 'e = 'e] by (auto simp: MaxArrayElements_def)
  have "MarshalPair C \<lparr>SepName = [], ChildKey = k\<rparr> \<noteq> None"
    using assms(2) by (simp add: deps_ok_def cbor_ok_def)
  then obtain enc where enc: "MarshalPair C \<lparr>SepName = [], ChildKey = k\<rparr> = Some enc" by blast
  obtain f where f: "fuel = Suc (Suc f)" using assms(3) by (cases fuel; cases "fuel - 1") auto
  have nb: "\<not> IsBoundary H ic enc (Suc 0)" using assms(1) by (simp add: IsBoundary_def chunker_ok_def)
  have add: "AddChild C H (collect_emit :: ('e, object list) emit) fuel (newDirIndexBuilder ic) k [] [\<lparr>Obj_Key = k, Obj_Bytes = b\<rparr>] =
      Some (Inr (\<lparr>ib_ic = ic, ib_isDir = True, ib_levels = [\<lparr>lv_keys = [k], lv_seps = [[]], lv_runLen = 1\<rparr>]\<rparr>,
        [\<lparr>Obj_Key = k, Obj_Bytes = b\<rparr>]))"
    using enc nb by (simp add: AddChild_def f newDirIndexBuilder_def ib_ensure_def itemEnc_def Let_def emptyLevel_def)
  show ?thesis
    using e add
    by (auto simp: build_dir_def Dir_Finish_def NewDirBuilder_def hasAny_def newDirIndexBuilder_def
        closeLeaf_def Let_def collect_emit_eq [of "[]"] Index_Finish_def f)
qed

section \<open>Lemmas: the file builder\<close>

abbreviation fready :: "cbor \<Rightarrow> (bytes \<Rightarrow> bytes) \<Rightarrow> 'e itself \<Rightarrow> IndexBuilder \<Rightarrow> object list \<Rightarrow> bytes list list \<Rightarrow> bool" where
  "fready C H T \<equiv> index_tree.ready False (file_good C H) (file_tree C :: (key \<Rightarrow> 'e + bytes) \<Rightarrow> nat \<Rightarrow> key \<Rightarrow> bytes \<Rightarrow> bool)"

abbreviation fchild :: "cbor \<Rightarrow> (bytes \<Rightarrow> bytes) \<Rightarrow> 'e itself \<Rightarrow> object list \<Rightarrow> key \<Rightarrow> bytes \<Rightarrow> bytes \<Rightarrow> bool" where
  "fchild C H T \<equiv> index_tree.child (file_good C H) (file_tree C :: (key \<Rightarrow> 'e + bytes) \<Rightarrow> nat \<Rightarrow> key \<Rightarrow> bytes \<Rightarrow> bool)"

lemma blob_child:
  assumes "deps_ok C H"
  obtains obj where "EncodeBlob H c = (Inr obj :: 'e fs_err + object)"
    "fchild C H TYPE('e) (S @ [obj]) (Obj_Key obj) [] c"
proof -
  obtain k where e: "mk_object H Blob (of_nat (length c)) c = (Inr \<lparr>Obj_Key = k, Obj_Bytes = c\<rparr> :: 'e fs_err + object)"
    "canonical k" "Key_Type k = Blob" "Key_Length k = of_nat (length c)"
    by (rule mk_object_ok [of H Blob]) (use assms(1) in \<open>simp_all add: deps_ok_def\<close>)
  have "file_tree C get 1 k c" if "holds get (S @ [\<lparr>Obj_Key = k, Obj_Bytes = c\<rparr>])" for get :: "key \<Rightarrow> 'e + bytes"
    using e(3) that by (auto simp: holds_def intro: file_tree.blob)
  then have "fchild C H TYPE('e) (S @ [\<lparr>Obj_Key = k, Obj_Bytes = c\<rparr>]) k [] c"
    using assms(1) e(2,4) by (auto simp: file_index.child_def file_good_def intro!: exI [of _ 1])
  then show thesis using that [of "\<lparr>Obj_Key = k, Obj_Bytes = c\<rparr>"] e(1) by (simp add: EncodeBlob_def)
qed

lemma add_chunks_ok:
  assumes "fready C H TYPE('e) ib S css" and "deps_ok C H"
    and "file_index.weight ib + 2 * length cs + 2 \<le> fuel"
  shows "\<exists>ib' S' css'. add_chunks C H (collect_emit :: ('e, object list) emit) fuel ib cs S = Some (Inr (ib', S')) \<and>
     fready C H TYPE('e) ib' S' css' \<and> file_index.content css' = file_index.content css @ concat cs \<and>
     file_index.weight ib' \<le> file_index.weight ib + 2 * length cs \<and> (cs \<noteq> [] \<longrightarrow> ib_levels ib' \<noteq> [])"
  using assms
proof (induction cs arbitrary: ib S css)
  case (Cons c cs)
  obtain obj where enc: "EncodeBlob H c = (Inr obj :: 'e fs_err + object)"
    and ch: "fchild C H TYPE('e) (S @ [obj]) (Obj_Key obj) [] c"
    using blob_child [OF Cons.prems(2), where 'e = 'e] by metis
  obtain ib1 S1 css1 where
    st: "AddChild C H (collect_emit :: ('e, object list) emit) fuel ib (Obj_Key obj) [] (S @ [obj]) = Some (Inr (ib1, S1))"
    and r: "fready C H TYPE('e) ib1 S1 css1" "file_index.content css1 = file_index.content css @ c"
      "ib_levels ib1 \<noteq> []" "file_index.weight ib1 \<le> file_index.weight ib + 2"
    using file_index.AddChild_ok [OF Cons.prems(1) _ ch, of fuel] Cons.prems(3) by auto
  obtain ib2 S2 css2 where
    "add_chunks C H (collect_emit :: ('e, object list) emit) fuel ib1 cs S1 = Some (Inr (ib2, S2))"
    "fready C H TYPE('e) ib2 S2 css2" "file_index.content css2 = file_index.content css1 @ concat cs"
    "file_index.weight ib2 \<le> file_index.weight ib1 + 2 * length cs" "cs \<noteq> [] \<longrightarrow> ib_levels ib2 \<noteq> []"
    using Cons.IH [OF r(1) Cons.prems(2)] r(4) Cons.prems(3) by auto
  then show ?case
    using enc st r by (cases cs) (auto simp: collect_emit_eq [of S obj])
qed auto

section \<open>A concrete codec\<close>

text \<open>A self-delimiting codec that meets \<open>cbor_ok\<close>: every byte is preceded by a one, and a
  zero ends a string or a list.\<close>

definition frame :: "bytes \<Rightarrow> bytes" where
  "frame s = concat (map (\<lambda>b. [1, b]) s) @ [0]"

fun unframe :: "bytes \<Rightarrow> (bytes \<times> bytes) option" where
  "unframe [] = None"
| "unframe (t # r) =
     (if t = 0 then Some ([], r)
      else case r of [] \<Rightarrow> None | b # r' \<Rightarrow> map_option (\<lambda>(s, q). (b # s, q)) (unframe r'))"

definition frames :: "bytes list \<Rightarrow> bytes" where
  "frames xs = concat (map (\<lambda>x. 1 # frame x) xs) @ [0]"

fun unframes :: "nat \<Rightarrow> bytes \<Rightarrow> bytes list option" where
  "unframes 0 b = None"
| "unframes (Suc n) b =
     (case b of
        [] \<Rightarrow> None
      | t # r \<Rightarrow>
          if t = 0 then Some []
          else (case unframe r of None \<Rightarrow> None | Some (x, q) \<Rightarrow> map_option ((#) x) (unframes n q)))"

definition parse_frames :: "bytes \<Rightarrow> bytes list option" where
  "parse_frames b = unframes (length b) b"

definition entry_fields :: "Entry \<Rightarrow> bytes list" where
  "entry_fields e =
     [Ent_Name e, PutUint64 (Ent_Mode e), PutUint64 (Ent_UID e), PutUint64 (Ent_GID e), PutUint64 (Ent_Mtime e),
      Ent_ContentKey e, Ent_LinkTarget e, frames (map PutUint64 (Ent_Rdev e)), Ent_XattrsIn e, Ent_XattrsKey e]"

definition fields_entry :: "bytes list \<Rightarrow> Entry" where
  "fields_entry fs =
     \<lparr>Ent_Name = fs ! 0, Ent_Mode = Uint64 (fs ! 1), Ent_UID = Uint64 (fs ! 2), Ent_GID = Uint64 (fs ! 3),
      Ent_Mtime = Uint64 (fs ! 4), Ent_ContentKey = fs ! 5, Ent_LinkTarget = fs ! 6,
      Ent_Rdev = map Uint64 (the (parse_frames (fs ! 7))), Ent_XattrsIn = fs ! 8, Ent_XattrsKey = fs ! 9\<rparr>"

definition frame_cbor :: cbor where
  "frame_cbor =
     \<lparr>MarshalKeys = (\<lambda>ks. Some (frames ks)), UnmarshalKeys = parse_frames,
      MarshalEntries = (\<lambda>es. Some (frames (map (\<lambda>e. frames (entry_fields e)) es))),
      UnmarshalEntries = (\<lambda>b. map_option (map (\<lambda>x. fields_entry (the (parse_frames x)))) (parse_frames b)),
      MarshalPairs = (\<lambda>ps. Some (frames (map (\<lambda>p. frames [SepName p, ChildKey p]) ps))),
      UnmarshalPairs = (\<lambda>b. map_option (map (\<lambda>x. let fs = the (parse_frames x) in
                              \<lparr>SepName = fs ! 0, ChildKey = fs ! 1\<rparr>)) (parse_frames b)),
      MarshalEntry = (\<lambda>e. Some (frames (entry_fields e))),
      MarshalPair = (\<lambda>p. Some (frames [SepName p, ChildKey p]))\<rparr>"

definition pad_hash :: "bytes \<Rightarrow> bytes" where
  "pad_hash b = take 32 (b @ replicate 32 0)"

lemma unframe_frame: "unframe (frame s @ q) = Some (s, q)"
  by (induction s) (auto simp: frame_def)

lemma unframes_frames: "length xs < n \<Longrightarrow> unframes n (frames xs) = Some xs"
proof (induction xs arbitrary: n)
  case Nil
  then show ?case by (cases n) (auto simp: frames_def)
next
  case (Cons x xs)
  obtain m where m: "n = Suc m" "length xs < m" using Cons.prems by (cases n) auto
  have "frames (x # xs) = 1 # frame x @ frames xs" by (simp add: frames_def)
  then show ?case using m Cons.IH [OF m(2)] by (simp add: unframe_frame)
qed

lemma frames_length: "length xs < length (frames xs)"
  by (induction xs) (auto simp: frames_def)

lemma parse_frames_frames [simp]: "parse_frames (frames xs) = Some xs"
  by (simp add: parse_frames_def unframes_frames frames_length)

lemma fields_entry_fields [simp]: "fields_entry (entry_fields e) = e"
  by (simp add: fields_entry_def entry_fields_def comp_def)

lemma frame_cbor_ok: "cbor_ok frame_cbor"
proof -
  have "\<lparr>SepName = SepName p, ChildKey = ChildKey p\<rparr> = p" for p :: DirPair by simp
  then show ?thesis by (simp add: cbor_ok_def frame_cbor_def comp_def Let_def map_idI)
qed

lemma pad_hash_ok: "digest_ok pad_hash"
  by (auto simp: digest_ok_def pad_hash_def min_def)

lemma frame_deps_ok: "deps_ok frame_cbor pad_hash"
  by (simp add: deps_ok_def frame_cbor_ok pad_hash_ok)

lemma default_chunker_ok: "nbits \<le> 15 \<Longrightarrow> chunker_ok (NewItemChunker nbits)"
proof -
  assume b: "nbits \<le> 15"
  then have "(2::int) ^ nbits \<le> 2 ^ 15" by (intro power_increasing) auto
  then show ?thesis using NewItemChunker_bounds [of nbits] b by (simp add: chunker_ok_def MaxArrayElements_def)
qed

section \<open>Lemmas: whole builds\<close>

lemma build_dir_tree:
  assumes "deps_ok C H" and "chunker_ok ic" and "\<forall>e \<in> set es. wf_entry e" and "4 * length es + 4 \<le> fuel"
  shows "\<exists>root objs. build_dir C H ic fuel es = (Some (Inr (root, objs)) :: ('e, object list, key) built) \<and> canonical root \<and>
     (\<exists>h. \<forall>get :: key \<Rightarrow> 'e + bytes. holds get objs \<longrightarrow> dir_tree C get h root es)"
proof (cases "es = []")
  case True
  obtain root obj where b: "build_dir C H ic fuel [] = (Some (Inr (root, [obj])) :: ('e, object list, key) built)"
    "Obj_Key obj = root" "canonical root" "Key_Type root = DirLeaf" "UnmarshalEntries C (Obj_Bytes obj) = Some []"
    using build_dir_empty [OF assms(2,1), of fuel, where 'e = 'e] assms(4) by auto
  have "dir_tree C get 1 root []" if "holds get [obj]" for get :: "key \<Rightarrow> 'e + bytes"
    using b that by (auto simp: holds_def intro: dir_tree.leaf)
  then show ?thesis using b True by blast
next
  case False
  have "int (db_runLen (NewDirBuilder ic)) < MaxRun (db_ic (NewDirBuilder ic))"
    using assms(2) by (simp add: NewDirBuilder_def chunker_ok_def)
  from add_entries_ok [OF db_inv_new [OF assms(2,1), where S = "[]"] this assms(3), of fuel, where 'e = 'e]
  obtain db S css where "add_entries C H (collect_emit :: ('e, object list) emit) fuel (NewDirBuilder ic) es [] = Some (Inr (db, S))"
    and inv: "db_inv TYPE('e) C H db S css es"
    using assms(4) by auto
  moreover obtain root S' sep where
    "Dir_Finish C H (collect_emit :: ('e, object list) emit) fuel db S = Some (Inr (root, S'))"
    "dchild C H TYPE('e) S' root sep es"
    using Dir_Finish_ok [OF inv False assms(4)] by blast
  ultimately show ?thesis by (auto simp: build_dir_def dir_index.child_def dir_good_def)
qed

lemma build_file_tree:
  assumes "deps_ok C H" and "chunker_ok ic" and "4 * length cs + 4 \<le> fuel" and "cs \<noteq> []"
  shows "\<exists>root objs. build_file C H ic fuel cs = (Some (Inr (root, objs)) :: ('e, object list, key) built) \<and>
     canonical root \<and> Key_Length root = of_nat (length (concat cs)) \<and>
     (\<exists>h. \<forall>get :: key \<Rightarrow> 'e + bytes. holds get objs \<longrightarrow> file_tree C get h root (concat cs))"
proof -
  have rn: "fready C H TYPE('e) (NewFileIndexBuilder ic) [] []" "file_index.weight (NewFileIndexBuilder ic) = 0"
    using file_index.ready_new(1) [OF assms(2)] file_index.ready_new(2) by (simp_all add: NewFileIndexBuilder_def)
  from add_chunks_ok [OF rn(1) assms(1), of cs fuel] rn(2) assms(3,4)
  obtain ib S css where st: "add_chunks C H (collect_emit :: ('e, object list) emit) fuel (NewFileIndexBuilder ic) cs [] = Some (Inr (ib, S))"
    and r: "fready C H TYPE('e) ib S css" "file_index.content css = concat cs"
      "file_index.weight ib \<le> 2 * length cs" "ib_levels ib \<noteq> []"
    by (auto simp: file_index.content_def)
  moreover obtain root S' sep where
    "Index_Finish C H (collect_emit :: ('e, object list) emit) fuel ib S = Some (Inr (root, S'))"
    "fchild C H TYPE('e) S' root sep (concat cs)"
    using file_index.Index_Finish_ok [OF r(1,4), of fuel] r(2,3) assms(3) by auto
  ultimately show ?thesis by (auto simp: build_file_def file_index.child_def file_good_def)
qed

section \<open>Properties\<close>

text \<open>C17: building a directory from any strictly sorted entries returns a root, and in every
  store that holds the emitted objects the root lists exactly those entries, every
  name is found or reported missing, and every page is the right cut of the listing.\<close>

theorem dir_build_readback:
  assumes "deps_ok C H" and "chunker_ok ic" and "\<forall>e \<in> set es. wf_entry e" and "names_sorted es"
    and "4 * length es + 4 \<le> fuel"
  shows "\<exists>root objs. build_dir C H ic fuel es = (Some (Inr (root, objs)) :: ('e, object list, key) built) \<and>
     canonical root \<and>
     (\<forall>get :: key \<Rightarrow> 'e + bytes. holds get objs \<longrightarrow>
        (\<exists>h. \<forall>n \<ge> h. CollectEntries C get n root = Some (Inr es) \<and>
           (\<forall>name. LookupEntry C get n root name = Some (lookup_result name es)) \<and>
           (\<forall>after limit. 0 < limit \<longrightarrow> ListEntries C get n root after limit =
              Some (Inr (take (nat limit) (after_entries after es), nat limit < length (after_entries after es))))))"
proof -
  have reads: "\<forall>n \<ge> h. CollectEntries C get n root = Some (Inr es) \<and>
      (\<forall>name. LookupEntry C get n root name = Some (lookup_result name es)) \<and>
      (\<forall>after limit. 0 < limit \<longrightarrow> ListEntries C get n root after limit =
         Some (Inr (take (nat limit) (after_entries after es), nat limit < length (after_entries after es))))"
    if t: "dir_tree C get h root es" for get :: "key \<Rightarrow> 'e + bytes" and h root
    using collectEntries_tree [OF t, of "[]"] LookupEntry_tree [OF t assms(4)] listInto_tree [OF t assms(4), of _ "[]"] assms(4)
    by (simp add: CollectEntries_def ListEntries_def page_of_def)
  have "\<exists>root objs. build_dir C H ic fuel es = (Some (Inr (root, objs)) :: ('e, object list, key) built) \<and> canonical root \<and>
      (\<exists>h. \<forall>get :: key \<Rightarrow> 'e + bytes. holds get objs \<longrightarrow> dir_tree C get h root es)"
    using build_dir_tree [OF assms(1-3,5)] .
  then show ?thesis using reads by meson
qed

theorem dir_build_readback_witness:
  "\<exists>root objs. build_dir frame_cbor pad_hash (NewItemChunker 1) 8
       [\<lparr>Ent_Name = [97], Ent_Mode = 0x81A4, Ent_UID = 0, Ent_GID = 0, Ent_Mtime = 0, Ent_ContentKey = [],
         Ent_LinkTarget = [], Ent_Rdev = [], Ent_XattrsIn = [], Ent_XattrsKey = []\<rparr>] =
     (Some (Inr (root, objs)) :: (unit, object list, key) built) \<and> canonical root"
  using dir_build_readback [OF frame_deps_ok default_chunker_ok [of 1],
      of "[\<lparr>Ent_Name = [97], Ent_Mode = 0x81A4, Ent_UID = 0, Ent_GID = 0, Ent_Mtime = 0, Ent_ContentKey = [],
         Ent_LinkTarget = [], Ent_Rdev = [], Ent_XattrsIn = [], Ent_XattrsKey = []\<rparr>]" 8, where 'e = unit]
  by (auto simp: wf_entry_def Size_def)

text \<open>C18: building a file from its chunks returns a root whose length field is the content
  length (modulo 2^64), and from every store that holds the emitted objects reading the
  root writes the chunks back in order; without any chunk it fails with \<open>ErrNoChildren\<close>.\<close>

theorem file_build_readback:
  assumes "deps_ok C H" and "chunker_ok ic" and "4 * length cs + 4 \<le> fuel"
  shows "if cs = [] then build_file C H ic fuel cs = (Some (Inl ErrNoChildren) :: ('e, object list, key) built)
     else \<exists>root objs. build_file C H ic fuel cs = (Some (Inr (root, objs)) :: ('e, object list, key) built) \<and>
        canonical root \<and> Key_Length root = of_nat (length (concat cs)) \<and>
        (\<forall>get :: key \<Rightarrow> 'e + bytes. holds get objs \<longrightarrow>
           (\<exists>h. \<forall>n \<ge> h. \<forall>w. WriteContent C append_writer get n w root = Some (Inr (w @ concat cs))))"
proof (cases "cs = []")
  case True
  have "fuel \<noteq> 0" using assms(3) by simp
  then show ?thesis
    using True by (cases fuel) (simp_all add: build_file_def Index_Finish_def NewFileIndexBuilder_def)
next
  case False
  obtain root objs h where b: "build_file C H ic fuel cs = (Some (Inr (root, objs)) :: ('e, object list, key) built)"
    "canonical root" "Key_Length root = of_nat (length (concat cs))"
    and t: "\<And>get :: key \<Rightarrow> 'e + bytes. holds get objs \<Longrightarrow> file_tree C get h root (concat cs)"
    using build_file_tree [OF assms False, where 'e = 'e] by blast
  have "\<forall>n \<ge> h. \<forall>w. WriteContent C append_writer get n w root = Some (Inr (w @ concat cs))"
    if "holds get objs" for get :: "key \<Rightarrow> 'e + bytes"
    using WriteContent_tree [OF t [OF that]] by blast
  then show ?thesis unfolding if_not_P [OF False] using b by blast
qed

theorem file_build_readback_witness:
  "\<exists>root objs. build_file frame_cbor pad_hash (NewItemChunker 1) 20 [[1, 2], [3], [4]] =
     (Some (Inr (root, objs)) :: (unit, object list, key) built) \<and>
     canonical root \<and> Key_Length root = of_nat (length (concat [[1, 2], [3], [4 :: byte]])) \<and>
     (\<forall>get :: key \<Rightarrow> unit + bytes. holds get objs \<longrightarrow>
        (\<exists>h. \<forall>n \<ge> h. \<forall>w. WriteContent frame_cbor append_writer get n w root = Some (Inr (w @ concat [[1, 2], [3], [4]]))))"
proof -
  have "[[1, 2], [3], [4 :: byte]] \<noteq> []" by simp
  then show ?thesis
    using file_build_readback [OF frame_deps_ok default_chunker_ok [of 1], of "[[1, 2], [3], [4]]" 20, where 'e = unit]
    by (simp only: if_not_P) simp
qed

section \<open>Lemmas: path resolution\<close>

lemma LookupEntry_name: "LookupEntry C get fuel k name = Some (Inr e) \<Longrightarrow> Ent_Name e = name"
  by (induction fuel arbitrary: k) (auto simp: Let_def split: sum.splits if_splits)

text \<open>The directory key an entry stands for.\<close>

definition entry_dir :: "key \<Rightarrow> Entry option \<Rightarrow> 'e fs_err + key" where
  "entry_dir dir cur =
     (case cur of
        None \<Rightarrow> Inr dir
      | Some c \<Rightarrow>
          if Ent_Mode c AND S_IFMT \<noteq> S_IFDIR then Inl (ErrNotDir (Ent_Name c))
          else (case Parse (Ent_ContentKey c) of
                  Inl e \<Rightarrow> Inl (ErrContentKey (Ent_Name c) e) | Inr ck \<Rightarrow> Inr ck))"

lemma resolve_entry_unfold:
  "resolve_entry C get fuel path dir cur (cpt # cpts) =
     (if cpt = [] \<or> cpt = [0x2E] then resolve_entry C get fuel path dir cur cpts
      else if cpt = [0x2E, 0x2E] then Some (Inl (ErrDotDot path))
      else case entry_dir dir cur of
             Inl e \<Rightarrow> Some (Inl e)
           | Inr d \<Rightarrow>
               (case LookupEntry C get fuel d cpt of
                  None \<Rightarrow> None
                | Some (Inl e) \<Rightarrow> Some (Inl e)
                | Some (Inr ent) \<Rightarrow> resolve_entry C get fuel path d (Some ent) cpts))"
  by (simp add: entry_dir_def)

lemma resolve_path_unfold:
  "resolve_path C get fuel path k (cpt # cpts) =
     (if cpt = [] \<or> cpt = [0x2E] then resolve_path C get fuel path k cpts
      else if cpt = [0x2E, 0x2E] then Some (Inl (ErrDotDot path))
      else (case LookupEntry C get fuel k cpt of
              None \<Rightarrow> None
            | Some (Inl e) \<Rightarrow> Some (Inl e)
            | Some (Inr found) \<Rightarrow>
                (case entry_dir k (Some found) of
                   Inl e \<Rightarrow> Some (Inl e) | Inr ck \<Rightarrow> resolve_path C get fuel path ck cpts)))"
  by (auto simp: entry_dir_def dest: LookupEntry_name split: option.splits sum.splits)

lemma resolve_bad_dir:
  assumes "entry_dir dir cur = (Inl err :: 'e fs_err + key)"
    and "resolve_entry C (get :: key \<Rightarrow> 'e + bytes) fuel path dir cur cpts = Some (Inr cur')"
  shows "cur' = cur"
  using assms by (induction cpts) (auto simp: resolve_entry_unfold simp del: resolve_entry.simps(2) split: if_splits)

lemma resolve_agree:
  assumes "entry_dir dir cur = (Inr k :: 'e fs_err + key)"
    and "resolve_entry C (get :: key \<Rightarrow> 'e + bytes) fuel path dir cur cpts = Some (Inr cur')"
  shows "resolve_path C get fuel path k cpts = Some (if cur' = None then Inr k else entry_dir k cur') \<and>
     (cur' = None \<longrightarrow> cur = None) \<or>
     cur' = cur \<and> resolve_path C get fuel path k cpts = Some (Inr k)"
  using assms
proof (induction cpts arbitrary: dir cur k)
  case (Cons cpt cpts)
  show ?case
  proof (cases "cpt = [] \<or> cpt = [0x2E]")
    case True
    then show ?thesis using Cons by (simp only: resolve_entry_unfold resolve_path_unfold if_True)
  next
    case False
    have dd: "cpt \<noteq> [0x2E, 0x2E]" using Cons.prems(2) False by (auto simp: resolve_entry_unfold simp del: resolve_entry.simps(2))
    then obtain ent where l: "LookupEntry C get fuel k cpt = Some (Inr ent)"
      and r: "resolve_entry C get fuel path k (Some ent) cpts = Some (Inr cur')"
      using Cons.prems False
      by (auto simp: resolve_entry_unfold simp del: resolve_entry.simps(2) split: option.splits sum.splits)
    have step: "resolve_path C get fuel path k (cpt # cpts) =
        (case entry_dir k (Some ent) of Inl e \<Rightarrow> Some (Inl e) | Inr ck \<Rightarrow> resolve_path C get fuel path ck cpts)"
      using False dd l by (simp add: resolve_path_unfold del: resolve_path.simps(2))
    have indep: "entry_dir d (Some c) = (entry_dir d' (Some c) :: 'e fs_err + key)" for d d' c by (simp add: entry_dir_def)
    show ?thesis
    proof (cases "entry_dir k (Some ent) :: 'e fs_err + key")
      case (Inl err)
      have "cur' = Some ent" by (rule resolve_bad_dir [OF Inl r])
      then show ?thesis using step Inl by simp
    next
      case (Inr ck)
      have "cur' \<noteq> None \<and> resolve_path C get fuel path ck cpts = Some (entry_dir k cur')"
        using Cons.IH [OF Inr r] Inr indep [of ck _ k] by (cases cur') auto
      then show ?thesis using step Inr by (auto simp del: resolve_path.simps(2))
    qed
  qed
qed auto

section \<open>Properties of reading\<close>

text \<open>C37: whatever \<open>CollectEntries\<close> returns, on any store, is strictly sorted by name, so a
  repeated child cannot multiply entries.\<close>

theorem collect_strictly_sorted:
  assumes "CollectEntries C get fuel k = Some (Inr es)"
  shows "names_sorted es"
  using collectEntries_sorted [of C get fuel "[]" k es] assms by (simp add: CollectEntries_def)

text \<open>A store with one empty directory.\<close>

definition empty_dir_key :: key where
  "empty_dir_key = 0x20 # 1 # 0 # replicate 29 0"

definition empty_dir_get :: "key \<Rightarrow> unit + bytes" where
  "empty_dir_get k = (if k = empty_dir_key then Inr [0] else Inl ())"

lemma empty_dir_tree: "dir_tree frame_cbor empty_dir_get 1 empty_dir_key []"
proof -
  have "Key_Type empty_dir_key = DirLeaf" by code_simp
  moreover have "empty_dir_get empty_dir_key = Inr [0]" by (simp add: empty_dir_get_def)
  moreover have "UnmarshalEntries frame_cbor [0] = Some []" by code_simp
  ultimately show ?thesis by (auto intro: dir_tree.leaf)
qed

theorem collect_strictly_sorted_witness: "CollectEntries frame_cbor empty_dir_get 1 empty_dir_key = Some (Inr []) \<and> names_sorted []"
proof -
  have "CollectEntries frame_cbor empty_dir_get 1 empty_dir_key = Some (Inr [])"
    using collectEntries_tree [OF empty_dir_tree, of "[]" 1] by (simp add: CollectEntries_def)
  then show ?thesis using collect_strictly_sorted by blast
qed



section \<open>Properties of walking\<close>

text \<open>C24: on a store with finitely many objects \<open>ReachableKeys\<close> ends; it returns the root first
  and every key reachable through child keys exactly once, unless some reachable object
  cannot be read or decoded, and then it returns an error.\<close>

theorem reachable_keys_exact:
  assumes "finite {k. \<exists>d. get k = Inr d}"
  shows "\<exists>n. \<forall>fuel \<ge> n.
     if \<forall>k \<in> reach (expand_get C get) root. \<exists>cs. expand_get C get k = Inr cs
     then \<exists>ks. ReachableKeys C get fuel root = Some (Inr ks) \<and> distinct ks \<and> hd ks = root \<and>
            set ks = reach (expand_get C get) root
     else \<exists>e. ReachableKeys C get fuel root = Some (Inl e)"
proof -
  have "\<exists>d. get a = Inr d" if "expand_get C get a = Inr cs" "cs \<noteq> []" for a cs
    using that by (cases "get a") (auto simp: expand_get_def split: if_splits)
  then have "{a. \<exists>cs. expand_get C get a = Inr cs \<and> cs \<noteq> []} \<subseteq> {k. \<exists>d. get k = Inr d}" by blast
  then have fin: "finite (reach (expand_get C get) root)"
    using assms by (intro reach_finite) (rule finite_subset)
  show ?thesis unfolding ReachableKeys_def using bfs_walk [OF fin] by blast
qed

theorem reachable_keys_exact_witness:
  "\<exists>n. \<forall>fuel \<ge> n.
     if \<forall>k \<in> reach (expand_get frame_cbor empty_dir_get) empty_dir_key. \<exists>cs. expand_get frame_cbor empty_dir_get k = Inr cs
     then \<exists>ks. ReachableKeys frame_cbor empty_dir_get fuel empty_dir_key = Some (Inr ks) \<and> distinct ks \<and>
            hd ks = empty_dir_key \<and> set ks = reach (expand_get frame_cbor empty_dir_get) empty_dir_key
     else \<exists>e. ReachableKeys frame_cbor empty_dir_get fuel empty_dir_key = Some (Inl e)"
  by (rule reachable_keys_exact) (simp add: empty_dir_get_def)

text \<open>C23: \<open>CheckComplete\<close> succeeds exactly when everything reachable from the root is there:
  every inner object can be read and decoded and every leaf is present. It then returns
  each reachable key once, the root first.\<close>

theorem check_complete_iff:
  assumes "finite {k. \<exists>d. get k = Inr d}"
  shows "\<exists>n. \<forall>fuel \<ge> n.
     if \<forall>k \<in> reach (expand_check C get has) root.
          (if is_leaf_key k then has k = Inr True else \<exists>d cs. get k = Inr d \<and> (ChildKeys C k d :: 'e fs_err + key list) = Inr cs)
     then \<exists>ks. CheckComplete C get (has :: key \<Rightarrow> 'e + bool) fuel root = Some (Inr ks) \<and> distinct ks \<and> hd ks = root \<and>
            set ks = reach (expand_check C get has) root
     else \<exists>e. CheckComplete C get has fuel root = Some (Inl e)"
proof -
  have ok: "(\<exists>cs. expand_check C get has k = Inr cs) \<longleftrightarrow>
      (if is_leaf_key k then has k = Inr True else \<exists>d cs. get k = Inr d \<and> (ChildKeys C k d :: 'e fs_err + key list) = Inr cs)" for k
    by (cases "get k"; cases "has k"; simp add: expand_check_def)
  have "\<exists>d. get a = Inr d" if "expand_check C get has a = Inr cs" "cs \<noteq> []" for a cs
    using that by (cases "get a"; cases "has a") (auto simp: expand_check_def split: if_splits)
  then have "{a. \<exists>cs. expand_check C get has a = Inr cs \<and> cs \<noteq> []} \<subseteq> {k. \<exists>d. get k = Inr d}" by blast
  then have fin: "finite (reach (expand_check C get has) root)"
    using assms by (intro reach_finite) (rule finite_subset)
  show ?thesis unfolding CheckComplete_def ok [symmetric] using bfs_walk [OF fin] by blast
qed

theorem check_complete_iff_witness:
  "\<exists>n. \<forall>fuel \<ge> n.
     if \<forall>k \<in> reach (expand_check frame_cbor empty_dir_get (\<lambda>k. Inr False)) empty_dir_key.
          (if is_leaf_key k then (Inr False :: unit + bool) = Inr True
           else \<exists>d cs. empty_dir_get k = Inr d \<and> (ChildKeys frame_cbor k d :: unit fs_err + key list) = Inr cs)
     then \<exists>ks. CheckComplete frame_cbor empty_dir_get (\<lambda>k. Inr False) fuel empty_dir_key = Some (Inr ks) \<and> distinct ks \<and>
            hd ks = empty_dir_key \<and> set ks = reach (expand_check frame_cbor empty_dir_get (\<lambda>k. Inr False)) empty_dir_key
     else \<exists>e. CheckComplete frame_cbor empty_dir_get (\<lambda>k. Inr False) fuel empty_dir_key = Some (Inl e)"
  by (rule check_complete_iff) (simp add: empty_dir_get_def)

end
