(* ===== verification/Amber_Footer.thy ===== *)
theory Amber_Footer
  imports Amber_Pack
begin

text \<open>
  Package \<open>packstore\<close>, sealed segments (footer.go, segment.go): the footer of a sealed
  segment (fanout index on the last key byte, binary fuse filter, trailer), its parser,
  and the reads through it. The xor-filter package is third-party: \<open>xorfilter\<close> has its
  constructor and its membership test, and \<open>fuse_ok\<close> states its documented properties.
  Mapping a file into memory is having its bytes.
\<close>

section \<open>Format constants\<close>

definition tagSeal :: byte where "tagSeal = 0xF0"
definition magicHeader :: bytes where "magicHeader = [0x41, 0x4D, 0x42, 0x45, 0x52, 0x53, 0x47, 0x01]"
definition magicTrailer :: bytes where "magicTrailer = [0x41, 0x4D, 0x42, 0x45, 0x52, 0x53, 0x47, 0x46]"

definition fanoutSize :: nat where "fanoutSize = 1024"
definition indexEntrySize :: nat where "indexEntrySize = 44"
definition trailerSize :: nat where "trailerSize = 64"
definition filterHeaderSize :: nat where "filterHeaderSize = 29"
definition filterTypeBinaryFuse16 :: byte where "filterTypeBinaryFuse16 = 1"

lemmas footer_consts = fanoutSize_def indexEntrySize_def trailerSize_def filterHeaderSize_def

section \<open>The index section\<close>

record indexEntry =
  ie_k :: key
  ie_off :: u64
  ie_slen :: u32

definition compareEntries :: "indexEntry \<Rightarrow> indexEntry \<Rightarrow> int" where
  "compareEntries a b =
     (let x = ie_k a ! (Size - 1); y = ie_k b ! (Size - 1) in
      if x < y then -1 else if y < x then 1 else bytes_Compare (ie_k a) (ie_k b))"

definition last_counts :: "indexEntry list \<Rightarrow> u32 list" where
  "last_counts es = map (\<lambda>b. of_nat (length (filter (\<lambda>e. unat (ie_k e ! (Size - 1)) = b) es))) [0..<256]"

primrec run_cum :: "u32 \<Rightarrow> u32 list \<Rightarrow> u32 list" where
  "run_cum cum [] = []"
| "run_cum cum (c # cs) = (cum + c) # run_cum (cum + c) cs"

definition entry_row :: "indexEntry \<Rightarrow> bytes" where
  "entry_row e = ie_k e @ PutUint64 (ie_off e) @ PutUint32 (ie_slen e)"

definition buildIndexSection :: "indexEntry list \<Rightarrow> bytes" where
  "buildIndexSection entries =
     (let es = SortFunc compareEntries entries
      in concat (map PutUint32 (run_cum 0 (last_counts es))) @ concat (map entry_row es))"

fun monotonic :: "u32 \<Rightarrow> u32 list \<Rightarrow> bool" where
  "monotonic prev [] = True"
| "monotonic prev (f # fs) = (if f < prev then False else monotonic f fs)"

definition parseIndexSection :: "bytes \<Rightarrow> u64 \<Rightarrow> pack_err + u32 list \<times> bytes" where
  "parseIndexSection b keyCount =
     (if keyCount > 0xFFFFFFFF then Inl (ErrCorrupt ''key count exceeds format limit'')
      else let want = of_nat fanoutSize + keyCount * of_nat indexEntrySize in
      if (of_nat (length b) :: u64) \<noteq> want then Inl (ErrCorrupt ''index section length'')
      else let fanout = map (\<lambda>i. Uint32 (drop (i * 4) b)) [0..<256] in
      if \<not> monotonic 0 fanout then Inl (ErrCorrupt ''fanout not monotonic'')
      else if (ucast (fanout ! 255) :: u64) \<noteq> keyCount then Inl (ErrCorrupt ''fanout total'')
      else Inr (fanout, drop fanoutSize b))"

definition searchIndexPos :: "u32 list \<Rightarrow> bytes \<Rightarrow> key \<Rightarrow> nat option" where
  "searchIndexPos fanout entries k =
     (let b = unat (k ! (Size - 1));
          lo = (if b > 0 then fanout ! (b - 1) else 0);
          n = unat (fanout ! b - lo);
          i = sort_Search n (\<lambda>i. bytes_Compare (take 32 (drop ((unat lo + i) * indexEntrySize) entries)) k \<ge> 0)
      in if i \<ge> n then None
         else let pos = unat lo + i in
              if take 32 (drop (pos * indexEntrySize) entries) \<noteq> k then None else Some pos)"

definition searchIndex :: "u32 list \<Rightarrow> bytes \<Rightarrow> key \<Rightarrow> (u64 \<times> u32) option" where
  "searchIndex fanout entries k =
     (case searchIndexPos fanout entries k of
        None \<Rightarrow> None
      | Some pos \<Rightarrow>
          let e = drop (pos * indexEntrySize) entries
          in Some (Uint64 (slice 32 40 e), Uint32 (slice 40 44 e)))"

section \<open>The filter section\<close>

record fuse =
  Seed :: u64
  SegmentLength :: u32
  SegmentLengthMask :: u32
  SegmentCount :: u32
  SegmentCountLength :: u32
  Fingerprints :: "u16 list"

record xorfilter =
  NewBinaryFuse :: "u64 list \<Rightarrow> fuse option"
  Contains :: "fuse \<Rightarrow> u64 \<Rightarrow> bool"

definition filterKey :: "key \<Rightarrow> u64" where
  "filterKey k = Uint64 (drop (Size - 8) k)"

definition filter_bytes :: "fuse \<Rightarrow> bytes" where
  "filter_bytes f =
     filterTypeBinaryFuse16 # PutUint64 (Seed f) @ PutUint32 (SegmentLength f) @ PutUint32 (SegmentLengthMask f) @
     PutUint32 (SegmentCount f) @ PutUint32 (SegmentCountLength f) @ PutUint32 (of_nat (length (Fingerprints f))) @
     concat (map PutUint16 (Fingerprints f))"

definition buildFilterSection :: "xorfilter \<Rightarrow> indexEntry list \<Rightarrow> string + bytes" where
  "buildFilterSection X entries =
     (let tails = remdups_adj (sort (map (\<lambda>e. filterKey (ie_k e)) entries)) in
      case NewBinaryFuse X tails of
        None \<Rightarrow> Inl ''building fuse filter''
      | Some f \<Rightarrow> Inr (filter_bytes f))"

definition parseFilterSection :: "bytes \<Rightarrow> pack_err + fuse" where
  "parseFilterSection b =
     (if length b < filterHeaderSize then Inl (ErrCorrupt ''filter section too short'')
      else if b ! 0 \<noteq> filterTypeBinaryFuse16 then Inl (ErrCorrupt ''unknown filter type'')
      else let fpCount = Uint32 (slice 25 29 b) in
      if (of_nat (length b) :: u64) \<noteq> of_nat filterHeaderSize + 2 * ucast fpCount
      then Inl (ErrCorrupt ''filter section length'')
      else let segLen = Uint32 (slice 9 13 b); segLenMask = Uint32 (slice 13 17 b);
               segCount = Uint32 (slice 17 21 b); segCountLen = Uint32 (slice 21 25 b) in
      if segCount = 0 then Inl (ErrCorrupt ''filter segment count is zero'')
      else if segLen = 0 \<or> segLen AND (segLen - 1) \<noteq> 0 \<or> segLenMask \<noteq> segLen - 1 \<or>
              (ucast segCountLen :: u64) \<noteq> ucast segCount * ucast segLen \<or>
              (ucast fpCount :: u64) \<noteq> ucast segCountLen + 2 * ucast segLen
      then Inl (ErrCorrupt ''filter geometry invalid'')
      else Inr \<lparr>Seed = Uint64 (slice 1 9 b), SegmentLength = segLen, SegmentLengthMask = segLenMask,
                SegmentCount = segCount, SegmentCountLength = segCountLen,
                Fingerprints = map (\<lambda>i. Uint16 (drop (filterHeaderSize + 2 * i) b)) [0..<unat fpCount]\<rparr>)"

section \<open>The footer\<close>

definition trailer_fields :: "u64 \<Rightarrow> nat \<Rightarrow> nat \<Rightarrow> nat \<Rightarrow> bytes" where
  "trailer_fields bodyLen idxLen filtLen keyCount =
     (let indexOff = bodyLen + 1 in
      PutUint64 indexOff @ PutUint64 (of_nat idxLen) @ PutUint64 (indexOff + of_nat idxLen) @
      PutUint64 (of_nat filtLen) @ PutUint64 (of_nat keyCount) @ PutUint64 bodyLen)"

definition buildFooter :: "xorfilter \<Rightarrow> nat \<Rightarrow> indexEntry list \<Rightarrow> string + bytes" where
  "buildFooter X bodyLen entries =
     (if length entries = 0 then Inl ''refusing to seal an empty segment''
      else let idx = buildIndexSection entries in
      case buildFilterSection X entries of
        Inl e \<Rightarrow> Inl e
      | Inr filt \<Rightarrow>
          let footer = tagSeal # idx @ filt @
                trailer_fields (of_nat bodyLen) (length idx) (length filt) (length entries)
          in Inr (footer @ PutUint32 (crc32_Checksum footer) @ zero4 @ magicTrailer))"

record footerView =
  fv_fanout :: "u32 list"
  fv_entries :: bytes
  fv_filter :: fuse
  fv_keyCount :: u64
  fv_bodyLen :: u64
  fv_indexOff :: u64
  fv_indexLen :: u64

definition min_sealed :: nat where
  "min_sealed = length magicHeader + 1 + fanoutSize + indexEntrySize + filterHeaderSize + trailerSize"

definition parseFooter :: "bytes \<Rightarrow> pack_err + footerView" where
  "parseFooter mm =
     (if length mm < min_sealed then Inl (ErrCorrupt ''file too short'')
      else if take (length magicHeader) mm \<noteq> magicHeader then Inl (ErrCorrupt ''bad header magic'')
      else let tr = drop (length mm - trailerSize) mm in
      if slice 56 64 tr \<noteq> magicTrailer then Inl (ErrCorrupt ''bad trailer magic'')
      else if Uint32 (slice 52 56 tr) \<noteq> 0 then Inl (ErrCorrupt ''nonzero reserved trailer field'')
      else let indexOff = Uint64 (slice 0 8 tr); indexLen = Uint64 (slice 8 16 tr);
               filterOff = Uint64 (slice 16 24 tr); filterLen = Uint64 (slice 24 32 tr);
               keyCount = Uint64 (slice 32 40 tr); bodyLen = Uint64 (slice 40 48 tr);
               fileLen = of_nat (length mm) :: u64 in
      if bodyLen < of_nat (length magicHeader) \<or> bodyLen \<ge> fileLen \<or> keyCount > 0xFFFFFFFF \<or>
         indexOff \<noteq> bodyLen + 1 \<or> indexLen \<noteq> of_nat fanoutSize + keyCount * of_nat indexEntrySize \<or>
         filterOff \<noteq> indexOff + indexLen \<or> filterOff > fileLen - of_nat trailerSize \<or>
         filterLen \<noteq> fileLen - of_nat trailerSize - filterOff
      then Inl (ErrCorrupt ''trailer offsets inconsistent'')
      else if crc32_Checksum (slice (unat bodyLen) (length mm - 16) mm) \<noteq> Uint32 (slice 48 52 tr)
      then Inl (ErrCorrupt ''footer CRC mismatch'')
      else if mm ! unat bodyLen \<noteq> tagSeal then Inl (ErrCorrupt ''missing seal marker'')
      else case parseIndexSection (slice (unat indexOff) (unat (indexOff + indexLen)) mm) keyCount of
             Inl e \<Rightarrow> Inl e
           | Inr (fanout, entries) \<Rightarrow>
               (case parseFilterSection (slice (unat filterOff) (unat (filterOff + filterLen)) mm) of
                  Inl e \<Rightarrow> Inl e
                | Inr filt \<Rightarrow>
                    Inr \<lparr>fv_fanout = fanout, fv_entries = entries, fv_filter = filt, fv_keyCount = keyCount,
                         fv_bodyLen = bodyLen, fv_indexOff = indexOff, fv_indexLen = indexLen\<rparr>))"

definition fv_lookup :: "footerView \<Rightarrow> key \<Rightarrow> (u64 \<times> u32) option" where
  "fv_lookup fv k = searchIndex (fv_fanout fv) (fv_entries fv) k"

definition fv_lookupPos :: "footerView \<Rightarrow> key \<Rightarrow> nat option" where
  "fv_lookupPos fv k = searchIndexPos (fv_fanout fv) (fv_entries fv) k"

section \<open>Sealed segments\<close>

record sealedSegment =
  sg_id :: u64
  sg_path :: string
  sg_mm :: bytes
  sg_fv :: footerView

definition openSealed :: "string \<Rightarrow> u64 \<Rightarrow> bytes \<Rightarrow> pack_err + sealedSegment" where
  "openSealed path sid mm =
     (if length mm < min_sealed then Inl (ErrCorrupt ''file too short'')
      else case parseFooter mm of
             Inl e \<Rightarrow> Inl e
           | Inr fv \<Rightarrow> Inr \<lparr>sg_id = sid, sg_path = path, sg_mm = mm, sg_fv = fv\<rparr>)"

definition seg_has :: "xorfilter \<Rightarrow> sealedSegment \<Rightarrow> key \<Rightarrow> bool" where
  "seg_has X g k =
     (if \<not> Contains X (fv_filter (sg_fv g)) (filterKey k) then False
      else fv_lookup (sg_fv g) k \<noteq> None)"

definition seg_bounds_ok :: "sealedSegment \<Rightarrow> u64 \<Rightarrow> u32 \<Rightarrow> bool" where
  "seg_bounds_ok g off slen \<longleftrightarrow>
     \<not> (off < of_nat (length magicHeader) \<or> off > fv_bodyLen (sg_fv g) \<or>
        of_nat RecHeaderSize + ucast slen > fv_bodyLen (sg_fv g) - off)"

definition seg_get :: "xorfilter \<Rightarrow> zstd \<Rightarrow> sealedSegment \<Rightarrow> key \<Rightarrow> pack_err + bytes option" where
  "seg_get X Z g k =
     (if \<not> Contains X (fv_filter (sg_fv g)) (filterKey k) then Inr None
      else case fv_lookup (sg_fv g) k of
             None \<Rightarrow> Inr None
           | Some (off, slen) \<Rightarrow>
               if \<not> seg_bounds_ok g off slen then Inl (ErrCorrupt ''index entry out of bounds'')
               else let e = unat off + RecHeaderSize + unat slen;
                        h = slice (unat off) (unat off + RecHeaderSize) (sg_mm g);
                        flags = h ! 33; ulen = Uint32 (slice 34 38 h)
                    in case DecodePayload Z flags ulen (slice (unat off + RecHeaderSize) e (sg_mm g)) of
                         Inl err \<Rightarrow> Inl err
                       | Inr data \<Rightarrow> Inr (Some data))"

definition seg_getRecord :: "xorfilter \<Rightarrow> sealedSegment \<Rightarrow> key \<Rightarrow> pack_err + bytes option" where
  "seg_getRecord X g k =
     (if \<not> Contains X (fv_filter (sg_fv g)) (filterKey k) then Inr None
      else case fv_lookup (sg_fv g) k of
             None \<Rightarrow> Inr None
           | Some (off, slen) \<Rightarrow>
               if \<not> seg_bounds_ok g off slen then Inl (ErrCorrupt ''index entry out of bounds'')
               else Inr (Some (slice (unat off) (unat off + RecHeaderSize + unat slen) (sg_mm g))))"

definition seg_storedSize :: "xorfilter \<Rightarrow> sealedSegment \<Rightarrow> key \<Rightarrow> u32 option" where
  "seg_storedSize X g k =
     (if \<not> Contains X (fv_filter (sg_fv g)) (filterKey k) then None
      else map_option snd (fv_lookup (sg_fv g) k))"

definition seg_locate :: "xorfilter \<Rightarrow> sealedSegment \<Rightarrow> key \<Rightarrow> u64 option" where
  "seg_locate X g k =
     (if \<not> Contains X (fv_filter (sg_fv g)) (filterKey k) then None
      else map_option fst (fv_lookup (sg_fv g) k))"

section \<open>What the footer relies on\<close>

text \<open>The geometry of a binary fuse filter, and that it has no false negatives.\<close>

definition fuse_geometry :: "fuse \<Rightarrow> bool" where
  "fuse_geometry f \<longleftrightarrow>
     SegmentCount f \<noteq> 0 \<and> SegmentLength f \<noteq> 0 \<and> SegmentLength f AND (SegmentLength f - 1) = 0 \<and>
     SegmentLengthMask f = SegmentLength f - 1 \<and>
     unat (SegmentCountLength f) = unat (SegmentCount f) * unat (SegmentLength f) \<and>
     length (Fingerprints f) = unat (SegmentCountLength f) + 2 * unat (SegmentLength f) \<and>
     length (Fingerprints f) < 2 ^ 32"

definition fuse_ok :: "xorfilter \<Rightarrow> bool" where
  "fuse_ok X \<longleftrightarrow> (\<forall>tails f. tails \<noteq> [] \<and> distinct tails \<and> NewBinaryFuse X tails = Some f \<longrightarrow>
     fuse_geometry f \<and> (\<forall>t \<in> set tails. Contains X f t))"

text \<open>A filter that satisfies it: it answers yes to everything.\<close>

definition all_filter :: xorfilter where
  "all_filter =
     \<lparr>NewBinaryFuse = (\<lambda>tails. Some \<lparr>Seed = 0, SegmentLength = 4, SegmentLengthMask = 3, SegmentCount = 1,
        SegmentCountLength = 4, Fingerprints = replicate 12 0\<rparr>),
      Contains = (\<lambda>f t. True)\<rparr>"

lemma all_filter_ok: "fuse_ok all_filter"
  by (simp add: fuse_ok_def all_filter_def fuse_geometry_def)

section \<open>Lemmas: the fanout table\<close>

abbreviation last_byte :: "indexEntry \<Rightarrow> nat" where
  "last_byte e \<equiv> unat (ie_k e ! 31)"

definition below :: "indexEntry list \<Rightarrow> nat \<Rightarrow> nat" where
  "below es m = length (filter (\<lambda>e. last_byte e < m) es)"

definition fanout_of :: "indexEntry list \<Rightarrow> u32 list" where
  "fanout_of es = run_cum 0 (last_counts es)"

definition sort_entries :: "indexEntry list \<Rightarrow> indexEntry list" where
  "sort_entries entries = SortFunc compareEntries entries"

lemma compareEntries_key: "cmp_key compareEntries (\<lambda>e. (ie_k e ! 31) # ie_k e)"
proof -
  have "compareEntries a b = bytes_Compare ((ie_k a ! 31) # ie_k a) ((ie_k b ! 31) # ie_k b)" for a b
    by (simp add: compareEntries_def Let_def Size_def)
  then show ?thesis unfolding cmp_key_def by (simp only: bytes_Compare_le) simp
qed

lemma sort_entries_sorted: "sorted (map (\<lambda>e. (ie_k e ! 31) # ie_k e) (sort_entries entries))"
  by (simp add: sort_entries_def SortFunc_sort_key [OF compareEntries_key])

lemma sort_entries_simps [simp]:
  "mset (sort_entries entries) = mset entries" "set (sort_entries entries) = set entries"
  "length (sort_entries entries) = length entries"
  by (simp_all add: sort_entries_def)

lemma run_cum_simps: "length (run_cum c cs) = length cs"
  "b < length cs \<Longrightarrow> run_cum c cs ! b = c + sum_list (take (Suc b) cs)"
proof -
  show "length (run_cum c cs) = length cs" by (induction cs arbitrary: c) auto
  show "b < length cs \<Longrightarrow> run_cum c cs ! b = c + sum_list (take (Suc b) cs)"
    by (induction cs arbitrary: c b) (auto simp: nth_Cons add.assoc split: nat.splits)
qed

lemma below_Suc: "below es (Suc m) = below es m + length (filter (\<lambda>e. last_byte e = m) es)"
  unfolding below_def by (induction es) (auto simp: less_Suc_eq)

lemma below_sum: "(\<Sum>i \<leftarrow> [0..<m]. length (filter (\<lambda>e. last_byte e = i) es)) = below es m"
proof (induction m)
  case 0
  then show ?case by (simp add: below_def)
qed (simp add: below_Suc)

lemma below_mono: "a \<le> b \<Longrightarrow> below es a \<le> below es b"
  unfolding below_def by (induction es) auto

lemma below_256: "below es 256 = length es"
  unfolding below_def by (rule arg_cong [where f = length]) (simp add: filter_id_conv)

lemma sum_of_nat: "sum_list (map (\<lambda>i. of_nat (f i)) xs) = (of_nat (sum_list (map f xs)) :: 'a::semiring_1)"
  by (induction xs) auto

lemma fanout_nth: "b < 256 \<Longrightarrow> fanout_of es ! b = of_nat (below es (Suc b))"
proof -
  assume b: "b < 256"
  then have "take (Suc b) [0..<256] = [0..<Suc b]" by simp
  then show ?thesis
    using b by (simp add: fanout_of_def run_cum_simps last_counts_def take_map Size_def sum_of_nat below_sum
        del: upt_Suc)
qed

lemma fanout_length [simp]: "length (fanout_of es) = 256"
  by (simp add: fanout_of_def run_cum_simps last_counts_def)

lemma below_le: "below es m \<le> length es"
  by (simp add: below_def)

lemma unat_fanout:
  assumes "length es < 2 ^ 32" and "b < 256"
  shows "unat (fanout_of es ! b) = below es (Suc b)"
  using assms below_le [of es "Suc b"] by (simp add: fanout_nth unat_of_nat)

lemma monotonic_iff: "monotonic p xs \<longleftrightarrow> (\<forall>x \<in> set xs. p \<le> x) \<and> sorted xs"
  by (induction p xs rule: monotonic.induct) (auto simp: not_less)

lemma fanout_monotonic:
  assumes "length es < 2 ^ 32"
  shows "monotonic 0 (fanout_of es)"
proof -
  have "fanout_of es ! i \<le> fanout_of es ! j" if "i \<le> j" "j < 256" for i j
    using that unat_fanout [OF assms] below_mono [of "Suc i" "Suc j" es] by (simp add: word_le_nat_alt)
  then show ?thesis by (simp add: monotonic_iff sorted_iff_nth_mono)
qed

section \<open>Lemmas: index round trip and lookup\<close>

definition index_rows :: "indexEntry list \<Rightarrow> bytes" where
  "index_rows es = concat (map entry_row es)"

lemma buildIndexSection_eq:
  "buildIndexSection entries =
     concat (map PutUint32 (fanout_of (sort_entries entries))) @ index_rows (sort_entries entries)"
  by (simp add: buildIndexSection_def Let_def sort_entries_def fanout_of_def index_rows_def)

lemma entry_row_length: "is_key (ie_k e) \<Longrightarrow> length (entry_row e) = 44"
  by (simp add: entry_row_def is_key_def Size_def)

lemma fanout_bytes_length [simp]: "length (concat (map PutUint32 (fanout_of es))) = 1024"
  using concat_rows(1) [of "map PutUint32 (fanout_of es)" 4] by simp

lemma index_rows_length: "\<forall>e \<in> set es. is_key (ie_k e) \<Longrightarrow> length (index_rows es) = 44 * length es"
  using concat_rows(1) [of "map entry_row es" 44] by (simp add: index_rows_def entry_row_length)

lemma index_row_at:
  assumes "\<forall>e \<in> set es. is_key (ie_k e)" and "i < length es"
  shows "drop (i * 44) (index_rows es) = entry_row (es ! i) @ index_rows (drop (Suc i) es)"
  using concat_row_at [of "map entry_row es" 44 i] assms
  by (simp add: index_rows_def entry_row_length drop_map)

lemma row_fields:
  assumes "is_key (ie_k e)"
  shows "take 32 (entry_row e @ r) = ie_k e" "Uint64 (slice 32 40 (entry_row e @ r)) = ie_off e"
    "Uint32 (slice 40 44 (entry_row e @ r)) = ie_slen e"
  using assms by (simp_all add: entry_row_def is_key_def Size_def slice_def)

lemma index_section_length:
  assumes "\<forall>e \<in> set entries. is_key (ie_k e)"
  shows "length (buildIndexSection entries) = 1024 + 44 * length entries"
  using assms by (simp add: buildIndexSection_eq index_rows_length)

lemma parseIndexSection_build:
  assumes "\<forall>e \<in> set entries. is_key (ie_k e)" and "length entries < 2 ^ 32"
  shows "parseIndexSection (buildIndexSection entries) (of_nat (length entries)) =
     Inr (fanout_of (sort_entries entries), index_rows (sort_entries entries))"
proof -
  let ?es = "sort_entries entries"
  have n: "unat (of_nat (length entries) :: u64) = length entries" using assms(2) by (simp add: unat_of_nat)
  have count: "\<not> (of_nat (length entries) :: u64) > 0xFFFFFFFF" using assms(2) n by (simp add: word_less_nat_alt)
  have len: "(of_nat (length (buildIndexSection entries)) :: u64) = of_nat fanoutSize + of_nat (length entries) * of_nat indexEntrySize"
    by (simp add: index_section_length [OF assms(1)] footer_consts mult.commute)
  have "Uint32 (drop (i * 4) (buildIndexSection entries)) = fanout_of ?es ! i" if "i < 256" for i
    using concat_row_at [of "map PutUint32 (fanout_of ?es)" 4 i] that
    by (simp add: buildIndexSection_eq mult.commute)
  then have fan: "map (\<lambda>i. Uint32 (drop (i * 4) (buildIndexSection entries))) [0..<256] = fanout_of ?es"
    by (intro nth_equalityI) simp_all
  have tot: "(ucast (fanout_of ?es ! 255) :: u64) = of_nat (length entries)"
    using unat_fanout [of ?es 255] assms(2) below_256 [of ?es] n
    by (simp add: word_unat_eq_iff unat_ucast_wider)
  have rest: "drop fanoutSize (buildIndexSection entries) = index_rows ?es"
    by (simp add: buildIndexSection_eq fanoutSize_def)
  show ?thesis
    unfolding parseIndexSection_def Let_def fan rest using count len tot fanout_monotonic [of ?es] assms(2) by simp
qed

text \<open>The bucket of a last byte within the sorted entries.\<close>

lemma bucket_split:
  "sort_entries entries =
     filter (\<lambda>e. last_byte e < b) (sort_entries entries) @ filter (\<lambda>e. last_byte e = b) (sort_entries entries) @
     filter (\<lambda>e. b < last_byte e) (sort_entries entries)"
proof -
  let ?es = "sort_entries entries" and ?f = "\<lambda>e. (ie_k e ! 31) # ie_k e"
  have mono: "last_byte x \<le> last_byte y" if "?f x \<le> ?f y" for x y
    using that by (auto simp: word_less_nat_alt)
  have 1: "filter (\<lambda>e. last_byte e < b) ?es @ filter (\<lambda>e. \<not> last_byte e < b) ?es = ?es"
    by (rule sorted_filter_split [where f = ?f]) (use sort_entries_sorted mono in fastforce)+
  have "sorted (map ?f (filter (\<lambda>e. \<not> last_byte e < b) ?es))"
    using sort_entries_sorted by (rule sorted_filter)
  then have "filter (\<lambda>e. last_byte e \<le> b) (filter (\<lambda>e. \<not> last_byte e < b) ?es) @
      filter (\<lambda>e. \<not> last_byte e \<le> b) (filter (\<lambda>e. \<not> last_byte e < b) ?es) = filter (\<lambda>e. \<not> last_byte e < b) ?es"
    by (rule sorted_filter_split) (use mono in fastforce)
  moreover have "filter (\<lambda>e. last_byte e \<le> b) (filter (\<lambda>e. \<not> last_byte e < b) ?es) = filter (\<lambda>e. last_byte e = b) ?es"
    "filter (\<lambda>e. \<not> last_byte e \<le> b) (filter (\<lambda>e. \<not> last_byte e < b) ?es) = filter (\<lambda>e. b < last_byte e) ?es"
    by (auto intro: filter_cong)
  ultimately show ?thesis using 1 by simp
qed

lemma bucket_sorted:
  assumes "distinct (map ie_k entries)"
  shows "sorted_wrt (<) (map ie_k (filter (\<lambda>e. last_byte e = b) (sort_entries entries)))"
proof -
  let ?B = "filter (\<lambda>e. last_byte e = b) (sort_entries entries)"
  have "sorted (map (\<lambda>e. (ie_k e ! 31) # ie_k e) ?B)"
    using sort_entries_sorted by (rule sorted_filter)
  then have f: "(ie_k (?B ! i) ! 31) # ie_k (?B ! i) \<le> (ie_k (?B ! j) ! 31) # ie_k (?B ! j)"
    if "i \<le> j" "j < length ?B" for i j
    using that by (simp add: sorted_iff_nth_mono)
  have lb: "last_byte (?B ! i) = b" if "i < length ?B" for i
    using nth_mem [OF that] by simp
  have "ie_k (?B ! i) \<le> ie_k (?B ! j)" if "i \<le> j" "j < length ?B" for i j
  proof -
    have "ie_k (?B ! i) ! 31 = ie_k (?B ! j) ! 31"
      using lb [of i] lb [of j] that by (simp add: word_unat_eq_iff)
    then show ?thesis using f [OF that] by simp
  qed
  then have s: "sorted (map ie_k ?B)" by (simp add: sorted_iff_nth_mono)
  have "distinct (map ie_k (sort_entries entries))"
    using assms mset_eq_imp_distinct_iff [of "map ie_k (sort_entries entries)" "map ie_k entries"] by simp
  then have "distinct (map ie_k ?B)" by (rule distinct_map_filter)
  then show ?thesis using s by (simp add: strict_sorted_iff)
qed

definition entry_map :: "indexEntry list \<Rightarrow> key \<rightharpoonup> u64 \<times> u32" where
  "entry_map entries = map_of (map (\<lambda>e. (ie_k e, (ie_off e, ie_slen e))) entries)"

lemma searchIndexPos_build:
  assumes "\<forall>e \<in> set entries. is_key (ie_k e)" and "length entries < 2 ^ 32" and "distinct (map ie_k entries)"
    and "is_key k"
  shows "case searchIndexPos (fanout_of (sort_entries entries)) (index_rows (sort_entries entries)) k of
     None \<Rightarrow> k \<notin> ie_k ` set entries
   | Some p \<Rightarrow> p < length entries \<and> ie_k (sort_entries entries ! p) = k"
proof -
  define es where "es = sort_entries entries"
  define b where "b = unat (k ! 31)"
  define A where "A = filter (\<lambda>e. last_byte e < b) es"
  define B where "B = filter (\<lambda>e. last_byte e = b) es"
  have b: "b < 256" by (simp add: b_def)
  have keys: "\<forall>e \<in> set es. is_key (ie_k e)" and len: "length es = length entries"
    using assms(1) by (simp_all add: es_def)
  have l32: "length es < 2 ^ 32" using assms(2) len by simp
  obtain R where es: "es = A @ B @ R" using bucket_split [of entries b] unfolding es_def A_def B_def by blast
  have "below es b = length A" "below es (Suc b) = length A + length B"
    using below_Suc [of es b] by (simp_all add: below_def A_def B_def)
  define lo where "lo = (if b > 0 then fanout_of es ! (b - 1) else 0)"
  have lo: "unat lo = length A"
    using unat_fanout [OF l32, of "b - 1"] b \<open>below es b = length A\<close> by (cases b) (auto simp: lo_def below_def)
  have hi: "unat (fanout_of es ! b) = length A + length B"
    using unat_fanout [OF l32 b] \<open>below es (Suc b) = length A + length B\<close> by simp
  have n: "unat (fanout_of es ! b - lo) = length B"
    using lo hi by (simp add: unat_sub_if' word_le_nat_alt)
  have row: "take 32 (drop ((length A + i) * 44) (index_rows es)) = ie_k (B ! i)" if "i < length B" for i
  proof -
    have "es ! (length A + i) = B ! i" "length A + i < length es" using that by (simp_all add: es nth_append)
    then show ?thesis using index_row_at [OF keys, of "length A + i"] row_fields(1) keys that
      by (simp add: es)
  qed
  define i where "i = sort_Search (length B) (\<lambda>i. k \<le> ie_k (B ! i))"
  have i': "sort_Search (length B) (\<lambda>i. k \<le> take 32 (drop ((length A + i) * 44) (index_rows es))) = i"
    unfolding i_def by (rule sort_Search_cong) (simp only: row)
  note find = sort_Search_find [OF bucket_sorted [OF assms(3), of b], of k, folded es_def, folded B_def i_def]
  have inB: "k \<in> ie_k ` set B \<longleftrightarrow> k \<in> ie_k ` set entries"
    by (auto simp: B_def es_def b_def)
  have res: "searchIndexPos (fanout_of es) (index_rows es) k =
      (if i < length B \<and> ie_k (B ! i) = k then Some (length A + i) else None)"
  proof -
    have sr: "sort_Search (length B) (\<lambda>i. bytes_Compare (take 32 (drop ((length A + i) * 44) (index_rows es))) k \<ge> 0) = i"
      using i' by (simp only: bytes_Compare_ge)
    have s31: "(32 :: nat) - 1 = 31" by simp
    show ?thesis
      unfolding searchIndexPos_def Let_def Size_def indexEntrySize_def s31 b_def [symmetric] lo_def [symmetric] n lo sr
      using row [of i] find(1) by (cases "i < length B") auto
  qed
  show ?thesis
    unfolding es_def [symmetric] res using find inB len by (auto simp: es nth_append)
qed

lemma searchIndex_build:
  assumes "\<forall>e \<in> set entries. is_key (ie_k e)" and "length entries < 2 ^ 32" and "distinct (map ie_k entries)"
    and "is_key k"
  shows "searchIndex (fanout_of (sort_entries entries)) (index_rows (sort_entries entries)) k = entry_map entries k"
proof -
  let ?es = "sort_entries entries"
  have m: "entry_map entries = entry_map ?es"
    unfolding entry_map_def
    using assms(3) mset_eq_imp_distinct_iff [of "map ie_k ?es" "map ie_k entries"]
    by (subst map_of_inject_set) (simp_all add: comp_def)
  show ?thesis
  proof (cases "searchIndexPos (fanout_of ?es) (index_rows ?es) k")
    case None
    then have "k \<notin> ie_k ` set entries" using searchIndexPos_build [OF assms] by simp
    then have "entry_map entries k = None" by (auto simp: entry_map_def map_of_eq_None_iff)
    then show ?thesis using None by (simp add: searchIndex_def)
  next
    case (Some p)
    then have p: "p < length ?es" "ie_k (?es ! p) = k" using searchIndexPos_build [OF assms] by simp_all
    have keys: "\<forall>e \<in> set ?es. is_key (ie_k e)" using assms(1) by simp
    have "distinct (map ie_k ?es)"
      using assms(3) mset_eq_imp_distinct_iff [of "map ie_k ?es" "map ie_k entries"] by simp
    moreover have "?es ! p \<in> set entries" using nth_mem [OF p(1)] by simp
    ultimately have "entry_map ?es k = Some (ie_off (?es ! p), ie_slen (?es ! p))"
      unfolding entry_map_def using p by (subst map_of_eq_Some_iff) (auto simp: comp_def)
    moreover have "is_key (ie_k (?es ! p))" using keys nth_mem [OF p(1)] by blast
    ultimately show ?thesis
      using Some m index_row_at [OF keys p(1)]
      by (simp add: searchIndex_def Let_def indexEntrySize_def row_fields)
  qed
qed

section \<open>Lemmas: filter round trip\<close>

lemma u16_rows_length [simp]: "length (concat (map PutUint16 xs)) = 2 * length xs"
  using concat_rows(1) [of "map PutUint16 xs" 2] by simp

lemma filter_bytes_length [simp]: "length (filter_bytes f) = 29 + 2 * length (Fingerprints f)"
  by (simp add: filter_bytes_def)

lemma filter_bytes_fields:
  "filter_bytes f ! 0 = filterTypeBinaryFuse16" "Uint64 (slice 1 9 (filter_bytes f)) = Seed f"
  "Uint32 (slice 9 13 (filter_bytes f)) = SegmentLength f" "Uint32 (slice 13 17 (filter_bytes f)) = SegmentLengthMask f"
  "Uint32 (slice 17 21 (filter_bytes f)) = SegmentCount f" "Uint32 (slice 21 25 (filter_bytes f)) = SegmentCountLength f"
  "Uint32 (slice 25 29 (filter_bytes f)) = of_nat (length (Fingerprints f))"
  "drop 29 (filter_bytes f) = concat (map PutUint16 (Fingerprints f))"
  by (simp_all add: filter_bytes_def slice_def)

lemma parseFilterSection_bytes:
  assumes "fuse_geometry f"
  shows "parseFilterSection (filter_bytes f) = Inr f"
proof -
  let ?n = "length (Fingerprints f)"
  note g = assms [unfolded fuse_geometry_def]
  have n32: "?n < 2 ^ 32" using g by simp
  then have n: "unat (of_nat ?n :: u32) = ?n" by (simp add: unat_of_nat)
  have small: "unat (SegmentCountLength f) < 2 ^ 32" "unat (SegmentLength f) < 2 ^ 32" by (rule unat_u32)+
  have n64: "(ucast (of_nat ?n :: u32) :: u64) = of_nat ?n"
    using n32 by (simp add: word_unat_eq_iff unat_ucast_wider unat_of_nat)
  have geo: "(ucast (SegmentCountLength f) :: u64) = ucast (SegmentCount f) * ucast (SegmentLength f)"
    "(of_nat ?n :: u64) = ucast (SegmentCountLength f) + 2 * ucast (SegmentLength f)"
  proof -
    have "(ucast (SegmentCountLength f) :: u64) = of_nat (unat (SegmentCountLength f))" by (simp add: of_nat_unat)
    also have "\<dots> = of_nat (unat (SegmentCount f)) * of_nat (unat (SegmentLength f))" using g by simp
    finally show "(ucast (SegmentCountLength f) :: u64) = ucast (SegmentCount f) * ucast (SegmentLength f)"
      by (simp add: of_nat_unat)
    have "(of_nat ?n :: u64) = of_nat (unat (SegmentCountLength f)) + 2 * of_nat (unat (SegmentLength f))"
      using g by simp
    then show "(of_nat ?n :: u64) = ucast (SegmentCountLength f) + 2 * ucast (SegmentLength f)"
      by (simp add: of_nat_unat)
  qed
  have "Uint16 (drop (29 + 2 * i) (filter_bytes f)) = Fingerprints f ! i" if "i < ?n" for i
  proof -
    have "drop (29 + 2 * i) (filter_bytes f) = drop (i * 2) (drop 29 (filter_bytes f))"
      by (simp add: mult.commute add.commute)
    also have "\<dots> = PutUint16 (Fingerprints f ! i) @ concat (drop (Suc i) (map PutUint16 (Fingerprints f)))"
      unfolding filter_bytes_fields(8)
      using concat_row_at [of "map PutUint16 (Fingerprints f)" 2 i] that by simp
    finally show ?thesis by simp
  qed
  then have fps: "map (\<lambda>i. Uint16 (drop (29 + 2 * i) (filter_bytes f))) [0..<?n] = Fingerprints f"
    by (intro nth_equalityI) simp_all
  show ?thesis
    unfolding parseFilterSection_def filterHeaderSize_def filter_bytes_fields Let_def
    using g n n64 geo fps by simp
qed

section \<open>Lemmas: the whole footer\<close>

definition trailer_bytes :: "nat \<Rightarrow> nat \<Rightarrow> nat \<Rightarrow> nat \<Rightarrow> u32 \<Rightarrow> bytes" where
  "trailer_bytes bodyLen idxLen filtLen n crc =
     trailer_fields (of_nat bodyLen) idxLen filtLen n @ PutUint32 crc @ zero4 @ magicTrailer"

lemma trailer_fields_length [simp]: "length (trailer_fields b i f n) = 48"
  by (simp add: trailer_fields_def Let_def)

lemma trailer_bytes_length [simp]: "length (trailer_bytes b i f n c) = 64"
  by (simp add: trailer_bytes_def zero4_def magicTrailer_def)

lemma trailer_slices:
  "slice 56 64 (trailer_bytes b i f n c) = magicTrailer" "slice 52 56 (trailer_bytes b i f n c) = zero4"
  "slice 48 52 (trailer_bytes b i f n c) = PutUint32 c"
  "Uint64 (slice 0 8 (trailer_bytes b i f n c)) = of_nat b + 1"
  "Uint64 (slice 8 16 (trailer_bytes b i f n c)) = of_nat i"
  "Uint64 (slice 16 24 (trailer_bytes b i f n c)) = of_nat b + 1 + of_nat i"
  "Uint64 (slice 24 32 (trailer_bytes b i f n c)) = of_nat f"
  "Uint64 (slice 32 40 (trailer_bytes b i f n c)) = of_nat n"
  "Uint64 (slice 40 48 (trailer_bytes b i f n c)) = of_nat b"
  by (simp_all add: trailer_bytes_def trailer_fields_def Let_def slice_def zero4_def magicTrailer_def)

lemma zero4_word: "Uint32 zero4 = 0"
  by (simp add: Uint32_def zero4_def be_val_def)

definition footer_tails :: "indexEntry list \<Rightarrow> u64 list" where
  "footer_tails entries = remdups_adj (sort (map (\<lambda>e. filterKey (ie_k e)) entries))"

lemma footer_tails_set: "set (footer_tails entries) = (\<lambda>e. filterKey (ie_k e)) ` set entries"
  by (simp add: footer_tails_def)

lemma distinct_remdups_adj: "sorted xs \<Longrightarrow> distinct (remdups_adj (xs :: 'a::linorder list))"
  by (induction xs rule: remdups_adj.induct) auto

lemma footer_tails_distinct: "distinct (footer_tails entries)"
  unfolding footer_tails_def by (rule distinct_remdups_adj) simp

lemma buildFooter_parts:
  assumes "buildFooter X n entries = Inr footer"
  obtains f where "entries \<noteq> []" "NewBinaryFuse X (footer_tails entries) = Some f"
    "footer = tagSeal # buildIndexSection entries @ filter_bytes f @
       trailer_bytes n (length (buildIndexSection entries)) (length (filter_bytes f)) (length entries)
         (crc32_Checksum (tagSeal # buildIndexSection entries @ filter_bytes f @
            trailer_fields (of_nat n) (length (buildIndexSection entries)) (length (filter_bytes f)) (length entries)))"
  using assms that
  by (auto simp: buildFooter_def buildFilterSection_def Let_def footer_tails_def [symmetric] trailer_bytes_def
      split: if_splits option.splits)

text \<open>What the parsed view of a sealed segment is.\<close>

definition fv_of :: "nat \<Rightarrow> indexEntry list \<Rightarrow> fuse \<Rightarrow> footerView" where
  "fv_of n entries f =
     \<lparr>fv_fanout = fanout_of (sort_entries entries), fv_entries = index_rows (sort_entries entries), fv_filter = f,
      fv_keyCount = of_nat (length entries), fv_bodyLen = of_nat n, fv_indexOff = of_nat n + 1,
      fv_indexLen = of_nat (length (buildIndexSection entries))\<rparr>"

lemma parseFooter_build:
  assumes "fuse_ok X" and "buildFooter X (length body) entries = Inr footer"
    and "take 8 body = magicHeader" and "\<forall>e \<in> set entries. is_key (ie_k e)" and "length entries < 2 ^ 32"
    and "length (body @ footer) < 2 ^ 64"
  obtains f where "parseFooter (body @ footer) = Inr (fv_of (length body) entries f)"
    "\<forall>e \<in> set entries. Contains X f (filterKey (ie_k e))" "min_sealed \<le> length (body @ footer)"
proof -
  define idx where "idx = buildIndexSection entries"
  define n where "n = length entries"
  obtain f where ne: "entries \<noteq> []" and nf: "NewBinaryFuse X (footer_tails entries) = Some f"
    and foot0: "footer = tagSeal # idx @ filter_bytes f @ trailer_bytes (length body) (length idx) (length (filter_bytes f)) n
         (crc32_Checksum (tagSeal # idx @ filter_bytes f @
            trailer_fields (of_nat (length body)) (length idx) (length (filter_bytes f)) n))"
    using buildFooter_parts [OF assms(2)] unfolding idx_def n_def by blast
  define filt where "filt = filter_bytes f"
  define tf where "tf = trailer_fields (of_nat (length body)) (length idx) (length filt) n"
  define tr where "tr = trailer_bytes (length body) (length idx) (length filt) n (crc32_Checksum (tagSeal # idx @ filt @ tf))"
  have foot: "footer = tagSeal # idx @ filt @ tr" using foot0 by (simp add: filt_def tr_def tf_def)
  have "footer_tails entries \<noteq> []" using ne footer_tails_set [of entries] by force
  then have geo: "fuse_geometry f" and mem: "\<forall>t \<in> set (footer_tails entries). Contains X f t"
    using assms(1) nf footer_tails_distinct by (auto simp: fuse_ok_def)
  have li: "length idx = 1024 + 44 * n" using assms(4) by (simp add: idx_def index_section_length n_def)
  have "length (take 8 body) = 8" using assms(3) by (simp add: magicHeader_def)
  then have hb: "8 \<le> length body" by simp
  have lt: "length tr = 64" by (simp add: tr_def)
  have n1: "1 \<le> n" using ne by (simp add: n_def Suc_le_eq)
  let ?mm = "body @ footer" and ?b = "of_nat (length body) :: u64"
  have lmm: "length ?mm = length body + 1 + length idx + length filt + 64" using lt by (simp add: foot)
  have lf: "29 \<le> length filt" by (simp add: filt_def)
  have big: "length body + 1 + length idx + length filt + 64 < 2 ^ 64" using assms(6) lmm by simp
  have min: "min_sealed \<le> length ?mm"
    using lmm li lf n1 hb by (simp add: min_sealed_def footer_consts magicHeader_def)
  have tr_eq: "drop (length ?mm - 64) ?mm = tr"
    using lt by (simp add: foot)
  have u: "unat ?b = length body" "unat (?b + 1) = length body + 1"
    "unat (?b + 1 + of_nat (length idx)) = length body + 1 + length idx" "unat (of_nat (length idx) :: u64) = length idx"
    "unat (of_nat (length ?mm) :: u64) = length ?mm" "unat (of_nat n :: u64) = n"
    "unat (?b + 1 + of_nat (length idx) + of_nat (length filt)) = length body + 1 + length idx + length filt"
  proof -
    have s: "unat (of_nat m :: u64) = m" if "m < 2 ^ 64" for m using that by (simp add: unat_of_nat)
    show "unat ?b = length body" using s big by simp
    show "unat (?b + 1) = length body + 1" using s [of "length body + 1"] big by (simp add: ac_simps)
    show "unat (?b + 1 + of_nat (length idx)) = length body + 1 + length idx"
      using s [of "length body + 1 + length idx"] big by (simp add: ac_simps)
    show "unat (of_nat (length idx) :: u64) = length idx" using s big by simp
    show "unat (of_nat (length ?mm) :: u64) = length ?mm" by (rule s) (rule assms(6))
    show "unat (of_nat n :: u64) = n" using s assms(5) by (simp add: n_def)
    show "unat (?b + 1 + of_nat (length idx) + of_nat (length filt)) = length body + 1 + length idx + length filt"
      using s [of "length body + 1 + length idx + length filt"] big by (simp add: ac_simps)
  qed
  have flen: "(of_nat (length ?mm) :: u64) - of_nat 64 = ?b + 1 + of_nat (length idx) + of_nat (length filt)"
    by (simp add: lmm del: length_append)
  have offs: "\<not> (?b < of_nat (length magicHeader) \<or> ?b \<ge> of_nat (length ?mm) \<or> of_nat n > (0xFFFFFFFF :: u64) \<or>
      ?b + 1 \<noteq> ?b + 1 \<or> of_nat (length idx) \<noteq> of_nat fanoutSize + of_nat n * (of_nat indexEntrySize :: u64) \<or>
      ?b + 1 + of_nat (length idx) \<noteq> ?b + 1 + (of_nat (length idx) :: u64) \<or>
      ?b + 1 + of_nat (length idx) > of_nat (length ?mm) - of_nat 64 \<or>
      of_nat (length filt) \<noteq> (of_nat (length ?mm) :: u64) - of_nat 64 - (?b + 1 + of_nat (length idx)))"
  proof -
    have "\<not> ?b < of_nat (length magicHeader)" using u(1) hb by (simp add: word_less_nat_alt magicHeader_def)
    moreover have "\<not> ?b \<ge> of_nat (length ?mm)" using u(1,5) lmm by (simp add: word_le_nat_alt del: length_append)
    moreover have "\<not> of_nat n > (0xFFFFFFFF :: u64)" using u(6) assms(5) by (simp add: word_less_nat_alt n_def)
    moreover have "of_nat (length idx) = of_nat fanoutSize + of_nat n * (of_nat indexEntrySize :: u64)"
      by (simp add: li footer_consts)
    moreover have "\<not> ?b + 1 + of_nat (length idx) > of_nat (length ?mm) - of_nat 64"
      unfolding flen word_less_nat_alt u(3,7) by simp
    ultimately show ?thesis unfolding flen by simp
  qed
  have crc: "slice (length body) (length ?mm - 16) ?mm = tagSeal # idx @ filt @ tf"
  proof -
    let ?x = "tagSeal # idx @ filt @ tf" and ?r = "PutUint32 (crc32_Checksum (tagSeal # idx @ filt @ tf)) @ zero4 @ magicTrailer"
    have "body @ footer = body @ ?x @ ?r" by (simp add: foot tr_def trailer_bytes_def tf_def)
    moreover have "length ?mm - 16 = length body + length ?x" using lmm by (simp add: tf_def)
    ultimately show ?thesis using slice_middle [of body ?x ?r] by simp
  qed
  have seal: "?mm ! length body = tagSeal" by (simp add: foot nth_append)
  have sidx: "slice (length body + 1) (length body + 1 + length idx) ?mm = idx"
    by (simp add: slice_def foot)
  have sfilt: "slice (length body + 1 + length idx) (length body + 1 + length idx + length filt) ?mm = filt"
    by (simp add: slice_def foot)
  have pidx: "parseIndexSection idx (of_nat n) = Inr (fanout_of (sort_entries entries), index_rows (sort_entries entries))"
    using parseIndexSection_build [OF assms(4,5)] by (simp add: idx_def n_def)
  have pfilt: "parseFilterSection filt = Inr f" using parseFilterSection_bytes [OF geo] by (simp add: filt_def)
  have "length magicHeader = 8" by (simp add: magicHeader_def)
  then have magic: "take (length magicHeader) ?mm = magicHeader" using assms(3) hb by simp
  note ts = trailer_slices [of "length body" "length idx" "length filt" n "crc32_Checksum (tagSeal # idx @ filt @ tf)", folded tr_def]
  have "parseFooter ?mm = Inr (fv_of (length body) entries f)"
    unfolding parseFooter_def Let_def trailerSize_def tr_eq ts u(1,2,3,7) crc seal sidx sfilt pidx pfilt
    using min magic offs
    by (simp add: zero4_word fv_of_def idx_def [symmetric] n_def [symmetric] trailerSize_def
        del: length_append)
  then show thesis using that mem min footer_tails_set by simp
qed

section \<open>Lemmas: what a parsed footer guarantees\<close>

lemma parseIndexSection_ok:
  assumes "parseIndexSection b n = Inr (fan, rows)" and "length b < 2 ^ 63"
  shows "length rows = 44 * unat n" "length fan = 256" "sorted fan" "unat (fan ! 255) = unat n"
proof -
  have c: "n \<le> 0xFFFFFFFF" and w: "(of_nat (length b) :: u64) = of_nat fanoutSize + n * of_nat indexEntrySize"
    and fan: "fan = map (\<lambda>i. Uint32 (drop (i * 4) b)) [0..<256]" and m: "monotonic 0 fan"
    and t: "(ucast (fan ! 255) :: u64) = n" and r: "rows = drop 1024 b"
    using assms(1) by (auto simp: parseIndexSection_def Let_def fanoutSize_def not_less split: if_splits)
  have n: "unat n < 2 ^ 32" using c by (simp add: word_le_nat_alt)
  have "(of_nat (length b) :: u64) = of_nat (1024 + unat n * 44)"
    using w by (simp add: footer_consts of_nat_unat)
  then have "unat (of_nat (length b) :: u64) = unat (of_nat (1024 + unat n * 44) :: u64)" by simp
  then have "length b = 1024 + unat n * 44" using assms(2) n by (simp only: unat_of_nat) simp
  then show "length rows = 44 * unat n" by (simp add: r)
  show "length fan = 256" by (simp add: fan)
  show "sorted fan" using m by (simp add: monotonic_iff)
  show "unat (fan ! 255) = unat n" using t by (auto simp: unat_ucast_wider)
qed

lemma parseFooter_index:
  assumes "parseFooter mm = Inr fv" and "length mm < 2 ^ 63"
  shows "\<exists>b. parseIndexSection b (fv_keyCount fv) = Inr (fv_fanout fv, fv_entries fv) \<and> length b < 2 ^ 63"
proof -
  have "length (slice lo hi mm) < 2 ^ 63" for lo hi
    using assms(2) by simp
  then show ?thesis
    using assms(1) unfolding parseFooter_def Let_def
    by (auto split: if_splits sum.splits prod.splits)
qed

section \<open>Lemmas: reads of a sealed segment\<close>

text \<open>Index rows point at records inside the body.\<close>

definition entries_in :: "nat \<Rightarrow> indexEntry list \<Rightarrow> bool" where
  "entries_in n entries \<longleftrightarrow> (\<forall>e \<in> set entries. 8 \<le> unat (ie_off e) \<and>
     unat (ie_off e) + 46 + unat (ie_slen e) \<le> n)"

lemma fv_lookup_of:
  assumes "\<forall>e \<in> set entries. is_key (ie_k e)" and "length entries < 2 ^ 32" and "distinct (map ie_k entries)"
    and "is_key k"
  shows "fv_lookup (fv_of n entries f) k = entry_map entries k"
  using searchIndex_build [OF assms] by (simp add: fv_lookup_def fv_of_def)

lemma entry_map_Some: "entry_map entries k = Some (off, slen) \<Longrightarrow>
   \<exists>e \<in> set entries. ie_k e = k \<and> ie_off e = off \<and> ie_slen e = slen"
  by (auto simp: entry_map_def dest!: map_of_SomeD)

lemma entry_map_None: "entry_map entries k = None \<longleftrightarrow> k \<notin> ie_k ` set entries"
  by (simp add: entry_map_def map_of_eq_None_iff image_image)

lemma bounds_ok:
  assumes "unat (fv_bodyLen (sg_fv g)) = n" and "8 \<le> unat off" and "unat off + 46 + unat slen \<le> n"
  shows "seg_bounds_ok g off slen"
proof -
  let ?b = "fv_bodyLen (sg_fv g)"
  have n: "n < 2 ^ 64" using assms(1) unat_u64 [of ?b] by simp
  have "\<not> off < of_nat (length magicHeader)" using assms(2) by (simp add: word_less_nat_alt magicHeader_def)
  moreover have "\<not> off > ?b" using assms by (simp add: word_less_nat_alt)
  moreover have "unat (of_nat RecHeaderSize + ucast slen :: u64) = 46 + unat slen"
  proof -
    have "(of_nat RecHeaderSize + ucast slen :: u64) = of_nat (46 + unat slen)"
      by (simp add: RecHeaderSize_def of_nat_unat)
    then show ?thesis using assms(3) n by (simp only: unat_of_nat) simp
  qed
  moreover have "unat (?b - off) = n - unat off" using assms by (simp add: unat_sub_if')
  ultimately show ?thesis using assms(3) by (simp add: seg_bounds_ok_def word_less_nat_alt)
qed

definition sealed_as :: "xorfilter \<Rightarrow> bytes \<Rightarrow> indexEntry list \<Rightarrow> sealedSegment \<Rightarrow> bool" where
  "sealed_as X body entries g \<longleftrightarrow>
     (\<exists>footer f. sg_mm g = body @ footer \<and> sg_fv g = fv_of (length body) entries f \<and>
        (\<forall>e \<in> set entries. Contains X f (filterKey (ie_k e)))) \<and>
     length body < 2 ^ 64 \<and> (\<forall>e \<in> set entries. is_key (ie_k e)) \<and> length entries < 2 ^ 32 \<and>
     distinct (map ie_k entries) \<and> entries_in (length body) entries"

lemma openSealed_sealed:
  assumes "fuse_ok X" and "buildFooter X (length body) entries = Inr footer"
    and "take 8 body = magicHeader" and "\<forall>e \<in> set entries. is_key (ie_k e)" and "length entries < 2 ^ 32"
    and "distinct (map ie_k entries)" and "entries_in (length body) entries" and "length (body @ footer) < 2 ^ 64"
  obtains g where "openSealed path sid (body @ footer) = Inr g" "sg_id g = sid" "sg_path g = path"
    "sealed_as X body entries g"
proof -
  obtain f where f: "parseFooter (body @ footer) = Inr (fv_of (length body) entries f)"
    "\<forall>e \<in> set entries. Contains X f (filterKey (ie_k e))" "min_sealed \<le> length (body @ footer)"
    using parseFooter_build [OF assms(1-5,8)] by blast
  show thesis
    by (rule that [of "\<lparr>sg_id = sid, sg_path = path, sg_mm = body @ footer, sg_fv = fv_of (length body) entries f\<rparr>"])
      (use f assms in \<open>auto simp: openSealed_def sealed_as_def\<close>)
qed

lemma sealed_filter:
  assumes "sealed_as X body entries g" and "entry_map entries k = Some v"
  shows "Contains X (fv_filter (sg_fv g)) (filterKey k)"
  using assms entry_map_Some [of entries k "fst v" "snd v"] by (auto simp: sealed_as_def fv_of_def)

lemma sealed_lookup:
  assumes "sealed_as X body entries g" and "is_key k"
  shows "fv_lookup (sg_fv g) k = entry_map entries k" "unat (fv_bodyLen (sg_fv g)) = length body"
  using assms fv_lookup_of [of entries k] by (auto simp: sealed_as_def fv_of_def unat_of_nat)

lemma sealed_has:
  assumes "sealed_as X body entries g" and "is_key k"
  shows "seg_has X g k \<longleftrightarrow> k \<in> ie_k ` set entries"
  using sealed_lookup(1) [OF assms] sealed_filter [OF assms(1), of k] entry_map_None [of entries k]
  by (cases "entry_map entries k") (auto simp: seg_has_def)

lemma sealed_storedSize:
  assumes "sealed_as X body entries g" and "is_key k"
  shows "seg_storedSize X g k = map_option snd (entry_map entries k)"
    and "seg_locate X g k = map_option fst (entry_map entries k)"
  using sealed_lookup(1) [OF assms] sealed_filter [OF assms(1), of k]
  by (cases "entry_map entries k"; simp add: seg_storedSize_def seg_locate_def)+

text \<open>The record an index row points at.\<close>

definition row_record :: "bytes \<Rightarrow> u64 \<times> u32 \<Rightarrow> bytes" where
  "row_record body v = slice (unat (fst v)) (unat (fst v) + 46 + unat (snd v)) body"

definition decode_record :: "zstd \<Rightarrow> bytes \<Rightarrow> pack_err + bytes" where
  "decode_record Z rec = DecodePayload Z (rec ! 33) (Uint32 (slice 34 38 rec)) (drop 46 rec)"

lemma slice_slice: "b \<le> n \<Longrightarrow> slice a b (slice lo (lo + n) xs) = slice (lo + a) (lo + b) xs"
  by (simp add: slice_def drop_take min_def add.commute)

lemma sealed_row_bounds:
  assumes "sealed_as X body entries g" and "entry_map entries k = Some (off, slen)"
  shows "8 \<le> unat off" "unat off + 46 + unat slen \<le> length body"
  using assms entry_map_Some [OF assms(2)] by (auto simp: sealed_as_def entries_in_def)

lemma sealed_getRecord:
  assumes "sealed_as X body entries g" and "is_key k"
  shows "seg_getRecord X g k = Inr (map_option (row_record body) (entry_map entries k))"
proof (cases "entry_map entries k")
  case None
  then show ?thesis using sealed_lookup(1) [OF assms] by (simp add: seg_getRecord_def)
next
  case (Some v)
  obtain off slen where v: "v = (off, slen)" by (cases v)
  note b = sealed_row_bounds [OF assms(1) Some [unfolded v]]
  have bo: "seg_bounds_ok g off slen" by (rule bounds_ok [OF sealed_lookup(2) [OF assms] b])
  obtain footer where mm: "sg_mm g = body @ footer" using assms(1) by (auto simp: sealed_as_def)
  have "slice (unat off) (unat off + 46 + unat slen) (body @ footer) = row_record body v"
    using b(2) by (simp add: row_record_def v)
  then show ?thesis
    using sealed_filter [OF assms(1) Some] bo Some
    by (simp add: seg_getRecord_def sealed_lookup(1) [OF assms] v mm RecHeaderSize_def)
qed

lemma sealed_get:
  assumes "sealed_as X body entries g" and "is_key k"
  shows "seg_get X Z g k =
     (case entry_map entries k of
        None \<Rightarrow> Inr None
      | Some v \<Rightarrow> (case decode_record Z (row_record body v) of Inl e \<Rightarrow> Inl e | Inr d \<Rightarrow> Inr (Some d)))"
proof (cases "entry_map entries k")
  case None
  then show ?thesis using sealed_lookup(1) [OF assms] by (simp add: seg_get_def)
next
  case (Some v)
  obtain off slen where v: "v = (off, slen)" by (cases v)
  note b = sealed_row_bounds [OF assms(1) Some [unfolded v]]
  have bo: "seg_bounds_ok g off slen" by (rule bounds_ok [OF sealed_lookup(2) [OF assms] b])
  obtain footer where mm: "sg_mm g = body @ footer" using assms(1) by (auto simp: sealed_as_def)
  define o' where "o' = unat off"
  define r where "r = row_record body v"
  have r: "r = slice o' (o' + (46 + unat slen)) body" by (simp add: r_def row_record_def v o'_def add.assoc)
  have len: "length r = 46 + unat slen" using b(2) by (simp add: r o'_def)
  have h: "slice o' (o' + 46) (body @ footer) = take 46 r"
    using b(2) slice_slice [of 46 "46 + unat slen" 0 o' body] by (simp add: r o'_def take_slice)
  have "take 46 r ! 33 = r ! 33" "slice 34 38 (take 46 r) = slice 34 38 r"
    by (simp_all add: slice_def drop_take)
  moreover have "slice (o' + 46) (o' + 46 + unat slen) (body @ footer) = drop 46 r"
    using b(2) by (simp add: r o'_def slice_def drop_take add.commute)
  ultimately show ?thesis
    using sealed_lookup(1) [OF assms] sealed_filter [OF assms(1) Some] Some v bo mm h
    by (simp add: seg_get_def Let_def RecHeaderSize_def decode_record_def o'_def [symmetric] r_def [unfolded v, symmetric])
qed

section \<open>Properties\<close>

text \<open>C16: sealing round trip. A body with rows for distinct keys that point inside it, closed
  with the footer that \<open>buildFooter\<close> makes, opens as a sealed segment whose membership
  test, locate, stored size and record reads answer exactly from those rows; the filter
  hides no key.\<close>

theorem sealed_segment_reads:
  assumes "fuse_ok X" and "buildFooter X (length body) entries = Inr footer"
    and "take 8 body = magicHeader" and "\<forall>e \<in> set entries. is_key (ie_k e)" and "length entries < 2 ^ 32"
    and "distinct (map ie_k entries)" and "entries_in (length body) entries" and "length (body @ footer) < 2 ^ 64"
  shows "\<exists>g. openSealed path sid (body @ footer) = Inr g \<and>
     (\<forall>k. is_key k \<longrightarrow>
        (seg_has X g k \<longleftrightarrow> k \<in> ie_k ` set entries) \<and>
        seg_locate X g k = map_option fst (entry_map entries k) \<and>
        seg_storedSize X g k = map_option snd (entry_map entries k) \<and>
        seg_getRecord X g k = Inr (map_option (row_record body) (entry_map entries k)) \<and>
        seg_get X Z g k =
          (case entry_map entries k of
             None \<Rightarrow> Inr None
           | Some v \<Rightarrow> (case decode_record Z (row_record body v) of Inl e \<Rightarrow> Inl e | Inr d \<Rightarrow> Inr (Some d))))"
proof -
  obtain g where g: "openSealed path sid (body @ footer) = Inr g" "sealed_as X body entries g"
    by (rule openSealed_sealed [OF assms])
  then show ?thesis
    using sealed_has [OF g(2)] sealed_storedSize [OF g(2)] sealed_getRecord [OF g(2)] sealed_get [OF g(2)] by blast
qed

definition wit_body :: bytes where
  "wit_body = magicHeader @ replicate 46 0"

definition wit_entry :: indexEntry where
  "wit_entry = \<lparr>ie_k = 0 # 5 # replicate 30 7, ie_off = 8, ie_slen = 0\<rparr>"

lemma wit_footer:
  obtains footer where "buildFooter all_filter (length wit_body) [wit_entry] = Inr footer" "length footer < 2000"
proof -
  obtain filt where f: "buildFilterSection all_filter [wit_entry] = Inr filt" "length filt = 53"
    by (simp add: buildFilterSection_def all_filter_def)
  have "length (buildIndexSection [wit_entry]) = 1068"
    by (subst index_section_length) (simp_all add: wit_entry_def is_key_def Size_def)
  with f show thesis
    by (intro that) (auto simp: buildFooter_def Let_def zero4_def magicTrailer_def)
qed

theorem sealed_segment_reads_witness:
  "\<exists>footer g. buildFooter all_filter (length wit_body) [wit_entry] = Inr footer \<and>
     openSealed ''a'' 1 (wit_body @ footer) = Inr g \<and> seg_has all_filter g (ie_k wit_entry)"
proof -
  obtain footer where f: "buildFooter all_filter (length wit_body) [wit_entry] = Inr footer" "length footer < 2000"
    by (rule wit_footer)
  have "take 8 wit_body = magicHeader" "\<forall>e \<in> set [wit_entry]. is_key (ie_k e)" "length [wit_entry] < 2 ^ 32"
    "distinct (map ie_k [wit_entry])" "entries_in (length wit_body) [wit_entry]" "length (wit_body @ footer) < 2 ^ 64"
    using f(2) by (simp_all add: wit_body_def magicHeader_def wit_entry_def is_key_def Size_def entries_in_def)
  from sealed_segment_reads [OF all_filter_ok f(1) this, of "''a''" 1 rle_zstd] f(1) show ?thesis
    by (auto simp: wit_entry_def is_key_def Size_def)
qed

lemma parsed_index:
  assumes "parseFooter mm = Inr fv" and "length mm < 2 ^ 63"
  shows "length (fv_entries fv) = 44 * unat (fv_keyCount fv) \<and> length (fv_fanout fv) = 256 \<and>
     (\<forall>b < 256. let lo = (if b > 0 then fv_fanout fv ! (b - 1) else 0) in
        lo \<le> fv_fanout fv ! b \<and> unat lo + unat (fv_fanout fv ! b - lo) \<le> unat (fv_keyCount fv)) \<and>
     (\<forall>k p. fv_lookupPos fv k = Some p \<longrightarrow> p < unat (fv_keyCount fv))"
proof -
  obtain b where p: "parseIndexSection b (fv_keyCount fv) = Inr (fv_fanout fv, fv_entries fv)" and lb: "length b < 2 ^ 63"
    using parseFooter_index [OF assms] by blast
  note i = parseIndexSection_ok [OF p lb]
  have bucket: "(if c > 0 then fv_fanout fv ! (c - 1) else 0) \<le> fv_fanout fv ! c \<and>
      unat (if c > 0 then fv_fanout fv ! (c - 1) else 0) + unat (fv_fanout fv ! c - (if c > 0 then fv_fanout fv ! (c - 1) else 0))
        \<le> unat (fv_keyCount fv)" if c: "c < 256" for c
  proof -
    let ?lo = "if c > 0 then fv_fanout fv ! (c - 1) else 0"
    have le: "?lo \<le> fv_fanout fv ! c" using i(2,3) c by (auto simp: sorted_iff_nth_mono)
    moreover have "fv_fanout fv ! c \<le> fv_fanout fv ! 255" using i(2,3) c by (auto simp: sorted_iff_nth_mono)
    ultimately show ?thesis using i(4) by (auto simp: word_le_nat_alt unat_sub_if')
  qed
  moreover have "q < unat (fv_keyCount fv)" if "fv_lookupPos fv k = Some q" for k q
  proof -
    have "unat (k ! 31) < 256" by simp
    from bucket [OF this] that show ?thesis
      by (auto simp: fv_lookupPos_def searchIndexPos_def Let_def Size_def split: if_splits)
  qed
  ultimately show ?thesis using i(1,2) by (auto simp: Let_def)
qed

text \<open>C38: an index that \<open>parseFooter\<close> accepts can be searched without leaving it: the fanout
  has 256 monotonic counts and every bucket lies within the rows.\<close>

theorem parsed_index_in_bounds:
  assumes "parseFooter mm = Inr fv" and "length mm < 2 ^ 63"
  shows "length (fv_entries fv) = 44 * unat (fv_keyCount fv) \<and> length (fv_fanout fv) = 256 \<and>
     (\<forall>b < 256. let lo = (if b > 0 then fv_fanout fv ! (b - 1) else 0) in
        lo \<le> fv_fanout fv ! b \<and> unat lo + unat (fv_fanout fv ! b - lo) \<le> unat (fv_keyCount fv)) \<and>
     (\<forall>k p. fv_lookupPos fv k = Some p \<longrightarrow> p < unat (fv_keyCount fv))"
  by (rule parsed_index [OF assms])

theorem parsed_index_in_bounds_witness:
  "\<exists>footer fv. parseFooter (wit_body @ footer) = Inr fv \<and> length (fv_entries fv) = 44 * unat (fv_keyCount fv)"
proof -
  obtain footer where f: "buildFooter all_filter (length wit_body) [wit_entry] = Inr footer" "length footer < 2000"
    by (rule wit_footer)
  have "take 8 wit_body = magicHeader" "\<forall>e \<in> set [wit_entry]. is_key (ie_k e)" "length [wit_entry] < 2 ^ 32"
    "length (wit_body @ footer) < 2 ^ 64" and s: "length (wit_body @ footer) < 2 ^ 63"
    using f(2) by (simp_all add: wit_body_def magicHeader_def wit_entry_def is_key_def Size_def)
  from parseFooter_build [OF all_filter_ok f(1) this(1-4)]
  obtain fv where "parseFooter (wit_body @ footer) = Inr fv" by metis
  then show ?thesis using parsed_index_in_bounds [OF _ s] by blast
qed

end
