(* ===== verification/Amber_Disk.thy ===== *)
theory Amber_Disk
  imports Amber_Prelude "HOL-Library.AList" "HOL-Library.Sublist" "HOL-Library.Char_ord"
begin

text \<open>
  The part of the operating system the pack store uses (package \<open>os\<close> and fsync): one flat
  directory of files. A file is an inode with its bytes; an open file keeps its inode
  across a rename or an unlink. Every call that can fail takes its outcome from a fault
  plan, so a statement for all disks covers every pattern of I/O errors: \<open>None\<close> is
  success, \<open>Some n\<close> a failure, for a write after its first \<open>n\<close> bytes. \<open>dk_stable\<close> counts
  the leading bytes of a file that the last fsync made durable and no later call has
  rewritten, \<open>dk_dirty\<close> tells whether a call has changed the file since; \<open>dk_synced\<close> and
  \<open>dk_pending\<close> are the directory at its last fsync and the changes since.
\<close>

type_synonym ino = nat

datatype dirop =
    Link string ino
  | Unlink string
  | Move string string

record disk =
  dk_dirents :: "(string \<times> ino) list"
  dk_files :: "ino \<Rightarrow> bytes"
  dk_next :: ino
  dk_stable :: "ino \<Rightarrow> nat"
  dk_dirty :: "ino \<Rightarrow> bool"
  dk_synced :: "(string \<times> ino) list"
  dk_pending :: "dirop list"
  dk_faults :: "nat option list"

section \<open>Calls\<close>

fun apply_dirop :: "(string \<times> ino) list \<Rightarrow> dirop \<Rightarrow> (string \<times> ino) list" where
  "apply_dirop ds (Link n i) = AList.update n i ds"
| "apply_dirop ds (Unlink n) = AList.delete n ds"
| "apply_dirop ds (Move a b) =
     (case map_of ds a of None \<Rightarrow> ds | Some i \<Rightarrow> AList.update b i (AList.delete a ds))"

definition dir_change :: "dirop \<Rightarrow> disk \<Rightarrow> disk" where
  "dir_change op d = d\<lparr>dk_dirents := apply_dirop (dk_dirents d) op, dk_pending := dk_pending d @ [op]\<rparr>"

definition next_fault :: "disk \<Rightarrow> nat option \<times> disk" where
  "next_fault d = (case dk_faults d of [] \<Rightarrow> (None, d) | f # fs \<Rightarrow> (f, d\<lparr>dk_faults := fs\<rparr>))"

text \<open>\<open>os.OpenFile\<close> with \<open>O_CREATE|O_EXCL\<close>.\<close>

definition os_CreateExcl :: "string \<Rightarrow> disk \<Rightarrow> (string + ino) \<times> disk" where
  "os_CreateExcl n d =
     (case next_fault d of
        (Some _, d) \<Rightarrow> (Inl ''create'', d)
      | (None, d) \<Rightarrow>
          if map_of (dk_dirents d) n \<noteq> None then (Inl ''file exists'', d)
          else let i = dk_next d in
            (Inr i, dir_change (Link n i)
               (d\<lparr>dk_next := i + 1, dk_files := (dk_files d)(i := []), dk_stable := (dk_stable d)(i := 0),
                  dk_dirty := (dk_dirty d)(i := True)\<rparr>)))"

text \<open>\<open>os.OpenFile\<close> of an existing file, and mapping a file.\<close>

definition os_Open :: "string \<Rightarrow> disk \<Rightarrow> (string + ino) \<times> disk" where
  "os_Open n d =
     (case next_fault d of
        (Some _, d) \<Rightarrow> (Inl ''open'', d)
      | (None, d) \<Rightarrow> (case map_of (dk_dirents d) n of None \<Rightarrow> (Inl ''no such file'', d) | Some i \<Rightarrow> (Inr i, d)))"

definition os_ReadFile :: "string \<Rightarrow> disk \<Rightarrow> (string + bytes) \<times> disk" where
  "os_ReadFile n d =
     (case os_Open n d of (Inl e, d) \<Rightarrow> (Inl e, d) | (Inr i, d) \<Rightarrow> (Inr (dk_files d i), d))"

definition set_file :: "ino \<Rightarrow> bytes \<Rightarrow> nat \<Rightarrow> disk \<Rightarrow> disk" where
  "set_file i b keep d =
     d\<lparr>dk_files := (dk_files d)(i := b), dk_stable := (dk_stable d)(i := min keep (dk_stable d i)),
       dk_dirty := (dk_dirty d)(i := True)\<rparr>"

definition f_WriteAt :: "ino \<Rightarrow> bytes \<Rightarrow> nat \<Rightarrow> disk \<Rightarrow> string option \<times> disk" where
  "f_WriteAt i data off d =
     (case next_fault d of
        (Some n, d) \<Rightarrow> (Some ''write'', set_file i (write_at (dk_files d i) off (take n data)) off d)
      | (None, d) \<Rightarrow> (None, set_file i (write_at (dk_files d i) off data) off d))"

definition f_Truncate :: "ino \<Rightarrow> nat \<Rightarrow> disk \<Rightarrow> string option \<times> disk" where
  "f_Truncate i n d =
     (case next_fault d of
        (Some _, d) \<Rightarrow> (Some ''truncate'', d)
      | (None, d) \<Rightarrow>
          (None, set_file i (take n (dk_files d i) @ replicate (n - length (dk_files d i)) 0) n d))"

definition f_Sync :: "ino \<Rightarrow> disk \<Rightarrow> string option \<times> disk" where
  "f_Sync i d =
     (case next_fault d of
        (Some _, d) \<Rightarrow> (Some ''fsync'', d)
      | (None, d) \<Rightarrow> (None, d\<lparr>dk_stable := (dk_stable d)(i := length (dk_files d i)), dk_dirty := (dk_dirty d)(i := False)\<rparr>))"

definition f_Close :: "disk \<Rightarrow> string option \<times> disk" where
  "f_Close d = (case next_fault d of (Some _, d) \<Rightarrow> (Some ''close'', d) | (None, d) \<Rightarrow> (None, d))"

definition f_ReadAt :: "ino \<Rightarrow> nat \<Rightarrow> nat \<Rightarrow> disk \<Rightarrow> string + bytes" where
  "f_ReadAt i n off d =
     (if off + n \<le> length (dk_files d i) then Inr (slice off (off + n) (dk_files d i)) else Inl ''EOF'')"

definition os_Rename :: "string \<Rightarrow> string \<Rightarrow> disk \<Rightarrow> string option \<times> disk" where
  "os_Rename a b d =
     (case next_fault d of
        (Some _, d) \<Rightarrow> (Some ''rename'', d)
      | (None, d) \<Rightarrow>
          if map_of (dk_dirents d) a = None then (Some ''no such file'', d) else (None, dir_change (Move a b) d))"

definition os_Remove :: "string \<Rightarrow> disk \<Rightarrow> string option \<times> disk" where
  "os_Remove n d =
     (case next_fault d of
        (Some _, d) \<Rightarrow> (Some ''remove'', d)
      | (None, d) \<Rightarrow>
          if map_of (dk_dirents d) n = None then (Some ''no such file'', d) else (None, dir_change (Unlink n) d))"

definition dir_Sync :: "disk \<Rightarrow> string option \<times> disk" where
  "dir_Sync d =
     (case next_fault d of
        (Some _, d) \<Rightarrow> (Some ''fsync'', d)
      | (None, d) \<Rightarrow> (None, d\<lparr>dk_synced := dk_dirents d, dk_pending := []\<rparr>))"

text \<open>\<open>os.ReadDir\<close> lists the names in order.\<close>

definition os_ReadDir :: "disk \<Rightarrow> (string + string list) \<times> disk" where
  "os_ReadDir d =
     (case next_fault d of
        (Some _, d) \<Rightarrow> (Inl ''readdir'', d)
      | (None, d) \<Rightarrow> (Inr (sort (map fst (dk_dirents d))), d))"

section \<open>Crashes\<close>

text \<open>After a crash the directory is the synced one with some of the pending changes, in
  order. A file that no call has changed since its last fsync is as it was; any other
  keeps its stable bytes, and what follows them is arbitrary.\<close>

definition crash :: "disk \<Rightarrow> disk \<Rightarrow> bool" where
  "crash d d' \<longleftrightarrow>
     (\<exists>ops. subseq ops (dk_pending d) \<and> dk_dirents d' = foldl apply_dirop (dk_synced d) ops) \<and>
     (\<forall>i. if dk_dirty d i then take (dk_stable d i) (dk_files d' i) = take (dk_stable d i) (dk_files d i)
          else dk_files d' i = dk_files d i) \<and>
     dk_next d' = dk_next d"

section \<open>Lemmas\<close>

lemmas disk_calls = os_CreateExcl_def os_Open_def f_WriteAt_def f_Truncate_def f_Sync_def f_Close_def
  os_Rename_def os_Remove_def dir_Sync_def os_ReadDir_def

text \<open>What each call leaves of the files.\<close>

lemma next_fault_eq:
  "next_fault d = (f, d') \<Longrightarrow> \<exists>fs. d' = d\<lparr>dk_faults := fs\<rparr>"
  by (auto simp: next_fault_def split: list.splits intro: exI [of _ "dk_faults d"])

lemma dir_change_files [simp]:
  "dk_files (dir_change op d) = dk_files d" "dk_next (dir_change op d) = dk_next d"
  "dk_stable (dir_change op d) = dk_stable d" "dk_synced (dir_change op d) = dk_synced d"
  by (simp_all add: dir_change_def)

lemma set_file_simps [simp]:
  "dk_files (set_file i b n d) = (dk_files d)(i := b)" "dk_dirents (set_file i b n d) = dk_dirents d"
  "dk_next (set_file i b n d) = dk_next d" "dk_synced (set_file i b n d) = dk_synced d"
  "dk_pending (set_file i b n d) = dk_pending d" "dk_dirty (set_file i b n d) = (dk_dirty d)(i := True)"
  "dk_stable (set_file i b n d) = (dk_stable d)(i := min n (dk_stable d i))"
  by (simp_all add: set_file_def)

lemma no_file_change:
  "f_Sync i d = (r, d') \<Longrightarrow> dk_files d' = dk_files d"
  "f_Close d = (r, d') \<Longrightarrow> dk_files d' = dk_files d"
  "os_Rename a b d = (r, d') \<Longrightarrow> dk_files d' = dk_files d"
  "os_Remove a d = (r, d') \<Longrightarrow> dk_files d' = dk_files d"
  "dir_Sync d = (r, d') \<Longrightarrow> dk_files d' = dk_files d"
  "os_Open a d = (ri, d') \<Longrightarrow> dk_files d' = dk_files d"
  by (auto simp: disk_calls dest!: next_fault_eq split: prod.splits option.splits if_splits)

lemma f_WriteAt_files:
  assumes "f_WriteAt i data off d = (r, d')"
  shows "\<exists>n. dk_files d' = (dk_files d)(i := write_at (dk_files d i) off (take n data)) \<and> (r = None \<longrightarrow> take n data = data)"
  using assms
  by (auto simp: f_WriteAt_def dest!: next_fault_eq split: prod.splits option.splits intro: exI [of _ "length data"] exI)

lemma no_dir_change:
  "f_Sync i d = (r, d') \<Longrightarrow> dk_dirents d' = dk_dirents d"
  "f_Close d = (r, d') \<Longrightarrow> dk_dirents d' = dk_dirents d"
  "dir_Sync d = (r, d') \<Longrightarrow> dk_dirents d' = dk_dirents d"
  "os_Open a d = (ri, d') \<Longrightarrow> dk_dirents d' = dk_dirents d"
  "f_WriteAt i b n d = (r, d') \<Longrightarrow> dk_dirents d' = dk_dirents d"
  "f_Truncate i n d = (r, d') \<Longrightarrow> dk_dirents d' = dk_dirents d"
  by (auto simp: disk_calls dest!: next_fault_eq split: prod.splits option.splits if_splits)

lemma f_Truncate_files:
  assumes "f_Truncate i n d = (r, d')" and "n \<le> length (dk_files d i)"
  shows "dk_files d' = (case r of None \<Rightarrow> (dk_files d)(i := take n (dk_files d i)) | Some _ \<Rightarrow> dk_files d)"
  using assms by (auto simp: f_Truncate_def dest!: next_fault_eq split: prod.splits option.splits)

lemma os_Rename_ok:
  assumes "os_Rename a b d = (None, d')"
  shows "map_of (dk_dirents d') b = map_of (dk_dirents d) a" "map_of (dk_dirents d) a \<noteq> None"
  using assms
  by (auto simp: os_Rename_def dir_change_def update_conv dest!: next_fault_eq split: prod.splits option.splits if_splits)

lemma os_ReadFile_ok:
  assumes "os_ReadFile n d = (Inr b, d')"
  shows "\<exists>i. map_of (dk_dirents d) n = Some i \<and> b = dk_files d i"
    "dk_files d' = dk_files d" "dk_dirents d' = dk_dirents d"
  using assms
  by (auto simp: os_ReadFile_def os_Open_def dest!: next_fault_eq split: prod.splits option.splits sum.splits)

lemma os_ReadFile_any: "os_ReadFile n d = (r, d') \<Longrightarrow> dk_files d' = dk_files d \<and> dk_dirents d' = dk_dirents d"
  by (auto simp: os_ReadFile_def os_Open_def dest!: next_fault_eq split: prod.splits option.splits sum.splits)

lemma clean_kept:
  "f_Sync i d = (None, d') \<Longrightarrow> \<not> dk_dirty d' i"
  "f_Close d = (r, d') \<Longrightarrow> dk_dirty d' = dk_dirty d"
  "os_Rename a b d = (r, d') \<Longrightarrow> dk_dirty d' = dk_dirty d"
  "dir_Sync d = (r, d') \<Longrightarrow> dk_dirty d' = dk_dirty d"
  "os_ReadFile a d = (rb, d') \<Longrightarrow> dk_dirty d' = dk_dirty d"
  by (auto simp: disk_calls os_ReadFile_def dir_change_def dest!: next_fault_eq split: prod.splits option.splits if_splits)

text \<open>A name that is in the directory now and after any crash.\<close>

definition dir_of :: "disk \<Rightarrow> (string \<times> ino) list \<times> (string \<times> ino) list \<times> dirop list" where
  "dir_of d = (dk_dirents d, dk_synced d, dk_pending d)"

definition entry_kept :: "disk \<Rightarrow> string \<Rightarrow> ino \<Rightarrow> bool" where
  "entry_kept d n i \<longleftrightarrow> map_of (dk_dirents d) n = Some i \<and>
     (\<forall>ops. subseq ops (dk_pending d) \<longrightarrow> map_of (foldl apply_dirop (dk_synced d) ops) n = Some i)"

lemma entry_kept_cong: "dir_of d' = dir_of d \<Longrightarrow> entry_kept d' = entry_kept d"
  by (intro ext) (simp add: entry_kept_def dir_of_def)

lemma entry_kept_crash: "entry_kept d n i \<Longrightarrow> crash d d' \<Longrightarrow> map_of (dk_dirents d') n = Some i"
  by (auto simp: entry_kept_def crash_def)

lemma dir_of_same:
  "f_Sync i d = (r, d') \<Longrightarrow> dir_of d' = dir_of d"
  "f_Close d = (r, d') \<Longrightarrow> dir_of d' = dir_of d"
  "os_Open a d = (ri, d') \<Longrightarrow> dir_of d' = dir_of d"
  "f_WriteAt i b n d = (r, d') \<Longrightarrow> dir_of d' = dir_of d"
  "f_Truncate i n d = (r, d') \<Longrightarrow> dir_of d' = dir_of d"
  "os_ReadFile a d = (rb, d') \<Longrightarrow> dir_of d' = dir_of d"
  by (auto simp: disk_calls os_ReadFile_def dir_of_def dest!: next_fault_eq split: prod.splits option.splits if_splits)

lemma subseq_Nil: "subseq xs [] \<longleftrightarrow> xs = []"
  by auto

lemma dir_Sync_kept: "dir_Sync d = (None, d') \<Longrightarrow> map_of (dk_dirents d) n = Some i \<Longrightarrow> entry_kept d' n i"
  by (auto simp: dir_Sync_def entry_kept_def subseq_Nil dest!: next_fault_eq split: prod.splits option.splits)

end
