(* ===== verification/Amber_Store.thy ===== *)
theory Amber_Store
  imports Amber_Footer Amber_Disk
begin

text \<open>
  Package \<open>packstore\<close>, the store (packstore.go, prepare.go, barrier.go, missing.go,
  recover.go's \<open>activeLoc\<close>): the active segment, appends and rotation, batches, reads over
  the active and the sealed segments, the grey set of the write barrier. A method is one
  step of the state \<open>store\<close> (the code runs it under the store's locks); the disk with its
  fault plan is part of the state. A Go map that the code iterates is an association list
  with distinct keys in iteration order. Names are relative to the store directory.
\<close>

section \<open>State\<close>

datatype ps_err =
    PackErr pack_err
  | IOErr string
  | ObjNotFound
  | StoreClosed
  | WriteFailed ps_err
  | SealErr string
  | VerifyErr string
  | SeqErr string
  | UnknownSegment

record activeLoc =
  al_off :: nat
  al_flags :: byte
  al_ulen :: u32
  al_slen :: u32

record activeSegment =
  as_id :: u64
  as_path :: string
  as_f :: ino
  as_size :: nat
  as_index :: "(key \<times> activeLoc) list"

record store =
  st_disk :: disk
  st_segmentSize :: int
  st_sync :: bool
  st_capturing :: bool
  st_grey :: "key list option"
  st_sealed :: "sealedSegment list"
  st_active :: "activeSegment option"
  st_nextID :: u64
  st_closed :: bool
  st_failed :: "ps_err option"

definition sealedSuffix :: string where "sealedSuffix = ''.seg''"
definition activeSuffix :: string where "activeSuffix = ''.seg.active''"

text \<open>\<open>fmt.Sprintf("%016x", id)\<close> and \<open>strings.TrimSuffix\<close>.\<close>

definition hex16 :: "u64 \<Rightarrow> string" where
  "hex16 w = concat (map hex_byte (PutUint64 w))"

definition TrimSuffix :: "string \<Rightarrow> string \<Rightarrow> string" where
  "TrimSuffix s suf = (if suffix suf s then take (length s - length suf) s else s)"

text \<open>An I/O call whose error ends the operation.\<close>

definition try_io ::
  "(disk \<Rightarrow> string option \<times> disk) \<Rightarrow> (store \<Rightarrow> ps_err option \<times> store) \<Rightarrow> store \<Rightarrow> ps_err option \<times> store" where
  "try_io c k s =
     (case c (st_disk s) of
        (Some e, d) \<Rightarrow> (Some (IOErr e), s\<lparr>st_disk := d\<rparr>)
      | (None, d) \<Rightarrow> k (s\<lparr>st_disk := d\<rparr>))"

section \<open>Appending and sealing\<close>

definition setFailed :: "ps_err \<Rightarrow> store \<Rightarrow> store" where
  "setFailed e s = (if st_failed s = None then s\<lparr>st_failed := Some (WriteFailed e)\<rparr> else s)"

definition createActive :: "store \<Rightarrow> ps_err option \<times> store" where
  "createActive s =
     (let sid = st_nextID s; s = s\<lparr>st_nextID := sid + 1\<rparr>; path = hex16 sid @ activeSuffix in
      case os_CreateExcl path (st_disk s) of
        (Inl e, d) \<Rightarrow> (Some (IOErr e), s\<lparr>st_disk := d\<rparr>)
      | (Inr f, d) \<Rightarrow>
          let fail = (\<lambda>e d. (Some (IOErr e), s\<lparr>st_disk := snd (os_Remove path (snd (f_Close d)))\<rparr>)) in
          (case f_WriteAt f magicHeader 0 d of
             (Some e, d) \<Rightarrow> fail e d
           | (None, d) \<Rightarrow>
               (case f_Sync f d of
                  (Some e, d) \<Rightarrow> fail e d
                | (None, d) \<Rightarrow>
                    (case dir_Sync d of
                       (Some e, d) \<Rightarrow> fail e d
                     | (None, d) \<Rightarrow>
                         (None, s\<lparr>st_disk := d, st_active := Some \<lparr>as_id = sid, as_path = path, as_f = f,
                            as_size = length magicHeader, as_index = []\<rparr>\<rparr>)))))"

definition entries_of :: "(key \<times> activeLoc) list \<Rightarrow> indexEntry list" where
  "entries_of idx = map (\<lambda>(k, loc). \<lparr>ie_k = k, ie_off = of_nat (al_off loc), ie_slen = al_slen loc\<rparr>) idx"

definition publish_sealed :: "string \<Rightarrow> activeSegment \<Rightarrow> store \<Rightarrow> ps_err option \<times> store" where
  "publish_sealed sealedPath a s =
     (case os_ReadFile sealedPath (st_disk s) of
        (Inl e, d) \<Rightarrow> (Some (IOErr e), s\<lparr>st_disk := d\<rparr>)
      | (Inr mm, d) \<Rightarrow>
          (case openSealed sealedPath (as_id a) mm of
             Inl e \<Rightarrow> (Some (PackErr e), s\<lparr>st_disk := d\<rparr>)
           | Inr seg \<Rightarrow>
               try_io f_Close (\<lambda>s. (None, s))
                 (s\<lparr>st_disk := d, st_sealed := st_sealed s @ [seg], st_active := None\<rparr>)))"

definition sealActiveLocked :: "xorfilter \<Rightarrow> store \<Rightarrow> ps_err option \<times> store" where
  "sealActiveLocked X s =
     (case st_active s of
        None \<Rightarrow> (None, s)
      | Some a \<Rightarrow>
          if length (as_index a) = 0 then (None, s)
          else case buildFooter X (as_size a) (entries_of (as_index a)) of
                 Inl e \<Rightarrow> (Some (SealErr e), s)
               | Inr footer \<Rightarrow>
                   let sealedPath = TrimSuffix (as_path a) ''.active'' in
                   try_io (f_Truncate (as_f a) (as_size a))
                    (try_io (f_WriteAt (as_f a) footer (as_size a))
                     (try_io (f_Sync (as_f a))
                      (try_io (os_Rename (as_path a) sealedPath)
                       (try_io dir_Sync (publish_sealed sealedPath a))))) s)"

text \<open>The end of an append: fsync when asked to, then rotate a full segment. An fsync or a
  seal that fails poisons the write path.\<close>

definition rotate_full :: "xorfilter \<Rightarrow> activeSegment \<Rightarrow> store \<Rightarrow> ps_err option \<times> store" where
  "rotate_full X a s =
     (if int (as_size a) \<ge> st_segmentSize s
      then (case sealActiveLocked X s of
              (Some e, s) \<Rightarrow> (Some e, setFailed e s)
            | (None, s) \<Rightarrow> (None, s))
      else (None, s))"

definition append_publish :: "xorfilter \<Rightarrow> key \<Rightarrow> bytes \<Rightarrow> bool \<Rightarrow> activeSegment \<Rightarrow> store \<Rightarrow> ps_err option \<times> store" where
  "append_publish X k rec syncNow a s =
     (let loc = \<lparr>al_off = as_size a, al_flags = rec ! 33, al_ulen = Uint32 (slice 34 38 rec),
                 al_slen = Uint32 (slice 38 42 rec)\<rparr>;
          a' = a\<lparr>as_index := (k, loc) # as_index a, as_size := as_size a + length rec\<rparr>;
          (e, d) = (if syncNow \<and> st_sync s then f_Sync (as_f a) (st_disk s) else (None, st_disk s));
          s = s\<lparr>st_active := Some a', st_disk := d\<rparr>
      in case e of
           Some e \<Rightarrow> (Some (IOErr e), setFailed (IOErr e) s)
         | None \<Rightarrow> rotate_full X a' s)"

definition append_active :: "xorfilter \<Rightarrow> key \<Rightarrow> bytes \<Rightarrow> bool \<Rightarrow> activeSegment \<Rightarrow> store \<Rightarrow> ps_err option \<times> store" where
  "append_active X k rec syncNow a s =
     (if map_of (as_index a) k \<noteq> None then (None, s)
      else try_io (f_WriteAt (as_f a) rec (as_size a)) (append_publish X k rec syncNow a) s)"

definition appendLocked :: "xorfilter \<Rightarrow> key \<Rightarrow> bytes \<Rightarrow> bool \<Rightarrow> store \<Rightarrow> ps_err option \<times> store" where
  "appendLocked X k rec syncNow s =
     (if st_closed s then (Some StoreClosed, s)
      else case st_failed s of
        Some e \<Rightarrow> (Some e, s)
      | None \<Rightarrow>
          let (err, s) = (if st_active s = None then createActive s else (None, s)) in
          case (err, st_active s) of
            (Some e, _) \<Rightarrow> (Some e, s)
          | (None, None) \<Rightarrow> (None, s)
          | (None, Some a) \<Rightarrow> append_active X k rec syncNow a s)"

definition syncActive :: "store \<Rightarrow> ps_err option \<times> store" where
  "syncActive s =
     (if st_closed s then (Some StoreClosed, s)
      else case st_failed s of
        Some e \<Rightarrow> (Some e, s)
      | None \<Rightarrow>
          (case st_active s of
             None \<Rightarrow> (None, s)
           | Some a \<Rightarrow>
               if \<not> st_sync s then (None, s)
               else case f_Sync (as_f a) (st_disk s) of
                      (Some e, d) \<Rightarrow> (Some (IOErr e), setFailed (IOErr e) (s\<lparr>st_disk := d\<rparr>))
                    | (None, d) \<Rightarrow> (None, s\<lparr>st_disk := d\<rparr>)))"

section \<open>The write barrier's grey set\<close>

definition BeginBarrier :: "store \<Rightarrow> store" where
  "BeginBarrier s = s\<lparr>st_grey := Some [], st_capturing := True\<rparr>"

definition AbortBarrier :: "store \<Rightarrow> store" where
  "AbortBarrier s = s\<lparr>st_capturing := False, st_grey := None\<rparr>"

definition observe :: "key \<Rightarrow> store \<Rightarrow> store" where
  "observe k s =
     (if \<not> st_capturing s then s
      else case st_grey s of None \<Rightarrow> s | Some g \<Rightarrow> s\<lparr>st_grey := Some (List.insert k g)\<rparr>)"

definition ObserveKeys :: "key list \<Rightarrow> store \<Rightarrow> store" where
  "ObserveKeys ks s =
     (if \<not> st_capturing s then s
      else case st_grey s of None \<Rightarrow> s | Some g \<Rightarrow> s\<lparr>st_grey := Some (fold List.insert ks g)\<rparr>)"

definition takeGrey :: "store \<Rightarrow> key list option \<times> store" where
  "takeGrey s = (st_grey s, s\<lparr>st_capturing := False, st_grey := None\<rparr>)"

section \<open>Reads\<close>

definition active_loc :: "store \<Rightarrow> key \<Rightarrow> (activeSegment \<times> activeLoc) option" where
  "active_loc s k =
     (case st_active s of
        None \<Rightarrow> None
      | Some a \<Rightarrow> (case map_of (as_index a) k of None \<Rightarrow> None | Some loc \<Rightarrow> Some (a, loc)))"

definition Has :: "xorfilter \<Rightarrow> store \<Rightarrow> key \<Rightarrow> ps_err + bool" where
  "Has X s k =
     (if st_closed s then Inl StoreClosed
      else if active_loc s k \<noteq> None then Inr True
      else Inr (list_ex (\<lambda>g. seg_has X g k) (rev (st_sealed s))))"

text \<open>The loop over the sealed segments, newest first: an error or a hit ends it.\<close>

fun first_found :: "('g \<Rightarrow> pack_err + 'v option) \<Rightarrow> 'g list \<Rightarrow> ps_err + 'v option" where
  "first_found probe [] = Inr None"
| "first_found probe (g # gs) =
     (case probe g of
        Inl e \<Rightarrow> Inl (PackErr e)
      | Inr (Some v) \<Rightarrow> Inr (Some v)
      | Inr None \<Rightarrow> first_found probe gs)"

definition found_or_absent :: "ps_err + 'v option \<Rightarrow> ps_err + 'v" where
  "found_or_absent r =
     (case r of Inl e \<Rightarrow> Inl e | Inr None \<Rightarrow> Inl ObjNotFound | Inr (Some v) \<Rightarrow> Inr v)"

definition pack_result :: "pack_err + 'v \<Rightarrow> ps_err + 'v" where
  "pack_result r = (case r of Inl e \<Rightarrow> Inl (PackErr e) | Inr v \<Rightarrow> Inr v)"

definition Get :: "xorfilter \<Rightarrow> zstd \<Rightarrow> store \<Rightarrow> key \<Rightarrow> ps_err + bytes" where
  "Get X Z s k =
     (if st_closed s then Inl StoreClosed
      else case active_loc s k of
        Some (a, loc) \<Rightarrow>
          (case f_ReadAt (as_f a) (unat (al_slen loc)) (al_off loc + RecHeaderSize) (st_disk s) of
             Inl e \<Rightarrow> Inl (IOErr e)
           | Inr stored \<Rightarrow> pack_result (DecodePayload Z (al_flags loc) (al_ulen loc) stored))
      | None \<Rightarrow> found_or_absent (first_found (\<lambda>g. seg_get X Z g k) (rev (st_sealed s))))"

definition GetRecord :: "xorfilter \<Rightarrow> store \<Rightarrow> key \<Rightarrow> ps_err + bytes" where
  "GetRecord X s k =
     (if st_closed s then Inl StoreClosed
      else case active_loc s k of
        Some (a, loc) \<Rightarrow>
          (case f_ReadAt (as_f a) (RecHeaderSize + unat (al_slen loc)) (al_off loc) (st_disk s) of
             Inl e \<Rightarrow> Inl (IOErr e)
           | Inr rec \<Rightarrow> Inr rec)
      | None \<Rightarrow> found_or_absent (first_found (\<lambda>g. seg_getRecord X g k) (rev (st_sealed s))))"

definition StoredSize :: "xorfilter \<Rightarrow> store \<Rightarrow> key \<Rightarrow> ps_err + u64 option" where
  "StoredSize X s k =
     (if st_closed s then Inl StoreClosed
      else case active_loc s k of
        Some (a, loc) \<Rightarrow> Inr (Some (ucast (al_slen loc)))
      | None \<Rightarrow> first_found (\<lambda>g. Inr (map_option ucast (seg_storedSize X g k))) (rev (st_sealed s)))"

fun locate_sealed :: "xorfilter \<Rightarrow> key \<Rightarrow> sealedSegment list \<Rightarrow> (u64 \<times> u64) option" where
  "locate_sealed X k [] = None"
| "locate_sealed X k (g # gs) =
     (case seg_locate X g k of Some off \<Rightarrow> Some (sg_id g, off) | None \<Rightarrow> locate_sealed X k gs)"

definition locateLocked :: "xorfilter \<Rightarrow> store \<Rightarrow> key \<Rightarrow> (u64 \<times> u64) option" where
  "locateLocked X s k =
     (case active_loc s k of
        Some (a, loc) \<Rightarrow> Some (as_id a, of_nat (al_off loc))
      | None \<Rightarrow> locate_sealed X k (rev (st_sealed s)))"

definition cmp_word :: "'a::linorder \<Rightarrow> 'a \<Rightarrow> int" where
  "cmp_word a b = (if a < b then -1 else if b < a then 1 else 0)"

definition cmp_located :: "key \<times> (u64 \<times> u64) option \<Rightarrow> key \<times> (u64 \<times> u64) option \<Rightarrow> int" where
  "cmp_located a b =
     (case (snd a, snd b) of
        (Some _, None) \<Rightarrow> -1
      | (None, Some _) \<Rightarrow> 1
      | (None, None) \<Rightarrow> 0
      | (Some (sa, oa), Some (sb, ob)) \<Rightarrow> if cmp_word sa sb \<noteq> 0 then cmp_word sa sb else cmp_word oa ob)"

definition SortByLocation :: "xorfilter \<Rightarrow> store \<Rightarrow> key list \<Rightarrow> key list" where
  "SortByLocation X s ks =
     (if st_closed s then ks
      else map fst (SortFunc cmp_located (map (\<lambda>k. (k, locateLocked X s k)) ks)))"

section \<open>Preparing and writing objects\<close>

record psObject =
  ob_Key :: key
  ob_Data :: "bytes option"
  ob_Record :: "bytes option"

definition ob_bytes :: "bytes option \<Rightarrow> bytes" where
  "ob_bytes d = (case d of None \<Rightarrow> [] | Some b \<Rightarrow> b)"

definition verifyObject :: "(bytes \<Rightarrow> bytes) \<Rightarrow> key \<Rightarrow> bytes \<Rightarrow> ps_err option" where
  "verifyObject blake3 k data =
     (case NewFromHash (Key_Type k) (Key_Length k) (blake3 data) of
        Inl e \<Rightarrow> Some (VerifyErr ''key'')
      | Inr want \<Rightarrow>
          if want \<noteq> k then Some (VerifyErr ''payload hash'')
          else if (Key_Type k = Blob \<or> Key_Type k = XattrSet) \<and> Key_Length k \<noteq> of_nat (length data)
          then Some (VerifyErr ''length field'')
          else None)"

definition prepare :: "(bytes \<Rightarrow> bytes) \<Rightarrow> zstd \<Rightarrow> psObject \<Rightarrow> bool \<Rightarrow> ps_err + bytes \<times> nat" where
  "prepare blake3 Z obj verify =
     (case ob_Record obj of
        None \<Rightarrow>
          let data = ob_bytes (ob_Data obj) in
          (case (if verify then verifyObject blake3 (ob_Key obj) data else None) of
             Some e \<Rightarrow> Inl e
           | None \<Rightarrow>
               (case EncodeRecord Z (ob_Key obj) data of
                  Inl e \<Rightarrow> Inl (PackErr e)
                | Inr rec \<Rightarrow> Inr (rec, length data)))
      | Some raw \<Rightarrow>
          if ob_Data obj \<noteq> None then Inl (PackErr (ErrCorrupt ''both Data and Record''))
          else case ParseRecord raw of
            Inl e \<Rightarrow> Inl (PackErr e)
          | Inr rec \<Rightarrow>
              if Rec_Key rec \<noteq> ob_Key obj then Inl (PackErr (ErrCorrupt ''record key does not match''))
              else if length raw \<noteq> RecHeaderSize + unat (Rec_Slen rec)
              then Inl (PackErr (ErrCorrupt ''record length''))
              else if verify
              then (case DecodePayload Z (Rec_Flags rec) (Rec_Ulen rec) (drop RecHeaderSize raw) of
                      Inl e \<Rightarrow> Inl (PackErr e)
                    | Inr data \<Rightarrow>
                        (case verifyObject blake3 (ob_Key obj) data of
                           Some e \<Rightarrow> Inl e
                         | None \<Rightarrow> Inr (raw, unat (Rec_Ulen rec))))
              else Inr (raw, unat (Rec_Ulen rec)))"

definition Put :: "xorfilter \<Rightarrow> zstd \<Rightarrow> key \<Rightarrow> bytes \<Rightarrow> store \<Rightarrow> ps_err option \<times> store" where
  "Put X Z k data s =
     (case st_failed s of
        Some e \<Rightarrow> (Some e, s)
      | None \<Rightarrow>
          let s = observe k s in
          case Has X s k of
            Inl e \<Rightarrow> (Some e, s)
          | Inr True \<Rightarrow> (None, s)
          | Inr False \<Rightarrow>
              (case EncodeRecord Z k data of
                 Inl e \<Rightarrow> (Some (PackErr e), s)
               | Inr rec \<Rightarrow> appendLocked X k rec True s))"

text \<open>\<open>WriteBatch\<close>: the iterator yields objects or an error; on an error after an append the
  prefix is fsynced.\<close>

definition batch_fail :: "bool \<Rightarrow> ps_err \<Rightarrow> store \<Rightarrow> ps_err option \<times> store" where
  "batch_fail appended e s = (Some e, if appended then snd (syncActive s) else s)"

fun batch_loop :: "(bytes \<Rightarrow> bytes) \<Rightarrow> xorfilter \<Rightarrow> zstd \<Rightarrow> (ps_err + psObject) list \<Rightarrow> key list \<Rightarrow> bool \<Rightarrow> store \<Rightarrow>
    ps_err option \<times> store" where
  "batch_loop blake3 X Z [] seen appended s = syncActive s"
| "batch_loop blake3 X Z (Inl e # seq) seen appended s = batch_fail appended e s"
| "batch_loop blake3 X Z (Inr obj # seq) seen appended s =
     (if ob_Key obj \<in> set seen then batch_loop blake3 X Z seq seen appended s
      else
        let seen = ob_Key obj # seen; s = observe (ob_Key obj) s in
        case Has X s (ob_Key obj) of
          Inl e \<Rightarrow> batch_fail appended e s
        | Inr True \<Rightarrow> batch_loop blake3 X Z seq seen appended s
        | Inr False \<Rightarrow>
            (case prepare blake3 Z obj False of
               Inl e \<Rightarrow> batch_fail appended e s
             | Inr (rec, _) \<Rightarrow>
                 (case appendLocked X (ob_Key obj) rec False s of
                    (Some e, s) \<Rightarrow> batch_fail appended e s
                  | (None, s) \<Rightarrow> batch_loop blake3 X Z seq seen True s)))"

definition WriteBatch :: "(bytes \<Rightarrow> bytes) \<Rightarrow> xorfilter \<Rightarrow> zstd \<Rightarrow> (ps_err + psObject) list \<Rightarrow> store \<Rightarrow> ps_err option \<times> store" where
  "WriteBatch blake3 X Z seq s = batch_loop blake3 X Z seq [] False s"

definition AppendRecord :: "(bytes \<Rightarrow> bytes) \<Rightarrow> xorfilter \<Rightarrow> zstd \<Rightarrow> key \<Rightarrow> bytes option \<Rightarrow> store \<Rightarrow> ps_err option \<times> store" where
  "AppendRecord blake3 X Z k raw s =
     (if raw = None then (Some (PackErr (ErrCorrupt ''nil record'')), s)
      else case prepare blake3 Z \<lparr>ob_Key = k, ob_Data = None, ob_Record = raw\<rparr> False of
             Inl e \<Rightarrow> (Some e, s)
           | Inr (rec, _) \<Rightarrow> appendLocked X k rec False s)"

section \<open>Missing\<close>

definition minMissingChunk :: nat where "minMissingChunk = 64"

text \<open>\<open>procs\<close> is \<open>runtime.GOMAXPROCS(0)\<close>; the workers' results are joined in chunk order.\<close>

definition missing_chunk :: "xorfilter \<Rightarrow> store \<Rightarrow> key list \<Rightarrow> ps_err + key list" where
  "missing_chunk X s chunk =
     (case map_err (\<lambda>k. case Has X s k of Inl e \<Rightarrow> Inl e | Inr h \<Rightarrow> Inr (k, h)) chunk of
        Inl e \<Rightarrow> Inl e
      | Inr khs \<Rightarrow> Inr (map fst (filter (\<lambda>(k, h). \<not> h) khs)))"

definition Missing :: "xorfilter \<Rightarrow> nat \<Rightarrow> store \<Rightarrow> key list \<Rightarrow> ps_err + key list" where
  "Missing X procs s keys =
     (let m = (length keys + minMissingChunk - 1) div minMissingChunk;
          workers = (if m < procs then m else procs)
      in if workers = 0 then Inr []
         else let chunkLen = (length keys + workers - 1) div workers in
           case map_err (\<lambda>i. let lo = min (i * chunkLen) (length keys) in
                  missing_chunk X s (slice lo (min ((i + 1) * chunkLen) (length keys)) keys)) [0..<workers] of
             Inl e \<Rightarrow> Inl e
           | Inr results \<Rightarrow> Inr (concat results))"

end
