(* ===== verification/Amber_StoreLog.thy ===== *)
theory Amber_StoreLog
  imports Amber_Store
begin

text \<open>
  The pack store against its specification. The abstract store is a log of records, the
  oldest first; a key reads as the last record with that key. \<open>holds X s L\<close> says that the
  state \<open>s\<close> stores the log \<open>L\<close>: cut into the sealed segments and the active one, each file
  being its header and its records, each index pointing at them. The section order is: the
  log of one file, its index, reads (through the locale \<open>segment_probe\<close>), appends under
  every fault plan, the properties.
\<close>

section \<open>The log\<close>

definition rec_key :: "bytes \<Rightarrow> key" where
  "rec_key r = slice 1 33 r"

definition whole :: "bytes \<Rightarrow> bool" where
  "whole r \<longleftrightarrow> (\<exists>h. whole_record r h)"

definition log_map :: "bytes list \<Rightarrow> key \<rightharpoonup> bytes" where
  "log_map L = map_of (rev (map (\<lambda>r. (rec_key r, r)) L))"

definition body_of :: "bytes list \<Rightarrow> bytes" where
  "body_of L = magicHeader @ concat L"

definition loc_at :: "nat \<Rightarrow> bytes \<Rightarrow> activeLoc" where
  "loc_at off r = \<lparr>al_off = off, al_flags = r ! 33, al_ulen = Uint32 (slice 34 38 r), al_slen = Uint32 (slice 38 42 r)\<rparr>"

primrec locs :: "nat \<Rightarrow> bytes list \<Rightarrow> (key \<times> activeLoc) list" where
  "locs off [] = []"
| "locs off (r # L) = (rec_key r, loc_at off r) # locs (off + length r) L"

definition index_map :: "bytes list \<Rightarrow> key \<rightharpoonup> activeLoc" where
  "index_map L = map_of (rev (locs (length magicHeader) L))"

text \<open>A record in a file: its bytes are there and the location describes it.\<close>

definition loc_holds :: "bytes \<Rightarrow> activeLoc \<Rightarrow> bytes \<Rightarrow> bool" where
  "loc_holds b loc r \<longleftrightarrow>
     8 \<le> al_off loc \<and> al_off loc + length r \<le> length b \<and> slice (al_off loc) (al_off loc + length r) b = r \<and>
     loc = loc_at (al_off loc) r"

lemma whole_length: "whole r \<Longrightarrow> length r = 46 + unat (Uint32 (slice 38 42 r))"
  using ParseRecord_ok(7) by (auto simp: whole_def whole_record_def)

lemma whole_key: "whole r \<Longrightarrow> canonical (rec_key r) \<and> is_key (rec_key r)"
  using ParseRecord_ok(3,4) by (auto simp: whole_def whole_record_def rec_key_def canonical_def)

lemma whole_bound: "whole r \<Longrightarrow> 46 \<le> length r \<and> length r \<le> 2 ^ 29"
  using whole_record_slen [of r] by (fastforce simp: whole_def whole_record_def MaxPayload_def)

lemma log_map_Nil [simp]: "log_map [] = Map.empty"
  by (simp add: log_map_def)

lemma log_map_append: "log_map (L @ M) = log_map L ++ log_map M"
  by (simp add: log_map_def)

lemma log_map_snoc [simp]: "log_map (L @ [r]) = (log_map L)(rec_key r \<mapsto> r)"
  by (simp add: log_map_def)

lemma log_map_Some: "log_map L k = Some r \<Longrightarrow> r \<in> set L \<and> rec_key r = k"
  by (auto simp: log_map_def dest!: map_of_SomeD)

lemma dom_log_map: "dom (log_map L) = rec_key ` set L"
  by (simp add: log_map_def dom_map_of_conv_image_fst image_image)

lemma length_magicHeader [simp]: "length magicHeader = 8"
  by (simp add: magicHeader_def)

lemma body_of_snoc: "body_of (L @ [r]) = body_of L @ r"
  by (simp add: body_of_def)

lemma length_body_of: "length (body_of L) = 8 + length (concat L)"
  by (simp add: body_of_def)

lemma take_body_of [simp]: "take 8 (body_of L @ rest) = magicHeader"
  by (simp add: body_of_def)

lemma locs_append: "locs off (L @ M) = locs off L @ locs (off + length (concat L)) M"
  by (induction L arbitrary: off) (auto simp: add.assoc)

lemma length_locs [simp]: "length (locs off L) = length L"
  by (induction L arbitrary: off) auto

lemma index_map_snoc: "index_map (L @ [r]) = (index_map L)(rec_key r \<mapsto> loc_at (length (body_of L)) r)"
  by (simp add: index_map_def locs_append length_body_of)

lemma index_map_Nil [simp]: "index_map [] = Map.empty"
  by (simp add: index_map_def)

lemma loc_holds_append: "loc_holds b loc r \<Longrightarrow> loc_holds (b @ c) loc r"
  by (auto simp: loc_holds_def)

lemma loc_at_off [simp]: "al_off (loc_at n r) = n"
  by (simp add: loc_at_def)

definition rec_slen :: "bytes \<Rightarrow> u32" where
  "rec_slen r = Uint32 (slice 38 42 r)"

lemma loc_holds_fields:
  assumes "loc_holds b loc r"
  shows "al_slen loc = rec_slen r" "al_flags loc = r ! 33" "al_ulen loc = Uint32 (slice 34 38 r)"
proof -
  have loc: "loc = loc_at (al_off loc) r" using assms by (simp add: loc_holds_def)
  show "al_slen loc = rec_slen r" "al_flags loc = r ! 33" "al_ulen loc = Uint32 (slice 34 38 r)"
    using arg_cong [OF loc, of al_slen] arg_cong [OF loc, of al_flags] arg_cong [OF loc, of al_ulen]
    by (simp_all add: loc_at_def rec_slen_def)
qed

lemma loc_holds_new: "8 \<le> length b \<Longrightarrow> loc_holds (b @ r) (loc_at (length b) r) r"
  by (simp add: loc_holds_def slice_middle [of b r "[]", simplified])

text \<open>The index of a file of records agrees with its log.\<close>

lemma index_log:
  "(case index_map L k of
      None \<Rightarrow> log_map L k = None
    | Some loc \<Rightarrow> \<exists>r. log_map L k = Some r \<and> loc_holds (body_of L) loc r)"
proof (induction L rule: rev_induct)
  case Nil
  then show ?case by simp
next
  case (snoc r L)
  have "8 \<le> length (body_of L)" by (simp add: length_body_of)
  then show ?case using snoc loc_holds_append [of "body_of L" _ _ r] loc_holds_new [of "body_of L" r]
    by (auto simp: index_map_snoc body_of_snoc split: option.splits)
qed

lemma index_log_None: "index_map L k = None \<longleftrightarrow> log_map L k = None"
  using index_log [of L k] by (auto split: option.splits)

lemma index_log_Some:
  assumes "index_map L k = Some loc" and "\<forall>r \<in> set L. whole r"
  obtains r where "log_map L k = Some r" "loc_holds (body_of L) loc r" "whole r" "rec_key r = k"
proof -
  obtain r where "log_map L k = Some r" "loc_holds (body_of L) loc r"
    using index_log [of L k] assms(1) by auto
  then show thesis using that log_map_Some [of L k r] assms(2) by blast
qed

section \<open>The state that stores a log\<close>

definition sealed_is :: "xorfilter \<Rightarrow> sealedSegment \<Rightarrow> bytes list \<Rightarrow> bool" where
  "sealed_is X g L \<longleftrightarrow>
     (\<forall>r \<in> set L. whole r) \<and>
     (\<exists>entries. sealed_as X (body_of L) entries g \<and>
        entry_map entries = (\<lambda>k. map_option (\<lambda>loc. (of_nat (al_off loc), al_slen loc)) (index_map L k)))"

definition active_is :: "disk \<Rightarrow> activeSegment \<Rightarrow> bytes list \<Rightarrow> bool" where
  "active_is d a L \<longleftrightarrow>
     (\<forall>r \<in> set L. whole r) \<and> as_size a = length (body_of L) \<and> as_size a \<le> 2 ^ 37 \<and>
     take (as_size a) (dk_files d (as_f a)) = body_of L \<and>
     distinct (map fst (as_index a)) \<and> map_of (as_index a) = index_map L"

text \<open>What the next append needs of the active segment, and what holds while the write path
  has not failed: its directory entry, which no crash loses, and room below the size bound.\<close>

definition active_ready :: "disk \<Rightarrow> activeSegment \<Rightarrow> bool" where
  "active_ready d a \<longleftrightarrow> entry_kept d (as_path a) (as_f a) \<and> as_size a \<le> 2 ^ 36"

definition cut_into :: "bool \<Rightarrow> xorfilter \<Rightarrow> store \<Rightarrow> bytes list list \<Rightarrow> bytes list \<Rightarrow> bool" where
  "cut_into ready X s RS RA \<longleftrightarrow>
     list_all2 (sealed_is X) (st_sealed s) RS \<and>
     (case st_active s of
        None \<Rightarrow> RA = []
      | Some a \<Rightarrow> active_is (st_disk s) a RA \<and> (ready \<longrightarrow> active_ready (st_disk s) a)) \<and>
     st_segmentSize s \<le> 2 ^ 36"

definition holds_with :: "bool \<Rightarrow> xorfilter \<Rightarrow> store \<Rightarrow> bytes list \<Rightarrow> bool" where
  "holds_with ready X s L \<longleftrightarrow> (\<exists>RS RA. cut_into ready X s RS RA \<and> L = concat RS @ RA)"

definition holds :: "xorfilter \<Rightarrow> store \<Rightarrow> bytes list \<Rightarrow> bool" where
  "holds X s L \<longleftrightarrow> holds_with (st_failed s = None) X s L"

lemma cut_weaken: "cut_into b X s RS RA \<Longrightarrow> cut_into False X s RS RA"
  by (simp add: cut_into_def split: option.splits)

lemma holds_weaken: "holds X s L \<Longrightarrow> holds_with False X s L"
  using cut_weaken by (fastforce simp: holds_def holds_with_def)

lemma cut_whole:
  assumes "cut_into b X s RS RA"
  shows "(\<forall>L \<in> set RS. \<forall>r \<in> set L. whole r) \<and> (\<forall>r \<in> set RA. whole r)"
proof
  have "list_all2 (sealed_is X) (st_sealed s) RS" using assms by (simp add: cut_into_def)
  then show "\<forall>L \<in> set RS. \<forall>r \<in> set L. whole r" by (metis list_all2_set2 sealed_is_def)
  show "\<forall>r \<in> set RA. whole r" using assms by (auto simp: cut_into_def active_is_def split: option.splits)
qed

lemma holds_whole: "holds_with b X s L \<Longrightarrow> \<forall>r \<in> set L. whole r"
  using cut_whole by (fastforce simp: holds_with_def)

lemma setFailed_fields [simp]:
  "st_sealed (setFailed e s) = st_sealed s" "st_active (setFailed e s) = st_active s"
  "st_segmentSize (setFailed e s) = st_segmentSize s" "st_disk (setFailed e s) = st_disk s"
  "st_closed (setFailed e s) = st_closed s" "st_sync (setFailed e s) = st_sync s" "(st_failed (setFailed e s) = None) = False"
  "st_grey (setFailed e s) = st_grey s" "st_capturing (setFailed e s) = st_capturing s"
  "st_nextID (setFailed e s) = st_nextID s"
  by (simp_all add: setFailed_def)

lemma cut_cong:
  assumes "st_sealed s' = st_sealed s" and "st_active s' = st_active s" and "st_segmentSize s' = st_segmentSize s"
    and "dk_files (st_disk s') = dk_files (st_disk s)" and "dir_of (st_disk s') = dir_of (st_disk s)"
  shows "cut_into b X s' = cut_into b X s"
  by (intro ext) (simp add: assms cut_into_def active_is_def active_ready_def entry_kept_cong [OF assms(5)] split: option.splits)

lemma setFailed_holds: "holds_with False X s L \<Longrightarrow> holds X (setFailed e s) L"
  using cut_cong [of "setFailed e s" s] by (auto simp: holds_def holds_with_def)

lemma observe_same [simp]:
  "st_sealed (observe k s) = st_sealed s" "st_active (observe k s) = st_active s"
  "st_segmentSize (observe k s) = st_segmentSize s" "st_disk (observe k s) = st_disk s"
  "st_failed (observe k s) = st_failed s" "st_closed (observe k s) = st_closed s" "st_sync (observe k s) = st_sync s"
  by (simp_all add: observe_def split: option.splits)

lemma holds_observe [simp]: "holds X (observe k s) L = holds X s L"
  using cut_cong [of "observe k s" s] by (simp add: holds_def holds_with_def)

section \<open>Reads\<close>

text \<open>The loop over the sealed segments needs of a probe that it answers from the segment's
  log through some view of the record.\<close>

locale segment_probe =
  fixes probe :: "sealedSegment \<Rightarrow> key \<Rightarrow> pack_err + 'v option"
    and view :: "bytes \<Rightarrow> pack_err + 'v"
    and X :: xorfilter
  assumes probe_log: "\<lbrakk>sealed_is X g L; is_key k\<rbrakk> \<Longrightarrow>
      probe g k = (case log_map L k of None \<Rightarrow> Inr None | Some r \<Rightarrow> map_sum (\<lambda>e. e) Some (view r))"
begin

lemma newest_first:
  assumes "list_all2 (sealed_is X) gs RS" and "is_key k"
  shows "first_found (\<lambda>g. probe g k) (rev gs) =
     (case log_map (concat RS) k of None \<Rightarrow> Inr None | Some r \<Rightarrow> map_sum PackErr Some (view r))"
proof -
  have "list_all2 (sealed_is X) (rev gs) (rev RS)" using assms(1) by (simp add: list_all2_rev)
  then have "first_found (\<lambda>g. probe g k) (rev gs) =
     (case log_map (concat (rev (rev RS))) k of None \<Rightarrow> Inr None | Some r \<Rightarrow> map_sum PackErr Some (view r))"
  proof (induction "rev gs" "rev RS" arbitrary: gs RS rule: list_all2_induct)
    case Nil
    then show ?case by simp
  next
    case (Cons g gs' L RS')
    have ih: "first_found (\<lambda>g. probe g k) gs' =
       (case log_map (concat (rev RS')) k of None \<Rightarrow> Inr None | Some r \<Rightarrow> map_sum PackErr Some (view r))"
      using Cons.hyps(3) [of "rev gs'" "rev RS'"] by simp
    have RS: "rev RS' @ [L] = RS" and gs: "rev gs = g # gs'"
      using arg_cong [OF Cons.hyps(5), of rev] Cons.hyps(4) by simp_all
    note p = probe_log [OF Cons.hyps(1) assms(2)]
    show ?case
    proof (cases "log_map L k")
      case None
      then show ?thesis using p ih by (simp add: gs RS [symmetric] log_map_append map_add_def)
    next
      case (Some r)
      then show ?thesis using p by (cases "view r") (simp_all add: gs RS [symmetric] log_map_append map_add_def)
    qed
  qed
  then show ?thesis by simp
qed

end

lemma sealed_row:
  assumes "sealed_is X g L" and "is_key k"
  obtains entries where "sealed_as X (body_of L) entries g"
    "entry_map entries k = map_option (\<lambda>loc. (of_nat (al_off loc), al_slen loc)) (index_map L k)"
  using assms unfolding sealed_is_def by metis

lemma sealed_is_record:
  assumes g: "sealed_is X g L" and k: "is_key k"
  obtains entries where "sealed_as X (body_of L) entries g"
    "(case log_map L k of
        None \<Rightarrow> entry_map entries k = None
      | Some r \<Rightarrow> \<exists>v. entry_map entries k = Some v \<and> row_record (body_of L) v = r \<and> snd v = Uint32 (slice 38 42 r))"
proof -
  obtain entries where e: "sealed_as X (body_of L) entries g"
    "entry_map entries k = map_option (\<lambda>loc. (of_nat (al_off loc), al_slen loc)) (index_map L k)"
    by (rule sealed_row [OF assms])
  have len: "length (body_of L) < 2 ^ 64" using e(1) by (simp add: sealed_as_def)
  have wh: "\<forall>r \<in> set L. whole r" using g by (simp add: sealed_is_def)
  show thesis
  proof (rule that [OF e(1)], cases "index_map L k")
    case None
    then show "case log_map L k of None \<Rightarrow> entry_map entries k = None
      | Some r \<Rightarrow> \<exists>v. entry_map entries k = Some v \<and> row_record (body_of L) v = r \<and> snd v = Uint32 (slice 38 42 r)"
      using index_log_None [of L k] e(2) by simp
  next
    case (Some loc)
    obtain r where r: "log_map L k = Some r" "loc_holds (body_of L) loc r" "whole r"
      by (rule index_log_Some [OF Some wh])
    have off: "unat (of_nat (al_off loc) :: u64) = al_off loc"
      using r(2) len by (simp add: loc_holds_def unat_of_nat)
    have sl: "al_slen loc = Uint32 (slice 38 42 r)" using loc_holds_fields(1) [OF r(2)] by (simp add: rec_slen_def)
    have "row_record (body_of L) (of_nat (al_off loc), al_slen loc) = r"
      using r(2) whole_length [OF r(3)] off by (simp add: row_record_def loc_holds_def sl add.assoc)
    then show "case log_map L k of None \<Rightarrow> entry_map entries k = None
      | Some r \<Rightarrow> \<exists>v. entry_map entries k = Some v \<and> row_record (body_of L) v = r \<and> snd v = Uint32 (slice 38 42 r)"
      using e(2) Some r(1) sl by simp
  qed
qed

lemma sealed_is_reads:
  assumes "sealed_is X g L" and "is_key k"
  shows "seg_has X g k \<longleftrightarrow> k \<in> dom (log_map L)"
    and "seg_storedSize X g k = map_option rec_slen (log_map L k)"
    and "seg_getRecord X g k = Inr (log_map L k)"
    and "seg_get X Z g k = (case log_map L k of None \<Rightarrow> Inr None | Some r \<Rightarrow> map_sum (\<lambda>e. e) Some (decode_record Z r))"
proof -
  obtain entries where e: "sealed_as X (body_of L) entries g"
    "(case log_map L k of
        None \<Rightarrow> entry_map entries k = None
      | Some r \<Rightarrow> \<exists>v. entry_map entries k = Some v \<and> row_record (body_of L) v = r \<and> snd v = Uint32 (slice 38 42 r))"
    by (rule sealed_is_record [OF assms])
  show "seg_has X g k \<longleftrightarrow> k \<in> dom (log_map L)"
    using sealed_has [OF e(1) assms(2)] entry_map_None [of entries k] e(2) by (auto split: option.splits)
  show "seg_storedSize X g k = map_option rec_slen (log_map L k)"
    using sealed_storedSize(1) [OF e(1) assms(2)] e(2) by (auto simp: rec_slen_def split: option.splits)
  show "seg_getRecord X g k = Inr (log_map L k)"
    using sealed_getRecord [OF e(1) assms(2)] e(2) by (auto split: option.splits)
  show "seg_get X Z g k = (case log_map L k of None \<Rightarrow> Inr None | Some r \<Rightarrow> map_sum (\<lambda>e. e) Some (decode_record Z r))"
    using sealed_get [OF e(1) assms(2), of Z] e(2) by (auto split: option.splits sum.splits)
qed

interpretation probe_get: segment_probe "seg_get X Z" "decode_record Z" X for X Z
  by unfold_locales (rule sealed_is_reads(4))

interpretation probe_record: segment_probe "seg_getRecord X" Inr X for X
  by unfold_locales (simp add: sealed_is_reads(3) split: option.splits)

interpretation probe_size: segment_probe "\<lambda>g k. Inr (map_option ucast (seg_storedSize X g k))" "\<lambda>r. Inr (ucast (rec_slen r) :: u64)" X for X
  by unfold_locales (simp add: sealed_is_reads(2) split: option.splits)

lemma active_read:
  assumes a: "active_is d a RA"
  shows "case map_of (as_index a) k of
      None \<Rightarrow> log_map RA k = None
    | Some loc \<Rightarrow> \<exists>r. log_map RA k = Some r \<and> al_slen loc = rec_slen r \<and>
        f_ReadAt (as_f a) (RecHeaderSize + unat (al_slen loc)) (al_off loc) d = Inr r \<and>
        f_ReadAt (as_f a) (unat (al_slen loc)) (al_off loc + RecHeaderSize) d = Inr (drop 46 r) \<and>
        DecodePayload Z (al_flags loc) (al_ulen loc) (drop 46 r) = decode_record Z r"
proof (cases "map_of (as_index a) k")
  case None
  then show ?thesis using a index_log_None [of RA k] by (simp add: active_is_def)
next
  case (Some loc)
  let ?f = "dk_files d (as_f a)"
  have wh: "\<forall>r \<in> set RA. whole r" and im: "index_map RA k = Some loc"
    using a Some by (simp_all add: active_is_def)
  have b: "take (as_size a) ?f = body_of RA" and n: "as_size a = length (body_of RA)"
    using a unfolding active_is_def by blast+
  obtain r where r: "log_map RA k = Some r" "loc_holds (body_of RA) loc r" "whole r"
    by (rule index_log_Some [OF im wh])
  have off: "al_off loc + length r \<le> length (body_of RA)"
    and sl: "slice (al_off loc) (al_off loc + length r) (body_of RA) = r"
    using r(2) by (auto simp: loc_holds_def)
  have fields: "al_slen loc = rec_slen r" "al_flags loc = r ! 33" "al_ulen loc = Uint32 (slice 34 38 r)"
    by (rule loc_holds_fields [OF r(2)])+
  have len: "length r = 46 + unat (rec_slen r)" using whole_length [OF r(3)] by (simp add: rec_slen_def)
  have fl: "length (body_of RA) \<le> length ?f" using arg_cong [OF b, of length] n by simp
  have "?f = body_of RA @ drop (as_size a) ?f" using append_take_drop_id [of "as_size a" ?f] b by simp
  then obtain rest where f: "?f = body_of RA @ rest" ..
  have sf: "slice (al_off loc) (al_off loc + length r) ?f = r"
    using sl off by (simp add: f)
  have r1: "f_ReadAt (as_f a) (RecHeaderSize + unat (al_slen loc)) (al_off loc) d = Inr r"
    using sf off fl len by (simp add: f_ReadAt_def fields RecHeaderSize_def)
  have "slice (al_off loc + 46) (al_off loc + length r) ?f = slice 46 (length r) r"
    using slice_slice [of "length r" "length r" 46 "al_off loc" ?f] by (simp only: sf order_refl)
  then have r2: "f_ReadAt (as_f a) (unat (al_slen loc)) (al_off loc + RecHeaderSize) d = Inr (drop 46 r)"
    using off fl len by (simp add: f_ReadAt_def fields RecHeaderSize_def add.assoc) (simp add: slice_def)
  show ?thesis using r(1) r1 r2 Some by (simp add: fields decode_record_def)
qed

lemma cut_reads:
  assumes c: "cut_into b X s RS RA" and open_: "\<not> st_closed s" and k: "is_key k"
  shows "Has X s k = Inr (k \<in> dom (log_map (concat RS @ RA)))"
    and "GetRecord X s k = (case log_map (concat RS @ RA) k of None \<Rightarrow> Inl ObjNotFound | Some r \<Rightarrow> Inr r)"
    and "Get X Z s k = (case log_map (concat RS @ RA) k of None \<Rightarrow> Inl ObjNotFound | Some r \<Rightarrow> pack_result (decode_record Z r))"
    and "StoredSize X s k = Inr (map_option (\<lambda>r. ucast (rec_slen r)) (log_map (concat RS @ RA) k))"
proof -
  have S: "list_all2 (sealed_is X) (st_sealed s) RS" using c by (simp add: cut_into_def)
  have A: "case active_loc s k of
      None \<Rightarrow> log_map RA k = None
    | Some (a, loc) \<Rightarrow> \<exists>r. log_map RA k = Some r \<and> al_slen loc = rec_slen r \<and>
        f_ReadAt (as_f a) (RecHeaderSize + unat (al_slen loc)) (al_off loc) (st_disk s) = Inr r \<and>
        f_ReadAt (as_f a) (unat (al_slen loc)) (al_off loc + RecHeaderSize) (st_disk s) = Inr (drop 46 r) \<and>
        DecodePayload Z (al_flags loc) (al_ulen loc) (drop 46 r) = decode_record Z r"
  proof (cases "st_active s")
    case None
    then show ?thesis using c by (simp add: active_loc_def cut_into_def)
  next
    case (Some a)
    then have "active_is (st_disk s) a RA" using c by (simp add: cut_into_def)
    from active_read [OF this, of k Z] show ?thesis
      by (cases "map_of (as_index a) k") (simp_all add: active_loc_def Some)
  qed
  have has: "list_ex (\<lambda>g. seg_has X g k) (rev (st_sealed s)) = (k \<in> dom (log_map (concat RS)))"
  proof -
    have "list_ex (\<lambda>g. seg_has X g k) gs = (\<exists>L \<in> set Ls. k \<in> dom (log_map L))" if "list_all2 (sealed_is X) gs Ls" for gs Ls
      using that by (induction rule: list_all2_induct) (auto simp: sealed_is_reads(1) k)
    from this [OF S] show ?thesis by (auto simp: dom_log_map list_ex_iff)
  qed
  note get = probe_get.newest_first [OF S k, of Z] and rec = probe_record.newest_first [OF S k]
    and size = probe_size.newest_first [OF S k]
  show "Has X s k = Inr (k \<in> dom (log_map (concat RS @ RA)))"
    using A has open_ by (cases "active_loc s k") (auto simp: Has_def log_map_append split: prod.splits)
  show "GetRecord X s k = (case log_map (concat RS @ RA) k of None \<Rightarrow> Inl ObjNotFound | Some r \<Rightarrow> Inr r)"
    using A rec open_
    by (cases "active_loc s k"; cases "log_map (concat RS) k")
      (auto simp: GetRecord_def log_map_append map_add_def found_or_absent_def split: prod.splits)
  show "StoredSize X s k = Inr (map_option (\<lambda>r. ucast (rec_slen r)) (log_map (concat RS @ RA) k))"
    using A size open_
    by (cases "active_loc s k"; cases "log_map (concat RS) k")
      (auto simp: StoredSize_def log_map_append map_add_def split: prod.splits)
  show "Get X Z s k = (case log_map (concat RS @ RA) k of None \<Rightarrow> Inl ObjNotFound | Some r \<Rightarrow> pack_result (decode_record Z r))"
  proof (cases "active_loc s k")
    case None
    then show ?thesis using A get open_
      by (cases "log_map (concat RS) k"; cases "decode_record Z (the (log_map (concat RS) k))")
        (auto simp: Get_def log_map_append map_add_def found_or_absent_def pack_result_def)
  next
    case (Some p)
    then show ?thesis using A open_ by (cases p) (auto simp: Get_def log_map_append map_add_def)
  qed
qed

lemma holds_reads:
  assumes "holds X s L" and "\<not> st_closed s" and "is_key k"
  shows "Has X s k = Inr (k \<in> dom (log_map L))"
    and "GetRecord X s k = (case log_map L k of None \<Rightarrow> Inl ObjNotFound | Some r \<Rightarrow> Inr r)"
    and "Get X Z s k = (case log_map L k of None \<Rightarrow> Inl ObjNotFound | Some r \<Rightarrow> pack_result (decode_record Z r))"
    and "StoredSize X s k = Inr (map_option (\<lambda>r. ucast (rec_slen r)) (log_map L k))"
  using assms cut_reads [OF _ assms(2,3)] by (auto simp: holds_def holds_with_def)

section \<open>Sealing\<close>

text \<open>Calls that keep what is needed of the active file.\<close>

lemma try_io_cases:
  assumes "try_io c k s = (e, s')"
  obtains (fail) msg d where "c (st_disk s) = (Some msg, d)" "e = Some (IOErr msg)" "s' = s\<lparr>st_disk := d\<rparr>"
    | (ok) d where "c (st_disk s) = (None, d)" "k (s\<lparr>st_disk := d\<rparr>) = (e, s')"
  using assms by (auto simp: try_io_def split: prod.splits option.splits)

lemma entries_of_keys: "map ie_k (entries_of idx) = map fst idx"
  by (simp add: entries_of_def split_def comp_def)

lemma entries_of_map:
  "entry_map (entries_of idx) = (\<lambda>k. map_option (\<lambda>loc. (of_nat (al_off loc), al_slen loc)) (map_of idx k))"
  by (induction idx) (auto simp: entry_map_def entries_of_def)

lemma dom_index_map: "dom (index_map L) = rec_key ` set L"
  using index_log_None [of L] dom_log_map [of L] by (auto simp: dom_def)

lemma index_size:
  assumes "distinct (map fst idx)" and "map_of idx = index_map L"
  shows "length idx \<le> length L"
proof -
  have "fst ` set idx = rec_key ` set L" using dom_map_of_conv_image_fst [of idx] assms(2) dom_index_map [of L] by simp
  then have "card (set (map fst idx)) \<le> length L" using card_length [of "map rec_key L"] by simp
  then show ?thesis using distinct_card [OF assms(1)] by simp
qed

lemma log_size: "\<forall>r \<in> set L. whole r \<Longrightarrow> 46 * length L \<le> length (concat L)"
  using whole_bound by (induction L) (fastforce)+

text \<open>Closing the body of a log with its footer gives a sealed segment with the same log.\<close>

lemma seal_bytes:
  assumes X: "fuse_ok X" and a: "active_is d a L"
    and f: "buildFooter X (as_size a) (entries_of (as_index a)) = Inr footer"
    and o: "openSealed path sid (body_of L @ footer) = r"
  shows "\<exists>g. r = Inr g \<and> sealed_is X g L \<and> sg_id g = sid \<and> sg_path g = path"
proof -
  let ?es = "entries_of (as_index a)"
  have wh: "\<forall>r \<in> set L. whole r" and n: "as_size a = length (body_of L)" and le: "as_size a \<le> 2 ^ 37"
    and dist: "distinct (map fst (as_index a))" and im: "map_of (as_index a) = index_map L"
    using a unfolding active_is_def by blast+
  have keys: "\<forall>e \<in> set ?es. is_key (ie_k e)"
  proof
    fix e assume "e \<in> set ?es"
    then have "ie_k e \<in> set (map fst (as_index a))" by (metis entries_of_keys in_set_conv_nth length_map nth_map)
    then have "ie_k e \<in> rec_key ` set L"
      using dom_map_of_conv_image_fst [of "as_index a"] im dom_index_map [of L] by auto
    then show "is_key (ie_k e)" using wh whole_key by auto
  qed
  have cnt: "length ?es < 2 ^ 32"
    using index_size [OF dist im] log_size [OF wh] n le by (simp add: entries_of_def length_body_of)
  have d': "distinct (map ie_k ?es)" by (simp add: entries_of_keys dist)
  have off: "unat (of_nat (al_off loc) :: u64) = al_off loc" if "al_off loc \<le> 2 ^ 37" for loc
    using that by (simp add: unat_of_nat)
  have ei: "entries_in (length (body_of L)) ?es"
    unfolding entries_in_def
  proof
    fix e assume e: "e \<in> set ?es"
    then obtain k loc where kl: "(k, loc) \<in> set (as_index a)" "e = \<lparr>ie_k = k, ie_off = of_nat (al_off loc), ie_slen = al_slen loc\<rparr>"
      by (auto simp: entries_of_def)
    have "index_map L k = Some loc" using map_of_is_SomeI [OF dist kl(1)] im by simp
    then obtain r where r: "loc_holds (body_of L) loc r" "whole r" using index_log_Some wh by blast
    have b: "8 \<le> al_off loc" "al_off loc + length r \<le> length (body_of L)" "al_slen loc = rec_slen r"
      using r(1) loc_holds_fields(1) [OF r(1)] by (auto simp: loc_holds_def)
    have "length r = 46 + unat (rec_slen r)" using whole_length [OF r(2)] by (simp add: rec_slen_def)
    then show "8 \<le> unat (ie_off e) \<and> unat (ie_off e) + 46 + unat (ie_slen e) \<le> length (body_of L)"
      using b n le off [of loc] by (simp add: kl(2))
  qed
  have hd8: "take 8 (body_of L) = magicHeader" by (simp add: body_of_def)
  obtain fu where fu: "fuse_geometry fu" and foot: "length footer = 1 + length (buildIndexSection ?es) + length (filter_bytes fu) + 64"
  proof (rule buildFooter_parts [OF f])
    fix fu assume ne: "?es \<noteq> []" and nb: "NewBinaryFuse X (footer_tails ?es) = Some fu"
      and ft: "footer = tagSeal # buildIndexSection ?es @ filter_bytes fu @
         trailer_bytes (as_size a) (length (buildIndexSection ?es)) (length (filter_bytes fu)) (length ?es)
           (crc32_Checksum (tagSeal # buildIndexSection ?es @ filter_bytes fu @
              trailer_fields (of_nat (as_size a)) (length (buildIndexSection ?es)) (length (filter_bytes fu)) (length ?es)))"
    have "footer_tails ?es \<noteq> []" using ne footer_tails_set [of ?es] by force
    then have "fuse_geometry fu" using X nb footer_tails_distinct by (auto simp: fuse_ok_def)
    then show thesis using ft
      by (intro that [of fu]) (simp_all add: trailer_bytes_def trailer_fields_def Let_def zero4_def magicTrailer_def)
  qed
  have "length (filter_bytes fu) < 29 + 2 * 2 ^ 32"
  proof -
    have "length (concat (map PutUint16 xs)) = 2 * length xs" for xs by (induction xs) auto
    then show ?thesis using fu by (simp add: filter_bytes_def fuse_geometry_def)
  qed
  then have tot: "length (body_of L @ footer) < 2 ^ 64"
    using foot index_section_length [OF keys] cnt n le by simp
  obtain g where "openSealed path sid (body_of L @ footer) = Inr g" "sg_id g = sid" "sg_path g = path"
    "sealed_as X (body_of L) ?es g"
    by (rule openSealed_sealed [OF X f [unfolded n] hd8 keys cnt d' ei tot])
  then show ?thesis using o wh entries_of_map [of "as_index a"] im by (auto simp: sealed_is_def)
qed

lemma active_is_files:
  assumes "active_is d a L" and "take (as_size a) (dk_files d' (as_f a)) = take (as_size a) (dk_files d (as_f a))"
  shows "active_is d' a L"
  using assms unfolding active_is_def by metis

lemma active_is_length: "active_is d a L \<Longrightarrow> as_size a \<le> length (dk_files d (as_f a))"
  unfolding active_is_def by (metis length_take min.cobounded1)

text \<open>What appending, sealing and the other calls leave alone.\<close>

definition same_frame :: "store \<Rightarrow> store \<Rightarrow> bool" where
  "same_frame s s' \<longleftrightarrow>
     st_closed s' = st_closed s \<and> st_segmentSize s' = st_segmentSize s \<and> st_sync s' = st_sync s \<and>
     st_capturing s' = st_capturing s \<and> st_grey s' = st_grey s"

lemma same_frame_refl [simp]: "same_frame s s"
  by (simp add: same_frame_def)

lemma same_frame_trans: "same_frame s s' \<Longrightarrow> same_frame s' s'' \<Longrightarrow> same_frame s s''"
  by (simp add: same_frame_def)

lemma same_frame_disk [simp]: "same_frame s (s\<lparr>st_disk := d\<rparr>)" "same_frame s (setFailed e s)"
  by (simp_all add: same_frame_def)

lemma cut_disk:
  assumes "cut_into b X s RS RA" and "\<And>a. st_active s = Some a \<Longrightarrow>
      take (as_size a) (dk_files d (as_f a)) = take (as_size a) (dk_files (st_disk s) (as_f a))"
  shows "cut_into False X (s\<lparr>st_disk := d\<rparr>) RS RA"
proof (cases "st_active s")
  case None
  then show ?thesis using assms(1) by (simp add: cut_into_def)
next
  case (Some a)
  then have "active_is d a RA" using assms(1) active_is_files [OF _ assms(2)] by (simp add: cut_into_def)
  then show ?thesis using assms(1) Some by (simp add: cut_into_def)
qed

text \<open>The outcomes of sealing: nothing to seal; an error, with the segment still active; or
  the active segment's records as one more sealed segment.\<close>

definition sealed_more :: "store \<Rightarrow> activeSegment \<Rightarrow> store \<Rightarrow> bool" where
  "sealed_more s a s' \<longleftrightarrow>
     st_active s' = None \<and> (\<exists>g. st_sealed s' = st_sealed s @ [g] \<and> sg_id g = as_id a)"

definition sealed_or_kept :: "xorfilter \<Rightarrow> store \<Rightarrow> bytes list list \<Rightarrow> bytes list \<Rightarrow> ps_err option \<Rightarrow> store \<Rightarrow> bool" where
  "sealed_or_kept X s RS RA e s' \<longleftrightarrow>
     same_frame s s' \<and> st_failed s' = st_failed s \<and> st_nextID s' = st_nextID s \<and>
     (s' = s \<and> e = None \<and> (st_active s = None \<or> RA = []) \<or>
      e \<noteq> None \<and> cut_into False X s' RS RA \<and> st_active s' = st_active s \<and> st_sealed s' = st_sealed s \<or>
      cut_into True X s' (RS @ [RA]) [] \<and> (\<exists>a. st_active s = Some a \<and> sealed_more s a s'))"

lemma publish_keeps:
  assumes X: "fuse_ok X" and c: "cut_into b X s RS RA" and a: "st_active s = Some a"
    and img: "\<forall>i. map_of (dk_dirents (st_disk s)) path = Some i \<longrightarrow> dk_files (st_disk s) i = body_of RA @ footer"
    and f: "buildFooter X (as_size a) (entries_of (as_index a)) = Inr footer"
    and p: "publish_sealed path a s = (e, s')" and s: "s = s0\<lparr>st_disk := d0\<rparr>"
  shows "sealed_or_kept X s0 RS RA e s'"
proof (cases "os_ReadFile path (st_disk s)")
  case (Pair r d)
  show ?thesis
  proof (cases r)
    case (Inl msg)
    then have "s' = s\<lparr>st_disk := d\<rparr>" "e \<noteq> None" using p Pair by (auto simp: publish_sealed_def)
    then show ?thesis using cut_disk [OF c, of d] os_ReadFile_any [OF Pair] s by (simp add: sealed_or_kept_def same_frame_def)
  next
    case (Inr mm)
    have mm: "mm = body_of RA @ footer" using os_ReadFile_ok(1) Pair Inr img by blast
    have "active_is (st_disk s) a RA" using c a by (simp add: cut_into_def)
    then obtain g where g: "openSealed path (as_id a) mm = Inr g" "sealed_is X g RA" "sg_id g = as_id a"
      using seal_bytes [OF X _ f] mm by blast
    let ?s = "s\<lparr>st_disk := d, st_sealed := st_sealed s @ [g], st_active := None\<rparr>"
    have t: "try_io f_Close (\<lambda>s. (None, s)) ?s = (e, s')" using p Pair Inr g by (simp add: publish_sealed_def)
    have cut: "cut_into True X (?s\<lparr>st_disk := d'\<rparr>) (RS @ [RA]) []" for d'
      using c g(2) by (simp add: cut_into_def list_all2_appendI)
    obtain d' where "s' = ?s\<lparr>st_disk := d'\<rparr>" using try_io_cases [OF t] by blast
    then show ?thesis using cut [of d'] a g(3) s by (simp add: sealed_or_kept_def sealed_more_def same_frame_def)
  qed
qed

lemma cut_take: "cut_into b X s RS RA \<Longrightarrow> st_active s = Some a \<Longrightarrow> active_is (st_disk s) a RA"
  by (simp add: cut_into_def)

lemma seal_stage:
  assumes c: "cut_into b X s RS RA" and a: "st_active s = Some a"
    and t: "try_io c k (s\<lparr>st_disk := d\<rparr>) = (e, s')"
    and keep: "\<And>m d'. c d = (Some m, d') \<Longrightarrow> take (as_size a) (dk_files d' (as_f a)) = body_of RA"
  shows "sealed_or_kept X s RS RA e s' \<or> (\<exists>d'. c d = (None, d') \<and> k (s\<lparr>st_disk := d'\<rparr>) = (e, s'))"
  using t
proof (cases rule: try_io_cases)
  case (fail msg d')
  have "take (as_size a) (dk_files (st_disk s) (as_f a)) = body_of RA"
    using cut_take [OF c a] unfolding active_is_def by blast
  then show ?thesis using fail keep [of msg d'] cut_disk [OF c, of d'] a
    by (simp add: sealed_or_kept_def same_frame_def)
next
  case (ok d')
  then show ?thesis by auto
qed

lemma seal_active:
  assumes X: "fuse_ok X" and c: "cut_into b X s RS RA" and a: "st_active s = Some a"
    and dir: "map_of (dk_dirents (st_disk s)) (as_path a) = Some (as_f a)"
    and f: "buildFooter X (as_size a) (entries_of (as_index a)) = Inr footer"
    and t: "try_io (f_Truncate (as_f a) (as_size a))
        (try_io (f_WriteAt (as_f a) footer (as_size a)) (try_io (f_Sync (as_f a))
          (try_io (os_Rename (as_path a) path) (try_io dir_Sync (publish_sealed path a))))) s = (e, s')"
  shows "sealed_or_kept X s RS RA e s'"
proof (rule ccontr)
  assume no: "\<not> sealed_or_kept X s RS RA e s'"
  let ?f = "as_f a" and ?n = "as_size a" and ?d = "st_disk s"
  have act: "active_is ?d a RA" by (rule cut_take [OF c a])
  have b: "take ?n (dk_files ?d ?f) = body_of RA" "?n = length (body_of RA)" using act unfolding active_is_def by blast+
  note tr = f_Truncate_files [OF _ active_is_length [OF act]]
  obtain d1 where d1: "f_Truncate ?f ?n ?d = (None, d1)"
    and t1: "try_io (f_WriteAt ?f footer ?n) (try_io (f_Sync ?f) (try_io (os_Rename (as_path a) path)
       (try_io dir_Sync (publish_sealed path a)))) (s\<lparr>st_disk := d1\<rparr>) = (e, s')"
  proof -
    have "take ?n (dk_files d' ?f) = body_of RA" if "f_Truncate ?f ?n ?d = (Some m, d')" for m d'
      using tr [OF that] b by simp
    moreover have "try_io (f_Truncate ?f ?n) (try_io (f_WriteAt ?f footer ?n) (try_io (f_Sync ?f)
        (try_io (os_Rename (as_path a) path) (try_io dir_Sync (publish_sealed path a))))) (s\<lparr>st_disk := ?d\<rparr>) = (e, s')"
      using t by simp
    ultimately show thesis using seal_stage [OF c a, of _ _ ?d e s'] no that by blast
  qed
  have f1: "dk_files d1 ?f = body_of RA" "dk_dirents d1 = dk_dirents ?d" using tr [OF d1] no_dir_change(6) [OF d1] b by simp_all
  obtain d2 where d2: "f_WriteAt ?f footer ?n d1 = (None, d2)"
    and t2: "try_io (f_Sync ?f) (try_io (os_Rename (as_path a) path) (try_io dir_Sync (publish_sealed path a)))
       (s\<lparr>st_disk := d2\<rparr>) = (e, s')"
  proof -
    have "take ?n (dk_files d' ?f) = body_of RA" if "f_WriteAt ?f footer ?n d1 = (Some m, d')" for m d'
      using f_WriteAt_files [OF that] f1 b by auto
    then show thesis using seal_stage [OF c a t1] no that by blast
  qed
  have f2: "dk_files d2 ?f = body_of RA @ footer" "dk_dirents d2 = dk_dirents ?d"
    using f_WriteAt_files [OF d2] f1 b no_dir_change(5) [OF d2] by auto
  obtain d3 where d3: "f_Sync ?f d2 = (None, d3)"
    and t3: "try_io (os_Rename (as_path a) path) (try_io dir_Sync (publish_sealed path a)) (s\<lparr>st_disk := d3\<rparr>) = (e, s')"
  proof -
    have "take ?n (dk_files d' ?f) = body_of RA" if "f_Sync ?f d2 = (Some m, d')" for m d'
      using no_file_change(1) [OF that] f2(1) b by simp
    then show thesis using seal_stage [OF c a t2] no that by blast
  qed
  have f3: "dk_files d3 = dk_files d2" "dk_dirents d3 = dk_dirents d2"
    by (rule no_file_change(1) [OF d3] no_dir_change(1) [OF d3])+
  obtain d4 where d4: "os_Rename (as_path a) path d3 = (None, d4)"
    and t4: "try_io dir_Sync (publish_sealed path a) (s\<lparr>st_disk := d4\<rparr>) = (e, s')"
  proof -
    have "take ?n (dk_files d' ?f) = body_of RA" if "os_Rename (as_path a) path d3 = (Some m, d')" for m d'
      using no_file_change(3) [OF that] f3 f2(1) b by simp
    then show thesis using seal_stage [OF c a t3] no that by blast
  qed
  have f4: "dk_files d4 = dk_files d2" "map_of (dk_dirents d4) path = Some ?f"
    using no_file_change(3) [OF d4] os_Rename_ok(1) [OF d4] f3 f2(2) dir by simp_all
  obtain d5 where d5: "dir_Sync d4 = (None, d5)" and t5: "publish_sealed path a (s\<lparr>st_disk := d5\<rparr>) = (e, s')"
  proof -
    have "take ?n (dk_files d' ?f) = body_of RA" if "dir_Sync d4 = (Some m, d')" for m d'
      using no_file_change(5) [OF that] f4 f2(1) b by simp
    then show thesis using seal_stage [OF c a t4] no that by blast
  qed
  have f5: "dk_files d5 ?f = body_of RA @ footer" "map_of (dk_dirents d5) path = Some ?f"
    using no_file_change(5) [OF d5] no_dir_change(3) [OF d5] f4 f2(1) by simp_all
  have "cut_into False X (s\<lparr>st_disk := d5\<rparr>) RS RA" using cut_disk [OF c, of d5] a f5 b by simp
  from publish_keeps [OF X this _ _ f t5 refl] no show False
    using f5 a by simp
qed

lemma seal_keeps:
  assumes X: "fuse_ok X" and c: "cut_into b X s RS RA" and q: "sealActiveLocked X s = (e, s')"
    and dir: "\<And>a. st_active s = Some a \<Longrightarrow> map_of (dk_dirents (st_disk s)) (as_path a) = Some (as_f a)"
  shows "sealed_or_kept X s RS RA e s'"
proof (cases "st_active s")
  case None
  then show ?thesis using q by (simp add: sealActiveLocked_def sealed_or_kept_def)
next
  case (Some a)
  have act: "active_is (st_disk s) a RA" by (rule cut_take [OF c Some])
  show ?thesis
  proof (cases "as_index a = []")
    case True
    then have "index_map RA = Map.empty" using act by (auto simp: active_is_def)
    then have "RA = []" using dom_index_map [of RA] by simp
    then show ?thesis using q Some True by (simp add: sealActiveLocked_def sealed_or_kept_def)
  next
    case False
    show ?thesis
    proof (cases "buildFooter X (as_size a) (entries_of (as_index a))")
      case (Inl msg)
      then have "s' = s" "e \<noteq> None" using q Some False by (auto simp: sealActiveLocked_def)
      then show ?thesis using cut_weaken [OF c] by (simp add: sealed_or_kept_def)
    next
      case (Inr footer)
      show ?thesis by (rule seal_active [OF X c Some dir [OF Some] Inr]) (use q Some False Inr in \<open>simp add: sealActiveLocked_def Let_def\<close>)
    qed
  qed
qed

section \<open>Appending\<close>

definition ids_ok :: "store \<Rightarrow> bool" where
  "ids_ok s \<longleftrightarrow>
     distinct (map sg_id (st_sealed s) @ (case st_active s of None \<Rightarrow> [] | Some a \<Rightarrow> [as_id a])) \<and>
     (\<forall>g \<in> set (st_sealed s). sg_id g < st_nextID s) \<and>
     (\<forall>a. st_active s = Some a \<longrightarrow> as_id a < st_nextID s)"

lemma ids_ok_cong:
  "st_sealed s' = st_sealed s \<Longrightarrow> st_active s' = st_active s \<Longrightarrow> st_nextID s' = st_nextID s \<Longrightarrow> ids_ok s' = ids_ok s"
  by (simp add: ids_ok_def)

lemma sealed_more_ids: "ids_ok s \<Longrightarrow> st_active s = Some a \<Longrightarrow> sealed_more s a s' \<Longrightarrow> st_nextID s' = st_nextID s \<Longrightarrow> ids_ok s'"
  by (auto simp: ids_ok_def sealed_more_def)

lemma setFailed_ids [simp]: "ids_ok (setFailed e s) = ids_ok s"
  by (rule ids_ok_cong) simp_all

lemma seal_ids:
  assumes "sealed_or_kept X s RS RA e s'" and "ids_ok s"
  shows "ids_ok s'"
  using assms sealed_more_ids ids_ok_cong [of s' s] by (auto simp: sealed_or_kept_def)

lemma word_succ_greater: "unat w + 1 < 2 ^ 64 \<Longrightarrow> x < w \<Longrightarrow> x < w + 1" for w :: u64
  by (simp add: word_less_nat_alt unat_word_ariths)

lemma word_less_succ: "unat w + 1 < 2 ^ 64 \<Longrightarrow> w < w + 1" for w :: u64
  by (simp add: word_less_nat_alt unat_word_ariths)

lemma createActive_keeps:
  assumes c: "cut_into b X s RS RA" and none: "st_active s = None" and q: "createActive s = (e, s')"
  shows "same_frame s s' \<and> st_failed s' = st_failed s \<and> st_sealed s' = st_sealed s \<and>
     st_nextID s' = st_nextID s + 1 \<and> cut_into True X s' RS RA \<and>
     (e \<noteq> None \<and> st_active s' = None \<or>
      e = None \<and> (\<exists>a. st_active s' = Some a \<and> as_id a = st_nextID s))"
proof -
  let ?path = "hex16 (st_nextID s) @ activeSuffix"
  let ?s = "s\<lparr>st_nextID := st_nextID s + 1\<rparr>"
  have RA: "RA = []" using c none by (simp add: cut_into_def)
  have bad: "cut_into True X (?s\<lparr>st_disk := d\<rparr>) RS RA" for d
    using c none by (simp add: cut_into_def)
  consider (fail) m d where "e = Some m" "s' = ?s\<lparr>st_disk := d\<rparr>"
    | (ok) f d1 d2 d3 d4 where "os_CreateExcl ?path (st_disk s) = (Inr f, d1)" "f_WriteAt f magicHeader 0 d1 = (None, d2)"
        "f_Sync f d2 = (None, d3)" "dir_Sync d3 = (None, d4)" "e = None"
        "s' = ?s\<lparr>st_disk := d4, st_active := Some \<lparr>as_id = st_nextID s, as_path = ?path, as_f = f,
                            as_size = length magicHeader, as_index = []\<rparr>\<rparr>"
    using q by (auto simp: createActive_def Let_def split: prod.splits sum.splits option.splits)
  then show ?thesis
  proof cases
    case fail
    then show ?thesis using bad none by (simp add: same_frame_def)
  next
    case ok
    have "dk_files d1 f = []" "map_of (dk_dirents d1) ?path = Some f"
      using ok(1) by (auto simp: os_CreateExcl_def Let_def dir_change_def update_conv
          dest!: next_fault_eq split: prod.splits option.splits if_splits)
    moreover have "dk_files d2 f = write_at (dk_files d1 f) 0 magicHeader" using f_WriteAt_files [OF ok(2)] by auto
    ultimately have "dk_files d4 f = magicHeader" "entry_kept d4 ?path f"
      using no_file_change(5) [OF ok(4)] no_file_change(1) [OF ok(3)] dir_Sync_kept [OF ok(4)] no_dir_change(1) [OF ok(3)]
        no_dir_change(5) [OF ok(2)] write_at_end [of "[]" magicHeader] by simp_all
    then have "active_is d4 \<lparr>as_id = st_nextID s, as_path = ?path, as_f = f, as_size = length magicHeader, as_index = []\<rparr> RA"
      "active_ready d4 \<lparr>as_id = st_nextID s, as_path = ?path, as_f = f, as_size = length magicHeader, as_index = []\<rparr>"
      by (simp_all add: active_is_def active_ready_def RA body_of_def)
    then show ?thesis using ok c by (simp add: cut_into_def same_frame_def)
  qed
qed

lemma createActive_ids:
  assumes "cut_into b X s RS RA" and "st_active s = None" and "createActive s = (e, s')"
    and "ids_ok s" and "unat (st_nextID s) + 1 < 2 ^ 64"
  shows "ids_ok s'"
  using createActive_keeps [OF assms(1-3)] assms(2,4) word_succ_greater [OF assms(5)] word_less_succ [OF assms(5)]
  by (auto simp: ids_ok_def)

text \<open>Adding a record to the active segment.\<close>

lemma active_append:
  assumes a: "active_is d a RA" and r: "whole rec" and small: "as_size a \<le> 2 ^ 36"
    and new: "map_of (as_index a) (rec_key rec) = None"
    and w: "dk_files d' (as_f a) = write_at (dk_files d (as_f a)) (as_size a) rec"
  shows "active_is d' (a\<lparr>as_index := (rec_key rec, loc_at (as_size a) rec) # as_index a,
            as_size := as_size a + length rec\<rparr>) (RA @ [rec])"
proof -
  have b: "take (as_size a) (dk_files d (as_f a)) = body_of RA" "as_size a = length (body_of RA)"
    and wh: "\<forall>r \<in> set RA. whole r" and di: "distinct (map fst (as_index a))" and im: "map_of (as_index a) = index_map RA"
    using a unfolding active_is_def by blast+
  have "take (as_size a + length rec) (dk_files d' (as_f a)) = take (as_size a) (dk_files d (as_f a)) @ rec"
    unfolding w using take_write_at_over [of "as_size a" "dk_files d (as_f a)" rec] active_is_length [OF a] by simp
  then have "take (length (body_of RA) + length rec) (dk_files d' (as_f a)) = body_of (RA @ [rec])"
    using b by (simp add: body_of_snoc)
  moreover have "rec_key rec \<notin> fst ` set (as_index a)" using new by (simp add: map_of_eq_None_iff)
  moreover have "as_size a + length rec \<le> 2 ^ 37" using small whole_bound [OF r] by simp
  ultimately show ?thesis using wh r di im b(2)
    by (simp add: active_is_def body_of_snoc index_map_snoc)
qed

definition append_effect :: "xorfilter \<Rightarrow> store \<Rightarrow> bytes list list \<Rightarrow> bytes list \<Rightarrow> bytes \<Rightarrow> ps_err option \<Rightarrow> store \<Rightarrow> bool" where
  "append_effect X s RS RA rec e s' \<longleftrightarrow>
     same_frame s s' \<and>
     (\<exists>gs RS2 RA' new. st_sealed s' = st_sealed s @ gs \<and> cut_into (st_failed s' = None) X s' (RS @ RS2) RA' \<and>
        concat RS2 @ RA' = RA @ new \<and> (new = [] \<or> new = [rec]) \<and>
        (e = None \<longrightarrow> rec_key rec \<in> dom (log_map (RA @ new))))"

definition ids_kept :: "store \<Rightarrow> store \<Rightarrow> bool" where
  "ids_kept s s' \<longleftrightarrow> st_nextID s' = st_nextID s \<and> (ids_ok s \<longrightarrow> ids_ok s')"

lemma append_effectI:
  assumes "same_frame s s'" and "st_sealed s' = st_sealed s @ gs" and "cut_into (st_failed s' = None) X s' (RS @ RS2) RA'"
    and "concat RS2 @ RA' = RA @ new" and "new = [] \<or> new = [rec]"
    and "e = None \<longrightarrow> rec_key rec \<in> dom (log_map (RA @ new))"
  shows "append_effect X s RS RA rec e s'"
  using assms unfolding append_effect_def by blast

text \<open>Nothing but the disk, or the failure flag, changed.\<close>

lemma append_effect_none:
  assumes "cut_into (st_failed s' = None) X s' RS RA" and "same_frame s s'" and "st_sealed s' = st_sealed s"
    and "e = None \<longrightarrow> rec_key rec \<in> dom (log_map RA)"
  shows "append_effect X s RS RA rec e s'"
  by (rule append_effectI [where gs = "[]" and new = "[]" and ?RS2.0 = "[]" and RA' = RA]) (use assms in auto)

lemma rotate_effect:
  assumes X: "fuse_ok X" and c: "cut_into False X s RS (RA @ [rec])" and a: "st_active s = Some a"
    and dir: "entry_kept (st_disk s) (as_path a) (as_f a)" and nf: "st_failed s = None"
    and q: "rotate_full X a s = (e, s')"
  shows "append_effect X s RS RA rec e s' \<and> ids_kept s s'"
proof (cases "int (as_size a) \<ge> st_segmentSize s")
  case False
  then have "as_size a \<le> 2 ^ 36" using c by (simp add: cut_into_def)
  then have "cut_into True X s RS (RA @ [rec])" using c a dir by (simp add: cut_into_def active_ready_def)
  then show ?thesis using q False nf
    by (intro conjI append_effectI [where gs = "[]" and new = "[rec]" and ?RS2.0 = "[]" and RA' = "RA @ [rec]"])
      (auto simp: rotate_full_def ids_kept_def)
next
  case True
  obtain e1 s1 where q1: "sealActiveLocked X s = (e1, s1)" by fastforce
  have k: "sealed_or_kept X s RS (RA @ [rec]) e1 s1"
    by (rule seal_keeps [OF X c q1]) (use a dir in \<open>simp add: entry_kept_def\<close>)
  have ids: "ids_ok s \<longrightarrow> ids_ok s1" using seal_ids [OF k] by blast
  have s': "s' = (if e1 = None then s1 else setFailed (the e1) s1)" "e = e1"
    using q q1 True by (auto simp: rotate_full_def split: option.splits)
  then have frame: "same_frame s s'" "st_nextID s' = st_nextID s" "ids_ok s' = ids_ok s1"
    "st_sealed s' = st_sealed s1" "st_failed s' = None \<longrightarrow> e1 = None" "cut_into b X s' = cut_into b X s1" for b
    using k cut_cong [of "setFailed (the e1) s1" s1]
    by (auto simp: sealed_or_kept_def same_frame_def)
  have ids': "ids_kept s s'" using ids frame(2,3) by (simp add: ids_kept_def)
  consider (kept) "e1 \<noteq> None" "cut_into False X s1 RS (RA @ [rec])" "st_sealed s1 = st_sealed s"
    | (more) g where "cut_into True X s1 (RS @ [RA @ [rec]]) []" "st_active s1 = None" "st_sealed s1 = st_sealed s @ [g]"
    using k a by (auto simp: sealed_or_kept_def sealed_more_def)
  then show ?thesis
  proof cases
    case kept
    then have "st_failed s' \<noteq> None" using frame(5) by auto
    then show ?thesis
      using kept frame(1,4,6) ids' s'(2)
      by (intro conjI append_effectI [where gs = "[]" and new = "[rec]" and ?RS2.0 = "[]" and RA' = "RA @ [rec]"]) auto
  next
    case more
    then have "cut_into b X s1 (RS @ [RA @ [rec]]) []" for b by (simp add: cut_into_def)
    then show ?thesis
      using more(3) frame(1,4,6) ids'
      by (intro conjI append_effectI [where gs = "[g]" and new = "[rec]" and ?RS2.0 = "[RA @ [rec]]" and RA' = "[]"]) auto
  qed
qed

lemma append_active_effect:
  assumes X: "fuse_ok X" and c: "cut_into True X s RS RA" and a: "st_active s = Some a"
    and nf: "st_failed s = None" and r: "whole rec"
    and q: "append_active X (rec_key rec) rec syncNow a s = (e, s')"
  shows "append_effect X s RS RA rec e s' \<and> ids_kept s s'"
proof (cases "map_of (as_index a) (rec_key rec)")
  case (Some loc)
  then have "s' = s" using q by (simp add: append_active_def)
  moreover have "rec_key rec \<in> dom (log_map RA)"
    using active_read [OF cut_take [OF c a], of "rec_key rec"] Some by auto
  ultimately show ?thesis using c nf by (intro conjI append_effect_none) (auto simp: ids_kept_def)
next
  case None
  have act: "active_is (st_disk s) a RA" and small: "as_size a \<le> 2 ^ 36"
    and dir: "entry_kept (st_disk s) (as_path a) (as_f a)"
    using c a by (simp_all add: cut_into_def active_ready_def)
  define a' where "a' = a\<lparr>as_index := (rec_key rec, loc_at (as_size a) rec) # as_index a, as_size := as_size a + length rec\<rparr>"
  have "try_io (f_WriteAt (as_f a) rec (as_size a)) (append_publish X (rec_key rec) rec syncNow a) s = (e, s')"
    using q None by (simp add: append_active_def)
  then show ?thesis
  proof (cases rule: try_io_cases)
    case (fail m d)
    have "take (as_size a) (dk_files d (as_f a)) = take (as_size a) (dk_files (st_disk s) (as_f a))"
      using f_WriteAt_files [OF fail(1)] take_write_at [OF order_refl active_is_length [OF act]] by auto
    then have "cut_into True X (s\<lparr>st_disk := d\<rparr>) RS RA"
      using c a active_is_files [OF act] entry_kept_cong [OF dir_of_same(4) [OF fail(1)]] by (simp add: cut_into_def active_ready_def)
    then show ?thesis using fail nf ids_ok_cong [of s' s]
      by (intro conjI append_effect_none) (auto simp: same_frame_def ids_kept_def)
  next
    case (ok d)
    obtain f d' where sy: "(if syncNow \<and> st_sync s then f_Sync (as_f a) d else (None, d)) = (f, d')" by fastforce
    have d': "dk_files d' = dk_files d" "dir_of d' = dir_of d"
      using sy no_file_change(1) dir_of_same(1) by (auto split: if_splits)
    have "dk_files d (as_f a) = write_at (dk_files (st_disk s) (as_f a)) (as_size a) rec"
      using f_WriteAt_files [OF ok(1)] by auto
    then have act': "active_is d' a' (RA @ [rec])"
      using active_append [OF act r small None] d' by (simp add: a'_def)
    let ?s = "s\<lparr>st_active := Some a', st_disk := d'\<rparr>"
    have cut: "cut_into False X ?s RS (RA @ [rec])" using c act' by (simp add: cut_into_def)
    have res: "(case f of Some e \<Rightarrow> (Some (IOErr e), setFailed (IOErr e) ?s) | None \<Rightarrow> rotate_full X a' ?s) = (e, s')"
      using ok(2) sy unfolding append_publish_def Let_def
      by (cases f) (simp_all add: a'_def loc_at_def cong del: if_weak_cong)
    have "ids_ok ?s = ids_ok s" by (simp add: ids_ok_def a a'_def)
    then have eff: "append_effect X ?s RS RA rec e s' \<and> ids_kept ?s s' \<Longrightarrow>
        append_effect X s RS RA rec e s' \<and> ids_kept s s'"
      by (auto simp: append_effect_def same_frame_def ids_kept_def)
    show ?thesis
    proof (cases f)
      case None
      have "entry_kept (st_disk ?s) (as_path a') (as_f a')"
        using dir entry_kept_cong [OF d'(2)] entry_kept_cong [OF dir_of_same(4) [OF ok(1)]] by (simp add: a'_def)
      then show ?thesis using eff rotate_effect [OF X cut _ _ _ ] None res nf by simp
    next
      case (Some m)
      then have s': "s' = setFailed (IOErr m) ?s" "e = Some (IOErr m)" using res by auto
      have "append_effect X ?s RS RA rec e s'"
        by (rule append_effectI [where gs = "[]" and new = "[rec]" and ?RS2.0 = "[]" and RA' = "RA @ [rec]"])
          (use cut cut_cong [of s' ?s] in \<open>auto simp: s'\<close>)
      then show ?thesis by (intro eff conjI) (simp_all add: ids_kept_def s')
    qed
  qed
qed

lemma appendLocked_effect:
  assumes X: "fuse_ok X" and c: "cut_into (st_failed s = None) X s RS RA" and r: "whole rec"
    and q: "appendLocked X (rec_key rec) rec syncNow s = (e, s')"
  shows "append_effect X s RS RA rec e s' \<and>
     (ids_ok s \<and> unat (st_nextID s) + 1 < 2 ^ 64 \<longrightarrow> ids_ok s' \<and> unat (st_nextID s') \<le> unat (st_nextID s) + 1)"
proof -
  consider (stop) "e \<noteq> None" "s' = s"
    | (create) m where "st_failed s = None" "st_active s = None" "createActive s = (Some m, s')" "e = Some m"
    | (new) s1 a where "st_failed s = None" "st_active s = None" "createActive s = (None, s1)" "st_active s1 = Some a"
        "append_active X (rec_key rec) rec syncNow a s1 = (e, s')"
    | (old) a where "st_failed s = None" "st_active s = Some a" "append_active X (rec_key rec) rec syncNow a s = (e, s')"
  proof -
    show thesis
    proof (cases "st_closed s \<or> st_failed s \<noteq> None")
      case True
      then have "e \<noteq> None \<and> s' = s" using q by (cases "st_failed s") (auto simp: appendLocked_def dest: sym split: if_splits)
      then show thesis using that(1) by blast
    next
      case ready: False
      show thesis
      proof (cases "st_active s")
        case (Some a)
        then show thesis using q ready that(4) by (simp add: appendLocked_def)
      next
        case None
        obtain e1 s1 where cr: "createActive s = (e1, s1)" by fastforce
        from ready None have "cut_into True X s RS RA" using c by simp
        from createActive_keeps [OF this None cr] show thesis
          using q ready None cr that(2,3) by (auto simp: appendLocked_def)
      qed
    qed
  qed
  then show ?thesis
  proof cases
    case stop
    then show ?thesis using c by (intro conjI append_effect_none) auto
  next
    case create
    have cT: "cut_into True X s RS RA" using c create(1) by simp
    note k = createActive_keeps [OF cT create(2,3)] and i = createActive_ids [OF cT create(2,3)]
    show ?thesis
      by (intro conjI append_effectI [where gs = "[]" and new = "[]" and ?RS2.0 = "[]" and RA' = RA])
        (use k i create in \<open>auto simp: unat_word_ariths\<close>)
  next
    case new
    have cT: "cut_into True X s RS RA" using c new(1) by simp
    note k = createActive_keeps [OF cT new(2,3)] and i = createActive_ids [OF cT new(2,3)]
    have eff: "append_effect X s1 RS RA rec e s' \<and> ids_kept s1 s'"
      by (rule append_active_effect [OF X _ new(4) _ r new(5)]) (use k new(1) in auto)
    have "append_effect X s RS RA rec e s'" using eff k same_frame_trans by (fastforce simp: append_effect_def)
    then show ?thesis using eff k i by (simp add: ids_kept_def unat_word_ariths)
  next
    case old
    then show ?thesis using append_active_effect [OF X _ old(2,1) r old(3)] c by (simp add: ids_kept_def)
  qed
qed

section \<open>The store refines the log\<close>

lemma log_step:
  assumes "append_effect X s RS RA rec e s'" and "L = concat RS @ RA"
  shows "same_frame s s' \<and> (\<exists>new. holds X s' (L @ new) \<and> (new = [] \<or> new = [rec]) \<and>
     (e = None \<longrightarrow> rec_key rec \<in> dom (log_map (L @ new))))"
proof -
  obtain gs RS2 RA' new where n: "cut_into (st_failed s' = None) X s' (RS @ RS2) RA'"
    "concat RS2 @ RA' = RA @ new" "new = [] \<or> new = [rec]" "e = None \<longrightarrow> rec_key rec \<in> dom (log_map (RA @ new))"
    using assms(1) unfolding append_effect_def by blast
  have "holds X s' (L @ new)" unfolding holds_def holds_with_def
    by (rule exI [of _ "RS @ RS2"], rule exI [of _ RA']) (use n assms(2) in auto)
  moreover have "dom (log_map (L @ new)) \<supseteq> dom (log_map (RA @ new))" by (auto simp: assms(2) dom_log_map)
  moreover have "same_frame s s'" using assms(1) by (simp add: append_effect_def)
  ultimately show ?thesis using n(3,4) by blast
qed

lemma append_log:
  assumes "fuse_ok X" and "holds X s L" and "whole rec" and "appendLocked X (rec_key rec) rec b s = (e, s')"
  shows "same_frame s s' \<and> (\<exists>new. holds X s' (L @ new) \<and> (new = [] \<or> new = [rec]) \<and>
     (e = None \<longrightarrow> rec_key rec \<in> dom (log_map (L @ new))))"
proof -
  obtain RS RA where c: "cut_into (st_failed s = None) X s RS RA" "L = concat RS @ RA"
    using assms(2) unfolding holds_def holds_with_def by blast
  show ?thesis by (rule log_step [OF conjunct1 [OF appendLocked_effect [OF assms(1) c(1) assms(3,4)]] c(2)])
qed

lemma encode_whole:
  assumes "canonical k" and "EncodeRecord Z k data = Inr rec"
  shows "whole rec" "rec_key rec = k"
proof -
  note w = whole_record_encode [OF assms]
  show "whole rec" using w by (auto simp: whole_def)
  show "rec_key rec = k" using ParseRecord_ok(3) w by (fastforce simp: whole_record_def rec_key_def)
qed

lemma syncActive_log:
  assumes "holds X s L" and "syncActive s = (e, s')"
  shows "holds X s' L \<and> same_frame s s'"
proof -
  have "s' = s \<or> (\<exists>a r d. st_active s = Some a \<and> st_failed s = None \<and> f_Sync (as_f a) (st_disk s) = (r, d) \<and>
      s' = (if r = None then s\<lparr>st_disk := d\<rparr> else setFailed (IOErr (the r)) (s\<lparr>st_disk := d\<rparr>)))"
    using assms(2) by (auto simp: syncActive_def split: if_splits option.splits prod.splits)
  then show ?thesis
  proof (elim disjE exE conjE)
    fix a r d
    assume nf: "st_failed s = None" and sy: "f_Sync (as_f a) (st_disk s) = (r, d)"
      and s': "s' = (if r = None then s\<lparr>st_disk := d\<rparr> else setFailed (IOErr (the r)) (s\<lparr>st_disk := d\<rparr>))"
    have "cut_into b X (s\<lparr>st_disk := d\<rparr>) = cut_into b X s" for b
      by (rule cut_cong) (use no_file_change(1) [OF sy] dir_of_same(1) [OF sy] in auto)
    then have h: "holds X (s\<lparr>st_disk := d\<rparr>) L" using assms(1) nf by (simp add: holds_def holds_with_def)
    show ?thesis using s' h setFailed_holds [OF holds_weaken [OF h]] by (auto simp: same_frame_def)
  qed (use assms in auto)
qed

text \<open>One observed key, then whatever keeps the frame.\<close>

definition observed :: "store \<Rightarrow> key list \<Rightarrow> store \<Rightarrow> bool" where
  "observed s ks s' \<longleftrightarrow>
     st_closed s' = st_closed s \<and> st_segmentSize s' = st_segmentSize s \<and> st_sync s' = st_sync s \<and>
     st_capturing s' = st_capturing s \<and>
     (case st_grey s of
        None \<Rightarrow> st_grey s' = None
      | Some g \<Rightarrow> \<exists>g'. st_grey s' = Some g' \<and> set g \<subseteq> set g' \<and> (st_capturing s \<longrightarrow> set ks \<subseteq> set g'))"

lemma observed_refl: "observed s [] s"
  by (simp add: observed_def split: option.splits)

lemma observe_observed: "observed s [k] (observe k s)"
  by (auto simp: observed_def observe_def split: option.splits)

lemma observed_trans:
  assumes "observed s ks s'" and "observed s' ks' s''"
  shows "observed s (ks @ ks') s''"
  using assms by (auto simp: observed_def split: option.splits)

lemma observed_frame: "observed s ks s' \<Longrightarrow> same_frame s' s'' \<Longrightarrow> observed s ks s''"
  by (cases "st_grey s") (simp_all add: observed_def same_frame_def)

lemma pack_result_found: "pack_result r \<noteq> Inl ObjNotFound"
  by (cases r) (simp_all add: pack_result_def)

lemma Put_log:
  assumes X: "fuse_ok X" and h: "holds X s L" and op: "\<not> st_closed s" and k: "canonical k"
    and q: "Put X Z k data s = (e, s')"
  shows "\<exists>new. holds X s' (L @ new) \<and> (st_failed s = None \<longrightarrow> observed s [k] s') \<and> \<not> st_closed s' \<and>
     (new = [] \<or> k \<notin> dom (log_map L) \<and> (\<exists>rec. EncodeRecord Z k data = Inr rec \<and> new = [rec])) \<and>
     (e = None \<longrightarrow> k \<in> dom (log_map (L @ new)))"
proof (cases "st_failed s")
  case (Some f)
  then have "e = Some f" "s' = s" using q by (auto simp: Put_def)
  then show ?thesis using h op Some by (intro exI [of _ "[]"]) simp
next
  case None
  let ?s = "observe k s"
  have ik: "is_key k" using k by (simp add: canonical_def)
  have has: "Has X ?s k = Inr (k \<in> dom (log_map L))" by (rule holds_reads(1)) (use h op ik in simp_all)
  show ?thesis
  proof (cases "k \<in> dom (log_map L)")
    case True
    then have "e = None" "s' = ?s" using q None has by (auto simp: Put_def Let_def)
    then show ?thesis using h op True observe_observed by (intro exI [of _ "[]"]) simp
  next
    case False
    show ?thesis
    proof (cases "EncodeRecord Z k data")
      case (Inl m)
      then have "e = Some (PackErr m)" "s' = ?s" using q None has False by (auto simp: Put_def Let_def)
      then show ?thesis using h op observe_observed by (intro exI [of _ "[]"]) simp
    next
      case (Inr rec)
      note w = encode_whole [OF k Inr]
      have a: "appendLocked X (rec_key rec) rec True ?s = (e, s')"
        using q None has False Inr w(2) by (simp add: Put_def Let_def)
      have h': "holds X ?s L" using h by simp
      from append_log [OF X h' w(1) a] obtain new where n: "same_frame ?s s'" "holds X s' (L @ new)"
        "new = [] \<or> new = [rec]" "e = None \<longrightarrow> rec_key rec \<in> dom (log_map (L @ new))" by blast
      have "observed s [k] s'" by (rule observed_frame [OF observe_observed n(1)])
      then show ?thesis using n False Inr w(2) op by (intro exI [of _ new]) (auto simp: same_frame_def)
    qed
  qed
qed

section \<open>Properties\<close>

text \<open>C8: reads refine the log. In a state that stores the log \<open>L\<close>, an open store's \<open>Has\<close>,
  \<open>GetRecord\<close>, \<open>Get\<close> and \<open>StoredSize\<close> answer for every key from its last record in \<open>L\<close>, wherever
  that record lies (active segment or any sealed one), and never report corruption.\<close>

theorem reads_refine_log:
  assumes "holds X s L" and "\<not> st_closed s" and "is_key k"
  shows "Has X s k = Inr (k \<in> dom (log_map L)) \<and>
     GetRecord X s k = (case log_map L k of None \<Rightarrow> Inl ObjNotFound | Some r \<Rightarrow> Inr r) \<and>
     Get X Z s k = (case log_map L k of None \<Rightarrow> Inl ObjNotFound | Some r \<Rightarrow> pack_result (decode_record Z r)) \<and>
     StoredSize X s k = Inr (map_option (\<lambda>r. ucast (rec_slen r)) (log_map L k))"
  using holds_reads [OF assms] by blast

definition empty_disk :: disk where
  "empty_disk = \<lparr>dk_dirents = [], dk_files = (\<lambda>_. []), dk_next = 1, dk_stable = (\<lambda>_. 0), dk_dirty = (\<lambda>_. False), dk_synced = [],
     dk_pending = [], dk_faults = []\<rparr>"

definition empty_store :: store where
  "empty_store = \<lparr>st_disk = empty_disk, st_segmentSize = 268435456, st_sync = True, st_capturing = False,
     st_grey = None, st_sealed = [], st_active = None, st_nextID = 1, st_closed = False, st_failed = None\<rparr>"

lemma empty_store_holds: "holds X empty_store []"
  unfolding holds_def holds_with_def by (rule exI [of _ "[]"]) (simp add: cut_into_def empty_store_def)

theorem reads_refine_log_witness:
  "Has all_filter empty_store (0 # 5 # replicate 30 7) = Inr False \<and>
   Get all_filter rle_zstd empty_store (0 # 5 # replicate 30 7) = Inl ObjNotFound"
  using reads_refine_log [OF empty_store_holds, of "0 # 5 # replicate 30 7" all_filter rle_zstd]
  by (simp add: empty_store_def is_key_def Size_def)

text \<open>C7: a write refines a map update under every pattern of I/O errors. Whatever \<open>Put\<close> of a
  canonical key returns, and whether or not it rotated the segment, every other key reads as
  before, and the key reads as before or, if it was absent, as the data. On success it is
  present, and reads as the data if it was absent. During a mark the key is grey.\<close>

theorem put_refines_update:
  assumes "fuse_ok X" and "zstd_ok Z" and "holds X s L" and "\<not> st_closed s" and "canonical k"
    and "Put X Z k data s = (e, s')"
  shows "(\<exists>L'. holds X s' L') \<and>
     (\<forall>k'. is_key k' \<and> k' \<noteq> k \<longrightarrow> Get X Z s' k' = Get X Z s k') \<and>
     (Get X Z s' k = Get X Z s k \<or> Get X Z s k = Inl ObjNotFound \<and> Get X Z s' k = Inr data) \<and>
     (e = None \<longrightarrow> Has X s' k = Inr True \<and> (Get X Z s k = Inl ObjNotFound \<longrightarrow> Get X Z s' k = Inr data)) \<and>
     (st_failed s = None \<longrightarrow> observed s [k] s')"
proof -
  have ik: "is_key k" using assms(5) by (simp add: canonical_def)
  obtain new where n: "holds X s' (L @ new)" "st_failed s = None \<longrightarrow> observed s [k] s'"
    "\<not> st_closed s'" "new = [] \<or> k \<notin> dom (log_map L) \<and> (\<exists>rec. EncodeRecord Z k data = Inr rec \<and> new = [rec])"
    "e = None \<longrightarrow> k \<in> dom (log_map (L @ new))"
    using Put_log [OF assms(1,3,4,5,6)] by (elim exE conjE) (rule that; assumption)
  note old = holds_reads(3) [OF assms(3,4), of _ Z] and now = holds_reads(3) [OF n(1,3), of _ Z]
  have other: "Get X Z s' k' = Get X Z s k'" if "is_key k'" "k' \<noteq> k" for k'
    using n(4) encode_whole(2) [OF assms(5)] that old [OF that(1)] now [OF that(1)] by auto
  have self: "Get X Z s' k = Get X Z s k \<and> log_map (L @ new) k = log_map L k \<or>
      k \<notin> dom (log_map L) \<and> Get X Z s' k = Inr data"
  proof (cases "new = []")
    case True
    then show ?thesis using old [OF ik] now [OF ik] by simp
  next
    case False
    then obtain rec where r: "k \<notin> dom (log_map L)" "EncodeRecord Z k data = Inr rec" "new = [rec]" using n(4) by blast
    have le: "length data \<le> MaxPayload"
      and rec: "rec = rec_bytes k (fst (stored_form Z data)) (of_nat (length data)) (snd (stored_form Z data))"
      using r(2) by (auto simp: EncodeRecord_iff)
    have "decode_record Z rec = Inr data"
      using DecodePayload_stored [OF assms(2) le] rec_bytes_fields [OF ik] rec ik
      by (simp add: decode_record_def)
    then show ?thesis using r encode_whole(2) [OF assms(5) r(2)] now [OF ik] by (simp add: pack_result_def)
  qed
  have absent: "Get X Z s k = Inl ObjNotFound \<longleftrightarrow> k \<notin> dom (log_map L)"
    using old [OF ik] pack_result_found by (cases "log_map L k") (auto simp: domIff)
  have has: "e = None \<Longrightarrow> Has X s' k = Inr True" using holds_reads(1) [OF n(1,3) ik] n(5) by simp
  have stored: "Get X Z s k = Inl ObjNotFound \<Longrightarrow> e = None \<Longrightarrow> Get X Z s' k = Inr data"
    using self absent n(5) by (auto simp: domIff)
  show ?thesis
  proof (intro conjI impI allI)
    show "\<exists>L'. holds X s' L'" using n(1) by blast
    show "observed s [k] s'" if "st_failed s = None" using n(2) that by blast
    show "Get X Z s' k' = Get X Z s k'" if "is_key k' \<and> k' \<noteq> k" for k' using other that by blast
    show "Get X Z s' k = Get X Z s k \<or> Get X Z s k = Inl ObjNotFound \<and> Get X Z s' k = Inr data"
      using self absent by blast
  qed (rule has stored; assumption)+
qed

theorem put_refines_update_witness:
  "\<exists>e s'. Put all_filter rle_zstd (0 # 5 # replicate 30 7) [1, 2, 3, 4, 5] empty_store = (e, s') \<and>
     (e = None \<longrightarrow> Get all_filter rle_zstd s' (0 # 5 # replicate 30 7) = Inr [1, 2, 3, 4, 5])"
proof -
  obtain e s' where p: "Put all_filter rle_zstd (0 # 5 # replicate 30 7) [1, 2, 3, 4, 5] empty_store = (e, s')"
    by fastforce
  have k: "canonical (0 # 5 # replicate 30 7)" by (simp add: canonical_def is_key_def Size_def Validate_def Key_Type_def IsValid_def ktype_defs)
  from put_refines_update [OF all_filter_ok rle_zstd_ok empty_store_holds _ k p] p show ?thesis
    using holds_reads(3) [OF empty_store_holds [of all_filter], of "0 # 5 # replicate 30 7" rle_zstd]
    by (auto simp: empty_store_def is_key_def Size_def)
qed

end
