(* ===== verification/Amber_StoreOps.thy ===== *)
theory Amber_StoreOps
  imports Amber_StoreLog
begin

text \<open>
  The operations built on reads and appends: batches, \<open>Missing\<close>, \<open>SortByLocation\<close>, and
  that writes to a healthy store succeed.
\<close>

section \<open>Batches\<close>

lemma prepare_whole:
  assumes "prepare H Z obj v = Inr (rec, n)" and "canonical (ob_Key obj)"
  shows "whole rec \<and> rec_key rec = ob_Key obj"
proof (cases "ob_Record obj")
  case None
  then have "EncodeRecord Z (ob_Key obj) (ob_bytes (ob_Data obj)) = Inr rec"
    using assms(1) by (auto simp: prepare_def Let_def split: option.splits sum.splits if_splits)
  then show ?thesis using encode_whole [OF assms(2)] by blast
next
  case (Some raw)
  then obtain r where "ParseRecord raw = Inr r" "Rec_Key r = ob_Key obj" "length raw = 46 + unat (Rec_Slen r)" "rec = raw"
    using assms(1) by (auto simp: prepare_def RecHeaderSize_def split: option.splits sum.splits if_splits)
  then show ?thesis using ParseRecord_ok(3) by (fastforce simp: whole_def whole_record_def rec_key_def)
qed

definition seq_keys :: "(ps_err + psObject) list \<Rightarrow> key list" where
  "seq_keys seq = concat (map (\<lambda>x. case x of Inl _ \<Rightarrow> [] | Inr obj \<Rightarrow> [ob_Key obj]) seq)"

definition batch_effect :: "xorfilter \<Rightarrow> store \<Rightarrow> bytes list \<Rightarrow> key list \<Rightarrow> key list \<Rightarrow> ps_err option \<Rightarrow> store \<Rightarrow> bool" where
  "batch_effect X s L ks seen e s' \<longleftrightarrow>
     (\<exists>new obs. holds X s' (L @ new) \<and> observed s obs s' \<and> distinct (map rec_key new) \<and>
        rec_key ` set new \<subseteq> set ks - dom (log_map L) \<and>
        (e = None \<longrightarrow> set ks \<subseteq> dom (log_map (L @ new)) \<union> set seen \<and> set ks - set seen \<subseteq> set obs))"

lemma batch_stop:
  assumes "holds X s L" and "e \<noteq> None" and "s' = (if b then snd (syncActive s) else s)"
  shows "batch_effect X s L ks seen e s'"
proof -
  have "holds X s' L \<and> same_frame s s'"
    using syncActive_log [OF assms(1) prod.collapse [symmetric]] assms(1,3) by simp
  then show ?thesis using assms(2) observed_frame [OF observed_refl]
    unfolding batch_effect_def by (intro exI [of _ "[]"]) auto
qed

text \<open>One object more: after its record, if any, the rest of the batch.\<close>

lemma batch_step:
  assumes r: "batch_effect X s1 (L @ new1) ks (k # seen) e s'" and o1: "observed s [k] s1"
    and n1: "new1 = [] \<or> k \<notin> dom (log_map L) \<and> (\<exists>rec. new1 = [rec] \<and> rec_key rec = k)"
    and p: "k \<in> dom (log_map (L @ new1))"
  shows "batch_effect X s L (k # ks) seen e s'"
proof -
  obtain new obs where n: "holds X s' ((L @ new1) @ new)" "observed s1 obs s'" "distinct (map rec_key new)"
    "rec_key ` set new \<subseteq> set ks - dom (log_map (L @ new1))"
    "e = None \<longrightarrow> set ks \<subseteq> dom (log_map ((L @ new1) @ new)) \<union> set (k # seen) \<and> set ks - set (k # seen) \<subseteq> set obs"
    using r unfolding batch_effect_def by (elim exE conjE) (rule that; assumption)
  have d: "dom (log_map (A @ B)) = dom (log_map A) \<union> dom (log_map B)" for A B
    by (auto simp: dom_log_map)
  show ?thesis unfolding batch_effect_def
  proof (intro exI conjI)
    show "holds X s' (L @ (new1 @ new))" using n(1) by simp
    show "observed s ([k] @ obs) s'" by (rule observed_trans [OF o1 n(2)])
    have "k \<notin> rec_key ` set new" using n(4) p by blast
    then show "distinct (map rec_key (new1 @ new))" using n(3) n1 by auto
    show "rec_key ` set (new1 @ new) \<subseteq> set (k # ks) - dom (log_map L)" using n(4) n1 by (auto simp: d)
    show "e = None \<longrightarrow> set (k # ks) \<subseteq> dom (log_map (L @ (new1 @ new))) \<union> set seen \<and> set (k # ks) - set seen \<subseteq> set ([k] @ obs)"
      using n(5) p by (auto simp: d)
  qed
qed

lemma seq_keys_Cons [simp]:
  "seq_keys [] = []" "seq_keys (Inl x # seq) = seq_keys seq" "seq_keys (Inr obj # seq) = ob_Key obj # seq_keys seq"
  by (simp_all add: seq_keys_def)

lemma batch_seen:
  assumes "batch_effect X s L ks seen e s'" and "k \<in> set seen"
  shows "batch_effect X s L (k # ks) seen e s'"
  using assms unfolding batch_effect_def by fastforce

lemma batch_loop_log:
  assumes X: "fuse_ok X" and "holds X s L" and "\<not> st_closed s" and "\<forall>k \<in> set (seq_keys seq). canonical k"
    and "batch_loop H X Z seq seen appended s = (e, s')"
  shows "batch_effect X s L (seq_keys seq) seen e s' \<and> (e = None \<longrightarrow> (\<forall>x \<in> set seq. \<exists>obj. x = Inr obj))"
  using assms(2-)
proof (induction seq arbitrary: seen appended s L)
  case Nil
  then have "holds X s' L \<and> same_frame s s'" using syncActive_log [of X s L e s'] by simp
  then show ?case using observed_frame [OF observed_refl]
    unfolding batch_effect_def by (intro conjI exI [of _ "[]"]) auto
next
  case (Cons x seq)
  show ?case
  proof (cases x)
    case (Inl err)
    then have "e = Some err" "s' = (if appended then snd (syncActive s) else s)"
      using Cons.prems(4) by (simp_all add: batch_fail_def)
    then show ?thesis using batch_stop [OF Cons.prems(1)] by simp
  next
    case (Inr obj)
    let ?k = "ob_Key obj" and ?s = "observe (ob_Key obj) s"
    have can: "canonical ?k" "\<forall>k \<in> set (seq_keys seq). canonical k" and ik: "is_key ?k"
      using Cons.prems(3) Inr by (simp_all add: canonical_def)
    have run: "batch_loop H X Z (Inr obj # seq) seen appended s = (e, s')" using Cons.prems(4) Inr by simp
    have rest: "batch_effect X s L (?k # seq_keys seq) seen e s' \<and> (e = None \<longrightarrow> (\<forall>x \<in> set (Inr obj # seq). \<exists>obj. x = Inr obj))"
      if "batch_loop H X Z seq (?k # seen) ap s1 = (e, s')" "holds X s1 (L @ new1)" "observed s [?k] s1"
        "new1 = [] \<or> ?k \<notin> dom (log_map L) \<and> (\<exists>rec. new1 = [rec] \<and> rec_key rec = ?k)" "?k \<in> dom (log_map (L @ new1))" for ap s1 new1
    proof -
      have "\<not> st_closed s1" using that(3) Cons.prems(2) by (simp add: observed_def)
      from Cons.IH [OF that(2) this can(2) that(1)] show ?thesis using batch_step [OF _ that(3,4,5)] by simp
    qed
    have stop: ?thesis if "e = Some m" "s' = (if b then snd (syncActive s1) else s1)" "holds X s1 (L @ new1)" "observed s [?k] s1"
        "new1 = [] \<or> ?k \<notin> dom (log_map L) \<and> (\<exists>rec. new1 = [rec] \<and> rec_key rec = ?k)" for m b s1 new1
    proof -
      have "holds X s' (L @ new1) \<and> same_frame s1 s'"
        using syncActive_log [OF that(3) prod.collapse [symmetric]] that(2,3) by simp
      then have "batch_effect X s L (seq_keys (x # seq)) seen e s'"
        unfolding batch_effect_def using that(1,5) observed_frame [OF that(4)] Inr
        by (intro exI [of _ new1] exI [of _ "[?k]"]) auto
      then show ?thesis using that(1) by simp
    qed
    show ?thesis
    proof (cases "?k \<in> set seen")
      case True
      then have r: "batch_loop H X Z seq seen appended s = (e, s')" using run by simp
      from Cons.IH [OF Cons.prems(1,2) can(2) r] show ?thesis using batch_seen [OF _ True] Inr by simp
    next
      case fresh: False
      have h: "holds X ?s L" and o1: "observed s [?k] ?s" using Cons.prems(1) observe_observed by simp_all
      have has: "Has X ?s ?k = Inr (?k \<in> dom (log_map L))"
        by (rule holds_reads(1) [OF h _ ik]) (use Cons.prems(2) in simp)
      show ?thesis
      proof (cases "?k \<in> dom (log_map L)")
        case True
        then have "batch_loop H X Z seq (?k # seen) appended ?s = (e, s')" using run fresh has by (simp add: Let_def)
        from rest [OF this, of "[]"] show ?thesis using h o1 True Inr by simp
      next
        case False
        show ?thesis
        proof (cases "prepare H Z obj False")
          case (Inl m)
          then have "e = Some m" "s' = (if appended then snd (syncActive ?s) else ?s)"
            using run fresh has False by (simp_all add: Let_def batch_fail_def)
          from stop [OF this, of "[]"] show ?thesis using h o1 by simp
        next
          case (Inr rn)
          obtain rec n where rn: "rn = (rec, n)" by (cases rn)
          have w: "whole rec" "rec_key rec = ?k" using prepare_whole [OF Inr [unfolded rn] can(1)] by blast+
          obtain e1 s1 where a: "appendLocked X ?k rec False ?s = (e1, s1)" by fastforce
          have a': "appendLocked X (rec_key rec) rec False ?s = (e1, s1)" using a w(2) by simp
          obtain new1 where n1: "same_frame ?s s1" "holds X s1 (L @ new1)" "new1 = [] \<or> new1 = [rec]"
            "e1 = None \<longrightarrow> ?k \<in> dom (log_map (L @ new1))"
            using append_log [OF X h w(1) a'] w(2) by (elim exE conjE) (rule that; simp)
          have o2: "observed s [?k] s1" by (rule observed_frame [OF o1 n1(1)])
          have n1': "new1 = [] \<or> ?k \<notin> dom (log_map L) \<and> (\<exists>rec. new1 = [rec] \<and> rec_key rec = ?k)"
            using n1(3) False w(2) by auto
          show ?thesis
          proof (cases e1)
            case None
            then have "batch_loop H X Z seq (?k # seen) True s1 = (e, s')"
              using run fresh has False Inr rn a by (simp add: Let_def)
            from rest [OF this n1(2) o2 n1'] show ?thesis using n1(4) None \<open>x = Inr obj\<close> by simp
          next
            case (Some m)
            then have "e = Some m" "s' = (if appended then snd (syncActive s1) else s1)"
              using run fresh has False Inr rn a by (simp_all add: Let_def batch_fail_def)
            from stop [OF this n1(2) o2 n1'] show ?thesis .
          qed
        qed
      qed
    qed
  qed
qed

section \<open>Missing\<close>

lemma missing_chunk_filter:
  assumes "holds X s L" and "\<not> st_closed s" and "\<forall>k \<in> set chunk. is_key k"
  shows "missing_chunk X s chunk = Inr (filter (\<lambda>k. k \<notin> dom (log_map L)) chunk)"
proof -
  have "map_err (\<lambda>k. case Has X s k of Inl e \<Rightarrow> Inl e | Inr h \<Rightarrow> Inr (k, h)) chunk
      = Inr (map (\<lambda>k. (k, k \<in> dom (log_map L))) chunk)"
    by (rule map_err_ok_map) (simp add: holds_reads(1) [OF assms(1,2)] assms(3))
  then show ?thesis by (simp add: missing_chunk_def filter_map comp_def)
qed

lemma concat_windows:
  "concat (map (\<lambda>i. slice (min (i * c) (length xs)) (min ((i + 1) * c) (length xs)) xs) [0..<w]) = take (w * c) xs"
proof (induction w)
  case 0
  then show ?case by simp
next
  case (Suc w)
  have "take (w * c) xs = slice 0 (min (w * c) (length xs)) xs"
    by (cases "w * c \<le> length xs") (simp_all add: slice_def)
  moreover have "take ((w + 1) * c) xs = slice 0 (min ((w + 1) * c) (length xs)) xs"
    by (cases "(w + 1) * c \<le> length xs") (simp_all add: slice_def)
  moreover have "slice 0 (min (w * c) (length xs)) xs @ slice (min (w * c) (length xs)) (min ((w + 1) * c) (length xs)) xs
      = slice 0 (min ((w + 1) * c) (length xs)) xs"
    by (rule slice_split) auto
  ultimately show ?case using Suc by simp
qed

section \<open>Sorting by location\<close>

lemma insert_by_sorted:
  assumes tot: "\<And>a b. cmp a b \<le> 0 \<or> cmp b a \<le> (0 :: int)" and tr: "\<And>a b c. cmp a b \<le> 0 \<Longrightarrow> cmp b c \<le> 0 \<Longrightarrow> cmp a c \<le> 0"
    and "sorted_wrt (\<lambda>a b. cmp a b \<le> 0) xs"
  shows "sorted_wrt (\<lambda>a b. cmp a b \<le> 0) (insert_by cmp x xs)"
  using assms(3)
proof (induction xs)
  case (Cons y ys)
  have "set (insert_by cmp x ys) = insert x (set ys)" using mset_insert_by [of cmp x ys] by (metis set_mset_add_mset_insert set_mset_mset)
  then show ?case using Cons tot [of x y] tr [of x y] by auto
qed simp

lemma SortFunc_sorted:
  assumes "\<And>a b. cmp a b \<le> 0 \<or> cmp b a \<le> (0 :: int)" and "\<And>a b c. cmp a b \<le> 0 \<Longrightarrow> cmp b c \<le> 0 \<Longrightarrow> cmp a c \<le> 0"
  shows "sorted_wrt (\<lambda>a b. cmp a b \<le> 0) (SortFunc cmp xs)"
proof (induction xs)
  case (Cons x xs)
  show ?case using insert_by_sorted [OF assms Cons] by simp
qed simp

text \<open>Reading order: present keys by segment and offset, absent keys last.\<close>

definition reads_before :: "xorfilter \<Rightarrow> store \<Rightarrow> key \<Rightarrow> key \<Rightarrow> bool" where
  "reads_before X s a b \<longleftrightarrow>
     (case (locateLocked X s a, locateLocked X s b) of
        (None, Some _) \<Rightarrow> False
      | (_, None) \<Rightarrow> True
      | (Some (sa, oa), Some (sb, ob)) \<Rightarrow> sa < sb \<or> sa = sb \<and> oa \<le> ob)"

lemma cmp_located_le:
  "cmp_located a b \<le> 0 \<longleftrightarrow>
     (case (snd a, snd b) of
        (None, Some _) \<Rightarrow> False
      | (_, None) \<Rightarrow> True
      | (Some (sa, oa), Some (sb, ob)) \<Rightarrow> sa < sb \<or> sa = sb \<and> oa \<le> ob)"
  by (auto simp: cmp_located_def cmp_word_def split: option.splits prod.splits)

section \<open>Writes to a healthy store\<close>

definition calm :: "disk \<Rightarrow> bool" where
  "calm d \<longleftrightarrow> dk_faults d = []"

lemma calm_calls:
  assumes "calm d"
  shows "\<exists>d'. f_WriteAt i b n d = (None, d') \<and> calm d'"
    "\<exists>d'. f_Truncate i n d = (None, d') \<and> calm d'"
    "\<exists>d'. f_Sync i d = (None, d') \<and> calm d'"
    "\<exists>d'. f_Close d = (None, d') \<and> calm d'"
    "\<exists>d'. dir_Sync d = (None, d') \<and> calm d'"
    "map_of (dk_dirents d) p = Some f \<Longrightarrow> \<exists>d'. os_Rename p q d = (None, d') \<and> calm d'"
    "map_of (dk_dirents d) p = Some f \<Longrightarrow> \<exists>d'. os_ReadFile p d = (Inr (dk_files d f), d') \<and> calm d'"
    "map_of (dk_dirents d) p = None \<Longrightarrow> \<exists>i d'. os_CreateExcl p d = (Inr i, d') \<and> calm d'"
  using assms
  by (simp_all add: calm_def disk_calls os_ReadFile_def next_fault_def set_file_def dir_change_def Let_def)

definition fuse_total :: "xorfilter \<Rightarrow> bool" where
  "fuse_total X \<longleftrightarrow> (\<forall>tails. NewBinaryFuse X tails \<noteq> None)"

lemma try_io_ok: "c (st_disk s) = (None, d) \<Longrightarrow> try_io c k s = k (s\<lparr>st_disk := d\<rparr>)"
  by (simp add: try_io_def)

lemma seal_calm:
  assumes X: "fuse_ok X" "fuse_total X" and a: "st_active s = Some a" and act: "active_is (st_disk s) a RA"
    and dir: "map_of (dk_dirents (st_disk s)) (as_path a) = Some (as_f a)" and cd: "calm (st_disk s)"
  shows "fst (sealActiveLocked X s) = None"
proof (cases "as_index a = []")
  case True
  then show ?thesis using a by (simp add: sealActiveLocked_def)
next
  case False
  let ?f = "as_f a" and ?n = "as_size a" and ?path = "TrimSuffix (as_path a) ''.active''"
  have "entries_of (as_index a) \<noteq> []" using False by (simp add: entries_of_def)
  moreover obtain fu where "NewBinaryFuse X (remdups_adj (sort (map (\<lambda>e. filterKey (ie_k e)) (entries_of (as_index a))))) = Some fu"
    using X(2) by (auto simp: fuse_total_def)
  ultimately obtain footer where foot: "buildFooter X ?n (entries_of (as_index a)) = Inr footer"
    by (simp add: buildFooter_def buildFilterSection_def Let_def)
  have b: "take ?n (dk_files (st_disk s) ?f) = body_of RA" "?n = length (body_of RA)" using act unfolding active_is_def by blast+
  obtain d1 where d1: "f_Truncate ?f ?n (st_disk s) = (None, d1)" "calm d1" using calm_calls(2) [OF cd] by blast
  obtain d2 where d2: "f_WriteAt ?f footer ?n d1 = (None, d2)" "calm d2" using calm_calls(1) [OF d1(2)] by blast
  obtain d3 where d3: "f_Sync ?f d2 = (None, d3)" "calm d3" using calm_calls(3) [OF d2(2)] by blast
  have dir3: "map_of (dk_dirents d3) (as_path a) = Some ?f"
    using dir no_dir_change(6) [OF d1(1)] no_dir_change(5) [OF d2(1)] no_dir_change(1) [OF d3(1)] by simp
  obtain d4 where d4: "os_Rename (as_path a) ?path d3 = (None, d4)" "calm d4" using calm_calls(6) [OF d3(2) dir3] by blast
  obtain d5 where d5: "dir_Sync d4 = (None, d5)" "calm d5" using calm_calls(5) [OF d4(2)] by blast
  have path5: "map_of (dk_dirents d5) ?path = Some ?f"
    using os_Rename_ok(1) [OF d4(1)] dir3 no_dir_change(3) [OF d5(1)] by simp
  have "dk_files d1 ?f = body_of RA"
    using f_Truncate_files [OF d1(1) active_is_length [OF act]] b by simp
  then have "dk_files d2 ?f = body_of RA @ footer" using f_WriteAt_files [OF d2(1)] b by auto
  then have file5: "dk_files d5 ?f = body_of RA @ footer"
    using no_file_change(1) [OF d3(1)] no_file_change(3) [OF d4(1)] no_file_change(5) [OF d5(1)] by simp
  obtain d6 where d6: "os_ReadFile ?path d5 = (Inr (body_of RA @ footer), d6)" "calm d6"
    using calm_calls(7) [OF d5(2) path5] file5 by auto
  obtain g where g: "openSealed ?path (as_id a) (body_of RA @ footer) = Inr g"
    using seal_bytes [OF X(1) act foot] by blast
  obtain d7 where d7: "f_Close d6 = (None, d7)" using calm_calls(4) [OF d6(2)] by blast
  show ?thesis using a False foot d1 d2 d3 d4 d5 d6 g d7
    by (simp add: sealActiveLocked_def Let_def try_io_ok publish_sealed_def)
qed

lemma append_active_calm:
  assumes X: "fuse_ok X" "fuse_total X" and act: "active_is (st_disk s) a RA" and rdy: "active_ready (st_disk s) a"
    and cd: "calm (st_disk s)" and r: "whole rec"
  shows "fst (append_active X (rec_key rec) rec b a s) = None"
proof (cases "map_of (as_index a) (rec_key rec)")
  case (Some loc)
  then show ?thesis by (simp add: append_active_def)
next
  case None
  obtain d where d: "f_WriteAt (as_f a) rec (as_size a) (st_disk s) = (None, d)" "calm d" using calm_calls(1) [OF cd] by blast
  obtain d' where d': "(if b \<and> st_sync s then f_Sync (as_f a) d else (None, d)) = (None, d')" "calm d'"
    using calm_calls(3) [OF d(2), of "as_f a"] d(2) by (cases "b \<and> st_sync s") auto
  define a' where "a' = a\<lparr>as_index := (rec_key rec, loc_at (as_size a) rec) # as_index a, as_size := as_size a + length rec\<rparr>"
  have f': "dk_files d' = dk_files d" "dir_of d' = dir_of d"
    using d'(1) no_file_change(1) dir_of_same(1) by (auto split: if_splits)
  have "dk_files d (as_f a) = write_at (dk_files (st_disk s) (as_f a)) (as_size a) rec"
    using f_WriteAt_files [OF d(1)] by auto
  then have act': "active_is d' a' (RA @ [rec])"
    using active_append [OF act r _ None, of d'] rdy f' by (simp add: a'_def active_ready_def)
  have "map_of (dk_dirents d') (as_path a') = Some (as_f a')"
    using rdy f'(2) dir_of_same(4) [OF d(1)] by (simp add: a'_def active_ready_def entry_kept_def dir_of_def)
  then have "fst (sealActiveLocked X (s\<lparr>st_active := Some a', st_disk := d'\<rparr>)) = None"
    using seal_calm [OF X, of "s\<lparr>st_active := Some a', st_disk := d'\<rparr>" a'] act' d'(2) by simp
  then have "fst (rotate_full X a' (s\<lparr>st_active := Some a', st_disk := d'\<rparr>)) = None"
    by (cases "sealActiveLocked X (s\<lparr>st_active := Some a', st_disk := d'\<rparr>)") (simp add: rotate_full_def)
  then show ?thesis using None d(1) d'(1)
    by (simp add: append_active_def try_io_ok append_publish_def a'_def loc_at_def Let_def cong del: if_weak_cong)
qed

lemma appendLocked_calm:
  assumes X: "fuse_ok X" "fuse_total X" and h: "holds X s L" and op: "\<not> st_closed s" "st_failed s = None"
    and cd: "calm (st_disk s)" and r: "whole rec"
    and free: "st_active s = None \<longrightarrow> map_of (dk_dirents (st_disk s)) (hex16 (st_nextID s) @ activeSuffix) = None"
  shows "fst (appendLocked X (rec_key rec) rec b s) = None"
proof -
  obtain RS RA where c: "cut_into True X s RS RA" using h op(2) unfolding holds_def holds_with_def by auto
  have go: "fst (append_active X (rec_key rec) rec b a t) = None"
    if "cut_into True X t RS RA" "st_active t = Some a" "calm (st_disk t)" for t a
    by (rule append_active_calm [where RA = RA, OF X _ _ that(3) r]) (use that in \<open>simp_all add: cut_into_def\<close>)
  show ?thesis
  proof (cases "st_active s")
    case (Some a)
    then show ?thesis using go [OF c Some cd] op by (simp add: appendLocked_def)
  next
    case None
    let ?path = "hex16 (st_nextID s) @ activeSuffix"
    obtain f d1 where d1: "os_CreateExcl ?path (st_disk s) = (Inr f, d1)" "calm d1"
      using calm_calls(8) [OF cd] free None by blast
    obtain d2 where d2: "f_WriteAt f magicHeader 0 d1 = (None, d2)" "calm d2" using calm_calls(1) [OF d1(2)] by blast
    obtain d3 where d3: "f_Sync f d2 = (None, d3)" "calm d3" using calm_calls(3) [OF d2(2)] by blast
    obtain d4 where d4: "dir_Sync d3 = (None, d4)" "calm d4" using calm_calls(5) [OF d3(2)] by blast
    obtain s1 where s1: "createActive s = (None, s1)" "st_disk s1 = d4"
      using d1 d2 d3 d4 by (simp add: createActive_def Let_def)
    note k = createActive_keeps [OF c None s1(1)]
    then obtain a where "st_active s1 = Some a" by blast
    then show ?thesis using go [of s1 a] k s1 d4(2) None op by (simp add: appendLocked_def)
  qed
qed

lemma Put_calm:
  assumes "fuse_ok X" and "fuse_total X" and "holds X s L" and "\<not> st_closed s" and "st_failed s = None"
    and "dk_faults (st_disk s) = []" and "canonical k" and "length data \<le> MaxPayload"
    and "st_active s = None \<longrightarrow> map_of (dk_dirents (st_disk s)) (hex16 (st_nextID s) @ activeSuffix) = None"
  shows "\<exists>s'. Put X Z k data s = (None, s')"
proof -
  let ?s = "observe k s"
  have ik: "is_key k" using assms(7) by (simp add: canonical_def)
  have h: "holds X ?s L" using assms(3) by simp
  have has: "Has X ?s k = Inr (k \<in> dom (log_map L))" by (rule holds_reads(1) [OF h _ ik]) (use assms(4) in simp)
  obtain rec where rec: "EncodeRecord Z k data = Inr rec" using EncodeRecord_ok [OF assms(8)] by blast
  note w = encode_whole [OF assms(7) rec]
  have nid: "st_nextID ?s = st_nextID s" by (simp add: observe_def split: option.splits)
  have "fst (appendLocked X (rec_key rec) rec True ?s) = None"
    by (rule appendLocked_calm [OF assms(1,2) h _ _ _ w(1)]) (use assms nid in \<open>simp_all add: calm_def\<close>)
  then obtain s' where "appendLocked X k rec True ?s = (None, s')" using w(2) by (metis prod.collapse)
  then show ?thesis using assms(5) has rec by (cases "k \<in> dom (log_map L)") (simp_all add: Put_def Let_def)
qed

section \<open>Properties\<close>

text \<open>C14: what a batch leaves. Whatever \<open>WriteBatch\<close> returns, and under every pattern of I/O
  errors, the store holds its old log followed by new records for keys of the batch that
  were absent, each once. When it returns no error, the iterator yielded none, every object
  of the batch is present, and while a mark is running every key of the batch is grey.\<close>

theorem write_batch_log:
  assumes "fuse_ok X" and "holds X s L" and "\<not> st_closed s" and "\<forall>k \<in> set (seq_keys seq). canonical k"
    and "WriteBatch H X Z seq s = (e, s')"
  shows "\<exists>new obs. holds X s' (L @ new) \<and> observed s obs s' \<and> distinct (map rec_key new) \<and>
     rec_key ` set new \<subseteq> set (seq_keys seq) - dom (log_map L) \<and>
     (e = None \<longrightarrow> (\<forall>x \<in> set seq. \<exists>obj. x = Inr obj) \<and> set (seq_keys seq) \<subseteq> set obs \<and>
        (\<forall>k \<in> set (seq_keys seq). Has X s' k = Inr True))"
proof -
  note b = batch_loop_log [OF assms(1-4) assms(5) [unfolded WriteBatch_def]]
  obtain new obs where n: "holds X s' (L @ new)" "observed s obs s'" "distinct (map rec_key new)"
    "rec_key ` set new \<subseteq> set (seq_keys seq) - dom (log_map L)"
    "e = None \<longrightarrow> set (seq_keys seq) \<subseteq> dom (log_map (L @ new)) \<union> set [] \<and> set (seq_keys seq) - set [] \<subseteq> set obs"
    using conjunct1 [OF b] unfolding batch_effect_def by (elim exE conjE) (rule that; assumption)
  have op: "\<not> st_closed s'" using n(2) assms(3) by (simp add: observed_def)
  have "e = None \<longrightarrow> (\<forall>k \<in> set (seq_keys seq). Has X s' k = Inr True)"
    using n(5) holds_reads(1) [OF n(1) op] assms(4) by (auto simp: canonical_def)
  then show ?thesis using n b by (intro exI [of _ new] exI [of _ obs]) auto
qed

lemma all_filter_total: "fuse_total all_filter"
  by (simp add: fuse_total_def all_filter_def)

definition wit_key :: key where
  "wit_key = 0 # 5 # replicate 30 7"

lemma wit_key: "canonical wit_key" "is_key wit_key"
  by (simp_all add: wit_key_def canonical_def is_key_def Size_def Validate_def Key_Type_def IsValid_def ktype_defs)

theorem write_batch_log_witness:
  "\<exists>e s' L'. WriteBatch (\<lambda>_. []) all_filter rle_zstd
       [Inr \<lparr>ob_Key = wit_key, ob_Data = Some [1, 2, 3, 4, 5], ob_Record = None\<rparr>] empty_store = (e, s') \<and>
     holds all_filter s' L' \<and> (e = None \<longrightarrow> Has all_filter s' wit_key = Inr True)"
proof -
  let ?seq = "[Inr \<lparr>ob_Key = wit_key, ob_Data = Some [1, 2, 3, 4, 5], ob_Record = None\<rparr>]"
  obtain e s' where p: "WriteBatch (\<lambda>_. []) all_filter rle_zstd ?seq empty_store = (e, s')" by fastforce
  have "\<not> st_closed empty_store" "\<forall>k \<in> set (seq_keys ?seq). canonical k"
    using wit_key by (simp_all add: empty_store_def)
  from write_batch_log [OF all_filter_ok empty_store_holds this p] show ?thesis using p by fastforce
qed



text \<open>The chunked, concurrent \<open>Missing\<close> is the plain filter, for any number of processors:
  the chunks cover the keys once, in order and with multiplicity.\<close>

theorem missing_is_filter:
  assumes "holds X s L" and "\<not> st_closed s" and "\<forall>k \<in> set ks. is_key k" and "0 < procs"
  shows "Missing X procs s ks = Inr (filter (\<lambda>k. Has X s k = Inr False) ks)"
proof -
  define w where "w = (let m = (length ks + minMissingChunk - 1) div minMissingChunk in if m < procs then m else procs)"
  have M: "Missing X procs s ks = (if w = 0 then Inr []
      else let c = (length ks + w - 1) div w in
        case map_err (\<lambda>i. let lo = min (i * c) (length ks) in
            missing_chunk X s (slice lo (min ((i + 1) * c) (length ks)) ks)) [0..<w] of
          Inl e \<Rightarrow> Inl e | Inr results \<Rightarrow> Inr (concat results))"
    by (simp only: Missing_def w_def Let_def)
  have f: "filter (\<lambda>k. Has X s k = Inr False) ks = filter (\<lambda>k. k \<notin> dom (log_map L)) ks"
    by (rule filter_cong) (use holds_reads(1) [OF assms(1,2)] assms(3) in auto)
  show ?thesis
  proof (cases "w = 0")
    case True
    then have "ks = []" using assms(4) by (cases ks) (auto simp: w_def Let_def minMissingChunk_def split: if_splits)
    then show ?thesis using True M by simp
  next
    case False
    define c where "c = (length ks + w - 1) div w"
    let ?P = "\<lambda>k. k \<notin> dom (log_map L)"
    let ?win = "\<lambda>i. slice (min (i * c) (length ks)) (min ((i + 1) * c) (length ks)) ks"
    have cover: "length ks \<le> w * c"
    proof -
      have "length ks + w - 1 < w * (c + 1)" using False dividend_less_times_div [of w "length ks + w - 1"]
        by (simp add: c_def)
      then show ?thesis using False by (simp add: algebra_simps)
    qed
    have "map_err (\<lambda>i. missing_chunk X s (?win i)) [0..<w] = Inr (map (\<lambda>i. filter ?P (?win i)) [0..<w])"
    proof (rule map_err_ok_map)
      fix i assume "i \<in> set [0..<w]"
      have "set (?win i) \<subseteq> set ks" by (auto simp: slice_def dest: in_set_takeD in_set_dropD)
      then show "missing_chunk X s (?win i) = Inr (filter ?P (?win i))"
        by (intro missing_chunk_filter [OF assms(1,2)]) (use assms(3) in blast)
    qed
    moreover have "concat (map (\<lambda>i. filter ?P (?win i)) [0..<w]) = filter ?P ks"
    proof -
      have "ks = concat (map ?win [0..<w])" using concat_windows [of c ks w] cover by simp
      then have "filter ?P ks = filter ?P (concat (map ?win [0..<w]))" by (rule arg_cong)
      then show ?thesis by (simp only: filter_concat map_map comp_def)
    qed
    ultimately show ?thesis
      using False unfolding M Let_def c_def [symmetric] f by simp
  qed
qed

theorem missing_is_filter_witness:
  "Missing all_filter 4 empty_store (replicate 100 wit_key) = Inr (replicate 100 wit_key)"
proof -
  have "\<not> st_closed empty_store" "\<forall>k \<in> set (replicate 100 wit_key). is_key k" "0 < (4 :: nat)"
    using wit_key by (simp_all add: empty_store_def)
  from missing_is_filter [OF empty_store_holds this] show ?thesis
    using holds_reads(1) [OF empty_store_holds, of wit_key] wit_key by (simp add: empty_store_def filter_replicate)
qed

text \<open>\<open>SortByLocation\<close> permutes its keys into reading order: present keys first, by segment
  and then by offset in it, absent keys last. On a closed store it changes nothing.\<close>

theorem sort_by_location_order:
  shows "mset (SortByLocation X s ks) = mset ks \<and>
     (if st_closed s then SortByLocation X s ks = ks else sorted_wrt (reads_before X s) (SortByLocation X s ks))"
proof (cases "st_closed s")
  case True
  then show ?thesis by (simp add: SortByLocation_def)
next
  case False
  let ?loc = "map (\<lambda>k. (k, locateLocked X s k)) ks"
  have "sorted_wrt (\<lambda>a b. cmp_located a b \<le> 0) (SortFunc cmp_located ?loc)"
    by (rule SortFunc_sorted) (auto simp: cmp_located_le split: option.splits)
  moreover have "\<forall>p \<in> set (SortFunc cmp_located ?loc). snd p = locateLocked X s (fst p)" by auto
  moreover have "reads_before X s (fst p) (fst q)"
    if "cmp_located p q \<le> 0" "snd p = locateLocked X s (fst p)" "snd q = locateLocked X s (fst q)" for p q
    using that unfolding cmp_located_le reads_before_def by simp
  ultimately have "sorted_wrt (reads_before X s) (map fst (SortFunc cmp_located ?loc))"
    unfolding sorted_wrt_map by (blast intro: sorted_wrt_mono_rel [rotated])
  moreover have "mset (map fst (SortFunc cmp_located ?loc)) = mset ks"
  proof -
    have "mset (map fst (SortFunc cmp_located ?loc)) = mset (map fst ?loc)" by (simp only: mset_map mset_SortFunc)
    then show ?thesis by (simp add: comp_def del: mset_map)
  qed
  ultimately show ?thesis using False by (simp add: SortByLocation_def)
qed

end
