(* ===== verification/Amber_Recover.thy ===== *)
theory Amber_Recover
  imports Amber_StoreOps
begin

text \<open>
  Opening and closing the store (packstore.go's \<open>Open\<close>, \<open>load\<close>, \<open>Close\<close>, \<open>Wipe\<close>,
  \<open>parseSegmentID\<close>, recover.go): the tail scan that finds where the valid records of an active
  segment end, the completion of a crashed seal, and what survives a restart or a crash.
  The directory lock is not modelled: one store per directory is open.
\<close>

section \<open>Segment names\<close>

definition hex_value :: "char \<Rightarrow> nat option" where
  "hex_value c =
     (let n = of_char c :: nat in
      if 48 \<le> n \<and> n \<le> 57 then Some (n - 48)
      else if 97 \<le> n \<and> n \<le> 102 then Some (n - 87)
      else if 65 \<le> n \<and> n \<le> 70 then Some (n - 55)
      else None)"

text \<open>\<open>strconv.ParseUint(s, 16, 64)\<close>.\<close>

fun parse_hex :: "nat \<Rightarrow> string \<Rightarrow> nat option" where
  "parse_hex acc [] = Some acc"
| "parse_hex acc (c # cs) = (case hex_value c of None \<Rightarrow> None | Some v \<Rightarrow> parse_hex (acc * 16 + v) cs)"

definition ParseUint16 :: "string \<Rightarrow> u64 option" where
  "ParseUint16 s =
     (if s = [] then None
      else case parse_hex 0 s of None \<Rightarrow> None | Some v \<Rightarrow> if v < 2 ^ 64 then Some (of_nat v) else None)"

definition parseSegmentID :: "string \<Rightarrow> string \<Rightarrow> ps_err + u64" where
  "parseSegmentID name suf =
     (let hex = TrimSuffix name suf in
      case ParseUint16 hex of
        None \<Rightarrow> Inl (PackErr (ErrCorrupt ''bad segment file name''))
      | Some sid \<Rightarrow> if length hex \<noteq> 16 then Inl (PackErr (ErrCorrupt ''bad segment file name'')) else Inr sid)"

section \<open>The tail scan\<close>

record scanResult =
  sr_size :: nat
  sr_index :: "(key \<times> activeLoc) list"
  sr_sealed :: bool

function scan_loop :: "bytes \<Rightarrow> nat \<Rightarrow> (key \<times> activeLoc) list \<Rightarrow> scanResult" where
  "scan_loop b off idx =
     (if off < length b then
        if b ! off = tagSeal
        then (case parseFooter b of
                Inr _ \<Rightarrow> \<lparr>sr_size = length b, sr_index = idx, sr_sealed = True\<rparr>
              | Inl _ \<Rightarrow> \<lparr>sr_size = off, sr_index = idx, sr_sealed = False\<rparr>)
        else (case ParseRecord (drop off b) of
                Inl _ \<Rightarrow> \<lparr>sr_size = off, sr_index = idx, sr_sealed = False\<rparr>
              | Inr rec \<Rightarrow>
                  scan_loop b (off + RecHeaderSize + unat (Rec_Slen rec))
                    (AList.update (Rec_Key rec) \<lparr>al_off = off, al_flags = Rec_Flags rec, al_ulen = Rec_Ulen rec,
                       al_slen = Rec_Slen rec\<rparr> idx))
      else \<lparr>sr_size = off, sr_index = idx, sr_sealed = False\<rparr>)"
  by pat_completeness auto
termination
  by (relation "measure (\<lambda>(b, off, idx). length b - off)") (auto simp: RecHeaderSize_def)

declare scan_loop.simps [simp del]

definition scan_bytes :: "bytes \<Rightarrow> scanResult" where
  "scan_bytes b =
     (if length b < length magicHeader \<or> take (length magicHeader) b \<noteq> magicHeader
      then \<lparr>sr_size = 0, sr_index = [], sr_sealed = False\<rparr>
      else scan_loop b (length magicHeader) [])"

definition scanActive :: "string \<Rightarrow> disk \<Rightarrow> (ps_err + scanResult) \<times> disk" where
  "scanActive path d =
     (case os_ReadFile path d of
        (Inl e, d) \<Rightarrow> (Inl (IOErr e), d)
      | (Inr b, d) \<Rightarrow> (Inr (scan_bytes b), d))"

section \<open>Opening\<close>

definition cmp_segments :: "sealedSegment \<Rightarrow> sealedSegment \<Rightarrow> int" where
  "cmp_segments a b = cmp_word (sg_id a) (sg_id b)"

definition open_sealed :: "string \<Rightarrow> u64 \<Rightarrow> disk \<Rightarrow> (ps_err + sealedSegment) \<times> disk" where
  "open_sealed path sid d =
     (case os_ReadFile path d of
        (Inl e, d) \<Rightarrow> (Inl (IOErr e), d)
      | (Inr mm, d) \<Rightarrow> (case openSealed path sid mm of Inl e \<Rightarrow> (Inl (PackErr e), d) | Inr g \<Rightarrow> (Inr g, d)))"

definition finish_seal :: "string \<Rightarrow> u64 \<Rightarrow> store \<Rightarrow> ps_err option \<times> store" where
  "finish_seal sealedPath sid s =
     (case open_sealed sealedPath sid (st_disk s) of
        (Inl e, d) \<Rightarrow> (Some e, s\<lparr>st_disk := d\<rparr>)
      | (Inr g, d) \<Rightarrow> (None, s\<lparr>st_disk := d, st_sealed := SortFunc cmp_segments (st_sealed s @ [g])\<rparr>))"

definition resume_active :: "string \<Rightarrow> u64 \<Rightarrow> ino \<Rightarrow> nat \<Rightarrow> (key \<times> activeLoc) list \<Rightarrow> store \<Rightarrow> ps_err option \<times> store" where
  "resume_active path sid f sz idx s =
     (None, s\<lparr>st_active := Some \<lparr>as_id = sid, as_path = path, as_f = f, as_size = sz, as_index = idx\<rparr>\<rparr>)"

definition recoverActive :: "string \<Rightarrow> store \<Rightarrow> ps_err option \<times> store" where
  "recoverActive name s =
     (case parseSegmentID name activeSuffix of
        Inl e \<Rightarrow> (Some e, s)
      | Inr sid \<Rightarrow>
          (case scanActive name (st_disk s) of
             (Inl e, d) \<Rightarrow> (Some e, s\<lparr>st_disk := d\<rparr>)
           | (Inr res, d) \<Rightarrow>
               let s = s\<lparr>st_disk := d, st_nextID := (if sid \<ge> st_nextID s then sid + 1 else st_nextID s)\<rparr> in
               if sr_sealed res
               then let sealedPath = TrimSuffix name ''.active'' in
                    try_io (os_Rename name sealedPath) (try_io dir_Sync (finish_seal sealedPath sid)) s
               else (case os_Open name (st_disk s) of
                       (Inl e, d) \<Rightarrow> (Some (IOErr e), s\<lparr>st_disk := d\<rparr>)
                     | (Inr f, d) \<Rightarrow>
                         if sr_size res < length magicHeader
                         then try_io (f_Truncate f 0)
                               (try_io (f_WriteAt f magicHeader 0)
                                 (resume_active name sid f (length magicHeader) (sr_index res))) (s\<lparr>st_disk := d\<rparr>)
                         else try_io (f_Truncate f (sr_size res))
                               (resume_active name sid f (sr_size res) (sr_index res)) (s\<lparr>st_disk := d\<rparr>))))"

text \<open>The loop over the directory: sealed segments are opened, active names collected.\<close>

fun load_entries :: "string list \<Rightarrow> string list \<Rightarrow> store \<Rightarrow> (ps_err + string list) \<times> store" where
  "load_entries [] actives s = (Inr actives, s)"
| "load_entries (name # names) actives s =
     (if suffix activeSuffix name then load_entries names (actives @ [name]) s
      else if suffix sealedSuffix name then
        (case parseSegmentID name sealedSuffix of
           Inl e \<Rightarrow> (Inl e, s)
         | Inr sid \<Rightarrow>
             (case open_sealed name sid (st_disk s) of
                (Inl e, d) \<Rightarrow> (Inl e, s\<lparr>st_disk := d\<rparr>)
              | (Inr g, d) \<Rightarrow>
                  load_entries names actives
                    (s\<lparr>st_disk := d, st_sealed := st_sealed s @ [g],
                       st_nextID := (if sid \<ge> st_nextID s then sid + 1 else st_nextID s)\<rparr>)))
      else load_entries names actives s)"

definition load :: "store \<Rightarrow> ps_err option \<times> store" where
  "load s =
     (case os_ReadDir (st_disk s) of
        (Inl e, d) \<Rightarrow> (Some (IOErr e), s\<lparr>st_disk := d\<rparr>)
      | (Inr entries, d) \<Rightarrow>
          (case load_entries entries [] (s\<lparr>st_disk := d\<rparr>) of
             (Inl e, s) \<Rightarrow> (Some e, s)
           | (Inr actives, s) \<Rightarrow>
               let s = s\<lparr>st_sealed := SortFunc cmp_segments (st_sealed s)\<rparr> in
               (case actives of
                  [] \<Rightarrow> (None, s)
                | [name] \<Rightarrow> recoverActive name s
                | _ \<Rightarrow> (Some (PackErr (ErrCorrupt ''active segments'')), s))))"

definition new_store :: "int \<Rightarrow> bool \<Rightarrow> disk \<Rightarrow> store" where
  "new_store segmentSize sync d =
     \<lparr>st_disk = d, st_segmentSize = segmentSize, st_sync = sync, st_capturing = False, st_grey = None,
      st_sealed = [], st_active = None, st_nextID = 1, st_closed = False, st_failed = None\<rparr>"

definition Open :: "int \<Rightarrow> bool \<Rightarrow> disk \<Rightarrow> ps_err option \<times> store" where
  "Open segmentSize sync d = load (new_store segmentSize sync d)"

section \<open>Closing and wiping\<close>

text \<open>Calls whose first error is kept while the rest still run.\<close>

definition keep_first :: "ps_err option \<Rightarrow> string option \<Rightarrow> ps_err option" where
  "keep_first firstErr r = (case firstErr of Some e \<Rightarrow> Some e | None \<Rightarrow> map_option IOErr r)"

definition run_io :: "(disk \<Rightarrow> string option \<times> disk) \<Rightarrow> ps_err option \<times> disk \<Rightarrow> ps_err option \<times> disk" where
  "run_io c x = (case c (snd x) of (r, d) \<Rightarrow> (keep_first (fst x) r, d))"

definition Close :: "store \<Rightarrow> ps_err option \<times> store" where
  "Close s =
     (if st_closed s then (None, s)
      else let x = (None, st_disk s);
               x = (case st_active s of None \<Rightarrow> x | Some a \<Rightarrow> run_io f_Close (run_io (f_Sync (as_f a)) x));
               x = fold (\<lambda>g. run_io f_Close) (st_sealed s) x;
               x = run_io f_Close x
      in (fst x, s\<lparr>st_disk := snd x, st_closed := True, st_active := None, st_sealed := []\<rparr>))"

definition Wipe :: "store \<Rightarrow> ps_err option \<times> store" where
  "Wipe s =
     (if st_closed s then (Some StoreClosed, s)
      else let x = (None, st_disk s);
               x = (case st_active s of None \<Rightarrow> x | Some a \<Rightarrow> run_io (os_Remove (as_path a)) (run_io f_Close x));
               x = fold (\<lambda>g x. run_io (os_Remove (sg_path g)) (run_io f_Close x)) (st_sealed s) x;
               x = (if st_sync s then run_io dir_Sync x else x)
      in (fst x, s\<lparr>st_disk := snd x, st_active := None, st_sealed := [], st_failed := None\<rparr>))"

section \<open>Lemmas: the tail scan\<close>

lemma whole_head:
  assumes "whole r"
  shows "\<exists>h. ParseRecord (r @ rest) = Inr h \<and> Rec_Key h = rec_key r \<and>
     \<lparr>al_off = off, al_flags = Rec_Flags h, al_ulen = Rec_Ulen h, al_slen = Rec_Slen h\<rparr> = loc_at off r \<and>
     RecHeaderSize + unat (Rec_Slen h) = length r" and "r \<noteq> []" "r ! 0 \<noteq> tagSeal"
proof -
  obtain h where h: "whole_record r h" using assms by (auto simp: whole_def)
  then have p: "ParseRecord r = Inr h" and len: "length r = 46 + unat (Rec_Slen h)" by (simp_all add: whole_record_def)
  note f = ParseRecord_ok [OF p]
  show "\<exists>h. ParseRecord (r @ rest) = Inr h \<and> Rec_Key h = rec_key r \<and>
     \<lparr>al_off = off, al_flags = Rec_Flags h, al_ulen = Rec_Ulen h, al_slen = Rec_Slen h\<rparr> = loc_at off r \<and>
     RecHeaderSize + unat (Rec_Slen h) = length r"
    using whole_record_parse [OF h, of rest] f(3,5,6,7) len
    by (intro exI [of _ h]) (simp add: rec_key_def loc_at_def RecHeaderSize_def)
  show "r \<noteq> []" using len by auto
  show "r ! 0 \<noteq> tagSeal" using f(2) by (simp add: tagChunk_def tagSeal_def)
qed

text \<open>A valid record: parsing succeeds exactly where a whole record starts.\<close>

lemma parse_splits:
  assumes "ParseRecord b = Inr h"
  obtains r rest where "b = r @ rest" "whole r" "length r = RecHeaderSize + unat (Rec_Slen h)"
proof (rule that)
  let ?n = "46 + unat (Rec_Slen h)"
  show "b = take ?n b @ drop ?n b" by simp
  show len: "length (take ?n b) = RecHeaderSize + unat (Rec_Slen h)" using ParseRecord_ok(1) [OF assms] by (simp add: RecHeaderSize_def)
  show "whole (take ?n b)" using ParseRecord_extend [OF assms, of "[]"] len
    by (auto simp: whole_def whole_record_def RecHeaderSize_def)
qed

lemma scan_step:
  assumes "whole r" and "length pre = off"
  shows "scan_loop (pre @ r @ rest) off idx = scan_loop (pre @ r @ rest) (off + length r) (AList.update (rec_key r) (loc_at off r) idx)"
proof -
  obtain h where h: "ParseRecord (r @ rest) = Inr h" "Rec_Key h = rec_key r"
    "\<lparr>al_off = off, al_flags = Rec_Flags h, al_ulen = Rec_Ulen h, al_slen = Rec_Slen h\<rparr> = loc_at off r"
    "RecHeaderSize + unat (Rec_Slen h) = length r"
    using whole_head(1) [OF assms(1)] by blast
  have "(pre @ r @ rest) ! off = r ! 0" using assms(2) whole_head(2) [OF assms(1)] by (cases r) (simp_all add: nth_append)
  then show ?thesis using h whole_head(2,3) [OF assms(1)] assms(2)
    by (subst scan_loop.simps) (simp add: add.assoc)
qed

definition stops :: "bytes \<Rightarrow> bytes \<Rightarrow> scanResult \<Rightarrow> bool" where
  "stops b rest r \<longleftrightarrow>
     (if sr_sealed r then (\<exists>fv. parseFooter b = Inr fv) \<and> sr_size r = length b
      else sr_size r + length rest = length b \<and>
        (rest = [] \<or> hd rest = tagSeal \<and> (\<exists>e. parseFooter b = Inl e) \<or>
         hd rest \<noteq> tagSeal \<and> (\<exists>e. ParseRecord rest = Inl e)))"

lemma locs_update:
  "m(rec_key r \<mapsto> loc_at off r) ++ map_of (rev (locs (off + length r) L)) = m ++ map_of (rev (locs off (r # L)))"
  by (rule ext) (simp add: map_add_def split: option.split)

text \<open>The scan takes the longest run of whole records, and its index is that of their log.\<close>

lemma scan_loop_run:
  assumes "length pre = off"
  shows "\<exists>M rest. g = concat M @ rest \<and> (\<forall>r \<in> set M. whole r) \<and>
     map_of (sr_index (scan_loop (pre @ g) off idx)) = map_of idx ++ map_of (rev (locs off M)) \<and>
     (distinct (map fst idx) \<longrightarrow> distinct (map fst (sr_index (scan_loop (pre @ g) off idx)))) \<and>
     stops (pre @ g) rest (scan_loop (pre @ g) off idx)"
  using assms
proof (induction "length g" arbitrary: g pre off idx rule: less_induct)
  case less
  have stop: ?case if "scan_loop (pre @ g) off idx = r" "sr_index r = idx" "stops (pre @ g) g r" for r
    using that by (intro exI [of _ "[]"] exI [of _ g]) simp
  consider (empty) "g = []" | (seal) "g \<noteq> []" "hd g = tagSeal" | (bad) e where "g \<noteq> []" "hd g \<noteq> tagSeal" "ParseRecord g = Inl e"
    | (rec) h where "g \<noteq> []" "hd g \<noteq> tagSeal" "ParseRecord g = Inr h"
    by (cases "ParseRecord g") auto
  then show ?case
  proof cases
    case empty
    then show ?thesis using less.prems
      by (intro stop [OF refl]) (subst scan_loop.simps; simp add: stops_def)+
  next
    case seal
    then have "(pre @ g) ! off = tagSeal" using less.prems by (simp add: nth_append hd_conv_nth)
    then show ?thesis using seal less.prems
      by (intro stop [OF refl]) (subst scan_loop.simps; simp add: stops_def split: sum.splits)+
  next
    case bad
    then have "(pre @ g) ! off \<noteq> tagSeal" using less.prems by (simp add: nth_append hd_conv_nth)
    then show ?thesis using bad less.prems
      by (intro stop [OF refl]) (subst scan_loop.simps; simp add: stops_def)+
  next
    case rec
    obtain r g' where g: "g = r @ g'" "whole r" by (rule parse_splits [OF rec(3)])
    let ?idx = "AList.update (rec_key r) (loc_at off r) idx"
    have shorter: "length g' < length g" "length (pre @ r) = off + length r"
      using g whole_head(2) [OF g(2)] less.prems by simp_all
    have step: "scan_loop (pre @ g) off idx = scan_loop ((pre @ r) @ g') (off + length r) ?idx"
      using scan_step [OF g(2) less.prems, of g' idx] g(1) by simp
    from less.hyps [OF shorter, of ?idx] obtain M rest where m: "g' = concat M @ rest" "\<forall>r \<in> set M. whole r"
      "map_of (sr_index (scan_loop (pre @ g) off idx)) = map_of ?idx ++ map_of (rev (locs (off + length r) M))"
      "distinct (map fst ?idx) \<longrightarrow> distinct (map fst (sr_index (scan_loop (pre @ g) off idx)))"
      "stops (pre @ g) rest (scan_loop (pre @ g) off idx)"
      unfolding step using g(1) by auto
    have "distinct (map fst idx) \<longrightarrow> distinct (map fst ?idx)" by (simp add: distinct_update)
    then show ?thesis using m g locs_update [of "map_of idx" r off M]
      by (intro exI [of _ "r # M"] exI [of _ rest]) (simp add: update_conv' del: locs.simps)
  qed
qed

lemma scan_loop_prefix:
  assumes "\<forall>r \<in> set L. whole r" and "length pre = off"
  shows "\<exists>idx'. scan_loop (pre @ concat L @ g) off idx = scan_loop (pre @ concat L @ g) (off + length (concat L)) idx' \<and>
     map_of idx' = map_of idx ++ map_of (rev (locs off L)) \<and> (distinct (map fst idx) \<longrightarrow> distinct (map fst idx'))"
  using assms
proof (induction L arbitrary: pre off idx)
  case Nil
  then show ?case by auto
next
  case (Cons r L)
  let ?idx = "AList.update (rec_key r) (loc_at off r) idx"
  have w: "whole r" and pre: "length (pre @ r) = off + length r" using Cons.prems by simp_all
  from Cons.IH [OF _ pre, of ?idx] Cons.prems(1) obtain idx' where i:
    "scan_loop ((pre @ r) @ concat L @ g) (off + length r) ?idx = scan_loop ((pre @ r) @ concat L @ g) (off + length r + length (concat L)) idx'"
    "map_of idx' = map_of ?idx ++ map_of (rev (locs (off + length r) L))" "distinct (map fst ?idx) \<longrightarrow> distinct (map fst idx')"
    by auto
  have "distinct (map fst idx) \<longrightarrow> distinct (map fst ?idx)" by (simp add: distinct_update)
  then show ?case
    using i scan_step [OF w Cons.prems(2), of "concat L @ g" idx] locs_update [of "map_of idx" r off L]
    by (intro exI [of _ idx']) (simp add: add.assoc update_conv' del: locs.simps)
qed

lemma scan_bytes_log:
  assumes "\<forall>r \<in> set L. whole r"
  shows "\<exists>M rest. g = concat M @ rest \<and> (\<forall>r \<in> set M. whole r) \<and>
     map_of (sr_index (scan_bytes (body_of L @ g))) = index_map (L @ M) \<and>
     distinct (map fst (sr_index (scan_bytes (body_of L @ g)))) \<and>
     stops (body_of L @ g) rest (scan_bytes (body_of L @ g))"
proof -
  have img: "body_of L @ g = magicHeader @ concat L @ g" by (simp add: body_of_def)
  have go: "scan_bytes (magicHeader @ concat L @ g) = scan_loop (magicHeader @ concat L @ g) 8 []" by (simp add: scan_bytes_def)
  obtain idx' where i: "scan_bytes (body_of L @ g) = scan_loop (body_of L @ g) (8 + length (concat L)) idx'"
    "map_of idx' = map_of (rev (locs 8 L))" "distinct (map fst idx')"
    using scan_loop_prefix [OF assms length_magicHeader, of g "[]"] unfolding img go by auto
  have "length (body_of L) = 8 + length (concat L)" by (simp add: length_body_of)
  from scan_loop_run [OF this, of g idx'] obtain M rest where m: "g = concat M @ rest" "\<forall>r \<in> set M. whole r"
    "map_of (sr_index (scan_bytes (body_of L @ g))) = map_of idx' ++ map_of (rev (locs (8 + length (concat L)) M))"
    "distinct (map fst (sr_index (scan_bytes (body_of L @ g))))" "stops (body_of L @ g) rest (scan_bytes (body_of L @ g))"
    unfolding i(1) using i(3) by blast
  have "map_of idx' ++ map_of (rev (locs (8 + length (concat L)) M)) = index_map (L @ M)"
    by (simp add: index_map_def i(2) locs_append)
  then show ?thesis using m by (intro exI [of _ M] exI [of _ rest]) simp
qed

text \<open>The footer that sealing writes is where the scan reports a sealed segment.\<close>

lemma scan_sealed:
  assumes X: "fuse_ok X" and a: "active_is d a L"
    and f: "buildFooter X (as_size a) (entries_of (as_index a)) = Inr footer"
  shows "sr_sealed (scan_bytes (body_of L @ footer))"
proof -
  have wh: "\<forall>r \<in> set L. whole r" using a unfolding active_is_def by blast
  obtain fv where fv: "parseFooter (body_of L @ footer) = Inr fv"
    using seal_bytes [OF X a f refl, of "[]" 0] by (auto simp: openSealed_def split: sum.splits if_splits)
  have hd: "footer \<noteq> []" "hd footer = tagSeal" by (rule buildFooter_parts [OF f]; simp)+
  obtain M rest where m: "footer = concat M @ rest" "\<forall>r \<in> set M. whole r" "stops (body_of L @ footer) rest (scan_bytes (body_of L @ footer))"
    using scan_bytes_log [OF wh] by blast
  have "M = []"
  proof (cases M)
    case (Cons r M')
    then have "hd footer = r ! 0" using m(1,2) whole_head(2) [of r] by (cases r) auto
    then show ?thesis using hd(2) whole_head(3) [of r] m(2) Cons by simp
  qed simp
  then have "rest = footer" using m(1) by simp
  then show ?thesis using m(3) hd fv by (auto simp: stops_def split: if_splits)
qed

section \<open>Lemmas: opening\<close>

lemma resume_log:
  assumes c: "cut_into True X s RS []" and small: "length (body_of L) \<le> 2 ^ 36"
    and wh: "\<forall>r \<in> set L. whole r" and img: "take (length (body_of L)) (dk_files (st_disk s) f) = body_of L"
    and idx: "distinct (map fst idx)" "map_of idx = index_map L"
    and dir: "entry_kept (st_disk s) name f"
  shows "cut_into True X (snd (resume_active name sid f (length (body_of L)) idx s)) RS L"
  using assms by (simp add: resume_active_def cut_into_def active_is_def active_ready_def)

text \<open>Resuming the tail-scanned segment: its records are those before the garbage.\<close>

lemma recover_log:
  assumes c: "cut_into True X s RS []" and kept: "entry_kept (st_disk s) name f"
    and img: "dk_files (st_disk s) f = body_of L @ g" and small: "length (body_of L @ g) \<le> 2 ^ 36"
    and wh: "\<forall>r \<in> set L. whole r" and uns: "\<not> sr_sealed (scan_bytes (body_of L @ g))"
    and q: "recoverActive name s = (None, s')" and none: "st_active s = None"
  shows "\<exists>M rest. g = concat M @ rest \<and> cut_into True X s' RS (L @ M) \<and> st_closed s' = st_closed s \<and>
     st_failed s' = st_failed s \<and> st_sealed s' = st_sealed s"
proof -
  let ?r = "scan_bytes (body_of L @ g)"
  have dir: "map_of (dk_dirents (st_disk s)) name = Some f" using kept by (simp add: entry_kept_def)
  obtain M rest where m: "g = concat M @ rest" "\<forall>r \<in> set M. whole r" "map_of (sr_index ?r) = index_map (L @ M)"
    "distinct (map fst (sr_index ?r))" "stops (body_of L @ g) rest ?r"
    using scan_bytes_log [OF wh] by blast
  have fimg: "body_of L @ g = body_of (L @ M) @ rest" using m(1) by (simp add: body_of_def)
  have sz: "sr_size ?r = length (body_of (L @ M))" using m(5) uns arg_cong [OF fimg, of length] by (simp add: stops_def)
  have big: "\<not> sr_size ?r < length magicHeader" by (simp add: sz length_body_of)
  obtain sid where sid: "parseSegmentID name activeSuffix = Inr sid"
    using q by (auto simp: recoverActive_def split: sum.splits)
  obtain b d1 where rf: "os_ReadFile name (st_disk s) = (Inr b, d1)"
    using q sid by (auto simp: recoverActive_def scanActive_def split: sum.splits prod.splits)
  note rd = os_ReadFile_ok [OF rf]
  have b: "b = body_of L @ g" using rd(1) dir img by simp
  define s1 where "s1 = s\<lparr>st_disk := d1, st_nextID := (if sid \<ge> st_nextID s then sid + 1 else st_nextID s)\<rparr>"
  obtain d2 where op: "os_Open name d1 = (Inr f, d2)" "dk_files d2 = dk_files d1" "dk_dirents d2 = dk_dirents d1" "dir_of d2 = dir_of d1"
    and t: "try_io (f_Truncate f (sr_size ?r)) (resume_active name sid f (sr_size ?r) (sr_index ?r)) (s1\<lparr>st_disk := d2\<rparr>) = (None, s')"
  proof -
    obtain i d2 where o': "os_Open name d1 = (Inr i, d2)"
      using q sid rf b uns by (auto simp: recoverActive_def scanActive_def Let_def split: sum.splits prod.splits)
    have "i = f" using o' dir rd(3) by (auto simp: os_Open_def dest!: next_fault_eq split: prod.splits option.splits)
    then show thesis
      using that [of d2] o' q sid rf b uns big no_file_change(6) [OF o'] no_dir_change(4) [OF o'] dir_of_same(3) [OF o']
      by (simp add: recoverActive_def scanActive_def Let_def s1_def)
  qed
  from t obtain d3 where d3: "f_Truncate f (sr_size ?r) d2 = (None, d3)"
    and s': "s' = snd (resume_active name sid f (sr_size ?r) (sr_index ?r) (s1\<lparr>st_disk := d3\<rparr>))"
    by (cases rule: try_io_cases) (auto simp: resume_active_def)
  have f2: "dk_files d2 f = body_of (L @ M) @ rest" using op rd(2) img fimg by simp
  have "dk_files d3 f = body_of (L @ M)"
    using f_Truncate_files [OF d3] f2 sz by simp
  moreover have "cut_into True X (s1\<lparr>st_disk := d3\<rparr>) RS []"
    using c none by (simp add: cut_into_def s1_def)
  moreover have "entry_kept d3 name f"
    using kept entry_kept_cong [OF dir_of_same(5) [OF d3]] entry_kept_cong [OF op(4)] entry_kept_cong [OF dir_of_same(6) [OF rf]]
    by simp
  moreover have "length (body_of (L @ M)) \<le> 2 ^ 36" using small fimg by simp
  ultimately have "cut_into True X s' RS (L @ M)"
    unfolding s' sz by (intro resume_log) (use wh m in auto)
  then show ?thesis using m(1) s' by (intro exI [of _ M] exI [of _ rest]) (simp add: resume_active_def s1_def)
qed

text \<open>A name in the directory that is a sealed segment with the log \<open>lg\<close> gives it.\<close>

definition sealed_file :: "xorfilter \<Rightarrow> disk \<Rightarrow> (string \<Rightarrow> bytes list) \<Rightarrow> string \<Rightarrow> bool" where
  "sealed_file X d lg name \<longleftrightarrow>
     (\<forall>i sid g. map_of (dk_dirents d) name = Some i \<and> openSealed name sid (dk_files d i) = Inr g \<longrightarrow>
        sealed_is X g (lg name))"

definition is_active_name :: "string \<Rightarrow> bool" where
  "is_active_name n \<longleftrightarrow> suffix activeSuffix n"

definition is_sealed_name :: "string \<Rightarrow> bool" where
  "is_sealed_name n \<longleftrightarrow> suffix sealedSuffix n \<and> \<not> suffix activeSuffix n"

lemma open_sealed_ok:
  assumes "open_sealed name sid d = (Inr g, d')" and "sealed_file X d lg name"
  shows "sealed_is X g (lg name) \<and> sg_path g = name \<and> dk_files d' = dk_files d \<and> dir_of d' = dir_of d"
proof -
  obtain mm where m: "os_ReadFile name d = (Inr mm, d')" "openSealed name sid mm = Inr g"
    using assms(1) by (auto simp: open_sealed_def split: prod.splits sum.splits)
  have "sg_path g = name" using m(2) by (auto simp: openSealed_def split: if_splits sum.splits)
  then show ?thesis using os_ReadFile_ok [OF m(1)] dir_of_same(6) [OF m(1)] m(2) assms(2) unfolding sealed_file_def by blast
qed

lemma sealed_file_cong: "dk_files d' = dk_files d \<Longrightarrow> dir_of d' = dir_of d \<Longrightarrow> sealed_file X d' = sealed_file X d"
  by (intro ext) (simp add: sealed_file_def dir_of_def)

lemma load_entries_log:
  assumes "load_entries names acts s = (Inr actives, s')" and "\<forall>n \<in> set names. is_sealed_name n \<longrightarrow> sealed_file X (st_disk s) lg n"
    and "\<forall>g \<in> set (st_sealed s). sealed_is X g (lg (sg_path g))"
  shows "actives = acts @ filter is_active_name names \<and> (\<forall>g \<in> set (st_sealed s'). sealed_is X g (lg (sg_path g))) \<and>
     map sg_path (st_sealed s') = map sg_path (st_sealed s) @ filter is_sealed_name names \<and>
     dk_files (st_disk s') = dk_files (st_disk s) \<and> dir_of (st_disk s') = dir_of (st_disk s) \<and>
     same_frame s s' \<and> st_active s' = st_active s \<and> st_failed s' = st_failed s"
  using assms
proof (induction names arbitrary: acts s)
  case Nil
  then show ?case by simp
next
  case (Cons n names)
  consider (act) "suffix activeSuffix n" | (seal) "\<not> suffix activeSuffix n" "suffix sealedSuffix n"
    | (other) "\<not> suffix activeSuffix n" "\<not> suffix sealedSuffix n" by blast
  then show ?case
  proof cases
    case act
    then show ?thesis using Cons.IH [of "acts @ [n]" s] Cons.prems by (simp add: is_active_name_def is_sealed_name_def)
  next
    case other
    then show ?thesis using Cons.IH [of acts s] Cons.prems by (simp add: is_active_name_def is_sealed_name_def)
  next
    case seal
    then obtain sid g d where g: "open_sealed n sid (st_disk s) = (Inr g, d)"
      and r: "load_entries names acts (s\<lparr>st_disk := d, st_sealed := st_sealed s @ [g],
          st_nextID := (if sid \<ge> st_nextID s then sid + 1 else st_nextID s)\<rparr>) = (Inr actives, s')"
      using Cons.prems(1) by (auto split: sum.splits prod.splits)
    have sf: "sealed_file X (st_disk s) lg n" using Cons.prems(2) seal by (simp add: is_sealed_name_def)
    note o' = open_sealed_ok [OF g sf]
    have "sealed_file X d = sealed_file X (st_disk s)" using o' by (intro sealed_file_cong) simp_all
    then show ?thesis using Cons.IH [OF r] Cons.prems(2,3) o' seal
      by (simp add: is_active_name_def is_sealed_name_def same_frame_def)
  qed
qed

lemma sorted_segments: "sorted_wrt (\<lambda>a b. sg_id a \<le> sg_id b) (SortFunc cmp_segments gs)"
proof -
  have le: "cmp_segments a b \<le> 0 \<longleftrightarrow> sg_id a \<le> sg_id b" for a b by (auto simp: cmp_segments_def cmp_word_def)
  have "sorted_wrt (\<lambda>a b. cmp_segments a b \<le> 0) (SortFunc cmp_segments gs)"
    by (rule SortFunc_sorted) (auto simp: le)
  then show ?thesis by (simp add: le)
qed

lemma load_log:
  assumes "load s = (None, s')" and "\<forall>n \<in> set (map fst (dk_dirents (st_disk s))). is_sealed_name n \<longrightarrow> sealed_file X (st_disk s) lg n"
    and new: "st_sealed s = []" "st_active s = None" and size: "st_segmentSize s \<le> 2 ^ 36"
  obtains acts s1 where "acts = filter is_active_name (sort (map fst (dk_dirents (st_disk s))))"
    "cut_into True X s1 (map (lg \<circ> sg_path) (st_sealed s1)) []" "st_active s1 = None" "same_frame s s1" "st_failed s1 = st_failed s"
    "dk_files (st_disk s1) = dk_files (st_disk s)" "dir_of (st_disk s1) = dir_of (st_disk s)"
    "mset (map sg_path (st_sealed s1)) = mset (filter is_sealed_name (map fst (dk_dirents (st_disk s))))"
    "sorted_wrt (\<lambda>a b. sg_id a \<le> sg_id b) (st_sealed s1)"
    "acts = [] \<and> s' = s1 \<or> (\<exists>n. acts = [n] \<and> recoverActive n s1 = (None, s'))"
proof -
  let ?names = "sort (map fst (dk_dirents (st_disk s)))"
  obtain d where rd: "os_ReadDir (st_disk s) = (Inr ?names, d)" "dk_files d = dk_files (st_disk s)" "dir_of d = dir_of (st_disk s)"
    using assms(1) by (auto simp: load_def os_ReadDir_def dir_of_def dest!: next_fault_eq split: prod.splits option.splits sum.splits)
  obtain acts s2 where le: "load_entries ?names [] (s\<lparr>st_disk := d\<rparr>) = (Inr acts, s2)"
    using assms(1) rd(1) by (auto simp: load_def split: prod.splits sum.splits)
  have sf: "sealed_file X d = sealed_file X (st_disk s)" using rd by (intro sealed_file_cong) simp_all
  have l: "acts = filter is_active_name ?names" "\<forall>g \<in> set (st_sealed s2). sealed_is X g (lg (sg_path g))"
    "map sg_path (st_sealed s2) = filter is_sealed_name ?names" "dk_files (st_disk s2) = dk_files d"
    "dir_of (st_disk s2) = dir_of d" "same_frame s s2" "st_active s2 = None" "st_failed s2 = st_failed s"
    using load_entries_log [OF le, of X lg] assms(2) new sf by (auto simp: same_frame_def)
  define s1 where "s1 = s2\<lparr>st_sealed := SortFunc cmp_segments (st_sealed s2)\<rparr>"
  have "mset (map sg_path (st_sealed s1)) = mset (map sg_path (st_sealed s2))" by (simp add: s1_def)
  then have perm: "mset (map sg_path (st_sealed s1)) = mset (filter is_sealed_name (map fst (dk_dirents (st_disk s))))"
    by (simp only: l(3) mset_filter mset_sort)
  show thesis
  proof (rule that [OF l(1), of s1])
    have "list_all2 (sealed_is X) gs (map (lg \<circ> sg_path) gs)" if "\<forall>g \<in> set gs. sealed_is X g (lg (sg_path g))" for gs
      using that by (induction gs) auto
    then show "cut_into True X s1 (map (lg \<circ> sg_path) (st_sealed s1)) []"
      using l size by (simp add: cut_into_def s1_def same_frame_def)
    show "acts = [] \<and> s' = s1 \<or> (\<exists>n. acts = [n] \<and> recoverActive n s1 = (None, s'))"
      using assms(1) rd(1) le by (auto simp: load_def s1_def Let_def split: list.splits)
  qed (use l rd perm sorted_segments in \<open>auto simp: s1_def same_frame_def\<close>)
qed

section \<open>Lemmas: what a synchronous append leaves on disk\<close>

lemma try_io_None: "try_io c k s = (None, s') \<Longrightarrow> \<exists>d. c (st_disk s) = (None, d) \<and> k (s\<lparr>st_disk := d\<rparr>) = (None, s')"
  by (auto simp: try_io_def split: prod.splits option.splits)

text \<open>A segment whose sealing succeeded is a synced file under a synced name.\<close>

definition on_disk :: "disk \<Rightarrow> string \<Rightarrow> bytes \<Rightarrow> bool" where
  "on_disk d name b \<longleftrightarrow> (\<exists>i. entry_kept d name i \<and> dk_files d i = b \<and> \<not> dk_dirty d i)"

lemma on_disk_crash: "on_disk d name b \<Longrightarrow> crash d d' \<Longrightarrow> \<exists>i. map_of (dk_dirents d') name = Some i \<and> dk_files d' i = b"
proof -
  assume "on_disk d name b" and c: "crash d d'"
  then obtain i where i: "entry_kept d name i" "dk_files d i = b" "\<not> dk_dirty d i" by (auto simp: on_disk_def)
  have "dk_files d' i = dk_files d i" using c i(3) by (auto simp: crash_def)
  then show ?thesis using entry_kept_crash [OF i(1) c] i(2) by auto
qed

lemma seal_success:
  assumes X: "fuse_ok X" and a: "st_active s = Some a" "as_index a \<noteq> []" and act: "active_is (st_disk s) a RA"
    and dir: "map_of (dk_dirents (st_disk s)) (as_path a) = Some (as_f a)" and q: "sealActiveLocked X s = (None, s')"
  shows "\<exists>g. st_active s' = None \<and> st_sealed s' = st_sealed s @ [g] \<and> sealed_is X g RA \<and>
     openSealed (sg_path g) (sg_id g) (sg_mm g) = Inr g \<and> on_disk (st_disk s') (sg_path g) (sg_mm g)"
proof -
  let ?f = "as_f a" and ?n = "as_size a" and ?path = "TrimSuffix (as_path a) ''.active''"
  obtain footer where foot: "buildFooter X ?n (entries_of (as_index a)) = Inr footer"
    using q a by (auto simp: sealActiveLocked_def split: sum.splits)
  have q1: "try_io (f_Truncate ?f ?n) (try_io (f_WriteAt ?f footer ?n) (try_io (f_Sync ?f)
      (try_io (os_Rename (as_path a) ?path) (try_io dir_Sync (publish_sealed ?path a))))) s = (None, s')"
    using q a foot by (simp add: sealActiveLocked_def Let_def)
  have b: "take ?n (dk_files (st_disk s) ?f) = body_of RA" "?n = length (body_of RA)" using act unfolding active_is_def by blast+
  obtain d1 where d1: "f_Truncate ?f ?n (st_disk s) = (None, d1)"
    and q2: "try_io (f_WriteAt ?f footer ?n) (try_io (f_Sync ?f) (try_io (os_Rename (as_path a) ?path)
       (try_io dir_Sync (publish_sealed ?path a)))) (s\<lparr>st_disk := d1\<rparr>) = (None, s')"
    using try_io_None [OF q1] by blast
  obtain d2 where d2: "f_WriteAt ?f footer ?n d1 = (None, d2)"
    and q3: "try_io (f_Sync ?f) (try_io (os_Rename (as_path a) ?path) (try_io dir_Sync (publish_sealed ?path a)))
       (s\<lparr>st_disk := d2\<rparr>) = (None, s')"
    using try_io_None [OF q2] by auto
  obtain d3 where d3: "f_Sync ?f d2 = (None, d3)"
    and q4: "try_io (os_Rename (as_path a) ?path) (try_io dir_Sync (publish_sealed ?path a)) (s\<lparr>st_disk := d3\<rparr>) = (None, s')"
    using try_io_None [OF q3] by auto
  obtain d4 where d4: "os_Rename (as_path a) ?path d3 = (None, d4)"
    and q5: "try_io dir_Sync (publish_sealed ?path a) (s\<lparr>st_disk := d4\<rparr>) = (None, s')"
    using try_io_None [OF q4] by auto
  obtain d5 where d5: "dir_Sync d4 = (None, d5)" and q6: "publish_sealed ?path a (s\<lparr>st_disk := d5\<rparr>) = (None, s')"
    using try_io_None [OF q5] by auto
  have "dk_files d1 ?f = body_of RA" using f_Truncate_files [OF d1 active_is_length [OF act]] b by simp
  then have "dk_files d2 ?f = body_of RA @ footer" using f_WriteAt_files [OF d2] b by auto
  then have file5: "dk_files d5 ?f = body_of RA @ footer" "\<not> dk_dirty d5 ?f"
    using no_file_change(1) [OF d3] no_file_change(3) [OF d4] no_file_change(5) [OF d5]
      clean_kept(1) [OF d3] clean_kept(3) [OF d4] clean_kept(4) [OF d5] by simp_all
  have "map_of (dk_dirents d3) (as_path a) = Some ?f"
    using dir no_dir_change(6) [OF d1] no_dir_change(5) [OF d2] no_dir_change(1) [OF d3] by simp
  then have kept5: "entry_kept d5 ?path ?f" using dir_Sync_kept [OF d5] os_Rename_ok(1) [OF d4] by simp
  obtain mm d6 where d6: "os_ReadFile ?path d5 = (Inr mm, d6)" using q6 by (auto simp: publish_sealed_def split: prod.splits sum.splits)
  have mm: "mm = body_of RA @ footer" using os_ReadFile_ok(1) [OF d6] kept5 file5 by (simp add: entry_kept_def)
  obtain g where g: "openSealed ?path (as_id a) mm = Inr g" "sealed_is X g RA" "sg_id g = as_id a" "sg_path g = ?path"
    using seal_bytes [OF X act foot] mm by blast
  have gm: "sg_mm g = mm" using g(1) by (auto simp: openSealed_def split: if_splits sum.splits)
  obtain d7 where d7: "f_Close d6 = (None, d7)" and s': "s' = s\<lparr>st_disk := d7, st_sealed := st_sealed s @ [g], st_active := None\<rparr>"
    using q6 d6 g(1) by (auto simp: publish_sealed_def dest!: try_io_None)
  have "on_disk d7 ?path mm"
    using kept5 file5 mm entry_kept_cong [OF dir_of_same(6) [OF d6]] entry_kept_cong [OF dir_of_same(2) [OF d7]]
      os_ReadFile_ok(2) [OF d6] no_file_change(2) [OF d7] clean_kept(5) [OF d6] clean_kept(2) [OF d7]
    unfolding on_disk_def by (intro exI [of _ ?f]) simp
  then show ?thesis using g gm s' by (intro exI [of _ g]) simp
qed

text \<open>After a synchronous append succeeded, the record is in a synced file whose name is kept:
  in the active segment, or in the segment that this append sealed.\<close>

definition appended_durably :: "xorfilter \<Rightarrow> store \<Rightarrow> bytes list \<Rightarrow> bool" where
  "appended_durably X s RA \<longleftrightarrow>
     (case st_active s of
        Some a \<Rightarrow> \<exists>rest. on_disk (st_disk s) (as_path a) (body_of RA @ rest)
      | None \<Rightarrow> \<exists>g \<in> set (st_sealed s). sealed_is X g RA \<and> openSealed (sg_path g) (sg_id g) (sg_mm g) = Inr g \<and>
          on_disk (st_disk s) (sg_path g) (sg_mm g))"

lemma append_active_durable:
  assumes X: "fuse_ok X" and c: "cut_into True X s RS RA" and a: "st_active s = Some a" and r: "whole rec"
    and new: "map_of (as_index a) (rec_key rec) = None" and sy: "st_sync s"
    and q: "append_active X (rec_key rec) rec True a s = (None, s')"
  shows "appended_durably X s' (RA @ [rec])"
proof -
  have act: "active_is (st_disk s) a RA" and small: "as_size a \<le> 2 ^ 36"
    and dir: "entry_kept (st_disk s) (as_path a) (as_f a)"
    using c a by (simp_all add: cut_into_def active_ready_def)
  define a' where "a' = a\<lparr>as_index := (rec_key rec, loc_at (as_size a) rec) # as_index a, as_size := as_size a + length rec\<rparr>"
  obtain d where d: "f_WriteAt (as_f a) rec (as_size a) (st_disk s) = (None, d)"
    and p: "append_publish X (rec_key rec) rec True a (s\<lparr>st_disk := d\<rparr>) = (None, s')"
    using q new by (auto simp: append_active_def dest!: try_io_None)
  obtain d' where d': "f_Sync (as_f a) d = (None, d')"
    and t: "rotate_full X a' (s\<lparr>st_active := Some a', st_disk := d'\<rparr>) = (None, s')"
    using p sy by (auto simp: append_publish_def Let_def a'_def loc_at_def split: prod.splits option.splits)
  let ?s = "s\<lparr>st_active := Some a', st_disk := d'\<rparr>"
  have "dk_files d (as_f a) = write_at (dk_files (st_disk s) (as_f a)) (as_size a) rec"
    using f_WriteAt_files [OF d] by auto
  then have act': "active_is d' a' (RA @ [rec])"
    using active_append [OF act r small new, of d'] no_file_change(1) [OF d'] by (simp add: a'_def)
  have kept: "entry_kept d' (as_path a') (as_f a')"
    using dir entry_kept_cong [OF dir_of_same(4) [OF d]] entry_kept_cong [OF dir_of_same(1) [OF d']] by (simp add: a'_def)
  show ?thesis
  proof (cases "int (as_size a') \<ge> st_segmentSize s")
    case False
    then have s': "s' = ?s" using t by (simp add: rotate_full_def)
    have "take (as_size a') (dk_files d' (as_f a')) = body_of (RA @ [rec])" using act' unfolding active_is_def by blast
    then have "dk_files d' (as_f a') = body_of (RA @ [rec]) @ drop (as_size a') (dk_files d' (as_f a'))"
      by (metis append_take_drop_id)
    moreover have "\<not> dk_dirty d' (as_f a')" using clean_kept(1) [OF d'] by (simp add: a'_def)
    ultimately have "on_disk d' (as_path a') (body_of (RA @ [rec]) @ drop (as_size a') (dk_files d' (as_f a')))"
      unfolding on_disk_def using kept by (intro exI [of _ "as_f a'"]) simp
    then show ?thesis using s' by (auto simp: appended_durably_def)
  next
    case True
    then have q': "sealActiveLocked X ?s = (None, s')"
      using t by (auto simp: rotate_full_def split: prod.splits option.splits)
    have "\<exists>g. st_active s' = None \<and> st_sealed s' = st_sealed ?s @ [g] \<and> sealed_is X g (RA @ [rec]) \<and>
       openSealed (sg_path g) (sg_id g) (sg_mm g) = Inr g \<and> on_disk (st_disk s') (sg_path g) (sg_mm g)"
      by (rule seal_success [OF X _ _ _ _ q', of a']) (use act' kept in \<open>simp_all add: entry_kept_def a'_def\<close>)
    then show ?thesis by (auto simp: appended_durably_def)
  qed
qed

lemma Put_durable:
  assumes X: "fuse_ok X" and h: "holds X s L" and op: "\<not> st_closed s" and k: "canonical k"
    and sy: "st_sync s" and abs: "Has X s k = Inr False" and q: "Put X Z k data s = (None, s')"
  shows "\<exists>rec RA. EncodeRecord Z k data = Inr rec \<and> appended_durably X s' (RA @ [rec]) \<and> (\<forall>r \<in> set (RA @ [rec]). whole r)"
proof -
  let ?s = "observe k s"
  have nf: "st_failed s = None" using q by (auto simp: Put_def split: option.splits)
  have "Has X ?s k = Has X s k" by (simp add: Has_def active_loc_def)
  then obtain rec where rec: "EncodeRecord Z k data = Inr rec" and ap: "appendLocked X k rec True ?s = (None, s')"
    using q nf abs by (auto simp: Put_def Let_def split: sum.splits)
  note w = encode_whole [OF k rec]
  have ik: "is_key k" using k by (simp add: canonical_def)
  obtain RS RA where c: "cut_into True X ?s RS RA" and L: "L = concat RS @ RA"
    using holds_observe [of X k s L] h nf unfolding holds_def holds_with_def by auto
  have none: "rec_key rec \<notin> dom (log_map RA)"
    using holds_reads(1) [OF h op ik] abs w(2) L by (auto simp: dom_log_map)
  show ?thesis
  proof (cases "st_active s")
    case (Some a)
    have "map_of (as_index a) (rec_key rec) = None"
      using active_read [OF cut_take [OF c], of a "rec_key rec" undefined] Some none by (auto split: option.splits)
    moreover have "append_active X (rec_key rec) rec True a ?s = (None, s')"
      using ap Some op nf w(2) by (simp add: appendLocked_def)
    ultimately have "appended_durably X s' (RA @ [rec])"
      using append_active_durable [OF X c _ w(1)] Some sy by simp
    then show ?thesis using rec w(1) cut_whole [OF c] by (intro exI [of _ rec] exI [of _ RA]) simp
  next
    case None
    obtain e1 s1 where cr: "createActive ?s = (e1, s1)" by fastforce
    have e1: "e1 = None" using ap None op nf cr by (auto simp: appendLocked_def split: option.splits)
    obtain a where a: "st_active s1 = Some a" "cut_into True X s1 RS RA" "same_frame ?s s1"
      using createActive_keeps [OF c _ cr] None e1 by auto
    have "append_active X (rec_key rec) rec True a s1 = (None, s')"
      using ap None op nf cr e1 a w(2) by (simp add: appendLocked_def)
    moreover have "map_of (as_index a) (rec_key rec) = None"
      using active_read [OF cut_take [OF a(2,1)], of "rec_key rec" undefined] none by (auto split: option.splits)
    ultimately have "appended_durably X s' (RA @ [rec])"
      using append_active_durable [OF X a(2,1) w(1)] a(3) sy by (simp add: same_frame_def)
    then show ?thesis using rec w(1) cut_whole [OF c] by (intro exI [of _ rec] exI [of _ RA]) simp
  qed
qed

section \<open>Properties\<close>

text \<open>C20: the tail scan. On a file that starts with a header and the records of a log \<open>L\<close>,
  whatever bytes \<open>g\<close> follow, the scan ends and finds every record of \<open>L\<close>: its index is that of
  \<open>L\<close> followed by the whole records at the front of \<open>g\<close>, and it stops at the first byte where
  no valid record starts, unless the file carries a valid footer there.\<close>

theorem tail_scan_exact:
  assumes "\<forall>r \<in> set L. whole r"
  shows "\<exists>M rest. g = concat M @ rest \<and> (\<forall>r \<in> set M. whole r) \<and>
     map_of (sr_index (scan_bytes (body_of L @ g))) = index_map (L @ M) \<and>
     distinct (map fst (sr_index (scan_bytes (body_of L @ g)))) \<and>
     stops (body_of L @ g) rest (scan_bytes (body_of L @ g))"
  by (rule scan_bytes_log [OF assms])

theorem tail_scan_exact_witness:
  "sr_size (scan_bytes (magicHeader @ [0, 0, 0])) = 8 \<and> map_of (sr_index (scan_bytes (magicHeader @ [0, 0, 0]))) = Map.empty"
proof -
  obtain M rest where m: "[0, 0, 0] = concat M @ rest" "\<forall>r \<in> set M. whole r"
    "map_of (sr_index (scan_bytes (body_of [] @ [0, 0, 0]))) = index_map ([] @ M)"
    "stops (body_of [] @ [0, 0, 0]) rest (scan_bytes (body_of [] @ [0, 0, 0]))"
    using tail_scan_exact [of "[]" "[0, 0, 0]"] by auto
  have "M = []"
  proof (cases M)
    case (Cons r M')
    then have "46 \<le> length r" "length r \<le> length [0, 0, 0 :: byte]" using m(1,2) whole_bound by simp_all
    then show ?thesis by simp
  qed simp
  moreover have "parseFooter (magicHeader @ [0, 0, 0]) = Inl (ErrCorrupt ''file too short'')"
    by (simp add: parseFooter_def min_sealed_def footer_consts)
  ultimately show ?thesis using m by (simp add: body_of_def stops_def split: if_splits)
qed





end
