(* ===== verification/Amber_Sweep.thy ===== *)
theory Amber_Sweep
  imports Amber_Recover
begin

text \<open>
  Package \<open>packstore\<close>, the collector's side (verify.go, markset.go, gc.go, compact.go,
  parallel.go): scrubbing, mark sets, index scans, segment removal, liveness, compaction and
  the parallel writer. Concurrent stages are run by an explicit schedule, over which the
  lemmas quantify; a method that holds the store's locks is one step.
\<close>

section \<open>Scrubbing\<close>

text \<open>\<open>ctx off\<close> tells whether the context is cancelled when the walk reaches \<open>off\<close>.\<close>

definition seg_bodyLen :: "sealedSegment \<Rightarrow> nat" where
  "seg_bodyLen g = unat (fv_bodyLen (sg_fv g))"

function verify_walk :: "(nat \<Rightarrow> bool) \<Rightarrow> (bytes \<Rightarrow> bytes) \<Rightarrow> xorfilter \<Rightarrow> zstd \<Rightarrow> sealedSegment \<Rightarrow> nat \<Rightarrow> indexEntry list \<Rightarrow>
    ps_err + nat \<times> indexEntry list" where
  "verify_walk ctx H X Z g off entries =
     (if off < seg_bodyLen g then
        if ctx off then Inl (SeqErr ''context'')
        else case ParseRecord (slice off (seg_bodyLen g) (sg_mm g)) of
          Inl e \<Rightarrow> Inl (PackErr e)
        | Inr rec \<Rightarrow>
            (case DecodePayload Z (Rec_Flags rec) (Rec_Ulen rec)
                    (slice (off + RecHeaderSize) (off + RecHeaderSize + unat (Rec_Slen rec)) (sg_mm g)) of
               Inl e \<Rightarrow> Inl (PackErr e)
             | Inr payload \<Rightarrow>
                 (case verifyObject H (Rec_Key rec) payload of
                    Some e \<Rightarrow> Inl (PackErr (ErrCorrupt ''verify''))
                  | None \<Rightarrow>
                      if \<not> Contains X (fv_filter (sg_fv g)) (filterKey (Rec_Key rec))
                      then Inl (PackErr (ErrCorrupt ''filter missing key''))
                      else verify_walk ctx H X Z g (off + RecHeaderSize + unat (Rec_Slen rec))
                             (entries @ [\<lparr>ie_k = Rec_Key rec, ie_off = of_nat off, ie_slen = Rec_Slen rec\<rparr>])))
      else Inr (off, entries))"
  by pat_completeness auto
termination
  by (relation "measure (\<lambda>(ctx, H, X, Z, g, off, entries). seg_bodyLen g - off)") (auto simp: RecHeaderSize_def)

declare verify_walk.simps [simp del]

definition seg_verify :: "(nat \<Rightarrow> bool) \<Rightarrow> (bytes \<Rightarrow> bytes) \<Rightarrow> xorfilter \<Rightarrow> zstd \<Rightarrow> sealedSegment \<Rightarrow> ps_err option" where
  "seg_verify ctx H X Z g =
     (case verify_walk ctx H X Z g (length magicHeader) [] of
        Inl e \<Rightarrow> Some e
      | Inr (off, entries) \<Rightarrow>
          if off \<noteq> seg_bodyLen g then Some (PackErr (ErrCorrupt ''records end''))
          else if (of_nat (length entries) :: u64) \<noteq> fv_keyCount (sg_fv g) then Some (PackErr (ErrCorrupt ''record count''))
          else if buildIndexSection entries \<noteq>
             slice (unat (fv_indexOff (sg_fv g))) (unat (fv_indexOff (sg_fv g) + fv_indexLen (sg_fv g))) (sg_mm g)
          then Some (PackErr (ErrCorrupt ''index section does not match body''))
          else None)"

fun verify_all :: "(sealedSegment \<Rightarrow> ps_err option) \<Rightarrow> sealedSegment list \<Rightarrow> ps_err option" where
  "verify_all v [] = None"
| "verify_all v (g # gs) = (case v g of Some e \<Rightarrow> Some e | None \<Rightarrow> verify_all v gs)"

definition Verify :: "(nat \<Rightarrow> bool) \<Rightarrow> (bytes \<Rightarrow> bytes) \<Rightarrow> xorfilter \<Rightarrow> zstd \<Rightarrow> store \<Rightarrow> ps_err option" where
  "Verify ctx H X Z s =
     (if st_closed s then Some StoreClosed else verify_all (seg_verify ctx H X Z) (st_sealed s))"

section \<open>Index scans, records, removal\<close>

definition index_row :: "bytes \<Rightarrow> nat \<Rightarrow> indexEntry" where
  "index_row entries i =
     (let e = slice (i * indexEntrySize) ((i + 1) * indexEntrySize) entries in
      \<lparr>ie_k = take 32 e, ie_off = Uint64 (slice 32 40 e), ie_slen = Uint32 (slice 40 44 e)\<rparr>)"

definition allEntries :: "footerView \<Rightarrow> indexEntry list" where
  "allEntries fv = map (index_row (fv_entries fv)) [0..<unat (fv_keyCount fv)]"

fun pinSegment :: "sealedSegment list \<Rightarrow> u64 \<Rightarrow> sealedSegment option" where
  "pinSegment [] sid = None"
| "pinSegment (g # gs) sid = (if sg_id g = sid then Some g else pinSegment gs sid)"

text \<open>\<open>ScanIndex\<close> calls its function on each row; the model returns the rows.\<close>

definition ScanIndex :: "store \<Rightarrow> u64 \<Rightarrow> ps_err + indexEntry list" where
  "ScanIndex s sid =
     (if st_closed s then Inl StoreClosed
      else case pinSegment (st_sealed s) sid of
        None \<Rightarrow> Inl UnknownSegment
      | Some g \<Rightarrow> Inr (allEntries (sg_fv g)))"

definition Store_Record :: "store \<Rightarrow> u64 \<Rightarrow> u64 \<Rightarrow> ps_err + bytes" where
  "Store_Record s sid off =
     (if st_closed s then Inl StoreClosed
      else case pinSegment (st_sealed s) sid of
        None \<Rightarrow> Inl UnknownSegment
      | Some g \<Rightarrow>
          let body = fv_bodyLen (sg_fv g) in
          if off < of_nat (length magicHeader) \<or> off > body \<or> of_nat RecHeaderSize > body - off
          then Inl (PackErr (ErrCorrupt ''record offset out of range''))
          else case ParseRecord (slice (unat off) (unat body) (sg_mm g)) of
            Inl e \<Rightarrow> Inl (PackErr e)
          | Inr rec \<Rightarrow> Inr (slice (unat off) (unat off + RecHeaderSize + unat (Rec_Slen rec)) (sg_mm g)))"

definition HasOutside :: "xorfilter \<Rightarrow> store \<Rightarrow> u64 \<Rightarrow> key \<Rightarrow> ps_err + bool" where
  "HasOutside X s sid k =
     (if st_closed s then Inl StoreClosed
      else if active_loc s k \<noteq> None then Inr True
      else Inr (list_ex (\<lambda>g. sg_id g \<noteq> sid \<and> seg_has X g k) (rev (st_sealed s))))"

fun remove_first :: "u64 \<Rightarrow> sealedSegment list \<Rightarrow> (sealedSegment \<times> sealedSegment list) option" where
  "remove_first sid [] = None"
| "remove_first sid (g # gs) =
     (if sg_id g = sid then Some (g, gs) else map_option (\<lambda>(h, hs). (h, g # hs)) (remove_first sid gs))"

definition Remove :: "u64 \<Rightarrow> store \<Rightarrow> ps_err option \<times> store" where
  "Remove sid s =
     (if st_closed s then (Some StoreClosed, s)
      else case remove_first sid (st_sealed s) of
        None \<Rightarrow> (Some UnknownSegment, s)
      | Some (g, gs) \<Rightarrow>
          let x = run_io (os_Remove (sg_path g)) (run_io f_Close (None, st_disk s));
              x = (if st_sync s then run_io dir_Sync x else x)
          in (fst x, s\<lparr>st_disk := snd x, st_sealed := gs\<rparr>))"

section \<open>Mark sets\<close>

record MarkSet =
  ms_segs :: "sealedSegment list"
  ms_bits :: "u64 list list"
  ms_active :: "(key \<times> bool) list"
  ms_marked :: nat

definition NewMarkSet :: "store \<Rightarrow> MarkSet" where
  "NewMarkSet s =
     \<lparr>ms_segs = st_sealed s,
      ms_bits = map (\<lambda>g. replicate (unat ((fv_keyCount (sg_fv g) + 63) div 64)) 0) (st_sealed s),
      ms_active = (case st_active s of None \<Rightarrow> [] | Some a \<Rightarrow> map (\<lambda>(k, _). (k, False)) (as_index a)),
      ms_marked = 0\<rparr>"

datatype mark_slot = InActive | InSeg nat nat

fun mark_probe :: "xorfilter \<Rightarrow> sealedSegment list \<Rightarrow> nat \<Rightarrow> key \<Rightarrow> mark_slot option" where
  "mark_probe X segs 0 k = None"
| "mark_probe X segs (Suc i) k =
     (let g = segs ! i in
      if \<not> Contains X (fv_filter (sg_fv g)) (filterKey k) then mark_probe X segs i k
      else case fv_lookupPos (sg_fv g) k of Some p \<Rightarrow> Some (InSeg i p) | None \<Rightarrow> mark_probe X segs i k)"

definition ms_locate :: "xorfilter \<Rightarrow> MarkSet \<Rightarrow> key \<Rightarrow> mark_slot option" where
  "ms_locate X m k =
     (if map_of (ms_active m) k \<noteq> None then Some InActive else mark_probe X (ms_segs m) (length (ms_segs m)) k)"

definition slot_marked :: "MarkSet \<Rightarrow> key \<Rightarrow> mark_slot \<Rightarrow> bool" where
  "slot_marked m k sl =
     (case sl of
        InActive \<Rightarrow> map_of (ms_active m) k = Some True
      | InSeg i p \<Rightarrow> (ms_bits m ! i ! (p div 64)) AND push_bit (p mod 64) 1 \<noteq> 0)"

definition set_slot :: "MarkSet \<Rightarrow> key \<Rightarrow> mark_slot \<Rightarrow> MarkSet" where
  "set_slot m k sl =
     (case sl of
        InActive \<Rightarrow> m\<lparr>ms_active := AList.update k True (ms_active m)\<rparr>
      | InSeg i p \<Rightarrow>
          m\<lparr>ms_bits := (ms_bits m)[i := (ms_bits m ! i)[p div 64 := (ms_bits m ! i ! (p div 64)) OR push_bit (p mod 64) 1]]\<rparr>)"

text \<open>\<open>Mark\<close> returns whether the key was unmarked and whether it is present.\<close>

definition Mark :: "xorfilter \<Rightarrow> MarkSet \<Rightarrow> key \<Rightarrow> (bool \<times> bool) \<times> MarkSet" where
  "Mark X m k =
     (case ms_locate X m k of
        None \<Rightarrow> ((False, False), m)
      | Some sl \<Rightarrow>
          let newly = \<not> slot_marked m k sl; m' = set_slot m k sl
          in ((newly, True), if newly then m'\<lparr>ms_marked := ms_marked m + 1\<rparr> else m'))"

definition ms_Contains :: "xorfilter \<Rightarrow> MarkSet \<Rightarrow> key \<Rightarrow> bool" where
  "ms_Contains X m k = (case ms_locate X m k of None \<Rightarrow> False | Some sl \<Rightarrow> slot_marked m k sl)"

section \<open>Liveness\<close>

record SegmentLiveness =
  sl_ID :: u64
  sl_Sealed :: bool
  LiveKeys :: nat
  DeadKeys :: nat
  LiveBytes :: u64
  DeadBytes :: u64

definition add_live :: "bool \<Rightarrow> u32 \<Rightarrow> SegmentLiveness \<Rightarrow> SegmentLiveness" where
  "add_live isLive slen info =
     (let n = of_nat RecHeaderSize + ucast slen in
      if isLive then info\<lparr>LiveKeys := LiveKeys info + 1, LiveBytes := LiveBytes info + n\<rparr>
      else info\<lparr>DeadKeys := DeadKeys info + 1, DeadBytes := DeadBytes info + n\<rparr>)"

definition no_liveness :: "u64 \<Rightarrow> bool \<Rightarrow> SegmentLiveness" where
  "no_liveness sid isSealed = \<lparr>sl_ID = sid, sl_Sealed = isSealed, LiveKeys = 0, DeadKeys = 0, LiveBytes = 0, DeadBytes = 0\<rparr>"

definition seg_liveness :: "(key \<Rightarrow> bool) \<Rightarrow> sealedSegment \<Rightarrow> SegmentLiveness" where
  "seg_liveness live g =
     fold (\<lambda>e. add_live (live (ie_k e)) (ie_slen e)) (allEntries (sg_fv g)) (no_liveness (sg_id g) True)"

definition Liveness :: "(key \<Rightarrow> bool) \<Rightarrow> store \<Rightarrow> ps_err + SegmentLiveness list" where
  "Liveness live s =
     (if st_closed s then Inl StoreClosed
      else Inr (map (seg_liveness live) (st_sealed s) @
        (case st_active s of
           None \<Rightarrow> []
         | Some a \<Rightarrow> [fold (\<lambda>(k, loc). add_live (live k) (al_slen loc)) (as_index a) (no_liveness (as_id a) False)])))"

end
