(* ===== verification/Amber_Compact.thy ===== *)
theory Amber_Compact
  imports Amber_Sweep
begin

text \<open>
  Package \<open>packstore\<close>, compaction (compact.go). \<open>Compact\<close> runs a pipeline: a producer walks
  the victims' index rows, workers verify the records, the caller appends them. The model
  runs the three stages in the order a schedule gives, then completes them; what no schedule
  entry can name is nothing: a row is examined against the store as it is at that moment,
  verified records arrive in any order, and after a cancellation each stage may stop early.
  Two inputs of the source are parameters: the comparison of dead bytes with the ratio, which
  is on floats, and the modification times the horizon reads (\<open>os.Stat\<close>).
\<close>

section \<open>Options, statistics, victims\<close>

record CompactOpts =
  co_reaches :: "u64 \<Rightarrow> u64 \<Rightarrow> bool"
  co_Horizon :: "(string \<Rightarrow> string + bool) option"

record CompactStats =
  SegmentsScanned :: nat
  SegmentsCompacted :: nat
  Victims :: "u64 list"
  RecordsCopied :: nat
  BytesCopied :: u64
  BytesFreed :: u64

definition no_stats :: CompactStats where
  "no_stats = \<lparr>SegmentsScanned = 0, SegmentsCompacted = 0, Victims = [], RecordsCopied = 0, BytesCopied = 0, BytesFreed = 0\<rparr>"

definition is_victim :: "CompactOpts \<Rightarrow> (key \<Rightarrow> bool) \<Rightarrow> sealedSegment \<Rightarrow> bool" where
  "is_victim opts live g =
     (let info = seg_liveness live g; total = LiveBytes info + DeadBytes info
      in DeadKeys info > 0 \<and> co_reaches opts (DeadBytes info) total)"

text \<open>With a horizon, a segment whose time is not before it is passed over.\<close>

fun select_loop :: "CompactOpts \<Rightarrow> (key \<Rightarrow> bool) \<Rightarrow> sealedSegment list \<Rightarrow> sealedSegment list \<Rightarrow> CompactStats \<Rightarrow>
    (ps_err + sealedSegment list) \<times> CompactStats" where
  "select_loop opts live [] victims stats = (Inr victims, stats)"
| "select_loop opts live (g # gs) victims stats =
     (case (case co_Horizon opts of None \<Rightarrow> Inr True | Some stat \<Rightarrow> stat (sg_path g)) of
        Inl e \<Rightarrow> (Inl (IOErr e), stats)
      | Inr False \<Rightarrow> select_loop opts live gs victims stats
      | Inr True \<Rightarrow>
          if is_victim opts live g
          then select_loop opts live gs (victims @ [g]) (stats\<lparr>Victims := Victims stats @ [sg_id g]\<rparr>)
          else select_loop opts live gs victims stats)"

definition selectVictims :: "CompactOpts \<Rightarrow> (key \<Rightarrow> bool) \<Rightarrow> store \<Rightarrow> CompactStats \<Rightarrow>
    (ps_err + sealedSegment list) \<times> CompactStats" where
  "selectVictims opts live s stats =
     select_loop opts live (st_sealed s) [] (stats\<lparr>SegmentsScanned := length (st_sealed s)\<rparr>)"

section \<open>Checking a record\<close>

definition checkRecord :: "(bytes \<Rightarrow> bytes) \<Rightarrow> zstd \<Rightarrow> key \<Rightarrow> bytes \<Rightarrow> ps_err option" where
  "checkRecord H Z k rec =
     (case ParseRecord rec of
        Inl e \<Rightarrow> Some (PackErr e)
      | Inr parsed \<Rightarrow>
          if Rec_Key parsed \<noteq> k then Some (PackErr (ErrCorrupt ''record key''))
          else case DecodePayload Z (Rec_Flags parsed) (Rec_Ulen parsed) (drop RecHeaderSize rec) of
            Inl e \<Rightarrow> Some (PackErr e)
          | Inr payload \<Rightarrow> verifyObject H k payload)"

record copyRec =
  cr_g :: sealedSegment
  cr_e :: indexEntry
  cr_rec :: bytes

definition verifyRecord :: "(bytes \<Rightarrow> bytes) \<Rightarrow> zstd \<Rightarrow> copyRec \<Rightarrow> ps_err option" where
  "verifyRecord H Z c =
     (case checkRecord H Z (ie_k (cr_e c)) (cr_rec c) of
        None \<Rightarrow> None
      | Some e \<Rightarrow> Some (PackErr (ErrCorrupt ''record'')))"

section \<open>The copying pipeline\<close>

text \<open>\<open>pp_rows\<close> are the rows the producer has not examined, \<open>pp_cands\<close> and \<open>pp_verified\<close> the
  two channels with what their receivers hold, \<open>pp_workers\<close> the workers still running.\<close>

record pipe =
  pp_rows :: "(sealedSegment \<times> indexEntry) list"
  pp_cands :: "copyRec list"
  pp_verified :: "copyRec list"
  pp_workers :: nat
  pp_err :: "ps_err option"
  pp_cancelled :: bool
  pp_appendErr :: "ps_err option"
  pp_store :: store
  pp_stats :: CompactStats

definition is_victimID :: "sealedSegment list \<Rightarrow> u64 \<Rightarrow> bool" where
  "is_victimID victims sid = list_ex (\<lambda>g. sg_id g = sid) victims"

definition survivorHas :: "xorfilter \<Rightarrow> sealedSegment list \<Rightarrow> store \<Rightarrow> key \<Rightarrow> bool" where
  "survivorHas X victims s k =
     (active_loc s k \<noteq> None \<or> list_ex (\<lambda>g. \<not> is_victimID victims (sg_id g) \<and> seg_has X g k) (st_sealed s))"

definition first_err :: "ps_err option \<Rightarrow> ps_err \<Rightarrow> ps_err option" where
  "first_err old e = (case old of None \<Rightarrow> Some e | Some _ \<Rightarrow> old)"

text \<open>The producer's next row; \<open>quit\<close> resolves its select once the pipeline is cancelled.\<close>

definition pipe_examine :: "xorfilter \<Rightarrow> sealedSegment list \<Rightarrow> (key \<Rightarrow> bool) \<Rightarrow> bool \<Rightarrow> pipe \<Rightarrow> pipe" where
  "pipe_examine X victims live quit p =
     (case pp_rows p of
        [] \<Rightarrow> p
      | (g, e) # rows \<Rightarrow>
          if \<not> live (ie_k e) \<or> survivorHas X victims (pp_store p) (ie_k e) then p\<lparr>pp_rows := rows\<rparr>
          else if \<not> seg_bounds_ok g (ie_off e) (ie_slen e)
          then p\<lparr>pp_rows := [], pp_cancelled := True,
                 pp_err := first_err (pp_err p) (PackErr (ErrCorrupt ''index entry out of bounds''))\<rparr>
          else if quit \<and> pp_cancelled p then p\<lparr>pp_rows := []\<rparr>
          else p\<lparr>pp_rows := rows, pp_cands := pp_cands p @ [\<lparr>cr_g = g, cr_e = e,
                 cr_rec = slice (unat (ie_off e)) (unat (ie_off e) + RecHeaderSize + unat (ie_slen e)) (sg_mm g)\<rparr>]\<rparr>)"

definition drop_nth :: "nat \<Rightarrow> 'a list \<Rightarrow> 'a list" where
  "drop_nth i xs = take i xs @ drop (Suc i) xs"

text \<open>A worker takes the \<open>i\<close>-th candidate; a failure ends that worker and cancels.\<close>

definition pipe_check :: "(bytes \<Rightarrow> bytes) \<Rightarrow> zstd \<Rightarrow> nat \<Rightarrow> bool \<Rightarrow> pipe \<Rightarrow> pipe" where
  "pipe_check H Z i quit p =
     (if pp_workers p = 0 \<or> length (pp_cands p) \<le> i then p
      else let c = pp_cands p ! i; p' = p\<lparr>pp_cands := drop_nth i (pp_cands p)\<rparr> in
        case verifyRecord H Z c of
          Some e \<Rightarrow> p'\<lparr>pp_workers := pp_workers p - 1, pp_cancelled := True, pp_err := first_err (pp_err p) e\<rparr>
        | None \<Rightarrow> if quit \<and> pp_cancelled p then p' else p'\<lparr>pp_verified := pp_verified p @ [c]\<rparr>)"

text \<open>The calling goroutine: append the next verified record, or drain after an error.\<close>

definition pipe_append :: "xorfilter \<Rightarrow> pipe \<Rightarrow> pipe" where
  "pipe_append X p =
     (case pp_verified p of
        [] \<Rightarrow> p
      | c # cs \<Rightarrow>
          let p' = p\<lparr>pp_verified := cs\<rparr> in
          if pp_appendErr p \<noteq> None then p'
          else case appendLocked X (ie_k (cr_e c)) (cr_rec c) False (pp_store p) of
            (Some e, s) \<Rightarrow> p'\<lparr>pp_store := s, pp_appendErr := Some e, pp_cancelled := True\<rparr>
          | (None, s) \<Rightarrow> p'\<lparr>pp_store := s, pp_stats := (pp_stats p)\<lparr>RecordsCopied := RecordsCopied (pp_stats p) + 1,
                          BytesCopied := BytesCopied (pp_stats p) + of_nat (length (cr_rec c))\<rparr>\<rparr>)"

datatype choice = Examine bool | Check nat bool | Append

fun pipe_step :: "xorfilter \<Rightarrow> (bytes \<Rightarrow> bytes) \<Rightarrow> zstd \<Rightarrow> sealedSegment list \<Rightarrow> (key \<Rightarrow> bool) \<Rightarrow> choice \<Rightarrow> pipe \<Rightarrow> pipe" where
  "pipe_step X H Z victims live (Examine quit) = pipe_examine X victims live quit"
| "pipe_step X H Z victims live (Check i quit) = pipe_check H Z i quit"
| "pipe_step X H Z victims live Append = pipe_append X"

text \<open>What is left when the schedule ends is completed stage by stage.\<close>

definition pipe_finish :: "xorfilter \<Rightarrow> (bytes \<Rightarrow> bytes) \<Rightarrow> zstd \<Rightarrow> sealedSegment list \<Rightarrow> (key \<Rightarrow> bool) \<Rightarrow> pipe \<Rightarrow> pipe" where
  "pipe_finish X H Z victims live p =
     (let p = (pipe_examine X victims live False ^^ length (pp_rows p)) p;
          p = (pipe_check H Z 0 False ^^ length (pp_cands p)) p
      in (pipe_append X ^^ length (pp_verified p)) p)"

definition victim_rows :: "sealedSegment list \<Rightarrow> (sealedSegment \<times> indexEntry) list" where
  "victim_rows victims = concat (map (\<lambda>g. map (Pair g) (allEntries (sg_fv g))) victims)"

definition copyLive :: "xorfilter \<Rightarrow> (bytes \<Rightarrow> bytes) \<Rightarrow> zstd \<Rightarrow> nat \<Rightarrow> choice list \<Rightarrow> sealedSegment list \<Rightarrow> (key \<Rightarrow> bool) \<Rightarrow>
    store \<Rightarrow> CompactStats \<Rightarrow> ps_err option \<times> store \<times> CompactStats" where
  "copyLive X H Z procs sched victims live s stats =
     (let p = \<lparr>pp_rows = victim_rows victims, pp_cands = [], pp_verified = [], pp_workers = procs, pp_err = None,
               pp_cancelled = False, pp_appendErr = None, pp_store = s, pp_stats = stats\<rparr>;
          p = pipe_finish X H Z victims live (fold (pipe_step X H Z victims live) sched p)
      in (case pp_appendErr p of Some e \<Rightarrow> Some e | None \<Rightarrow> pp_err p, pp_store p, pp_stats p))"

section \<open>Removing the victims\<close>

definition removeVictims :: "sealedSegment list \<Rightarrow> store \<Rightarrow> CompactStats \<Rightarrow> ps_err option \<times> store \<times> CompactStats" where
  "removeVictims victims s stats =
     (let x = fold (\<lambda>g x. run_io (os_Remove (sg_path g)) (run_io f_Close x)) victims (None, st_disk s);
          x = (if st_sync s then run_io dir_Sync x else x)
      in (fst x,
          s\<lparr>st_disk := snd x, st_sealed := filter (\<lambda>g. \<not> is_victimID victims (sg_id g)) (st_sealed s)\<rparr>,
          stats\<lparr>BytesFreed := BytesFreed stats + (\<Sum>g \<leftarrow> victims. of_nat (length (sg_mm g))), SegmentsCompacted := length victims\<rparr>))"

section \<open>Compact\<close>

definition or_grey :: "key list option \<Rightarrow> (key \<Rightarrow> bool) \<Rightarrow> key \<Rightarrow> bool" where
  "or_grey grey live k = ((case grey of None \<Rightarrow> False | Some g \<Rightarrow> k \<in> set g) \<or> live k)"

definition copied_then_removed :: "sealedSegment list \<Rightarrow> ps_err option \<times> store \<times> CompactStats \<Rightarrow> ps_err option \<times> store \<times> CompactStats" where
  "copied_then_removed victims r =
     (case r of
        (Some e, s, stats) \<Rightarrow> (Some e, s, stats)
      | (None, s, stats) \<Rightarrow>
          (case st_active s of
             Some a \<Rightarrow>
               if st_sync s
               then (case f_Sync (as_f a) (st_disk s) of
                       (Some e, d) \<Rightarrow> (Some (IOErr e), setFailed (IOErr e) (s\<lparr>st_disk := d\<rparr>), stats)
                     | (None, d) \<Rightarrow> removeVictims victims (s\<lparr>st_disk := d\<rparr>) stats)
               else removeVictims victims s stats
           | None \<Rightarrow> removeVictims victims s stats))"

definition compact_sealed :: "xorfilter \<Rightarrow> (bytes \<Rightarrow> bytes) \<Rightarrow> zstd \<Rightarrow> nat \<Rightarrow> choice list \<Rightarrow> CompactOpts \<Rightarrow> (key \<Rightarrow> bool) \<Rightarrow>
    store \<Rightarrow> ps_err option \<times> store \<times> CompactStats" where
  "compact_sealed X H Z procs sched opts live s =
     (case selectVictims opts live s no_stats of
        (Inl e, stats) \<Rightarrow> (Some e, s, stats)
      | (Inr victims, stats) \<Rightarrow>
          if victims = [] then (None, s, stats)
          else copied_then_removed victims (copyLive X H Z procs sched victims live s stats))"

definition Compact :: "xorfilter \<Rightarrow> (bytes \<Rightarrow> bytes) \<Rightarrow> zstd \<Rightarrow> nat \<Rightarrow> choice list \<Rightarrow> CompactOpts \<Rightarrow> (key \<Rightarrow> bool) \<Rightarrow>
    store \<Rightarrow> ps_err option \<times> store \<times> CompactStats" where
  "Compact X H Z procs sched opts marked s =
     (case takeGrey s of
        (grey, s) \<Rightarrow>
          if st_closed s then (Some StoreClosed, s, no_stats)
          else case st_failed s of
            Some e \<Rightarrow> (Some e, s, no_stats)
          | None \<Rightarrow>
              (case sealActiveLocked X s of
                 (Some e, s) \<Rightarrow> (Some e, setFailed e s, no_stats)
               | (None, s) \<Rightarrow> compact_sealed X H Z procs sched opts (or_grey grey marked) s))"

end
