(* ===== verification/Amber_CompactLog.thy ===== *)
theory Amber_CompactLog
  imports Amber_Compact
begin

text \<open>
  Compaction against the log. The pipeline keeps an invariant under every schedule and every
  fault plan: the state stores records of the old log only, and while no stage has failed each
  live key of a victim is stored outside the victims or still travels through the pipeline.
\<close>

section \<open>Index rows of a sealed log\<close>

lemma allEntries_sealed:
  assumes "sealed_as X body es g"
  shows "allEntries (sg_fv g) = sort_entries es"
proof -
  let ?ss = "sort_entries es"
  obtain f where fv: "sg_fv g = fv_of (length body) es f" using assms by (auto simp: sealed_as_def)
  have keys: "\<forall>e \<in> set ?ss. is_key (ie_k e)" and n: "length es < 2 ^ 32" using assms by (simp_all add: sealed_as_def)
  have cnt: "unat (fv_keyCount (sg_fv g)) = length ?ss" using n by (simp add: fv fv_of_def unat_of_nat)
  have ent: "fv_entries (sg_fv g) = index_rows ?ss" by (simp add: fv fv_of_def)
  have row: "index_row (index_rows ?ss) i = ?ss ! i" if i: "i < length ?ss" for i
  proof -
    have k: "is_key (ie_k (?ss ! i))" using keys nth_mem [OF i] by blast
    have len: "length (entry_row (?ss ! i)) = 44" by (rule entry_row_length [OF k])
    have "slice (i * indexEntrySize) ((i + 1) * indexEntrySize) (index_rows ?ss) = take 44 (drop (i * 44) (index_rows ?ss))"
      by (simp add: slice_def indexEntrySize_def)
    also have "\<dots> = entry_row (?ss ! i)" using index_row_at [OF keys i] len by simp
    finally have "slice (i * indexEntrySize) ((i + 1) * indexEntrySize) (index_rows ?ss) = entry_row (?ss ! i) @ []" by simp
    then show ?thesis using row_fields [OF k, of "[]"] by (simp add: index_row_def Let_def)
  qed
  show ?thesis
    unfolding allEntries_def cnt ent by (rule nth_equalityI) (simp_all add: row)
qed

lemma sealed_is_rows:
  assumes g: "sealed_is X g L"
  shows "ie_k ` set (allEntries (sg_fv g)) = rec_key ` set L"
    and "e \<in> set (allEntries (sg_fv g)) \<Longrightarrow> seg_bounds_ok g (ie_off e) (ie_slen e) \<and>
      slice (unat (ie_off e)) (unat (ie_off e) + RecHeaderSize + unat (ie_slen e)) (sg_mm g) \<in> set L \<and>
      rec_key (slice (unat (ie_off e)) (unat (ie_off e) + RecHeaderSize + unat (ie_slen e)) (sg_mm g)) = ie_k e"
proof -
  obtain es where es: "sealed_as X (body_of L) es g"
    "entry_map es = (\<lambda>k. map_option (\<lambda>loc. (of_nat (al_off loc), al_slen loc)) (index_map L k))"
    using g by (auto simp: sealed_is_def)
  have all: "set (allEntries (sg_fv g)) = set es" by (simp add: allEntries_sealed [OF es(1)])
  have "k \<in> ie_k ` set es \<longleftrightarrow> k \<in> rec_key ` set L" for k
    using entry_map_None [of es k] fun_cong [OF es(2), of k] index_log_None [of L k] dom_log_map [of L] by (auto simp: domIff)
  then show "ie_k ` set (allEntries (sg_fv g)) = rec_key ` set L" by (auto simp: all)
  assume "e \<in> set (allEntries (sg_fv g))"
  then have e: "e \<in> set es" by (simp add: all)
  have em: "entry_map es (ie_k e) = Some (ie_off e, ie_slen e)"
    using e es(1) map_of_is_SomeI [of "map (\<lambda>e. (ie_k e, (ie_off e, ie_slen e))) es"]
    by (force simp: entry_map_def sealed_as_def comp_def)
  note b = sealed_row_bounds [OF es(1) em]
  have k: "is_key (ie_k e)" using e es(1) by (simp add: sealed_as_def)
  have bo: "seg_bounds_ok g (ie_off e) (ie_slen e)" by (rule bounds_ok [OF sealed_lookup(2) [OF es(1) k] b])
  have rec: "seg_getRecord X g (ie_k e) = Inr (Some (row_record (body_of L) (ie_off e, ie_slen e)))"
    using sealed_getRecord [OF es(1) k] em by simp
  obtain r where r: "log_map L (ie_k e) = Some r" "row_record (body_of L) (ie_off e, ie_slen e) = r"
    using sealed_is_reads(3) [OF g k] rec by (cases "log_map L (ie_k e)") auto
  obtain footer where mm: "sg_mm g = body_of L @ footer" using es(1) by (auto simp: sealed_as_def)
  have "slice (unat (ie_off e)) (unat (ie_off e) + RecHeaderSize + unat (ie_slen e)) (sg_mm g) = r"
    using r(2) b by (simp add: mm row_record_def RecHeaderSize_def)
  then show "seg_bounds_ok g (ie_off e) (ie_slen e) \<and>
      slice (unat (ie_off e)) (unat (ie_off e) + RecHeaderSize + unat (ie_slen e)) (sg_mm g) \<in> set L \<and>
      rec_key (slice (unat (ie_off e)) (unat (ie_off e) + RecHeaderSize + unat (ie_slen e)) (sg_mm g)) = ie_k e"
    using bo log_map_Some [OF r(1)] by simp
qed

section \<open>File names\<close>

text \<open>Sealed names end in \<open>.seg\<close>, the active one in \<open>.seg.active\<close>; so removing a sealed segment
  never touches the active file.\<close>

definition names_ok :: "store \<Rightarrow> bool" where
  "names_ok s \<longleftrightarrow> (\<forall>g \<in> set (st_sealed s). suffix sealedSuffix (sg_path g)) \<and>
     (\<forall>a. st_active s = Some a \<longrightarrow> suffix activeSuffix (as_path a))"

lemma names_differ: "suffix sealedSuffix n \<Longrightarrow> suffix activeSuffix m \<Longrightarrow> n \<noteq> m"
  by (auto simp: sealedSuffix_def activeSuffix_def suffix_def)

lemma names_ok_cong:
  "st_sealed s' = st_sealed s \<Longrightarrow> map_option as_path (st_active s') = map_option as_path (st_active s) \<Longrightarrow> names_ok s' = names_ok s"
  by (cases "st_active s"; cases "st_active s'") (simp_all add: names_ok_def)

lemma TrimSuffix_active: "suffix activeSuffix n \<Longrightarrow> suffix sealedSuffix (TrimSuffix n ''.active'')"
  by (auto simp: activeSuffix_def sealedSuffix_def suffix_def TrimSuffix_def)

lemma seal_names:
  assumes n: "names_ok s" and q: "sealActiveLocked X s = (e, s')"
  shows "names_ok s'"
proof (cases "st_active s")
  case None
  then show ?thesis using assms by (simp add: sealActiveLocked_def)
next
  case (Some a)
  have same: "names_ok (s\<lparr>st_disk := d\<rparr>)" for d using n by (simp add: names_ok_def)
  have path: "suffix sealedSuffix (TrimSuffix (as_path a) ''.active'')" using n Some by (simp add: names_ok_def TrimSuffix_active)
  have pub: "names_ok s'" if p: "publish_sealed (TrimSuffix (as_path a) ''.active'') a (s\<lparr>st_disk := d\<rparr>) = (e, s')" for d
  proof -
    have new: "names_ok (s\<lparr>st_sealed := st_sealed s @ [g], st_active := None, st_disk := d'\<rparr>)"
      if "openSealed (TrimSuffix (as_path a) ''.active'') i mm = Inr g" for d' g i mm
      using n path that by (auto simp: names_ok_def openSealed_def split: if_splits sum.splits)
    show ?thesis using p same new
      by (auto simp: publish_sealed_def try_io_def split: prod.splits sum.splits option.splits)
  qed
  show ?thesis using q n Some same pub
    by (auto simp: sealActiveLocked_def Let_def try_io_def split: if_splits prod.splits sum.splits option.splits)
qed

lemma append_names:
  assumes n: "names_ok s" and q: "appendLocked X k rec b s = (e, s')"
  shows "names_ok s'"
proof -
  have rot: "names_ok s2" if "rotate_full X a s1 = (e, s2)" "names_ok s1" for a s1 s2
  proof -
    obtain e1 s3 where s3: "sealActiveLocked X s1 = (e1, s3)" by fastforce
    show ?thesis using that s3 seal_names [OF that(2) s3] names_ok_cong [of "setFailed _ s3" s3]
      by (auto simp: rotate_full_def split: if_splits option.splits)
  qed
  have act: "names_ok s2" if p: "append_active X k rec b a s1 = (e, s2)" and "names_ok s1" "st_active s1 = Some a" for a s1 s2
  proof -
    have disk: "names_ok (s1\<lparr>st_disk := d\<rparr>)" for d using that(2) by (simp add: names_ok_def)
    have upd: "names_ok (s1\<lparr>st_disk := d, st_active := Some (a\<lparr>as_index := i, as_size := z\<rparr>)\<rparr>)"
      "names_ok (s1\<lparr>st_active := Some (a\<lparr>as_index := i, as_size := z\<rparr>), st_disk := d\<rparr>)"
      "names_ok (setFailed x (s1\<lparr>st_active := Some (a\<lparr>as_index := i, as_size := z\<rparr>), st_disk := d\<rparr>))" for d i z x
      using that(2,3) by (simp_all add: names_ok_def)
    show ?thesis using p that(2) disk upd rot
      by (auto simp: append_active_def append_publish_def Let_def try_io_def split: if_splits prod.splits option.splits)
  qed
  have cr: "names_ok s1" if "createActive s = (e1, s1)" for e1 s1
    using that n
    by (auto simp: createActive_def Let_def names_ok_def suffix_def split: prod.splits sum.splits option.splits)
  show ?thesis
  proof (cases "st_active s")
    case None
    obtain e1 s1 where c: "createActive s = (e1, s1)" by fastforce
    show ?thesis using q n None c cr [OF c] act
      by (auto simp: appendLocked_def split: if_splits option.splits)
  next
    case (Some a)
    then show ?thesis using q n act by (auto simp: appendLocked_def split: if_splits option.splits)
  qed
qed

section \<open>The survivors' log\<close>

definition surv :: "sealedSegment list \<Rightarrow> sealedSegment list \<Rightarrow> bytes list list \<Rightarrow> bytes list \<Rightarrow> bytes list" where
  "surv V gs RS RA = concat (map snd (filter (\<lambda>gL. \<not> is_victimID V (sg_id (fst gL))) (zip gs RS))) @ RA"

lemma surv_subset: "set (surv V gs RS RA) \<subseteq> set (concat RS @ RA)"
  by (auto simp: surv_def dest: set_zip_rightD)

lemma list_all2_zip: "list_all2 P xs ys \<Longrightarrow> (x, y) \<in> set (zip xs ys) \<Longrightarrow> P x y"
  by (auto simp: list_all2_iff)

lemma survivorHas_surv:
  assumes c: "cut_into b X s RS RA" and k: "is_key k"
  shows "survivorHas X V s k \<longleftrightarrow> k \<in> rec_key ` set (surv V (st_sealed s) RS RA)"
proof -
  have S: "list_all2 (sealed_is X) (st_sealed s) RS" using c by (simp add: cut_into_def)
  have len: "length (st_sealed s) = length RS" by (rule list_all2_lengthD [OF S])
  have act: "active_loc s k \<noteq> None \<longleftrightarrow> k \<in> rec_key ` set RA"
  proof (cases "st_active s")
    case None
    then show ?thesis using c by (simp add: active_loc_def cut_into_def)
  next
    case (Some a)
    from active_read [OF cut_take [OF c Some], of k undefined] dom_log_map [of RA] show ?thesis
      by (auto simp: active_loc_def Some domIff split: option.splits)
  qed
  have "list_ex (\<lambda>g. \<not> is_victimID V (sg_id g) \<and> seg_has X g k) gs =
     (k \<in> rec_key ` set (concat (map snd (filter (\<lambda>gL. \<not> is_victimID V (sg_id (fst gL))) (zip gs Ls)))))"
    if "list_all2 (sealed_is X) gs Ls" for gs Ls
    using that by (induction rule: list_all2_induct) (auto simp: sealed_is_reads(1) [OF _ k] dom_log_map)
  from this [OF S] show ?thesis using act by (auto simp: survivorHas_def surv_def)
qed

text \<open>Dropping the victims leaves a state that stores the survivors' log.\<close>

lemma cut_survivors:
  assumes c: "cut_into b X s RS RA"
  shows "cut_into b X (s\<lparr>st_sealed := filter (\<lambda>g. \<not> is_victimID V (sg_id g)) (st_sealed s)\<rparr>)
     (map snd (filter (\<lambda>gL. \<not> is_victimID V (sg_id (fst gL))) (zip (st_sealed s) RS))) RA"
proof -
  have "list_all2 (sealed_is X) (filter (\<lambda>g. \<not> is_victimID V (sg_id g)) gs)
     (map snd (filter (\<lambda>gL. \<not> is_victimID V (sg_id (fst gL))) (zip gs Ls)))"
    if "list_all2 (sealed_is X) gs Ls" for gs Ls
    using that by (induction rule: list_all2_induct) simp_all
  then show ?thesis using c by (simp add: cut_into_def split: option.splits)
qed

section \<open>Appending keeps the survivors\<close>

text \<open>The store while victims are copied: all records are of the log \<open>L0\<close>, the victims are
  still there, and \<open>n\<close> more segments can be numbered.\<close>

definition copying :: "xorfilter \<Rightarrow> sealedSegment list \<Rightarrow> bytes list \<Rightarrow> nat \<Rightarrow> store \<Rightarrow> bool" where
  "copying X V L0 n s \<longleftrightarrow>
     (\<exists>RS RA. cut_into (st_failed s = None) X s RS RA \<and> set (concat RS @ RA) \<subseteq> set L0) \<and>
     ids_ok s \<and> names_ok s \<and> unat (st_nextID s) + n < 2 ^ 64 \<and> set V \<subseteq> set (st_sealed s)"

lemma copying_le: "copying X V L0 n s \<Longrightarrow> m \<le> n \<Longrightarrow> copying X V L0 m s"
  by (auto simp: copying_def)

lemma new_not_victim:
  assumes "ids_ok s'" and "st_sealed s' = st_sealed s @ gs" and "set V \<subseteq> set (st_sealed s)" and "g \<in> set gs"
  shows "\<not> is_victimID V (sg_id g)"
  using assms by (force simp: ids_ok_def is_victimID_def list_ex_iff)

lemma surv_append:
  assumes eff: "append_effect X s RS RA rec e s'" and c: "cut_into b X s RS RA"
    and ids: "ids_ok s'" and V: "set V \<subseteq> set (st_sealed s)"
  obtains RS' RA' new where "cut_into (st_failed s' = None) X s' RS' RA'"
    "set (concat RS' @ RA') \<subseteq> set (concat RS @ RA) \<union> {rec}"
    "surv V (st_sealed s') RS' RA' = surv V (st_sealed s) RS RA @ new" "new = [] \<or> new = [rec]"
    "e = None \<longrightarrow> rec_key rec \<in> rec_key ` set (surv V (st_sealed s') RS' RA')"
    "set V \<subseteq> set (st_sealed s')"
proof -
  obtain gs RS2 RA' new where n: "st_sealed s' = st_sealed s @ gs" "cut_into (st_failed s' = None) X s' (RS @ RS2) RA'"
    "concat RS2 @ RA' = RA @ new" "new = [] \<or> new = [rec]" "e = None \<longrightarrow> rec_key rec \<in> dom (log_map (RA @ new))"
    using eff unfolding append_effect_def by blast
  have l1: "length (st_sealed s) = length RS" using c list_all2_lengthD by (auto simp: cut_into_def)
  have l2: "length (st_sealed s @ gs) = length (RS @ RS2)" using n(1,2) list_all2_lengthD by (fastforce simp: cut_into_def)
  have nv: "\<not> is_victimID V (sg_id g)" if "g \<in> set gs" for g by (rule new_not_victim [OF ids n(1) V that])
  have "filter (\<lambda>gL. \<not> is_victimID V (sg_id (fst gL))) (zip gs RS2) = zip gs RS2"
    using nv by (auto simp: filter_id_conv dest: set_zip_leftD)
  then have sv: "surv V (st_sealed s') (RS @ RS2) RA' = surv V (st_sealed s) RS RA @ new"
    using l1 l2 n(3) by (simp add: surv_def n(1))
  have sub: "set (concat (RS @ RS2) @ RA') \<subseteq> set (concat RS @ RA) \<union> {rec}"
    using arg_cong [OF n(3), of set] n(4) by auto
  have tl: "set (RA @ new) \<subseteq> set (surv V (st_sealed s) RS RA @ new)" by (auto simp: surv_def)
  have pres: "e = None \<longrightarrow> rec_key rec \<in> rec_key ` set (surv V (st_sealed s') (RS @ RS2) RA')"
    using n(5) tl unfolding sv dom_log_map by blast
  show thesis by (rule that [OF n(2) sub sv n(4) pres]) (use n(1) V in auto)
qed

lemma copying_append:
  assumes X: "fuse_ok X" and c: "copying X V L0 (Suc n) s" and r: "whole rec" "rec \<in> set L0"
    and q: "appendLocked X (rec_key rec) rec b s = (e, s')"
  shows "copying X V L0 n s' \<and> same_frame s s' \<and> (e = None \<longrightarrow> survivorHas X V s' (rec_key rec)) \<and>
     (\<forall>k. is_key k \<longrightarrow> (survivorHas X V s k \<longrightarrow> survivorHas X V s' k) \<and>
        (survivorHas X V s' k \<longrightarrow> survivorHas X V s k \<or> k = rec_key rec))"
proof -
  obtain RS RA where cut: "cut_into (st_failed s = None) X s RS RA" "set (concat RS @ RA) \<subseteq> set L0"
    and ids: "ids_ok s" "names_ok s" "unat (st_nextID s) + Suc n < 2 ^ 64" "set V \<subseteq> set (st_sealed s)"
    using c unfolding copying_def by blast
  from appendLocked_effect [OF X cut(1) r(1) q] ids(1,3)
  have eff: "append_effect X s RS RA rec e s'" and i: "ids_ok s'" "unat (st_nextID s') \<le> unat (st_nextID s) + 1" by auto
  obtain RS' RA' new where o: "cut_into (st_failed s' = None) X s' RS' RA'"
    "set (concat RS' @ RA') \<subseteq> set (concat RS @ RA) \<union> {rec}"
    "surv V (st_sealed s') RS' RA' = surv V (st_sealed s) RS RA @ new" "new = [] \<or> new = [rec]"
    "e = None \<longrightarrow> rec_key rec \<in> rec_key ` set (surv V (st_sealed s') RS' RA')"
    "set V \<subseteq> set (st_sealed s')"
    by (rule surv_append [OF eff cut(1) i(1) ids(4)])
  have "copying X V L0 n s'"
    unfolding copying_def
  proof (intro conjI exI)
    show "cut_into (st_failed s' = None) X s' RS' RA'" by (rule o(1))
    show "set (concat RS' @ RA') \<subseteq> set L0" using o(2) cut(2) r(2) by blast
  qed (use i ids(3) o(6) append_names [OF ids(2) q] in simp_all)
  moreover have "same_frame s s'" using eff by (simp add: append_effect_def)
  moreover have k: "is_key (rec_key rec)" using whole_key [OF r(1)] by blast
  moreover have "survivorHas X V s' (rec_key rec)" if "e = None"
    using o(5) that survivorHas_surv [OF o(1) k] by blast
  moreover have "(survivorHas X V s k \<longrightarrow> survivorHas X V s' k) \<and>
        (survivorHas X V s' k \<longrightarrow> survivorHas X V s k \<or> k = rec_key rec)" if "is_key k" for k
    using o(4) by (auto simp: survivorHas_surv [OF o(1) that] survivorHas_surv [OF cut(1) that] o(3))
  ultimately show ?thesis by blast
qed

section \<open>The pipeline\<close>

definition row_ok :: "bytes list \<Rightarrow> sealedSegment \<times> indexEntry \<Rightarrow> bool" where
  "row_ok L0 row \<longleftrightarrow>
     (case row of (g, e) \<Rightarrow> seg_bounds_ok g (ie_off e) (ie_slen e) \<and>
        (\<exists>r \<in> set L0. whole r \<and> rec_key r = ie_k e \<and>
           slice (unat (ie_off e)) (unat (ie_off e) + RecHeaderSize + unat (ie_slen e)) (sg_mm g) = r))"

definition cand_ok :: "(key \<Rightarrow> bool) \<Rightarrow> bytes list \<Rightarrow> copyRec \<Rightarrow> bool" where
  "cand_ok live L0 c \<longleftrightarrow> whole (cr_rec c) \<and> cr_rec c \<in> set L0 \<and> rec_key (cr_rec c) = ie_k (cr_e c) \<and> live (ie_k (cr_e c))"

definition travelling :: "pipe \<Rightarrow> key set" where
  "travelling p = (\<lambda>row. ie_k (snd row)) ` set (pp_rows p) \<union> (\<lambda>c. ie_k (cr_e c)) ` (set (pp_cands p) \<union> set (pp_verified p))"

definition pipe_left :: "pipe \<Rightarrow> nat" where
  "pipe_left p = length (pp_rows p) + length (pp_cands p) + length (pp_verified p)"

definition calm_pipe :: "pipe \<Rightarrow> bool" where
  "calm_pipe p \<longleftrightarrow> pp_err p = None \<and> pp_appendErr p = None"

definition pipe_inv :: "xorfilter \<Rightarrow> sealedSegment list \<Rightarrow> (key \<Rightarrow> bool) \<Rightarrow> bytes list \<Rightarrow> key set \<Rightarrow> nat \<Rightarrow> store \<Rightarrow> pipe \<Rightarrow> bool" where
  "pipe_inv X V live L0 K procs s0 p \<longleftrightarrow>
     copying X V L0 (pipe_left p) (pp_store p) \<and> same_frame s0 (pp_store p) \<and>
     (\<forall>row \<in> set (pp_rows p). row_ok L0 row) \<and>
     (\<forall>c \<in> set (pp_cands p) \<union> set (pp_verified p). cand_ok live L0 c) \<and>
     (calm_pipe p \<longrightarrow> pp_workers p = procs \<and> \<not> pp_cancelled p \<and>
        (\<forall>k \<in> K. live k \<longrightarrow> survivorHas X V (pp_store p) k \<or> k \<in> travelling p)) \<and>
     (\<forall>k. is_key k \<longrightarrow> (survivorHas X V (pp_store p) k \<longrightarrow> survivorHas X V s0 k \<or> live k) \<and>
        (survivorHas X V s0 k \<longrightarrow> survivorHas X V (pp_store p) k))"

lemma first_err_some [simp]: "first_err old e \<noteq> None"
  by (cases old) (simp_all add: first_err_def)

lemma examine_inv:
  assumes i: "pipe_inv X V live L0 K procs s0 p"
  shows "pipe_inv X V live L0 K procs s0 (pipe_examine X V live quit p)"
proof (cases "pp_rows p")
  case Nil
  then show ?thesis using i by (simp add: pipe_examine_def)
next
  case (Cons row rows)
  obtain g e where row: "row = (g, e)" by (cases row)
  let ?c = "\<lparr>cr_g = g, cr_e = e, cr_rec = slice (unat (ie_off e)) (unat (ie_off e) + RecHeaderSize + unat (ie_slen e)) (sg_mm g)\<rparr>"
  have ok: "row_ok L0 (g, e)" using i by (simp add: pipe_inv_def Cons row)
  then have b: "seg_bounds_ok g (ie_off e) (ie_slen e)" by (simp add: row_ok_def)
  have c: "live (ie_k e) \<Longrightarrow> cand_ok live L0 ?c" using ok by (auto simp: row_ok_def cand_ok_def)
  have le: "copying X V L0 n (pp_store p)" if "n \<le> pipe_left p" for n
    using i copying_le that by (auto simp: pipe_inv_def)
  have le1: "copying X V L0 (length rows + length (pp_cands p) + length (pp_verified p)) (pp_store p)"
    "copying X V L0 (length (pp_cands p) + length (pp_verified p)) (pp_store p)"
    "copying X V L0 (Suc (length rows + length (pp_cands p) + length (pp_verified p))) (pp_store p)"
    by (rule le; simp add: pipe_left_def Cons)+
  consider (skip) "\<not> live (ie_k e) \<or> survivorHas X V (pp_store p) (ie_k e)"
    | (stop) "live (ie_k e)" "quit \<and> pp_cancelled p" "\<not> survivorHas X V (pp_store p) (ie_k e)"
    | (send) "live (ie_k e)" "\<not> (quit \<and> pp_cancelled p)" "\<not> survivorHas X V (pp_store p) (ie_k e)"
    by blast
  then show ?thesis
  proof cases
    case skip
    then have "pipe_examine X V live quit p = p\<lparr>pp_rows := rows\<rparr>" by (simp add: pipe_examine_def Cons row)
    then show ?thesis using i skip le1
      by (auto simp: pipe_inv_def Cons row travelling_def pipe_left_def calm_pipe_def)
  next
    case stop
    then have "pipe_examine X V live quit p = p\<lparr>pp_rows := []\<rparr>" using b by (simp add: pipe_examine_def Cons row)
    then show ?thesis using i stop le1
      by (auto simp: pipe_inv_def Cons row pipe_left_def calm_pipe_def)
  next
    case send
    then have "pipe_examine X V live quit p = p\<lparr>pp_rows := rows, pp_cands := pp_cands p @ [?c]\<rparr>"
      using b by (auto simp: pipe_examine_def Cons row)
    then show ?thesis using i send le1 c
      by (simp add: pipe_inv_def Cons row travelling_def pipe_left_def calm_pipe_def add.commute)
  qed
qed

lemma drop_nth_set:
  assumes "i < length xs"
  shows "length (drop_nth i xs) = length xs - 1" "set xs = insert (xs ! i) (set (drop_nth i xs))"
proof -
  show "length (drop_nth i xs) = length xs - 1" using assms by (simp add: drop_nth_def)
  have "set xs = set (take i xs @ xs ! i # drop (Suc i) xs)" using id_take_nth_drop [OF assms] by simp
  then show "set xs = insert (xs ! i) (set (drop_nth i xs))" by (simp add: drop_nth_def)
qed

lemma check_inv:
  assumes i: "pipe_inv X V live L0 K procs s0 p"
  shows "pipe_inv X V live L0 K procs s0 (pipe_check H Z n quit p)"
proof (cases "pp_workers p = 0 \<or> length (pp_cands p) \<le> n")
  case True
  then show ?thesis using i by (simp add: pipe_check_def)
next
  case False
  then have n: "n < length (pp_cands p)" by simp
  let ?cs = "drop_nth n (pp_cands p)" and ?c = "pp_cands p ! n"
  have len: "length (pp_cands p) = Suc (length ?cs)" using drop_nth_set(1) [OF n] n by simp
  note st = drop_nth_set(2) [OF n]
  have le: "copying X V L0 m (pp_store p)" if "m \<le> pipe_left p" for m
    using i copying_le that by (auto simp: pipe_inv_def)
  have le1: "copying X V L0 (length (pp_rows p) + length ?cs + length (pp_verified p)) (pp_store p)"
    "copying X V L0 (Suc (length (pp_rows p) + length ?cs + length (pp_verified p))) (pp_store p)"
    by (rule le; simp add: pipe_left_def len)+
  show ?thesis
  proof (cases "verifyRecord H Z ?c")
    case (Some e)
    then have "pipe_check H Z n quit p = p\<lparr>pp_cands := ?cs, pp_workers := pp_workers p - 1, pp_cancelled := True,
        pp_err := first_err (pp_err p) e\<rparr>" using False by (simp add: pipe_check_def Let_def)
    then show ?thesis using i le1 st by (simp add: pipe_inv_def pipe_left_def calm_pipe_def)
  next
    case None
    show ?thesis
    proof (cases "quit \<and> pp_cancelled p")
      case True
      then have "pipe_check H Z n quit p = p\<lparr>pp_cands := ?cs\<rparr>" using None False by (simp add: pipe_check_def Let_def)
      then show ?thesis using i le1 st True by (simp add: pipe_inv_def pipe_left_def calm_pipe_def)
    next
      case q: False
      then have "pipe_check H Z n quit p = p\<lparr>pp_cands := ?cs, pp_verified := pp_verified p @ [?c]\<rparr>"
        using None False by (auto simp: pipe_check_def Let_def)
      then show ?thesis using i le1 st by (simp add: pipe_inv_def pipe_left_def calm_pipe_def travelling_def)
    qed
  qed
qed

lemma append_inv:
  assumes X: "fuse_ok X" and K: "\<forall>k \<in> K. is_key k" and i: "pipe_inv X V live L0 K procs s0 p"
  shows "pipe_inv X V live L0 K procs s0 (pipe_append X p)"
proof (cases "pp_verified p")
  case Nil
  then show ?thesis using i by (simp add: pipe_append_def)
next
  case (Cons c cs)
  let ?n = "length (pp_rows p) + length (pp_cands p) + length cs"
  have cp: "copying X V L0 (Suc ?n) (pp_store p)" using i by (simp add: pipe_inv_def pipe_left_def Cons)
  have ck: "cand_ok live L0 c" using i by (simp add: pipe_inv_def Cons)
  show ?thesis
  proof (cases "pp_appendErr p")
    case (Some e)
    then have "pipe_append X p = p\<lparr>pp_verified := cs\<rparr>" by (simp add: pipe_append_def Cons Let_def)
    then show ?thesis using i copying_le [OF cp, of ?n] Some
      by (simp add: pipe_inv_def pipe_left_def calm_pipe_def Cons)
  next
    case None
    obtain e s' where a: "appendLocked X (ie_k (cr_e c)) (cr_rec c) False (pp_store p) = (e, s')" by fastforce
    have w: "whole (cr_rec c)" "cr_rec c \<in> set L0" and ak: "ie_k (cr_e c) = rec_key (cr_rec c)" "live (rec_key (cr_rec c))"
      using ck by (simp_all add: cand_ok_def)
    from copying_append [OF X cp w a [unfolded ak(1)]] have o: "copying X V L0 ?n s'" "same_frame (pp_store p) s'"
      "e = None \<longrightarrow> survivorHas X V s' (rec_key (cr_rec c))"
      "\<And>k. is_key k \<Longrightarrow> survivorHas X V (pp_store p) k \<Longrightarrow> survivorHas X V s' k"
      "\<And>k. is_key k \<Longrightarrow> survivorHas X V s' k \<Longrightarrow> survivorHas X V (pp_store p) k \<or> k = rec_key (cr_rec c)"
      by blast+
    have fr: "same_frame s0 s'" using i o(2) same_frame_trans by (auto simp: pipe_inv_def)
    have ks: "is_key k \<Longrightarrow> (survivorHas X V s' k \<longrightarrow> survivorHas X V s0 k \<or> live k) \<and>
        (survivorHas X V s0 k \<longrightarrow> survivorHas X V s' k)" for k
      using i o(4,5) ak(2) unfolding pipe_inv_def by blast
    show ?thesis
    proof (cases e)
      case (Some x)
      then have "pipe_append X p = p\<lparr>pp_verified := cs, pp_store := s', pp_appendErr := Some x, pp_cancelled := True\<rparr>"
        using None a by (simp add: pipe_append_def Cons Let_def)
      then show ?thesis using i o(1) fr ks by (simp add: pipe_inv_def pipe_left_def calm_pipe_def Cons)
    next
      case ok: None
      let ?st = "(pp_stats p)\<lparr>RecordsCopied := RecordsCopied (pp_stats p) + 1,
                          BytesCopied := BytesCopied (pp_stats p) + of_nat (length (cr_rec c))\<rparr>"
      have eq: "pipe_append X p = p\<lparr>pp_verified := cs, pp_store := s', pp_stats := ?st\<rparr>"
        using None a ok by (simp add: pipe_append_def Cons Let_def)
      have cov: "\<forall>k \<in> K. live k \<longrightarrow> survivorHas X V s' k \<or> k \<in> travelling (pipe_append X p)" if "calm_pipe p"
        using i that o(3,4) ok K ak(1) by (auto simp: pipe_inv_def travelling_def eq Cons)
      show ?thesis using i o(1) fr ks cov unfolding eq
        by (simp add: pipe_inv_def pipe_left_def calm_pipe_def Cons)
    qed
  qed
qed

text \<open>Completing the pipeline empties it, unless a stage failed.\<close>

lemma calm_steps:
  "calm_pipe (pipe_examine X V live quit p) \<Longrightarrow> calm_pipe p"
  "calm_pipe (pipe_check H Z n quit p) \<Longrightarrow> calm_pipe p"
  "calm_pipe (pipe_append X p) \<Longrightarrow> calm_pipe p"
  by (auto simp: calm_pipe_def pipe_examine_def pipe_check_def pipe_append_def Let_def
      split: list.splits prod.splits option.splits if_splits)

lemma stage_keeps:
  "pp_rows (pipe_check H Z n quit p) = pp_rows p"
  "pp_rows (pipe_append X p) = pp_rows p" "pp_cands (pipe_append X p) = pp_cands p"
  by (auto simp: pipe_check_def pipe_append_def Let_def split: list.splits prod.splits option.splits)

lemma stage_shrinks:
  "length (pp_rows (pipe_examine X V live quit p)) \<le> length (pp_rows p) - 1"
  "pp_workers p > 0 \<Longrightarrow> length (pp_cands (pipe_check H Z 0 quit p)) \<le> length (pp_cands p) - 1"
  "length (pp_verified (pipe_append X p)) \<le> length (pp_verified p) - 1"
  by (auto simp: pipe_examine_def pipe_check_def pipe_append_def Let_def drop_nth_def
      split: list.splits prod.splits option.splits)

lemma finish_empties:
  assumes X: "fuse_ok X" and K: "\<forall>k \<in> K. is_key k" and procs: "procs > 0"
    and i: "pipe_inv X V live L0 K procs s0 p" and q_def: "q = pipe_finish X H Z V live p"
  shows "pipe_inv X V live L0 K procs s0 q" and "calm_pipe q \<Longrightarrow> travelling q = {}"
proof -
  let ?I = "pipe_inv X V live L0 K procs s0"
  define p1 where "p1 = (pipe_examine X V live False ^^ length (pp_rows p)) p"
  define p2 where "p2 = (pipe_check H Z 0 False ^^ length (pp_cands p1)) p1"
  have q: "q = (pipe_append X ^^ length (pp_verified p2)) p2" by (simp add: q_def pipe_finish_def p1_def p2_def Let_def)
  have s1: "?I p1 \<and> length (pp_rows p1) \<le> length (pp_rows p) - length (pp_rows p)"
    unfolding p1_def by (rule funpow_shrinks [where P = ?I]) (use i examine_inv stage_shrinks(1) in auto)
  then have r1: "?I p1" "pp_rows p1 = []" by simp_all
  let ?m = "\<lambda>p. if calm_pipe p then length (pp_cands p) else 0"
  have "(?I p2 \<and> pp_rows p2 = []) \<and> ?m p2 \<le> ?m p1 - length (pp_cands p1)"
    unfolding p2_def
  proof (rule funpow_shrinks [where P = "\<lambda>p. ?I p \<and> pp_rows p = []"])
    fix p assume a: "?I p \<and> pp_rows p = []"
    have "?m (pipe_check H Z 0 False p) \<le> ?m p - 1"
    proof (cases "calm_pipe (pipe_check H Z 0 False p)")
      case True
      then have "calm_pipe p" by (rule calm_steps)
      then have "pp_workers p > 0" using a procs by (simp add: pipe_inv_def)
      then show ?thesis using stage_shrinks(2) [of p H Z False] \<open>calm_pipe p\<close> by simp
    qed simp
    then show "(?I (pipe_check H Z 0 False p) \<and> pp_rows (pipe_check H Z 0 False p) = []) \<and> ?m (pipe_check H Z 0 False p) \<le> ?m p - 1"
      using a check_inv by (auto simp: stage_keeps)
  qed (use r1 in simp)
  then have r2: "?I p2" "pp_rows p2 = []" "calm_pipe p2 \<longrightarrow> pp_cands p2 = []" by (auto split: if_splits)
  have "(?I q \<and> pp_rows q = [] \<and> (calm_pipe q \<longrightarrow> pp_cands q = [])) \<and> length (pp_verified q) \<le> length (pp_verified p2) - length (pp_verified p2)"
    unfolding q
    by (rule funpow_shrinks [where P = "\<lambda>p. ?I p \<and> pp_rows p = [] \<and> (calm_pipe p \<longrightarrow> pp_cands p = [])"])
      (use r2 append_inv [OF X K] stage_keeps(2,3) stage_shrinks(3) calm_steps(3) in auto)
  then show "?I q" and "calm_pipe q \<Longrightarrow> travelling q = {}" by (simp_all add: travelling_def)
qed

text \<open>Copying the live records of the victims, under every schedule.\<close>

lemma copyLive_effect:
  assumes X: "fuse_ok X" and procs: "procs > 0" and c: "copying X V L0 (length (victim_rows V)) s"
    and rows: "\<forall>row \<in> set (victim_rows V). row_ok L0 row"
    and q: "copyLive X H Z procs sched V live s stats = (e, s', stats')"
  shows "copying X V L0 0 s' \<and> same_frame s s' \<and>
     (\<forall>k. is_key k \<longrightarrow> (survivorHas X V s' k \<longrightarrow> survivorHas X V s k \<or> live k) \<and>
        (survivorHas X V s k \<longrightarrow> survivorHas X V s' k)) \<and>
     (e = None \<longrightarrow> (\<forall>row \<in> set (victim_rows V). live (ie_k (snd row)) \<longrightarrow> survivorHas X V s' (ie_k (snd row))))"
proof -
  let ?K = "(\<lambda>row. ie_k (snd row)) ` set (victim_rows V)"
  let ?I = "pipe_inv X V live L0 ?K procs s"
  let ?p = "\<lparr>pp_rows = victim_rows V, pp_cands = [], pp_verified = [], pp_workers = procs, pp_err = None,
               pp_cancelled = False, pp_appendErr = None, pp_store = s, pp_stats = stats\<rparr>"
  have K: "\<forall>k \<in> ?K. is_key k" using rows whole_key by (fastforce simp: row_ok_def)
  have "?I ?p" using c rows by (simp add: pipe_inv_def pipe_left_def travelling_def)
  have "?I (fold (pipe_step X H Z V live) ch p)" if "?I p" for ch p
    using that
  proof (induction ch arbitrary: p)
    case (Cons x ch)
    then show ?case using examine_inv check_inv append_inv [OF X K] by (cases x) auto
  qed simp
  from this [OF \<open>?I ?p\<close>, of sched] have "?I (fold (pipe_step X H Z V live) sched ?p)" .
  note f = finish_empties [OF X K procs this]
  define r where "r = pipe_finish X H Z V live (fold (pipe_step X H Z V live) sched ?p)"
  have I: "?I r" and tr: "calm_pipe r \<Longrightarrow> travelling r = {}" using f [OF r_def] by blast+
  have res: "e = (case pp_appendErr r of Some e \<Rightarrow> Some e | None \<Rightarrow> pp_err r)" "s' = pp_store r"
    using q unfolding copyLive_def Let_def r_def [symmetric] by simp_all
  have calm: "e = None \<Longrightarrow> calm_pipe r" using res(1) by (auto simp: calm_pipe_def split: option.splits)
  have "copying X V L0 0 s'" using I copying_le res(2) by (auto simp: pipe_inv_def)
  moreover have "e = None \<longrightarrow> (\<forall>k \<in> ?K. live k \<longrightarrow> survivorHas X V s' k)"
    using I calm tr res(2) by (auto simp: pipe_inv_def)
  ultimately show ?thesis using I res(2) by (auto simp: pipe_inv_def)
qed

section \<open>Removing the victims\<close>

lemma Remove_kept:
  assumes r: "os_Remove n d = (r, d')" and k: "entry_kept d m i" and ne: "n \<noteq> m"
  shows "entry_kept d' m i"
proof (cases "dir_of d' = dir_of d")
  case True
  then show ?thesis using k entry_kept_cong [OF True] by simp
next
  case False
  then have d': "dk_dirents d' = AList.delete n (dk_dirents d)" "dk_synced d' = dk_synced d"
    "dk_pending d' = dk_pending d @ [Unlink n]"
    using r by (auto simp: os_Remove_def dir_change_def dir_of_def dest!: next_fault_eq split: prod.splits option.splits if_splits)
  have "map_of (foldl apply_dirop (dk_synced d) ops) m = Some i" if s: "subseq ops (dk_pending d @ [Unlink n])" for ops
  proof -
    obtain a b where ab: "ops = a @ b" "subseq a (dk_pending d)" "subseq b [Unlink n]"
      using s by (auto simp: subseq_append_iff elim: subseq_appendE)
    then have "b = [] \<or> b = [Unlink n]" by (cases b) (auto simp: subseq_Nil split: if_splits)
    then show ?thesis using ab(1,2) k ne by (auto simp: entry_kept_def delete_conv)
  qed
  then show ?thesis using k ne d' by (simp add: entry_kept_def delete_conv)
qed

lemma removals_keep:
  assumes "fold (\<lambda>g x. run_io (os_Remove (sg_path g)) (run_io f_Close x)) V (r, d) = (r', d')"
  shows "dk_files d' = dk_files d \<and> (\<forall>m i. m \<notin> sg_path ` set V \<and> entry_kept d m i \<longrightarrow> entry_kept d' m i)"
  using assms
proof (induction V arbitrary: r d)
  case Nil
  then show ?case by simp
next
  case (Cons g V)
  obtain r1 d1 where c: "f_Close d = (r1, d1)" by fastforce
  obtain r2 d2 where m: "os_Remove (sg_path g) d1 = (r2, d2)" by fastforce
  have "dk_files d2 = dk_files d" using no_file_change(2) [OF c] no_file_change(4) [OF m] by simp
  moreover have "entry_kept d2 n i" if "entry_kept d n i" "n \<noteq> sg_path g" for n i
    using that Remove_kept [OF m] entry_kept_cong [OF dir_of_same(2) [OF c]] by metis
  moreover obtain r'' where "fold (\<lambda>g x. run_io (os_Remove (sg_path g)) (run_io f_Close x)) V (r'', d2) = (r', d')"
    using Cons.prems c m by (auto simp: run_io_def)
  note ih = Cons.IH [OF this]
  ultimately show ?case using ih by simp
qed

lemma dir_Sync_keeps: "dir_Sync d = (r, d') \<Longrightarrow> entry_kept d m i \<Longrightarrow> entry_kept d' m i"
  by (auto simp: dir_Sync_def entry_kept_def subseq_Nil dest!: next_fault_eq split: prod.splits option.splits)

text \<open>A step from \<open>s\<close> to a state that stores records of \<open>L\<close>, for all keys of \<open>P\<close> and none
  outside \<open>Q\<close>.\<close>

definition outcome :: "xorfilter \<Rightarrow> bytes list \<Rightarrow> (key \<Rightarrow> bool) \<Rightarrow> (key \<Rightarrow> bool) \<Rightarrow> store \<Rightarrow> store \<Rightarrow> bool" where
  "outcome X L P Q s s' \<longleftrightarrow>
     same_frame s s' \<and> ids_ok s' \<and> names_ok s' \<and>
     (\<exists>L'. holds X s' L' \<and> set L' \<subseteq> set L \<and>
        (\<forall>k. is_key k \<longrightarrow> (P k \<longrightarrow> k \<in> rec_key ` set L') \<and> (k \<in> rec_key ` set L' \<longrightarrow> Q k)))"

lemma outcomeE:
  assumes "outcome X L P Q s s'"
  obtains L' where "same_frame s s'" "ids_ok s'" "names_ok s'" "holds X s' L'" "set L' \<subseteq> set L"
    "\<And>k. is_key k \<Longrightarrow> P k \<Longrightarrow> k \<in> rec_key ` set L'" "\<And>k. is_key k \<Longrightarrow> k \<in> rec_key ` set L' \<Longrightarrow> Q k"
  using assms unfolding outcome_def by (elim conjE exE) (rule that; blast)

lemma removeVictims_effect:
  assumes c: "copying X V L0 n s" and q: "removeVictims V s stats = (e, s', stats')"
  shows "same_frame s s' \<and> ids_ok s' \<and> names_ok s' \<and>
     (\<exists>L'. holds X s' L' \<and> set L' \<subseteq> set L0 \<and> (\<forall>k. is_key k \<longrightarrow> (k \<in> rec_key ` set L' \<longleftrightarrow> survivorHas X V s k)))"
proof -
  obtain RS RA where cut: "cut_into (st_failed s = None) X s RS RA" "set (concat RS @ RA) \<subseteq> set L0"
    and o: "ids_ok s" "names_ok s" "set V \<subseteq> set (st_sealed s)"
    using c unfolding copying_def by blast
  let ?keep = "filter (\<lambda>g. \<not> is_victimID V (sg_id g)) (st_sealed s)"
  let ?RS = "map snd (filter (\<lambda>gL. \<not> is_victimID V (sg_id (fst gL))) (zip (st_sealed s) RS))"
  obtain r d where f: "fold (\<lambda>g x. run_io (os_Remove (sg_path g)) (run_io f_Close x)) V (None, st_disk s) = (r, d)" by fastforce
  obtain r2 d2 where sy: "dir_Sync d = (r2, d2)" by fastforce
  obtain d' where d': "s' = s\<lparr>st_disk := d', st_sealed := ?keep\<rparr>" "d' = d \<or> d' = d2"
    using q f sy by (auto simp: removeVictims_def Let_def run_io_def split: if_splits)
  have keep: "entry_kept d' (as_path a) (as_f a)" if "st_active s = Some a" "entry_kept (st_disk s) (as_path a) (as_f a)" for a
  proof -
    have "as_path a \<notin> sg_path ` set V" using o(2,3) that(1) names_differ by (fastforce simp: names_ok_def)
    then have "entry_kept d (as_path a) (as_f a)" using removals_keep [OF f] that(2) by blast
    then show ?thesis using d'(2) dir_Sync_keeps [OF sy] by blast
  qed
  have files: "dk_files d' = dk_files (st_disk s)" using removals_keep [OF f] no_file_change(5) [OF sy] d'(2) by auto
  have sv: "cut_into (st_failed s = None) X (s\<lparr>st_sealed := ?keep\<rparr>) ?RS RA" by (rule cut_survivors [OF cut(1)])
  have "cut_into (st_failed s = None) X s' ?RS RA"
  proof (cases "st_active s")
    case None
    then show ?thesis using sv by (simp add: cut_into_def d'(1))
  next
    case (Some a)
    have "active_is d' a RA" using cut_take [OF cut(1) Some] active_is_files files by simp
    moreover have "active_ready (st_disk s) a \<longrightarrow> active_ready d' a" using keep [OF Some] by (simp add: active_ready_def)
    ultimately show ?thesis using sv Some by (simp add: cut_into_def d'(1))
  qed
  then have "holds X s' (surv V (st_sealed s) RS RA)" unfolding holds_def holds_with_def surv_def d'(1) by auto
  moreover have "set (surv V (st_sealed s) RS RA) \<subseteq> set L0" using surv_subset cut(2) by (rule subset_trans)
  moreover have "is_key k \<Longrightarrow> k \<in> rec_key ` set (surv V (st_sealed s) RS RA) \<longleftrightarrow> survivorHas X V s k" for k
    by (simp add: survivorHas_surv [OF cut(1)])
  moreover have "ids_ok s'" using o(1) by (auto simp: ids_ok_def d'(1) distinct_map_filter)
  moreover have "names_ok s'" using o(2) by (auto simp: names_ok_def d'(1))
  moreover have "same_frame s s'" by (simp add: same_frame_def d'(1))
  ultimately show ?thesis by blast
qed

section \<open>Choosing the victims\<close>

text \<open>No segment is too young.\<close>

definition no_horizon :: "CompactOpts \<Rightarrow> bool" where
  "no_horizon opts \<longleftrightarrow> (case co_Horizon opts of None \<Rightarrow> True | Some stat \<Rightarrow> \<forall>p. stat p = Inr True)"

lemma select_loop_result:
  assumes "select_loop opts live gs V0 st = (Inr V, st')"
  shows "\<exists>V1. V = V0 @ V1 \<and> subseq V1 gs \<and> (no_horizon opts \<longrightarrow> V1 = filter (is_victim opts live) gs)"
  using assms
proof (induction gs arbitrary: V0 st)
  case Nil
  then show ?case by simp
next
  case (Cons g gs)
  have skip: ?case if sq: "select_loop opts live gs V0 st = (Inr V, st')" and nv: "no_horizon opts \<longrightarrow> \<not> is_victim opts live g"
  proof -
    obtain V1 where "V = V0 @ V1" "subseq V1 gs" "no_horizon opts \<longrightarrow> V1 = filter (is_victim opts live) gs"
      using Cons.IH [OF sq] by (elim exE conjE) (rule that; assumption)
    then show ?thesis using nv by (intro exI [of _ V1]) (simp add: list_emb_Cons)
  qed
  have take: ?case if sel: "is_victim opts live g" and q: "select_loop opts live gs (V0 @ [g]) (st\<lparr>Victims := Victims st @ [sg_id g]\<rparr>) = (Inr V, st')"
  proof -
    obtain V1 where "V = (V0 @ [g]) @ V1" "subseq V1 gs" "no_horizon opts \<longrightarrow> V1 = filter (is_victim opts live) gs"
      using Cons.IH [OF q] by (elim exE conjE) (rule that; assumption)
    then show ?thesis using sel by (intro exI [of _ "g # V1"]) simp
  qed
  define h where "h = (case co_Horizon opts of None \<Rightarrow> Inr True | Some stat \<Rightarrow> stat (sg_path g))"
  have h0: "no_horizon opts \<Longrightarrow> h = Inr True" by (auto simp: h_def no_horizon_def split: option.splits)
  consider (stat) e where "h = Inl e" | (young) "h = Inr False" | (old) "h = Inr True" by (cases h) auto
  then show ?case
  proof cases
    case stat
    then show ?thesis using Cons.prems by (simp add: h_def)
  next
    case young
    then have "select_loop opts live gs V0 st = (Inr V, st')" using Cons.prems by (simp add: h_def)
    then show ?thesis by (rule skip) (use young h0 in auto)
  next
    case old
    then show ?thesis using Cons.prems skip take by (cases "is_victim opts live g") (simp_all add: h_def)
  qed
qed

lemma dead_keys:
  "DeadKeys (fold (\<lambda>e. add_live (live (ie_k e)) (ie_slen e)) es info) =
     DeadKeys info + length (filter (\<lambda>e. \<not> live (ie_k e)) es)"
  by (induction es arbitrary: info) (simp_all add: add_live_def Let_def)

lemma no_dead_keys:
  assumes "DeadKeys (seg_liveness live g) = 0" and "e \<in> set (allEntries (sg_fv g))"
  shows "live (ie_k e)"
  using assms by (auto simp: seg_liveness_def dead_keys no_liveness_def filter_empty_conv)

lemma victim_rows_length:
  "list_all2 (sealed_is X) gs RS \<Longrightarrow> length (victim_rows gs) \<le> length (concat RS)"
proof (induction rule: list_all2_induct)
  case Nil
  then show ?case by (simp add: victim_rows_def)
next
  case (Cons g gs L RS)
  obtain es where es: "sealed_as X (body_of L) es g" using Cons.hyps(1) by (auto simp: sealed_is_def)
  have d: "distinct (map ie_k (allEntries (sg_fv g)))"
    using es mset_eq_imp_distinct_iff [of "map ie_k (sort_entries es)" "map ie_k es"]
    by (simp add: allEntries_sealed [OF es] sealed_as_def)
  have "length (allEntries (sg_fv g)) = card (rec_key ` set L)"
    using distinct_card [OF d] sealed_is_rows(1) [OF Cons.hyps(1)] by simp
  also have "\<dots> \<le> length L" using card_image_le [of "set L" rec_key] card_length [of L] by simp
  finally show ?case using Cons.IH by (simp add: victim_rows_def)
qed

lemma victim_rows_subseq: "subseq V gs \<Longrightarrow> length (victim_rows V) \<le> length (victim_rows gs)"
  by (induction rule: list_emb.induct) (simp_all add: victim_rows_def)

lemma subseq_set: "subseq xs ys \<Longrightarrow> set xs \<subseteq> set ys"
  by (auto elim: list_emb_set)

section \<open>Compaction as a whole\<close>

lemma stored_where:
  assumes c: "cut_into b X s RS RA" and ids: "ids_ok s" and V: "set V \<subseteq> set (st_sealed s)" and k: "is_key k"
  shows "k \<in> rec_key ` set (concat RS @ RA) \<longleftrightarrow> survivorHas X V s k \<or> k \<in> (\<lambda>row. ie_k (snd row)) ` set (victim_rows V)"
proof -
  have S: "list_all2 (sealed_is X) (st_sealed s) RS" using c by (simp add: cut_into_def)
  have has: "seg_has X g k \<longleftrightarrow> k \<in> ie_k ` set (allEntries (sg_fv g))" if gs: "g \<in> set (st_sealed s)" for g
  proof -
    obtain L where L: "sealed_is X g L" using S gs by (auto simp: list_all2_conv_all_nth in_set_conv_nth)
    show ?thesis using sealed_is_reads(1) [OF L k] sealed_is_rows(1) [OF L] by (simp add: dom_log_map)
  qed
  have all: "k \<in> rec_key ` set (concat RS @ RA) \<longleftrightarrow> survivorHas X [] s k"
  proof -
    have "surv [] (st_sealed s) RS RA = concat RS @ RA"
      using list_all2_lengthD [OF S] by (simp add: surv_def is_victimID_def)
    then show ?thesis using survivorHas_surv [OF c k, of "[]"] by simp
  qed
  have vid: "is_victimID V (sg_id g) \<longleftrightarrow> g \<in> set V" if "g \<in> set (st_sealed s)" for g
    using that V ids by (auto simp: is_victimID_def list_ex_iff ids_ok_def distinct_map dest: inj_onD)
  have rows: "(\<lambda>row. ie_k (snd row)) ` set (victim_rows V) = (\<Union>g \<in> set V. ie_k ` set (allEntries (sg_fv g)))"
    by (simp add: victim_rows_def image_UN image_image)
  have "survivorHas X V s k \<longleftrightarrow> active_loc s k \<noteq> None \<or> (\<exists>g \<in> set (st_sealed s). g \<notin> set V \<and> seg_has X g k)"
    unfolding survivorHas_def list_ex_iff using vid by blast
  moreover have "survivorHas X [] s k \<longleftrightarrow> active_loc s k \<noteq> None \<or> (\<exists>g \<in> set (st_sealed s). seg_has X g k)"
    by (simp add: survivorHas_def is_victimID_def list_ex_iff)
  ultimately have "survivorHas X [] s k \<longleftrightarrow> survivorHas X V s k \<or> (\<exists>g \<in> set V. seg_has X g k)"
    using V by blast
  also have "(\<exists>g \<in> set V. seg_has X g k) \<longleftrightarrow> k \<in> (\<lambda>row. ie_k (snd row)) ` set (victim_rows V)"
    using has V unfolding rows by blast
  finally show ?thesis using all by simp
qed

lemma copying_outcome:
  assumes c: "copying X V L n s'" and fr: "same_frame s s'" and Q: "\<And>k. Q k"
    and keep: "\<And>k. is_key k \<Longrightarrow> P k \<Longrightarrow> survivorHas X V s' k \<or> k \<in> (\<lambda>row. ie_k (snd row)) ` set (victim_rows V)"
  shows "outcome X L P Q s s'"
proof -
  obtain RS RA where cut: "cut_into (st_failed s' = None) X s' RS RA" "set (concat RS @ RA) \<subseteq> set L"
    and o: "ids_ok s'" "names_ok s'" "set V \<subseteq> set (st_sealed s')" using c unfolding copying_def by blast
  have "holds X s' (concat RS @ RA)" using cut(1) unfolding holds_def holds_with_def by blast
  moreover have "\<forall>k. is_key k \<longrightarrow> P k \<longrightarrow> k \<in> rec_key ` set (concat RS @ RA)"
    using keep stored_where [OF cut(1) o(1,3)] by blast
  ultimately show ?thesis using fr o cut(2) Q unfolding outcome_def by blast
qed

lemma copying_cong:
  assumes "copying X V L n s" and "cut_into (st_failed s' = None) X s' = cut_into (st_failed s = None) X s \<or>
      cut_into (st_failed s' = None) X s' = cut_into False X s"
    and "st_sealed s' = st_sealed s" and "st_active s' = st_active s" and "st_nextID s' = st_nextID s"
  shows "copying X V L n s'"
proof -
  obtain RS RA where cut: "cut_into (st_failed s = None) X s RS RA" "set (concat RS @ RA) \<subseteq> set L"
    using assms(1) unfolding copying_def by blast
  then have "cut_into (st_failed s' = None) X s' RS RA" using assms(2) cut_weaken [OF cut(1)] by auto
  then show ?thesis using assms(1,3,4,5) cut(2) ids_ok_cong [OF assms(3,4,5)] names_ok_cong [OF assms(3)] assms(4)
    unfolding copying_def by auto
qed

lemma copying_disk:
  assumes c: "copying X V L n s" and sy: "f_Sync i (st_disk s) = (r, d)"
  shows "copying X V L n (s\<lparr>st_disk := d\<rparr>)" "copying X V L n (setFailed x (s\<lparr>st_disk := d\<rparr>))"
proof -
  have cut: "cut_into b X (s\<lparr>st_disk := d\<rparr>) = cut_into b X s" for b
    by (rule cut_cong) (use no_file_change(1) [OF sy] dir_of_same(1) [OF sy] in auto)
  moreover have "cut_into b X (setFailed x (s\<lparr>st_disk := d\<rparr>)) = cut_into b X (s\<lparr>st_disk := d\<rparr>)" for b
    by (rule cut_cong) simp_all
  ultimately show "copying X V L n (s\<lparr>st_disk := d\<rparr>)" "copying X V L n (setFailed x (s\<lparr>st_disk := d\<rparr>))"
    by (auto intro!: copying_cong [OF c])
qed

lemma survivorHas_cong:
  "st_sealed s' = st_sealed s \<Longrightarrow> st_active s' = st_active s \<Longrightarrow> survivorHas X V s' = survivorHas X V s"
  by (intro ext) (simp add: survivorHas_def active_loc_def)

lemma nonvictims_live:
  assumes c: "cut_into b X s RS []" and all: "\<And>d t. co_reaches opts d t" and k: "is_key k"
    and s: "survivorHas X (filter (is_victim opts live) (st_sealed s)) s k"
  shows "live k"
proof -
  have "active_loc s k = None"
    using c by (auto simp: active_loc_def cut_into_def active_is_def split: option.splits)
  then obtain g where g: "g \<in> set (st_sealed s)" "seg_has X g k" "\<not> is_victim opts live g"
    using s by (auto simp: survivorHas_def list_ex_iff is_victimID_def)
  obtain L where L: "sealed_is X g L" using c g(1) by (auto simp: cut_into_def list_all2_conv_all_nth in_set_conv_nth)
  have "k \<in> ie_k ` set (allEntries (sg_fv g))"
    using g(2) sealed_is_reads(1) [OF L k] sealed_is_rows(1) [OF L] by (simp add: dom_log_map)
  moreover have "DeadKeys (seg_liveness live g) = 0" using g(3) all by (simp add: is_victim_def Let_def)
  ultimately show ?thesis using no_dead_keys by blast
qed

lemma start_copying:
  assumes c: "cut_into (st_failed s = None) X s RS RA" and ids: "ids_ok s" "names_ok s"
    and n: "unat (st_nextID s) + length (concat RS @ RA) < 2 ^ 64" and V: "subseq V (st_sealed s)"
  shows "copying X V (concat RS @ RA) (length (victim_rows V)) s" "\<forall>row \<in> set (victim_rows V). row_ok (concat RS @ RA) row"
proof -
  have S: "list_all2 (sealed_is X) (st_sealed s) RS" using c by (simp add: cut_into_def)
  have "length (victim_rows V) \<le> length (concat RS)"
    using victim_rows_subseq [OF V] victim_rows_length [OF S] by simp
  then show "copying X V (concat RS @ RA) (length (victim_rows V)) s"
    using c ids n subseq_set [OF V] unfolding copying_def by fastforce
  show "\<forall>row \<in> set (victim_rows V). row_ok (concat RS @ RA) row"
  proof
    fix row assume "row \<in> set (victim_rows V)"
    then obtain g e where r: "row = (g, e)" "g \<in> set V" "e \<in> set (allEntries (sg_fv g))" by (auto simp: victim_rows_def)
    obtain i where i: "i < length (st_sealed s)" "st_sealed s ! i = g"
      using subseq_set [OF V] r(2) by (meson in_set_conv_nth subsetD)
    have L: "sealed_is X g (RS ! i)" "RS ! i \<in> set RS" using S i by (auto simp: list_all2_conv_all_nth)
    have wh: "\<forall>r \<in> set (RS ! i). whole r" using L(1) by (simp add: sealed_is_def)
    show "row_ok (concat RS @ RA) row" using sealed_is_rows(2) [OF L(1) r(3)] wh L(2) by (auto simp: row_ok_def r(1))
  qed
qed

lemma copied_then_removed_cases:
  assumes q: "copied_then_removed V (e1, s1, st1) = (e, s', st)" and c: "copying X V L 0 s1"
  obtains (kept) "e \<noteq> None" "copying X V L 0 s'" "same_frame s1 s'" "st_sealed s' = st_sealed s1" "st_active s' = st_active s1"
    | (removed) s2 where "e1 = None" "copying X V L 0 s2" "same_frame s1 s2" "st_sealed s2 = st_sealed s1"
        "st_active s2 = st_active s1" "removeVictims V s2 st1 = (e, s', st)"
proof (cases "e1 = None \<and> st_active s1 \<noteq> None \<and> st_sync s1")
  case True
  then obtain a r d where a: "st_active s1 = Some a" and sy: "f_Sync (as_f a) (st_disk s1) = (r, d)" by (metis old.prod.exhaust option.exhaust)
  show thesis
  proof (cases r)
    case None
    then have "removeVictims V (s1\<lparr>st_disk := d\<rparr>) st1 = (e, s', st)" using q True a sy by (simp add: copied_then_removed_def)
    then show thesis using removed [of "s1\<lparr>st_disk := d\<rparr>"] copying_disk(1) [OF c sy] True by simp
  next
    case (Some m)
    then have r: "e = Some (IOErr m)" "s' = setFailed (IOErr m) (s1\<lparr>st_disk := d\<rparr>)"
      using q True a sy by (auto simp: copied_then_removed_def)
    have "same_frame s1 s'" by (simp add: r(2) same_frame_def)
    then show thesis using kept copying_disk(2) [OF c sy] r by simp
  qed
next
  case False
  show thesis
  proof (cases e1)
    case (Some x)
    then show thesis using q kept c by (auto simp: copied_then_removed_def)
  next
    case None
    then have "removeVictims V s1 st1 = (e, s', st)" using q False by (auto simp: copied_then_removed_def split: option.splits)
    then show thesis using removed [of s1] c None by simp
  qed
qed

definition full_sweep :: "CompactOpts \<Rightarrow> bool" where
  "full_sweep opts \<longleftrightarrow> no_horizon opts \<and> (\<forall>d t. co_reaches opts d t)"

lemma compact_sealed_effect:
  assumes X: "fuse_ok X" and procs: "procs > 0" and c: "cut_into True X s RS RA" and nf: "st_failed s = None"
    and ids: "ids_ok s" "names_ok s" and n: "unat (st_nextID s) + length (concat RS @ RA) < 2 ^ 64"
    and q: "compact_sealed X H Z procs sched opts live s = (e, s', st)"
  shows "outcome X (concat RS @ RA) (\<lambda>k. k \<in> rec_key ` set (concat RS @ RA) \<and> live k)
     (\<lambda>k. e = None \<and> full_sweep opts \<and> RA = [] \<longrightarrow> live k) s s'"
proof -
  let ?L = "concat RS @ RA"
  let ?P = "\<lambda>k. k \<in> rec_key ` set ?L \<and> live k"
  let ?Q = "\<lambda>k. e = None \<and> full_sweep opts \<and> RA = [] \<longrightarrow> live k"
  have c': "cut_into (st_failed s = None) X s RS RA" using c nf by simp
  have h: "holds X s ?L" using c' unfolding holds_def holds_with_def by blast
  have same: "outcome X ?L ?P ?Q s s" if "\<And>k. is_key k \<Longrightarrow> k \<in> rec_key ` set ?L \<Longrightarrow> ?Q k"
    using that unfolding outcome_def by (intro conjI exI [of _ ?L] same_frame_refl ids h allI impI subset_refl) blast+
  obtain r st1 where sel: "selectVictims opts live s no_stats = (r, st1)" by fastforce
  show ?thesis
  proof (cases r)
    case (Inl x)
    then have "e = Some x" "s' = s" using q sel by (auto simp: compact_sealed_def)
    then show ?thesis using same by simp
  next
    case (Inr V)
    have V: "subseq V (st_sealed s)" "no_horizon opts \<longrightarrow> V = filter (is_victim opts live) (st_sealed s)"
      using sel Inr select_loop_result [of opts live "st_sealed s" "[]"] by (auto simp: selectVictims_def)
    note st = start_copying [OF c' ids n V(1)]
    have vs: "set V \<subseteq> set (st_sealed s)" by (rule subseq_set [OF V(1)])
    have lv: "live k" if "full_sweep opts" "RA = []" "is_key k" "survivorHas X V s k" for k
      using nonvictims_live [of True X s RS opts k live] c that V(2) by (simp add: full_sweep_def)
    note wh = stored_where [OF c' ids(1) vs]
    show ?thesis
    proof (cases "V = []")
      case True
      then have "s' = s" using q sel Inr by (simp add: compact_sealed_def)
      moreover have "outcome X ?L ?P ?Q s s"
        by (rule same) (use lv wh True in \<open>simp add: victim_rows_def\<close>)
      ultimately show ?thesis by simp
    next
      case False
      obtain e1 s1 st2 where cl: "copyLive X H Z procs sched V live s st1 = (e1, s1, st2)" by (metis prod_cases3)
      from copyLive_effect [OF X procs st cl] have k: "copying X V ?L 0 s1" "same_frame s s1"
        "\<And>k. is_key k \<Longrightarrow> survivorHas X V s1 k \<Longrightarrow> survivorHas X V s k \<or> live k"
        "\<And>k. is_key k \<Longrightarrow> survivorHas X V s k \<Longrightarrow> survivorHas X V s1 k"
        "e1 = None \<Longrightarrow> \<forall>row \<in> set (victim_rows V). live (ie_k (snd row)) \<longrightarrow> survivorHas X V s1 (ie_k (snd row))"
        by blast+
      have ctr: "copied_then_removed V (e1, s1, st2) = (e, s', st)"
        using q sel Inr False cl by (simp add: compact_sealed_def)
      show ?thesis
      proof (cases rule: copied_then_removed_cases [OF ctr k(1)])
        case 1
        note kept = this
        show ?thesis
          by (rule copying_outcome [OF kept(2)])
            (use kept(1,3) same_frame_trans [OF k(2)] k(4) wh survivorHas_cong [OF kept(4,5)] in auto)
      next
        case (2 s2)
        note removed = this
        from removeVictims_effect [OF removed(2,6)] obtain L' where o: "same_frame s2 s'" "ids_ok s'" "names_ok s'"
          "holds X s' L'" "set L' \<subseteq> set ?L" "\<forall>k. is_key k \<longrightarrow> (k \<in> rec_key ` set L' \<longleftrightarrow> survivorHas X V s2 k)" by blast
        have "(?P k \<longrightarrow> k \<in> rec_key ` set L') \<and> (k \<in> rec_key ` set L' \<longrightarrow> ?Q k)" if "is_key k" for k
          using o(6) that survivorHas_cong [OF removed(4,5), of X V] wh [OF that]
            k(3,4) [OF that] k(5) [OF removed(1)] lv [OF _ _ that] by auto
        moreover have "same_frame s s'" using o(1) k(2) removed(3) same_frame_trans by blast
        ultimately show ?thesis using o unfolding outcome_def by blast
      qed
    qed
  qed
qed

lemma Compact_effect:
  assumes X: "fuse_ok X" and procs: "procs > 0" and h: "holds X s L" and ids: "ids_ok s" "names_ok s"
    and n: "unat (st_nextID s) + length L < 2 ^ 64"
    and q: "Compact X H Z procs sched opts marked s = (e, s', st)"
  shows "outcome X L (\<lambda>k. k \<in> rec_key ` set L \<and> or_grey (st_grey s) marked k)
     (\<lambda>k. e = None \<and> full_sweep opts \<longrightarrow> or_grey (st_grey s) marked k) (snd (takeGrey s)) s'"
proof -
  let ?s = "snd (takeGrey s)" and ?live = "or_grey (st_grey s) marked"
  let ?P = "\<lambda>k. k \<in> rec_key ` set L \<and> ?live k" and ?Q = "\<lambda>k. e = None \<and> full_sweep opts \<longrightarrow> ?live k"
  have same: "st_sealed ?s = st_sealed s" "st_active ?s = st_active s" "st_segmentSize ?s = st_segmentSize s"
    "st_disk ?s = st_disk s" "st_failed ?s = st_failed s" "st_nextID ?s = st_nextID s" "st_closed ?s = st_closed s"
    by (simp_all add: takeGrey_def)
  have h': "holds X ?s L" using h cut_cong [of ?s s] same by (simp add: holds_def holds_with_def)
  have i': "ids_ok ?s" "names_ok ?s" using ids ids_ok_cong [of ?s s] names_ok_cong [of ?s s] same by simp_all
  have stay: "outcome X L ?P ?Q ?s s1"
    if "e \<noteq> None" "holds X s1 L" "ids_ok s1" "names_ok s1" "same_frame ?s s1" for s1
    unfolding outcome_def using that by blast
  show ?thesis
  proof (cases "st_closed ?s \<or> st_failed ?s \<noteq> None")
    case True
    then have "s' = ?s \<and> e \<noteq> None" using q by (cases "st_failed s") (auto simp: Compact_def takeGrey_def split: if_splits dest!: sym [where s = "Some _"])
    then show ?thesis using stay h' i' by simp
  next
    case False
    then have nf: "st_failed ?s = None" by simp
    obtain RS RA where c: "cut_into True X ?s RS RA" "L = concat RS @ RA" using h' nf unfolding holds_def holds_with_def by auto
    obtain e1 s1 where sl: "sealActiveLocked X ?s = (e1, s1)" by fastforce
    have k: "sealed_or_kept X ?s RS RA e1 s1"
      by (rule seal_keeps [OF X c(1) sl]) (use c(1) in \<open>simp add: cut_into_def active_ready_def entry_kept_def\<close>)
    have i1: "ids_ok s1" "names_ok s1" using seal_ids [OF k i'(1)] seal_names [OF i'(2) sl] by simp_all
    have fr: "same_frame ?s s1" "st_failed s1 = None" "st_nextID s1 = st_nextID s" using k nf same(6) by (simp_all add: sealed_or_kept_def)
    show ?thesis
    proof (cases e1)
      case (Some x)
      then have s': "e = Some x" "s' = setFailed x s1" using q sl False by (auto simp: Compact_def takeGrey_def)
      have "holds_with False X s1 L"
      proof -
        have "L = concat (RS @ [RA]) @ []" using c(2) by simp
        moreover have "cut_into False X s1 RS RA \<or> cut_into False X s1 (RS @ [RA]) []"
          using k Some cut_weaken [of True X s1 "RS @ [RA]"] by (auto simp: sealed_or_kept_def)
        ultimately show ?thesis using c(2) unfolding holds_with_def by blast
      qed
      then have "holds X s' L" using setFailed_holds s'(2) by blast
      moreover have "same_frame ?s s'" using fr(1) by (simp add: s'(2) same_frame_def)
      moreover have "names_ok s'" using i1(2) names_ok_cong [of s' s1] by (simp add: s'(2))
      ultimately show ?thesis using stay [of s'] i1 s' by simp
    next
      case None
      have "\<exists>RS'. cut_into True X s1 RS' [] \<and> L = concat RS'"
        using k None c by (auto simp: sealed_or_kept_def cut_into_def)
      then obtain RS' where c1: "cut_into True X s1 RS' []" "L = concat RS'" by blast
      have q1: "compact_sealed X H Z procs sched opts ?live s1 = (e, s', st)"
        using q sl False None by (simp add: Compact_def takeGrey_def)
      have n1: "unat (st_nextID s1) + length (concat RS' @ []) < 2 ^ 64" using n fr(3) c1(2) by simp
      from compact_sealed_effect [OF X procs c1(1) fr(2) i1 n1 q1] fr(1) c1(2) show ?thesis
        unfolding outcome_def using same_frame_trans by auto
    qed
  qed
qed

lemma observe_ids [simp]: "ids_ok (observe k s) = ids_ok s" "names_ok (observe k s) = names_ok s" "st_nextID (observe k s) = st_nextID s"
  by (auto simp: observe_def ids_ok_def names_ok_def split: option.splits)

lemma Put_ids:
  assumes X: "fuse_ok X" and h: "holds X s L" and k: "canonical k" and ids: "ids_ok s" "names_ok s"
    and n: "unat (st_nextID s) + 1 < 2 ^ 64" and q: "Put X Z k data s = (e, s')"
  shows "ids_ok s' \<and> names_ok s' \<and> unat (st_nextID s') \<le> unat (st_nextID s) + 1"
proof -
  consider (same) "s' = s \<or> s' = observe k s"
    | (app) rec where "EncodeRecord Z k data = Inr rec" "appendLocked X k rec True (observe k s) = (e, s')"
    using q by (auto simp: Put_def Let_def split: option.splits sum.splits bool.splits)
  then show ?thesis
  proof cases
    case same
    then show ?thesis using ids by auto
  next
    case app
    note w = encode_whole [OF k app(1)]
    obtain RS RA where c: "cut_into (st_failed (observe k s) = None) X (observe k s) RS RA"
      using holds_observe [of X k s L] h unfolding holds_def holds_with_def by blast
    have a: "appendLocked X (rec_key rec) rec True (observe k s) = (e, s')" using app(2) w(2) by simp
    have "ids_ok s'" "unat (st_nextID s') \<le> unat (st_nextID s) + 1"
      using conjunct2 [OF appendLocked_effect [OF X c w(1) a]] ids n by simp_all
    then show ?thesis using append_names [OF _ app(2)] ids by simp
  qed
qed

lemma reads_of_log:
  assumes h: "holds X s L" "holds X s' L'" and op: "\<not> st_closed s" "\<not> st_closed s'" and sub: "set L' \<subseteq> set L"
    and same: "\<forall>r \<in> set L. \<forall>r' \<in> set L. rec_key r = rec_key r' \<longrightarrow> decode_record Z r = decode_record Z r'" and k: "is_key k"
  shows "k \<in> rec_key ` set L' \<Longrightarrow> Has X s' k = Has X s k \<and> Get X Z s' k = Get X Z s k"
    and "k \<notin> rec_key ` set L' \<Longrightarrow> Get X Z s' k = Inl ObjNotFound"
proof -
  note r = holds_reads [OF h(1) op(1) k] and r' = holds_reads [OF h(2) op(2) k]
  show "Has X s' k = Has X s k \<and> Get X Z s' k = Get X Z s k" if i: "k \<in> rec_key ` set L'"
  proof -
    obtain a a' where l: "log_map L k = Some a" "log_map L' k = Some a'"
      using i sub dom_log_map [of L] dom_log_map [of L'] by blast
    have "a \<in> set L" "a' \<in> set L" "rec_key a = rec_key a'" using log_map_Some [OF l(1)] log_map_Some [OF l(2)] sub by auto
    then have "decode_record Z a = decode_record Z a'" using same by blast
    then show ?thesis using r r' l by (auto simp: domI)
  qed
  show "Get X Z s' k = Inl ObjNotFound" if "k \<notin> rec_key ` set L'"
    using r'(3) that dom_log_map [of L'] by (auto simp: domIff split: option.splits)
qed

lemma Compact_keeps:
  assumes "fuse_ok X" and "0 < procs" and "holds X s L" and "\<not> st_closed s" and "ids_ok s" and "names_ok s"
    and "unat (st_nextID s) + length L < 2 ^ 64"
    and "\<forall>r \<in> set L. \<forall>r' \<in> set L. rec_key r = rec_key r' \<longrightarrow> decode_record Z r = decode_record Z r'"
    and "Compact X H Z procs sched opts marked s = (e, s', st)"
  shows "(\<exists>L'. holds X s' L' \<and> set L' \<subseteq> set L) \<and> ids_ok s' \<and> names_ok s' \<and> st_grey s' = None \<and>
     (\<forall>k. is_key k \<and> or_grey (st_grey s) marked k \<longrightarrow> Has X s' k = Has X s k \<and> Get X Z s' k = Get X Z s k) \<and>
     (\<forall>k. is_key k \<longrightarrow> Get X Z s' k = Get X Z s k \<or> Get X Z s' k = Inl ObjNotFound)"
proof -
  obtain L' where o: "same_frame (snd (takeGrey s)) s'" "ids_ok s'" "names_ok s'" "holds X s' L'" "set L' \<subseteq> set L"
    "\<And>k. is_key k \<Longrightarrow> k \<in> rec_key ` set L \<and> or_grey (st_grey s) marked k \<Longrightarrow> k \<in> rec_key ` set L'"
    by (rule outcomeE [OF Compact_effect [OF assms(1,2,3,5,6,7,9)]]) (rule that; assumption)
  have op: "\<not> st_closed s'" and g: "st_grey s' = None" using o(1) assms(4) by (simp_all add: same_frame_def takeGrey_def)
  note r = reads_of_log [OF assms(3) o(4) assms(4) op o(5) assms(8)]
  have gone: "Has X s' k = Has X s k \<and> Get X Z s' k = Get X Z s k" if "is_key k" "k \<notin> rec_key ` set L" for k
  proof -
    have "k \<notin> dom (log_map L)" "k \<notin> dom (log_map L')" using that(2) o(5) by (auto simp only: dom_log_map)
    then show ?thesis by (simp add: holds_reads [OF assms(3,4) that(1)] holds_reads [OF o(4) op that(1)] domIff)
  qed
  show ?thesis
  proof (intro conjI allI impI)
    show "\<exists>L'. holds X s' L' \<and> set L' \<subseteq> set L" using o(4,5) by blast
    fix k assume k: "is_key k \<and> or_grey (st_grey s) marked k"
    show "Has X s' k = Has X s k" "Get X Z s' k = Get X Z s k"
      using k o(6) [of k] r(1) [of k] gone [of k] by blast+
  next
    fix k assume k: "is_key k"
    then show "Get X Z s' k = Get X Z s k \<or> Get X Z s' k = Inl ObjNotFound" using r [OF k] by blast
  qed (use o(2,3) g in simp_all)
qed

lemma Compact_exact:
  assumes "fuse_ok X" and "0 < procs" and "holds X s L" and "\<not> st_closed s" and "ids_ok s" and "names_ok s"
    and "unat (st_nextID s) + length L < 2 ^ 64" and "full_sweep opts"
    and "Compact X H Z procs sched opts marked s = (None, s', st)" and "is_key k"
  shows "Has X s' k = Inr (Has X s k = Inr True \<and> or_grey (st_grey s) marked k)"
proof -
  obtain L' where o: "same_frame (snd (takeGrey s)) s'" "holds X s' L'" "set L' \<subseteq> set L"
    "\<And>k. is_key k \<Longrightarrow> k \<in> rec_key ` set L \<and> or_grey (st_grey s) marked k \<Longrightarrow> k \<in> rec_key ` set L'"
    "\<And>k. is_key k \<Longrightarrow> k \<in> rec_key ` set L' \<Longrightarrow> (None :: ps_err option) = None \<and> full_sweep opts \<longrightarrow> or_grey (st_grey s) marked k"
    by (rule outcomeE [OF Compact_effect [OF assms(1,2,3,5,6,7,9)]]) (rule that; assumption)
  have op: "\<not> st_closed s'" using o(1) assms(4) by (simp add: same_frame_def takeGrey_def)
  have "k \<in> rec_key ` set L' \<longleftrightarrow> k \<in> rec_key ` set L \<and> or_grey (st_grey s) marked k"
    using o(3) o(4,5) [OF assms(10)] assms(8) by blast
  then show ?thesis
    by (simp add: holds_reads(1) [OF assms(3,4,10)] holds_reads(1) [OF o(2) op assms(10)] dom_log_map)
qed

section \<open>Properties\<close>

text \<open>C3: compaction never loses a live object. Whatever the collector marked, whatever order
  the pipeline's stages run in and whichever I/O calls fail, after \<open>Compact\<close> returns, with or
  without an error, the state again stores a log, every key that is marked or was written
  since the barrier began reads as before, and any other key reads as before or is gone.\<close>

theorem compact_keeps_live:
  assumes "fuse_ok X" and "0 < procs" and "holds X s L" and "\<not> st_closed s" and "ids_ok s" and "names_ok s"
    and "unat (st_nextID s) + length L < 2 ^ 64"
    and "\<forall>r \<in> set L. \<forall>r' \<in> set L. rec_key r = rec_key r' \<longrightarrow> decode_record Z r = decode_record Z r'"
    and "Compact X H Z procs sched opts marked s = (e, s', st)"
  shows "(\<exists>L'. holds X s' L' \<and> set L' \<subseteq> set L) \<and> ids_ok s' \<and> names_ok s' \<and> st_grey s' = None \<and>
     (\<forall>k. is_key k \<and> or_grey (st_grey s) marked k \<longrightarrow> Has X s' k = Has X s k \<and> Get X Z s' k = Get X Z s k) \<and>
     (\<forall>k. is_key k \<longrightarrow> Get X Z s' k = Get X Z s k \<or> Get X Z s' k = Inl ObjNotFound)"
  by (rule Compact_keeps [OF assms])

theorem compact_keeps_live_witness:
  "\<exists>s e s' st. Put all_filter rle_zstd wit_key [1, 2, 3, 4, 5] empty_store = (None, s) \<and>
     Compact all_filter (\<lambda>_. replicate 32 7) rle_zstd 1 [] \<lparr>co_reaches = (\<lambda>_ _. True), co_Horizon = None\<rparr> (\<lambda>k. k = wit_key) s = (e, s', st) \<and>
     Has all_filter s' wit_key = Inr True"
proof -
  have e: "\<not> st_closed empty_store" "ids_ok empty_store" "names_ok empty_store" "unat (st_nextID empty_store) + 1 < 2 ^ 64"
    by (simp_all add: empty_store_def ids_ok_def names_ok_def)
  obtain s where p: "Put all_filter rle_zstd wit_key [1, 2, 3, 4, 5] empty_store = (None, s)"
    using Put_calm [OF all_filter_ok all_filter_total empty_store_holds e(1) _ _ wit_key(1), of "[1, 2, 3, 4, 5]"]
    by (auto simp: empty_store_def empty_disk_def MaxPayload_def)
  from Put_log [OF all_filter_ok empty_store_holds e(1) wit_key(1) p] obtain new where
    "holds all_filter s ([] @ new)" "\<not> st_closed s" "new = [] \<or> (\<exists>rec. new = [rec])" "wit_key \<in> dom (log_map ([] @ new))" by blast
  then obtain L where L: "holds all_filter s L" "\<not> st_closed s" "length L \<le> 1" "wit_key \<in> dom (log_map L)" by force
  from Put_ids [OF all_filter_ok empty_store_holds wit_key(1) e(2,3,4) p]
  have i: "ids_ok s" "names_ok s" "unat (st_nextID s) + length L < 2 ^ 64" using L(3) by (auto simp: empty_store_def)
  obtain e s' st where c: "Compact all_filter (\<lambda>_. replicate 32 7) rle_zstd 1 [] \<lparr>co_reaches = (\<lambda>_ _. True), co_Horizon = None\<rparr> (\<lambda>k. k = wit_key) s = (e, s', st)"
    by (metis prod_cases3)
  have one: "\<forall>r \<in> set L. \<forall>r' \<in> set L. rec_key r = rec_key r' \<longrightarrow> decode_record rle_zstd r = decode_record rle_zstd r'"
    using L(3) by (cases L) auto
  from compact_keeps_live [OF all_filter_ok _ L(1,2) i one c]
  have "Has all_filter s' wit_key = Has all_filter s wit_key" using wit_key(2) by (auto simp: or_grey_def)
  then show ?thesis using p c holds_reads(1) [OF L(1,2) wit_key(2)] L(4) by auto
qed

text \<open>C15: a full sweep is exact. When every segment is eligible (none too young, any dead byte
  reaches the line) and \<open>Compact\<close> returns no error, the store afterwards has exactly the keys
  it had that are marked or grey.\<close>

theorem full_compact_exact:
  assumes "fuse_ok X" and "0 < procs" and "holds X s L" and "\<not> st_closed s" and "ids_ok s" and "names_ok s"
    and "unat (st_nextID s) + length L < 2 ^ 64" and "full_sweep opts"
    and "Compact X H Z procs sched opts marked s = (None, s', st)" and "is_key k"
  shows "Has X s' k = Inr (Has X s k = Inr True \<and> or_grey (st_grey s) marked k)"
  by (rule Compact_exact [OF assms])

theorem full_compact_exact_witness:
  "\<exists>s'. Compact all_filter (\<lambda>_. replicate 32 7) rle_zstd 1 [] \<lparr>co_reaches = (\<lambda>_ _. True), co_Horizon = None\<rparr> (\<lambda>_. False) empty_store = (None, s', no_stats) \<and>
     Has all_filter s' wit_key = Inr False"
proof -
  let ?opts = "\<lparr>co_reaches = (\<lambda>_ _. True), co_Horizon = None\<rparr>"
  obtain s' where c: "Compact all_filter (\<lambda>_. replicate 32 7) rle_zstd 1 [] ?opts (\<lambda>_. False) empty_store = (None, s', no_stats)"
    by (simp add: Compact_def takeGrey_def empty_store_def sealActiveLocked_def compact_sealed_def selectVictims_def no_stats_def)
  have e: "\<not> st_closed empty_store" "ids_ok empty_store" "names_ok empty_store"
    "unat (st_nextID empty_store) + length [] < 2 ^ 64" "full_sweep ?opts"
    by (simp_all add: empty_store_def ids_ok_def names_ok_def full_sweep_def no_horizon_def)
  from full_compact_exact [OF all_filter_ok _ empty_store_holds e c wit_key(2)] c show ?thesis by (auto simp: or_grey_def empty_store_def)
qed

end
