(* ===== verification/Amber_Marks.thy ===== *)
theory Amber_Marks
  imports Amber_Sweep
begin

text \<open>
  Mark sets against sets of keys: a mark set over a snapshot that stores a log behaves as a
  finite set of stored keys, since a key has one slot and a slot has one key.
\<close>

section \<open>Slots\<close>

lemma lookupPos_key: "fv_lookupPos fv k = Some p \<Longrightarrow> take 32 (drop (p * indexEntrySize) (fv_entries fv)) = k"
  by (auto simp: fv_lookupPos_def searchIndexPos_def Let_def split: if_splits)

lemma lookupPos_sealed:
  assumes g: "sealed_is X g L" and k: "is_key k"
  shows "case fv_lookupPos (sg_fv g) k of
      None \<Rightarrow> k \<notin> rec_key ` set L
    | Some p \<Rightarrow> k \<in> rec_key ` set L \<and> p < unat (fv_keyCount (sg_fv g)) \<and> Contains X (fv_filter (sg_fv g)) (filterKey k)"
proof -
  obtain es where e: "sealed_as X (body_of L) es g" using g by (auto simp: sealed_is_def)
  have w: "\<forall>e \<in> set es. is_key (ie_k e)" "length es < 2 ^ 32" "distinct (map ie_k es)" using e by (auto simp: sealed_as_def)
  have "k \<in> ie_k ` set es \<longleftrightarrow> k \<in> rec_key ` set L"
    using sealed_has [OF e k] sealed_is_reads(1) [OF g k] by (simp add: dom_log_map)
  moreover have "unat (fv_keyCount (sg_fv g)) = length es" using e by (auto simp: sealed_as_def fv_of_def unat_of_nat)
  moreover have "k \<in> ie_k ` set es \<Longrightarrow> Contains X (fv_filter (sg_fv g)) (filterKey k)"
    using e by (auto simp: sealed_as_def fv_of_def)
  moreover have "fv_lookupPos (sg_fv g) k = searchIndexPos (fanout_of (sort_entries es)) (index_rows (sort_entries es)) k"
    using e by (auto simp: sealed_as_def fv_of_def fv_lookupPos_def)
  moreover have "p < length es \<Longrightarrow> ie_k (sort_entries es ! p) \<in> ie_k ` set es" for p
    using nth_mem [of p "sort_entries es"] by simp
  ultimately show ?thesis using searchIndexPos_build [OF w k] by (auto split: option.splits)
qed

lemma mark_probe_Some:
  assumes "mark_probe X segs n k = Some sl"
  obtains i p where "sl = InSeg i p" "i < n" "fv_lookupPos (sg_fv (segs ! i)) k = Some p"
  using assms by (induction n) (auto simp: Let_def less_Suc_eq split: if_splits option.splits)

lemma mark_probe_None:
  "mark_probe X segs n k = None \<longleftrightarrow>
     (\<forall>i < n. \<not> (Contains X (fv_filter (sg_fv (segs ! i))) (filterKey k) \<and> fv_lookupPos (sg_fv (segs ! i)) k \<noteq> None))"
  by (induction n) (auto simp: Let_def less_Suc_eq split: if_splits option.splits)

section \<open>The invariant of a mark set\<close>

definition ms_inv :: "store \<Rightarrow> MarkSet \<Rightarrow> bool" where
  "ms_inv s m \<longleftrightarrow>
     ms_segs m = st_sealed s \<and>
     dom (map_of (ms_active m)) = {k. active_loc s k \<noteq> None} \<and>
     map length (ms_bits m) = map (\<lambda>g. unat ((fv_keyCount (sg_fv g) + 63) div 64)) (st_sealed s)"

lemma NewMarkSet_inv: "ms_inv s (NewMarkSet s)"
proof -
  have "dom (map_of (map (\<lambda>(k, _). (k, False)) xs)) = dom (map_of xs)" for xs :: "(key \<times> activeLoc) list"
    by (simp add: dom_map_of_conv_image_fst image_image case_prod_unfold)
  then show ?thesis
    by (cases "st_active s") (auto simp: ms_inv_def NewMarkSet_def active_loc_def split: option.splits)
qed

lemma locate_cong:
  "ms_inv s m \<Longrightarrow> ms_inv s m' \<Longrightarrow> ms_locate X m k = ms_locate X m' k"
  by (auto simp: ms_locate_def ms_inv_def domIff set_eq_iff)

text \<open>A located slot is in range.\<close>

definition slot_ok :: "MarkSet \<Rightarrow> key \<Rightarrow> mark_slot \<Rightarrow> bool" where
  "slot_ok m k sl \<longleftrightarrow>
     (case sl of
        InActive \<Rightarrow> map_of (ms_active m) k \<noteq> None
      | InSeg i p \<Rightarrow> i < length (ms_bits m) \<and> p div 64 < length (ms_bits m ! i) \<and> fv_lookupPos (sg_fv (ms_segs m ! i)) k = Some p)"

lemma locate_present:
  assumes h: "holds X s L" and op: "\<not> st_closed s" and m: "ms_inv s m" and k: "is_key k"
  shows "case ms_locate X m k of None \<Rightarrow> Has X s k = Inr False | Some sl \<Rightarrow> Has X s k = Inr True \<and> slot_ok m k sl"
proof -
  obtain RS RA where c: "cut_into (st_failed s = None) X s RS RA" using h unfolding holds_def holds_with_def by blast
  have S: "list_all2 (sealed_is X) (st_sealed s) RS" using c by (simp add: cut_into_def)
  have seg: "sealed_is X (st_sealed s ! i) (RS ! i)" if "i < length (st_sealed s)" for i
    using S that by (simp add: list_all2_conv_all_nth)
  have len: "length (ms_bits m) = length (st_sealed s)" using m by (auto simp: ms_inv_def dest: map_eq_imp_length_eq)
  have room: "p div 64 < length (ms_bits m ! i)"
    if i: "i < length (st_sealed s)" and p: "p < unat (fv_keyCount (sg_fv (st_sealed s ! i)))" for i p
  proof -
    let ?kc = "fv_keyCount (sg_fv (st_sealed s ! i))"
    obtain es where "sealed_as X (body_of (RS ! i)) es (st_sealed s ! i)" using seg [OF i] by (auto simp: sealed_is_def)
    then have "unat ?kc < 2 ^ 32" by (auto simp: sealed_as_def fv_of_def unat_of_nat)
    then have "unat ((?kc + 63) div 64) = (unat ?kc + 63) div 64" by (simp add: unat_div unat_word_ariths)
    moreover have "length (ms_bits m ! i) = unat ((?kc + 63) div 64)"
      using m i len by (auto simp: ms_inv_def list_eq_iff_nth_eq)
    ultimately show ?thesis using p by simp
  qed
  have act: "map_of (ms_active m) k \<noteq> None \<longleftrightarrow> active_loc s k \<noteq> None" using m by (auto simp: ms_inv_def domIff set_eq_iff)
  have has: "Has X s k = Inr (active_loc s k \<noteq> None \<or> (\<exists>i < length (st_sealed s). seg_has X (st_sealed s ! i) k))"
  proof -
    have ex: "list_ex P (rev xs) \<longleftrightarrow> (\<exists>i < length xs. P (xs ! i))" for P and xs :: "sealedSegment list"
      unfolding list_ex_iff set_rev by (metis in_set_conv_nth)
    show ?thesis unfolding Has_def ex using op by simp
  qed
  have sh: "seg_has X (st_sealed s ! i) k \<longleftrightarrow>
      Contains X (fv_filter (sg_fv (st_sealed s ! i))) (filterKey k) \<and> fv_lookupPos (sg_fv (st_sealed s ! i)) k \<noteq> None"
    if "i < length (st_sealed s)" for i
    using lookupPos_sealed [OF seg [OF that] k] sealed_is_reads(1) [OF seg [OF that] k]
    by (auto simp: dom_log_map split: option.splits)
  show ?thesis
  proof (cases "map_of (ms_active m) k \<noteq> None")
    case True
    then show ?thesis using has act by (simp add: ms_locate_def slot_ok_def)
  next
    case False
    then have na: "active_loc s k = None" using act by blast
    have loc: "ms_locate X m k = mark_probe X (st_sealed s) (length (st_sealed s)) k"
      using False m by (simp add: ms_locate_def ms_inv_def)
    show ?thesis
    proof (cases "mark_probe X (st_sealed s) (length (st_sealed s)) k")
      case None
      then have "\<not> (\<exists>i < length (st_sealed s). seg_has X (st_sealed s ! i) k)" using sh by (auto simp: mark_probe_None)
      then show ?thesis using has na None loc by simp
    next
      case (Some sl)
      then obtain i p where i: "sl = InSeg i p" "i < length (st_sealed s)" "fv_lookupPos (sg_fv (st_sealed s ! i)) k = Some p"
        by (rule mark_probe_Some)
      have l: "p < unat (fv_keyCount (sg_fv (st_sealed s ! i)))" "Contains X (fv_filter (sg_fv (st_sealed s ! i))) (filterKey k)"
        using lookupPos_sealed [OF seg [OF i(2)] k] i(3) by auto
      then have "Has X s k = Inr True" using has sh [OF i(2)] i(2,3) by auto
      moreover have "slot_ok m k sl" using i l room m len by (simp add: slot_ok_def ms_inv_def)
      ultimately show ?thesis using Some loc by simp
    qed
  qed
qed

section \<open>Setting a slot\<close>

lemma bit_set: "b < 64 \<Longrightarrow> bit ((w :: u64) OR push_bit b 1) n \<longleftrightarrow> bit w n \<or> n = b"
  by (auto simp: bit_simps)

lemma bit_test: "(w :: u64) AND 2 ^ n = 0 \<longleftrightarrow> \<not> bit w n"
  by (simp add: bit_iff_and_push_bit_not_eq_0)

lemma slot_marked_set:
  assumes "slot_ok m k sl" and "slot_ok m k' sl'" and "k' = k \<longrightarrow> sl' = sl"
  shows "slot_marked (set_slot m k sl) k' sl' \<longleftrightarrow> slot_marked m k' sl' \<or> k' = k"
proof (cases sl)
  case InActive
  then show ?thesis using assms
    by (cases sl') (auto simp: slot_marked_def set_slot_def update_conv' slot_ok_def)
next
  case (InSeg i p)
  show ?thesis
  proof (cases sl')
    case act: InActive
    then show ?thesis using assms InSeg by (auto simp: slot_marked_def set_slot_def)
  next
    case seg: (InSeg i' p')
    have same: "i' = i \<Longrightarrow> p' = p \<Longrightarrow> k' = k" 
      using assms(1,2) InSeg seg lookupPos_key [of "sg_fv (ms_segs m ! i)" k p] lookupPos_key [of "sg_fv (ms_segs m ! i)" k' p]
      by (simp add: slot_ok_def)
    have d: "p = p' \<longleftrightarrow> p div 64 = p' div 64 \<and> p mod 64 = p' mod 64" by (metis div_mult_mod_eq)
    have b: "i < length (ms_bits m)" "p div 64 < length (ms_bits m ! i)" using assms(1) InSeg by (simp_all add: slot_ok_def)
    show ?thesis
    proof (cases "i' = i \<and> p' div 64 = p div 64")
      case True
      then have "slot_marked (set_slot m k sl) k' sl' \<longleftrightarrow> slot_marked m k' sl' \<or> p' mod 64 = p mod 64"
        using b bit_set [of "p mod 64" "ms_bits m ! i ! (p div 64)" "p' mod 64"]
        by (simp add: slot_marked_def set_slot_def InSeg seg bit_test)
      moreover have "p' mod 64 = p mod 64 \<longleftrightarrow> k' = k" using same d True assms(3) InSeg seg by auto
      ultimately show ?thesis by simp
    next
      case False
      then have "slot_marked (set_slot m k sl) k' sl' \<longleftrightarrow> slot_marked m k' sl'"
        using b by (cases "i' = i") (auto simp: slot_marked_def set_slot_def InSeg seg)
      moreover have "k' \<noteq> k" using False assms(3) InSeg seg by auto
      ultimately show ?thesis by simp
    qed
  qed
qed

lemma set_slot_inv:
  assumes m: "ms_inv s m" and ok: "slot_ok m k sl"
  shows "ms_inv s (set_slot m k sl)"
proof (cases sl)
  case InActive
  then show ?thesis using assms by (simp add: ms_inv_def set_slot_def slot_ok_def update_conv') (auto simp: insert_absorb domIff set_eq_iff)
next
  case (InSeg i p)
  have "map length ((ms_bits m)[i := (ms_bits m ! i)[p div 64 := w]]) = map length (ms_bits m)" for w
    using ok InSeg by (intro nth_equalityI) (auto simp: slot_ok_def nth_list_update)
  then show ?thesis using m InSeg by (simp add: ms_inv_def set_slot_def)
qed

lemma Mark_step:
  assumes h: "holds X s L" and op: "\<not> st_closed s" and m: "ms_inv s m" and k: "is_key k"
    and q: "Mark X m k = ((newly, present), m')"
  shows "present = (Has X s k = Inr True)" and "newly = (Has X s k = Inr True \<and> \<not> ms_Contains X m k)"
    and "ms_inv s m'" and "ms_marked m' = ms_marked m + of_bool newly"
    and "is_key k' \<Longrightarrow> ms_Contains X m' k' \<longleftrightarrow> ms_Contains X m k' \<or> k' = k \<and> Has X s k = Inr True"
proof -
  note loc = locate_present [OF h op m k]
  have "present = (Has X s k = Inr True) \<and> newly = (Has X s k = Inr True \<and> \<not> ms_Contains X m k) \<and>
     ms_inv s m' \<and> ms_marked m' = ms_marked m + of_bool newly \<and>
     (is_key k' \<longrightarrow> ms_Contains X m' k' \<longleftrightarrow> ms_Contains X m k' \<or> k' = k \<and> Has X s k = Inr True)"
  proof (cases "ms_locate X m k")
    case None
    then show ?thesis using q loc m by (auto simp: Mark_def)
  next
    case (Some sl)
    let ?m = "set_slot m k sl"
    have ok: "slot_ok m k sl" and has: "Has X s k = Inr True" using loc Some by simp_all
    have m': "m' = (if newly then ?m\<lparr>ms_marked := ms_marked m + 1\<rparr> else ?m)" "present" "newly = (\<not> slot_marked m k sl)"
      using q Some by (auto simp: Mark_def Let_def)
    have inv: "ms_inv s ?m" by (rule set_slot_inv [OF m ok])
    then have inv': "ms_inv s m'" using m'(1) by (simp add: ms_inv_def)
    have cnt: "ms_marked ?m = ms_marked m" by (simp add: set_slot_def split: mark_slot.splits)
    have mk: "slot_marked m' k' sl' = slot_marked ?m k' sl'" for k' sl' using m'(1) by (simp add: slot_marked_def split: mark_slot.splits)
    have "ms_Contains X m' k' \<longleftrightarrow> ms_Contains X m k' \<or> k' = k" if "is_key k'"
    proof (cases "ms_locate X m k'")
      case None
      then show ?thesis using locate_cong [OF inv' m] Some by (auto simp: ms_Contains_def)
    next
      case s': (Some sl')
      have "slot_ok m k' sl'" using locate_present [OF h op m that] s' by simp
      moreover have "k' = k \<longrightarrow> sl' = sl" using s' Some by auto
      ultimately have "slot_marked ?m k' sl' \<longleftrightarrow> slot_marked m k' sl' \<or> k' = k" by (rule slot_marked_set [OF ok])
      then show ?thesis using s' locate_cong [OF inv' m] by (simp add: ms_Contains_def mk)
    qed
    then show ?thesis using m' has inv' cnt Some by (auto simp: ms_Contains_def)
  qed
  then show "present = (Has X s k = Inr True)" and "newly = (Has X s k = Inr True \<and> \<not> ms_Contains X m k)"
    and "ms_inv s m'" and "ms_marked m' = ms_marked m + of_bool newly"
    and "is_key k' \<Longrightarrow> ms_Contains X m' k' \<longleftrightarrow> ms_Contains X m k' \<or> k' = k \<and> Has X s k = Inr True"
    by blast+
qed

definition mark_all :: "xorfilter \<Rightarrow> key list \<Rightarrow> MarkSet \<Rightarrow> MarkSet" where
  "mark_all X ks m = fold (\<lambda>k m. snd (Mark X m k)) ks m"

lemma mark_all_inv:
  assumes h: "holds X s L" and op: "\<not> st_closed s" and ks: "\<forall>k \<in> set ks. is_key k"
  shows "ms_inv s (mark_all X ks (NewMarkSet s)) \<and>
     (\<forall>k. is_key k \<longrightarrow> (ms_Contains X (mark_all X ks (NewMarkSet s)) k \<longleftrightarrow> k \<in> set ks \<and> Has X s k = Inr True)) \<and>
     ms_marked (mark_all X ks (NewMarkSet s)) = card {k \<in> set ks. Has X s k = Inr True}"
  using ks
proof (induction ks rule: rev_induct)
  case Nil
  have none: "\<not> slot_marked (NewMarkSet s) k sl" if "slot_ok (NewMarkSet s) k sl" for k sl
    using that
    by (auto simp: slot_ok_def slot_marked_def NewMarkSet_def nth_replicate
        dest!: map_of_SomeD split: mark_slot.splits option.splits)
  have "\<not> ms_Contains X (NewMarkSet s) k" if "is_key k" for k
    using locate_present [OF h op NewMarkSet_inv that] none by (auto simp: ms_Contains_def split: option.splits)
  then show ?case using NewMarkSet_inv by (simp add: mark_all_def) (simp add: NewMarkSet_def)
next
  case (snoc k ks)
  let ?m = "mark_all X ks (NewMarkSet s)"
  have k: "is_key k" and ih: "ms_inv s ?m" "\<And>k. is_key k \<Longrightarrow> (ms_Contains X ?m k \<longleftrightarrow> k \<in> set ks \<and> Has X s k = Inr True)"
    "ms_marked ?m = card {k \<in> set ks. Has X s k = Inr True}" using snoc by simp_all
  obtain n pr m' where q: "Mark X ?m k = ((n, pr), m')" by (metis prod.exhaust)
  note st = Mark_step [OF h op ih(1) k q]
  have m': "mark_all X (ks @ [k]) (NewMarkSet s) = m'" using q by (simp add: mark_all_def)
  have "{x \<in> set (ks @ [k]). Has X s x = Inr True} =
      (if Has X s k = Inr True then insert k {x \<in> set ks. Has X s x = Inr True} else {x \<in> set ks. Has X s x = Inr True})"
    by auto
  then have "ms_marked m' = card {x \<in> set (ks @ [k]). Has X s x = Inr True}"
    using st(2,4) ih(2) [OF k] ih(3) by (simp add: card_insert_if)
  then show ?case unfolding m' using st(3,5) ih(2) by auto
qed

section \<open>Property\<close>

text \<open>C22: a mark set is a set of stored keys. On a snapshot of a store that stores a log, after
  marking any keys in any order, the marked keys are exactly the stored ones among them,
  \<open>Marked\<close> counts each once, and \<open>Mark\<close> of a further key tells whether it was unmarked and
  whether it is stored: the bit arrays never confuse two keys, also across segments.\<close>

theorem mark_set_exact:
  assumes "holds X s L" and "\<not> st_closed s" and "\<forall>k \<in> set ks. is_key k" and "is_key k"
  shows "(ms_Contains X (mark_all X ks (NewMarkSet s)) k \<longleftrightarrow> k \<in> set ks \<and> Has X s k = Inr True) \<and>
     ms_marked (mark_all X ks (NewMarkSet s)) = card {k \<in> set ks. Has X s k = Inr True} \<and>
     fst (Mark X (mark_all X ks (NewMarkSet s)) k) = (Has X s k = Inr True \<and> k \<notin> set ks, Has X s k = Inr True)"
proof -
  let ?m = "mark_all X ks (NewMarkSet s)"
  note inv = mark_all_inv [OF assms(1,2,3)]
  obtain n pr m' where q: "Mark X ?m k = ((n, pr), m')" by (metis prod.exhaust)
  show ?thesis using inv assms(4) Mark_step(1,2) [OF assms(1,2) _ assms(4) q] by (auto simp: q)
qed

theorem mark_set_exact_witness:
  "\<exists>s. Put all_filter rle_zstd wit_key [1, 2, 3, 4, 5] empty_store = (None, s) \<and>
     ms_Contains all_filter (mark_all all_filter [wit_key, wit_key] (NewMarkSet s)) wit_key \<and>
     ms_marked (mark_all all_filter [wit_key, wit_key] (NewMarkSet s)) = 1"
proof -
  have e: "\<not> st_closed empty_store" by (simp add: empty_store_def)
  obtain s where p: "Put all_filter rle_zstd wit_key [1, 2, 3, 4, 5] empty_store = (None, s)"
    using Put_calm [OF all_filter_ok all_filter_total empty_store_holds e _ _ wit_key(1), of "[1, 2, 3, 4, 5]"]
    by (auto simp: empty_store_def empty_disk_def MaxPayload_def)
  from Put_log [OF all_filter_ok empty_store_holds e wit_key(1) p] obtain L where
    L: "holds all_filter s L" "\<not> st_closed s" "wit_key \<in> dom (log_map L)" by blast
  have "Has all_filter s wit_key = Inr True" using holds_reads(1) [OF L(1,2) wit_key(2)] L(3) by simp
  moreover have "{k \<in> set [wit_key, wit_key]. Has all_filter s k = Inr True} = {wit_key}" using calculation by auto
  ultimately show ?thesis
    using mark_set_exact [OF L(1,2) _ wit_key(2), of "[wit_key, wit_key]"] p wit_key(2) by simp
qed

end
