(* ===== verification/Amber_Scrub.thy ===== *)
theory Amber_Scrub
  imports Amber_Sweep
begin

text \<open>
  What a clean scrub shows: the index section of the segment is the one its body determines,
  so each key that a lookup finds is a record the walk decoded and rehashed.
\<close>

definition row_verified :: "(bytes \<Rightarrow> bytes) \<Rightarrow> zstd \<Rightarrow> sealedSegment \<Rightarrow> indexEntry \<Rightarrow> bool" where
  "row_verified H Z g e \<longleftrightarrow>
     8 \<le> unat (ie_off e) \<and> unat (ie_off e) + 46 + unat (ie_slen e) \<le> seg_bodyLen g \<and> is_key (ie_k e) \<and>
     (let h = slice (unat (ie_off e)) (unat (ie_off e) + 46) (sg_mm g) in
      \<exists>payload. DecodePayload Z (h ! 33) (Uint32 (slice 34 38 h))
          (slice (unat (ie_off e) + 46) (unat (ie_off e) + 46 + unat (ie_slen e)) (sg_mm g)) = Inr payload \<and>
        verifyObject H (ie_k e) payload = None)"

lemma verify_step:
  assumes mm: "seg_bodyLen g \<le> length (sg_mm g)" "length (sg_mm g) < 2 ^ 63" and off: "8 \<le> off" "off < seg_bodyLen g"
    and rec: "ParseRecord (slice off (seg_bodyLen g) (sg_mm g)) = Inr rec"
    and dec: "DecodePayload Z (Rec_Flags rec) (Rec_Ulen rec)
        (slice (off + RecHeaderSize) (off + RecHeaderSize + unat (Rec_Slen rec)) (sg_mm g)) = Inr payload"
    and ver: "verifyObject H (Rec_Key rec) payload = None"
  shows "row_verified H Z g \<lparr>ie_k = Rec_Key rec, ie_off = of_nat off, ie_slen = Rec_Slen rec\<rparr>"
proof -
  let ?b = "slice off (seg_bodyLen g) (sg_mm g)" and ?h = "slice off (off + 46) (sg_mm g)"
  note p = ParseRecord_ok [OF rec]
  have len: "46 + unat (Rec_Slen rec) \<le> seg_bodyLen g - off" using p(1) mm by simp
  have u: "unat (of_nat off :: u64) = off" using off mm by (simp add: unat_of_nat)
  have sl: "slice a c ?h = slice a c ?b" if "c \<le> 46" for a c
    using that len by (simp add: slice_def drop_take take_take min_def)
  have "?h ! 33 = ?b ! 33" using len by (simp add: slice_def)
  then have h: "?h ! 33 = Rec_Flags rec" "Uint32 (slice 34 38 ?h) = Rec_Ulen rec" using p(5,6) sl by simp_all
  have k: "is_key (Rec_Key rec)" using p(4) by (simp add: canonical_def)
  have d: "DecodePayload Z (?h ! 33) (Uint32 (slice 34 38 ?h)) (slice (off + 46) (off + 46 + unat (Rec_Slen rec)) (sg_mm g)) = Inr payload"
    using dec unfolding h by (simp add: RecHeaderSize_def)
  show ?thesis using len off k d ver unfolding row_verified_def Let_def by (simp add: u)
qed

lemma verify_walk_rows:
  assumes mm: "seg_bodyLen g \<le> length (sg_mm g)" "length (sg_mm g) < 2 ^ 63"
  shows "8 \<le> off \<Longrightarrow> verify_walk ctx H X Z g off es = Inr (off', es') \<Longrightarrow> \<forall>e \<in> set es. row_verified H Z g e \<Longrightarrow>
     length es \<le> off \<Longrightarrow> (\<forall>e \<in> set es'. row_verified H Z g e) \<and> length es' \<le> max off (seg_bodyLen g)"
proof (induction "seg_bodyLen g - off" arbitrary: off es rule: less_induct)
  case less
  show ?case
  proof (cases "off < seg_bodyLen g")
    case False
    then have "es' = es" using less.prems(2) by (subst (asm) verify_walk.simps) simp
    then show ?thesis using less.prems(3,4) by simp
  next
    case True
    obtain rec payload where rec: "ParseRecord (slice off (seg_bodyLen g) (sg_mm g)) = Inr rec"
      and dec: "DecodePayload Z (Rec_Flags rec) (Rec_Ulen rec)
        (slice (off + RecHeaderSize) (off + RecHeaderSize + unat (Rec_Slen rec)) (sg_mm g)) = Inr payload"
      and ver: "verifyObject H (Rec_Key rec) payload = None"
      and go: "verify_walk ctx H X Z g (off + RecHeaderSize + unat (Rec_Slen rec))
        (es @ [\<lparr>ie_k = Rec_Key rec, ie_off = of_nat off, ie_slen = Rec_Slen rec\<rparr>]) = Inr (off', es')"
      using less.prems(2) True by (subst (asm) verify_walk.simps) (auto split: if_splits sum.splits option.splits)
    have row: "row_verified H Z g \<lparr>ie_k = Rec_Key rec, ie_off = of_nat off, ie_slen = Rec_Slen rec\<rparr>"
      by (rule verify_step [OF mm less.prems(1) True rec dec ver])
    have "off + 46 + unat (Rec_Slen rec) \<le> seg_bodyLen g" using ParseRecord_ok(1) [OF rec] mm True by simp
    then show ?thesis using less.hyps [OF _ _ go] less.prems(1,3,4) row True by (simp add: RecHeaderSize_def max_def)
  qed
qed

text \<open>A row of an index built from verified entries is one of them.\<close>

lemma built_lookup:
  assumes es: "\<forall>e \<in> set es. is_key (ie_k e)"
    and p: "searchIndexPos fan (index_rows (sort_entries es)) k = Some p" "p < length es"
  shows "\<exists>e \<in> set es. ie_k e = k \<and> searchIndex fan (index_rows (sort_entries es)) k = Some (ie_off e, ie_slen e)"
proof -
  let ?ss = "sort_entries es"
  have ks: "\<forall>e \<in> set ?ss. is_key (ie_k e)" and i: "p < length ?ss" using es p(2) by simp_all
  have k: "is_key (ie_k (?ss ! p))" using ks nth_mem [OF i] by blast
  have row: "drop (p * indexEntrySize) (index_rows ?ss) = entry_row (?ss ! p) @ index_rows (drop (Suc p) ?ss)"
    using index_row_at [OF ks i] by (simp add: indexEntrySize_def)
  have "take 32 (drop (p * indexEntrySize) (index_rows ?ss)) = k"
    using p(1) by (auto simp: searchIndexPos_def Let_def split: if_splits)
  then have "ie_k (?ss ! p) = k" using row row_fields(1) [OF k] by simp
  moreover have "searchIndex fan (index_rows ?ss) k = Some (ie_off (?ss ! p), ie_slen (?ss ! p))"
    using p(1) row row_fields(2,3) [OF k] by (simp add: searchIndex_def Let_def)
  moreover have "?ss ! p \<in> set es" using nth_mem [OF i] by simp
  ultimately show ?thesis by blast
qed

lemma parseFooter_section:
  assumes "parseFooter mm = Inr fv" and "length mm < 2 ^ 63"
  shows "parseIndexSection (slice (unat (fv_indexOff fv)) (unat (fv_indexOff fv + fv_indexLen fv)) mm) (fv_keyCount fv) =
      Inr (fv_fanout fv, fv_entries fv)" "unat (fv_bodyLen fv) \<le> length mm" "unat (fv_keyCount fv) < 2 ^ 32" "8 \<le> unat (fv_bodyLen fv)"
proof -
  have l: "unat (of_nat (length mm) :: u64) = length mm" using assms(2) by (simp add: unat_of_nat)
  have f: "parseIndexSection (slice (unat (fv_indexOff fv)) (unat (fv_indexOff fv + fv_indexLen fv)) mm) (fv_keyCount fv) =
      Inr (fv_fanout fv, fv_entries fv) \<and> \<not> fv_bodyLen fv \<ge> of_nat (length mm) \<and> \<not> fv_keyCount fv > 0xFFFFFFFF \<and>
      \<not> fv_bodyLen fv < of_nat (length magicHeader)"
    using assms(1) unfolding parseFooter_def Let_def
    by (auto split: if_splits sum.splits prod.splits)
  then show "parseIndexSection (slice (unat (fv_indexOff fv)) (unat (fv_indexOff fv + fv_indexLen fv)) mm) (fv_keyCount fv) =
      Inr (fv_fanout fv, fv_entries fv)" by blast
  show "unat (fv_bodyLen fv) \<le> length mm" using f l by (simp add: word_le_nat_alt not_le)
  show "unat (fv_keyCount fv) < 2 ^ 32" using f by (simp add: word_less_nat_alt not_less)
  show "8 \<le> unat (fv_bodyLen fv)" using f by (simp add: word_less_nat_alt not_less magicHeader_def)
qed

lemma scrubbed_row:
  assumes o: "openSealed path sid mm = Inr g" and mm: "length mm < 2 ^ 63" and v: "seg_verify ctx H X Z g = None"
    and l: "fv_lookup (sg_fv g) k = Some (off, slen)"
  shows "row_verified H Z g \<lparr>ie_k = k, ie_off = off, ie_slen = slen\<rparr>"
proof -
  have g: "sg_mm g = mm" "parseFooter mm = Inr (sg_fv g)" using o by (auto simp: openSealed_def split: if_splits sum.splits)
  note f = parseFooter_section [OF g(2) mm]
  have body: "seg_bodyLen g \<le> length (sg_mm g)" "length (sg_mm g) < 2 ^ 63" using f(2) mm by (simp_all add: g(1) seg_bodyLen_def)
  obtain off' es where w: "verify_walk ctx H X Z g (length magicHeader) [] = Inr (off', es)"
    and cnt: "(of_nat (length es) :: u64) = fv_keyCount (sg_fv g)"
    and idx: "buildIndexSection es = slice (unat (fv_indexOff (sg_fv g))) (unat (fv_indexOff (sg_fv g) + fv_indexLen (sg_fv g))) mm"
    using v by (auto simp: seg_verify_def g(1) split: sum.splits if_splits)
  from verify_walk_rows [OF body _ w] have rows: "\<forall>e \<in> set es. row_verified H Z g e" "length es \<le> max 8 (seg_bodyLen g)" by simp_all
  have keys: "\<forall>e \<in> set es. is_key (ie_k e)" using rows(1) by (simp add: row_verified_def)
  have "length es < 2 ^ 63" using rows(2) body f(4) by (simp add: seg_bodyLen_def max_def split: if_splits)
  then have n: "length es = unat (fv_keyCount (sg_fv g))" by (simp add: cnt [symmetric] unat_of_nat)
  have p: "fv_fanout (sg_fv g) = fanout_of (sort_entries es)" "fv_entries (sg_fv g) = index_rows (sort_entries es)"
    using f(1,3) parseIndexSection_build [OF keys] n cnt by (simp_all add: idx [symmetric])
  obtain q where q: "fv_lookupPos (sg_fv g) k = Some q"
    using l by (auto simp: fv_lookup_def fv_lookupPos_def searchIndex_def split: option.splits)
  have "q < length es" using parsed_index [OF g(2) mm] q n by auto
  with built_lookup [OF keys, of "fv_fanout (sg_fv g)" k q] q l p obtain e where
    e: "e \<in> set es" "ie_k e = k" "ie_off e = off" "ie_slen e = slen" by (auto simp: fv_lookup_def fv_lookupPos_def)
  have "\<lparr>ie_k = k, ie_off = off, ie_slen = slen\<rparr> = e" using e(2-4) by (cases e) simp
  then show ?thesis using rows(1) e(1) by simp
qed

lemma row_get:
  assumes o: "openSealed path sid mm = Inr g" and v: "row_verified H Z g \<lparr>ie_k = k, ie_off = off, ie_slen = slen\<rparr>"
    and c: "Contains X (fv_filter (sg_fv g)) (filterKey k)" and l: "fv_lookup (sg_fv g) k = Some (off, slen)"
  shows "\<exists>data. seg_get X Z g k = Inr (Some data) \<and> verifyObject H k data = None"
proof -
  have b: "8 \<le> unat off" "unat off + 46 + unat slen \<le> seg_bodyLen g" using v by (simp_all add: row_verified_def)
  have "seg_bounds_ok g off slen" by (rule bounds_ok [OF _ b]) (simp add: seg_bodyLen_def)
  then show ?thesis using v c l by (auto simp: seg_get_def row_verified_def Let_def RecHeaderSize_def)
qed

section \<open>Segments the store writes\<close>

definition rec_verifies :: "(bytes \<Rightarrow> bytes) \<Rightarrow> zstd \<Rightarrow> bytes \<Rightarrow> bool" where
  "rec_verifies H Z r \<longleftrightarrow> (\<exists>payload. decode_record Z r = Inr payload \<and> verifyObject H (rec_key r) payload = None)"

lemma walk_log:
  assumes "\<forall>r \<in> set L. whole r \<and> rec_verifies H Z r \<and> Contains X (fv_filter (sg_fv g)) (filterKey (rec_key r))"
    and "sg_mm g = pre @ concat L @ rest" and "seg_bodyLen g = length (pre @ concat L)"
  shows "verify_walk (\<lambda>_. False) H X Z g (length pre) es = Inr (length (pre @ concat L), es @ entries_of (locs (length pre) L))"
  using assms
proof (induction L arbitrary: pre es)
  case Nil
  then show ?case by (subst verify_walk.simps) (simp add: entries_of_def)
next
  case (Cons r L)
  have w: "whole r" using Cons.prems(1) by simp
  obtain h where h: "whole_record r h" using w by (auto simp: whole_def)
  have pr: "ParseRecord r = Inr h" and len: "length r = 46 + unat (Rec_Slen h)" using h by (simp_all add: whole_record_def)
  note f = ParseRecord_ok [OF pr]
  have "slice (length pre) (seg_bodyLen g) (sg_mm g) = r @ concat L"
    using slice_middle [of pre "r @ concat L" rest] Cons.prems(2,3) by simp
  then have p: "ParseRecord (slice (length pre) (seg_bodyLen g) (sg_mm g)) = Inr h" using whole_record_parse [OF h] by simp
  have "slice (length pre + 46) (length pre + 46 + unat (Rec_Slen h)) (sg_mm g) = drop 46 r"
    using len Cons.prems(2) by (simp add: slice_def)
  then obtain payload where d: "DecodePayload Z (Rec_Flags h) (Rec_Ulen h)
      (slice (length pre + RecHeaderSize) (length pre + RecHeaderSize + unat (Rec_Slen h)) (sg_mm g)) = Inr payload"
    "verifyObject H (Rec_Key h) payload = None"
    using Cons.prems(1) f(3,5,6) by (auto simp: rec_verifies_def decode_record_def rec_key_def RecHeaderSize_def)
  have c: "Contains X (fv_filter (sg_fv g)) (filterKey (Rec_Key h))" using Cons.prems(1) f(3) by (simp add: rec_key_def)
  have lt: "length pre < seg_bodyLen g" using Cons.prems(3) len by simp
  have row: "entries_of [(rec_key r, loc_at (length pre) r)] = [\<lparr>ie_k = Rec_Key h, ie_off = of_nat (length pre), ie_slen = Rec_Slen h\<rparr>]"
    using f(3,7) by (simp add: entries_of_def loc_at_def rec_key_def)
  have "verify_walk (\<lambda>_. False) H X Z g (length pre) es =
      verify_walk (\<lambda>_. False) H X Z g (length (pre @ r)) (es @ entries_of [(rec_key r, loc_at (length pre) r)])"
    unfolding row by (subst verify_walk.simps) (simp add: lt p d c, simp add: len RecHeaderSize_def add.assoc)
  also have "\<dots> = Inr (length ((pre @ r) @ concat L),
      (es @ entries_of [(rec_key r, loc_at (length pre) r)]) @ entries_of (locs (length (pre @ r)) L))"
    by (rule Cons.IH) (use Cons.prems in auto)
  finally show ?case by (simp add: entries_of_def)
qed

lemma index_perm:
  assumes "mset es = mset es'" and "distinct (map ie_k es)"
  shows "buildIndexSection es = buildIndexSection es'"
proof -
  have "inj_on (\<lambda>e. (ie_k e ! 31) # ie_k e) (set es)" using assms(2) by (auto simp: distinct_map inj_on_def)
  then show ?thesis using SortFunc_perm [OF compareEntries_key assms(1)] by (simp add: buildIndexSection_def)
qed

lemma written_scrubs:
  assumes X: "fuse_ok X" and L: "\<forall>r \<in> set L. whole r \<and> rec_verifies H Z r" and d: "distinct (map rec_key L)"
    and es: "mset es = mset (entries_of (locs 8 L))" and f: "buildFooter X (length (body_of L)) es = Inr footer"
    and small: "length (body_of L) \<le> 2 ^ 37" "length (body_of L @ footer) < 2 ^ 63"
  shows "\<exists>g. openSealed path sid (body_of L @ footer) = Inr g \<and> seg_verify (\<lambda>_. False) H X Z g = None"
proof -
  let ?rows = "entries_of (locs 8 L)"
  have wh: "\<forall>r \<in> set L. whole r" using L by blast
  have ks: "map fst (locs n M) = map rec_key M" for n M by (induction M arbitrary: n) auto
  have rk: "map ie_k ?rows = map rec_key L" by (simp add: entries_of_keys ks)
  have set_es: "set es = set ?rows" and len_es: "length es = length L"
    using arg_cong [OF es, of set_mset] arg_cong [OF es, of size] by (simp_all add: entries_of_def)
  have ek: "ie_k ` set es = rec_key ` set L" using arg_cong [OF rk, of set] set_es by simp
  have de: "distinct (map ie_k es)" using d es rk by (metis mset_eq_imp_distinct_iff mset_map)
  have keys: "\<forall>e \<in> set es. is_key (ie_k e)" using ek wh whole_key by (metis image_eqI imageE)
  have n: "length es < 2 ^ 32" using log_size [OF wh] small(1) len_es by (simp add: length_body_of)
  have hd8: "take 8 (body_of L) = magicHeader" using take_body_of [of L "[]"] by simp
  obtain fu where p: "parseFooter (body_of L @ footer) = Inr (fv_of (length (body_of L)) es fu)"
    "\<forall>e \<in> set es. Contains X fu (filterKey (ie_k e))" "min_sealed \<le> length (body_of L @ footer)"
    using parseFooter_build [OF X f hd8 keys n] small(2) by auto
  let ?g = "\<lparr>sg_id = sid, sg_path = path, sg_mm = body_of L @ footer, sg_fv = fv_of (length (body_of L)) es fu\<rparr>"
  obtain rest where ft: "footer = tagSeal # buildIndexSection es @ rest" by (rule buildFooter_parts [OF f]) (rule that)
  have bl: "seg_bodyLen ?g = length (body_of L)" using small(1) by (simp add: seg_bodyLen_def fv_of_def unat_of_nat)
  have cont: "Contains X fu (filterKey (rec_key r))" if "r \<in> set L" for r using p(2) ek that by (metis imageE image_eqI)
  have w: "verify_walk (\<lambda>_. False) H X Z ?g (length magicHeader) [] = Inr (length (body_of L), ?rows)"
    using walk_log [of L H Z X ?g magicHeader footer "[]"] L cont bl by (simp add: body_of_def fv_of_def)
  have u: "unat (of_nat (length (body_of L)) + 1 :: u64) = length (body_of L) + 1"
    "unat (of_nat (length (body_of L)) + 1 + of_nat (length (buildIndexSection es)) :: u64) = length (body_of L) + 1 + length (buildIndexSection es)"
  proof -
    have "(of_nat (length (body_of L)) + 1 :: u64) = of_nat (length (body_of L) + 1)"
      "(of_nat (length (body_of L)) + 1 + of_nat (length (buildIndexSection es)) :: u64) =
        of_nat (length (body_of L) + 1 + length (buildIndexSection es))" by simp_all
    then show "unat (of_nat (length (body_of L)) + 1 :: u64) = length (body_of L) + 1"
      "unat (of_nat (length (body_of L)) + 1 + of_nat (length (buildIndexSection es)) :: u64) = length (body_of L) + 1 + length (buildIndexSection es)"
      using small(2) by (simp_all only: unat_of_nat ft) simp_all
  qed
  have "slice (unat (fv_indexOff (sg_fv ?g))) (unat (fv_indexOff (sg_fv ?g) + fv_indexLen (sg_fv ?g))) (sg_mm ?g) =
      slice (length (body_of L @ [tagSeal])) (length (body_of L @ [tagSeal]) + length (buildIndexSection es))
        ((body_of L @ [tagSeal]) @ buildIndexSection es @ rest)"
    by (simp only: fv_of_def footerView.select_convs sealedSegment.select_convs u ft) simp
  also have "\<dots> = buildIndexSection ?rows" using index_perm [OF es de] by (simp only: slice_middle)
  finally have sec: "slice (unat (fv_indexOff (sg_fv ?g))) (unat (fv_indexOff (sg_fv ?g) + fv_indexLen (sg_fv ?g))) (sg_mm ?g) =
      buildIndexSection ?rows" .
  have cnt: "(of_nat (length ?rows) :: u64) = fv_keyCount (sg_fv ?g)" by (simp add: fv_of_def len_es entries_of_def)
  have "seg_verify (\<lambda>_. False) H X Z ?g = None"
    unfolding seg_verify_def w bl sec cnt [symmetric] by simp
  moreover have "openSealed path sid (body_of L @ footer) = Inr ?g" using p(1,3) by (simp add: openSealed_def)
  ultimately show ?thesis by blast
qed

section \<open>Property\<close>

text \<open>C21: a clean scrub is a proof of the segment. If a file, whatever its bytes, opens as a
  sealed segment and \<open>verify\<close> reports nothing, then every key the segment claims to have is
  readable and its data hashes to the key.\<close>

theorem scrub_sound:
  assumes "openSealed path sid mm = Inr g" and "length mm < 2 ^ 63" and "seg_verify ctx H X Z g = None" and "seg_has X g k"
  shows "\<exists>data. seg_get X Z g k = Inr (Some data) \<and> verifyObject H k data = None"
proof -
  obtain off slen where l: "fv_lookup (sg_fv g) k = Some (off, slen)" and c: "Contains X (fv_filter (sg_fv g)) (filterKey k)"
    using assms(4) by (auto simp: seg_has_def split: if_splits)
  show ?thesis by (rule row_get [OF assms(1) scrubbed_row [OF assms(1-3) l] c l])
qed

definition wit_hash :: "bytes \<Rightarrow> bytes" where
  "wit_hash _ = replicate 32 7"

lemma wit_scrub:
  obtains rec footer g where "EncodeRecord rle_zstd wit_key [1, 2, 3, 4, 5] = Inr rec"
    "openSealed ''a'' 1 (body_of [rec] @ footer) = Inr g" "length (body_of [rec] @ footer) < 2 ^ 63"
    "seg_verify (\<lambda>_. False) wit_hash all_filter rle_zstd g = None" "seg_has all_filter g wit_key"
proof -
  obtain rec where r: "EncodeRecord rle_zstd wit_key [1, 2, 3, 4, 5] = Inr rec"
    using EncodeRecord_ok [of "[1, 2, 3, 4, 5]"] by (auto simp: MaxPayload_def)
  note w = encode_whole [OF wit_key(1) r]
  have "decode_record rle_zstd rec = Inr [1, 2, 3, 4, 5]"
  proof -
    have le: "length [1, 2, 3, 4, 5 :: byte] \<le> MaxPayload" by (simp add: MaxPayload_def)
    have "rec = rec_bytes wit_key (fst (stored_form rle_zstd [1, 2, 3, 4, 5])) (of_nat (length [1, 2, 3, 4, 5 :: byte]))
        (snd (stored_form rle_zstd [1, 2, 3, 4, 5]))" using r by (auto simp: EncodeRecord_iff)
    then show ?thesis using DecodePayload_stored [OF rle_zstd_ok le] rec_bytes_fields [OF wit_key(2)] wit_key(2)
      by (simp add: decode_record_def)
  qed
  moreover have "verifyObject wit_hash wit_key [1, 2, 3, 4, 5] = None" by code_simp
  ultimately have v: "rec_verifies wit_hash rle_zstd rec" using w(2) by (simp add: rec_verifies_def)
  let ?es = "entries_of (locs 8 [rec])"
  have small: "length (body_of [rec]) \<le> 2 ^ 30" using whole_bound [OF w(1)] by (simp add: length_body_of)
  obtain filt where f: "buildFilterSection all_filter ?es = Inr filt" "length filt = 53"
    by (simp add: buildFilterSection_def all_filter_def entries_of_def)
  have "length (buildIndexSection ?es) = 1068"
    by (subst index_section_length) (use wit_key w in \<open>simp_all add: entries_of_def\<close>)
  with f obtain footer where ft: "buildFooter all_filter (length (body_of [rec])) ?es = Inr footer" "length footer < 2000"
    by (simp add: buildFooter_def Let_def zero4_def magicTrailer_def entries_of_def)
  have len: "length (body_of [rec] @ footer) < 2 ^ 63" "length (body_of [rec]) \<le> 2 ^ 37" using small ft(2) by simp_all
  obtain g where g: "openSealed ''a'' 1 (body_of [rec] @ footer) = Inr g" "seg_verify (\<lambda>_. False) wit_hash all_filter rle_zstd g = None"
    using written_scrubs [OF all_filter_ok _ _ refl ft(1) len(2,1), of wit_hash rle_zstd "''a''" 1] w v by auto
  have "seg_has all_filter g wit_key"
  proof -
    have c: "take 8 (body_of [rec]) = magicHeader" using take_body_of [of "[rec]" "[]"] by simp
    have e: "\<forall>e \<in> set ?es. is_key (ie_k e)" "length ?es < 2 ^ 32" "distinct (map ie_k ?es)" "length (body_of [rec] @ footer) < 2 ^ 64"
      "entries_in (length (body_of [rec])) ?es"
      using wit_key(2) w len whole_length [OF w(1)] by (simp_all add: entries_of_def entries_in_def loc_at_def body_of_def)
    obtain g' where "openSealed ''a'' 1 (body_of [rec] @ footer) = Inr g'" "sealed_as all_filter (body_of [rec]) ?es g'"
      by (rule openSealed_sealed [OF all_filter_ok ft(1) c e(1,2,3,5,4)])
    then show ?thesis using sealed_has [OF _ wit_key(2)] g(1) w(2) by (auto simp: entries_of_def)
  qed
  then show thesis using that r g len(1) by blast
qed

theorem scrub_sound_witness:
  "\<exists>rec footer g data. openSealed ''a'' 1 (body_of [rec] @ footer) = Inr g \<and>
     seg_get all_filter rle_zstd g wit_key = Inr (Some data) \<and> verifyObject wit_hash wit_key data = None"
proof -
  obtain rec footer g where g: "EncodeRecord rle_zstd wit_key [1, 2, 3, 4, 5] = Inr rec"
    "openSealed ''a'' 1 (body_of [rec] @ footer) = Inr g" "length (body_of [rec] @ footer) < 2 ^ 63"
    "seg_verify (\<lambda>_. False) wit_hash all_filter rle_zstd g = None" "seg_has all_filter g wit_key"
    by (rule wit_scrub)
  from scrub_sound [OF g(2-5)] g(2) show ?thesis by blast
qed

end
