(* ===== verification/Amber_Parallel.thy ===== *)
theory Amber_Parallel
  imports Amber_StoreOps
begin

text \<open>
  Package \<open>packstore\<close>, the parallel writer (parallel.go). The distributor and the workers run
  in the order a schedule gives: an entry lets the distributor forward one item or one worker
  make its next atomic step, so every interleaving of the workers' lookups, encodings and
  appends is a schedule. What the schedule leaves is completed by one worker after the other.
\<close>

section \<open>The workers\<close>

record WriteStats =
  Stored :: nat
  Deduped :: nat
  BytesStored :: nat

text \<open>Where a worker is: waiting for an object, holding one it has observed, holding one that
  is new to the run, holding one that is not stored, due for a sync, or gone.\<close>

datatype worker_at = Idle | Took psObject | Fresh psObject | Absent psObject | Flush | Gone

record worker =
  wk_at :: worker_at
  wk_pending :: nat

record prun =
  pr_seq :: "(ps_err + psObject) list"
  pr_ch :: "psObject list"
  pr_open :: bool
  pr_cancelled :: bool
  pr_err :: "ps_err option"
  pr_seen :: "key list"
  pr_workers :: "worker list"
  pr_stats :: WriteStats
  pr_store :: store

definition addIfAbsent :: "key \<Rightarrow> key list \<Rightarrow> bool \<times> key list" where
  "addIfAbsent k seen = (if k \<in> set seen then (False, seen) else (True, k # seen))"

text \<open>The distributor's next item; \<open>quit\<close> resolves its select after a cancellation.\<close>

definition distribute :: "bool \<Rightarrow> prun \<Rightarrow> prun" where
  "distribute quit p =
     (if \<not> pr_open p then p
      else case pr_seq p of
        [] \<Rightarrow> p\<lparr>pr_open := False\<rparr>
      | Inl e # seq \<Rightarrow>
          p\<lparr>pr_seq := [], pr_open := False, pr_cancelled := True, pr_err := (case pr_err p of None \<Rightarrow> Some e | Some e' \<Rightarrow> Some e')\<rparr>
      | Inr obj # seq \<Rightarrow>
          if quit \<and> pr_cancelled p then p\<lparr>pr_seq := [], pr_open := False\<rparr>
          else p\<lparr>pr_seq := seq, pr_ch := pr_ch p @ [obj]\<rparr>)"

definition set_worker :: "nat \<Rightarrow> worker_at \<Rightarrow> prun \<Rightarrow> prun" where
  "set_worker i at p = p\<lparr>pr_workers := (pr_workers p)[i := (pr_workers p ! i)\<lparr>wk_at := at\<rparr>]\<rparr>"

definition worker_fail :: "nat \<Rightarrow> ps_err \<Rightarrow> prun \<Rightarrow> prun" where
  "worker_fail i e p = (set_worker i Gone p)
     \<lparr>pr_cancelled := True, pr_err := (case pr_err p of None \<Rightarrow> Some e | Some e' \<Rightarrow> Some e')\<rparr>"

definition worker_dedup :: "nat \<Rightarrow> prun \<Rightarrow> prun" where
  "worker_dedup i p = (set_worker i Idle p)\<lparr>pr_stats := (pr_stats p)\<lparr>Deduped := Deduped (pr_stats p) + 1\<rparr>\<rparr>"

definition worker_stored :: "nat \<Rightarrow> nat \<Rightarrow> nat \<Rightarrow> nat \<Rightarrow> prun \<Rightarrow> prun" where
  "worker_stored batchSize i ulen n p =
     (let pending = wk_pending (pr_workers p ! i) + n; full = pending \<ge> batchSize;
          w = \<lparr>wk_at = (if full then Flush else Idle), wk_pending = (if full then 0 else pending)\<rparr>
      in p\<lparr>pr_workers := (pr_workers p)[i := w],
           pr_stats := (pr_stats p)\<lparr>Stored := Stored (pr_stats p) + 1, BytesStored := BytesStored (pr_stats p) + ulen\<rparr>\<rparr>)"

definition worker_step :: "(bytes \<Rightarrow> bytes) \<Rightarrow> xorfilter \<Rightarrow> zstd \<Rightarrow> nat \<Rightarrow> bool \<Rightarrow> nat \<Rightarrow> bool \<Rightarrow> prun \<Rightarrow> prun" where
  "worker_step H X Z batchSize verify i quit p =
     (if length (pr_workers p) \<le> i then p
      else case wk_at (pr_workers p ! i) of
        Idle \<Rightarrow>
          if quit \<and> pr_cancelled p then set_worker i Gone p
          else (case pr_ch p of
                  [] \<Rightarrow> if pr_open p then p else set_worker i Gone p
                | obj # ch \<Rightarrow> set_worker i (Took obj) (p\<lparr>pr_ch := ch, pr_store := observe (ob_Key obj) (pr_store p)\<rparr>))
      | Took obj \<Rightarrow>
          (case addIfAbsent (ob_Key obj) (pr_seen p) of
             (False, _) \<Rightarrow> worker_dedup i p
           | (True, seen) \<Rightarrow> set_worker i (Fresh obj) (p\<lparr>pr_seen := seen\<rparr>))
      | Fresh obj \<Rightarrow>
          (case Has X (pr_store p) (ob_Key obj) of
             Inl e \<Rightarrow> worker_fail i e p
           | Inr True \<Rightarrow> worker_dedup i p
           | Inr False \<Rightarrow> set_worker i (Absent obj) p)
      | Absent obj \<Rightarrow>
          (case prepare H Z obj verify of
             Inl e \<Rightarrow> worker_fail i e p
           | Inr (rec, ulen) \<Rightarrow>
               (case appendLocked X (ob_Key obj) rec False (pr_store p) of
                  (Some e, s) \<Rightarrow> worker_fail i e (p\<lparr>pr_store := s\<rparr>)
                | (None, s) \<Rightarrow> worker_stored batchSize i ulen (length rec) (p\<lparr>pr_store := s\<rparr>)))
      | Flush \<Rightarrow>
          (case syncActive (pr_store p) of
             (Some e, s) \<Rightarrow> worker_fail i e (p\<lparr>pr_store := s\<rparr>)
           | (None, s) \<Rightarrow> set_worker i Idle (p\<lparr>pr_store := s\<rparr>))
      | Gone \<Rightarrow> p)"

datatype move = Forward bool | Work nat bool

fun prun_step :: "(bytes \<Rightarrow> bytes) \<Rightarrow> xorfilter \<Rightarrow> zstd \<Rightarrow> nat \<Rightarrow> bool \<Rightarrow> move \<Rightarrow> prun \<Rightarrow> prun" where
  "prun_step H X Z batchSize verify (Forward quit) p = distribute quit p"
| "prun_step H X Z batchSize verify (Work i quit) p = worker_step H X Z batchSize verify i quit p"

text \<open>A worker needs at most five steps for an object and one to leave, so these moves drain
  the run.\<close>

definition drain_moves :: "prun \<Rightarrow> move list" where
  "drain_moves p =
     replicate (Suc (length (pr_seq p))) (Forward False) @
     concat (map (\<lambda>i. replicate (5 * (length (pr_seq p) + length (pr_ch p)) + 6) (Work i False)) [0..<length (pr_workers p)])"

section \<open>The run\<close>

definition DefaultBatchSize :: nat where "DefaultBatchSize = 2 ^ 24"

record WriteOpts =
  wo_Writers :: int
  wo_BatchSize :: int
  wo_Verify :: bool

text \<open>\<open>procs\<close> is \<open>runtime.GOMAXPROCS(0)\<close>.\<close>

definition WriteParallel :: "(bytes \<Rightarrow> bytes) \<Rightarrow> xorfilter \<Rightarrow> zstd \<Rightarrow> nat \<Rightarrow> move list \<Rightarrow> (ps_err + psObject) list \<Rightarrow> WriteOpts \<Rightarrow>
    store \<Rightarrow> (WriteStats \<times> ps_err option) \<times> store" where
  "WriteParallel H X Z procs sched seq opts s =
     (let writers = (if wo_Writers opts \<le> 0 then procs else nat (wo_Writers opts));
          batchSize = (if wo_BatchSize opts \<le> 0 then DefaultBatchSize else nat (wo_BatchSize opts));
          go = fold (prun_step H X Z batchSize (wo_Verify opts));
          p = \<lparr>pr_seq = seq, pr_ch = [], pr_open = True, pr_cancelled = False, pr_err = None, pr_seen = [],
               pr_workers = replicate writers \<lparr>wk_at = Idle, wk_pending = 0\<rparr>,
               pr_stats = \<lparr>Stored = 0, Deduped = 0, BytesStored = 0\<rparr>, pr_store = s\<rparr>;
          p = go sched p; p = go (drain_moves p) p;
          (serr, s) = syncActive (pr_store p)
      in ((pr_stats p, case pr_err p of Some e \<Rightarrow> Some e | None \<Rightarrow> serr), s))"

end
