(* ===== verification/Amber_ParallelLog.thy ===== *)
theory Amber_ParallelLog
  imports Amber_Parallel
begin

text \<open>
  The parallel writer against the log. The invariant of a run has three parts: the objects the
  workers hold (no two workers hold the same new key), the store (the old log and one record
  for each key stored so far), and, while nothing has failed, the account of all objects.
\<close>

section \<open>What the workers hold\<close>

definition held :: "worker \<Rightarrow> key list" where
  "held w = (case wk_at w of Took obj \<Rightarrow> [ob_Key obj] | Fresh obj \<Rightarrow> [ob_Key obj] | Absent obj \<Rightarrow> [ob_Key obj] | _ \<Rightarrow> [])"

definition claimed :: "worker \<Rightarrow> key list" where
  "claimed w = (case wk_at w of Fresh obj \<Rightarrow> [ob_Key obj] | Absent obj \<Rightarrow> [ob_Key obj] | _ \<Rightarrow> [])"

definition claims_ok :: "bytes list \<Rightarrow> bytes list \<Rightarrow> key set \<Rightarrow> key set \<Rightarrow> worker list \<Rightarrow> bool" where
  "claims_ok L new seen obs ws \<longleftrightarrow>
     (\<forall>i < length ws. set (held (ws ! i)) \<subseteq> obs \<and>
        (\<forall>k \<in> set (claimed (ws ! i)). k \<in> seen \<and> k \<notin> rec_key ` set new \<and>
           (\<forall>j < length ws. j \<noteq> i \<longrightarrow> k \<notin> set (claimed (ws ! j)))) \<and>
        (\<forall>obj. wk_at (ws ! i) = Absent obj \<longrightarrow> ob_Key obj \<notin> rec_key ` set L))"

lemma claims_update:
  assumes c: "claims_ok L new seen obs ws" and i: "i < length ws" and s: "seen \<subseteq> seen'" and o: "obs \<subseteq> obs'"
    and h: "set (held w) \<subseteq> obs'" and n: "rec_key ` set new' \<subseteq> rec_key ` set new \<union> set (claimed (ws ! i))"
    and w: "set (claimed w) \<subseteq> seen'" "set (claimed w) \<inter> rec_key ` set new' = {}"
      "set (claimed w) \<subseteq> set (claimed (ws ! i)) \<or> set (claimed w) \<inter> seen = {}"
    and a: "\<And>obj. wk_at w = Absent obj \<Longrightarrow> ob_Key obj \<notin> rec_key ` set L"
  shows "claims_ok L new' seen' obs' (ws[i := w])"
proof -
  have old: "set (held (ws ! j)) \<subseteq> obs" "\<And>k. k \<in> set (claimed (ws ! j)) \<Longrightarrow> k \<in> seen \<and> k \<notin> rec_key ` set new"
    "\<And>k m. k \<in> set (claimed (ws ! j)) \<Longrightarrow> m < length ws \<Longrightarrow> m \<noteq> j \<Longrightarrow> k \<notin> set (claimed (ws ! m))"
    "\<And>obj. wk_at (ws ! j) = Absent obj \<Longrightarrow> ob_Key obj \<notin> rec_key ` set L" if "j < length ws" for j
    using c that unfolding claims_ok_def by blast+
  have apart: "k \<notin> set (claimed (ws ! j))" if "j < length ws" "j \<noteq> i" "k \<in> set (claimed w)" for j k
    using w(3) old(2,3) [OF that(1)] that i by blast
  have other: "k \<notin> rec_key ` set new'" if "j < length ws" "j \<noteq> i" "k \<in> set (claimed (ws ! j))" for j k
    using n old(2,3) [OF that(1)] that i by blast
  show ?thesis unfolding claims_ok_def
  proof (intro allI impI)
    fix j assume j: "j < length (ws[i := w])"
    show "set (held (ws[i := w] ! j)) \<subseteq> obs' \<and>
        (\<forall>k \<in> set (claimed (ws[i := w] ! j)). k \<in> seen' \<and> k \<notin> rec_key ` set new' \<and>
           (\<forall>m < length (ws[i := w]). m \<noteq> j \<longrightarrow> k \<notin> set (claimed (ws[i := w] ! m)))) \<and>
        (\<forall>obj. wk_at (ws[i := w] ! j) = Absent obj \<longrightarrow> ob_Key obj \<notin> rec_key ` set L)"
    proof (cases "j = i")
      case True
      then show ?thesis using i h w(1,2) a apart by (auto simp: nth_list_update)
    next
      case False
      then have eq: "ws[i := w] ! j = ws ! j" and j': "j < length ws" using j by simp_all
      have sep: "k \<notin> set (claimed (ws[i := w] ! m))" if "k \<in> set (claimed (ws ! j))" "m < length ws" "m \<noteq> j" for k m
        using that i old(3) [OF j'] apart [OF j' False] by (cases "m = i") auto
      show ?thesis unfolding eq
      proof (intro conjI ballI allI impI)
        show "set (held (ws ! j)) \<subseteq> obs'" using old(1) [OF j'] o by blast
        fix k assume k: "k \<in> set (claimed (ws ! j))"
        show "k \<in> seen'" using old(2) [OF j' k] s by blast
        show "k \<notin> rec_key ` set new'" by (rule other [OF j' False k])
        show "k \<notin> set (claimed (ws[i := w] ! m))" if "m < length (ws[i := w])" "m \<noteq> j" for m using sep [OF k] that by simp
      qed (rule old(4) [OF j'])
    qed
  qed
qed

section \<open>The invariant\<close>

definition store_ok :: "xorfilter \<Rightarrow> store \<Rightarrow> bytes list \<Rightarrow> bytes list \<Rightarrow> key list \<Rightarrow> prun \<Rightarrow> bool" where
  "store_ok X s0 L new obs p \<longleftrightarrow>
     holds X (pr_store p) (L @ new) \<and> observed s0 obs (pr_store p) \<and> set (pr_seen p) \<subseteq> set obs \<and>
     distinct (map rec_key new) \<and> rec_key ` set new \<subseteq> set (pr_seen p) - rec_key ` set L \<and>
     claims_ok L new (set (pr_seen p)) (set obs) (pr_workers p)"

text \<open>All keys around come from the input.\<close>

definition keys_from :: "key set \<Rightarrow> prun \<Rightarrow> bool" where
  "keys_from K p \<longleftrightarrow> set (pr_seen p) \<subseteq> K \<and> ob_Key ` set (pr_ch p) \<subseteq> K \<and> set (seq_keys (pr_seq p)) \<subseteq> K \<and>
     (\<forall>w \<in> set (pr_workers p). set (held w) \<subseteq> K)"

definition n_held :: "prun \<Rightarrow> nat" where
  "n_held p = sum_list (map (\<lambda>w. length (held w)) (pr_workers p))"

definition account :: "nat \<Rightarrow> key set \<Rightarrow> bytes list \<Rightarrow> bytes list \<Rightarrow> prun \<Rightarrow> bool" where
  "account n K L new p \<longleftrightarrow>
     \<not> pr_cancelled p \<and> Stored (pr_stats p) = length new \<and>
     Stored (pr_stats p) + Deduped (pr_stats p) + n_held p + length (pr_ch p) + length (pr_seq p) = n \<and>
     (\<forall>k \<in> set (pr_seen p). k \<in> rec_key ` set (L @ new) \<or> (\<exists>w \<in> set (pr_workers p). k \<in> set (claimed w))) \<and>
     (\<forall>k \<in> K. k \<in> set (pr_seen p) \<or> (\<exists>w \<in> set (pr_workers p). k \<in> set (held w)) \<or> k \<in> ob_Key ` set (pr_ch p) \<or>
        k \<in> set (seq_keys (pr_seq p))) \<and>
     (\<forall>w \<in> set (pr_workers p). wk_at w = Gone \<longrightarrow> \<not> pr_open p \<and> pr_ch p = []) \<and>
     (\<not> pr_open p \<longrightarrow> pr_seq p = [])"

definition prun_inv :: "xorfilter \<Rightarrow> store \<Rightarrow> bytes list \<Rightarrow> nat \<Rightarrow> key set \<Rightarrow> prun \<Rightarrow> bool" where
  "prun_inv X s0 L n K p \<longleftrightarrow>
     (\<exists>new obs. store_ok X s0 L new obs p \<and> keys_from K p \<and> (pr_err p = None \<longrightarrow> account n K L new p))"

lemma prun_invI:
  assumes "store_ok X s0 L new obs p" and "keys_from K p" and "pr_err p = None \<Longrightarrow> account n K L new p"
  shows "prun_inv X s0 L n K p"
  unfolding prun_inv_def by (intro exI conjI impI) (rule assms; assumption)+

lemma n_held_update:
  assumes "i < length ws" and "pr_workers p = ws" and "pr_workers p' = ws[i := w]"
  shows "n_held p' + length (held (ws ! i)) = n_held p + length (held w)"
  using assms by (simp add: n_held_def map_update sum_list_update) (metis elem_le_sum_list le_add_diff_inverse2 length_map nth_map trans_le_add1)

lemma ex_index: "(\<exists>w \<in> set ws. P w) \<longleftrightarrow> (\<exists>j < length ws. P (ws ! j))"
  by (metis in_set_conv_nth)

lemma set_update_mem:
  assumes "i < length ws"
  shows "(\<exists>w \<in> set (ws[i := w0]). P w) \<longleftrightarrow> P w0 \<or> (\<exists>j < length ws. j \<noteq> i \<and> P (ws ! j))"
    and "(\<exists>w \<in> set ws. P w) \<longleftrightarrow> P (ws ! i) \<or> (\<exists>j < length ws. j \<noteq> i \<and> P (ws ! j))"
  unfolding ex_index using assms by (auto simp: nth_list_update)

lemma distribute_inv:
  assumes "prun_inv X s0 L n K p"
  shows "prun_inv X s0 L n K (distribute quit p)"
proof -
  obtain new obs where o: "store_ok X s0 L new obs p" "keys_from K p" "pr_err p = None \<longrightarrow> account n K L new p"
    using assms unfolding prun_inv_def by (elim exE conjE) (rule that; assumption)
  show ?thesis
  proof (rule prun_invI)
    show "store_ok X s0 L new obs (distribute quit p)"
      using o(1) by (auto simp: distribute_def store_ok_def split: list.splits sum.splits)
    show "keys_from K (distribute quit p)"
      using o(2) by (auto simp: distribute_def keys_from_def split: list.splits sum.splits)
    assume "pr_err (distribute quit p) = None"
    then show "account n K L new (distribute quit p)"
      using o(3) by (auto simp: distribute_def account_def n_held_def split: list.splits sum.splits option.splits if_splits)
  qed
qed

section \<open>One step of a worker\<close>

lemma account_step:
  assumes a: "account n K L new p" and i: "i < length (pr_workers p)"
    and p': "pr_workers p' = (pr_workers p)[i := w]" "pr_seq p' = pr_seq p" "pr_open p' = pr_open p" "pr_cancelled p' = pr_cancelled p"
    and cnt: "Stored (pr_stats p') = length new'"
      "Stored (pr_stats p') + Deduped (pr_stats p') + length (held w) + length (pr_ch p') =
       Stored (pr_stats p) + Deduped (pr_stats p) + length (held (pr_workers p ! i)) + length (pr_ch p)"
    and new: "set new \<subseteq> set new'"
    and seen: "set (pr_seen p) \<subseteq> set (pr_seen p')" "set (pr_seen p') \<subseteq> set (pr_seen p) \<union> set (claimed w)"
    and cl: "set (claimed (pr_workers p ! i)) \<subseteq> set (claimed w) \<union> rec_key ` set (L @ new')"
    and hd: "set (held (pr_workers p ! i)) \<subseteq> set (held w) \<union> set (pr_seen p')"
    and ch: "ob_Key ` set (pr_ch p) \<subseteq> ob_Key ` set (pr_ch p') \<union> set (held w)" "pr_ch p = [] \<Longrightarrow> pr_ch p' = []"
    and gone: "wk_at w = Gone \<Longrightarrow> \<not> pr_open p \<and> pr_ch p = []"
  shows "account n K L new' p'"
proof -
  let ?ws = "pr_workers p"
  have nh: "n_held p' + length (held (?ws ! i)) = n_held p + length (held w)" by (rule n_held_update [OF i refl p'(1)])
  have c: "\<not> pr_cancelled p'" "Stored (pr_stats p') + Deduped (pr_stats p') + n_held p' + length (pr_ch p') + length (pr_seq p') = n"
    using a p' cnt nh by (simp_all add: account_def)
  have s: "\<forall>k \<in> set (pr_seen p'). k \<in> rec_key ` set (L @ new') \<or> (\<exists>w \<in> set (pr_workers p'). k \<in> set (claimed w))"
  proof
    fix k assume k: "k \<in> set (pr_seen p')"
    have "k \<in> set (pr_seen p) \<Longrightarrow> k \<in> rec_key ` set (L @ new) \<or> k \<in> set (claimed (?ws ! i)) \<or>
        (\<exists>j < length ?ws. j \<noteq> i \<and> k \<in> set (claimed (?ws ! j)))"
      using a set_update_mem(2) [OF i, of "\<lambda>w. k \<in> set (claimed w)"] unfolding account_def by blast
    moreover have "rec_key ` set (L @ new) \<subseteq> rec_key ` set (L @ new')" using new by auto
    ultimately show "k \<in> rec_key ` set (L @ new') \<or> (\<exists>w \<in> set (pr_workers p'). k \<in> set (claimed w))"
      unfolding p'(1) set_update_mem(1) [OF i] using k seen(2) cl by blast
  qed
  have h: "\<forall>k \<in> K. k \<in> set (pr_seen p') \<or> (\<exists>w \<in> set (pr_workers p'). k \<in> set (held w)) \<or> k \<in> ob_Key ` set (pr_ch p') \<or>
        k \<in> set (seq_keys (pr_seq p'))"
  proof
    fix k assume k: "k \<in> K"
    have "k \<in> set (pr_seen p) \<or> (k \<in> set (held (?ws ! i)) \<or> (\<exists>j < length ?ws. j \<noteq> i \<and> k \<in> set (held (?ws ! j)))) \<or>
        k \<in> ob_Key ` set (pr_ch p) \<or> k \<in> set (seq_keys (pr_seq p))"
      using a k set_update_mem(2) [OF i, of "\<lambda>w. k \<in> set (held w)"] unfolding account_def by blast
    then show "k \<in> set (pr_seen p') \<or> (\<exists>w \<in> set (pr_workers p'). k \<in> set (held w)) \<or> k \<in> ob_Key ` set (pr_ch p') \<or>
        k \<in> set (seq_keys (pr_seq p'))"
      unfolding p'(1,2) set_update_mem(1) [OF i] using seen(1) hd ch(1) by blast
  qed
  have g: "\<forall>w \<in> set (pr_workers p'). wk_at w = Gone \<longrightarrow> \<not> pr_open p' \<and> pr_ch p' = []"
    using a gone ch(2) p'(1,3) set_update_subset_insert [of ?ws i w] unfolding account_def by auto
  show ?thesis using a c s h g cnt(1) p'(2,3) unfolding account_def by simp
qed

lemma keys_step:
  assumes "keys_from K p" and "i < length (pr_workers p)" and "pr_workers p' = (pr_workers p)[i := w]" and "set (held w) \<subseteq> K"
    and "set (pr_seen p') \<subseteq> K" and "set (pr_ch p') \<subseteq> set (pr_ch p)" and "pr_seq p' = pr_seq p"
  shows "keys_from K p'"
proof -
  have ws: "\<forall>w \<in> set (pr_workers p). set (held w) \<subseteq> K" using assms(1) by (simp add: keys_from_def)
  have "set (held v) \<subseteq> K" if "v \<in> set ((pr_workers p)[i := w])" for v
  proof -
    have "v = w \<or> v \<in> set (pr_workers p)" using that set_update_subset_insert [of "pr_workers p" i w] by auto
    then show ?thesis using ws assms(4) by auto
  qed
  then have "\<forall>w \<in> set (pr_workers p'). set (held w) \<subseteq> K" by (simp add: assms(3))
  moreover have "ob_Key ` set (pr_ch p') \<subseteq> ob_Key ` set (pr_ch p)" using assms(6) by (rule image_mono)
  moreover have "ob_Key ` set (pr_ch p) \<subseteq> K" "set (seq_keys (pr_seq p)) \<subseteq> K" using assms(1) by (simp_all add: keys_from_def)
  ultimately show ?thesis using assms(5,7) by (simp add: keys_from_def)
qed

lemma observed_more: "observed s obs s' \<Longrightarrow> same_frame s' s'' \<Longrightarrow> observed s obs s''"
  by (rule observed_frame)

lemma held_simps [simp]:
  "held (w\<lparr>wk_at := Idle\<rparr>) = []" "held (w\<lparr>wk_at := Gone\<rparr>) = []" "held (w\<lparr>wk_at := Flush\<rparr>) = []"
  "held (w\<lparr>wk_at := Took obj\<rparr>) = [ob_Key obj]" "held (w\<lparr>wk_at := Fresh obj\<rparr>) = [ob_Key obj]" "held (w\<lparr>wk_at := Absent obj\<rparr>) = [ob_Key obj]"
  "claimed (w\<lparr>wk_at := Idle\<rparr>) = []" "claimed (w\<lparr>wk_at := Gone\<rparr>) = []" "claimed (w\<lparr>wk_at := Flush\<rparr>) = []"
  "claimed (w\<lparr>wk_at := Took obj\<rparr>) = []" "claimed (w\<lparr>wk_at := Fresh obj\<rparr>) = [ob_Key obj]" "claimed (w\<lparr>wk_at := Absent obj\<rparr>) = [ob_Key obj]"
  by (simp_all add: held_def claimed_def)

lemma held_at:
  "wk_at w = Idle \<Longrightarrow> held w = [] \<and> claimed w = []" "wk_at w = Flush \<Longrightarrow> held w = [] \<and> claimed w = []"
  "wk_at w = Took obj \<Longrightarrow> held w = [ob_Key obj] \<and> claimed w = []"
  "wk_at w = Fresh obj \<Longrightarrow> held w = [ob_Key obj] \<and> claimed w = [ob_Key obj]"
  "wk_at w = Absent obj \<Longrightarrow> held w = [ob_Key obj] \<and> claimed w = [ob_Key obj]"
  by (simp_all add: held_def claimed_def)

text \<open>A step that leaves the log alone: the worker moves to \<open>w\<close>.\<close>

lemma quiet_step:
  assumes st: "store_ok X s0 L new obs p" and ks: "keys_from K p" and i: "i < length (pr_workers p)"
    and p': "pr_workers p' = (pr_workers p)[i := w]" "pr_seq p' = pr_seq p" "set (pr_ch p') \<subseteq> set (pr_ch p)"
    and h: "holds X (pr_store p') (L @ new)" and ob: "observed s0 obs' (pr_store p')" "set obs \<subseteq> set obs'"
    and seen: "set (pr_seen p) \<subseteq> set (pr_seen p')" "set (pr_seen p') \<subseteq> set (pr_seen p) \<union> set (held (pr_workers p ! i))"
    and hw: "set (held w) \<subseteq> set obs' \<inter> K"
    and cw: "set (claimed w) \<subseteq> set (pr_seen p')"
      "set (claimed w) \<subseteq> set (claimed (pr_workers p ! i)) \<or> set (claimed w) \<inter> set (pr_seen p) = {}"
    and a: "\<And>obj. wk_at w = Absent obj \<Longrightarrow> ob_Key obj \<notin> rec_key ` set L"
    and acc: "pr_err p' = None \<Longrightarrow> account n K L new p'"
  shows "prun_inv X s0 L n K p'"
proof -
  have c: "claims_ok L new (set (pr_seen p)) (set obs) (pr_workers p)" and sub: "rec_key ` set new \<subseteq> set (pr_seen p)"
    "set (pr_seen p) \<subseteq> set obs" using st unfolding store_ok_def by blast+
  have ho: "set (held (pr_workers p ! i)) \<subseteq> set obs" using c i unfolding claims_ok_def by blast
  have hK: "set (held (pr_workers p ! i)) \<subseteq> K" "set (pr_seen p) \<subseteq> K"
    using ks nth_mem [OF i] by (simp_all add: keys_from_def)
  have cn: "set (claimed (pr_workers p ! i)) \<inter> rec_key ` set new = {}" using c i unfolding claims_ok_def by blast
  have d: "set (claimed w) \<inter> rec_key ` set new = {}" using cw(2) cn sub(1) by blast
  have s': "set (pr_seen p') \<subseteq> set obs'" "set (pr_seen p') \<subseteq> K" using seen(2) sub(2) ob(2) ho hK by blast+
  have "claims_ok L new (set (pr_seen p')) (set obs') ((pr_workers p)[i := w])"
    by (rule claims_update [OF c i seen(1) ob(2) _ _ cw(1) d cw(2) a]) (use hw in auto)
  then have "store_ok X s0 L new obs' p'"
    using st h ob(1) s'(1) seen(1) p'(1) unfolding store_ok_def by auto
  moreover have "keys_from K p'" by (rule keys_step [OF ks i p'(1) _ s'(2) p'(3,2)]) (use hw in blast)
  ultimately show ?thesis using acc by (rule prun_invI)
qed

lemma held_known:
  assumes "store_ok X s0 L new obs p" and "keys_from K p" and "i < length (pr_workers p)"
  shows "set (held (pr_workers p ! i)) \<subseteq> set obs \<inter> K" "set (pr_seen p) \<subseteq> set obs \<inter> K"
    "k \<in> set (claimed (pr_workers p ! i)) \<Longrightarrow> k \<in> set (pr_seen p) \<and> k \<notin> rec_key ` set new"
    "wk_at (pr_workers p ! i) = Absent obj \<Longrightarrow> ob_Key obj \<notin> rec_key ` set L"
proof -
  have c: "claims_ok L new (set (pr_seen p)) (set obs) (pr_workers p)" and "set (pr_seen p) \<subseteq> set obs"
    using assms(1) by (simp_all add: store_ok_def)
  moreover have "set (held (pr_workers p ! i)) \<subseteq> K" "set (pr_seen p) \<subseteq> K"
    using assms(2) nth_mem [OF assms(3)] by (simp_all add: keys_from_def)
  ultimately show "set (held (pr_workers p ! i)) \<subseteq> set obs \<inter> K" "set (pr_seen p) \<subseteq> set obs \<inter> K"
    using assms(3) unfolding claims_ok_def by auto
  show "k \<in> set (claimed (pr_workers p ! i)) \<Longrightarrow> k \<in> set (pr_seen p) \<and> k \<notin> rec_key ` set new"
    "wk_at (pr_workers p ! i) = Absent obj \<Longrightarrow> ob_Key obj \<notin> rec_key ` set L"
    using c assms(3) unfolding claims_ok_def by blast+
qed

lemma store_ok_parts:
  "store_ok X s0 L new obs p \<Longrightarrow> holds X (pr_store p) (L @ new)"
  "store_ok X s0 L new obs p \<Longrightarrow> observed s0 obs (pr_store p)"
  by (simp_all add: store_ok_def)

lemma worker_quiet:
  assumes st: "store_ok X s0 L new obs p" and ks: "keys_from K p" and acc: "pr_err p = None \<longrightarrow> account n K L new p"
    and i: "i < length (pr_workers p)"
  shows "wk_at (pr_workers p ! i) = Idle \<Longrightarrow> pr_cancelled p \<Longrightarrow> prun_inv X s0 L n K (set_worker i Gone p)"
    and "wk_at (pr_workers p ! i) = Idle \<Longrightarrow> pr_ch p = [] \<Longrightarrow> \<not> pr_open p \<Longrightarrow> prun_inv X s0 L n K (set_worker i Gone p)"
    and "wk_at (pr_workers p ! i) = Idle \<Longrightarrow> pr_ch p = obj # ch \<Longrightarrow>
      prun_inv X s0 L n K (set_worker i (Took obj) (p\<lparr>pr_ch := ch, pr_store := observe (ob_Key obj) (pr_store p)\<rparr>))"
    and "wk_at (pr_workers p ! i) = Took obj \<Longrightarrow> ob_Key obj \<notin> set (pr_seen p) \<Longrightarrow>
      prun_inv X s0 L n K (set_worker i (Fresh obj) (p\<lparr>pr_seen := ob_Key obj # pr_seen p\<rparr>))"
    and "wk_at (pr_workers p ! i) = Took obj \<or> wk_at (pr_workers p ! i) = Fresh obj \<Longrightarrow> ob_Key obj \<in> set (pr_seen p) \<Longrightarrow>
      ob_Key obj \<in> rec_key ` set (L @ new) \<or> wk_at (pr_workers p ! i) = Took obj \<Longrightarrow> prun_inv X s0 L n K (worker_dedup i p)"
    and "wk_at (pr_workers p ! i) = Fresh obj \<Longrightarrow> ob_Key obj \<notin> rec_key ` set L \<Longrightarrow>
      prun_inv X s0 L n K (set_worker i (Absent obj) p)"
    and "wk_at (pr_workers p ! i) \<noteq> Gone \<Longrightarrow> prun_inv X s0 L n K (worker_fail i e p)"
proof -
  note q = quiet_step [OF st ks i] and h = store_ok_parts [OF st] and kn = held_known [OF st ks i]
  show "prun_inv X s0 L n K (set_worker i Gone p)" if "wk_at (pr_workers p ! i) = Idle" "pr_cancelled p"
    by (rule q [where obs' = obs and w = "(pr_workers p ! i)\<lparr>wk_at := Gone\<rparr>"]) (use h acc that in \<open>auto simp: set_worker_def account_def\<close>)
  show "prun_inv X s0 L n K (set_worker i Gone p)" if "wk_at (pr_workers p ! i) = Idle" "pr_ch p = []" "\<not> pr_open p"
  proof (rule q [where obs' = obs and w = "(pr_workers p ! i)\<lparr>wk_at := Gone\<rparr>"])
    show "account n K L new (set_worker i Gone p)" if "pr_err (set_worker i Gone p) = None"
      by (rule account_step [OF _ i, where w = "(pr_workers p ! i)\<lparr>wk_at := Gone\<rparr>"]) (use acc that held_at(1) [OF \<open>wk_at (pr_workers p ! i) = Idle\<close>] \<open>pr_ch p = []\<close> \<open>\<not> pr_open p\<close> in \<open>auto simp: set_worker_def account_def\<close>)
  qed (use h in \<open>auto simp: set_worker_def\<close>)
  show "prun_inv X s0 L n K (set_worker i (Took obj) (p\<lparr>pr_ch := ch, pr_store := observe (ob_Key obj) (pr_store p)\<rparr>))"
    (is "prun_inv X s0 L n K ?p") if idle: "wk_at (pr_workers p ! i) = Idle" and ch: "pr_ch p = obj # ch"
  proof (rule q [where obs' = "obs @ [ob_Key obj]" and w = "(pr_workers p ! i)\<lparr>wk_at := Took obj\<rparr>"])
    show "observed s0 (obs @ [ob_Key obj]) (pr_store ?p)"
      using observed_trans [OF h(2) observe_observed] by (simp add: set_worker_def)
    show "account n K L new ?p" if "pr_err ?p = None"
      by (rule account_step [OF _ i, where w = "(pr_workers p ! i)\<lparr>wk_at := Took obj\<rparr>"]) (use acc that held_at(1) [OF idle] ch in \<open>auto simp: set_worker_def account_def\<close>)
    have "ob_Key obj \<in> K" using ks ch by (simp add: keys_from_def)
    then show "set (held ((pr_workers p ! i)\<lparr>wk_at := Took obj\<rparr>)) \<subseteq> set (obs @ [ob_Key obj]) \<inter> K" by simp
  qed (use h ch in \<open>auto simp: set_worker_def\<close>)
  show "prun_inv X s0 L n K (set_worker i (Fresh obj) (p\<lparr>pr_seen := ob_Key obj # pr_seen p\<rparr>))" (is "prun_inv X s0 L n K ?p")
    if at: "wk_at (pr_workers p ! i) = Took obj" and fresh: "ob_Key obj \<notin> set (pr_seen p)"
  proof (rule q [where obs' = obs and w = "(pr_workers p ! i)\<lparr>wk_at := Fresh obj\<rparr>"])
    show "account n K L new ?p" if "pr_err ?p = None"
      by (rule account_step [OF _ i, where w = "(pr_workers p ! i)\<lparr>wk_at := Fresh obj\<rparr>"]) (use acc that held_at(3) [OF at] in \<open>auto simp: set_worker_def account_def\<close>)
  qed (use h kn(1) at fresh held_at(3) [OF at] in \<open>auto simp: set_worker_def\<close>)
  show "prun_inv X s0 L n K (worker_dedup i p)"
    if at: "wk_at (pr_workers p ! i) = Took obj \<or> wk_at (pr_workers p ! i) = Fresh obj" and seen: "ob_Key obj \<in> set (pr_seen p)"
      and stored: "ob_Key obj \<in> rec_key ` set (L @ new) \<or> wk_at (pr_workers p ! i) = Took obj"
  proof (rule q [where obs' = obs and w = "(pr_workers p ! i)\<lparr>wk_at := Idle\<rparr>"])
    show "account n K L new (worker_dedup i p)" if "pr_err (worker_dedup i p) = None"
      by (rule account_step [OF _ i, where w = "(pr_workers p ! i)\<lparr>wk_at := Idle\<rparr>"])
        (use acc that held_at(3,4) [of "pr_workers p ! i" obj] at seen stored in \<open>auto simp: set_worker_def worker_dedup_def account_def\<close>)
  qed (use h in \<open>auto simp: set_worker_def worker_dedup_def\<close>)
  show "prun_inv X s0 L n K (set_worker i (Absent obj) p)"
    if at: "wk_at (pr_workers p ! i) = Fresh obj" and new: "ob_Key obj \<notin> rec_key ` set L"
  proof (rule q [where obs' = obs and w = "(pr_workers p ! i)\<lparr>wk_at := Absent obj\<rparr>"])
    show "account n K L new (set_worker i (Absent obj) p)" if "pr_err (set_worker i (Absent obj) p) = None"
      by (rule account_step [OF _ i, where w = "(pr_workers p ! i)\<lparr>wk_at := Absent obj\<rparr>"]) (use acc that held_at(4) [OF at] in \<open>auto simp: set_worker_def account_def\<close>)
  qed (use h kn at new held_at(4) [OF at] in \<open>auto simp: set_worker_def\<close>)
  show "prun_inv X s0 L n K (worker_fail i e p)" if "wk_at (pr_workers p ! i) \<noteq> Gone"
    by (rule q [where obs' = obs and w = "(pr_workers p ! i)\<lparr>wk_at := Gone\<rparr>"]) (use h in \<open>auto simp: set_worker_def worker_fail_def split: option.splits\<close>)
qed

text \<open>Appending the record of a claimed key.\<close>

lemma worker_append:
  assumes X: "fuse_ok X" and st: "store_ok X s0 L new obs p" and ks: "keys_from K p" and acc: "pr_err p = None \<longrightarrow> account n K L new p"
    and i: "i < length (pr_workers p)" and at: "wk_at (pr_workers p ! i) = Absent obj"
    and r: "whole rec" "rec_key rec = ob_Key obj" and q: "appendLocked X (ob_Key obj) rec False (pr_store p) = (e, s')"
  shows "e = Some x \<Longrightarrow> prun_inv X s0 L n K (worker_fail i x (p\<lparr>pr_store := s'\<rparr>))"
    and "e = None \<Longrightarrow> prun_inv X s0 L n K (worker_stored batchSize i ulen m (p\<lparr>pr_store := s'\<rparr>))"
proof -
  let ?w = "pr_workers p ! i" and ?k = "ob_Key obj"
  note h = store_ok_parts [OF st] and kn = held_known [OF st ks i] and hat = held_at(5) [OF at]
  have k: "?k \<in> set (pr_seen p)" "?k \<notin> rec_key ` set new" "?k \<notin> rec_key ` set L" "?k \<in> set obs"
    using kn(1,3,4) hat at by auto
  have q': "appendLocked X (rec_key rec) rec False (pr_store p) = (e, s')" using q r(2) by simp
  from append_log [OF X h(1) r(1) q'] obtain new1 where a: "same_frame (pr_store p) s'" "holds X s' ((L @ new) @ new1)"
    "new1 = [] \<or> new1 = [rec]" "e = None \<longrightarrow> ?k \<in> dom (log_map ((L @ new) @ new1))"
    unfolding r(2) by (elim exE conjE) (rule that; assumption)
  have one: "e = None \<longrightarrow> new1 = [rec]" using a(3,4) k(2,3) by (auto simp: dom_log_map)
  have stw: "store_ok X s0 L (new @ new1) obs p'"
    if p': "pr_store p' = s'" "pr_seen p' = pr_seen p" "pr_workers p' = (pr_workers p)[i := w]" and w: "held w = []" "claimed w = []" "\<And>obj. wk_at w \<noteq> Absent obj"
    for p' w
  proof -
    have c: "claims_ok L new (set (pr_seen p)) (set obs) (pr_workers p)" using st by (simp add: store_ok_def)
    have "claims_ok L (new @ new1) (set (pr_seen p)) (set obs) ((pr_workers p)[i := w])"
      by (rule claims_update [OF c i subset_refl subset_refl]) (use w a(3) r(2) hat in auto)
    moreover have "observed s0 obs s'" by (rule observed_frame [OF h(2) a(1)])
    moreover have "distinct (map rec_key new)" "rec_key ` set new \<subseteq> set (pr_seen p) - rec_key ` set L"
      using st by (simp_all add: store_ok_def)
    then have "distinct (map rec_key (new @ new1))" "rec_key ` set (new @ new1) \<subseteq> set (pr_seen p) - rec_key ` set L"
      using a(3) r(2) k by (elim disjE; simp)+
    ultimately show ?thesis using st a(2) p' by (simp add: store_ok_def)
  qed
  show "prun_inv X s0 L n K (worker_fail i x (p\<lparr>pr_store := s'\<rparr>))" if "e = Some x"
  proof (rule prun_invI [where new = "new @ new1" and obs = obs])
    show "store_ok X s0 L (new @ new1) obs (worker_fail i x (p\<lparr>pr_store := s'\<rparr>))"
      by (rule stw [where w = "?w\<lparr>wk_at := Gone\<rparr>"]) (simp_all add: worker_fail_def set_worker_def)
    show "keys_from K (worker_fail i x (p\<lparr>pr_store := s'\<rparr>))"
      by (rule keys_step [OF ks i, where w = "?w\<lparr>wk_at := Gone\<rparr>"]) (use kn(2) in \<open>auto simp: worker_fail_def set_worker_def\<close>)
  qed (simp add: worker_fail_def set_worker_def split: option.splits)
  show "prun_inv X s0 L n K (worker_stored batchSize i ulen m (p\<lparr>pr_store := s'\<rparr>))" if ok: "e = None"
  proof -
    let ?p = "worker_stored batchSize i ulen m (p\<lparr>pr_store := s'\<rparr>)"
    obtain w where w: "pr_workers ?p = (pr_workers p)[i := w]" "held w = []" "claimed w = []" "\<And>obj. wk_at w \<noteq> Absent obj" "wk_at w \<noteq> Gone"
      by (auto simp: worker_stored_def Let_def held_def claimed_def split: if_splits)
    have f: "pr_store ?p = s'" "pr_seen ?p = pr_seen p" "pr_seq ?p = pr_seq p" "pr_ch ?p = pr_ch p" "pr_open ?p = pr_open p"
      "pr_cancelled ?p = pr_cancelled p" "pr_err ?p = pr_err p" "Stored (pr_stats ?p) = Suc (Stored (pr_stats p))"
      "Deduped (pr_stats ?p) = Deduped (pr_stats p)"
      by (simp_all add: worker_stored_def Let_def)
    have n1: "new1 = [rec]" using one ok by simp
    show ?thesis
    proof (rule prun_invI)
      show "store_ok X s0 L (new @ new1) obs ?p" by (rule stw [OF f(1,2) w(1-4)])
      show "keys_from K ?p" by (rule keys_step [OF ks i w(1)]) (use w(2) f kn(2) in auto)
      assume "pr_err ?p = None"
      then have ac: "account n K L new p" using acc f(7) by simp
      then show "account n K L (new @ new1) ?p"
        by (rule account_step [OF _ i w(1) f(3,5,6)])
          (use ac w f n1 hat r(2) k(1) in \<open>simp_all add: account_def subset_insertI\<close>)
    qed
  qed
qed

lemma worker_flush:
  assumes st: "store_ok X s0 L new obs p" and ks: "keys_from K p" and acc: "pr_err p = None \<longrightarrow> account n K L new p"
    and i: "i < length (pr_workers p)" and at: "wk_at (pr_workers p ! i) = Flush"
    and q: "syncActive (pr_store p) = (e, s')"
  shows "e = Some x \<Longrightarrow> prun_inv X s0 L n K (worker_fail i x (p\<lparr>pr_store := s'\<rparr>))"
    and "e = None \<Longrightarrow> prun_inv X s0 L n K (set_worker i Idle (p\<lparr>pr_store := s'\<rparr>))"
proof -
  have h: "holds X s' (L @ new)" "observed s0 obs s'"
    using syncActive_log [OF store_ok_parts(1) [OF st] q] observed_frame [OF store_ok_parts(2) [OF st]] by simp_all
  show "prun_inv X s0 L n K (worker_fail i x (p\<lparr>pr_store := s'\<rparr>))" if "e = Some x"
    by (rule quiet_step [OF st ks i, where obs' = obs and w = "(pr_workers p ! i)\<lparr>wk_at := Gone\<rparr>"])
      (use h in \<open>simp_all add: set_worker_def worker_fail_def split: option.splits\<close>)
  show "prun_inv X s0 L n K (set_worker i Idle (p\<lparr>pr_store := s'\<rparr>))" (is "prun_inv X s0 L n K ?p") if "e = None"
  proof (rule quiet_step [OF st ks i, where obs' = obs and w = "(pr_workers p ! i)\<lparr>wk_at := Idle\<rparr>"])
    assume "pr_err ?p = None"
    then have ac: "account n K L new p" using acc by (simp add: set_worker_def)
    then show "account n K L new ?p"
      by (rule account_step [OF _ i, where w = "(pr_workers p ! i)\<lparr>wk_at := Idle\<rparr>"])
        (use ac held_at(2) [OF at] in \<open>simp_all add: set_worker_def account_def\<close>)
  qed (use h in \<open>simp_all add: set_worker_def\<close>)
qed

lemma step_inv:
  assumes X: "fuse_ok X" and op: "\<not> st_closed s0" and K: "\<forall>k \<in> K. canonical k" and p: "prun_inv X s0 L n K p"
  shows "prun_inv X s0 L n K (prun_step H X Z batchSize verify mv p)"
proof (cases mv)
  case (Forward quit)
  then show ?thesis using distribute_inv [OF p] by simp
next
  case (Work i quit)
  obtain new obs where o: "store_ok X s0 L new obs p" "keys_from K p" "pr_err p = None \<longrightarrow> account n K L new p"
    using p unfolding prun_inv_def by (elim exE conjE) (rule that; assumption)
  show ?thesis
  proof (cases "length (pr_workers p) \<le> i")
    case True
    then show ?thesis using p Work by (simp add: worker_step_def)
  next
    case False
    then have i: "i < length (pr_workers p)" by simp
    note q = worker_quiet [OF o i] and kn = held_known [OF o(1,2) i] and h = store_ok_parts [OF o(1)]
    have opn: "\<not> st_closed (pr_store p)" using h(2) op by (simp add: observed_def)
    have can: "canonical k" if "k \<in> set (held (pr_workers p ! i))" for k using kn(1) K that by blast
    have step: "worker_step H X Z batchSize verify i quit p = r \<Longrightarrow> prun_inv X s0 L n K r \<Longrightarrow> ?thesis" for r
      using Work by simp
    show ?thesis
    proof (cases "wk_at (pr_workers p ! i)")
      case Idle
      then show ?thesis using False q(1,2,3) p Work
        by (cases "pr_ch p") (simp_all add: worker_step_def)
    next
      case (Took obj)
      show ?thesis
      proof (cases "ob_Key obj \<in> set (pr_seen p)")
        case True
        then show ?thesis using q(5) [of obj] Took False by (intro step) (simp add: worker_step_def addIfAbsent_def)+
      next
        case new: False
        then show ?thesis using q(4) [of obj] Took False by (intro step) (simp add: worker_step_def addIfAbsent_def)+
      qed
    next
      case (Fresh obj)
      have k: "canonical (ob_Key obj)" using can held_at(4) [OF Fresh] by simp
      have has: "Has X (pr_store p) (ob_Key obj) = Inr (ob_Key obj \<in> rec_key ` set (L @ new))"
        using holds_reads(1) [OF h(1) opn] k by (simp add: canonical_def dom_log_map)
      have seen: "ob_Key obj \<in> set (pr_seen p)" using kn(3) held_at(4) [OF Fresh] by simp
      show ?thesis
      proof (cases "ob_Key obj \<in> rec_key ` set (L @ new)")
        case True
        then show ?thesis using q(5) [of obj] Fresh False has seen by (intro step) (simp add: worker_step_def)+
      next
        case new: False
        then show ?thesis using q(6) [of obj] Fresh False has by (intro step) (auto simp: worker_step_def)+
      qed
    next
      case (Absent obj)
      have k: "canonical (ob_Key obj)" using can held_at(5) [OF Absent] by simp
      show ?thesis
      proof (cases "prepare H Z obj verify")
        case (Inl e)
        then show ?thesis using q(7) Absent False by (intro step) (simp add: worker_step_def)+
      next
        case (Inr ru)
        obtain rec ulen where ru: "ru = (rec, ulen)" by (cases ru)
        have w: "whole rec" "rec_key rec = ob_Key obj" using prepare_whole [OF Inr [unfolded ru] k] by simp_all
        obtain e s' where a: "appendLocked X (ob_Key obj) rec False (pr_store p) = (e, s')" by fastforce
        note ap = worker_append [OF X o i Absent w a]
        show ?thesis using ap Absent False Inr ru a by (cases e; intro step) (simp add: worker_step_def)+
      qed
    next
      case Flush
      obtain e s' where a: "syncActive (pr_store p) = (e, s')" by fastforce
      note fl = worker_flush [OF o i Flush a]
      show ?thesis using fl Flush False a by (cases e; intro step) (simp add: worker_step_def)+
    next
      case Gone
      then show ?thesis using p Work False by (simp add: worker_step_def)
    qed
  qed
qed

section \<open>Completing the run\<close>

lemma step_err: "pr_err (prun_step H X Z batchSize verify mv p) = None \<Longrightarrow> pr_err p = None"
  by (cases mv)
    (auto simp: distribute_def worker_step_def worker_fail_def worker_dedup_def worker_stored_def set_worker_def Let_def
      split: list.splits sum.splits option.splits worker_at.splits prod.splits bool.splits if_splits)

definition at_rank :: "worker_at \<Rightarrow> nat" where
  "at_rank at = (case at of Idle \<Rightarrow> 0 | Took _ \<Rightarrow> 4 | Fresh _ \<Rightarrow> 3 | Absent _ \<Rightarrow> 2 | Flush \<Rightarrow> 1 | Gone \<Rightarrow> 0)"

definition gone :: "prun \<Rightarrow> nat \<Rightarrow> bool" where
  "gone p i \<longleftrightarrow> length (pr_workers p) \<le> i \<or> wk_at (pr_workers p ! i) = Gone"

definition work_left :: "nat \<Rightarrow> prun \<Rightarrow> nat" where
  "work_left i p = (if gone p i then 0 else 1 + 5 * length (pr_ch p) + at_rank (wk_at (pr_workers p ! i)))"

lemma worker_step_frame:
  "length (pr_workers (worker_step H X Z batchSize verify i quit p)) = length (pr_workers p)"
  "pr_open (worker_step H X Z batchSize verify i quit p) = pr_open p"
  "length (pr_ch (worker_step H X Z batchSize verify i quit p)) \<le> length (pr_ch p)"
  "gone p j \<Longrightarrow> gone (worker_step H X Z batchSize verify i quit p) j"
  by (auto simp: worker_step_def worker_fail_def worker_dedup_def worker_stored_def set_worker_def gone_def Let_def nth_list_update
      split: list.splits sum.splits option.splits worker_at.splits prod.splits bool.splits if_splits)

lemma worker_step_left:
  assumes "\<not> pr_open p"
  shows "work_left i (worker_step H X Z batchSize verify i False p) \<le> work_left i p - 1"
proof (cases "gone p i")
  case True
  then show ?thesis using worker_step_frame(4) by (simp add: work_left_def)
next
  case False
  then show ?thesis using assms
    by (cases "wk_at (pr_workers p ! i)")
      (auto simp: worker_step_def worker_fail_def worker_dedup_def worker_stored_def set_worker_def gone_def work_left_def at_rank_def Let_def
        split: list.splits sum.splits option.splits prod.splits bool.splits if_splits)
qed

lemma fold_replicate: "fold f (replicate m x) s = (f x ^^ m) s"
  by (induction m arbitrary: s) (simp_all add: funpow_swap1)

lemma run_worker:
  assumes "\<not> pr_open p" and "5 * length (pr_ch p) + 5 < c"
    and q_def: "q = fold (prun_step H X Z batchSize verify) (replicate c (Work i False)) p"
  shows "\<not> pr_open q" "length (pr_ch q) \<le> length (pr_ch p)" "length (pr_workers q) = length (pr_workers p)" "gone q i"
    "gone p j \<Longrightarrow> gone q j"
proof -
  let ?f = "worker_step H X Z batchSize verify i False"
  have step: "prun_step H X Z batchSize verify (Work i False) = ?f" by (rule ext) simp
  have q: "q = (?f ^^ c) p" unfolding q_def fold_replicate step ..
  let ?P = "\<lambda>r. \<not> pr_open r \<and> length (pr_ch r) \<le> length (pr_ch p) \<and> length (pr_workers r) = length (pr_workers p) \<and> (gone p j \<longrightarrow> gone r j)"
  have "?P q \<and> work_left i q \<le> work_left i p - c"
    unfolding q
  proof (rule funpow_shrinks [where P = ?P])
    fix r assume r: "?P r"
    then show "?P (?f r) \<and> work_left i (?f r) \<le> work_left i r - 1"
      using worker_step_left [of r i] worker_step_frame [where p = r and H = H and X = X and Z = Z and batchSize = batchSize and verify = verify and i = i and quit = False] le_trans by auto
  qed (use assms(1) in simp)
  moreover have "work_left i p \<le> c" using assms(2) by (auto simp: work_left_def at_rank_def split: worker_at.splits)
  ultimately show "\<not> pr_open q" "length (pr_ch q) \<le> length (pr_ch p)" "length (pr_workers q) = length (pr_workers p)" "gone q i"
    "gone p j \<Longrightarrow> gone q j" by (auto simp: work_left_def split: if_splits)
qed

lemma run_workers:
  assumes "\<not> pr_open p" and "5 * length (pr_ch p) + 5 < c"
    and q_def: "q = fold (prun_step H X Z batchSize verify) (concat (map (\<lambda>i. replicate c (Work i False)) is)) p"
  shows "\<not> pr_open q \<and> length (pr_workers q) = length (pr_workers p) \<and> (\<forall>i. i \<in> set is \<or> gone p i \<longrightarrow> gone q i)"
  using assms(1,2) unfolding q_def
proof (induction "is" arbitrary: p)
  case Nil
  then show ?case by simp
next
  case (Cons i "is")
  let ?p = "fold (prun_step H X Z batchSize verify) (replicate c (Work i False)) p"
  note r = run_worker [OF Cons.prems refl, where H = H and X = X and Z = Z and batchSize = batchSize and verify = verify and i = i]
  have "5 * length (pr_ch ?p) + 5 < c" using r(2) Cons.prems(2) by simp
  from Cons.IH [OF r(1) this] r(3,4,5) show ?case by auto
qed

lemma forward_closes:
  "\<not> pr_open ((distribute False ^^ Suc (length (pr_seq p))) p) \<and>
   length (pr_ch ((distribute False ^^ Suc (length (pr_seq p))) p)) \<le> length (pr_ch p) + length (pr_seq p) \<and>
   pr_workers ((distribute False ^^ Suc (length (pr_seq p))) p) = pr_workers p"
proof -
  let ?m = "\<lambda>r. if pr_open r then Suc (length (pr_seq r)) else 0"
  let ?P = "\<lambda>r. length (pr_ch r) + length (pr_seq r) \<le> length (pr_ch p) + length (pr_seq p) \<and> pr_workers r = pr_workers p"
  have "?P ((distribute False ^^ Suc (length (pr_seq p))) p) \<and>
      ?m ((distribute False ^^ Suc (length (pr_seq p))) p) \<le> ?m p - Suc (length (pr_seq p))"
    by (rule funpow_shrinks [where P = ?P]) (auto simp: distribute_def split: list.splits sum.splits)
  then show ?thesis by (auto split: if_splits)
qed

lemma drain_done:
  assumes "pr_workers p \<noteq> []"
    and q_def: "q = fold (prun_step H X Z batchSize verify) (drain_moves p) p"
  shows "\<not> pr_open q \<and> pr_workers q \<noteq> [] \<and> (\<forall>w \<in> set (pr_workers q). wk_at w = Gone)"
proof -
  let ?c = "5 * (length (pr_seq p) + length (pr_ch p)) + 6"
  let ?p = "(distribute False ^^ Suc (length (pr_seq p))) p"
  have step: "prun_step H X Z batchSize verify (Forward False) = distribute False" by (rule ext) simp
  have q: "q = fold (prun_step H X Z batchSize verify) (concat (map (\<lambda>i. replicate ?c (Work i False)) [0..<length (pr_workers p)])) ?p"
    by (simp only: q_def drain_moves_def fold_append comp_def fold_replicate step)
  note f = forward_closes [of p]
  have "5 * length (pr_ch ?p) + 5 < ?c" using f by simp
  from run_workers [OF _ this refl] f
  have "\<not> pr_open q \<and> length (pr_workers q) = length (pr_workers p) \<and> (\<forall>i < length (pr_workers p). gone q i)"
    unfolding q by auto
  then show ?thesis using assms(1) by (auto simp: gone_def in_set_conv_nth)
qed

lemma seq_of_objects: "seq_keys (map Inr objs) = map ob_Key objs"
  by (induction objs) simp_all

lemma run_inv:
  assumes "fuse_ok X" and "\<not> st_closed s0" and "\<forall>k \<in> K. canonical k" and "prun_inv X s0 L n K p"
  shows "prun_inv X s0 L n K (fold (prun_step H X Z batchSize verify) ms p)"
  using assms(4) by (induction ms arbitrary: p) (simp_all add: step_inv [OF assms(1-3)])

lemma err_kept: "pr_err (fold (prun_step H X Z batchSize verify) ms p) = None \<Longrightarrow> pr_err p = None"
  by (induction ms arbitrary: p) (auto dest: step_err)

section \<open>The whole run\<close>

lemma WriteParallel_log:
  assumes "fuse_ok X" and "holds X s L" and "\<not> st_closed s" and "\<forall>k \<in> set (seq_keys seq). canonical k" and "0 < procs"
    and "WriteParallel H X Z procs sched seq opts s = ((stats, e), s')"
  shows "\<exists>new obs. holds X s' (L @ new) \<and> observed s obs s' \<and> distinct (map rec_key new) \<and>
     rec_key ` set new \<subseteq> set (seq_keys seq) - dom (log_map L) \<and>
     (e = None \<longrightarrow> set (seq_keys seq) \<subseteq> set obs \<and> (\<forall>k \<in> set (seq_keys seq). Has X s' k = Inr True) \<and>
        Stored stats = length new \<and> Stored stats + Deduped stats = length seq)"
proof -
  let ?K = "set (seq_keys seq)"
  define writers where "writers = (if wo_Writers opts \<le> 0 then procs else nat (wo_Writers opts))"
  define batchSize where "batchSize = (if wo_BatchSize opts \<le> 0 then DefaultBatchSize else nat (wo_BatchSize opts))"
  let ?go = "fold (prun_step H X Z batchSize (wo_Verify opts))"
  define p0 where "p0 = \<lparr>pr_seq = seq, pr_ch = [], pr_open = True, pr_cancelled = False, pr_err = None, pr_seen = [],
               pr_workers = replicate writers \<lparr>wk_at = Idle, wk_pending = 0\<rparr>,
               pr_stats = \<lparr>Stored = 0, Deduped = 0, BytesStored = 0\<rparr>, pr_store = s\<rparr>"
  define p1 where "p1 = ?go sched p0"
  define p where "p = ?go (drain_moves p1) p1"
  obtain serr s2 where sy: "syncActive (pr_store p) = (serr, s2)" by fastforce
  have res: "stats = pr_stats p" "e = (case pr_err p of Some e \<Rightarrow> Some e | None \<Rightarrow> serr)" "s' = s2"
    using assms(6) sy unfolding WriteParallel_def Let_def writers_def [symmetric] batchSize_def [symmetric]
      p0_def [symmetric] p1_def [symmetric] p_def [symmetric] by simp_all
  have "0 < writers" using assms(5) by (simp add: writers_def)
  have idle: "held \<lparr>wk_at = Idle, wk_pending = 0\<rparr> = []" "claimed \<lparr>wk_at = Idle, wk_pending = 0\<rparr> = []"
    by (simp_all add: held_def claimed_def)
  have i0: "prun_inv X s L (length seq) ?K p0"
  proof (rule prun_invI [where new = "[]" and obs = "[]"])
    show "store_ok X s L [] [] p0" using assms(2) observed_refl by (simp add: store_ok_def p0_def claims_ok_def idle)
    show "keys_from ?K p0" by (simp add: keys_from_def p0_def idle)
    show "account (length seq) ?K L [] p0" by (simp add: account_def n_held_def p0_def idle sum_list_triv)
  qed
  note run = run_inv [OF assms(1,3,4)]
  have "prun_inv X s L (length seq) ?K p" unfolding p_def p1_def by (intro run i0)
  then obtain new obs where o: "store_ok X s L new obs p" "keys_from ?K p" "pr_err p = None \<longrightarrow> account (length seq) ?K L new p"
    unfolding prun_inv_def by (elim exE conjE) (rule that; assumption)
  have "length (pr_workers p1) = writers"
  proof -
    have "length (pr_workers (?go ms q)) = length (pr_workers q)" for ms q
    proof (induction ms arbitrary: q)
      case (Cons mv ms)
      then show ?case using worker_step_frame(1)
        by (cases mv) (auto simp: distribute_def split: list.splits sum.splits)
    qed simp
    then show ?thesis by (simp add: p1_def p0_def)
  qed
  then have "pr_workers p1 \<noteq> []" using \<open>0 < writers\<close> by auto
  note dn = drain_done [OF this p_def]
  have h: "holds X s' (L @ new)" "observed s obs s'"
    using syncActive_log [OF store_ok_parts(1) [OF o(1)] sy] observed_frame [OF store_ok_parts(2) [OF o(1)]] res(3) by simp_all
  have op: "\<not> st_closed s'" using h(2) assms(3) by (simp add: observed_def)
  have fin: "?K \<subseteq> set obs \<and> (\<forall>k \<in> ?K. Has X s' k = Inr True) \<and> Stored stats = length new \<and> Stored stats + Deduped stats = length seq"
    if "e = None"
  proof -
    have "pr_err p = None" using that res(2) by (simp split: option.splits)
    then have a: "account (length seq) ?K L new p" using o(3) by simp
    have none: "\<forall>w \<in> set (pr_workers p). held w = [] \<and> claimed w = []" using dn by (auto simp: held_def claimed_def)
    obtain w where w: "w \<in> set (pr_workers p)" using dn by (cases "pr_workers p") auto
    have empty: "pr_ch p = []" "pr_seq p = []" using a dn w unfolding account_def by blast+
    have "n_held p = 0" using none by (simp add: n_held_def)
    then have cnt: "Stored stats = length new" "Stored stats + Deduped stats = length seq"
      using a empty res(1) by (simp_all add: account_def)
    have cov: "\<forall>k \<in> ?K. k \<in> set (pr_seen p) \<or> (\<exists>w \<in> set (pr_workers p). k \<in> set (held w)) \<or> k \<in> ob_Key ` set (pr_ch p) \<or>
        k \<in> set (seq_keys (pr_seq p))"
      "\<forall>k \<in> set (pr_seen p). k \<in> rec_key ` set (L @ new) \<or> (\<exists>w \<in> set (pr_workers p). k \<in> set (claimed w))"
      using a [unfolded account_def, THEN conjunct2, THEN conjunct2, THEN conjunct2] by (rule conjunct2 [THEN conjunct1], rule conjunct1)
    have K: "k \<in> set (pr_seen p)" if "k \<in> ?K" for k using bspec [OF cov(1) that] none by (auto simp: empty)
    have st: "k \<in> rec_key ` set (L @ new)" if "k \<in> set (pr_seen p)" for k using bspec [OF cov(2) that] none by auto
    have "Has X s' k = Inr True" if "k \<in> ?K" for k
      using holds_reads(1) [OF h(1) op] assms(4) that st [OF K [OF that]] by (simp add: canonical_def dom_log_map)
    then show ?thesis using cnt K o(1) by (auto simp: store_ok_def)
  qed
  have sub: "rec_key ` set new \<subseteq> ?K - dom (log_map L)" "distinct (map rec_key new)"
    using o(1,2) by (auto simp: store_ok_def keys_from_def dom_log_map)
  show ?thesis using h sub fin by blast
qed

section \<open>Property\<close>

text \<open>C13: the parallel writer under every interleaving. Whatever order the distributor and the
  workers run in, whichever I/O calls fail and whatever objects repeat, \<open>WriteParallel\<close> leaves
  the old log followed by new records, at most one for a key of the input and none for a key
  that was stored. On success every key of the input is stored and was observed by the write
  barrier, \<open>Stored\<close> counts the new records and each object was stored or deduplicated.\<close>

theorem write_parallel_log:
  assumes "fuse_ok X" and "holds X s L" and "\<not> st_closed s" and "\<forall>k \<in> set (seq_keys seq). canonical k" and "0 < procs"
    and "WriteParallel H X Z procs sched seq opts s = ((stats, e), s')"
  shows "\<exists>new obs. holds X s' (L @ new) \<and> observed s obs s' \<and> distinct (map rec_key new) \<and>
     rec_key ` set new \<subseteq> set (seq_keys seq) - dom (log_map L) \<and>
     (e = None \<longrightarrow> set (seq_keys seq) \<subseteq> set obs \<and> (\<forall>k \<in> set (seq_keys seq). Has X s' k = Inr True) \<and>
        Stored stats = length new \<and> Stored stats + Deduped stats = length seq)"
  by (rule WriteParallel_log [OF assms])

theorem write_parallel_log_witness:
  "\<exists>stats e s' L'. WriteParallel (\<lambda>_. []) all_filter rle_zstd 2 [Forward False, Work 1 False, Work 0 False]
       [Inr \<lparr>ob_Key = wit_key, ob_Data = Some [1, 2, 3, 4, 5], ob_Record = None\<rparr>,
        Inr \<lparr>ob_Key = wit_key, ob_Data = Some [1, 2, 3, 4, 5], ob_Record = None\<rparr>]
       \<lparr>wo_Writers = 0, wo_BatchSize = 0, wo_Verify = False\<rparr> empty_store = ((stats, e), s') \<and>
     holds all_filter s' L' \<and> (e = None \<longrightarrow> Has all_filter s' wit_key = Inr True \<and> Stored stats + Deduped stats = 2)"
proof -
  let ?o = "Inr \<lparr>ob_Key = wit_key, ob_Data = Some [1, 2, 3, 4, 5], ob_Record = None\<rparr> :: ps_err + psObject"
  let ?opts = "\<lparr>wo_Writers = 0, wo_BatchSize = 0, wo_Verify = False\<rparr>"
  obtain stats e s' where p: "WriteParallel (\<lambda>_. []) all_filter rle_zstd 2 [Forward False, Work 1 False, Work 0 False] [?o, ?o] ?opts empty_store
      = ((stats, e), s')" by (metis prod.exhaust)
  have "\<not> st_closed empty_store" "\<forall>k \<in> set (seq_keys [?o, ?o]). canonical k" "(0 :: nat) < 2"
    using wit_key by (simp_all add: empty_store_def)
  from write_parallel_log [OF all_filter_ok empty_store_holds this p] obtain new obs where
    "holds all_filter s' ([] @ new)" "e = None \<longrightarrow> set (seq_keys [?o, ?o]) \<subseteq> set obs \<and>
        (\<forall>k \<in> set (seq_keys [?o, ?o]). Has all_filter s' k = Inr True) \<and> Stored stats = length new \<and>
        Stored stats + Deduped stats = length [?o, ?o]" by (elim exE conjE) (rule that; assumption)
  then show ?thesis using p by (intro exI [of _ stats] exI [of _ e] exI [of _ s'] exI [of _ new]) (auto simp: numeral_2_eq_2)
qed

end
