(* ===== verification/Amber_Ref.thy ===== *)
theory Amber_Ref
  imports Amber_BuildTree "HOL-Library.AList"
begin

text \<open>
  Packages \<open>reference\<close> (the named-pointer record, its rules and its canonical encoding) and
  \<open>refstore\<close> (the records in a Pebble database). The CBOR codec of the record and the
  database are parameters: \<open>ref_cbor_ok\<close> and \<open>pebble_ok\<close> state what the code relies on.
  Go strings are byte lists; \<open>unicode/utf8\<close> is modelled. A nil byte slice and an empty one
  are the same list: the encoder omits both.
\<close>

section \<open>unicode/utf8\<close>

text \<open>Of a first byte: the length of the sequence, the range of its second byte, and how
  many bits of the first byte belong to the rune.\<close>

definition utf8_first :: "byte \<Rightarrow> (nat \<times> byte \<times> byte \<times> nat) option" where
  "utf8_first b =
     (if b < 0xC2 then None
      else if b < 0xE0 then Some (2, 0x80, 0xBF, 5)
      else if b = 0xE0 then Some (3, 0xA0, 0xBF, 4)
      else if b = 0xED then Some (3, 0x80, 0x9F, 4)
      else if b < 0xF0 then Some (3, 0x80, 0xBF, 4)
      else if b = 0xF0 then Some (4, 0x90, 0xBF, 3)
      else if b < 0xF4 then Some (4, 0x80, 0xBF, 3)
      else if b = 0xF4 then Some (4, 0x80, 0x8F, 3)
      else None)"

definition RuneError :: nat where "RuneError = 0xFFFD"

definition utf8_cont :: "byte \<Rightarrow> bool" where
  "utf8_cont b \<longleftrightarrow> 0x80 \<le> b \<and> b \<le> 0xBF"

definition utf8_bits :: "nat \<Rightarrow> byte \<Rightarrow> nat" where
  "utf8_bits n b = unat b mod 2 ^ n"

text \<open>The rune at the head of a string and the number of bytes it takes.\<close>

definition DecodeRune :: "bytes \<Rightarrow> nat \<times> nat" where
  "DecodeRune s =
     (case s of
        [] \<Rightarrow> (RuneError, 0)
      | b # s' \<Rightarrow>
          if b < 0x80 then (unat b, 1)
          else case utf8_first b of
            None \<Rightarrow> (RuneError, 1)
          | Some (sz, lo, hi, m) \<Rightarrow>
              if length s < sz \<or> \<not> (lo \<le> s ! 1 \<and> s ! 1 \<le> hi) \<or> \<not> list_all utf8_cont (slice 2 sz s) then (RuneError, 1)
              else (foldl (\<lambda>r c. r * 64 + utf8_bits 6 c) (utf8_bits m b) (slice 1 sz s), sz))"

lemma DecodeRune_size: "s \<noteq> [] \<Longrightarrow> 0 < snd (DecodeRune s)"
  by (auto simp: DecodeRune_def utf8_first_def Let_def split: list.splits)

text \<open>The runes of a range loop over a string, each with its size.\<close>

function utf8_runes :: "bytes \<Rightarrow> (nat \<times> nat) list" where
  "utf8_runes s = (if s = [] then [] else DecodeRune s # utf8_runes (drop (snd (DecodeRune s)) s))"
  by pat_completeness auto
termination
  by (relation "measure length") (auto intro!: diff_less DecodeRune_size)

declare utf8_runes.simps [simp del]

definition ValidString :: "bytes \<Rightarrow> bool" where
  "ValidString s = list_all (\<lambda>r. r \<noteq> (RuneError, 1)) (utf8_runes s)"

section \<open>reference: the record and its rules\<close>

datatype ref_err =
    NameEmpty | NameTooLong | NameNotUTF8 | NameAt | NameControl
  | UserEmpty | UserTooLong | UserNotUTF8 | UserControl
  | RefKey key_err | SignatureTooLong | PublicKeyTooLong
  | RefEncode | RefDecode | RefInvalid ref_err | RefNotCanonical

definition MaxNameLen :: nat where "MaxNameLen = 1024"
definition MaxUserLen :: nat where "MaxUserLen = 1024"
definition MaxSignatureLen :: nat where "MaxSignatureLen = 64 * 2 ^ 10"
definition MaxPublicKeyLen :: nat where "MaxPublicKeyLen = 16 * 2 ^ 10"

record Reference =
  Ref_Name :: bytes
  Ref_Key :: bytes
  Ref_User :: bytes
  Ref_CreatedAt :: u64
  Ref_Signature :: bytes
  Ref_PublicKey :: bytes

fun name_runes :: "nat list \<Rightarrow> ref_err option" where
  "name_runes [] = None"
| "name_runes (r # rs) =
     (if r = 0x40 then Some NameAt else if r < 0x20 \<or> r = 0x7F then Some NameControl else name_runes rs)"

definition ValidateName :: "bytes \<Rightarrow> ref_err option" where
  "ValidateName name =
     (if name = [] then Some NameEmpty
      else if length name > MaxNameLen then Some NameTooLong
      else if \<not> ValidString name then Some NameNotUTF8
      else name_runes (map fst (utf8_runes name)))"

fun user_runes :: "nat list \<Rightarrow> ref_err option" where
  "user_runes [] = None"
| "user_runes (r # rs) = (if r < 0x20 \<or> r = 0x7F then Some UserControl else user_runes rs)"

definition ValidateUser :: "bytes \<Rightarrow> ref_err option" where
  "ValidateUser user =
     (if user = [] then Some UserEmpty
      else if length user > MaxUserLen then Some UserTooLong
      else if \<not> ValidString user then Some UserNotUTF8
      else user_runes (map fst (utf8_runes user)))"

definition ref_validate :: "Reference \<Rightarrow> ref_err option" where
  "ref_validate r =
     (case ValidateName (Ref_Name r) of
        Some e \<Rightarrow> Some e
      | None \<Rightarrow>
          (case Parse (Ref_Key r) of
             Inl e \<Rightarrow> Some (RefKey e)
           | Inr _ \<Rightarrow>
               (case (if Ref_User r \<noteq> [] then ValidateUser (Ref_User r) else None) of
                  Some e \<Rightarrow> Some e
                | None \<Rightarrow>
                    if length (Ref_Signature r) > MaxSignatureLen then Some SignatureTooLong
                    else if length (Ref_PublicKey r) > MaxPublicKeyLen then Some PublicKeyTooLong
                    else None)))"

record ref_cbor =
  MarshalRef :: "Reference \<Rightarrow> bytes option"
  UnmarshalRef :: "bytes \<Rightarrow> Reference option"

definition Ref_Encode :: "ref_cbor \<Rightarrow> Reference \<Rightarrow> ref_err + bytes" where
  "Ref_Encode RC r =
     (case ref_validate r of
        Some e \<Rightarrow> Inl e
      | None \<Rightarrow> (case MarshalRef RC r of None \<Rightarrow> Inl RefEncode | Some b \<Rightarrow> Inr b))"

definition Ref_Decode :: "ref_cbor \<Rightarrow> bytes \<Rightarrow> ref_err + Reference" where
  "Ref_Decode RC b =
     (case UnmarshalRef RC b of
        None \<Rightarrow> Inl RefDecode
      | Some r \<Rightarrow>
          (case ref_validate r of
             Some e \<Rightarrow> Inl (RefInvalid e)
           | None \<Rightarrow>
               (case MarshalRef RC r of
                  None \<Rightarrow> Inl RefEncode
                | Some canon \<Rightarrow> if canon \<noteq> b then Inl RefNotCanonical else Inr r)))"

definition SignaturePayload :: "ref_cbor \<Rightarrow> Reference \<Rightarrow> ref_err + bytes" where
  "SignaturePayload RC r = Ref_Encode RC (r\<lparr>Ref_Signature := []\<rparr>)"

text \<open>What \<open>Decode\<close> relies on: unmarshalling the encoding of a valid record returns it.\<close>

definition ref_cbor_ok :: "ref_cbor \<Rightarrow> bool" where
  "ref_cbor_ok RC \<longleftrightarrow>
     (\<forall>r b. ref_validate r = None \<and> MarshalRef RC r = Some b \<longrightarrow> UnmarshalRef RC b = Some r)"

section \<open>refstore\<close>

text \<open>The database calls: \<open>Set\<close>, \<open>Get\<close> (\<open>None\<close> for \<open>pebble.ErrNotFound\<close>) and its closer, \<open>Delete\<close>,
  an iteration from the first key with the error it ends with and the iterator's \<open>Close\<close>,
  a deletion added to a batch, and the batch's \<open>Commit\<close>.\<close>

record 'db pebble =
  pb_Set :: "bytes \<Rightarrow> bytes \<Rightarrow> 'db \<Rightarrow> string option \<times> 'db"
  pb_Get :: "bytes \<Rightarrow> 'db \<Rightarrow> string + bytes option"
  pb_CloseGet :: "bytes \<Rightarrow> 'db \<Rightarrow> string option"
  pb_Delete :: "bytes \<Rightarrow> 'db \<Rightarrow> string option \<times> 'db"
  pb_Iter :: "'db \<Rightarrow> string + (bytes \<times> bytes) list \<times> string option"
  pb_CloseIter :: "'db \<Rightarrow> string option"
  pb_BatchDelete :: "bytes \<Rightarrow> bytes list \<Rightarrow> string + bytes list"
  pb_Commit :: "bytes list \<Rightarrow> 'db \<Rightarrow> string option \<times> 'db"

datatype rs_err = RefNotFound | PebbleErr string

definition Refs_Put :: "'db pebble \<Rightarrow> bytes \<Rightarrow> bytes \<Rightarrow> 'db \<Rightarrow> rs_err option \<times> 'db" where
  "Refs_Put P name rec db = apfst (map_option PebbleErr) (pb_Set P name rec db)"

definition Refs_Get :: "'db pebble \<Rightarrow> bytes \<Rightarrow> 'db \<Rightarrow> rs_err + bytes" where
  "Refs_Get P name db =
     (case pb_Get P name db of
        Inl e \<Rightarrow> Inl (PebbleErr e)
      | Inr None \<Rightarrow> Inl RefNotFound
      | Inr (Some v) \<Rightarrow> (case pb_CloseGet P name db of Some e \<Rightarrow> Inl (PebbleErr e) | None \<Rightarrow> Inr v))"

definition Refs_Delete :: "'db pebble \<Rightarrow> bytes \<Rightarrow> 'db \<Rightarrow> rs_err option \<times> 'db" where
  "Refs_Delete P name db =
     (case Refs_Get P name db of
        Inl e \<Rightarrow> (Some e, db)
      | Inr _ \<Rightarrow> apfst (map_option PebbleErr) (pb_Delete P name db))"

definition Refs_All :: "'db pebble \<Rightarrow> 'db \<Rightarrow> rs_err + (bytes \<times> bytes) list" where
  "Refs_All P db =
     (case pb_Iter P db of
        Inl e \<Rightarrow> Inl (PebbleErr e)
      | Inr (recs, Some e) \<Rightarrow> Inl (PebbleErr e)
      | Inr (recs, None) \<Rightarrow> Inr recs)"

fun batch_deletes :: "'db pebble \<Rightarrow> bytes list \<Rightarrow> bytes list \<Rightarrow> string + bytes list" where
  "batch_deletes P b [] = Inr b"
| "batch_deletes P b (n # ns) = (case pb_BatchDelete P n b of Inl e \<Rightarrow> Inl e | Inr b' \<Rightarrow> batch_deletes P b' ns)"

definition Refs_Wipe :: "'db pebble \<Rightarrow> 'db \<Rightarrow> rs_err option \<times> 'db" where
  "Refs_Wipe P db =
     (case pb_Iter P db of
        Inl e \<Rightarrow> (Some (PebbleErr e), db)
      | Inr (recs, iterErr) \<Rightarrow>
          (case batch_deletes P [] (map fst recs) of
             Inl e \<Rightarrow> (Some (PebbleErr e), db)
           | Inr b \<Rightarrow>
               (case iterErr of
                  Some e \<Rightarrow> (Some (PebbleErr e), db)
                | None \<Rightarrow>
                    (case pb_CloseIter P db of
                       Some e \<Rightarrow> (Some (PebbleErr e), db)
                     | None \<Rightarrow> apfst (map_option PebbleErr) (pb_Commit P b db)))))"

text \<open>What the code relies on: the database holds a map, reads are answered from it, an
  iteration that ends without an error lists it in key order, a write that returns no error
  is applied and one that returns an error is applied or not, as a whole.\<close>

definition applied :: "('db \<Rightarrow> bytes \<rightharpoonup> bytes) \<Rightarrow> 'db \<Rightarrow> (bytes \<rightharpoonup> bytes) \<Rightarrow> string option \<times> 'db \<Rightarrow> bool" where
  "applied m db after r \<longleftrightarrow> (if fst r = None then m (snd r) = after else m (snd r) = after \<or> m (snd r) = m db)"

definition pebble_ok :: "'db pebble \<Rightarrow> ('db \<Rightarrow> bytes \<rightharpoonup> bytes) \<Rightarrow> bool" where
  "pebble_ok P m \<longleftrightarrow>
     (\<forall>k v db. applied m db ((m db)(k \<mapsto> v)) (pb_Set P k v db)) \<and>
     (\<forall>k db r. pb_Get P k db = Inr r \<longrightarrow> r = m db k) \<and>
     (\<forall>k db. applied m db ((m db)(k := None)) (pb_Delete P k db)) \<and>
     (\<forall>db recs. pb_Iter P db = Inr (recs, None) \<longrightarrow> sorted_wrt (<) (map fst recs) \<and> map_of recs = m db) \<and>
     (\<forall>k b b'. pb_BatchDelete P k b = Inr b' \<longrightarrow> set b' = insert k (set b)) \<and>
     (\<forall>b db. applied m db (m db |` (- set b)) (pb_Commit P b db))"

section \<open>Lemmas: runes and bytes\<close>

lemma DecodeRune_ascii [simp]: "b < 0x80 \<Longrightarrow> DecodeRune (b # s) = (unat b, 1)"
  by (simp add: DecodeRune_def)

lemma utf8_first_bounds:
  assumes "utf8_first b = Some (sz, lo, hi, m)" and "lo \<le> c" and "c \<le> hi"
  shows "2 \<le> sz \<and> sz \<le> 4 \<and> 0x80 \<le> c \<and> 2 \<le> utf8_bits m b * 64 + utf8_bits 6 c \<and>
     (sz = 2 \<longrightarrow> 128 \<le> utf8_bits m b * 64 + utf8_bits 6 c)"
proof -
  have md: "w mod n = w - q * n" if "q * n \<le> w" "w - q * n < n" for w n q :: nat
  proof -
    have e: "w - q * n + q * n = w" using that(1) by (rule le_add_diff_inverse2)
    have "(w - q * n + q * n) mod n = (w - q * n) mod n" by (rule mod_mult_self1)
    then show ?thesis unfolding e using that(2) by (simp only: mod_less)
  qed
  have c: "unat c mod 64 = unat c - 128" if "128 \<le> unat c" "unat c \<le> 191"
    using that md [where q = 2 and n = 64 and w = "unat c"] by simp
  have b: "unat b mod 32 = unat b - 192" if "192 \<le> unat b" "unat b < 224"
    using that md [where q = 6 and n = 32 and w = "unat b"] by simp
  have b': "unat b mod 16 = unat b - 224" if "224 \<le> unat b" "unat b < 240"
    using that md [where q = 14 and n = 16 and w = "unat b"] by simp
  have b'': "unat b mod 8 = unat b - 240" if "240 \<le> unat b" "unat b < 248"
    using that md [where q = 30 and n = 8 and w = "unat b"] by simp
  show ?thesis using assms c b b' b''
    by (auto simp: utf8_first_def utf8_bits_def word_le_nat_alt word_less_nat_alt word_unat_eq_iff split: if_splits)
qed

lemma rune_tail: "2 \<le> r \<Longrightarrow> cs \<noteq> [] \<Longrightarrow> 128 \<le> foldl (\<lambda>r c. r * 64 + utf8_bits 6 c) (r::nat) cs"
proof (induction cs arbitrary: r)
  case (Cons c cs)
  then show ?case by (cases "cs = []") auto
qed simp

text \<open>A sequence that decodes and is not ASCII: a rune of at least 128, from bytes of at least 128.\<close>

lemma DecodeRune_multi:
  assumes "0x80 \<le> b" and "DecodeRune (b # s) = (r, n)" and "(r, n) \<noteq> (RuneError, 1)"
  shows "128 \<le> r \<and> list_all (\<lambda>c. 0x80 \<le> c) (take n (b # s))"
proof -
  have nb: "\<not> b < 0x80" using assms(1) by simp
  obtain sz lo hi m where f1: "utf8_first b = Some (sz, lo, hi, m)"
  proof (cases "utf8_first b")
    case None
    then show thesis using assms(2,3) nb by (simp add: DecodeRune_def)
  next
    case (Some q)
    then show thesis using that by (cases q) auto
  qed
  define bad where "bad \<longleftrightarrow> length (b # s) < sz \<or> \<not> (lo \<le> (b # s) ! 1 \<and> (b # s) ! 1 \<le> hi) \<or> \<not> list_all utf8_cont (slice 2 sz (b # s))"
  have d: "(r, n) = (if bad then (RuneError, 1)
      else (foldl (\<lambda>r c. r * 64 + utf8_bits 6 c) (utf8_bits m b) (slice 1 sz (b # s)), sz))"
    using assms(2) nb f1 unfolding DecodeRune_def bad_def by (simp only: list.case if_False option.case prod.case)
  have nbad: "\<not> bad" using d assms(3) by (cases bad) simp_all
  then have f: "utf8_first b = Some (sz, lo, hi, m)" "\<not> Suc (length s) < sz"
    "lo \<le> (b # s) ! 1" "(b # s) ! 1 \<le> hi" "list_all utf8_cont (slice 2 sz (b # s))"
    "r = foldl (\<lambda>r c. r * 64 + utf8_bits 6 c) (utf8_bits m b) (slice 1 sz (b # s))" "n = sz"
    using f1 d by (simp_all add: bad_def)
  note bd = utf8_first_bounds [OF f(1,3,4)]
  obtain c s' where s: "s = c # s'" using conjunct1 [OF bd] f(2) by (cases s) auto
  obtain k where "sz = 2 + k" using le_Suc_ex [OF conjunct1 [OF bd]] by blast
  then have k: "sz = Suc (Suc k)" by simp
  have sl: "slice 1 sz (b # s) = c # take k s'" "slice 2 sz (b # s) = take k s'" by (simp_all add: slice_def s k)
  have r: "r = foldl (\<lambda>r c. r * 64 + utf8_bits 6 c) (utf8_bits m b * 64 + utf8_bits 6 c) (take k s')" using f(6) sl(1) by simp
  have "128 \<le> r"
  proof (cases "k = 0")
    case True
    then show ?thesis using bd r k s by simp
  next
    case False
    then have "take k s' \<noteq> []" using f(2) s k by auto
    then show ?thesis unfolding r by (intro rune_tail) (use bd s in simp_all)
  qed
  moreover have "list_all (\<lambda>c. 0x80 \<le> c) (take n (b # s))"
  proof -
    have "list_all (\<lambda>c. 0x80 \<le> c) (take k s')" using f(5) unfolding sl(2) by (rule list.pred_mono_strong) (simp add: utf8_cont_def)
    moreover have "0x80 \<le> c" using bd by (simp add: s)
    ultimately show ?thesis using assms(1) by (simp add: s k f(7))
  qed
  ultimately show ?thesis by simp
qed

lemma runes_bytes:
  assumes "ValidString s" and "\<And>x. 128 \<le> x \<Longrightarrow> P x"
  shows "list_all P (map fst (utf8_runes s)) \<longleftrightarrow> list_all (\<lambda>b. P (unat b)) s"
  using assms(1)
proof (induction s rule: utf8_runes.induct)
  case (1 s)
  show ?case
  proof (cases s)
    case Nil
    then show ?thesis by (simp add: utf8_runes.simps)
  next
    case (Cons b t)
    obtain r n where d: "DecodeRune s = (r, n)" by fastforce
    have u: "utf8_runes s = (r, n) # utf8_runes (drop n s)" using Cons d by (subst utf8_runes.simps) simp
    have v: "(r, n) \<noteq> (RuneError, 1)" "ValidString (drop n s)" using "1.prems" by (simp_all add: ValidString_def u)
    have ih: "list_all P (map fst (utf8_runes (drop n s))) \<longleftrightarrow> list_all (\<lambda>b. P (unat b)) (drop n s)"
      using "1.IH" v(2) Cons d by simp
    have hd: "P r \<longleftrightarrow> list_all (\<lambda>b. P (unat b)) (take n s)"
    proof (cases "b < 0x80")
      case True
      then show ?thesis using d Cons by auto
    next
      case False
      then have m: "128 \<le> r" "list_all (\<lambda>c. 0x80 \<le> c) (take n s)"
        using DecodeRune_multi [of b t r n] d Cons v(1) by simp_all
      have "list_all (\<lambda>b. P (unat b)) (take n s)"
        using m(2) assms(2) by (auto simp: list_all_iff word_le_nat_alt)
      then show ?thesis using assms(2) m(1) by simp
    qed
    have "list_all (\<lambda>b. P (unat b)) s \<longleftrightarrow> list_all (\<lambda>b. P (unat b)) (take n s @ drop n s)" by (simp only: append_take_drop_id)
    then show ?thesis unfolding u list_all_append using hd ih by simp
  qed
qed

lemma name_runes_ok: "name_runes rs = None \<longleftrightarrow> list_all (\<lambda>r. r \<noteq> 64 \<and> 32 \<le> r \<and> r \<noteq> 127) rs"
  by (induction rs) auto

lemma user_runes_ok: "user_runes rs = None \<longleftrightarrow> list_all (\<lambda>r. 32 \<le> r \<and> r \<noteq> 127) rs"
  by (induction rs) auto

section \<open>Lemmas: the record\<close>

lemma Decode_iff:
  assumes "ref_cbor_ok RC"
  shows "Ref_Decode RC b = Inr r \<longleftrightarrow> Ref_Encode RC r = Inr b"
proof -
  have u: "UnmarshalRef RC b = Some r" if "ref_validate r = None" "MarshalRef RC r = Some b" for r
    using assms that by (simp add: ref_cbor_ok_def)
  show ?thesis using u [of r] by (auto simp: Ref_Decode_def Ref_Encode_def split: option.splits if_splits)
qed

lemma Encode_inj:
  assumes "ref_cbor_ok RC" and "Ref_Encode RC r = Inr b" and "Ref_Encode RC r' = Inr b"
  shows "r = r'"
  using assms(2,3) Decode_iff [OF assms(1)] by (metis sum.inject(2))

text \<open>A codec and a database that keep the contracts, for concrete runs.\<close>

definition frame_ref :: ref_cbor where
  "frame_ref =
     \<lparr>MarshalRef = (\<lambda>r. Some (frames [Ref_Name r, Ref_Key r, Ref_User r, PutUint64 (Ref_CreatedAt r), Ref_Signature r, Ref_PublicKey r])),
      UnmarshalRef = (\<lambda>b. map_option (\<lambda>fs. \<lparr>Ref_Name = fs ! 0, Ref_Key = fs ! 1, Ref_User = fs ! 2, Ref_CreatedAt = Uint64 (fs ! 3),
                            Ref_Signature = fs ! 4, Ref_PublicKey = fs ! 5\<rparr>) (parse_frames b))\<rparr>"

lemma frame_ref_ok: "ref_cbor_ok frame_ref"
  using Uint64_PutUint64 [of _ "[]"] by (auto simp: ref_cbor_ok_def frame_ref_def)

definition mem_pebble :: "(bytes \<times> bytes) list pebble" where
  "mem_pebble =
     \<lparr>pb_Set = (\<lambda>k v db. (None, AList.update k v db)), pb_Get = (\<lambda>k db. Inr (map_of db k)), pb_CloseGet = (\<lambda>_ _. None),
      pb_Delete = (\<lambda>k db. (None, AList.delete k db)),
      pb_Iter = (\<lambda>db. if sorted_wrt (<) (map fst db) then Inr (db, None) else Inl ''unsorted''),
      pb_CloseIter = (\<lambda>_. None), pb_BatchDelete = (\<lambda>k b. Inr (k # b)),
      pb_Commit = (\<lambda>b db. (None, filter (\<lambda>p. fst p \<notin> set b) db))\<rparr>"

lemma map_of_filter_out: "map_of (filter (\<lambda>p. fst p \<notin> B) db) = map_of db |` (- B)"
  by (induction db) (auto simp: restrict_map_def fun_eq_iff)

lemma mem_pebble_ok: "pebble_ok mem_pebble map_of"
  by (simp add: pebble_ok_def mem_pebble_def applied_def update_conv' delete_conv' map_of_filter_out)

lemma refs_refine:
  assumes "pebble_ok P m"
  shows "(case Refs_Put P n v db of (e, db') \<Rightarrow> m db' = (m db)(n \<mapsto> v) \<or> e \<noteq> None \<and> m db' = m db) \<and>
     (case Refs_Get P n db of Inr v \<Rightarrow> m db n = Some v | Inl e \<Rightarrow> m db n = None \<or> e \<noteq> RefNotFound) \<and>
     (case Refs_Delete P n db of (e, db') \<Rightarrow>
        e = None \<and> n \<in> dom (m db) \<and> m db' = (m db)(n := None) \<or>
        e = Some RefNotFound \<and> n \<notin> dom (m db) \<and> db' = db \<or>
        (\<exists>x. e = Some (PebbleErr x)) \<and> (m db' = m db \<or> m db' = (m db)(n := None))) \<and>
     (case Refs_All P db of Inl e \<Rightarrow> True | Inr recs \<Rightarrow> sorted_wrt (<) (map fst recs) \<and> map_of recs = m db) \<and>
     (case Refs_Wipe P db of (e, db') \<Rightarrow> m db' = Map.empty \<or> e \<noteq> None \<and> m db' = m db)"
proof -
  have ok: "applied m db ((m db)(n \<mapsto> v)) (pb_Set P n v db)" "pb_Get P n db = Inr r \<Longrightarrow> r = m db n"
    "applied m db ((m db)(n := None)) (pb_Delete P n db)"
    "pb_Iter P db = Inr (recs, None) \<Longrightarrow> sorted_wrt (<) (map fst recs) \<and> map_of recs = m db"
    "pb_BatchDelete P k b = Inr b' \<Longrightarrow> set b' = insert k (set b)"
    "applied m db (m db |` (- set b)) (pb_Commit P b db)" for r recs k b b'
    using assms by (auto simp: pebble_ok_def)
  have put: "case Refs_Put P n v db of (e, db') \<Rightarrow> m db' = (m db)(n \<mapsto> v) \<or> e \<noteq> None \<and> m db' = m db"
    using ok(1) by (auto simp: Refs_Put_def apfst_def map_prod_def applied_def split: prod.splits if_splits)
  have get: "case Refs_Get P n db of Inr v \<Rightarrow> m db n = Some v | Inl e \<Rightarrow> m db n = None \<or> e \<noteq> RefNotFound"
    using ok(2) by (auto simp: Refs_Get_def split: sum.splits option.splits)
  have del: "case Refs_Delete P n db of (e, db') \<Rightarrow>
        e = None \<and> n \<in> dom (m db) \<and> m db' = (m db)(n := None) \<or>
        e = Some RefNotFound \<and> n \<notin> dom (m db) \<and> db' = db \<or>
        (\<exists>x. e = Some (PebbleErr x)) \<and> (m db' = m db \<or> m db' = (m db)(n := None))"
  proof -
    obtain e db' where d: "pb_Delete P n db = (e, db')" by fastforce
    have a: "if e = None then m db' = (m db)(n := None) else m db' = (m db)(n := None) \<or> m db' = m db"
      using ok(3) d by (cases e) (simp_all add: applied_def)
    show ?thesis
      using get a by (auto simp: Refs_Delete_def Refs_Get_def d split: sum.splits option.splits if_splits)
  qed
  have all: "case Refs_All P db of Inl e \<Rightarrow> True | Inr recs \<Rightarrow> sorted_wrt (<) (map fst recs) \<and> map_of recs = m db"
    using ok(4) by (auto simp: Refs_All_def split: sum.splits option.splits prod.splits)
  have batch: "set b' = set ns \<union> set b" if "batch_deletes P b ns = Inr b'" for b b' ns
    using that
  proof (induction ns arbitrary: b)
    case (Cons n ns)
    then obtain c where c: "pb_BatchDelete P n b = Inr c" "batch_deletes P c ns = Inr b'" by (auto split: sum.splits)
    show ?case using Cons.IH [OF c(2)] ok(5) [OF c(1)] by simp
  qed simp
  have wipe: "case Refs_Wipe P db of (e, db') \<Rightarrow> m db' = Map.empty \<or> e \<noteq> None \<and> m db' = m db"
  proof -
    have "m db |` (- set b) = Map.empty"
      if "pb_Iter P db = Inr (recs, None)" "batch_deletes P [] (map fst recs) = Inr b" for recs b
    proof -
      have "set b = dom (m db)" using batch [OF that(2)] ok(4) [OF that(1)] dom_map_of_conv_image_fst [of recs] by simp
      then show ?thesis by (auto simp: restrict_map_def fun_eq_iff domIff)
    qed
    then have "m d = Map.empty \<or> x \<noteq> None \<and> m d = m db"
      if "pb_Iter P db = Inr (recs, None)" "batch_deletes P [] (map fst recs) = Inr b" "pb_Commit P b db = (x, d)" for recs b x d
      using ok(6) [of b] that by (cases x) (simp_all add: applied_def)
    then show ?thesis
      by (fastforce simp: Refs_Wipe_def apfst_def map_prod_def split: sum.splits option.splits prod.splits)
  qed
  show ?thesis using put get del all wipe by blast
qed

section \<open>Properties\<close>

text \<open>The name rules are rules on bytes. \<open>ValidateName\<close> and \<open>ValidateUser\<close> reject runes, in a
  loop over the decoded string; what they accept is exactly the non-empty UTF-8 strings of at
  most 1024 bytes without a control byte and, for a name, without the byte of \<open>@\<close>: no
  multi-byte sequence hides a separator or a control character.\<close>

theorem names_by_bytes:
  "(ValidateName name = None \<longleftrightarrow>
      name \<noteq> [] \<and> length name \<le> 1024 \<and> ValidString name \<and> list_all (\<lambda>b. 0x20 \<le> b \<and> b \<noteq> 0x40 \<and> b \<noteq> 0x7F) name) \<and>
   (ValidateUser user = None \<longleftrightarrow>
      user \<noteq> [] \<and> length user \<le> 1024 \<and> ValidString user \<and> list_all (\<lambda>b. 0x20 \<le> b \<and> b \<noteq> 0x7F) user)"
proof -
  have b: "(unat b \<noteq> 64 \<and> 32 \<le> unat b \<and> unat b \<noteq> 127) = (0x20 \<le> b \<and> b \<noteq> 0x40 \<and> b \<noteq> 0x7F)"
    "(32 \<le> unat b \<and> unat b \<noteq> 127) = (0x20 \<le> b \<and> b \<noteq> 0x7F)" for b :: byte
    by (auto simp: word_le_nat_alt word_unat_eq_iff)
  have n: "list_all (\<lambda>r. r \<noteq> 64 \<and> 32 \<le> r \<and> r \<noteq> 127) (map fst (utf8_runes name)) =
      list_all (\<lambda>b. 0x20 \<le> b \<and> b \<noteq> 0x40 \<and> b \<noteq> 0x7F) name" if "ValidString name"
    unfolding b [symmetric] by (rule runes_bytes [OF that]) auto
  have u: "list_all (\<lambda>r. 32 \<le> r \<and> r \<noteq> 127) (map fst (utf8_runes user)) = list_all (\<lambda>b. 0x20 \<le> b \<and> b \<noteq> 0x7F) user"
    if "ValidString user"
    unfolding b [symmetric] by (rule runes_bytes [OF that]) auto
  show ?thesis
    using n u by (auto simp: ValidateName_def ValidateUser_def MaxNameLen_def MaxUserLen_def name_runes_ok user_runes_ok)
qed

text \<open>C26: the encoding of a reference is unique. \<open>Decode\<close> accepts a byte string as the record
  \<open>r\<close> exactly when \<open>Encode\<close> of \<open>r\<close> returns it; so accepted encodings round trip and a record has
  one encoding. Two records with the same signature payload agree in everything but the
  signature: a signature covers every other field, the public key included.\<close>

theorem reference_canonical:
  assumes "ref_cbor_ok RC"
  shows "(Ref_Decode RC b = Inr r) = (Ref_Encode RC r = Inr b) \<and>
     (SignaturePayload RC r = Inr p \<and> SignaturePayload RC r' = Inr p \<longrightarrow> r\<lparr>Ref_Signature := Ref_Signature r'\<rparr> = r')"
proof (intro conjI impI)
  show "(Ref_Decode RC b = Inr r) = (Ref_Encode RC r = Inr b)" by (rule Decode_iff [OF assms])
  assume "SignaturePayload RC r = Inr p \<and> SignaturePayload RC r' = Inr p"
  then have "r\<lparr>Ref_Signature := []\<rparr> = r'\<lparr>Ref_Signature := []\<rparr>"
    using Encode_inj [OF assms, of "r\<lparr>Ref_Signature := []\<rparr>" p] by (simp add: SignaturePayload_def)
  then show "r\<lparr>Ref_Signature := Ref_Signature r'\<rparr> = r'"
    by (cases r; cases r') simp
qed

theorem reference_canonical_witness:
  "\<exists>b. Ref_Encode frame_ref \<lparr>Ref_Name = [97, 47, 98], Ref_Key = 0 # 5 # replicate 30 7, Ref_User = [], Ref_CreatedAt = 9,
       Ref_Signature = [1], Ref_PublicKey = []\<rparr> = Inr b \<and>
     Ref_Decode frame_ref b = Inr \<lparr>Ref_Name = [97, 47, 98], Ref_Key = 0 # 5 # replicate 30 7, Ref_User = [], Ref_CreatedAt = 9,
       Ref_Signature = [1], Ref_PublicKey = []\<rparr>"
proof -
  let ?r = "\<lparr>Ref_Name = [97, 47, 98], Ref_Key = 0 # 5 # replicate 30 7, Ref_User = [], Ref_CreatedAt = 9,
       Ref_Signature = [1], Ref_PublicKey = []\<rparr>"
  have "canonical (Ref_Key ?r)" by (simp add: canonical_def is_key_def Size_def Validate_def Key_Type_def IsValid_def ktype_defs)
  moreover have "ValidateName (Ref_Name ?r) = None"
    by (simp add: ValidateName_def MaxNameLen_def ValidString_def utf8_runes.simps RuneError_def)
  ultimately have "ref_validate ?r = None"
    by (simp add: ref_validate_def Parse_ok [THEN iffD2] MaxSignatureLen_def MaxPublicKeyLen_def)
  then obtain b where b: "Ref_Encode frame_ref ?r = Inr b" by (simp add: Ref_Encode_def frame_ref_def)
  then show ?thesis using reference_canonical [OF frame_ref_ok, of b ?r] by blast
qed

text \<open>C27: the reference store is a map. Over a database that keeps its contract, \<open>Put\<close> and
  \<open>Delete\<close> update the map of names, or report an error and leave it as it was or as the update
  would; \<open>Delete\<close> reports an absent name and then changes nothing; \<open>Get\<close> and \<open>All\<close> answer
  from the map, \<open>All\<close> in name order; \<open>Wipe\<close> empties it or leaves it whole.\<close>

theorem refstore_is_map:
  assumes "pebble_ok P m"
  shows "(case Refs_Put P n v db of (e, db') \<Rightarrow> m db' = (m db)(n \<mapsto> v) \<or> e \<noteq> None \<and> m db' = m db) \<and>
     (case Refs_Get P n db of Inr v \<Rightarrow> m db n = Some v | Inl e \<Rightarrow> m db n = None \<or> e \<noteq> RefNotFound) \<and>
     (case Refs_Delete P n db of (e, db') \<Rightarrow>
        e = None \<and> n \<in> dom (m db) \<and> m db' = (m db)(n := None) \<or>
        e = Some RefNotFound \<and> n \<notin> dom (m db) \<and> db' = db \<or>
        (\<exists>x. e = Some (PebbleErr x)) \<and> (m db' = m db \<or> m db' = (m db)(n := None))) \<and>
     (case Refs_All P db of Inl e \<Rightarrow> True | Inr recs \<Rightarrow> sorted_wrt (<) (map fst recs) \<and> map_of recs = m db) \<and>
     (case Refs_Wipe P db of (e, db') \<Rightarrow> m db' = Map.empty \<or> e \<noteq> None \<and> m db' = m db)"
  by (rule refs_refine [OF assms])

theorem refstore_is_map_witness:
  "map_of (snd (Refs_Put mem_pebble [97] [1, 2] [])) = [[97] \<mapsto> [1, 2]] \<and>
   fst (Refs_Delete mem_pebble [98] [([97], [1, 2])]) = Some RefNotFound \<and>
   map_of (snd (Refs_Wipe mem_pebble [([97], [1, 2])])) = Map.empty"
  using refstore_is_map [OF mem_pebble_ok, where n = "[97]" and v = "[1, 2]" and db = "[]"]
    refstore_is_map [OF mem_pebble_ok, where n = "[98]" and v = "[]" and db = "[([97], [1, 2])]"]
  by (auto simp: Refs_Put_def Refs_Wipe_def Refs_Delete_def Refs_Get_def mem_pebble_def)

end
