(* ===== verification/Amber_Collector.thy ===== *)
theory Amber_Collector
  imports Complex_Main Amber_Ref Amber_CompactLog Amber_Marks "HOL-Library.Signed_Division"
begin

text \<open>
  Package \<open>gc\<close> (gc.go, collector.go, cycle.go, status.go): options, the copier's throttle, the
  mark walk, reference preparation, a cycle, the status report and \<open>Why\<close>. A definition here is
  one call with no other goroutine beside it; \<open>Amber_CollectorSafety\<close> interleaves the calls.
  Clock readings, file times, free space, cancellation and the float comparison with the
  garbage line are inputs (\<open>cycle_in\<close>). A walk has fuel for its loop iterations.
\<close>

section \<open>Options, throttle, free space\<close>

record Options =
  op_Grace :: int
  op_Garbage :: rat
  op_MinFree :: u64
  op_Rate :: u64
  op_Interval :: int
  op_Jobs :: int

definition DefaultGrace :: int where "DefaultGrace = 3600 * 10 ^ 9"
definition DefaultGarbage :: rat where "DefaultGarbage = 1 / 2"
definition minFreeGarbage :: rat where "minFreeGarbage = 1 / 10"

definition withDefaults :: "int \<Rightarrow> Options \<Rightarrow> Options" where
  "withDefaults gomaxprocs o1 =
     (let o2 = (if op_Grace o1 \<le> 0 then o1\<lparr>op_Grace := DefaultGrace\<rparr> else o1);
          o3 = (if op_Garbage o2 \<le> 0 then o2\<lparr>op_Garbage := DefaultGarbage\<rparr> else o2)
      in if op_Jobs o3 \<le> 0 then o3\<lparr>op_Jobs := gomaxprocs\<rparr> else o3)"

text \<open>\<open>int64\<close> division truncates toward zero; the products and the sum wrap.\<close>

definition int64_div :: "u64 \<Rightarrow> u64 \<Rightarrow> u64" where
  "int64_div a b = word_of_int (sint a sdiv sint b)"

definition int64_mod :: "u64 \<Rightarrow> u64 \<Rightarrow> u64" where
  "int64_mod a b = word_of_int (sint a smod sint b)"

definition Second :: u64 where "Second = 1000000000"

definition throttleOwed :: "u64 \<Rightarrow> u64 \<Rightarrow> u64" where
  "throttleOwed n rate = int64_div n rate * Second + int64_div (int64_mod n rate * Second) rate"

record throttle =
  th_rate :: u64
  th_bytes :: u64

text \<open>\<open>elapsed\<close> is \<open>time.Since(t.start)\<close>; the result is the time slept.\<close>

definition pace :: "nat \<Rightarrow> u64 \<Rightarrow> throttle \<Rightarrow> u64 option \<times> throttle" where
  "pace n elapsed t =
     (if sint (th_rate t) \<le> 0 then (None, t)
      else let t' = t\<lparr>th_bytes := th_bytes t + of_nat n\<rparr>; ahead = throttleOwed (th_bytes t') (th_rate t') - elapsed
           in (if 0 < sint ahead then Some ahead else None, t'))"

text \<open>\<open>statfs\<close>: blocks, available blocks and block size, or no answer.\<close>

definition freeBelow :: "(u64 \<times> u64 \<times> u64) option \<Rightarrow> u64 \<Rightarrow> bool" where
  "freeBelow statfs minFree =
     (case statfs of
        None \<Rightarrow> False
      | Some (blocks, bavail, bsize) \<Rightarrow>
          let least = (if minFree = 0 then blocks * bsize div 20 else minFree) in bavail * bsize < least)"

section \<open>Roots\<close>

datatype gc_err =
    GcRefs rs_err
  | GcRefDecode bytes ref_err
  | GcRefKey bytes key_err
  | GcMissing key
  | GcRead ps_err
  | GcTree "ps_err fs_err"
  | GcWalk key "ps_err fs_err"
  | GcReference bytes gc_err
  | GcStore ps_err
  | GcCancelled
  | GcDir string
  | CycleRunning

definition record_root :: "ref_cbor \<Rightarrow> bytes \<Rightarrow> bytes \<Rightarrow> gc_err + key" where
  "record_root RC name data =
     (case Ref_Decode RC data of
        Inl e \<Rightarrow> Inl (GcRefDecode name e)
      | Inr r \<Rightarrow> (case Parse (Ref_Key r) of Inl e \<Rightarrow> Inl (GcRefKey name e) | Inr rk \<Rightarrow> Inr rk))"

definition gc_roots :: "ref_cbor \<Rightarrow> 'db pebble \<Rightarrow> 'db \<Rightarrow> gc_err + key list" where
  "gc_roots RC P db =
     (case Refs_All P db of
        Inl e \<Rightarrow> Inl (GcRefs e)
      | Inr recs \<Rightarrow> map_err (\<lambda>(name, data). record_root RC name data) recs)"

section \<open>The mark walk\<close>

text \<open>One popped key: the mark set and the keys to push.\<close>

definition mark_visit :: "xorfilter \<Rightarrow> zstd \<Rightarrow> cbor \<Rightarrow> store \<Rightarrow> MarkSet \<Rightarrow> key \<Rightarrow> gc_err + MarkSet \<times> key list" where
  "mark_visit X Z C s live k =
     (case Mark X live k of
        ((newly, present), live') \<Rightarrow>
          if \<not> present then Inl (GcMissing k)
          else if \<not> newly then Inr (live', [])
          else if is_leaf_key k then Inr (live', [])
          else case Get X Z s k of
            Inl e \<Rightarrow> Inl (GcRead e)
          | Inr data \<Rightarrow> (case ChildKeys C k data of Inl e \<Rightarrow> Inl (GcTree e) | Inr cs \<Rightarrow> Inr (live', cs)))"

text \<open>The stack is listed from its top; \<open>ctx n\<close> is \<open>ctx.Err()\<close> at iteration \<open>n\<close>.\<close>

primrec mark_loop :: "xorfilter \<Rightarrow> zstd \<Rightarrow> cbor \<Rightarrow> store \<Rightarrow> (nat \<Rightarrow> bool) \<Rightarrow> nat \<Rightarrow> nat \<Rightarrow> MarkSet \<Rightarrow> key list \<Rightarrow>
    (gc_err + MarkSet) option" where
  "mark_loop X Z C s ctx 0 n live stack = (if stack = [] then Some (Inr live) else None)"
| "mark_loop X Z C s ctx (Suc fuel) n live stack =
     (case stack of
        [] \<Rightarrow> Some (Inr live)
      | k # rest \<Rightarrow>
          if n mod 1024 = 0 \<and> ctx n then Some (Inl GcCancelled)
          else case mark_visit X Z C s live k of
            Inl e \<Rightarrow> Some (Inl e)
          | Inr (live', cs) \<Rightarrow> mark_loop X Z C s ctx fuel (n + 1) live' (rev cs @ rest))"

definition markFrom :: "xorfilter \<Rightarrow> zstd \<Rightarrow> cbor \<Rightarrow> store \<Rightarrow> (nat \<Rightarrow> bool) \<Rightarrow> nat \<Rightarrow> MarkSet \<Rightarrow> key \<Rightarrow> (gc_err + MarkSet) option" where
  "markFrom X Z C s ctx fuel live rk = mark_loop X Z C s ctx fuel 0 live [rk]"

definition markLive :: "xorfilter \<Rightarrow> zstd \<Rightarrow> cbor \<Rightarrow> store \<Rightarrow> (nat \<Rightarrow> nat \<Rightarrow> bool) \<Rightarrow> nat \<Rightarrow> key list \<Rightarrow> (gc_err + MarkSet) option" where
  "markLive X Z C s ctx fuel roots =
     fold_err (\<lambda>live (i, rk). markFrom X Z C s (ctx i) fuel live rk) (NewMarkSet s) (enumerate 0 roots)"

section \<open>Preparing a reference\<close>

text \<open>The result is the store with the walked keys handed to the barrier. The reference lock
  is held shared from the walk until the caller's commit or abort.\<close>

definition PrepareRef :: "xorfilter \<Rightarrow> zstd \<Rightarrow> cbor \<Rightarrow> nat \<Rightarrow> key \<Rightarrow> store \<Rightarrow> (gc_err + store) option" where
  "PrepareRef X Z C fuel rk s =
     (case CheckComplete C (Get X Z s) (Has X s) fuel rk of
        None \<Rightarrow> None
      | Some (Inl e) \<Rightarrow> Some (Inl (GcWalk rk e))
      | Some (Inr keys) \<Rightarrow> Some (Inr (ObserveKeys keys s)))"

section \<open>A cycle\<close>

record CycleStats =
  cs_Start :: int
  cs_Duration :: int
  cs_MarkDuration :: int
  cs_SweepDuration :: int
  cs_Threshold :: rat
  cs_Marked :: nat
  cs_Scored :: nat
  cs_Reaped :: "u64 list"
  cs_CopiedRecords :: nat
  cs_CopiedBytes :: u64
  cs_FreedBytes :: u64

definition no_cycle :: CycleStats where
  "no_cycle = \<lparr>cs_Start = 0, cs_Duration = 0, cs_MarkDuration = 0, cs_SweepDuration = 0, cs_Threshold = 0, cs_Marked = 0,
     cs_Scored = 0, cs_Reaped = [], cs_CopiedRecords = 0, cs_CopiedBytes = 0, cs_FreedBytes = 0\<rparr>"

record cycle_in =
  ci_now :: "nat \<Rightarrow> int"
  ci_ctx :: "nat \<Rightarrow> nat \<Rightarrow> bool"
  ci_cancelled :: bool
  ci_statfs :: "(u64 \<times> u64 \<times> u64) option"
  ci_mtime :: "string \<Rightarrow> string + int"
  ci_reaches :: "rat \<Rightarrow> u64 \<Rightarrow> u64 \<Rightarrow> bool"
  ci_procs :: nat
  ci_sched :: "choice list"
  ci_fuel :: nat

definition line_of :: "Options \<Rightarrow> cycle_in \<Rightarrow> rat \<Rightarrow> rat" where
  "line_of opts ci garbage =
     (if garbage < 0
      then (if freeBelow (ci_statfs ci) (op_MinFree opts) then minFreeGarbage else op_Garbage opts)
      else garbage)"

definition before_horizon :: "(string \<Rightarrow> string + int) \<Rightarrow> int \<Rightarrow> string \<Rightarrow> string + bool" where
  "before_horizon mtime horizon path = (case mtime path of Inl e \<Rightarrow> Inl e | Inr t \<Rightarrow> Inr (t < horizon))"

definition sweep_opts :: "Options \<Rightarrow> cycle_in \<Rightarrow> rat \<Rightarrow> CompactOpts" where
  "sweep_opts opts ci threshold =
     \<lparr>co_reaches = ci_reaches ci threshold, co_Horizon = Some (before_horizon (ci_mtime ci) (ci_now ci 2 - op_Grace opts))\<rparr>"

text \<open>The sweep, under the reference lock.\<close>

definition gc_sweep :: "xorfilter \<Rightarrow> (bytes \<Rightarrow> bytes) \<Rightarrow> zstd \<Rightarrow> Options \<Rightarrow> cycle_in \<Rightarrow> MarkSet \<Rightarrow> CycleStats \<Rightarrow> store \<Rightarrow>
    CycleStats \<times> gc_err option \<times> store" where
  "gc_sweep X H Z opts ci live stats s =
     (if ci_cancelled ci then (stats, Some GcCancelled, AbortBarrier s)
      else case Compact X H Z (ci_procs ci) (ci_sched ci) (sweep_opts opts ci (cs_Threshold stats)) (ms_Contains X live) s of
        (err, s', cs) \<Rightarrow>
          (stats\<lparr>cs_SweepDuration := ci_now ci 4 - ci_now ci 3, cs_Scored := SegmentsScanned cs, cs_Reaped := Victims cs,
             cs_CopiedRecords := RecordsCopied cs, cs_CopiedBytes := BytesCopied cs, cs_FreedBytes := BytesFreed cs\<rparr>,
           map_option GcStore err, s'))"

definition gc_mark_sweep :: "xorfilter \<Rightarrow> (bytes \<Rightarrow> bytes) \<Rightarrow> zstd \<Rightarrow> cbor \<Rightarrow> ref_cbor \<Rightarrow> 'db pebble \<Rightarrow> Options \<Rightarrow> cycle_in \<Rightarrow>
    CycleStats \<Rightarrow> 'db \<Rightarrow> store \<Rightarrow> (CycleStats \<times> gc_err option \<times> store) option" where
  "gc_mark_sweep X H Z C RC P opts ci stats db s =
     (let s = BeginBarrier s in
      case gc_roots RC P db of
        Inl e \<Rightarrow> Some (stats, Some e, AbortBarrier s)
      | Inr roots \<Rightarrow>
          (case markLive X Z C s (ci_ctx ci) (ci_fuel ci) roots of
             None \<Rightarrow> None
           | Some (Inl e) \<Rightarrow> Some (stats, Some e, AbortBarrier s)
           | Some (Inr live) \<Rightarrow>
               Some (gc_sweep X H Z opts ci live
                       (stats\<lparr>cs_Marked := ms_marked live, cs_MarkDuration := ci_now ci 1 - ci_now ci 0\<rparr>) s)))"

definition gc_cycle :: "xorfilter \<Rightarrow> (bytes \<Rightarrow> bytes) \<Rightarrow> zstd \<Rightarrow> cbor \<Rightarrow> ref_cbor \<Rightarrow> 'db pebble \<Rightarrow> Options \<Rightarrow> cycle_in \<Rightarrow>
    rat \<Rightarrow> 'db \<Rightarrow> store \<Rightarrow> (CycleStats \<times> gc_err option \<times> store) option" where
  "gc_cycle X H Z C RC P opts ci garbage db s =
     map_option (apfst (\<lambda>st. st\<lparr>cs_Duration := ci_now ci 5 - ci_now ci 0\<rparr>))
       (gc_mark_sweep X H Z C RC P opts ci
          (no_cycle\<lparr>cs_Start := ci_now ci 0, cs_Threshold := line_of opts ci garbage\<rparr>) db s)"

section \<open>The collector\<close>

text \<open>\<open>cl_running\<close>: the cycle mutex is held.\<close>

record collector =
  cl_opts :: Options
  cl_last :: "CycleStats option"
  cl_lastErr :: "gc_err option"
  cl_running :: bool

definition collector_Open :: "int \<Rightarrow> string option \<Rightarrow> (string + string list) \<Rightarrow> (string \<Rightarrow> string option) \<Rightarrow> Options \<Rightarrow> gc_err + collector" where
  "collector_Open gomaxprocs mkdirAll readDir rmAll opts =
     (case mkdirAll of
        Some e \<Rightarrow> Inl (GcDir e)
      | None \<Rightarrow>
          (case readDir of
             Inl e \<Rightarrow> Inl (GcDir e)
           | Inr entries \<Rightarrow>
               (case List.find (\<lambda>e. rmAll e \<noteq> None) entries of
                  Some e \<Rightarrow> Inl (GcDir (the (rmAll e)))
                | None \<Rightarrow> Inr \<lparr>cl_opts = withDefaults gomaxprocs opts, cl_last = None, cl_lastErr = None, cl_running = False\<rparr>)))"

definition collector_Run :: "xorfilter \<Rightarrow> (bytes \<Rightarrow> bytes) \<Rightarrow> zstd \<Rightarrow> cbor \<Rightarrow> ref_cbor \<Rightarrow> 'db pebble \<Rightarrow> cycle_in \<Rightarrow> rat \<Rightarrow>
    'db \<Rightarrow> collector \<times> store \<Rightarrow> ((CycleStats \<times> gc_err option) \<times> collector \<times> store) option" where
  "collector_Run X H Z C RC P ci garbage db cls =
     (case cls of
        (cl, s) \<Rightarrow>
          if cl_running cl then Some ((no_cycle, Some CycleRunning), cl, s)
          else map_option (\<lambda>(stats, err, s'). ((stats, err), cl\<lparr>cl_last := Some stats, cl_lastErr := err\<rparr>, s'))
                 (gc_cycle X H Z C RC P (cl_opts cl) ci garbage db s))"

text \<open>\<open>Wipe\<close> runs the store wipe while it holds the cycle slot; \<open>reset\<close> is its result.\<close>

definition collector_Wipe :: "string option \<Rightarrow> collector \<Rightarrow> string option \<times> collector" where
  "collector_Wipe reset cl =
     (case reset of
        Some e \<Rightarrow> (Some e, cl)
      | None \<Rightarrow> (None, cl\<lparr>cl_last := None, cl_lastErr := None\<rparr>))"

section \<open>Segment listing and status\<close>

record SegmentInfo =
  si_ID :: u64
  si_Sealed :: int
  si_Body :: u64
  si_Keys :: u64

definition Segments :: "(string \<Rightarrow> string + int) \<Rightarrow> store \<Rightarrow> ps_err + SegmentInfo list" where
  "Segments mtime s =
     (if st_closed s then Inl StoreClosed
      else map_err (\<lambda>g. case mtime (sg_path g) of
             Inl e \<Rightarrow> Inl (IOErr e)
           | Inr t \<Rightarrow> Inr \<lparr>si_ID = sg_id g, si_Sealed = t,
                           si_Body = fv_bodyLen (sg_fv g) - of_nat (length magicHeader), si_Keys = fv_keyCount (sg_fv g)\<rparr>)
        (st_sealed s))"

record PackStatus =
  pk_ID :: u64
  pk_Sealed :: int
  pk_Body :: u64
  pk_Keys :: u64
  pk_Live :: u64
  pk_Garbage :: rat
  pk_Eligible :: bool

record Status =
  gs_Packs :: "PackStatus list"
  gs_LiveBytes :: u64
  gs_GarbageBytes :: u64
  gs_Refs :: nat
  gs_Marked :: nat
  gs_Last :: "CycleStats option"
  gs_LastError :: "gc_err option"

text \<open>The zero \<open>time.Time\<close>, for a pack that is not listed; before every file time.\<close>

definition zero_time :: int where "zero_time = - (62135596800 * 10 ^ 9)"

definition sealed_at :: "SegmentInfo list \<Rightarrow> u64 \<Rightarrow> int" where
  "sealed_at segs sid = (case map_of (rev (map (\<lambda>i. (si_ID i, si_Sealed i)) segs)) sid of None \<Rightarrow> zero_time | Some t \<Rightarrow> t)"

definition pack_status :: "SegmentInfo list \<Rightarrow> int \<Rightarrow> SegmentLiveness \<Rightarrow> PackStatus" where
  "pack_status segs horizon sl =
     (let body = LiveBytes sl + DeadBytes sl; mt = sealed_at segs (sl_ID sl) in
      \<lparr>pk_ID = sl_ID sl, pk_Sealed = mt, pk_Body = body, pk_Keys = of_nat (LiveKeys sl + DeadKeys sl), pk_Live = LiveBytes sl,
       pk_Garbage = (if 0 < sint body then of_nat (unat (DeadBytes sl)) / of_int (sint body) else 0),
       pk_Eligible = (mt < horizon)\<rparr>)"

definition add_pack :: "SegmentInfo list \<Rightarrow> int \<Rightarrow> SegmentLiveness \<Rightarrow> Status \<Rightarrow> Status" where
  "add_pack segs horizon sl st =
     (if \<not> sl_Sealed sl then st
      else st\<lparr>gs_Packs := gs_Packs st @ [pack_status segs horizon sl], gs_LiveBytes := gs_LiveBytes st + LiveBytes sl,
              gs_GarbageBytes := gs_GarbageBytes st + DeadBytes sl\<rparr>)"

definition collector_Status :: "xorfilter \<Rightarrow> zstd \<Rightarrow> cbor \<Rightarrow> ref_cbor \<Rightarrow> 'db pebble \<Rightarrow> cycle_in \<Rightarrow> collector \<Rightarrow> 'db \<Rightarrow> store \<Rightarrow>
    (gc_err + Status) option" where
  "collector_Status X Z C RC P ci cl db s =
     (case Refs_All P db of
        Inl e \<Rightarrow> Some (Inl (GcRefs e))
      | Inr recs \<Rightarrow>
          (case gc_roots RC P db of
             Inl e \<Rightarrow> Some (Inl e)
           | Inr roots \<Rightarrow>
               (case markLive X Z C s (ci_ctx ci) (ci_fuel ci) roots of
                  None \<Rightarrow> None
                | Some (Inl e) \<Rightarrow> Some (Inl e)
                | Some (Inr live) \<Rightarrow>
                    (case Liveness (ms_Contains X live) s of
                       Inl e \<Rightarrow> Some (Inl (GcStore e))
                     | Inr report \<Rightarrow>
                         (case Segments (ci_mtime ci) s of
                            Inl e \<Rightarrow> Some (Inl (GcStore e))
                          | Inr segs \<Rightarrow>
                              Some (Inr (fold (add_pack segs (ci_now ci 0 - op_Grace (cl_opts cl))) report
                                \<lparr>gs_Packs = [], gs_LiveBytes = 0, gs_GarbageBytes = 0, gs_Refs = length recs, gs_Marked = ms_marked live,
                                 gs_Last = cl_last cl, gs_LastError = cl_lastErr cl\<rparr>)))))))"

section \<open>Why\<close>

primrec reaches_loop :: "cbor \<Rightarrow> (key \<Rightarrow> ps_err + bytes) \<Rightarrow> key \<Rightarrow> nat \<Rightarrow> key set \<Rightarrow> key list \<Rightarrow> (gc_err + bool) option" where
  "reaches_loop C get k 0 visited stack = (if stack = [] then Some (Inr False) else None)"
| "reaches_loop C get k (Suc fuel) visited stack =
     (case stack of
        [] \<Rightarrow> Some (Inr False)
      | cur # rest \<Rightarrow>
          if cur = k then Some (Inr True)
          else if cur \<in> visited then reaches_loop C get k fuel visited rest
          else if is_leaf_key cur then reaches_loop C get k fuel (insert cur visited) rest
          else case get cur of
            Inl e \<Rightarrow> Some (Inl (GcRead e))
          | Inr data \<Rightarrow>
              (case ChildKeys C cur data of
                 Inl e \<Rightarrow> Some (Inl (GcTree e))
               | Inr cs \<Rightarrow> reaches_loop C get k fuel (insert cur visited) (rev cs @ rest)))"

definition gc_reaches :: "cbor \<Rightarrow> (key \<Rightarrow> ps_err + bytes) \<Rightarrow> nat \<Rightarrow> key \<Rightarrow> key \<Rightarrow> (gc_err + bool) option" where
  "gc_reaches C get fuel rk k = reaches_loop C get k fuel {} [rk]"

definition why_step :: "ref_cbor \<Rightarrow> cbor \<Rightarrow> (key \<Rightarrow> ps_err + bytes) \<Rightarrow> nat \<Rightarrow> key \<Rightarrow> bytes list \<Rightarrow> bytes \<times> bytes \<Rightarrow>
    (gc_err + bytes list) option" where
  "why_step RC C get fuel k names nr =
     (case record_root RC (fst nr) (snd nr) of
        Inl e \<Rightarrow> Some (Inl e)
      | Inr rk \<Rightarrow>
          (case gc_reaches C get fuel rk k of
             None \<Rightarrow> None
           | Some (Inl e) \<Rightarrow> Some (Inl (GcReference (fst nr) e))
           | Some (Inr found) \<Rightarrow> Some (Inr (if found then names @ [fst nr] else names))))"

definition collector_Why :: "ref_cbor \<Rightarrow> cbor \<Rightarrow> 'db pebble \<Rightarrow> (key \<Rightarrow> ps_err + bytes) \<Rightarrow> nat \<Rightarrow> 'db \<Rightarrow> key \<Rightarrow>
    (gc_err + bytes list) option" where
  "collector_Why RC C P get fuel db k =
     (case Refs_All P db of
        Inl e \<Rightarrow> Some (Inl (GcRefs e))
      | Inr recs \<Rightarrow>
          map_option (map_sum id sort) (fold_err (why_step RC C get fuel k) [] recs))"

end
