(* ===== verification/Amber_MarkWalk.thy ===== *)
theory Amber_MarkWalk
  imports Amber_Collector
begin

text \<open>
  The walks of package \<open>gc\<close> against reachability. \<open>look\<close> is what a store shows of a key: its
  children when it can be read and decoded (a leaf: when it is present), an error otherwise.
  The mark walk and the search of \<open>Why\<close> compute the keys reachable through \<open>look\<close>, and a cycle
  on a quiet store keeps exactly them.
\<close>

section \<open>What a store shows of a key\<close>

definition look :: "xorfilter \<Rightarrow> zstd \<Rightarrow> cbor \<Rightarrow> store \<Rightarrow> key \<Rightarrow> ps_err fs_err + key list" where
  "look X Z C s = expand_check C (Get X Z s) (Has X s)"

definition whole_tree :: "(key \<Rightarrow> 'err + key list) \<Rightarrow> key \<Rightarrow> bool" where
  "whole_tree e k \<longleftrightarrow> (\<forall>x \<in> reach e k. \<exists>cs. e x = Inr cs)"

definition children_ok :: "(key \<Rightarrow> 'err + key list) \<Rightarrow> bool" where
  "children_ok e \<longleftrightarrow> (\<forall>k cs. e k = Inr cs \<longrightarrow> (\<forall>c \<in> set cs. canonical c))"

lemma canonical_key: "canonical k \<Longrightarrow> is_key k"
  by (simp add: canonical_def)

lemma map_err_each: "map_err f xs = Inr ys \<Longrightarrow> y \<in> set ys \<Longrightarrow> \<exists>x. f x = Inr y"
  unfolding map_err_ok by (meson list_all2_set2)

lemma entry_keys_canonical: "entry_keys e = Inr ks \<Longrightarrow> \<forall>k \<in> set ks. canonical k"
  by (auto simp: entry_keys_def Parse_ok Let_def split: if_splits sum.splits)

lemma ChildKeys_canonical:
  assumes "ChildKeys C k data = (Inr cs :: 'e fs_err + key list)" and "c \<in> set cs"
  shows "canonical c"
proof -
  let ?ty = "Key_Type k"
  have q: "ChildKeys C k data = (Inr cs :: 'e fs_err + key list)" by (rule assms(1))
  consider (leafkey) "?ty = Blob \<or> ?ty = XattrSet" | (fnode) "\<not> (?ty = Blob \<or> ?ty = XattrSet)" "?ty = FileNode"
    | (node) "\<not> (?ty = Blob \<or> ?ty = XattrSet)" "?ty \<noteq> FileNode" "?ty = DirNode"
    | (dir) "\<not> (?ty = Blob \<or> ?ty = XattrSet)" "?ty \<noteq> FileNode" "?ty \<noteq> DirNode" by blast
  then show ?thesis
  proof cases
    case leafkey
    then show ?thesis using q assms(2) by (simp add: ChildKeys_def)
  next
    case fnode
    then have "DecodeFileNode C data = (Inr cs :: 'e fs_err + key list)" using q by (simp only: ChildKeys_def if_False if_True refl simp_thms)
    then obtain raw where "map_err (\<lambda>r. case Parse r of Inl e \<Rightarrow> Inl (ErrChildKey e) | Inr k \<Rightarrow> Inr k) raw = (Inr cs :: 'e fs_err + key list)"
      by (auto simp: DecodeFileNode_def split: option.splits)
    from map_err_each [OF this assms(2)] obtain x
      where "(case Parse x of Inl e \<Rightarrow> Inl (ErrChildKey e) | Inr k \<Rightarrow> Inr k) = (Inr c :: 'e fs_err + key)" by blast
    then show ?thesis by (cases "Parse x") (auto simp: Parse_ok)
  next
    case node
    then have "(case DecodeDirNode C data of Inl e \<Rightarrow> Inl e | Inr pairs \<Rightarrow> map_err pair_key pairs) = (Inr cs :: 'e fs_err + key list)"
      using q by (simp only: ChildKeys_def if_False if_True refl simp_thms)
    then obtain ps where "map_err pair_key ps = (Inr cs :: 'e fs_err + key list)" by (auto split: sum.splits)
    from map_err_each [OF this assms(2)] obtain p where "pair_key p = (Inr c :: 'e fs_err + key)" by blast
    then show ?thesis by (cases "Parse (ChildKey p)") (auto simp: pair_key_def Parse_ok)
  next
    case dir
    then have "?ty = DirLeaf" using q by (cases "?ty = DirLeaf") (simp_all add: ChildKeys_def)
    then have "(case DecodeDirLeaf C data of Inl e \<Rightarrow> Inl e
        | Inr entries \<Rightarrow> (case map_err entry_keys entries of Inl e \<Rightarrow> Inl e | Inr kss \<Rightarrow> Inr (concat kss))) = (Inr cs :: 'e fs_err + key list)"
      using q dir by (simp only: ChildKeys_def if_False if_True refl simp_thms)
    then obtain es kss where leaf: "map_err entry_keys es = (Inr kss :: 'e fs_err + key list list)" "cs = concat kss"
      by (auto split: sum.splits)
    then obtain ks where ks: "ks \<in> set kss" "c \<in> set ks" using assms(2) by auto
    from map_err_each [OF leaf(1) ks(1)] show ?thesis using entry_keys_canonical ks(2) by blast
  qed
qed

lemma look_children: "children_ok (look X Z C s)"
  by (auto simp: children_ok_def look_def expand_check_def split: if_splits sum.splits dest: ChildKeys_canonical)

lemma look_leaf: "is_leaf_key k \<Longrightarrow> look X Z C s k = Inr cs \<longleftrightarrow> cs = [] \<and> Has X s k = Inr True"
  by (auto simp: look_def expand_check_def split: sum.splits)

lemma look_inner: "\<not> is_leaf_key k \<Longrightarrow> look X Z C s k = Inr cs \<longleftrightarrow> (\<exists>d. Get X Z s k = Inr d \<and> ChildKeys C k d = (Inr cs :: ps_err fs_err + key list))"
  by (auto simp: look_def expand_check_def split: sum.splits)

section \<open>Reachability\<close>

lemma reach_canonical:
  assumes "children_ok e" and "canonical r" and "k \<in> reach e r"
  shows "canonical k"
proof -
  have "reach e r \<subseteq> {k. canonical k}"
    using assms(1,2) by (intro reach_closed) (auto simp: children_ok_def)
  then show ?thesis using assms(3) by blast
qed

lemma reach_trans: "a \<in> reach e r \<Longrightarrow> b \<in> reach e a \<Longrightarrow> b \<in> reach e r"
  unfolding reach_def by (auto intro: rtrancl_trans)

lemma reach_unfold:
  assumes "e k = Inr cs"
  shows "reach e k = insert k (\<Union>c \<in> set cs. reach e c)"
proof
  show "reach e k \<subseteq> insert k (\<Union>c \<in> set cs. reach e c)"
  proof (rule reach_closed)
    fix a bs assume a: "a \<in> insert k (\<Union>c \<in> set cs. reach e c)" and b: "e a = Inr bs"
    show "set bs \<subseteq> insert k (\<Union>c \<in> set cs. reach e c)"
      using a b assms by (auto intro: reach_step)
  qed simp
  have "reach e c \<subseteq> reach e k" if "c \<in> set cs" for c
    using reach_trans [OF reach_step [OF reach_root [of k e] assms that]] by blast
  then show "insert k (\<Union>c \<in> set cs. reach e c) \<subseteq> reach e k" by auto
qed

text \<open>A set whose children stay within it or within what is reachable from \<open>S\<close>.\<close>

lemma closed_over:
  assumes "\<And>k cs. k \<in> M \<Longrightarrow> e k = Inr cs \<Longrightarrow> set cs \<subseteq> M \<union> S" and "k \<in> M"
  shows "reach e k \<subseteq> M \<union> (\<Union>c \<in> S. reach e c)"
proof (rule reach_closed)
  fix a bs assume a: "a \<in> M \<union> (\<Union>c \<in> S. reach e c)" and b: "e a = Inr bs"
  show "set bs \<subseteq> M \<union> (\<Union>c \<in> S. reach e c)"
  proof (cases "a \<in> M")
    case True
    then show ?thesis using assms(1) [OF True b] reach_root by fastforce
  next
    case False
    then show ?thesis using a b by (blast intro: reach_step)
  qed
qed (use assms(2) in simp)

lemma finite_keys: "finite {k. is_key k}"
  using finite_lists_length_eq [of "UNIV :: byte set" Size] by (simp add: is_key_def)

text \<open>A view that shows at least as much: trees that are whole stay whole and keep their keys.\<close>

definition shows_more :: "(key \<Rightarrow> 'err + key list) \<Rightarrow> (key \<Rightarrow> 'err + key list) \<Rightarrow> bool" where
  "shows_more e e' \<longleftrightarrow> (\<forall>k cs. is_key k \<and> e k = Inr cs \<longrightarrow> e' k = Inr cs)"

lemma shows_more_refl [simp]: "shows_more e e"
  by (simp add: shows_more_def)

lemma shows_more_trans: "shows_more e e' \<Longrightarrow> shows_more e' e'' \<Longrightarrow> shows_more e e''"
  by (simp add: shows_more_def)

lemma same_view_reach:
  fixes e e' :: "key \<Rightarrow> 'err + key list"
  assumes "whole_tree e r" and "\<And>k cs. k \<in> reach e r \<Longrightarrow> e k = Inr cs \<Longrightarrow> e' k = Inr cs"
  shows "reach e' r = reach e r \<and> whole_tree e' r"
proof -
  have same: "e' k = e k" if "k \<in> reach e r" for k
    using assms that by (auto simp: whole_tree_def)
  have a: "reach e' r \<subseteq> reach e r"
    using reach_step same by (intro reach_closed) fastforce+
  have "reach e r \<subseteq> reach e r \<inter> reach e' r"
    using reach_step same by (intro reach_closed) fastforce+
  then show ?thesis using a same assms(1) unfolding whole_tree_def by (metis Int_iff subset_antisym subset_iff)
qed

lemma shows_more_tree:
  assumes "shows_more e e'" and "children_ok e" and "canonical r" and "whole_tree e r"
  shows "reach e' r = reach e r" and "whole_tree e' r"
proof -
  have "e' k = Inr cs" if "k \<in> reach e r" "e k = Inr cs" for k cs
    using assms(1) that canonical_key [OF reach_canonical [OF assms(2,3) that(1)]] by (simp add: shows_more_def)
  then show "reach e' r = reach e r" "whole_tree e' r" using same_view_reach [OF assms(4)] by blast+
qed

section \<open>Depth-first search\<close>

text \<open>The children of what was visited are visited or on the stack.\<close>

definition dfs_closed :: "(key \<Rightarrow> 'err + key list) \<Rightarrow> key set \<Rightarrow> key list \<Rightarrow> bool" where
  "dfs_closed e M stack \<longleftrightarrow> (\<forall>k \<in> M. \<exists>cs. e k = Inr cs \<and> set cs \<subseteq> M \<union> set stack)"

lemma dfs_pop:
  assumes d: "dfs_closed e M (k # rest)" and e: "e k = Inr cs" and push: "push = (if k \<in> M then [] else cs)"
  shows "dfs_closed e (insert k M) (rev push @ rest)"
    and "insert k M \<union> (\<Union>c \<in> set (rev push @ rest). reach e c) = M \<union> (\<Union>c \<in> set (k # rest). reach e c)"
proof -
  have "\<exists>as. e a = Inr as \<and> set as \<subseteq> insert k M \<union> set (rev push @ rest)" if "a \<in> insert k M" for a
  proof (cases "a \<in> M")
    case True
    then obtain as where "e a = Inr as" "set as \<subseteq> M \<union> set (k # rest)" using d by (auto simp: dfs_closed_def)
    then show ?thesis by auto
  next
    case False
    then have "a = k" "push = cs" using that push by auto
    then show ?thesis using e by auto
  qed
  then show "dfs_closed e (insert k M) (rev push @ rest)" unfolding dfs_closed_def by blast
  show "insert k M \<union> (\<Union>c \<in> set (rev push @ rest). reach e c) = M \<union> (\<Union>c \<in> set (k # rest). reach e c)"
  proof (cases "k \<in> M")
    case True
    have "reach e k \<subseteq> M \<union> (\<Union>c \<in> set rest. reach e c)"
    proof (rule closed_over [OF _ True])
      fix a as assume "a \<in> M" "e a = Inr as"
      then show "set as \<subseteq> M \<union> set rest" using d True by (fastforce simp: dfs_closed_def)
    qed
    then show ?thesis using True push by auto
  next
    case False
    then show ?thesis using push reach_unfold [of e k cs, OF e] by auto
  qed
qed

text \<open>A pop makes the unvisited keys fewer, or the stack shorter.\<close>

lemma dfs_smaller:
  assumes "is_key k" and "push = (if k \<in> M then [] else cs)"
  shows "((card ({k. is_key k} - insert k M), length (rev push @ rest)), card ({k. is_key k} - M), length (k # rest))
     \<in> less_than <*lex*> less_than"
proof (cases "k \<in> M")
  case True
  then show ?thesis using assms(2) by (simp add: insert_absorb)
next
  case False
  then have "{k. is_key k} - insert k M \<subset> {k. is_key k} - M" using assms(1) by auto
  then have "card ({k. is_key k} - insert k M) < card ({k. is_key k} - M)"
    by (intro psubset_card_mono) (auto simp: finite_keys)
  then show ?thesis by simp
qed

section \<open>The mark walk\<close>

definition ms_keys :: "xorfilter \<Rightarrow> MarkSet \<Rightarrow> key set" where
  "ms_keys X m = {k. is_key k \<and> ms_Contains X m k}"

text \<open>A popped key that the store shows is marked, and its children are to be walked exactly
  when it was not marked before.\<close>

lemma Mark_keys:
  assumes h: "holds X s L" "\<not> st_closed s" and m: "ms_inv s m" and k: "is_key k" and q: "Mark X m k = ((n, p), m')"
  shows "p \<longleftrightarrow> Has X s k = Inr True" and "p \<Longrightarrow> n \<longleftrightarrow> k \<notin> ms_keys X m" and "ms_inv s m'"
    and "p \<Longrightarrow> ms_keys X m' = insert k (ms_keys X m)" and "ms_marked m' = ms_marked m + of_bool n"
proof -
  note st = Mark_step [OF h m k q]
  show "p \<longleftrightarrow> Has X s k = Inr True" "ms_inv s m'" "ms_marked m' = ms_marked m + of_bool n" using st(1,3,4) by blast+
  show "n \<longleftrightarrow> k \<notin> ms_keys X m" if p using st(1,2) k that by (simp add: ms_keys_def)
  show "ms_keys X m' = insert k (ms_keys X m)" if p using st(1,5) k that by (auto simp: ms_keys_def)
qed

text \<open>The mark set belongs to the store \<open>s0\<close>, objects are read from \<open>s\<close>.\<close>

lemma mark_visit_shown:
  assumes h: "holds X s0 L" "\<not> st_closed s0" and m: "ms_inv s0 m" and k: "is_key k"
    and e: "look X Z C s k = Inr cs" and has: "Has X s0 k = Inr True"
  shows "\<exists>m'. mark_visit X Z C s m k = Inr (m', if k \<in> ms_keys X m then [] else cs) \<and> ms_inv s0 m' \<and>
     ms_keys X m' = insert k (ms_keys X m) \<and> ms_marked m' = ms_marked m + of_bool (k \<notin> ms_keys X m)"
proof -
  obtain n p m' where q: "Mark X m k = ((n, p), m')" by (metis prod.exhaust)
  note mk = Mark_keys [OF h m k q]
  have p: p using mk(1) has by simp
  have "mark_visit X Z C s m k = Inr (m', if k \<in> ms_keys X m then [] else cs)"
  proof (cases "is_leaf_key k")
    case True
    then show ?thesis using q p mk(2) e look_leaf [OF True, of X Z C s cs] by (simp add: mark_visit_def)
  next
    case False
    then obtain d where d: "Get X Z s k = Inr d" "ChildKeys C k d = (Inr cs :: ps_err fs_err + key list)"
      using look_inner [OF False] e by blast
    then show ?thesis using q p mk(2) False by (simp add: mark_visit_def)
  qed
  then show ?thesis using mk p by auto
qed

lemma mark_visit_bad:
  assumes h: "holds X s L" "\<not> st_closed s" and m: "ms_inv s m" and k: "is_key k"
    and e: "\<And>cs. look X Z C s k \<noteq> Inr cs" and new: "k \<notin> ms_keys X m"
  shows "\<exists>err. mark_visit X Z C s m k = Inl err"
proof -
  obtain n p m' where q: "Mark X m k = ((n, p), m')" by (metis prod.exhaust)
  note mk = Mark_keys [OF h m k q]
  show ?thesis
  proof (cases p)
    case True
    then have inner: "\<not> is_leaf_key k" using mk(1) e look_leaf by blast
    have n using mk(2) True new by simp
    show ?thesis
    proof (cases "Get X Z s k")
      case (Inl err)
      then show ?thesis using q True \<open>n\<close> inner by (simp add: mark_visit_def)
    next
      case (Inr d)
      have "\<And>cs. ChildKeys C k d \<noteq> (Inr cs :: ps_err fs_err + key list)" using e look_inner [OF inner] Inr by blast
      then obtain err where "ChildKeys C k d = (Inl err :: ps_err fs_err + key list)"
        by (cases "ChildKeys C k d :: ps_err fs_err + key list") auto
      then show ?thesis using q True \<open>n\<close> inner Inr by (simp add: mark_visit_def)
    qed
  qed (simp add: mark_visit_def q)
qed

text \<open>The walk's invariant: what is marked is shown, and its children are marked or on the stack.\<close>

definition walk_inv :: "xorfilter \<Rightarrow> (key \<Rightarrow> 'err + key list) \<Rightarrow> store \<Rightarrow> MarkSet \<Rightarrow> key list \<Rightarrow> bool" where
  "walk_inv X e s m stack \<longleftrightarrow>
     ms_inv s m \<and> (\<forall>k \<in> set stack. is_key k) \<and> ms_marked m = card (ms_keys X m) \<and> dfs_closed e (ms_keys X m) stack"

lemma ms_keys_finite [simp]: "finite (ms_keys X m)"
  by (rule finite_subset [OF _ finite_keys]) (auto simp: ms_keys_def)

lemma walk_inv_pop:
  assumes w: "walk_inv X e s m (k # rest)" and e: "e k = Inr cs" "\<forall>c \<in> set cs. is_key c"
    and m': "ms_inv s m'" "ms_keys X m' = insert k (ms_keys X m)" "ms_marked m' = ms_marked m + of_bool (k \<notin> ms_keys X m)"
    and push: "push = (if k \<in> ms_keys X m then [] else cs)"
  shows "walk_inv X e s m' (rev push @ rest)"
    and "ms_keys X m' \<union> (\<Union>c \<in> set (rev push @ rest). reach e c) = ms_keys X m \<union> (\<Union>c \<in> set (k # rest). reach e c)"
proof -
  note i = w [unfolded walk_inv_def]
  have d: "dfs_closed e (ms_keys X m) (k # rest)" using i by blast
  note pop = dfs_pop [OF d e(1) push]
  have "ms_marked m' = card (ms_keys X m')" using i m' by (simp add: card_insert_if)
  moreover have "\<forall>k \<in> set (rev push @ rest). is_key k" using i e(2) push by auto
  ultimately show "walk_inv X e s m' (rev push @ rest)"
    using m'(1) pop(1) unfolding walk_inv_def m'(2) by blast
  show "ms_keys X m' \<union> (\<Union>c \<in> set (rev push @ rest). reach e c) = ms_keys X m \<union> (\<Union>c \<in> set (k # rest). reach e c)"
    unfolding m'(2) by (rule pop(2))
qed

text \<open>The result of walking \<open>S\<close> from the marked keys \<open>M\<close>: an error when some tree is not whole,
  otherwise everything reachable is marked.\<close>

definition walk_result :: "xorfilter \<Rightarrow> (key \<Rightarrow> 'err + key list) \<Rightarrow> store \<Rightarrow> key set \<Rightarrow> key set \<Rightarrow> 'e + MarkSet \<Rightarrow> bool" where
  "walk_result X e s M S r \<longleftrightarrow>
     (case r of
        Inl err \<Rightarrow> \<exists>c \<in> S. \<not> whole_tree e c
      | Inr m \<Rightarrow> walk_inv X e s m [] \<and> ms_keys X m = M \<union> (\<Union>c \<in> S. reach e c))"

lemma walk_result_step:
  assumes "walk_result X e s M' S' r" and "(\<Union>c \<in> S'. reach e c) \<subseteq> (\<Union>c \<in> S. reach e c)"
    and "M' \<union> (\<Union>c \<in> S'. reach e c) = M \<union> (\<Union>c \<in> S. reach e c)"
  shows "walk_result X e s M S r"
proof (cases r)
  case (Inl err)
  then obtain c k where "c \<in> S'" "k \<in> reach e c" "\<forall>cs. e k \<noteq> Inr cs"
    using assms(1) by (auto simp: walk_result_def whole_tree_def)
  then have "\<exists>c \<in> S. k \<in> reach e c" using assms(2) by blast
  then show ?thesis using Inl \<open>\<forall>cs. e k \<noteq> Inr cs\<close> by (auto simp: walk_result_def whole_tree_def)
next
  case (Inr m)
  then show ?thesis using assms(1,3) by (simp add: walk_result_def)
qed

lemma shown_present:
  assumes h: "holds X s L" "\<not> st_closed s" and k: "is_key k" and e: "look X Z C s k = Inr cs"
  shows "Has X s k = Inr True"
proof (cases "is_leaf_key k")
  case True
  then show ?thesis using e look_leaf by blast
next
  case False
  then have "Get X Z s k \<noteq> Inl ObjNotFound" using e look_inner [OF False, of X Z C s cs] by auto
  then show ?thesis using holds_reads(1,3) [OF h k] by (auto simp: domIff split: option.splits)
qed

lemma mark_loop_total:
  assumes h: "holds X s L" "\<not> st_closed s" and ctx: "\<And>n. \<not> ctx n" and w: "walk_inv X (look X Z C s) s m stack"
  shows "\<exists>N r. (\<forall>fuel \<ge> N. mark_loop X Z C s ctx fuel n m stack = Some r) \<and>
     walk_result X (look X Z C s) s (ms_keys X m) (set stack) r"
  using w
proof (induction "(card ({k. is_key k} - ms_keys X m), length stack)" arbitrary: m stack n
    rule: wf_induct_rule [OF wf_lex_prod [OF wf_less_than wf_less_than]])
  case (1 m stack n)
  let ?e = "look X Z C s"
  note i = "1.prems" [unfolded walk_inv_def]
  show ?case
  proof (cases stack)
    case Nil
    have "mark_loop X Z C s ctx fuel n m stack = Some (Inr m)" for fuel by (cases fuel) (simp_all add: Nil)
    then show ?thesis using "1.prems" Nil by (intro exI [of _ 0] exI [of _ "Inr m"]) (simp add: walk_result_def)
  next
    case (Cons k rest)
    have k: "is_key k" using i Cons by simp
    show ?thesis
    proof (cases "\<exists>cs. ?e k = Inr cs")
      case False
      then have "k \<notin> ms_keys X m" using i by (auto simp: dfs_closed_def)
      then obtain err where err: "mark_visit X Z C s m k = Inl err"
        using mark_visit_bad [OF h _ k, of m Z C] i False by blast
      have "mark_loop X Z C s ctx fuel n m stack = Some (Inl err)" if "fuel \<ge> 1" for fuel
        using that ctx by (cases fuel) (simp_all add: Cons err)
      moreover have "\<not> whole_tree ?e k" using False reach_root by (auto simp: whole_tree_def)
      ultimately show ?thesis using Cons
        by (intro exI [of _ 1] exI [of _ "Inl err"]) (simp add: walk_result_def)
    next
      case True
      then obtain cs where cs: "?e k = Inr cs" by blast
      have ck: "\<forall>c \<in> set cs. is_key c"
        using look_children [of X Z C s] cs by (auto simp: children_ok_def canonical_def)
      let ?push = "if k \<in> ms_keys X m then [] else cs"
      obtain m' where v: "mark_visit X Z C s m k = Inr (m', ?push)" "ms_inv s m'" "ms_keys X m' = insert k (ms_keys X m)"
        "ms_marked m' = ms_marked m + of_bool (k \<notin> ms_keys X m)"
        using mark_visit_shown [OF h _ k cs shown_present [OF h k cs]] i by blast
      have w': "walk_inv X ?e s m (k # rest)" using "1.prems" Cons by simp
      note pop = walk_inv_pop [OF w' cs ck v(2-4) refl]
      have smaller: "((card ({k. is_key k} - ms_keys X m'), length (rev ?push @ rest)),
          card ({k. is_key k} - ms_keys X m), length stack) \<in> less_than <*lex*> less_than"
        unfolding Cons v(3) by (rule dfs_smaller [OF k refl])
      from "1.hyps" [OF smaller pop(1), of "n + 1"] obtain N r where
        ih: "\<And>fuel. fuel \<ge> N \<Longrightarrow> mark_loop X Z C s ctx fuel (n + 1) m' (rev ?push @ rest) = Some r"
          "walk_result X ?e s (ms_keys X m') (set (rev ?push @ rest)) r"
        by blast
      have "mark_loop X Z C s ctx fuel n m stack = Some r" if "fuel \<ge> Suc N" for fuel
        using that ih(1) v(1) ctx by (cases fuel) (simp_all add: Cons)
      moreover have "walk_result X ?e s (ms_keys X m) (set stack) r"
      proof (rule walk_result_step [OF ih(2)])
        show "(\<Union>c \<in> set (rev ?push @ rest). reach ?e c) \<subseteq> (\<Union>c \<in> set stack. reach ?e c)"
          using reach_unfold [of ?e k cs, OF cs] Cons by auto
        show "ms_keys X m' \<union> (\<Union>c \<in> set (rev ?push @ rest). reach ?e c) = ms_keys X m \<union> (\<Union>c \<in> set stack. reach ?e c)"
          unfolding Cons by (rule pop(2))
      qed
      ultimately show ?thesis by blast
    qed
  qed
qed

lemma NewMarkSet_keys:
  assumes "holds X s L" and "\<not> st_closed s"
  shows "ms_keys X (NewMarkSet s) = {}" and "ms_marked (NewMarkSet s) = 0"
  using mark_all_inv [OF assms, of "[]"] by (auto simp: mark_all_def ms_keys_def)

text \<open>All roots in turn, over one mark set.\<close>

lemma mark_roots_total:
  assumes h: "holds X s L" "\<not> st_closed s" and ctx: "\<And>i n. \<not> ctx i n" and rs: "\<forall>r \<in> set roots. is_key r"
    and w: "walk_inv X (look X Z C s) s m []"
  shows "\<exists>N r. (\<forall>fuel \<ge> N. fold_err (\<lambda>live (i, rk). markFrom X Z C s (ctx i) fuel live rk) m (enumerate j roots) = Some r) \<and>
     walk_result X (look X Z C s) s (ms_keys X m) (set roots) r"
  using rs w
proof (induction roots arbitrary: m j)
  case Nil
  then show ?case by (intro exI [of _ 0] exI [of _ "Inr m"]) (simp add: walk_result_def)
next
  case (Cons rk roots)
  let ?e = "look X Z C s" and ?step = "\<lambda>fuel live (i, rk). markFrom X Z C s (ctx i) fuel live rk"
  have "walk_inv X ?e s m [rk]" using Cons.prems by (fastforce simp: walk_inv_def dfs_closed_def)
  from mark_loop_total [OF h _ this, of "ctx j" 0] ctx obtain N1 r1 where
    l1: "\<forall>fuel \<ge> N1. mark_loop X Z C s (ctx j) fuel 0 m [rk] = Some r1" "walk_result X ?e s (ms_keys X m) (set [rk]) r1"
    by blast
  then have r1: "\<And>fuel. fuel \<ge> N1 \<Longrightarrow> markFrom X Z C s (ctx j) fuel m rk = Some r1" by (simp add: markFrom_def)
  show ?case
  proof (cases r1)
    case (Inl err)
    then have "fold_err (?step fuel) m (enumerate j (rk # roots)) = Some (Inl err)" if "fuel \<ge> N1" for fuel
      using r1 [OF that] by simp
    then show ?thesis using l1(2) Inl by (intro exI [of _ N1] exI [of _ "Inl err"]) (simp add: walk_result_def)
  next
    case (Inr m1)
    have m1: "walk_inv X ?e s m1 []" "ms_keys X m1 = ms_keys X m \<union> reach ?e rk" using l1(2) Inr by (simp_all add: walk_result_def)
    have "\<forall>r \<in> set roots. is_key r" using Cons.prems(1) by simp
    from Cons.IH [OF this m1(1), of "Suc j"] obtain N2 r2 where
      r2: "\<And>fuel. fuel \<ge> N2 \<Longrightarrow> fold_err (?step fuel) m1 (enumerate (Suc j) roots) = Some r2"
        "walk_result X ?e s (ms_keys X m1) (set roots) r2"
      by blast
    have "fold_err (?step fuel) m (enumerate j (rk # roots)) = Some r2" if "fuel \<ge> max N1 N2" for fuel
      using r1 [of fuel] r2(1) [of fuel] that Inr by simp
    moreover have "walk_result X ?e s (ms_keys X m) (set (rk # roots)) r2"
      by (rule walk_result_step [OF r2(2)]) (auto simp: m1(2))
    ultimately show ?thesis by blast
  qed
qed

lemma markLive_total:
  assumes h: "holds X s L" "\<not> st_closed s" and ctx: "\<And>i n. \<not> ctx i n" and rs: "\<forall>r \<in> set roots. is_key r"
  shows "\<exists>N r. (\<forall>fuel \<ge> N. markLive X Z C s ctx fuel roots = Some r) \<and>
     (case r of
        Inl err \<Rightarrow> \<not> (\<forall>r \<in> set roots. whole_tree (look X Z C s) r)
      | Inr m \<Rightarrow> (\<forall>r \<in> set roots. whole_tree (look X Z C s) r) \<and> ms_marked m = card (ms_keys X m) \<and>
          ms_keys X m = (\<Union>c \<in> set roots. reach (look X Z C s) c))"
proof -
  let ?e = "look X Z C s"
  note new = NewMarkSet_keys [OF h]
  have "walk_inv X ?e s (NewMarkSet s) []" using NewMarkSet_inv new by (simp add: walk_inv_def dfs_closed_def)
  from mark_roots_total [where ctx = ctx and j = 0, OF h ctx rs this] obtain N r where
    r: "\<forall>fuel \<ge> N. markLive X Z C s ctx fuel roots = Some r" "walk_result X ?e s {} (set roots) r"
    unfolding markLive_def new(1) by blast
  have "case r of
        Inl err \<Rightarrow> \<not> (\<forall>r \<in> set roots. whole_tree ?e r)
      | Inr m \<Rightarrow> (\<forall>r \<in> set roots. whole_tree ?e r) \<and> ms_marked m = card (ms_keys X m) \<and>
          ms_keys X m = (\<Union>c \<in> set roots. reach ?e c)"
    using r(2) by (cases r) (auto simp: walk_result_def walk_inv_def dfs_closed_def whole_tree_def)
  then show ?thesis using r(1) by blast
qed

section \<open>A cycle\<close>

lemma barrier_same [simp]:
  "st_sealed (BeginBarrier s) = st_sealed s" "st_active (BeginBarrier s) = st_active s" "st_closed (BeginBarrier s) = st_closed s"
  "st_failed (BeginBarrier s) = st_failed s" "st_nextID (BeginBarrier s) = st_nextID s" "st_disk (BeginBarrier s) = st_disk s"
  "st_segmentSize (BeginBarrier s) = st_segmentSize s" "st_grey (BeginBarrier s) = Some []" "st_capturing (BeginBarrier s)"
  by (simp_all add: BeginBarrier_def)

text \<open>What only changes the grey set changes no read.\<close>

definition same_contents :: "store \<Rightarrow> store \<Rightarrow> bool" where
  "same_contents s s' \<longleftrightarrow>
     st_sealed s' = st_sealed s \<and> st_active s' = st_active s \<and> st_closed s' = st_closed s \<and> st_failed s' = st_failed s \<and>
     st_nextID s' = st_nextID s \<and> st_disk s' = st_disk s \<and> st_segmentSize s' = st_segmentSize s"

lemma same_contents_intros [simp]:
  "same_contents s (BeginBarrier s)" "same_contents s (AbortBarrier s)" "same_contents s (ObserveKeys ks s)" "same_contents s (observe k s)"
  by (simp_all add: same_contents_def AbortBarrier_def ObserveKeys_def observe_def split: option.splits)

lemma same_contents_reads:
  assumes "same_contents s s'"
  shows "holds X s' = holds X s" "Has X s' = Has X s" "Get X Z s' = Get X Z s" "look X Z C s' = look X Z C s"
    "ids_ok s' = ids_ok s" "names_ok s' = names_ok s" "st_closed s' = st_closed s" "st_nextID s' = st_nextID s"
proof -
  have c: "st_sealed s' = st_sealed s" "st_active s' = st_active s" "st_closed s' = st_closed s" "st_failed s' = st_failed s"
    "st_nextID s' = st_nextID s" "st_disk s' = st_disk s" "st_segmentSize s' = st_segmentSize s"
    using assms by (simp_all add: same_contents_def)
  have loc: "active_loc s' = active_loc s" by (intro ext) (simp add: active_loc_def c)
  show h: "Has X s' = Has X s" and g: "Get X Z s' = Get X Z s" unfolding Has_def Get_def loc c by (rule refl)+
  show "holds X s' = holds X s" using cut_cong [of s' s] c by (intro ext) (simp add: holds_def holds_with_def)
  show "look X Z C s' = look X Z C s" by (simp add: look_def h g)
  show "ids_ok s' = ids_ok s" "names_ok s' = names_ok s" using c ids_ok_cong [of s' s] names_ok_cong [of s' s] by simp_all
  show "st_closed s' = st_closed s" "st_nextID s' = st_nextID s" using c by simp_all
qed

lemma NewMarkSet_contents: "same_contents s s' \<Longrightarrow> NewMarkSet s' = NewMarkSet s"
  by (simp add: same_contents_def NewMarkSet_def)

lemma gc_roots_canonical: "gc_roots RC P db = Inr roots \<Longrightarrow> \<forall>r \<in> set roots. canonical r"
  using map_err_each
  by (fastforce simp: gc_roots_def record_root_def Parse_ok split: sum.splits)

text \<open>What survives a sweep with the keys \<open>K\<close> of whole trees marked or grey.\<close>

lemma kept_trees:
  assumes "whole_tree (look X Z C s) r" and "canonical r"
    and "\<And>k. k \<in> reach (look X Z C s) r \<Longrightarrow> Has X s' k = Has X s k \<and> Get X Z s' k = Get X Z s k"
  shows "reach (look X Z C s') r = reach (look X Z C s) r \<and> whole_tree (look X Z C s') r"
  by (rule same_view_reach [OF assms(1)]) (use assms(3) in \<open>auto simp: look_def expand_check_def\<close>)

lemma tree_present:
  assumes "holds X s L" and "\<not> st_closed s" and "whole_tree (look X Z C s) r" and "canonical r" and "k \<in> reach (look X Z C s) r"
  shows "is_key k \<and> Has X s k = Inr True"
proof -
  have k: "is_key k" by (rule canonical_key [OF reach_canonical [OF look_children assms(4,5)]])
  then show ?thesis using shown_present [OF assms(1,2) k] assms(3,5) by (auto simp: whole_tree_def)
qed

lemma sweep_keeps:
  assumes X: "fuse_ok X" "0 < ci_procs ci" and h: "holds X s L" "\<not> st_closed s" "ids_ok s" "names_ok s"
    and n: "unat (st_nextID s) + length L < 2 ^ 64"
    and one: "\<forall>r \<in> set L. \<forall>r' \<in> set L. rec_key r = rec_key r' \<longrightarrow> decode_record Z r = decode_record Z r'"
    and grey: "st_grey s = Some []" and run: "\<not> ci_cancelled ci"
    and q: "gc_sweep X H Z opts ci m stats s = (stats', e, s')"
  shows "cs_Marked stats' = cs_Marked stats"
    and "k \<in> ms_keys X m \<Longrightarrow> Has X s' k = Has X s k \<and> Get X Z s' k = Get X Z s k"
    and "e = None \<Longrightarrow> full_sweep (sweep_opts opts ci (cs_Threshold stats)) \<Longrightarrow> is_key k \<Longrightarrow>
      Has X s' k = Inr (Has X s k = Inr True \<and> k \<in> ms_keys X m)"
proof -
  obtain e1 st where c: "Compact X H Z (ci_procs ci) (ci_sched ci) (sweep_opts opts ci (cs_Threshold stats)) (ms_Contains X m) s = (e1, s', st)"
    and r: "e = map_option GcStore e1" "cs_Marked stats' = cs_Marked stats"
    using q run by (auto simp: gc_sweep_def split: prod.splits)
  show "cs_Marked stats' = cs_Marked stats" by (rule r(2))
  have live: "or_grey (st_grey s) (ms_Contains X m) k \<longleftrightarrow> k \<in> ms_keys X m" if "is_key k" for k
    using that by (simp add: or_grey_def grey ms_keys_def)
  show "Has X s' k = Has X s k \<and> Get X Z s' k = Get X Z s k" if k: "k \<in> ms_keys X m"
  proof -
    have "is_key k" using k by (simp add: ms_keys_def)
    then show ?thesis using Compact_keeps [OF X h n one c] live k by blast
  qed
  show "Has X s' k = Inr (Has X s k = Inr True \<and> k \<in> ms_keys X m)"
    if "e = None" "full_sweep (sweep_opts opts ci (cs_Threshold stats))" "is_key k"
  proof -
    have "e1 = None" using that(1) r(1) by simp
    then show ?thesis using Compact_exact [OF X h n that(2) c [unfolded \<open>e1 = None\<close>] that(3)] live [OF that(3)] by simp
  qed
qed

lemma encode_decodes:
  assumes "zstd_ok Z" and "canonical k" and "EncodeRecord Z k data = Inr rec"
  shows "decode_record Z rec = Inr data"
proof -
  have le: "length data \<le> MaxPayload"
    and rec: "rec = rec_bytes k (fst (stored_form Z data)) (of_nat (length data)) (snd (stored_form Z data))"
    using assms(3) by (auto simp: EncodeRecord_iff)
  show ?thesis
    using DecodePayload_stored [OF assms(1) le] rec_bytes_fields [OF canonical_key [OF assms(2)]] rec canonical_key [OF assms(2)]
    by (simp add: decode_record_def)
qed

section \<open>Concrete references\<close>

definition wit_ref :: Reference where
  "wit_ref = \<lparr>Ref_Name = [97], Ref_Key = wit_key, Ref_User = [], Ref_CreatedAt = 0, Ref_Signature = [], Ref_PublicKey = []\<rparr>"

definition wit_db :: "(bytes \<times> bytes) list" where
  "wit_db = [([97], the (MarshalRef frame_ref wit_ref))]"

lemma wit_ref_valid: "Ref_Encode frame_ref wit_ref = Inr (the (MarshalRef frame_ref wit_ref))"
proof -
  have "ValidateName [97] = None"
    by (simp add: ValidateName_def MaxNameLen_def ValidString_def utf8_runes.simps RuneError_def)
  then have "ref_validate wit_ref = None"
    using wit_key by (simp add: wit_ref_def ref_validate_def Parse_ok [THEN iffD2] MaxSignatureLen_def MaxPublicKeyLen_def)
  then show ?thesis by (simp add: Ref_Encode_def frame_ref_def)
qed

lemma wit_roots: "gc_roots frame_ref mem_pebble wit_db = Inr [wit_key]"
proof -
  have "Ref_Decode frame_ref (the (MarshalRef frame_ref wit_ref)) = Inr wit_ref"
    using Decode_iff [OF frame_ref_ok] wit_ref_valid by blast
  moreover have "Parse wit_key = Inr wit_key" using wit_key by (simp add: Parse_ok)
  ultimately have "record_root frame_ref [97] (the (MarshalRef frame_ref wit_ref)) = Inr wit_key"
    by (simp add: record_root_def) (simp add: wit_ref_def)
  then show ?thesis by (simp add: gc_roots_def Refs_All_def mem_pebble_def wit_db_def)
qed

text \<open>A store that has taken one object.\<close>

lemma wit_stored:
  obtains s L where "Put all_filter rle_zstd wit_key [1, 2, 3, 4, 5] empty_store = (None, s)" "holds all_filter s L" "\<not> st_closed s"
    "ids_ok s" "names_ok s" "length L \<le> 1" "unat (st_nextID s) \<le> 2" "wit_key \<in> dom (log_map L)"
    "\<forall>r \<in> set L. decode_record rle_zstd r = Inr [1, 2, 3, 4, 5]"
proof -
  have e: "\<not> st_closed empty_store" "ids_ok empty_store" "names_ok empty_store" "unat (st_nextID empty_store) + 1 < 2 ^ 64"
    by (simp_all add: empty_store_def ids_ok_def names_ok_def)
  obtain s where p: "Put all_filter rle_zstd wit_key [1, 2, 3, 4, 5] empty_store = (None, s)"
    using Put_calm [OF all_filter_ok all_filter_total empty_store_holds e(1) _ _ wit_key(1), of "[1, 2, 3, 4, 5]"]
    by (auto simp: empty_store_def empty_disk_def MaxPayload_def)
  from Put_log [OF all_filter_ok empty_store_holds e(1) wit_key(1) p] obtain new where
    n: "holds all_filter s ([] @ new)" "\<not> st_closed s" "new = [] \<or> (\<exists>rec. EncodeRecord rle_zstd wit_key [1, 2, 3, 4, 5] = Inr rec \<and> new = [rec])"
    "wit_key \<in> dom (log_map ([] @ new))" by blast
  have l: "length new \<le> 1" using n(3) by auto
  have i: "ids_ok s" "names_ok s" "unat (st_nextID s) \<le> 2"
    using Put_ids [OF all_filter_ok empty_store_holds wit_key(1) e(2,3,4) p] by (simp_all add: empty_store_def)
  have d: "\<forall>r \<in> set new. decode_record rle_zstd r = Inr [1, 2, 3, 4, 5]"
    using n(3) encode_decodes [OF rle_zstd_ok wit_key(1)] by auto
  show thesis by (rule that [OF p _ n(2) i(1,2) _ i(3) _ d]) (use n l in simp_all)
qed

section \<open>The search of \<open>Why\<close>\<close>

lemma get_children: "children_ok (expand_get C get)"
  by (auto simp: children_ok_def expand_get_def split: if_splits sum.splits dest: ChildKeys_canonical)

lemma expand_get_inner: "\<not> is_leaf_key k \<Longrightarrow> expand_get C get k = Inr cs \<longleftrightarrow> (\<exists>d. get k = Inr d \<and> ChildKeys C k d = (Inr cs :: 'e fs_err + key list))"
  for get :: "key \<Rightarrow> 'e + bytes"
  by (auto simp: expand_get_def split: sum.splits)

lemma reaches_total:
  assumes d: "dfs_closed (expand_get C get) V stack" and k: "k \<notin> V" and keys: "\<forall>c \<in> set stack. is_key c"
    and whole: "\<forall>c \<in> set stack. whole_tree (expand_get C get) c"
  shows "\<exists>N. \<forall>fuel \<ge> N. reaches_loop C get k fuel V stack = Some (Inr (k \<in> (\<Union>c \<in> set stack. reach (expand_get C get) c)))"
  using assms
proof (induction "(card ({k. is_key k} - V), length stack)" arbitrary: V stack
    rule: wf_induct_rule [OF wf_lex_prod [OF wf_less_than wf_less_than]])
  case (1 V stack)
  let ?e = "expand_get C get"
  show ?case
  proof (cases stack)
    case Nil
    have "reaches_loop C get k fuel V stack = Some (Inr False)" for fuel by (cases fuel) (simp_all add: Nil)
    then show ?thesis using Nil by simp
  next
    case (Cons cur rest)
    have cur: "is_key cur" and whole: "whole_tree ?e cur" using "1.prems" Cons by simp_all
    obtain cs where cs: "?e cur = Inr cs" using whole reach_root by (force simp: whole_tree_def)
    show ?thesis
    proof (cases "cur = k")
      case True
      have "reaches_loop C get k fuel V stack = Some (Inr True)" if "fuel \<ge> 1" for fuel
        using that True by (cases fuel) (simp_all add: Cons)
      then show ?thesis using Cons True reach_root by (intro exI [of _ 1]) auto
    next
      case False
      let ?push = "if cur \<in> V then [] else cs"
      have d: "dfs_closed ?e V (cur # rest)" using "1.prems"(1) Cons by simp
      note pop = dfs_pop [OF d cs refl]
      have step: "reaches_loop C get k (Suc fuel) V stack = reaches_loop C get k fuel (insert cur V) (rev ?push @ rest)" for fuel
      proof (cases "is_leaf_key cur")
        case True
        then have "cs = []" using cs by (simp add: expand_get_def)
        then show ?thesis using False True Cons by (simp add: insert_absorb)
      next
        case inner: False
        then obtain dt where "get cur = Inr dt" "ChildKeys C cur dt = (Inr cs :: ps_err fs_err + key list)"
          using cs expand_get_inner by blast
        then show ?thesis using False inner Cons by (simp add: insert_absorb)
      qed
      have "whole_tree ?e c" if "c \<in> set cs" for c
        using whole reach_trans [OF reach_step [OF reach_root [of cur ?e] cs that]] by (auto simp: whole_tree_def)
      then have w: "\<forall>c \<in> set (rev ?push @ rest). whole_tree ?e c" using "1.prems"(4) Cons by auto
      have ks: "\<forall>c \<in> set (rev ?push @ rest). is_key c"
        using "1.prems"(3) Cons get_children [of C get] cs by (auto simp: children_ok_def canonical_def)
      have sm: "((card ({k. is_key k} - insert cur V), length (rev ?push @ rest)),
          card ({k. is_key k} - V), length stack) \<in> less_than <*lex*> less_than"
        unfolding Cons by (rule dfs_smaller [OF cur refl])
      have "k \<notin> insert cur V" using False "1.prems"(2) by simp
      from "1.hyps" [OF sm pop(1) this ks w] obtain N where
        ih: "\<forall>fuel \<ge> N. reaches_loop C get k fuel (insert cur V) (rev ?push @ rest) = Some (Inr (k \<in> (\<Union>c \<in> set (rev ?push @ rest). reach ?e c)))"
        by blast
      have same: "k \<in> (\<Union>c \<in> set (rev ?push @ rest). reach ?e c) \<longleftrightarrow> k \<in> (\<Union>c \<in> set stack. reach ?e c)"
      proof -
        have "k \<in> insert cur V \<union> (\<Union>c \<in> set (rev ?push @ rest). reach ?e c) \<longleftrightarrow> k \<in> V \<union> (\<Union>c \<in> set stack. reach ?e c)"
          unfolding Cons pop(2) ..
        then show ?thesis using False [symmetric] "1.prems"(2) by (simp only: Un_iff insert_iff simp_thms)
      qed
      have "reaches_loop C get k fuel V stack = Some (Inr (k \<in> (\<Union>c \<in> set stack. reach ?e c)))" if "fuel \<ge> Suc N" for fuel
        using that ih step unfolding same by (cases fuel) auto
      then show ?thesis by blast
    qed
  qed
qed

lemma why_records:
  assumes "\<forall>nr \<in> set recs. \<exists>r. record_root RC (fst nr) (snd nr) = Inr r \<and> whole_tree (expand_get C get) r"
  shows "\<exists>N. \<forall>fuel \<ge> N. fold_err (why_step RC C get fuel k) names recs =
     Some (Inr (names @ map fst (filter (\<lambda>nr. k \<in> reach (expand_get C get) (projr (record_root RC (fst nr) (snd nr)))) recs)))"
  using assms
proof (induction recs arbitrary: names)
  case (Cons nr recs)
  let ?e = "expand_get C get"
  obtain r where r: "record_root RC (fst nr) (snd nr) = Inr r" "whole_tree ?e r" using Cons.prems by auto
  have "is_key r" using r(1) by (auto simp: record_root_def Parse_ok canonical_def split: sum.splits)
  then obtain N1 where n1: "\<forall>fuel \<ge> N1. gc_reaches C get fuel r k = Some (Inr (k \<in> reach ?e r))"
    using reaches_total [of C get "{}" "[r]" k] r(2) by (auto simp: gc_reaches_def dfs_closed_def)
  obtain N2 where n2: "\<forall>fuel \<ge> N2. fold_err (why_step RC C get fuel k) (if k \<in> reach ?e r then names @ [fst nr] else names) recs =
      Some (Inr ((if k \<in> reach ?e r then names @ [fst nr] else names) @
        map fst (filter (\<lambda>nr. k \<in> reach ?e (projr (record_root RC (fst nr) (snd nr)))) recs)))"
    using Cons.IH Cons.prems by (meson list.set_intros(2))
  have "fold_err (why_step RC C get fuel k) names (nr # recs) =
      Some (Inr (names @ map fst (filter (\<lambda>nr. k \<in> reach ?e (projr (record_root RC (fst nr) (snd nr)))) (nr # recs))))"
    if "fuel \<ge> max N1 N2" for fuel
    using n1 n2 that r(1) by (simp add: why_step_def)
  then show ?case by blast
qed simp

section \<open>The throttle\<close>

lemma sint64: "- (2 ^ 63) \<le> x \<Longrightarrow> x < 2 ^ 63 \<Longrightarrow> sint (word_of_int x :: u64) = x"
  by (simp add: sint_sbintrunc' signed_take_bit_int_eq_self)

lemma sdiv_nonneg: "0 \<le> x \<Longrightarrow> 0 < y \<Longrightarrow> x sdiv y = x div (y :: int)" "0 \<le> x \<Longrightarrow> 0 < y \<Longrightarrow> x smod y = x mod y"
  by (cases "x = 0"; simp add: signed_divide_int_def signed_modulo_int_def minus_mult_div_eq_mod mult.commute)+

section \<open>Properties\<close>

text \<open>C2: a cycle on a quiet store is exact. Whatever order the copying pipeline runs in and
  whichever I/O calls fail, a cycle returns for every large enough fuel. When the tree of each
  reference is whole, it counts the reachable objects, keeps all of them readable as before,
  and, if it returns no error and every segment is eligible, leaves nothing else. When an
  object of some tree is missing or unreadable it reports an error and sweeps nothing.\<close>

theorem gc_cycle_exact:
  assumes "fuse_ok X" and "0 < ci_procs ci" and "holds X s L" and "\<not> st_closed s" and "ids_ok s" and "names_ok s"
    and "unat (st_nextID s) + length L < 2 ^ 64"
    and "\<forall>r \<in> set L. \<forall>r' \<in> set L. rec_key r = rec_key r' \<longrightarrow> decode_record Z r = decode_record Z r'"
    and "gc_roots RC P db = Inr roots" and "\<And>i n. \<not> ci_ctx ci i n" and "\<not> ci_cancelled ci"
    and K: "K = (\<Union>r \<in> set roots. reach (look X Z C s) r)"
  shows "\<exists>N. \<forall>fuel \<ge> N. \<exists>stats e s'. gc_cycle X H Z C RC P opts (ci\<lparr>ci_fuel := fuel\<rparr>) garbage db s = Some (stats, e, s') \<and>
     (if \<forall>r \<in> set roots. whole_tree (look X Z C s) r
      then cs_Marked stats = card K \<and> (\<forall>k \<in> K. Has X s' k = Inr True \<and> Get X Z s' k = Get X Z s k) \<and>
           (e = None \<and> full_sweep (sweep_opts opts ci (line_of opts ci garbage)) \<longrightarrow> (\<forall>k. is_key k \<longrightarrow> Has X s' k = Inr (k \<in> K)))
      else e \<noteq> None \<and> s' = AbortBarrier s)"
proof -
  let ?b = "BeginBarrier s"
  note same = same_contents_reads [OF same_contents_intros(1) [of s]]
  have h: "holds X ?b L" "\<not> st_closed ?b" "ids_ok ?b" "names_ok ?b" "unat (st_nextID ?b) + length L < 2 ^ 64"
    using assms(3-7) by (simp_all add: same)
  have can: "\<forall>r \<in> set roots. canonical r" by (rule gc_roots_canonical [OF assms(9)])
  then have keys: "\<forall>r \<in> set roots. is_key r" by (auto simp: canonical_def)
  obtain N r where r: "\<forall>fuel \<ge> N. markLive X Z C ?b (ci_ctx ci) fuel roots = Some r"
    "case r of
        Inl err \<Rightarrow> \<not> (\<forall>r \<in> set roots. whole_tree (look X Z C s) r)
      | Inr m \<Rightarrow> (\<forall>r \<in> set roots. whole_tree (look X Z C s) r) \<and> ms_marked m = card (ms_keys X m) \<and> ms_keys X m = K"
    using markLive_total [where ctx = "ci_ctx ci" and C = C and Z = Z, OF h(1,2) assms(10) keys] unfolding same(4) K by blast
  show ?thesis
  proof (intro exI [of _ N] allI impI)
    fix fuel assume fuel: "fuel \<ge> N"
    let ?ci = "ci\<lparr>ci_fuel := fuel\<rparr>" and ?line = "line_of opts ci garbage"
    define st0 where "st0 = no_cycle\<lparr>cs_Start := ci_now ci 0, cs_Threshold := ?line\<rparr>"
    have line: "line_of opts ?ci garbage = ?line" "sweep_opts opts ?ci t = sweep_opts opts ci t" for t
      by (simp_all add: line_of_def sweep_opts_def)
    have cyc: "gc_cycle X H Z C RC P opts ?ci garbage db s =
        map_option (apfst (\<lambda>st. st\<lparr>cs_Duration := ci_now ci 5 - ci_now ci 0\<rparr>))
          (case r of Inl e \<Rightarrow> Some (st0, Some e, AbortBarrier ?b)
           | Inr m \<Rightarrow> Some (gc_sweep X H Z opts ?ci m (st0\<lparr>cs_Marked := ms_marked m, cs_MarkDuration := ci_now ci 1 - ci_now ci 0\<rparr>) ?b))"
      using r(1) fuel assms(9) by (cases r) (simp_all add: gc_cycle_def gc_mark_sweep_def st0_def line Let_def)
    show "\<exists>stats e s'. gc_cycle X H Z C RC P opts ?ci garbage db s = Some (stats, e, s') \<and>
       (if \<forall>r \<in> set roots. whole_tree (look X Z C s) r
        then cs_Marked stats = card K \<and> (\<forall>k \<in> K. Has X s' k = Inr True \<and> Get X Z s' k = Get X Z s k) \<and>
             (e = None \<and> full_sweep (sweep_opts opts ci ?line) \<longrightarrow> (\<forall>k. is_key k \<longrightarrow> Has X s' k = Inr (k \<in> K)))
        else e \<noteq> None \<and> s' = AbortBarrier s)"
    proof (cases r)
      case (Inl err)
      then show ?thesis using cyc r(2) by (auto simp: AbortBarrier_def BeginBarrier_def)
    next
      case (Inr m)
      have m: "\<forall>r \<in> set roots. whole_tree (look X Z C s) r" "ms_marked m = card K" "ms_keys X m = K" using r(2) Inr by auto
      define st1 where "st1 = st0\<lparr>cs_Marked := ms_marked m, cs_MarkDuration := ci_now ci 1 - ci_now ci 0\<rparr>"
      obtain stats e s' where q: "gc_sweep X H Z opts ?ci m st1 ?b = (stats, e, s')" by (metis prod_cases3)
      have c: "0 < ci_procs ?ci" "\<not> ci_cancelled ?ci" "st_grey ?b = Some []" using assms(2,11) by simp_all
      have st1: "cs_Marked st1 = card K" "cs_Threshold st1 = ?line" using m(2) by (simp_all add: st1_def st0_def)
      note sw = sweep_keeps [OF assms(1) c(1) h assms(8) c(3,2) q, unfolded same(2,3) m(3) st1 line(2)]
      have pres: "Has X s k = Inr True" if "k \<in> K" for k
        using that tree_present [OF assms(3,4)] m(1) can unfolding K by blast
      have "gc_cycle X H Z C RC P opts ?ci garbage db s = Some (stats\<lparr>cs_Duration := ci_now ci 5 - ci_now ci 0\<rparr>, e, s')"
        using cyc Inr q by (simp add: st1_def)
      moreover have "\<forall>k \<in> K. Has X s' k = Inr True \<and> Get X Z s' k = Get X Z s k" using sw(2) pres by simp
      moreover have "Has X s' k = Inr (k \<in> K)" if "e = None \<and> full_sweep (sweep_opts opts ci ?line)" "is_key k" for k
      proof -
        have "Has X s' k = Inr (Has X s k = Inr True \<and> k \<in> K)" by (rule sw(3)) (use that in blast)+
        then show ?thesis using pres by auto
      qed
      ultimately show ?thesis using m(1) sw(1) by auto
    qed
  qed
qed

definition wit_cycle :: cycle_in where
  "wit_cycle = \<lparr>ci_now = (\<lambda>_. 0), ci_ctx = (\<lambda>_ _. False), ci_cancelled = False, ci_statfs = None, ci_mtime = (\<lambda>_. Inr (-1)),
     ci_reaches = (\<lambda>_ _ _. True), ci_procs = 1, ci_sched = [], ci_fuel = 0\<rparr>"

definition wit_opts :: Options where
  "wit_opts = \<lparr>op_Grace = 0, op_Garbage = 0, op_MinFree = 0, op_Rate = 0, op_Interval = 0, op_Jobs = 1\<rparr>"

lemma wit_leaf: "is_leaf_key wit_key"
  by (simp add: is_leaf_key_def wit_key_def Key_Type_def ktype_defs)

lemma reach_leaf: "e k = Inr [] \<Longrightarrow> reach e k = {k}"
  using reach_unfold [of e k "[]"] by simp

theorem gc_cycle_exact_witness:
  "\<exists>s stats e s'. Put all_filter rle_zstd wit_key [1, 2, 3, 4, 5] empty_store = (None, s) \<and>
     (\<exists>fuel. gc_cycle all_filter (\<lambda>_. replicate 32 7) rle_zstd frame_cbor frame_ref mem_pebble wit_opts (wit_cycle\<lparr>ci_fuel := fuel\<rparr>)
        0 wit_db s = Some (stats, e, s')) \<and>
     cs_Marked stats = 1 \<and> Has all_filter s' wit_key = Inr True"
proof -
  obtain s L where s: "Put all_filter rle_zstd wit_key [1, 2, 3, 4, 5] empty_store = (None, s)" "holds all_filter s L" "\<not> st_closed s"
    "ids_ok s" "names_ok s" "length L \<le> 1" "unat (st_nextID s) \<le> 2" "wit_key \<in> dom (log_map L)"
    "\<forall>r \<in> set L. decode_record rle_zstd r = Inr [1, 2, 3, 4, 5]" by (rule wit_stored)
  let ?e = "look all_filter rle_zstd frame_cbor s"
  have "Has all_filter s wit_key = Inr True" using holds_reads(1) [OF s(2,3) wit_key(2)] s(8) by simp
  then have e: "?e wit_key = Inr []" using look_leaf [OF wit_leaf] by blast
  have K: "{wit_key} = (\<Union>r \<in> set [wit_key]. reach ?e r)" using reach_leaf [of ?e, OF e] by simp
  have w: "\<forall>r \<in> set [wit_key]. whole_tree ?e r" using reach_leaf [of ?e, OF e] e by (simp add: whole_tree_def)
  have one: "\<forall>r \<in> set L. \<forall>r' \<in> set L. rec_key r = rec_key r' \<longrightarrow> decode_record rle_zstd r = decode_record rle_zstd r'"
    using s(6) by (cases L) auto
  have c: "0 < ci_procs wit_cycle" "\<not> ci_ctx wit_cycle i n" "\<not> ci_cancelled wit_cycle" for i n by (simp_all add: wit_cycle_def)
  have n: "unat (st_nextID s) + length L < 2 ^ 64" using s(6,7) by simp
  obtain N where N: "\<forall>fuel \<ge> N. \<exists>stats e s'.
      gc_cycle all_filter (\<lambda>_. replicate 32 7) rle_zstd frame_cbor frame_ref mem_pebble wit_opts (wit_cycle\<lparr>ci_fuel := fuel\<rparr>) 0 wit_db s = Some (stats, e, s') \<and>
      (if \<forall>r \<in> set [wit_key]. whole_tree ?e r
       then cs_Marked stats = card {wit_key} \<and> (\<forall>k \<in> {wit_key}. Has all_filter s' k = Inr True \<and> Get all_filter rle_zstd s' k = Get all_filter rle_zstd s k) \<and>
         (e = None \<and> full_sweep (sweep_opts wit_opts wit_cycle (line_of wit_opts wit_cycle 0)) \<longrightarrow> (\<forall>k. is_key k \<longrightarrow> Has all_filter s' k = Inr (k \<in> {wit_key})))
       else e \<noteq> None \<and> s' = AbortBarrier s)"
    using gc_cycle_exact [OF all_filter_ok c(1) s(2-5) n one wit_roots c(2,3) K] by blast
  then obtain stats e s' where "gc_cycle all_filter (\<lambda>_. replicate 32 7) rle_zstd frame_cbor frame_ref mem_pebble wit_opts (wit_cycle\<lparr>ci_fuel := N\<rparr>) 0 wit_db s = Some (stats, e, s')"
    "cs_Marked stats = card {wit_key}" "Has all_filter s' wit_key = Inr True"
    unfolding if_P [OF w] by blast
  then show ?thesis using s(1) by auto
qed

text \<open>C36: \<open>Why\<close> is exact. When every reference names a whole tree, the search returns for every
  large enough fuel, without an error, and lists in name order exactly the references whose
  tree contains the key.\<close>

theorem why_exact:
  assumes "Refs_All P db = Inr recs"
    and "\<forall>nr \<in> set recs. \<exists>r. record_root RC (fst nr) (snd nr) = Inr r \<and> whole_tree (expand_get C get) r"
  shows "\<exists>N. \<forall>fuel \<ge> N. collector_Why RC C P get fuel db k =
     Some (Inr (sort (map fst (filter (\<lambda>nr. k \<in> reach (expand_get C get) (projr (record_root RC (fst nr) (snd nr)))) recs))))"
proof -
  from why_records [OF assms(2), of k "[]"] obtain N where "\<forall>fuel \<ge> N. fold_err (why_step RC C get fuel k) [] recs =
      Some (Inr (map fst (filter (\<lambda>nr. k \<in> reach (expand_get C get) (projr (record_root RC (fst nr) (snd nr)))) recs)))" by auto
  then show ?thesis by (intro exI [of _ N]) (simp add: collector_Why_def assms(1))
qed

theorem why_exact_witness:
  "\<exists>fuel. collector_Why frame_ref frame_cbor mem_pebble (\<lambda>_. Inl ObjNotFound) fuel wit_db wit_key = Some (Inr [[97]])"
proof -
  let ?e = "expand_get frame_cbor (\<lambda>_. Inl ObjNotFound) :: key \<Rightarrow> ps_err fs_err + key list"
  have e: "?e wit_key = Inr []" using wit_leaf by (simp add: expand_get_def)
  have a: "Refs_All mem_pebble wit_db = Inr wit_db" by (simp add: Refs_All_def mem_pebble_def wit_db_def)
  have r: "record_root frame_ref (fst nr) (snd nr) = Inr wit_key" if "nr \<in> set wit_db" for nr
    using wit_roots that unfolding gc_roots_def a by (auto simp: wit_db_def split: sum.splits)
  have "\<forall>nr \<in> set wit_db. \<exists>r. record_root frame_ref (fst nr) (snd nr) = Inr r \<and> whole_tree ?e r"
    using r reach_leaf [of ?e, OF e] e by (simp add: whole_tree_def)
  from why_exact [OF a this, of wit_key] obtain N where
    "collector_Why frame_ref frame_cbor mem_pebble (\<lambda>_. Inl ObjNotFound) N wit_db wit_key =
      Some (Inr (sort (map fst (filter (\<lambda>nr. wit_key \<in> reach ?e (projr (record_root frame_ref (fst nr) (snd nr)))) wit_db))))" by blast
  moreover have "filter (\<lambda>nr. wit_key \<in> reach ?e (projr (record_root frame_ref (fst nr) (snd nr)))) wit_db = wit_db"
    using r reach_leaf [of ?e, OF e] by (simp add: filter_id_conv)
  ultimately show ?thesis by (auto simp: wit_db_def)
qed

text \<open>C40: the throttle neither overflows nor drifts. For a rate of at most 9223372036 bytes per
  second and any number of copied bytes whose due time fits a duration, the time owed is the
  exact quotient in nanoseconds, rounded down once.\<close>

theorem throttle_exact:
  assumes "0 \<le> sint n" and "0 < sint rate" and "sint rate \<le> 9223372036" and "sint n * 10 ^ 9 div sint rate < 2 ^ 63"
  shows "sint (throttleOwed n rate) = sint n * 10 ^ 9 div sint rate"
proof -
  define a r where "a = sint n" and "r = sint rate"
  have h: "0 \<le> a" "0 < r" "r \<le> 9223372036" "a < 2 ^ 63" using assms sint_lt [of n] by (simp_all add: a_def r_def)
  have m: "0 \<le> a mod r" "a mod r < r" using h(2) by simp_all
  have q: "int64_div n rate = word_of_int (a div r)" "int64_mod n rate = word_of_int (a mod r)"
    unfolding int64_div_def int64_mod_def a_def [symmetric] r_def [symmetric] by (simp_all only: sdiv_nonneg [OF h(1,2)])
  have p: "0 \<le> (a mod r) * 10 ^ 9" "(a mod r) * 10 ^ 9 < 2 ^ 63"
  proof -
    have "(a mod r) * 10 ^ 9 \<le> 9223372035 * 10 ^ 9" using m(2) h(3) by (intro mult_right_mono) simp_all
    then show "(a mod r) * 10 ^ 9 < 2 ^ 63" by simp
  qed (use m in simp)
  have "sint (int64_mod n rate * Second) = (a mod r) * 10 ^ 9"
  proof -
    have "int64_mod n rate * Second = word_of_int ((a mod r) * 10 ^ 9)" by (simp add: q Second_def)
    then show ?thesis using p by (simp only: sint64)
  qed
  then have t: "int64_div (int64_mod n rate * Second) rate = word_of_int ((a mod r) * 10 ^ 9 div r)"
    unfolding int64_div_def r_def [symmetric] by (simp only: sdiv_nonneg [OF p(1) h(2)])
  have split: "a * 10 ^ 9 div r = a div r * 10 ^ 9 + (a mod r) * 10 ^ 9 div r"
  proof -
    have "(a div r * r + a mod r) * 10 ^ 9 = (a mod r) * 10 ^ 9 + (a div r * 10 ^ 9) * r"
      by (simp only: distrib_right mult.assoc mult.commute mult.left_commute add.commute)
    then have "a * 10 ^ 9 = (a mod r) * 10 ^ 9 + (a div r * 10 ^ 9) * r" by (simp only: div_mult_mod_eq)
    then show ?thesis using h(2) by simp
  qed
  have "throttleOwed n rate = word_of_int (a * 10 ^ 9 div r)"
    unfolding throttleOwed_def t split by (simp add: q Second_def)
  moreover have "0 \<le> a * 10 ^ 9 div r" using h by (simp add: pos_imp_zdiv_nonneg_iff)
  ultimately show ?thesis using assms(4) sint64 [of "a * 10 ^ 9 div r"] by (simp add: a_def r_def)
qed

theorem throttle_exact_witness: "sint (throttleOwed 34359738369 4294967296) = 8000000000"
  using throttle_exact [of 34359738369 4294967296] by simp

text \<open>Above that rate the remainder's product wraps, and the time owed can be negative.\<close>

lemma throttle_wraps: "sint (throttleOwed 9299999999 9300000000) < 0"
  by (simp add: throttleOwed_def int64_div_def int64_mod_def Second_def signed_divide_int_def signed_modulo_int_def)

end
