(* ===== verification/Amber_CollectorSafety.thy ===== *)
theory Amber_CollectorSafety
  imports Amber_MarkWalk
begin

text \<open>
  The collector among its clients (specs/gc.qnt, architecture/mark-sweep-gc.md): a step relation
  in which object writes, reference writes and deletes and the steps of a cycle interleave.
  A PUT holds the reference lock shared from its walk to its release; the snapshot of the roots
  and the sweep need it exclusively. The mark walk is interleaved one popped key at a time.
  The invariant is that the tree of every reference is whole.
\<close>

section \<open>States and steps\<close>

text \<open>A cycle between two steps: not running; roots taken; the mark set, the stack and the
  roots to walk; the walk ended.\<close>

datatype phase =
    Quiet
  | Snapped "key list"
  | Marking MarkSet "key list" "key list"
  | Marked MarkSet

text \<open>\<open>gs_held\<close>: the roots of the PUTs that hold the reference lock.\<close>

record 'db gc_state =
  gs_store :: store
  gs_db :: 'db
  gs_held :: "key list"
  gs_phase :: phase

text \<open>The parts the steps depend on: the filter, hash, compression and codecs, the database,
  and the object that each key names (equal keys, equal objects: keys are hashes).\<close>

record 'db gc_world =
  gw_X :: xorfilter
  gw_H :: "bytes \<Rightarrow> bytes"
  gw_Z :: zstd
  gw_C :: cbor
  gw_RC :: ref_cbor
  gw_P :: "'db pebble"
  gw_content :: "key \<Rightarrow> bytes"

text \<open>Segment ids are 64-bit counters; the steps that use them are considered while they do not
  wrap.\<close>

definition ids_left :: "xorfilter \<Rightarrow> store \<Rightarrow> bool" where
  "ids_left X s \<longleftrightarrow> (\<forall>L. holds X s L \<longrightarrow> unat (st_nextID s) + length L + 1 < 2 ^ 64)"

text \<open>A \<open>Put\<close>, \<open>WriteBatch\<close> or \<open>WriteParallel\<close> is made of \<open>observe\<close>, reads and \<open>append\<close>; here any
  client may do each of them at any time.\<close>

inductive gc_step :: "'db gc_world \<Rightarrow> 'db gc_state \<Rightarrow> 'db gc_state \<Rightarrow> bool" for w :: "'db gc_world" where
  observing: "gc_step w g (g\<lparr>gs_store := observe k (gs_store g)\<rparr>)"
| appending: "canonical k \<Longrightarrow> EncodeRecord (gw_Z w) k (gw_content w k) = Inr rec \<Longrightarrow> ids_left (gw_X w) (gs_store g) \<Longrightarrow>
    appendLocked (gw_X w) k rec b (gs_store g) = (e, s') \<Longrightarrow> gc_step w g (g\<lparr>gs_store := s'\<rparr>)"
| preparing: "canonical rk \<Longrightarrow> PrepareRef (gw_X w) (gw_Z w) (gw_C w) fuel rk (gs_store g) = Some (Inr s') \<Longrightarrow>
    gc_step w g (g\<lparr>gs_store := s', gs_held := rk # gs_held g\<rparr>)"
| publishing: "Ref_Decode (gw_RC w) data = Inr r \<Longrightarrow> Ref_Key r \<in> set (gs_held g) \<Longrightarrow>
    Refs_Put (gw_P w) name data (gs_db g) = (e, db') \<Longrightarrow> gc_step w g (g\<lparr>gs_db := db'\<rparr>)"
| releasing: "gc_step w g (g\<lparr>gs_held := remove1 rk (gs_held g)\<rparr>)"
| deleting: "Refs_Delete (gw_P w) name (gs_db g) = (e, db') \<Longrightarrow> gc_step w g (g\<lparr>gs_db := db'\<rparr>)"
| wiping: "Refs_Wipe (gw_P w) (gs_db g) = (e, db') \<Longrightarrow> gc_step w g (g\<lparr>gs_db := db'\<rparr>)"
| snapshot: "gs_phase g = Quiet \<Longrightarrow> gs_held g = [] \<Longrightarrow> gc_roots (gw_RC w) (gw_P w) (gs_db g) = Inr roots \<Longrightarrow>
    gc_step w g (g\<lparr>gs_store := BeginBarrier (gs_store g), gs_phase := Snapped roots\<rparr>)"
| no_roots: "gs_phase g = Quiet \<Longrightarrow> gs_held g = [] \<Longrightarrow> gc_roots (gw_RC w) (gw_P w) (gs_db g) = Inl e \<Longrightarrow>
    gc_step w g (g\<lparr>gs_store := AbortBarrier (BeginBarrier (gs_store g))\<rparr>)"
| start_mark: "gs_phase g = Snapped roots \<Longrightarrow> gc_step w g (g\<lparr>gs_phase := Marking (NewMarkSet (gs_store g)) [] roots\<rparr>)"
| next_root: "gs_phase g = Marking m [] (rk # roots) \<Longrightarrow> gc_step w g (g\<lparr>gs_phase := Marking m [rk] roots\<rparr>)"
| visit: "gs_phase g = Marking m (k # stack) roots \<Longrightarrow>
    mark_visit (gw_X w) (gw_Z w) (gw_C w) (gs_store g) m k = Inr (m', cs) \<Longrightarrow>
    gc_step w g (g\<lparr>gs_phase := Marking m' (rev cs @ stack) roots\<rparr>)"
| end_mark: "gs_phase g = Marking m [] [] \<Longrightarrow> gc_step w g (g\<lparr>gs_phase := Marked m\<rparr>)"
| give_up: "gs_phase g \<noteq> Quiet \<Longrightarrow> gc_step w g (g\<lparr>gs_store := AbortBarrier (gs_store g), gs_phase := Quiet\<rparr>)"
| sweep: "gs_phase g = Marked m \<Longrightarrow> gs_held g = [] \<Longrightarrow> ids_left (gw_X w) (gs_store g) \<Longrightarrow> 0 < procs \<Longrightarrow>
    Compact (gw_X w) (gw_H w) (gw_Z w) procs sched opts (ms_Contains (gw_X w) m) (gs_store g) = (e, s', st) \<Longrightarrow>
    gc_step w g (g\<lparr>gs_store := s', gs_phase := Quiet\<rparr>)"

inductive_cases gc_stepE: "gc_step w g g'"

definition gc_reach :: "'db gc_world \<Rightarrow> 'db gc_state \<Rightarrow> 'db gc_state \<Rightarrow> bool" where
  "gc_reach w = (gc_step w)\<^sup>*\<^sup>*"

section \<open>The invariant\<close>

definition gw_look :: "'db gc_world \<Rightarrow> store \<Rightarrow> key \<Rightarrow> ps_err fs_err + key list" where
  "gw_look w s = look (gw_X w) (gw_Z w) (gw_C w) s"

text \<open>The roots that a reference names, whatever its name.\<close>

definition ref_roots :: "'db gc_world \<Rightarrow> ('db \<Rightarrow> bytes \<rightharpoonup> bytes) \<Rightarrow> 'db \<Rightarrow> key set" where
  "ref_roots w m db = {rk. \<exists>name data r. m db name = Some data \<and> Ref_Decode (gw_RC w) data = Inr r \<and> rk = Ref_Key r}"

definition store_ok :: "'db gc_world \<Rightarrow> store \<Rightarrow> bytes list \<Rightarrow> bool" where
  "store_ok w s L \<longleftrightarrow>
     holds (gw_X w) s L \<and> \<not> st_closed s \<and> ids_ok s \<and> names_ok s \<and>
     (\<forall>r \<in> set L. decode_record (gw_Z w) r = Inr (gw_content w (rec_key r)))"

text \<open>The keys the running cycle will keep: those it has marked and those reachable from what
  it has still to walk.\<close>

definition to_keep :: "'db gc_world \<Rightarrow> store \<Rightarrow> MarkSet \<Rightarrow> key list \<Rightarrow> key set" where
  "to_keep w s m todo = ms_keys (gw_X w) m \<union> (\<Union>c \<in> set todo. reach (gw_look w s) c)"

definition grey_of :: "store \<Rightarrow> key set" where
  "grey_of s = (case st_grey s of None \<Rightarrow> {} | Some g \<Rightarrow> set g)"

text \<open>A mark set with a stack: it belongs to a snapshot \<open>s0\<close> that the store still shows.\<close>

definition mark_ok :: "'db gc_world \<Rightarrow> store \<Rightarrow> MarkSet \<Rightarrow> key list \<Rightarrow> key list \<Rightarrow> bool" where
  "mark_ok w s m stack roots \<longleftrightarrow>
     (\<exists>s0 L0. holds (gw_X w) s0 L0 \<and> \<not> st_closed s0 \<and> ms_inv s0 m \<and> shows_more (gw_look w s0) (gw_look w s) \<and>
        (\<forall>c \<in> set (stack @ roots). canonical c \<and> whole_tree (gw_look w s0) c) \<and>
        dfs_closed (gw_look w s) (ms_keys (gw_X w) m) stack)"

definition covered :: "'db gc_world \<Rightarrow> ('db \<Rightarrow> bytes \<rightharpoonup> bytes) \<Rightarrow> 'db gc_state \<Rightarrow> key set \<Rightarrow> bool" where
  "covered w md g K \<longleftrightarrow>
     st_capturing (gs_store g) \<and> st_grey (gs_store g) \<noteq> None \<and>
     (\<forall>rk \<in> ref_roots w md (gs_db g) \<union> set (gs_held g). reach (gw_look w (gs_store g)) rk \<subseteq> grey_of (gs_store g) \<union> K)"

definition phase_ok :: "'db gc_world \<Rightarrow> ('db \<Rightarrow> bytes \<rightharpoonup> bytes) \<Rightarrow> 'db gc_state \<Rightarrow> bool" where
  "phase_ok w md g \<longleftrightarrow>
     (case gs_phase g of
        Quiet \<Rightarrow> True
      | Snapped roots \<Rightarrow>
          (\<forall>c \<in> set roots. canonical c \<and> whole_tree (gw_look w (gs_store g)) c) \<and>
          covered w md g (\<Union>c \<in> set roots. reach (gw_look w (gs_store g)) c)
      | Marking m stack roots \<Rightarrow>
          mark_ok w (gs_store g) m stack roots \<and> covered w md g (to_keep w (gs_store g) m (stack @ roots))
      | Marked m \<Rightarrow> covered w md g (ms_keys (gw_X w) m))"

definition gc_inv :: "'db gc_world \<Rightarrow> ('db \<Rightarrow> bytes \<rightharpoonup> bytes) \<Rightarrow> 'db gc_state \<Rightarrow> bool" where
  "gc_inv w md g \<longleftrightarrow>
     (\<exists>L. store_ok w (gs_store g) L) \<and>
     (\<forall>rk \<in> ref_roots w md (gs_db g) \<union> set (gs_held g). canonical rk \<and> whole_tree (gw_look w (gs_store g)) rk) \<and>
     phase_ok w md g"

section \<open>Reads of a store whose records are the keys' objects\<close>

lemma store_ok_reads:
  assumes "store_ok w s L" and "is_key k"
  shows "Has (gw_X w) s k = Inr (k \<in> rec_key ` set L)"
    and "Get (gw_X w) (gw_Z w) s k = (if k \<in> rec_key ` set L then Inr (gw_content w k) else Inl ObjNotFound)"
proof -
  have h: "holds (gw_X w) s L" "\<not> st_closed s" using assms(1) by (simp_all add: store_ok_def)
  note r = holds_reads(1,3) [OF h assms(2)]
  show "Has (gw_X w) s k = Inr (k \<in> rec_key ` set L)" using r(1) by (simp add: dom_log_map)
  show "Get (gw_X w) (gw_Z w) s k = (if k \<in> rec_key ` set L then Inr (gw_content w k) else Inl ObjNotFound)"
  proof (cases "log_map L k")
    case None
    then have "k \<notin> rec_key ` set L" using dom_log_map [of L] by (auto simp: domIff)
    then show ?thesis using r(2) None by simp
  next
    case (Some a)
    then have "a \<in> set L" "rec_key a = k" using log_map_Some by auto
    then show ?thesis using r(2) Some assms(1) by (auto simp: store_ok_def pack_result_def)
  qed
qed

lemma more_records_show_more:
  assumes s: "store_ok w s L" and s': "store_ok w s' L'" and sub: "rec_key ` set L \<subseteq> rec_key ` set L'"
  shows "shows_more (gw_look w s) (gw_look w s')"
  unfolding shows_more_def
proof (intro allI impI)
  fix k cs assume a: "is_key k \<and> gw_look w s k = Inr cs"
  then have k: "is_key k" by simp
  note r = store_ok_reads [OF s k] and r' = store_ok_reads [OF s' k]
  have "k \<in> rec_key ` set L"
    using a r by (cases "is_leaf_key k") (auto simp: gw_look_def look_leaf look_inner split: if_splits)
  then have "k \<in> rec_key ` set L'" using sub by blast
  then show "gw_look w s' k = Inr cs"
    using a r r' \<open>k \<in> rec_key ` set L\<close> by (cases "is_leaf_key k") (auto simp: gw_look_def look_leaf look_inner)
qed

lemma append_store_ok:
  assumes X: "fuse_ok (gw_X w)" and Z: "zstd_ok (gw_Z w)" and s: "store_ok w s L" and k: "canonical k"
    and rec: "EncodeRecord (gw_Z w) k (gw_content w k) = Inr rec" and ids: "ids_left (gw_X w) s"
    and q: "appendLocked (gw_X w) k rec b s = (e, s')"
  shows "same_frame s s' \<and> (\<exists>L'. store_ok w s' L' \<and> rec_key ` set L \<subseteq> rec_key ` set L')"
proof -
  have h: "holds (gw_X w) s L" "\<not> st_closed s" "ids_ok s" "names_ok s" using s by (simp_all add: store_ok_def)
  note e = encode_whole [OF k rec]
  have q': "appendLocked (gw_X w) (rec_key rec) rec b s = (e, s')" using q e(2) by simp
  obtain new where n: "same_frame s s'" "holds (gw_X w) s' (L @ new)" "new = [] \<or> new = [rec]"
    using append_log [OF X h(1) e(1) q'] by blast
  obtain RS RA where c: "cut_into (st_failed s = None) (gw_X w) s RS RA"
    using h(1) unfolding holds_def holds_with_def by blast
  have "unat (st_nextID s) + 1 < 2 ^ 64" using ids h(1) by (force simp: ids_left_def)
  then have "ids_ok s'" using conjunct2 [OF appendLocked_effect [OF X c e(1) q']] h(3) by blast
  moreover have "names_ok s'" by (rule append_names [OF h(4) q])
  moreover have "\<not> st_closed s'" using n(1) h(2) by (simp add: same_frame_def)
  moreover have "decode_record (gw_Z w) rec = Inr (gw_content w (rec_key rec))" using encode_decodes [OF Z k rec] e(2) by simp
  ultimately have "store_ok w s' (L @ new)" using s n(2,3) by (auto simp: store_ok_def)
  then show ?thesis using n(1) by (intro conjI exI [of _ "L @ new"]) auto
qed

section \<open>Steps of the store\<close>

lemma gw_look_children: "children_ok (gw_look w s)"
  by (simp add: gw_look_def look_children)

lemma more_trees:
  assumes "shows_more (gw_look w s) (gw_look w s')" and "canonical c" and "whole_tree (gw_look w s) c"
  shows "reach (gw_look w s') c = reach (gw_look w s) c" and "whole_tree (gw_look w s') c"
  using shows_more_tree [OF assms(1) gw_look_children assms(2,3)] by blast+

lemma mark_ok_whole:
  assumes "mark_ok w s m stack roots" and "c \<in> set (stack @ roots)"
  shows "canonical c" and "whole_tree (gw_look w s) c"
  using assms more_trees(2) unfolding mark_ok_def by blast+

text \<open>A step that keeps what the store shows and captures at least the same keys.\<close>

lemma phase_ok_store:
  assumes p: "phase_ok w md g" and more: "shows_more (gw_look w (gs_store g)) (gw_look w s')"
    and trees: "\<forall>rk \<in> ref_roots w md (gs_db g) \<union> set (gs_held g). canonical rk \<and> whole_tree (gw_look w (gs_store g)) rk"
    and grey: "st_capturing s' = st_capturing (gs_store g)" "(st_grey s' = None) = (st_grey (gs_store g) = None)"
      "grey_of (gs_store g) \<subseteq> grey_of s'"
  shows "phase_ok w md (g\<lparr>gs_store := s'\<rparr>)"
proof -
  let ?s = "gs_store g" and ?g = "g\<lparr>gs_store := s'\<rparr>"
  note same = more_trees [OF more]
  have cov: "covered w md ?g K'" if "covered w md g K" "K \<subseteq> K'" for K K'
    using that grey trees same(1) unfolding covered_def by (simp) blast
  have reach: "(\<Union>c \<in> S. reach (gw_look w s') c) = (\<Union>c \<in> S. reach (gw_look w ?s) c)"
    if "\<forall>c \<in> S. canonical c \<and> whole_tree (gw_look w ?s) c" for S
    using that same(1) by auto
  show ?thesis
  proof (cases "gs_phase g")
    case (Snapped roots)
    then have r: "\<forall>c \<in> set roots. canonical c \<and> whole_tree (gw_look w ?s) c"
      "covered w md g (\<Union>c \<in> set roots. reach (gw_look w ?s) c)" using p by (simp_all add: phase_ok_def)
    then show ?thesis using cov [OF r(2)] reach [OF r(1)] same(2) Snapped by (simp add: phase_ok_def)
  next
    case (Marking m stack roots)
    then have r: "mark_ok w ?s m stack roots" "covered w md g (to_keep w ?s m (stack @ roots))" using p by (simp_all add: phase_ok_def)
    obtain s0 L0 where s0: "holds (gw_X w) s0 L0" "\<not> st_closed s0" "ms_inv s0 m" "shows_more (gw_look w s0) (gw_look w ?s)"
      "\<forall>c \<in> set (stack @ roots). canonical c \<and> whole_tree (gw_look w s0) c" "dfs_closed (gw_look w ?s) (ms_keys (gw_X w) m) stack"
      using r(1) unfolding mark_ok_def by blast
    have "dfs_closed (gw_look w s') (ms_keys (gw_X w) m) stack"
      using s0(6) more by (fastforce simp: dfs_closed_def shows_more_def ms_keys_def)
    then have "mark_ok w s' m stack roots" using s0 shows_more_trans [OF s0(4) more] unfolding mark_ok_def by blast
    moreover have "to_keep w s' m (stack @ roots) = to_keep w ?s m (stack @ roots)"
      using reach [of "set (stack @ roots)"] mark_ok_whole [OF r(1)] unfolding to_keep_def by blast
    ultimately show ?thesis using cov [OF r(2)] Marking by (simp add: phase_ok_def)
  next
    case (Marked m)
    then show ?thesis using p cov by (simp add: phase_ok_def)
  qed (simp add: phase_ok_def)
qed

lemma gc_inv_store:
  assumes i: "gc_inv w md g" and s': "store_ok w s' L'" and more: "shows_more (gw_look w (gs_store g)) (gw_look w s')"
    and grey: "st_capturing s' = st_capturing (gs_store g)" "(st_grey s' = None) = (st_grey (gs_store g) = None)"
      "grey_of (gs_store g) \<subseteq> grey_of s'"
  shows "gc_inv w md (g\<lparr>gs_store := s'\<rparr>)"
proof -
  have t: "\<forall>rk \<in> ref_roots w md (gs_db g) \<union> set (gs_held g). canonical rk \<and> whole_tree (gw_look w (gs_store g)) rk" "phase_ok w md g"
    using i by (simp_all add: gc_inv_def)
  have "phase_ok w md (g\<lparr>gs_store := s'\<rparr>)" by (rule phase_ok_store [OF t(2) more t(1) grey])
  then show ?thesis using s' t(1) more_trees(2) [OF more] unfolding gc_inv_def by auto
qed

section \<open>Steps of references\<close>

lemma gc_inv_db:
  assumes i: "gc_inv w md g" and sub: "ref_roots w md db' \<subseteq> ref_roots w md (gs_db g) \<union> set (gs_held g)"
  shows "gc_inv w md (g\<lparr>gs_db := db'\<rparr>)"
proof -
  have cov: "covered w md (g\<lparr>gs_db := db'\<rparr>) K" if "covered w md g K" for K
    using that sub unfolding covered_def by (simp) blast
  have "phase_ok w md (g\<lparr>gs_db := db'\<rparr>)"
    using i cov by (auto simp: gc_inv_def phase_ok_def split: phase.splits)
  then show ?thesis using i sub unfolding gc_inv_def by auto
qed

lemma gc_inv_held:
  assumes i: "gc_inv w md g" and rk: "canonical rk" "whole_tree (gw_look w (gs_store g)) rk"
    and cov: "gs_phase g \<noteq> Quiet \<Longrightarrow> reach (gw_look w (gs_store g)) rk \<subseteq> grey_of (gs_store g)"
  shows "gc_inv w md (g\<lparr>gs_held := rk # gs_held g\<rparr>)"
proof -
  have c: "covered w md (g\<lparr>gs_held := rk # gs_held g\<rparr>) K" if "covered w md g K" "gs_phase g \<noteq> Quiet" for K
    using that cov unfolding covered_def by (simp) blast
  have "phase_ok w md (g\<lparr>gs_held := rk # gs_held g\<rparr>)"
    using i c by (cases "gs_phase g") (auto simp: gc_inv_def phase_ok_def)
  then show ?thesis using i rk unfolding gc_inv_def by auto
qed

lemma gc_inv_release: "gc_inv w md g \<Longrightarrow> gc_inv w md (g\<lparr>gs_held := remove1 rk (gs_held g)\<rparr>)"
proof -
  assume i: "gc_inv w md g"
  have c: "covered w md (g\<lparr>gs_held := remove1 rk (gs_held g)\<rparr>) K" if "covered w md g K" for K
    using that set_remove1_subset [of rk "gs_held g"] unfolding covered_def by (simp) blast
  have "phase_ok w md (g\<lparr>gs_held := remove1 rk (gs_held g)\<rparr>)"
    using i c by (auto simp: gc_inv_def phase_ok_def split: phase.splits)
  then show ?thesis using i set_remove1_subset [of rk "gs_held g"] unfolding gc_inv_def by auto
qed

lemma bfs_loop_partial:
  assumes "bfs_inv e rk seen out frontier" and "bfs_loop e fuel seen out frontier = Some (Inr ks)"
  shows "set ks = reach e rk \<and> whole_tree e rk"
  using assms
proof (induction fuel arbitrary: seen out frontier)
  case 0
  then have f: "frontier = []" "ks = out" by (auto split: if_splits)
  then have "reach e rk \<subseteq> set out"
    using 0 hd_in_set [of out] by (intro reach_closed) (fastforce simp: bfs_inv_def)+
  then show ?case using 0 f by (auto simp: bfs_inv_def whole_tree_def)
next
  case (Suc fuel)
  show ?case
  proof (cases "frontier = []")
    case True
    then have f: "ks = out" using Suc.prems by simp
    have "reach e rk \<subseteq> set out"
      using True Suc.prems(1) hd_in_set [of out] by (intro reach_closed) (fastforce simp: bfs_inv_def)+
    then show ?thesis using Suc.prems f True by (auto simp: bfs_inv_def whole_tree_def)
  next
    case False
    then obtain cls where cls: "map_err e frontier = Inr cls" using Suc.prems(2) by (auto split: sum.splits)
    obtain seen' out' nxt where v: "visit_new seen out [] (concat cls) = (seen', out', nxt)" by (metis prod_cases3)
    show ?thesis
      by (rule Suc.IH [OF bfs_inv_step(1) [OF Suc.prems(1) cls v]]) (use Suc.prems(2) False cls v in simp)
  qed
qed

lemma PrepareRef_ok:
  assumes "PrepareRef X Z C fuel rk s = Some (Inr s')"
  shows "\<exists>ks. set ks = reach (look X Z C s) rk \<and> whole_tree (look X Z C s) rk \<and> s' = ObserveKeys ks s"
proof -
  obtain ks where "CheckComplete C (Get X Z s) (Has X s) fuel rk = Some (Inr ks)" "s' = ObserveKeys ks s"
    using assms by (auto simp: PrepareRef_def split: option.splits sum.splits)
  then show ?thesis
    using bfs_loop_partial [OF bfs_inv_init, of "look X Z C s" fuel rk ks] by (auto simp: CheckComplete_def look_def)
qed

lemma set_fold_insert [simp]: "set (fold List.insert ks xs) = set ks \<union> set xs"
  by (induction ks arbitrary: xs) auto

lemma ObserveKeys_grey:
  "st_capturing (ObserveKeys ks s) = st_capturing s" "(st_grey (ObserveKeys ks s) = None) = (st_grey s = None)"
  "grey_of s \<subseteq> grey_of (ObserveKeys ks s)" "st_capturing s \<Longrightarrow> st_grey s \<noteq> None \<Longrightarrow> set ks \<subseteq> grey_of (ObserveKeys ks s)"
  by (auto simp: ObserveKeys_def grey_of_def split: option.splits)

lemma observe_grey:
  "st_capturing (observe k s) = st_capturing s" "(st_grey (observe k s) = None) = (st_grey s = None)" "grey_of s \<subseteq> grey_of (observe k s)"
  by (auto simp: observe_def grey_of_def split: option.splits)

text \<open>What only changes the grey set.\<close>

lemma same_contents_ok:
  assumes "same_contents s s'"
  shows "store_ok w s' L = store_ok w s L" and "gw_look w s' = gw_look w s"
  using same_contents_reads [OF assms] by (simp_all add: store_ok_def gw_look_def)

lemma gc_inv_grey:
  assumes i: "gc_inv w md g" and same: "same_contents (gs_store g) s'"
    and grey: "st_capturing s' = st_capturing (gs_store g)" "(st_grey s' = None) = (st_grey (gs_store g) = None)"
      "grey_of (gs_store g) \<subseteq> grey_of s'"
  shows "gc_inv w md (g\<lparr>gs_store := s'\<rparr>)"
proof -
  obtain L where "store_ok w (gs_store g) L" using i by (auto simp: gc_inv_def)
  then have "store_ok w s' L" using same_contents_ok(1) [OF same] by blast
  then show ?thesis by (rule gc_inv_store [OF i _ _ grey]) (simp add: same_contents_ok(2) [OF same])
qed

lemma roots_are_refs:
  assumes P: "pebble_ok (gw_P w) md" and r: "gc_roots (gw_RC w) (gw_P w) db = Inr roots"
  shows "set roots = ref_roots w md db"
proof -
  obtain recs where recs: "Refs_All (gw_P w) db = Inr recs" "map_err (\<lambda>(name, data). record_root (gw_RC w) name data) recs = Inr roots"
    using r by (auto simp: gc_roots_def split: sum.splits)
  have m: "sorted_wrt (<) (map fst recs)" "map_of recs = md db"
    using refs_refine [OF P, where db = db] recs(1) by auto
  have d: "distinct (map fst recs)" using m(1) by (simp add: strict_sorted_iff)
  have l: "list_all2 (\<lambda>nd rk. record_root (gw_RC w) (fst nd) (snd nd) = Inr rk) recs roots"
    using recs(2) by (simp add: map_err_ok case_prod_beta)
  have bad: "Parse x = Inl y \<Longrightarrow> \<not> canonical x" for x y using Parse_ok [of x x] by auto
  have root: "record_root (gw_RC w) n data = Inr rk \<longleftrightarrow> (\<exists>r. Ref_Decode (gw_RC w) data = Inr r \<and> rk = Ref_Key r \<and> canonical (Ref_Key r))" for n data rk
    by (auto simp: record_root_def Parse_ok dest: bad split: sum.splits)
  show ?thesis
  proof
    show "set roots \<subseteq> ref_roots w md db"
    proof
      fix rk assume "rk \<in> set roots"
      then obtain nd where nd: "nd \<in> set recs" "record_root (gw_RC w) (fst nd) (snd nd) = Inr rk" using list_all2_set2 [OF l] by blast
      have "md db (fst nd) = Some (snd nd)" using m(2) d nd(1) map_of_eq_Some_iff by fastforce
      then show "rk \<in> ref_roots w md db" using nd(2) root unfolding ref_roots_def by blast
    qed
    show "ref_roots w md db \<subseteq> set roots"
    proof
      fix rk assume "rk \<in> ref_roots w md db"
      then obtain name data r where a: "md db name = Some data" "Ref_Decode (gw_RC w) data = Inr r" "rk = Ref_Key r"
        by (auto simp: ref_roots_def)
      then have "(name, data) \<in> set recs" using m(2) map_of_SomeD by metis
      from list_all2_set1 [OF l this] obtain rk' where "rk' \<in> set roots" "record_root (gw_RC w) name data = Inr rk'" by auto
      then show "rk \<in> set roots" using root a by auto
    qed
  qed
qed

lemma refs_shrink:
  assumes P: "pebble_ok (gw_P w) md"
  shows "Refs_Delete (gw_P w) name db = (e, db') \<Longrightarrow> ref_roots w md db' \<subseteq> ref_roots w md db"
    and "Refs_Wipe (gw_P w) db = (e, db') \<Longrightarrow> ref_roots w md db' \<subseteq> ref_roots w md db"
    and "Refs_Put (gw_P w) name data db = (e, db') \<Longrightarrow> Ref_Decode (gw_RC w) data = Inr r \<Longrightarrow>
      ref_roots w md db' \<subseteq> insert (Ref_Key r) (ref_roots w md db)"
proof -
  note rr = refs_refine [OF P, where db = db and n = name and v = data]
  have mono: "ref_roots w md db' \<subseteq> ref_roots w md db" if "\<And>n d. md db' n = Some d \<Longrightarrow> md db n = Some d" for db'
    using that unfolding ref_roots_def by blast
  show "ref_roots w md db' \<subseteq> ref_roots w md db" if "Refs_Delete (gw_P w) name db = (e, db')"
    by (rule mono) (use rr that in \<open>auto split: if_splits\<close>)
  show "ref_roots w md db' \<subseteq> ref_roots w md db" if "Refs_Wipe (gw_P w) db = (e, db')"
    by (rule mono) (use rr that in auto)
  show "ref_roots w md db' \<subseteq> insert (Ref_Key r) (ref_roots w md db)"
    if "Refs_Put (gw_P w) name data db = (e, db')" "Ref_Decode (gw_RC w) data = Inr r"
  proof -
    have "md db' = (md db)(name \<mapsto> data) \<or> md db' = md db" using rr that(1) by auto
    then have new: "md db' n = Some d \<Longrightarrow> n = name \<and> d = data \<or> md db n = Some d" for n d by (auto split: if_splits)
    show ?thesis
    proof
      fix rk assume "rk \<in> ref_roots w md db'"
      then obtain n d q where a: "md db' n = Some d" "Ref_Decode (gw_RC w) d = Inr q" "rk = Ref_Key q" by (auto simp: ref_roots_def)
      show "rk \<in> insert (Ref_Key r) (ref_roots w md db)"
      proof (cases "md db n = Some d")
        case True
        then show ?thesis using a unfolding ref_roots_def by blast
      next
        case False
        then show ?thesis using new [OF a(1)] a that(2) by simp
      qed
    qed
  qed
qed

section \<open>Steps of a cycle\<close>

lemma snapshot_inv:
  assumes P: "pebble_ok (gw_P w) md" and i: "gc_inv w md g" and held: "gs_held g = []"
    and r: "gc_roots (gw_RC w) (gw_P w) (gs_db g) = Inr roots"
  shows "gc_inv w md (g\<lparr>gs_store := BeginBarrier (gs_store g), gs_phase := Snapped roots\<rparr>)"
proof -
  let ?b = "BeginBarrier (gs_store g)"
  note same = same_contents_ok [OF same_contents_intros(1) [of "gs_store g"]]
  note refs = roots_are_refs [OF P r]
  have t: "\<forall>rk \<in> ref_roots w md (gs_db g). canonical rk \<and> whole_tree (gw_look w ?b) rk"
    using i by (simp add: gc_inv_def same(2))
  then have "phase_ok w md (g\<lparr>gs_store := ?b, gs_phase := Snapped roots\<rparr>)"
    using held refs by (auto simp: phase_ok_def covered_def)
  then show ?thesis using i same held t unfolding gc_inv_def by auto
qed

lemma start_mark_inv:
  assumes i: "gc_inv w md g" and ph: "gs_phase g = Snapped roots"
  shows "gc_inv w md (g\<lparr>gs_phase := Marking (NewMarkSet (gs_store g)) [] roots\<rparr>)"
proof -
  let ?s = "gs_store g"
  obtain L where s: "store_ok w ?s L" using i by (auto simp: gc_inv_def)
  then have h: "holds (gw_X w) ?s L" "\<not> st_closed ?s" by (simp_all add: store_ok_def)
  have p: "\<forall>c \<in> set roots. canonical c \<and> whole_tree (gw_look w ?s) c" "covered w md g (\<Union>c \<in> set roots. reach (gw_look w ?s) c)"
    using i ph by (simp_all add: gc_inv_def phase_ok_def)
  note new = NewMarkSet_keys [OF h]
  have "mark_ok w ?s (NewMarkSet ?s) [] roots"
    unfolding mark_ok_def using h p(1) NewMarkSet_inv new
    by (intro exI [of _ ?s] exI [of _ L]) (simp add: dfs_closed_def)
  moreover have "to_keep w ?s (NewMarkSet ?s) roots = (\<Union>c \<in> set roots. reach (gw_look w ?s) c)" using new by (simp add: to_keep_def)
  ultimately have "phase_ok w md (g\<lparr>gs_phase := Marking (NewMarkSet ?s) [] roots\<rparr>)"
    using p(2) by (simp add: phase_ok_def covered_def)
  then show ?thesis using i by (simp add: gc_inv_def)
qed

lemma to_keep_append:
  "to_keep w s m (as @ bs) = (ms_keys (gw_X w) m \<union> (\<Union>c \<in> set as. reach (gw_look w s) c)) \<union> (\<Union>c \<in> set bs. reach (gw_look w s) c)"
  by (auto simp: to_keep_def)

text \<open>One popped key. It is whole in the snapshot, so it is in the mark set and can be read.\<close>

lemma visit_shown:
  assumes i: "gc_inv w md g" and ph: "gs_phase g = Marking m (k # stack) roots"
  obtains s0 L0 ds m1 where "holds (gw_X w) s0 L0" "\<not> st_closed s0" "shows_more (gw_look w s0) (gw_look w (gs_store g))"
    "\<forall>c \<in> set ((k # stack) @ roots). canonical c \<and> whole_tree (gw_look w s0) c"
    "dfs_closed (gw_look w (gs_store g)) (ms_keys (gw_X w) m) (k # stack)" "gw_look w s0 k = Inr ds" "gw_look w (gs_store g) k = Inr ds"
    "mark_visit (gw_X w) (gw_Z w) (gw_C w) (gs_store g) m k = Inr (m1, if k \<in> ms_keys (gw_X w) m then [] else ds)"
    "ms_inv s0 m1" "ms_keys (gw_X w) m1 = insert k (ms_keys (gw_X w) m)"
proof -
  let ?s = "gs_store g" and ?X = "gw_X w"
  have p: "mark_ok w ?s m (k # stack) roots" using i ph by (simp add: gc_inv_def phase_ok_def)
  obtain s0 L0 where s0: "holds ?X s0 L0" "\<not> st_closed s0" "ms_inv s0 m" "shows_more (gw_look w s0) (gw_look w ?s)"
    "\<forall>c \<in> set ((k # stack) @ roots). canonical c \<and> whole_tree (gw_look w s0) c"
    "dfs_closed (gw_look w ?s) (ms_keys ?X m) (k # stack)"
    using p unfolding mark_ok_def by blast
  have k: "canonical k" "whole_tree (gw_look w s0) k" using s0(5) by simp_all
  have ik: "is_key k" by (rule canonical_key [OF k(1)])
  obtain ds where ds: "gw_look w s0 k = Inr ds" using k(2) reach_root by (force simp: whole_tree_def)
  have e: "gw_look w ?s k = Inr ds" using s0(4) ds ik by (simp add: shows_more_def)
  have has: "Has ?X s0 k = Inr True" by (rule shown_present [OF s0(1,2) ik]) (use ds in \<open>simp add: gw_look_def\<close>)
  obtain m1 where m1: "mark_visit ?X (gw_Z w) (gw_C w) ?s m k = Inr (m1, if k \<in> ms_keys ?X m then [] else ds)"
    "ms_inv s0 m1" "ms_keys ?X m1 = insert k (ms_keys ?X m)"
    using mark_visit_shown [OF s0(1,2,3) ik e [unfolded gw_look_def] has] by blast
  show thesis by (rule that [OF s0(1,2,4,5,6) ds e m1])
qed

lemma visit_inv:
  assumes i: "gc_inv w md g" and ph: "gs_phase g = Marking m (k # stack) roots"
    and v: "mark_visit (gw_X w) (gw_Z w) (gw_C w) (gs_store g) m k = Inr (m', cs)"
  shows "gc_inv w md (g\<lparr>gs_phase := Marking m' (rev cs @ stack) roots\<rparr>)"
proof -
  let ?s = "gs_store g" and ?X = "gw_X w"
  obtain s0 L0 ds m1 where s0: "holds ?X s0 L0" "\<not> st_closed s0" "shows_more (gw_look w s0) (gw_look w ?s)"
    "\<forall>c \<in> set ((k # stack) @ roots). canonical c \<and> whole_tree (gw_look w s0) c"
    "dfs_closed (gw_look w ?s) (ms_keys ?X m) (k # stack)" "gw_look w s0 k = Inr ds" "gw_look w ?s k = Inr ds"
    "mark_visit ?X (gw_Z w) (gw_C w) ?s m k = Inr (m1, if k \<in> ms_keys ?X m then [] else ds)"
    "ms_inv s0 m1" "ms_keys ?X m1 = insert k (ms_keys ?X m)" by (rule visit_shown [OF i ph])
  have k: "canonical k" "whole_tree (gw_look w s0) k" using s0(4) by simp_all
  have cs: "m' = m1" "cs = (if k \<in> ms_keys ?X m then [] else ds)" using v s0(8) by simp_all
  note pop = dfs_pop [OF s0(5,7) cs(2)]
  have below: "canonical c \<and> whole_tree (gw_look w s0) c" if "c \<in> set cs" for c
  proof -
    have "c \<in> set ds" using that cs(2) by (auto split: if_splits)
    then have r: "c \<in> reach (gw_look w s0) k" by (rule reach_step [OF reach_root [of k "gw_look w s0"] s0(6)])
    have "canonical c" by (rule reach_canonical [OF gw_look_children k(1) r])
    moreover have "whole_tree (gw_look w s0) c" using k(2) reach_trans [OF r] by (auto simp: whole_tree_def)
    ultimately show ?thesis by simp
  qed
  have "mark_ok w ?s m' (rev cs @ stack) roots"
    unfolding mark_ok_def
  proof (intro exI [of _ s0] exI [of _ L0] conjI)
    show "dfs_closed (gw_look w ?s) (ms_keys ?X m') (rev cs @ stack)" using pop(1) cs(1) s0(10) by simp
    show "\<forall>c \<in> set ((rev cs @ stack) @ roots). canonical c \<and> whole_tree (gw_look w s0) c" using below s0(4) by auto
  qed (use s0 cs(1) in simp_all)
  moreover have "to_keep w ?s m' ((rev cs @ stack) @ roots) = to_keep w ?s m ((k # stack) @ roots)"
    unfolding to_keep_append cs(1) s0(10) pop(2) ..
  moreover have "covered w md g (to_keep w ?s m ((k # stack) @ roots))" using i ph by (simp add: gc_inv_def phase_ok_def)
  ultimately have "phase_ok w md (g\<lparr>gs_phase := Marking m' (rev cs @ stack) roots\<rparr>)"
    by (simp add: phase_ok_def covered_def)
  then show ?thesis using i by (simp add: gc_inv_def)
qed

lemma sweep_inv:
  assumes X: "fuse_ok (gw_X w)" and i: "gc_inv w md g" and ph: "gs_phase g = Marked m" and held: "gs_held g = []"
    and n: "ids_left (gw_X w) (gs_store g)" and procs: "0 < procs"
    and q: "Compact (gw_X w) (gw_H w) (gw_Z w) procs sched opts (ms_Contains (gw_X w) m) (gs_store g) = (e, s', st)"
  shows "gc_inv w md (g\<lparr>gs_store := s', gs_phase := Quiet\<rparr>)"
proof -
  let ?s = "gs_store g" and ?X = "gw_X w"
  obtain L where s: "store_ok w ?s L" using i by (auto simp: gc_inv_def)
  then have h: "holds ?X ?s L" "\<not> st_closed ?s" "ids_ok ?s" "names_ok ?s" by (simp_all add: store_ok_def)
  have n': "unat (st_nextID ?s) + length L < 2 ^ 64" using n h(1) by (force simp: ids_left_def)
  have one: "\<forall>r \<in> set L. \<forall>r' \<in> set L. rec_key r = rec_key r' \<longrightarrow> decode_record (gw_Z w) r = decode_record (gw_Z w) r'"
    using s by (simp add: store_ok_def)
  obtain L' where o: "same_frame (snd (takeGrey ?s)) s'" "ids_ok s'" "names_ok s'" "holds ?X s' L'" "set L' \<subseteq> set L"
    by (rule outcomeE [OF Compact_effect [OF X procs h(1,3,4) n' q]]) (rule that; assumption)
  have "\<not> st_closed s'" using o(1) h(2) by (simp add: same_frame_def takeGrey_def)
  then have s': "store_ok w s' L'" using o s by (auto simp: store_ok_def)
  have cov: "\<forall>rk \<in> ref_roots w md (gs_db g). reach (gw_look w ?s) rk \<subseteq> grey_of ?s \<union> ms_keys ?X m"
    using i ph by (simp add: gc_inv_def phase_ok_def covered_def)
  have keep: "Has ?X s' k = Has ?X ?s k \<and> Get ?X (gw_Z w) s' k = Get ?X (gw_Z w) ?s k"
    if "is_key k" "k \<in> grey_of ?s \<union> ms_keys ?X m" for k
  proof -
    have "or_grey (st_grey ?s) (ms_Contains ?X m) k"
      using that by (auto simp: or_grey_def grey_of_def ms_keys_def split: option.splits)
    then show ?thesis using Compact_keeps [OF X procs h n' one q] that(1) by blast
  qed
  have "canonical rk \<and> whole_tree (gw_look w s') rk" if rk: "rk \<in> ref_roots w md (gs_db g)" for rk
  proof -
    have c: "canonical rk" "whole_tree (gw_look w ?s) rk" using i rk by (simp_all add: gc_inv_def)
    have same: "Has ?X s' k = Has ?X ?s k \<and> Get ?X (gw_Z w) s' k = Get ?X (gw_Z w) ?s k" if k: "k \<in> reach (gw_look w ?s) rk" for k
    proof (rule keep)
      show "is_key k" by (rule canonical_key [OF reach_canonical [OF gw_look_children c(1) k]])
      show "k \<in> grey_of ?s \<union> ms_keys ?X m" using cov rk k by blast
    qed
    have "whole_tree (gw_look w s') rk"
      using kept_trees [OF c(2) [unfolded gw_look_def] c(1), of s'] same unfolding gw_look_def by blast
    then show ?thesis using c(1) by blast
  qed
  then show ?thesis using s' held unfolding gc_inv_def phase_ok_def by auto
qed

section \<open>The invariant holds in every reachable state\<close>

lemma gc_step_inv:
  assumes X: "fuse_ok (gw_X w)" and Z: "zstd_ok (gw_Z w)" and P: "pebble_ok (gw_P w) md"
    and i: "gc_inv w md g" and st: "gc_step w g g'"
  shows "gc_inv w md g'"
  using st
proof cases
  case (observing k)
  then show ?thesis using gc_inv_grey [OF i same_contents_intros(4) observe_grey] by simp
next
  case (appending k rec b e s')
  obtain L where s: "store_ok w (gs_store g) L" using i by (auto simp: gc_inv_def)
  obtain L' where s': "same_frame (gs_store g) s'" "store_ok w s' L'" "rec_key ` set L \<subseteq> rec_key ` set L'"
    using append_store_ok [OF X Z s appending(2-5)] by blast
  have g: "st_capturing s' = st_capturing (gs_store g)" "st_grey s' = st_grey (gs_store g)" using s'(1) by (simp_all add: same_frame_def)
  show ?thesis unfolding appending(1)
    by (rule gc_inv_store [OF i s'(2) more_records_show_more [OF s s'(2,3)]]) (simp_all add: g grey_of_def)
next
  case (preparing rk fuel s')
  obtain ks where ks: "set ks = reach (gw_look w (gs_store g)) rk" "whole_tree (gw_look w (gs_store g)) rk" "s' = ObserveKeys ks (gs_store g)"
    using PrepareRef_ok [OF preparing(3)] by (auto simp: gw_look_def)
  note same = same_contents_intros(3) [of "gs_store g" ks]
  have i': "gc_inv w md (g\<lparr>gs_store := s'\<rparr>)" unfolding ks(3) by (rule gc_inv_grey [OF i same ObserveKeys_grey(1-3)])
  have l: "gw_look w s' = gw_look w (gs_store g)" unfolding ks(3) by (rule same_contents_ok(2) [OF same])
  have cap: "st_capturing (gs_store g)" "st_grey (gs_store g) \<noteq> None" if "gs_phase g \<noteq> Quiet"
    using i that by (auto simp: gc_inv_def phase_ok_def covered_def split: phase.splits)
  have "gc_inv w md ((g\<lparr>gs_store := s'\<rparr>)\<lparr>gs_held := rk # gs_held (g\<lparr>gs_store := s'\<rparr>)\<rparr>)"
    by (rule gc_inv_held [OF i' preparing(2)]) (use ks l cap ObserveKeys_grey(4) in auto)
  then show ?thesis by (simp add: preparing(1))
next
  case (publishing data r name e db')
  show ?thesis unfolding publishing(1)
    by (rule gc_inv_db [OF i]) (use refs_shrink(3) [OF P publishing(4,2)] publishing(3) in blast)
next
  case (releasing rk)
  then show ?thesis using gc_inv_release [OF i] by simp
next
  case (deleting name e db')
  then show ?thesis using gc_inv_db [OF i] refs_shrink(1) [OF P] by blast
next
  case (wiping e db')
  then show ?thesis using gc_inv_db [OF i] refs_shrink(2) [OF P] by blast
next
  case (snapshot roots)
  then show ?thesis using snapshot_inv [OF P i] by simp
next
  case (no_roots e)
  have s: "same_contents (gs_store g) (AbortBarrier (BeginBarrier (gs_store g)))" by (simp add: same_contents_def AbortBarrier_def BeginBarrier_def)
  then show ?thesis using i no_roots by (simp add: gc_inv_def phase_ok_def same_contents_ok [OF s])
next
  case (start_mark roots)
  then show ?thesis using start_mark_inv [OF i] by simp
next
  case (next_root m rk roots)
  have m: "mark_ok w (gs_store g) m [] (rk # roots) \<Longrightarrow> mark_ok w (gs_store g) m [rk] roots"
    unfolding mark_ok_def dfs_closed_def by fastforce
  show ?thesis using i m next_root by (simp add: gc_inv_def phase_ok_def covered_def)
next
  case (visit m k stack roots m' cs)
  then show ?thesis using visit_inv [OF i] by simp
next
  case (end_mark m)
  then show ?thesis using i by (simp add: gc_inv_def phase_ok_def covered_def to_keep_def)
next
  case give_up
  then show ?thesis using i by (simp add: gc_inv_def phase_ok_def same_contents_ok [OF same_contents_intros(2)])
next
  case (sweep m procs sched opts e s' st)
  then show ?thesis using sweep_inv [OF X i] by blast
qed

text \<open>A state to start from: no cycle, no PUT in flight, every reference names a whole tree.\<close>

definition gc_start :: "'db gc_world \<Rightarrow> ('db \<Rightarrow> bytes \<rightharpoonup> bytes) \<Rightarrow> 'db gc_state \<Rightarrow> bool" where
  "gc_start w md g \<longleftrightarrow>
     gs_phase g = Quiet \<and> gs_held g = [] \<and> (\<exists>L. store_ok w (gs_store g) L) \<and>
     (\<forall>rk \<in> ref_roots w md (gs_db g). canonical rk \<and> whole_tree (gw_look w (gs_store g)) rk)"

lemma gc_reach_inv:
  assumes "fuse_ok (gw_X w)" and "zstd_ok (gw_Z w)" and "pebble_ok (gw_P w) md" and "gc_start w md g0" and "gc_reach w g0 g"
  shows "gc_inv w md g"
  using assms(5) unfolding gc_reach_def
proof (induction rule: rtranclp_induct)
  case base
  then show ?case using assms(4) by (simp add: gc_start_def gc_inv_def phase_ok_def)
next
  case (step g g')
  then show ?case using gc_step_inv [OF assms(1-3)] by blast
qed

lemma whole_tree_checks:
  assumes "whole_tree (look X Z C s) rk" and "canonical rk"
  shows "\<exists>N. \<forall>fuel \<ge> N. \<exists>ks. CheckComplete C (Get X Z s) (Has X s) fuel rk = Some (Inr ks)"
proof -
  let ?e = "look X Z C s"
  have "reach ?e rk \<subseteq> {k. is_key k}" using canonical_key [OF reach_canonical [OF look_children assms(2)]] by blast
  then have fin: "finite (reach ?e rk)" using finite_keys finite_subset by blast
  have ok: "\<forall>k \<in> reach ?e rk. \<exists>cs. ?e k = Inr cs" using assms(1) by (simp add: whole_tree_def)
  have "\<exists>ks. CheckComplete C (Get X Z s) (Has X s) fuel rk = Some (Inr ks)" if "card (reach ?e rk) \<le> fuel" for fuel
    using bfs_walk [OF fin that, unfolded if_P [OF ok]] unfolding CheckComplete_def look_def by blast
  then show ?thesis by blast
qed

section \<open>Property\<close>

text \<open>C1: an accepted reference never dangles. From any state where every reference names a
  whole tree, under every interleaving of object writes with failing I/O, reference PUTs,
  deletes and wipes, and cycles with any threshold, horizon and pipeline order, the tree of
  every stored reference passes the completeness check; and a mark in progress never fails on
  a missing object.\<close>

theorem references_never_dangle:
  assumes "fuse_ok (gw_X w)" and "zstd_ok (gw_Z w)" and "pebble_ok (gw_P w) md" and "gc_start w md g0" and "gc_reach w g0 g"
  shows "(\<forall>name data r. md (gs_db g) name = Some data \<and> Ref_Decode (gw_RC w) data = Inr r \<longrightarrow>
       (\<exists>N. \<forall>fuel \<ge> N. \<exists>ks. CheckComplete (gw_C w) (Get (gw_X w) (gw_Z w) (gs_store g)) (Has (gw_X w) (gs_store g)) fuel (Ref_Key r) = Some (Inr ks))) \<and>
     (\<forall>m k stack roots. gs_phase g = Marking m (k # stack) roots \<longrightarrow>
       (\<exists>m' cs. mark_visit (gw_X w) (gw_Z w) (gw_C w) (gs_store g) m k = Inr (m', cs)))"
proof (intro conjI allI impI)
  note i = gc_reach_inv [OF assms]
  fix name data r
  assume "md (gs_db g) name = Some data \<and> Ref_Decode (gw_RC w) data = Inr r"
  then have "Ref_Key r \<in> ref_roots w md (gs_db g)" by (auto simp: ref_roots_def)
  then have c: "canonical (Ref_Key r)" "whole_tree (gw_look w (gs_store g)) (Ref_Key r)" using i by (simp_all add: gc_inv_def)
  show "\<exists>N. \<forall>fuel \<ge> N. \<exists>ks. CheckComplete (gw_C w) (Get (gw_X w) (gw_Z w) (gs_store g)) (Has (gw_X w) (gs_store g)) fuel (Ref_Key r) = Some (Inr ks)"
    by (rule whole_tree_checks [OF c(2) [unfolded gw_look_def] c(1)])
next
  note i = gc_reach_inv [OF assms]
  fix m k stack roots
  assume ph: "gs_phase g = Marking m (k # stack) roots"
  show "\<exists>m' cs. mark_visit (gw_X w) (gw_Z w) (gw_C w) (gs_store g) m k = Inr (m', cs)"
    by (rule visit_shown [OF i ph]) blast
qed

text \<open>A run: one stored object, one reference to it, a whole cycle with an open line.\<close>

definition wit_world :: "(bytes \<times> bytes) list gc_world" where
  "wit_world = \<lparr>gw_X = all_filter, gw_H = (\<lambda>_. replicate 32 7), gw_Z = rle_zstd, gw_C = frame_cbor, gw_RC = frame_ref, gw_P = mem_pebble,
     gw_content = (\<lambda>_. [1, 2, 3, 4, 5])\<rparr>"

lemma wit_world_parts [simp]:
  "gw_X wit_world = all_filter" "gw_H wit_world = (\<lambda>_. replicate 32 7)" "gw_Z wit_world = rle_zstd" "gw_C wit_world = frame_cbor"
  "gw_RC wit_world = frame_ref" "gw_P wit_world = mem_pebble" "gw_content wit_world = (\<lambda>_. [1, 2, 3, 4, 5])"
  by (simp_all add: wit_world_def)

theorem references_never_dangle_witness:
  "\<exists>s g m. Put all_filter rle_zstd wit_key [1, 2, 3, 4, 5] empty_store = (None, s) \<and>
     gc_reach wit_world \<lparr>gs_store = s, gs_db = wit_db, gs_held = [], gs_phase = Quiet\<rparr> g \<and>
     gs_phase g = Marked m \<and> wit_key \<in> ms_keys all_filter m \<and>
     (\<exists>fuel ks. CheckComplete frame_cbor (Get all_filter rle_zstd (gs_store g)) (Has all_filter (gs_store g)) fuel wit_key = Some (Inr ks))"
proof -
  obtain s L where s: "Put all_filter rle_zstd wit_key [1, 2, 3, 4, 5] empty_store = (None, s)" "holds all_filter s L" "\<not> st_closed s"
    "ids_ok s" "names_ok s" "length L \<le> 1" "unat (st_nextID s) \<le> 2" "wit_key \<in> dom (log_map L)"
    "\<forall>r \<in> set L. decode_record rle_zstd r = Inr [1, 2, 3, 4, 5]" by (rule wit_stored)
  let ?w = wit_world and ?b = "BeginBarrier s"
  let ?g = "\<lambda>s p. \<lparr>gs_store = s, gs_db = wit_db, gs_held = [], gs_phase = p\<rparr>"
  note same = same_contents_reads [OF same_contents_intros(1) [of s]]
  have ok: "store_ok ?w s L" using s by (simp add: store_ok_def)
  have has: "Has all_filter s wit_key = Inr True" using holds_reads(1) [OF s(2,3) wit_key(2)] s(8) by simp
  then have e: "gw_look ?w s wit_key = Inr []" using look_leaf [OF wit_leaf] by (simp add: gw_look_def)
  have e': "look all_filter rle_zstd frame_cbor ?b wit_key = Inr []" using e by (simp add: gw_look_def same)
  have roots: "ref_roots ?w map_of wit_db = {wit_key}"
    using roots_are_refs [of ?w map_of wit_db "[wit_key]"] mem_pebble_ok wit_roots by simp
  have start: "gc_start ?w map_of (?g s Quiet)"
    using ok roots wit_key(1) e reach_leaf [of "gw_look ?w s", OF e] by (auto simp: gc_start_def whole_tree_def)
  have h: "holds all_filter ?b L" "\<not> st_closed ?b" using s(2,3) by (simp_all add: same)
  have has': "Has all_filter ?b wit_key = Inr True" using has by (simp add: same)
  obtain m1 where v: "mark_visit all_filter rle_zstd frame_cbor ?b (NewMarkSet ?b) wit_key = Inr (m1, [])"
    "ms_keys all_filter m1 = insert wit_key (ms_keys all_filter (NewMarkSet ?b))"
    using mark_visit_shown [OF h NewMarkSet_inv wit_key(2) e' has'] by auto
  have step: "gc_step ?w (?g s Quiet) (?g ?b (Snapped [wit_key]))"
    "gc_step ?w (?g ?b (Snapped [wit_key])) (?g ?b (Marking (NewMarkSet ?b) [] [wit_key]))"
    "gc_step ?w (?g ?b (Marking (NewMarkSet ?b) [] [wit_key])) (?g ?b (Marking (NewMarkSet ?b) [wit_key] []))"
    "gc_step ?w (?g ?b (Marking (NewMarkSet ?b) [wit_key] [])) (?g ?b (Marking m1 [] []))"
    "gc_step ?w (?g ?b (Marking m1 [] [])) (?g ?b (Marked m1))"
    using gc_step.snapshot [of "?g s Quiet" ?w "[wit_key]"] gc_step.start_mark [of "?g ?b (Snapped [wit_key])" "[wit_key]" ?w]
      gc_step.next_root [of "?g ?b (Marking (NewMarkSet ?b) [] [wit_key])" "NewMarkSet ?b" wit_key "[]" ?w]
      gc_step.visit [of "?g ?b (Marking (NewMarkSet ?b) [wit_key] [])" "NewMarkSet ?b" wit_key "[]" "[]" ?w m1 "[]"]
      gc_step.end_mark [of "?g ?b (Marking m1 [] [])" m1 ?w] wit_roots v(1)
    by simp_all
  have run: "gc_reach ?w (?g s Quiet) (?g ?b (Marked m1))"
    unfolding gc_reach_def using step by (meson rtranclp.rtrancl_into_rtrancl rtranclp.rtrancl_refl)
  have "md = map_of \<Longrightarrow> \<exists>data. md wit_db [97] = Some data \<and> Ref_Decode frame_ref data = Inr wit_ref" for md :: "(bytes \<times> bytes) list \<Rightarrow> bytes \<rightharpoonup> bytes"
    using Decode_iff [OF frame_ref_ok] wit_ref_valid by (auto simp: wit_db_def)
  then obtain data where data: "map_of wit_db [97] = Some data" "Ref_Decode frame_ref data = Inr wit_ref" by blast
  have key: "Ref_Key wit_ref = wit_key" by (simp add: wit_ref_def)
  obtain N where N: "\<forall>fuel \<ge> N. \<exists>ks. CheckComplete frame_cbor (Get all_filter rle_zstd ?b) (Has all_filter ?b) fuel (Ref_Key wit_ref) = Some (Inr ks)"
    using references_never_dangle [of ?w map_of "?g s Quiet" "?g ?b (Marked m1)"] all_filter_ok rle_zstd_ok mem_pebble_ok start run data
    by fastforce
  from N [rule_format, of N] have "\<exists>fuel ks. CheckComplete frame_cbor (Get all_filter rle_zstd ?b) (Has all_filter ?b) fuel wit_key = Some (Inr ks)"
    unfolding key by blast
  then show ?thesis using s(1) run v(2)
    by (intro exI [of _ s] exI [of _ "?g ?b (Marked m1)"] exI [of _ m1]) simp
qed

end
