(* ===== verification/Amber_Host.thy ===== *)
theory Amber_Host
  imports Amber_Fstree
begin

text \<open>
  The operating system as the file-system packages (\<open>ingest\<close>, \<open>tarexport\<close>, \<open>tarextract\<close>) use
  it: lexical paths (\<open>path/filepath\<close>), a file system with symbolic links, and the calls that
  read and change it. A file system is an association list from absolute paths, given as
  their components, to inodes. Calls that change it run under a fault plan: the plan's next
  entry makes the call fail, and for a write says how much of it took effect. Access is
  checked where a directory is written; quotas and the group rules of set-group-ID
  directories are not modelled, a failure of that kind is an entry of the plan. \<open>stat\<close> calls
  report what is there: search permission is not modelled.
\<close>

section \<open>Lexical paths\<close>

primrec join_slash :: "bytes list \<Rightarrow> bytes" where
  "join_slash [] = []"
| "join_slash (c # cs) = (if cs = [] then c else c @ 0x2F # join_slash cs)"

definition dot :: bytes where "dot = [0x2E]"
definition dotdot :: bytes where "dotdot = [0x2E, 0x2E]"

definition is_abs :: "bytes \<Rightarrow> bool" where
  "is_abs s \<longleftrightarrow> s \<noteq> [] \<and> hd s = 0x2F"

text \<open>One component of \<open>filepath.Clean\<close>; \<open>out\<close> is the cleaned path so far, last component first.\<close>

definition clean_step :: "bool \<Rightarrow> bytes list \<Rightarrow> bytes \<Rightarrow> bytes list" where
  "clean_step rooted out c =
     (if c = [] \<or> c = dot then out
      else if c = dotdot then
        (case out of [] \<Rightarrow> if rooted then [] else [c] | d # ds \<Rightarrow> if d = dotdot then c # out else ds)
      else c # out)"

definition filepath_Clean :: "bytes \<Rightarrow> bytes" where
  "filepath_Clean s =
     (let cs = rev (foldl (clean_step (is_abs s)) [] (split_slash s))
      in if is_abs s then 0x2F # join_slash cs else if cs = [] then dot else join_slash cs)"

definition filepath_Join :: "bytes \<Rightarrow> bytes \<Rightarrow> bytes" where
  "filepath_Join a b =
     (if a \<noteq> [] then filepath_Clean (a @ 0x2F # b) else if b \<noteq> [] then filepath_Clean b else [])"

text \<open>\<open>filepath.Dir\<close> cleans what precedes the last separator, with it.\<close>

definition filepath_Dir :: "bytes \<Rightarrow> bytes" where
  "filepath_Dir s = filepath_Clean (rev (dropWhile (\<lambda>c. c \<noteq> 0x2F) (rev s)))"

definition HasPrefix :: "bytes \<Rightarrow> bytes \<Rightarrow> bool" where
  "HasPrefix s p \<longleftrightarrow> take (length p) s = p"

section \<open>Inodes\<close>

type_synonym path = "bytes list"

datatype errno = ENOENT | EEXIST | ENOTDIR | EISDIR | ELOOP | EPERM | EACCES | EOPNOTSUPP | ERANGE | EIO | EINVAL

text \<open>A device body holds the major and minor numbers that \<open>unix.Major\<close> and \<open>unix.Minor\<close> take
  from a device number and \<open>unix.Mkdev\<close> puts into one; \<open>BOdd\<close> is a file of a type unknown to
  the program.\<close>

datatype body = BReg bytes | BDir | BLnk bytes | BChr u32 u32 | BBlk u32 u32 | BFifo | BSock | BOdd

record inode =
  in_body :: body
  in_perm :: u32
  in_uid :: u32
  in_gid :: u32
  in_mtime :: "64 word"
  in_xattrs :: "(bytes \<times> bytes) list"

type_synonym fs = "(path \<times> inode) list"

primrec fmt_of :: "body \<Rightarrow> u64" where
  "fmt_of (BReg b) = 0x8000"
| "fmt_of BDir = 0x4000"
| "fmt_of (BLnk t) = 0xA000"
| "fmt_of (BChr a b) = 0x2000"
| "fmt_of (BBlk a b) = 0x6000"
| "fmt_of BFifo = 0x1000"
| "fmt_of BSock = 0xC000"
| "fmt_of BOdd = 0"

text \<open>The raw \<open>st_mode\<close>: the type bits and the twelve permission bits.\<close>

definition st_mode :: "inode \<Rightarrow> u64" where
  "st_mode i = fmt_of (in_body i) OR (ucast (in_perm i) AND 0xFFF)"

definition is_dir :: "fs \<Rightarrow> path \<Rightarrow> bool" where
  "is_dir fs p = (case map_of fs p of Some i \<Rightarrow> in_body i = BDir | None \<Rightarrow> False)"

text \<open>The names in a directory, in the order of \<open>os.ReadDir\<close>.\<close>

definition names_in :: "fs \<Rightarrow> path \<Rightarrow> bytes list" where
  "names_in fs p = sort (remdups (map last (filter (\<lambda>q. q \<noteq> [] \<and> butlast q = p) (map fst fs))))"

definition good_name :: "bytes \<Rightarrow> bool" where
  "good_name n \<longleftrightarrow> n \<noteq> [] \<and> n \<noteq> dot \<and> n \<noteq> dotdot \<and> 0x2F \<notin> set n \<and> 0 \<notin> set n"

text \<open>Every path below the root has a good name in a directory.\<close>

definition wf_fs :: "fs \<Rightarrow> bool" where
  "wf_fs fs \<longleftrightarrow> is_dir fs [] \<and> (\<forall>p \<in> fst ` set fs. p \<noteq> [] \<longrightarrow> good_name (last p) \<and> is_dir fs (butlast p))"

section \<open>Path resolution\<close>

text \<open>The kernel's walk: \<open>cur\<close> is the directory reached, \<open>links\<close> the symbolic links that may
  still be followed. The result may name a missing entry of an existing directory.\<close>

function resolve :: "fs \<Rightarrow> nat \<Rightarrow> path \<Rightarrow> bytes list \<Rightarrow> bool \<Rightarrow> errno + path" where
  "resolve fs links cur [] follow = Inr cur"
| "resolve fs links cur (c # cs) follow =
     (if c = [] \<or> c = dot then resolve fs links cur cs follow
      else if c = dotdot then resolve fs links (butlast cur) cs follow
      else case map_of fs (cur @ [c]) of
        None \<Rightarrow> if cs = [] then Inr (cur @ [c]) else Inl ENOENT
      | Some i \<Rightarrow>
          (case in_body i of
             BDir \<Rightarrow> resolve fs links (cur @ [c]) cs follow
           | BLnk t \<Rightarrow>
               if cs = [] \<and> \<not> follow then Inr (cur @ [c])
               else (case links of
                       0 \<Rightarrow> Inl ELOOP
                     | Suc l \<Rightarrow> resolve fs l (if is_abs t then [] else cur) (split_slash t @ cs) follow)
           | _ \<Rightarrow> if cs = [] then Inr (cur @ [c]) else Inl ENOTDIR))"
  by pat_completeness auto
termination by (relation "measures [\<lambda>(fs, links, cur, cs, follow). links, \<lambda>(fs, links, cur, cs, follow). length cs]") auto

definition MaxLinks :: nat where "MaxLinks = 40"

definition namei :: "fs \<Rightarrow> path \<Rightarrow> bool \<Rightarrow> bytes \<Rightarrow> errno + path" where
  "namei fs cwd follow s =
     (if 0 \<in> set s then Inl EINVAL
      else if s = [] then Inl ENOENT
      else resolve fs MaxLinks (if is_abs s then [] else cwd) (split_slash s) follow)"

section \<open>Calls that read\<close>

text \<open>A source to ingest: its file system and the calls that fail, as \<open>sr_deny\<close> says.\<close>

datatype call = CStat | CLstat | CReadDir | CReadFile | COpen | CRead | CReadlink | CXattr

record src =
  sr_fs :: fs
  sr_deny :: "call \<Rightarrow> path \<Rightarrow> errno option"

definition sr_inode :: "call \<Rightarrow> src \<Rightarrow> path \<Rightarrow> errno + inode" where
  "sr_inode c S p =
     (case sr_deny S c p of
        Some e \<Rightarrow> Inl e
      | None \<Rightarrow> (case map_of (sr_fs S) p of None \<Rightarrow> Inl ENOENT | Some i \<Rightarrow> Inr i))"

text \<open>The names of a directory in byte order, with \<open>DirEntry.IsDir\<close>.\<close>

definition host_ReadDir :: "src \<Rightarrow> path \<Rightarrow> errno + (bytes \<times> bool) list" where
  "host_ReadDir S p =
     (case sr_inode CReadDir S p of
        Inl e \<Rightarrow> Inl e
      | Inr i \<Rightarrow> if in_body i = BDir then Inr (map (\<lambda>n. (n, is_dir (sr_fs S) (p @ [n]))) (names_in (sr_fs S) p)) else Inl ENOTDIR)"

text \<open>\<open>os.ReadFile\<close> of an entry of a directory follows links.\<close>

definition host_ReadFile :: "src \<Rightarrow> path \<Rightarrow> bytes \<Rightarrow> errno + bytes" where
  "host_ReadFile S dir name =
     (case resolve (sr_fs S) MaxLinks dir [name] True of
        Inl e \<Rightarrow> Inl e
      | Inr p \<Rightarrow>
          (case sr_inode CReadFile S p of
             Inl e \<Rightarrow> Inl e
           | Inr i \<Rightarrow> (case in_body i of BReg b \<Rightarrow> Inr b | BDir \<Rightarrow> Inl EISDIR | _ \<Rightarrow> Inl EINVAL)))"

definition host_Readlink :: "src \<Rightarrow> path \<Rightarrow> errno + bytes" where
  "host_Readlink S p =
     (case sr_inode CReadlink S p of
        Inl e \<Rightarrow> Inl e
      | Inr i \<Rightarrow> (case in_body i of BLnk t \<Rightarrow> Inr t | _ \<Rightarrow> Inl EINVAL))"

text \<open>\<open>Llistxattr\<close> and \<open>Lgetxattr\<close> with a buffer of \<open>n\<close> bytes; an empty buffer asks for the size.\<close>

definition fill_buffer :: "nat \<Rightarrow> bytes \<Rightarrow> errno + nat \<times> bytes" where
  "fill_buffer n b = (if n = 0 then Inr (length b, []) else if n < length b then Inl ERANGE else Inr (length b, b))"

definition Llistxattr :: "src \<Rightarrow> path \<Rightarrow> nat \<Rightarrow> errno + nat \<times> bytes" where
  "Llistxattr S p n =
     (case sr_inode CXattr S p of
        Inl e \<Rightarrow> Inl e
      | Inr i \<Rightarrow> fill_buffer n (concat (map (\<lambda>(name, v). name @ [0]) (in_xattrs i))))"

definition Lgetxattr :: "src \<Rightarrow> path \<Rightarrow> bytes \<Rightarrow> nat \<Rightarrow> errno + nat \<times> bytes" where
  "Lgetxattr S p name n =
     (case sr_inode CXattr S p of
        Inl e \<Rightarrow> Inl e
      | Inr i \<Rightarrow> (case map_of (in_xattrs i) name of None \<Rightarrow> Inl EINVAL | Some v \<Rightarrow> fill_buffer n v))"

section \<open>Calls that change the file system\<close>

record host =
  ho_fs :: fs
  ho_cwd :: path
  ho_root :: bool
  ho_uid :: u32
  ho_gid :: u32
  ho_umask :: u32
  ho_now :: "64 word"
  ho_plan :: "(errno \<times> nat) option list"

type_synonym 'r os = "host \<Rightarrow> (errno + 'r) \<times> host"

text \<open>A call takes the plan's next entry, if one is left.\<close>

definition sys :: "(nat \<Rightarrow> 'r os) \<Rightarrow> 'r os \<Rightarrow> 'r os" where
  "sys partial f h =
     (case ho_plan h of
        [] \<Rightarrow> f h
      | None # plan \<Rightarrow> f (h\<lparr>ho_plan := plan\<rparr>)
      | Some (e, n) # plan \<Rightarrow> (Inl e, snd (partial n (h\<lparr>ho_plan := plan\<rparr>))))"

definition nothing :: "nat \<Rightarrow> 'r os" where
  "nothing n h = (Inl EIO, h)"

definition at_path :: "bool \<Rightarrow> bytes \<Rightarrow> (path \<Rightarrow> 'r os) \<Rightarrow> 'r os" where
  "at_path follow s f h =
     (case namei (ho_fs h) (ho_cwd h) follow s of Inl e \<Rightarrow> (Inl e, h) | Inr p \<Rightarrow> f p h)"

definition at_inode :: "bool \<Rightarrow> bytes \<Rightarrow> (path \<Rightarrow> inode \<Rightarrow> 'r os) \<Rightarrow> 'r os" where
  "at_inode follow s f =
     at_path follow s (\<lambda>p h. case map_of (ho_fs h) p of None \<Rightarrow> (Inl ENOENT, h) | Some i \<Rightarrow> f p i h)"

definition put_inode :: "path \<Rightarrow> inode \<Rightarrow> host \<Rightarrow> host" where
  "put_inode p i h = h\<lparr>ho_fs := (p, i) # ho_fs h\<rparr>"

definition may_write :: "host \<Rightarrow> inode \<Rightarrow> bool" where
  "may_write h i \<longleftrightarrow> ho_root h \<or>
     in_perm i AND (if in_uid i = ho_uid h then 0x80 else if in_gid i = ho_gid h then 0x10 else 0x02) \<noteq> 0"

text \<open>A new entry: its directory must be writable, and gets the time of the change.\<close>

definition create :: "body \<Rightarrow> u32 \<Rightarrow> path \<Rightarrow> unit os" where
  "create b perm p h =
     (if map_of (ho_fs h) p \<noteq> None then (Inl EEXIST, h)
      else case map_of (ho_fs h) (butlast p) of
        None \<Rightarrow> (Inl ENOENT, h)
      | Some d \<Rightarrow>
          if \<not> may_write h d then (Inl EACCES, h)
          else (Inr (), put_inode p \<lparr>in_body = b, in_perm = perm, in_uid = ho_uid h, in_gid = ho_gid h, in_mtime = ho_now h, in_xattrs = []\<rparr>
                 (put_inode (butlast p) (d\<lparr>in_mtime := ho_now h\<rparr>) h)))"

definition masked :: "host \<Rightarrow> u32 \<Rightarrow> u32" where
  "masked h perm = perm AND NOT (ho_umask h)"

definition stat_path :: "bool \<Rightarrow> bytes \<Rightarrow> host \<Rightarrow> errno + inode" where
  "stat_path follow s h =
     (case namei (ho_fs h) (ho_cwd h) follow s of
        Inl e \<Rightarrow> Inl e
      | Inr p \<Rightarrow> (case map_of (ho_fs h) p of None \<Rightarrow> Inl ENOENT | Some i \<Rightarrow> Inr i))"

definition host_Lstat :: "bytes \<Rightarrow> host \<Rightarrow> errno + inode" where
  "host_Lstat = stat_path False"

definition host_Stat :: "bytes \<Rightarrow> host \<Rightarrow> errno + inode" where
  "host_Stat = stat_path True"

definition host_Mkdir :: "bytes \<Rightarrow> u32 \<Rightarrow> unit os" where
  "host_Mkdir s perm = sys nothing (at_path False s (\<lambda>p h. create BDir (masked h (perm AND 0x1FF)) p h))"

text \<open>\<open>os.OpenFile\<close> with \<open>O_CREATE\<close> and \<open>O_EXCL\<close>; the result stands for the open file.\<close>

definition host_CreateExcl :: "bytes \<Rightarrow> u32 \<Rightarrow> path os" where
  "host_CreateExcl s perm =
     sys nothing (at_path False s (\<lambda>p h.
       case create (BReg []) (masked h perm) p h of (Inl e, h) \<Rightarrow> (Inl e, h) | (Inr _, h) \<Rightarrow> (Inr p, h)))"

definition set_content :: "path \<Rightarrow> bytes \<Rightarrow> unit os" where
  "set_content p b h =
     (case map_of (ho_fs h) p of
        None \<Rightarrow> (Inl EIO, h)
      | Some i \<Rightarrow> (Inr (), put_inode p (i\<lparr>in_body := BReg b, in_mtime := ho_now h\<rparr>) h))"

text \<open>Filling a new file; a failed write may leave a prefix.\<close>

definition host_WriteAll :: "path \<Rightarrow> bytes \<Rightarrow> unit os" where
  "host_WriteAll p b = sys (\<lambda>n. set_content p (take n b)) (set_content p b)"

definition host_Close :: "unit os" where
  "host_Close = sys nothing (\<lambda>h. (Inr (), h))"

definition host_Symlink :: "bytes \<Rightarrow> bytes \<Rightarrow> unit os" where
  "host_Symlink target s =
     sys nothing (\<lambda>h. if 0 \<in> set target then (Inl EINVAL, h) else if target = [] then (Inl ENOENT, h) else at_path False s (create (BLnk target) 0x1FF) h)"

definition unix_Mkfifo :: "bytes \<Rightarrow> u32 \<Rightarrow> unit os" where
  "unix_Mkfifo s perm = sys nothing (at_path False s (\<lambda>p h. create BFifo (masked h perm) p h))"

definition unix_Mknod :: "bytes \<Rightarrow> body \<Rightarrow> u32 \<Rightarrow> unit os" where
  "unix_Mknod s b perm =
     sys nothing (\<lambda>h. if \<not> ho_root h then (Inl EPERM, h) else at_path False s (\<lambda>p h. create b (masked h perm) p h) h)"

text \<open>Changing the attributes of an inode is up to its owner. A new owner clears the
  set-ID bits of anything but a directory; the ID \<open>-1\<close> means no change.\<close>

definition owns :: "host \<Rightarrow> inode \<Rightarrow> bool" where
  "owns h i \<longleftrightarrow> ho_root h \<or> in_uid i = ho_uid h"

definition change_when :: "(host \<Rightarrow> inode \<Rightarrow> errno option) \<Rightarrow> bool \<Rightarrow> bytes \<Rightarrow> (inode \<Rightarrow> inode) \<Rightarrow> unit os" where
  "change_when refused follow s f =
     sys nothing (at_inode follow s (\<lambda>p i h. case refused h i of None \<Rightarrow> (Inr (), put_inode p (f i) h) | Some e \<Rightarrow> (Inl e, h)))"

definition change :: "bool \<Rightarrow> bytes \<Rightarrow> (inode \<Rightarrow> inode) \<Rightarrow> unit os" where
  "change = change_when (\<lambda>h i. if owns h i then None else Some EPERM)"

definition new_id :: "u32 \<Rightarrow> u32 \<Rightarrow> u32" where
  "new_id old new = (if new = 0xFFFFFFFF then old else new)"

definition host_Lchown :: "bytes \<Rightarrow> u32 \<Rightarrow> u32 \<Rightarrow> unit os" where
  "host_Lchown s uid gid =
     change False s (\<lambda>i. i\<lparr>in_uid := new_id (in_uid i) uid, in_gid := new_id (in_gid i) gid,
       in_perm := (if in_body i = BDir then in_perm i else in_perm i AND NOT 0xC00)\<rparr>)"

definition unix_Chmod :: "bytes \<Rightarrow> u32 \<Rightarrow> unit os" where
  "unix_Chmod s perm = change True s (\<lambda>i. i\<lparr>in_perm := perm\<rparr>)"

text \<open>An extended attribute is data of the file: setting one needs write permission.\<close>

definition unix_Lsetxattr :: "bytes \<Rightarrow> bytes \<Rightarrow> bytes \<Rightarrow> unit os" where
  "unix_Lsetxattr s name v =
     change_when (\<lambda>h i. if may_write h i then None else Some EACCES) False s
       (\<lambda>i. i\<lparr>in_xattrs := (name, v) # filter (\<lambda>(n, _). n \<noteq> name) (in_xattrs i)\<rparr>)"

definition unix_Utimes :: "bytes \<Rightarrow> bool \<Rightarrow> 64 word \<Rightarrow> unit os" where
  "unix_Utimes s nofollow ns = change (\<not> nofollow) s (\<lambda>i. i\<lparr>in_mtime := ns\<rparr>)"

text \<open>\<open>os.MkdirAll\<close>: the directory may exist; otherwise its parent is made first. \<open>depth\<close>
  bounds the recursion by the number of components.\<close>

primrec mkdir_all :: "nat \<Rightarrow> bytes \<Rightarrow> u32 \<Rightarrow> unit os" where
  "mkdir_all 0 s perm h = (Inl EINVAL, h)"
| "mkdir_all (Suc depth) s perm h =
     (case host_Stat s h of
        Inr i \<Rightarrow> (if in_body i = BDir then Inr () else Inl ENOTDIR, h)
      | Inl _ \<Rightarrow>
          (let up = filepath_Dir s;
               (r, h) = (if up = s \<or> up = dot \<or> up = [0x2F] then (Inr (), h) else mkdir_all depth up perm h)
           in case r of
                Inl e \<Rightarrow> (Inl e, h)
              | Inr _ \<Rightarrow>
                  (case host_Mkdir s perm h of
                     (Inr _, h) \<Rightarrow> (Inr (), h)
                   | (Inl e, h) \<Rightarrow>
                       (case host_Lstat s h of
                          Inr i \<Rightarrow> (if in_body i = BDir then Inr () else Inl e, h)
                        | Inl _ \<Rightarrow> (Inl e, h)))))"

definition host_MkdirAll :: "bytes \<Rightarrow> u32 \<Rightarrow> unit os" where
  "host_MkdirAll s perm = mkdir_all (Suc (length s)) s perm"

end
