(* ===== verification/Amber_Ingest.thy ===== *)
theory Amber_Ingest
  imports Amber_Host Amber_Ref Amber_Parallel
begin

text \<open>
  Packages \<open>amberignore\<close> and \<open>ingest\<close>: the ignore files, the sequential driver (driver.go), the
  parallel builder (parallel.go), the attributes of a file (meta.go, xattr_common.go), the
  pre-scan (scan.go) and the entry points (ingest.go). The gitignore package and the content
  chunker are parameters; \<open>chunks_ok\<close> states what the chunker promises.

  The source does not change while it is read. A builder's sink keeps the objects emitted and
  the progress reported, in order. The workers of the parallel builder share nothing but the
  sink, so a run is given by the order in which the sink receives the children's objects: a
  schedule for each directory. On an error the sink's content is dropped; what the consumer
  received before the error is then an argument of \<open>objects\<close>.
\<close>

section \<open>amberignore\<close>

text \<open>The gitignore package: a parsed pattern, and whether a pattern list excludes a path.\<close>

record 'p gitignore =
  ParsePattern :: "bytes \<Rightarrow> bytes list \<Rightarrow> 'p"
  Match :: "'p list \<Rightarrow> bytes list \<Rightarrow> bool \<Rightarrow> bool"

text \<open>\<open>FileName\<close> is \<open>.amberignore\<close>.\<close>

definition FileName :: bytes where
  "FileName = [0x2E, 0x61, 0x6D, 0x62, 0x65, 0x72, 0x69, 0x67, 0x6E, 0x6F, 0x72, 0x65]"

text \<open>A matcher; \<open>ig_m\<close> is the pattern list its gitignore matcher was made from. No matcher
  (\<open>None\<close>) ignores nothing.\<close>

record 'p Matcher =
  ig_rel :: "bytes list"
  ig_patterns :: "'p list"
  ig_m :: "'p list"

text \<open>\<open>strings.Split\<close> at a one-byte separator.\<close>

fun split_at :: "byte \<Rightarrow> bytes \<Rightarrow> bytes list" where
  "split_at d [] = [[]]"
| "split_at d (c # cs) =
     (if c = d then [] # split_at d cs
      else (case split_at d cs of [] \<Rightarrow> [[c]] | w # ws \<Rightarrow> (c # w) # ws))"

definition trim_cr :: "bytes \<Rightarrow> bytes" where
  "trim_cr line = (if line \<noteq> [] \<and> last line = 0x0D then butlast line else line)"

text \<open>\<open>unicode.IsSpace\<close>; \<open>strings.TrimSpace\<close> leaves nothing of a line of such runes.\<close>

definition IsSpace :: "nat \<Rightarrow> bool" where
  "IsSpace r \<longleftrightarrow> r \<in> {0x09, 0x0A, 0x0B, 0x0C, 0x0D, 0x20, 0x85, 0xA0, 0x1680, 0x2028, 0x2029, 0x202F, 0x205F, 0x3000} \<or>
     (0x2000 \<le> r \<and> r \<le> 0x200A)"

definition is_blank :: "bytes \<Rightarrow> bool" where
  "is_blank line \<longleftrightarrow> list_all (\<lambda>(r, _). IsSpace r) (utf8_runes line)"

definition ignore_lines :: "bytes \<Rightarrow> bytes list" where
  "ignore_lines text = filter (\<lambda>line. \<not> HasPrefix line [0x23] \<and> \<not> is_blank line) (map trim_cr (split_at 0x0A text))"

definition ig_load :: "'p gitignore \<Rightarrow> src \<Rightarrow> path \<Rightarrow> bytes list \<Rightarrow> 'p Matcher option \<Rightarrow> errno + 'p Matcher" where
  "ig_load G S dir rel parent =
     (case host_ReadFile S dir FileName of
        Inl ENOENT \<Rightarrow>
          (case parent of
             Some p \<Rightarrow> Inr \<lparr>ig_rel = rel, ig_patterns = ig_patterns p, ig_m = ig_m p\<rparr>
           | None \<Rightarrow> Inr \<lparr>ig_rel = [], ig_patterns = [], ig_m = []\<rparr>)
      | Inl e \<Rightarrow> Inl e
      | Inr text \<Rightarrow>
          (let ps = (case parent of None \<Rightarrow> [] | Some p \<Rightarrow> ig_patterns p) @ map (\<lambda>line. ParsePattern G line rel) (ignore_lines text)
           in Inr \<lparr>ig_rel = rel, ig_patterns = ps, ig_m = ps\<rparr>))"

definition ig_Root :: "'p gitignore \<Rightarrow> src \<Rightarrow> path \<Rightarrow> errno + 'p Matcher" where
  "ig_Root G S dir = ig_load G S dir [] None"

definition Descend :: "'p gitignore \<Rightarrow> src \<Rightarrow> 'p Matcher option \<Rightarrow> path \<Rightarrow> bytes \<Rightarrow> errno + 'p Matcher option" where
  "Descend G S m dir name =
     (case m of
        None \<Rightarrow> Inr None
      | Some p \<Rightarrow> (case ig_load G S dir (ig_rel p @ [name]) m of Inl e \<Rightarrow> Inl e | Inr sub \<Rightarrow> Inr (Some sub)))"

definition Ignored :: "'p gitignore \<Rightarrow> 'p Matcher option \<Rightarrow> bytes \<Rightarrow> bool \<Rightarrow> bool" where
  "Ignored G m name isDir =
     (case m of
        None \<Rightarrow> False
      | Some p \<Rightarrow> if \<not> isDir \<and> name = FileName then False else Match G (ig_m p) (ig_rel p @ [name]) isDir)"

section \<open>Extended attributes\<close>

definition splitXattrNames :: "bytes \<Rightarrow> bytes list" where
  "splitXattrNames buf = filter (\<lambda>n. 0 < length n) (split_at 0 buf)"

definition ignoreUnsupported :: "errno \<Rightarrow> errno + (bytes \<times> bytes) list" where
  "ignoreUnsupported e = (if e = EOPNOTSUPP then Inr [] else Inl e)"

fun read_values :: "(bytes \<Rightarrow> nat \<Rightarrow> errno + nat \<times> bytes) \<Rightarrow> bytes list \<Rightarrow> (bytes \<times> bytes) list \<Rightarrow> errno + (bytes \<times> bytes) list" where
  "read_values get [] m = Inr m"
| "read_values get (name # names) m =
     (case get name 0 of
        Inl e \<Rightarrow> Inl e
      | Inr (sz, _) \<Rightarrow>
          (case get name sz of
             Inl e \<Rightarrow> Inl e
           | Inr (sz', val) \<Rightarrow> read_values get names (AList.update name (take sz' val) m)))"

definition readAllXattrs :: "bytes \<Rightarrow> (bytes \<Rightarrow> nat \<Rightarrow> errno + nat \<times> bytes) \<Rightarrow> errno + (bytes \<times> bytes) list" where
  "readAllXattrs nameBuf get =
     (let names = splitXattrNames nameBuf in if length names = 0 then Inr [] else read_values get names [])"

text \<open>A nil map and an empty one are the same list.\<close>

definition readXattrsWith :: "(nat \<Rightarrow> errno + nat \<times> bytes) \<Rightarrow> (bytes \<Rightarrow> nat \<Rightarrow> errno + nat \<times> bytes) \<Rightarrow> errno + (bytes \<times> bytes) list" where
  "readXattrsWith list get =
     (case list 0 of
        Inl e \<Rightarrow> ignoreUnsupported e
      | Inr (sz, _) \<Rightarrow>
          if sz = 0 then Inr []
          else (case list sz of
                  Inl e \<Rightarrow> ignoreUnsupported e
                | Inr (sz', buf) \<Rightarrow> readAllXattrs (take sz' buf) get))"

definition readXattrs :: "src \<Rightarrow> path \<Rightarrow> errno + (bytes \<times> bytes) list" where
  "readXattrs S p = readXattrsWith (Llistxattr S p) (Lgetxattr S p)"

section \<open>The driver\<close>

record ByteOpts =
  MinSize :: int
  NormalSize :: int
  MaxSize :: int

text \<open>The packages the builders call: CBOR, BLAKE3, the content chunker (what its \<open>Next\<close>
  returns on a file's bytes, with the read error that follows them, if any) and gitignore.\<close>

record 'p env =
  en_C :: cbor
  en_H :: "bytes \<Rightarrow> bytes"
  en_U :: "ByteOpts option \<Rightarrow> bytes \<Rightarrow> errno option \<Rightarrow> errno next_result list"
  en_G :: "'p gitignore"

record driver =
  dr_ic :: ItemChunker
  dr_byteOpts :: "ByteOpts option"
  dr_xattrInlineMax :: int
  dr_progress :: bool

record out =
  o_objs :: "object list"
  o_files :: u64
  o_bytes :: u64

datatype in_err = SysErr errno | FileTypeErr path u64 | TreeErr "ps_err fs_err" | ReadErr errno | NeitherFileNorDir path

type_synonym 'r ingest = "(in_err + 'r \<times> out) option"

definition empty_out :: out where
  "empty_out = \<lparr>o_objs = [], o_files = 0, o_bytes = 0\<rparr>"

definition out_emit :: "(ps_err, out) emit" where
  "out_emit s obj = Inr (s\<lparr>o_objs := o_objs s @ [obj]\<rparr>)"

definition fileDone :: "driver \<Rightarrow> out \<Rightarrow> out" where
  "fileDone D s = (if dr_progress D then s\<lparr>o_files := o_files s + 1\<rparr> else s)"

definition addBytes :: "driver \<Rightarrow> nat \<Rightarrow> out \<Rightarrow> out" where
  "addBytes D n s = (if dr_progress D then s\<lparr>o_bytes := o_bytes s + of_nat n\<rparr> else s)"

definition ing_bind :: "'a ingest \<Rightarrow> ('a \<Rightarrow> out \<Rightarrow> 'b ingest) \<Rightarrow> 'b ingest" where
  "ing_bind m f = (case m of None \<Rightarrow> None | Some (Inl e) \<Rightarrow> Some (Inl e) | Some (Inr (r, s)) \<Rightarrow> f r s)"

definition of_sys :: "errno + 'a \<Rightarrow> out \<Rightarrow> 'a ingest" where
  "of_sys r s = Some (case r of Inl e \<Rightarrow> Inl (SysErr e) | Inr a \<Rightarrow> Inr (a, s))"

definition of_tree :: "(ps_err fs_err + 'a \<times> out) option \<Rightarrow> 'a ingest" where
  "of_tree r = map_option (map_sum TreeErr id) r"

definition of_obj :: "ps_err fs_err + object \<Rightarrow> out \<Rightarrow> object ingest" where
  "of_obj r s = Some (case r of Inl e \<Rightarrow> Inl (TreeErr e) | Inr obj \<Rightarrow> Inr (obj, s))"

text \<open>Emitting an object.\<close>

definition emit_obj :: "object \<Rightarrow> out \<Rightarrow> unit ingest" where
  "emit_obj obj s = Some (case out_emit s obj of Inl e \<Rightarrow> Inl (TreeErr (ErrEmit e)) | Inr s' \<Rightarrow> Inr ((), s'))"

text \<open>The callback of the chunker. Its error \<open>None\<close> is fuel that ran out; the state is the
  index builder, whether a chunk was seen, and the sink.\<close>

definition add_chunk :: "'p env \<Rightarrow> driver \<Rightarrow> nat \<Rightarrow> bytes \<Rightarrow> IndexBuilder \<Rightarrow> out \<Rightarrow> IndexBuilder ingest" where
  "add_chunk E D fuel chunk ib s =
     ing_bind (of_obj (EncodeBlob (en_H E) chunk) s) (\<lambda>obj s.
     ing_bind (emit_obj obj s) (\<lambda>_ s.
     of_tree (AddChild (en_C E) (en_H E) out_emit fuel ib (Obj_Key obj) [] s)))"

definition file_chunk :: "'p env \<Rightarrow> driver \<Rightarrow> nat \<Rightarrow> (IndexBuilder \<times> bool) \<times> out \<Rightarrow> bytes \<Rightarrow>
    in_err option + (IndexBuilder \<times> bool) \<times> out" where
  "file_chunk E D fuel st chunk =
     (case st of ((ib, saw), s) \<Rightarrow>
        (case add_chunk E D fuel chunk ib (addBytes D (length chunk) s) of
           None \<Rightarrow> Inl None
         | Some (Inl e) \<Rightarrow> Inl (Some e)
         | Some (Inr (ib', s')) \<Rightarrow> Inr ((ib', True), s')))"

primrec next_err :: "('e \<Rightarrow> 'f) \<Rightarrow> 'e next_result \<Rightarrow> 'f next_result" where
  "next_err f (NextChunk b) = NextChunk b"
| "next_err f (NextEOF b) = NextEOF b"
| "next_err f (NextErr b e) = NextErr b (f e)"

text \<open>After the chunks: an empty file has one empty blob.\<close>

definition file_finish :: "'p env \<Rightarrow> driver \<Rightarrow> nat \<Rightarrow> IndexBuilder \<Rightarrow> bool \<Rightarrow> out \<Rightarrow> key ingest" where
  "file_finish E D fuel ib saw s =
     ing_bind (if saw then Some (Inr (ib, s)) else add_chunk E D fuel [] ib s) (\<lambda>ib s.
     of_tree (Index_Finish (en_C E) (en_H E) out_emit fuel ib s))"

definition buildFile :: "'p env \<Rightarrow> driver \<Rightarrow> nat \<Rightarrow> src \<Rightarrow> path \<Rightarrow> out \<Rightarrow> key ingest" where
  "buildFile E D fuel S full s =
     (case sr_inode COpen S full of
        Inl e \<Rightarrow> Some (Inl (SysErr e))
      | Inr i \<Rightarrow>
          (let (text, bad) = (case in_body i of BReg b \<Rightarrow> (b, sr_deny S CRead full) | _ \<Rightarrow> ([], Some EIO)) in
           case SplitBytes (map (next_err (\<lambda>e. Some (ReadErr e))) (en_U E (dr_byteOpts D) text bad)) (file_chunk E D fuel)
                  ((NewFileIndexBuilder (dr_ic D), False), s) of
             None \<Rightarrow> None
           | Some (Inl None) \<Rightarrow> None
           | Some (Inl (Some e)) \<Rightarrow> Some (Inl e)
           | Some (Inr ((ib, saw), s)) \<Rightarrow> file_finish E D fuel ib saw s))"

definition S_IFREG :: u64 where "S_IFREG = 0x8000"
definition S_IFLNK :: u64 where "S_IFLNK = 0xA000"
definition S_IFCHR :: u64 where "S_IFCHR = 0x2000"
definition S_IFBLK :: u64 where "S_IFBLK = 0x6000"
definition S_IFIFO :: u64 where "S_IFIFO = 0x1000"
definition S_IFSOCK :: u64 where "S_IFSOCK = 0xC000"

record meta =
  me_Mode :: u64
  me_UID :: u64
  me_GID :: u64
  me_Mtime :: "64 word"

definition entryMeta :: "inode \<Rightarrow> meta" where
  "entryMeta i = \<lparr>me_Mode = st_mode i, me_UID = ucast (in_uid i), me_GID = ucast (in_gid i), me_Mtime = in_mtime i\<rparr>"

definition deviceNumbers :: "inode \<Rightarrow> u64 \<times> u64" where
  "deviceNumbers i = (case in_body i of BChr a b \<Rightarrow> (ucast a, ucast b) | BBlk a b \<Rightarrow> (ucast a, ucast b) | _ \<Rightarrow> (0, 0))"

type_synonym 'p dir_build = "path \<Rightarrow> 'p Matcher option \<Rightarrow> out \<Rightarrow> key ingest"

text \<open>The part of an entry that depends on its type.\<close>

definition entry_payload :: "'p env \<Rightarrow> driver \<Rightarrow> nat \<Rightarrow> src \<Rightarrow> 'p dir_build \<Rightarrow> path \<Rightarrow> bytes \<Rightarrow> 'p Matcher option \<Rightarrow>
    inode \<Rightarrow> Entry \<Rightarrow> out \<Rightarrow> Entry ingest" where
  "entry_payload E D fuel S bd full name ign i e s =
     (let fmt = me_Mode (entryMeta i) AND S_IFMT in
      if fmt = S_IFREG then
        ing_bind (buildFile E D fuel S full s) (\<lambda>ck s. Some (Inr (e\<lparr>Ent_ContentKey := ck\<rparr>, fileDone D s)))
      else if fmt = S_IFDIR then
        ing_bind (of_sys (Descend (en_G E) S ign full name) s) (\<lambda>sub s.
        ing_bind (bd full sub s) (\<lambda>ck s. Some (Inr (e\<lparr>Ent_ContentKey := ck\<rparr>, s))))
      else if fmt = S_IFLNK then
        ing_bind (of_sys (host_Readlink S full) s) (\<lambda>target s. Some (Inr (e\<lparr>Ent_LinkTarget := target\<rparr>, s)))
      else if fmt = S_IFCHR \<or> fmt = S_IFBLK then
        (let (major, minor) = deviceNumbers i in Some (Inr (e\<lparr>Ent_Rdev := [major, minor]\<rparr>, s)))
      else if fmt = S_IFIFO \<or> fmt = S_IFSOCK then Some (Inr (e, s))
      else Some (Inl (FileTypeErr full fmt)))"

definition entry_xattrs :: "'p env \<Rightarrow> driver \<Rightarrow> src \<Rightarrow> path \<Rightarrow> inode \<Rightarrow> Entry \<Rightarrow> out \<Rightarrow> Entry ingest" where
  "entry_xattrs E D S full i e s =
     (if me_Mode (entryMeta i) AND S_IFMT = S_IFLNK then Some (Inr (e, s))
      else
        ing_bind (of_sys (readXattrs S full) s) (\<lambda>xattrs s.
          if length xattrs = 0 then Some (Inr (e, s))
          else let enc = EncodeXattrs xattrs in
            if int (length enc) \<le> dr_xattrInlineMax D then Some (Inr (e\<lparr>Ent_XattrsIn := enc\<rparr>, s))
            else
              ing_bind (of_obj (EncodeXattrSet (en_H E) xattrs) s) (\<lambda>obj s.
              ing_bind (emit_obj obj s) (\<lambda>_ s. Some (Inr (e\<lparr>Ent_XattrsKey := Obj_Key obj\<rparr>, s))))))"

definition buildEntry :: "'p env \<Rightarrow> driver \<Rightarrow> nat \<Rightarrow> src \<Rightarrow> 'p dir_build \<Rightarrow> path \<Rightarrow> bytes \<Rightarrow> 'p Matcher option \<Rightarrow>
    out \<Rightarrow> Entry ingest" where
  "buildEntry E D fuel S bd full name ign s =
     ing_bind (of_sys (sr_inode CLstat S full) s) (\<lambda>i s.
       let m = entryMeta i;
           e = \<lparr>Ent_Name = name, Ent_Mode = me_Mode m, Ent_UID = me_UID m, Ent_GID = me_GID m, Ent_Mtime = me_Mtime m,
                Ent_ContentKey = [], Ent_LinkTarget = [], Ent_Rdev = [], Ent_XattrsIn = [], Ent_XattrsKey = []\<rparr>
       in ing_bind (entry_payload E D fuel S bd full name ign i e s) (\<lambda>e s. entry_xattrs E D S full i e s))"

text \<open>The walk of one directory, one entry after the other.\<close>

primrec dir_entries :: "'p env \<Rightarrow> driver \<Rightarrow> nat \<Rightarrow> src \<Rightarrow> 'p dir_build \<Rightarrow> path \<Rightarrow> 'p Matcher option \<Rightarrow>
    (bytes \<times> bool) list \<Rightarrow> DirBuilder \<Rightarrow> out \<Rightarrow> DirBuilder ingest" where
  "dir_entries E D fuel S bd path ign [] db s = Some (Inr (db, s))"
| "dir_entries E D fuel S bd path ign (de # ents) db s =
     (if Ignored (en_G E) ign (fst de) (snd de) then dir_entries E D fuel S bd path ign ents db s
      else
        ing_bind (buildEntry E D fuel S bd (path @ [fst de]) (fst de) ign s) (\<lambda>e s.
        ing_bind (of_tree (AddEntry (en_C E) (en_H E) out_emit fuel db e s)) (\<lambda>db s.
        dir_entries E D fuel S bd path ign ents db s)))"

primrec buildDir :: "'p env \<Rightarrow> driver \<Rightarrow> nat \<Rightarrow> src \<Rightarrow> nat \<Rightarrow> path \<Rightarrow> 'p Matcher option \<Rightarrow> out \<Rightarrow> key ingest" where
  "buildDir E D fuel S 0 path ign s = None"
| "buildDir E D fuel S (Suc depth) path ign s =
     ing_bind (of_sys (host_ReadDir S path) s) (\<lambda>ents s.
     ing_bind (dir_entries E D fuel S (buildDir E D fuel S depth) path ign ents (NewDirBuilder (dr_ic D)) s) (\<lambda>db s.
     of_tree (Dir_Finish (en_C E) (en_H E) out_emit fuel db s)))"

section \<open>The parallel builder\<close>

text \<open>The sink's view of concurrent senders: at each step one list gives its head, the one the
  schedule names if it has any left; what the schedule leaves is taken in order.\<close>

fun interleave :: "nat list \<Rightarrow> 'a list list \<Rightarrow> 'a list" where
  "interleave [] ls = concat ls"
| "interleave (i # sched) ls =
     (if i < length ls \<and> ls ! i \<noteq> [] then hd (ls ! i) # interleave sched (ls[i := tl (ls ! i)]) else interleave sched ls)"

text \<open>The sink after the children: their objects interleaved, their progress added up.\<close>

definition join_outs :: "nat list \<Rightarrow> out \<Rightarrow> out list \<Rightarrow> out" where
  "join_outs sched s outs =
     \<lparr>o_objs = o_objs s @ interleave sched (map o_objs outs), o_files = o_files s + sum_list (map o_files outs),
      o_bytes = o_bytes s + sum_list (map o_bytes outs)\<rparr>"

text \<open>The children's results in entry order, each built on an empty sink, and then the
  directory's own loop: the first error of an entry or of the directory's own encoders ends it.\<close>

primrec add_results :: "'p env \<Rightarrow> nat \<Rightarrow> Entry ingest list \<Rightarrow> DirBuilder \<Rightarrow> out \<Rightarrow> DirBuilder ingest" where
  "add_results E fuel [] db s = Some (Inr (db, s))"
| "add_results E fuel (r # rs) db s =
     ing_bind r (\<lambda>e _.
     ing_bind (of_tree (AddEntry (en_C E) (en_H E) out_emit fuel db e s)) (\<lambda>db s. add_results E fuel rs db s))"

definition result_out :: "Entry ingest \<Rightarrow> out" where
  "result_out r = (case r of Some (Inr (e, s)) \<Rightarrow> s | _ \<Rightarrow> empty_out)"

primrec pbuildDir :: "'p env \<Rightarrow> driver \<Rightarrow> nat \<Rightarrow> src \<Rightarrow> (path \<Rightarrow> nat list) \<Rightarrow> nat \<Rightarrow> path \<Rightarrow> 'p Matcher option \<Rightarrow> out \<Rightarrow> key ingest" where
  "pbuildDir E D fuel S sched 0 path ign s = None"
| "pbuildDir E D fuel S sched (Suc depth) path ign s =
     ing_bind (of_sys (host_ReadDir S path) s) (\<lambda>ents s.
       let kept = filter (\<lambda>de. \<not> Ignored (en_G E) ign (fst de) (snd de)) ents;
           rs = map (\<lambda>de. buildEntry E D fuel S (pbuildDir E D fuel S sched depth) (path @ [fst de]) (fst de) ign empty_out) kept
       in ing_bind (add_results E fuel rs (NewDirBuilder (dr_ic D)) (join_outs (sched path) s (map result_out rs))) (\<lambda>db s.
          of_tree (Dir_Finish (en_C E) (en_H E) out_emit fuel db s)))"

section \<open>The entry points\<close>

definition DefaultItemBits :: nat where "DefaultItemBits = 7"
definition DefaultXattrInlineMax :: int where "DefaultXattrInlineMax = 256"

record ChunkOpts =
  co_Byte :: "ByteOpts option"
  co_ItemBits :: nat
  co_XattrInlineMax :: int

record Opts =
  op_Jobs :: int
  op_Chunk :: ChunkOpts
  op_NoIgnore :: bool
  op_Progress :: bool

definition opts_driver :: "Opts \<Rightarrow> driver" where
  "opts_driver opts =
     (let bits = (if co_ItemBits (op_Chunk opts) = 0 then DefaultItemBits else co_ItemBits (op_Chunk opts));
          inlineMax = (if co_XattrInlineMax (op_Chunk opts) = 0 then DefaultXattrInlineMax else co_XattrInlineMax (op_Chunk opts))
      in \<lparr>dr_ic = NewItemChunker bits, dr_byteOpts = co_Byte (op_Chunk opts), dr_xattrInlineMax = inlineMax, dr_progress = op_Progress opts\<rparr>)"

text \<open>\<open>path\<close> is where the given path leads, links followed.\<close>

definition statPath :: "src \<Rightarrow> path \<Rightarrow> in_err + bool" where
  "statPath S path =
     (case sr_inode CStat S path of
        Inl e \<Rightarrow> Inl (SysErr e)
      | Inr i \<Rightarrow> (case in_body i of BDir \<Rightarrow> Inr True | BReg b \<Rightarrow> Inr False | _ \<Rightarrow> Inl (NeitherFileNorDir path)))"

definition buildRoot :: "'p env \<Rightarrow> driver \<Rightarrow> nat \<Rightarrow> src \<Rightarrow> (path \<Rightarrow> nat list) \<Rightarrow> nat \<Rightarrow> path \<Rightarrow> bool \<Rightarrow> 'p Matcher option \<Rightarrow> key ingest" where
  "buildRoot E D fuel S sched depth path isDir ign =
     (if isDir then pbuildDir E D fuel S sched depth path ign empty_out
      else ing_bind (buildFile E D fuel S path empty_out) (\<lambda>k s. Some (Inr (k, fileDone D s))))"

text \<open>The iterator: the consumer receives the objects and, if the build fails, some objects
  (\<open>before\<close>) and the error; the root is set when the build succeeds.\<close>

definition objects :: "object list \<Rightarrow> key ingest \<Rightarrow> ((in_err + object) list \<times> key option) option" where
  "objects before r =
     (case r of
        None \<Rightarrow> None
      | Some (Inl e) \<Rightarrow> Some (map Inr before @ [Inl e], None)
      | Some (Inr (rk, s)) \<Rightarrow> Some (map Inr (o_objs s), Some rk))"

definition Objects :: "'p env \<Rightarrow> nat \<Rightarrow> src \<Rightarrow> (path \<Rightarrow> nat list) \<Rightarrow> nat \<Rightarrow> object list \<Rightarrow> path \<Rightarrow> Opts \<Rightarrow>
    (in_err + (in_err + object) list \<times> key option) option" where
  "Objects E fuel S sched depth before path opts =
     (case statPath S path of
        Inl e \<Rightarrow> Some (Inl e)
      | Inr isDir \<Rightarrow>
          (case (if isDir \<and> \<not> op_NoIgnore opts then map_sum id Some (ig_Root (en_G E) S path) else Inr None) of
             Inl e \<Rightarrow> Some (Inl (SysErr e))
           | Inr ign \<Rightarrow> map_option Inr (objects before (buildRoot E (opts_driver opts) fuel S sched depth path isDir ign))))"

text \<open>\<open>Dir\<close> stores the stream. \<open>moves\<close> is the schedule of the parallel writer, and the text of
  a build error is not kept.\<close>

definition to_store :: "in_err + object \<Rightarrow> ps_err + psObject" where
  "to_store r = (case r of Inl e \<Rightarrow> Inl (SeqErr ''ingest'') | Inr obj \<Rightarrow> Inr \<lparr>ob_Key = Obj_Key obj, ob_Data = Some (Obj_Bytes obj), ob_Record = None\<rparr>)"

definition ingest_Dir :: "'p env \<Rightarrow> xorfilter \<Rightarrow> zstd \<Rightarrow> nat \<Rightarrow> nat \<Rightarrow> src \<Rightarrow> (path \<Rightarrow> nat list) \<Rightarrow> nat \<Rightarrow> object list \<Rightarrow> move list \<Rightarrow>
    path \<Rightarrow> Opts \<Rightarrow> store \<Rightarrow> ((in_err + ps_err + key option \<times> WriteStats) \<times> store) option" where
  "ingest_Dir E X Z procs fuel S sched depth before moves path opts st =
     (case Objects E fuel S sched depth before path opts of
        None \<Rightarrow> None
      | Some (Inl e) \<Rightarrow> Some (Inl e, st)
      | Some (Inr (seq, root)) \<Rightarrow>
          (case WriteParallel (en_H E) X Z procs moves (map to_store seq)
                  \<lparr>wo_Writers = op_Jobs opts, wo_BatchSize = 0, wo_Verify = False\<rparr> st of
             ((stats, Some e), st) \<Rightarrow> Some (Inr (Inl e), st)
           | ((stats, None), st) \<Rightarrow> Some (Inr (Inr (root, stats)), st)))"

section \<open>The pre-scan\<close>

text \<open>The walk adds up every regular file and collects the errors it meets; the first one the
  scanner keeps is any of them, as \<open>pick\<close> says.\<close>

record scanned =
  sn_files :: u64
  sn_bytes :: u64
  sn_errs :: "errno list"

definition no_scan :: scanned where
  "no_scan = \<lparr>sn_files = 0, sn_bytes = 0, sn_errs = []\<rparr>"

definition add_scan :: "scanned \<Rightarrow> scanned \<Rightarrow> scanned" where
  "add_scan a b = \<lparr>sn_files = sn_files a + sn_files b, sn_bytes = sn_bytes a + sn_bytes b, sn_errs = sn_errs a @ sn_errs b\<rparr>"

definition scan_err :: "errno \<Rightarrow> scanned" where
  "scan_err e = \<lparr>sn_files = 0, sn_bytes = 0, sn_errs = [e]\<rparr>"

definition scan_entry :: "'p gitignore \<Rightarrow> src \<Rightarrow> (path \<Rightarrow> 'p Matcher option \<Rightarrow> scanned option) \<Rightarrow> path \<Rightarrow> bytes \<Rightarrow>
    'p Matcher option \<Rightarrow> scanned option" where
  "scan_entry G S walk full name ign =
     (case sr_inode CLstat S full of
        Inl e \<Rightarrow> Some (scan_err e)
      | Inr i \<Rightarrow>
          (case in_body i of
             BDir \<Rightarrow> (case Descend G S ign full name of Inl e \<Rightarrow> Some (scan_err e) | Inr sub \<Rightarrow> walk full sub)
           | BReg b \<Rightarrow> Some \<lparr>sn_files = 1, sn_bytes = of_nat (length b), sn_errs = []\<rparr>
           | _ \<Rightarrow> Some no_scan))"

primrec scan_walk :: "'p gitignore \<Rightarrow> src \<Rightarrow> nat \<Rightarrow> path \<Rightarrow> 'p Matcher option \<Rightarrow> scanned option" where
  "scan_walk G S 0 dir ign = None"
| "scan_walk G S (Suc depth) dir ign =
     (case host_ReadDir S dir of
        Inl e \<Rightarrow> Some (scan_err e)
      | Inr ents \<Rightarrow>
          fold (\<lambda>de acc. if Ignored G ign (fst de) (snd de) then acc
                else case acc of None \<Rightarrow> None
                | Some a \<Rightarrow> map_option (add_scan a) (scan_entry G S (scan_walk G S depth) (dir @ [fst de]) (fst de) ign)) ents (Some no_scan))"

definition scanTree :: "'p gitignore \<Rightarrow> src \<Rightarrow> nat \<Rightarrow> nat \<Rightarrow> path \<Rightarrow> 'p Matcher option \<Rightarrow> (errno + u64 \<times> u64) option" where
  "scanTree G S depth pick dir ign =
     (case scan_walk G S depth dir ign of
        None \<Rightarrow> None
      | Some w \<Rightarrow> Some (if sn_errs w = [] then Inr (sn_files w, sn_bytes w) else Inl (sn_errs w ! (pick mod length (sn_errs w)))))"

definition Scan :: "'p gitignore \<Rightarrow> src \<Rightarrow> nat \<Rightarrow> nat \<Rightarrow> path \<Rightarrow> bool \<Rightarrow> (errno + u64 \<times> u64) option" where
  "Scan G S depth pick dir noIgnore =
     (if noIgnore then scanTree G S depth pick dir None
      else case ig_Root G S dir of Inl e \<Rightarrow> Some (Inl e) | Inr ign \<Rightarrow> scanTree G S depth pick dir (Some ign))"

end
