(* ===== verification/Amber_IngestRun.thy ===== *)
theory Amber_IngestRun
  imports Amber_Ingest
begin

text \<open>
  The parallel builder against the sequential one. A builder only appends to its sink, so what
  it emits does not depend on what the sink holds (locale \<open>sink\<close>, predicate \<open>writer\<close>); two runs
  agree (\<open>same\<close>) when they give the same result or error and, on success, the same objects up
  to order and the same progress.
\<close>

section \<open>Sinks that append\<close>

definition after :: "('s \<Rightarrow> object list \<Rightarrow> 's) \<Rightarrow> 's \<Rightarrow> ('e, object list, 'r) built \<Rightarrow> ('e, 's, 'r) built" where
  "after upd s = map_option (map_sum id (map_prod id (upd s)))"

lemma after_simps [simp]:
  "after upd s None = None" "after upd s (Some (Inl e)) = Some (Inl e)" "after upd s (Some (Inr (r, T))) = Some (Inr (r, upd s T))"
  by (simp_all add: after_def)

locale sink =
  fixes emit :: "('e, 's) emit" and upd :: "'s \<Rightarrow> object list \<Rightarrow> 's"
  assumes emit: "emit s obj = Inr (upd s [obj])"
    and upd_Nil: "upd s [] = s"
    and upd_append: "upd (upd s T) U = upd s (T @ U)"
begin

lemma emit_upd: "emit (upd s T) obj = Inr (upd s (T @ [obj]))"
  by (simp add: emit upd_append)

lemma add: "ib_add C H emit fuel ib l ck sep (upd s T) = after upd s (ib_add C H collect_emit fuel ib l ck sep T)"
proof (induction fuel arbitrary: ib l ck sep T)
  case (Suc fuel)
  show ?case
    by (auto simp: Let_def closeLevel_def emit_upd collect_emit_eq Suc split: sum.splits)
qed simp

lemma finish: "ib_finish C H emit afuel fuel ib l (upd s T) = after upd s (ib_finish C H collect_emit afuel fuel ib l T)"
proof (induction fuel arbitrary: ib l T)
  case (Suc fuel)
  have "(case after upd s r of None \<Rightarrow> None | Some (Inl e) \<Rightarrow> Some (Inl e) | Some (Inr (ib2, s2)) \<Rightarrow> ib_finish C H emit afuel fuel ib2 (l + 1) s2) =
      after upd s (case r of None \<Rightarrow> None | Some (Inl e) \<Rightarrow> Some (Inl e) | Some (Inr (ib2, s2)) \<Rightarrow> ib_finish C H collect_emit afuel fuel ib2 (l + 1) s2)" for r
    using Suc by (auto split: option.splits sum.splits)
  note step = this
  have "(collect_emit :: ('e, object list) emit) T obj = Inr (T @ [obj])" for obj by (rule collect_emit_eq)
  then show ?case by (auto simp: Let_def emit_upd add Suc step split: sum.split)
qed simp

lemma AddChild_upd: "AddChild C H emit fuel ib ck sep (upd s T) = after upd s (AddChild C H collect_emit fuel ib ck sep T)"
  by (simp add: AddChild_def add)

lemma Index_Finish_upd: "Index_Finish C H emit fuel ib (upd s T) = after upd s (Index_Finish C H collect_emit fuel ib T)"
  by (simp add: Index_Finish_def finish)

lemma closeLeaf_upd: "closeLeaf C H emit fuel db (upd s T) = after upd s (closeLeaf C H collect_emit fuel db T)"
  by (auto simp: closeLeaf_def Let_def emit_upd collect_emit_eq AddChild_upd split: sum.splits option.splits)

lemma AddEntry_upd: "AddEntry C H emit fuel db e (upd s T) = after upd s (AddEntry C H collect_emit fuel db e T)"
  by (auto simp: AddEntry_def Let_def closeLeaf_upd split: option.splits)

lemma Dir_Finish_upd: "Dir_Finish C H emit fuel db (upd s T) = after upd s (Dir_Finish C H collect_emit fuel db T)"
  by (auto simp: Dir_Finish_def closeLeaf_upd Index_Finish_upd split: sum.splits option.splits)

lemma add_chunks_upd: "add_chunks C H emit fuel ib cs (upd s T) = after upd s (add_chunks C H collect_emit fuel ib cs T)"
proof (induction cs arbitrary: ib T)
  case (Cons c cs)
  have "(collect_emit :: ('e, object list) emit) T obj = Inr (T @ [obj])" for obj by (rule collect_emit_eq)
  with Cons show ?case by (auto simp: emit_upd AddChild_upd split: sum.splits option.splits)
qed simp

lemma add_entries_upd: "add_entries C H emit fuel db es (upd s T) = after upd s (add_entries C H collect_emit fuel db es T)"
proof (induction es arbitrary: db T)
  case (Cons e es)
  then show ?case by (auto simp: AddEntry_upd split: sum.splits option.splits)
qed simp

lemmas from_empty = AddChild_upd [where T = "[]", unfolded upd_Nil] AddEntry_upd [where T = "[]", unfolded upd_Nil]
  Index_Finish_upd [where T = "[]", unfolded upd_Nil] Dir_Finish_upd [where T = "[]", unfolded upd_Nil]
  add_chunks_upd [where T = "[]", unfolded upd_Nil] add_entries_upd [where T = "[]", unfolded upd_Nil]

end

definition out_upd :: "out \<Rightarrow> object list \<Rightarrow> out" where
  "out_upd s T = s\<lparr>o_objs := o_objs s @ T\<rparr>"

interpretation out_sink: sink out_emit out_upd
  by unfold_locales (simp_all add: out_emit_def out_upd_def)

interpretation list_sink: sink collect_emit "(@)"
  by unfold_locales (simp_all add: collect_emit_def)

section \<open>Builders are writers\<close>

definition plus_out :: "out \<Rightarrow> out \<Rightarrow> out" where
  "plus_out s t = \<lparr>o_objs = o_objs s @ o_objs t, o_files = o_files s + o_files t, o_bytes = o_bytes s + o_bytes t\<rparr>"

definition ing_after :: "out \<Rightarrow> 'r ingest \<Rightarrow> 'r ingest" where
  "ing_after s = map_option (map_sum id (map_prod id (plus_out s)))"

lemma ing_after_simps [simp]:
  "ing_after s None = None" "ing_after s (Some (Inl e)) = Some (Inl e)" "ing_after s (Some (Inr (r, t))) = Some (Inr (r, plus_out s t))"
  by (simp_all add: ing_after_def)

lemma plus_out_simps [simp]:
  "plus_out s empty_out = s" "plus_out empty_out s = s" "plus_out (plus_out a b) c = plus_out a (plus_out b c)"
  "out_upd (plus_out s t) T = plus_out s (out_upd t T)"
  "fileDone D (plus_out s t) = plus_out s (fileDone D t)" "addBytes D n (plus_out s t) = plus_out s (addBytes D n t)"
  by (simp_all add: plus_out_def empty_out_def out_upd_def fileDone_def addBytes_def)

lemma ing_bind_simps [simp]:
  "ing_bind None f = None" "ing_bind (Some (Inl e)) f = Some (Inl e)" "ing_bind (Some (Inr (r, s))) f = f r s"
  by (simp_all add: ing_bind_def)

definition writer :: "(out \<Rightarrow> 'r ingest) \<Rightarrow> bool" where
  "writer m \<longleftrightarrow> (\<forall>s t. m (plus_out s t) = ing_after s (m t))"

named_theorems writers \<open>computations that only append to the sink\<close>

lemma writerD: "writer m \<Longrightarrow> m (plus_out s t) = ing_after s (m t)"
  by (simp add: writer_def)

lemma writer_from_empty: "writer m \<Longrightarrow> m s = ing_after s (m empty_out)"
  using writerD [of m s empty_out] by simp

lemma writer_return [writers]: "writer (\<lambda>s. Some (Inr (r, s)))" "writer (\<lambda>s. Some (Inl e))" "writer (\<lambda>s. None)"
  "writer (\<lambda>s. Some (Inr (r, fileDone D s)))"
  by (simp_all add: writer_def)

lemma writer_bind [writers]:
  assumes "writer m" and "\<And>a. writer (f a)"
  shows "writer (\<lambda>s. ing_bind (m s) (\<lambda>a s. f a s))"
proof -
  have "ing_bind (ing_after s r) f = ing_after s (ing_bind r f)" for s r
    using assms(2) by (auto simp: ing_bind_def writer_def split: option.splits sum.splits)
  then show ?thesis using assms(1) by (simp add: writer_def)
qed

lemma writer_if [writers]: "writer f \<Longrightarrow> writer g \<Longrightarrow> writer (\<lambda>s. if b then f s else g s)"
  by (cases b) simp_all

lemma writer_addBytes [writers]: "writer f \<Longrightarrow> writer (\<lambda>s. f (addBytes D n s))"
  by (simp add: writer_def)

lemma writer_calls [writers]:
  "writer (\<lambda>s. of_sys r s)" "writer (\<lambda>s. of_obj q s)" "writer (\<lambda>s. emit_obj obj s)"
  by (auto simp: writer_def of_sys_def of_obj_def emit_obj_def out_sink.emit split: sum.splits)

lemma of_tree_after: "of_tree (after out_upd (plus_out s t) r) = ing_after s (of_tree (after out_upd t r))"
  by (cases r; cases "the r") (auto simp: of_tree_def)

lemma writer_tree [writers]:
  "writer (\<lambda>s. of_tree (AddChild C H out_emit fuel ib ck sep s))" "writer (\<lambda>s. of_tree (AddEntry C H out_emit fuel db e s))"
  "writer (\<lambda>s. of_tree (Index_Finish C H out_emit fuel ib s))" "writer (\<lambda>s. of_tree (Dir_Finish C H out_emit fuel db s))"
  by (simp_all add: writer_def out_sink.from_empty of_tree_after)

lemma writer_add_chunk [writers]: "writer (\<lambda>s. add_chunk E D fuel chunk ib s)"
  unfolding add_chunk_def by (intro writers)

lemma split_writer:
  "SplitBytes rs (file_chunk E D fuel) (st, plus_out s t) =
     map_option (map_sum id (map_prod id (plus_out s))) (SplitBytes rs (file_chunk E D fuel) (st, t))"
proof -
  have ch: "file_chunk E D fuel (st, plus_out s t) chunk = map_sum id (map_prod id (plus_out s)) (file_chunk E D fuel (st, t) chunk)" for st t chunk
    using writerD [OF writer_addBytes [OF writer_add_chunk], of E D fuel chunk "fst st" D "length chunk" s t]
    by (auto simp: file_chunk_def split: prod.splits option.splits sum.splits)
  show ?thesis
  proof (induction rs arbitrary: st t)
    case (Cons r rs)
    then show ?case by (cases r) (auto simp: ch split: sum.split)
  qed simp
qed

lemma writer_buildFile [writers]: "writer (\<lambda>s. buildFile E D fuel S full s)"
proof (cases "sr_inode COpen S full")
  case (Inr i)
  have "writer (\<lambda>s. file_finish E D fuel ib saw s)" for ib saw
    unfolding file_finish_def by (intro writers)
  note w = writerD [OF this]
  show ?thesis
    by (auto simp: writer_def buildFile_def Inr Let_def split_writer w split: prod.split option.split sum.split bool.split)
qed (auto simp: writer_def buildFile_def)

lemma writer_entry_xattrs [writers]: "writer (\<lambda>s. entry_xattrs E D S full i e s)"
  unfolding entry_xattrs_def Let_def by (intro writers)

lemma writer_entry_payload [writers]:
  assumes "\<And>p ign. writer (bd p ign)"
  shows "writer (\<lambda>s. entry_payload E D fuel S bd full name ign i e s)"
  unfolding entry_payload_def Let_def case_prod_unfold by (intro writers assms)

lemma writer_buildEntry [writers]:
  assumes "\<And>p ign. writer (bd p ign)"
  shows "writer (\<lambda>s. buildEntry E D fuel S bd full name ign s)"
  unfolding buildEntry_def Let_def by (intro writers assms)

section \<open>Runs that agree\<close>

definition bag :: "out \<Rightarrow> object multiset \<times> u64 \<times> u64" where
  "bag s = (mset (o_objs s), o_files s, o_bytes s)"

definition same :: "'r ingest \<Rightarrow> 'r ingest \<Rightarrow> bool" where
  "same = rel_option (rel_sum (=) (\<lambda>(a, s) (b, t). a = b \<and> bag s = bag t))"

lemma same_refl [simp]: "same r r"
  by (simp add: same_def option.rel_refl sum.rel_refl case_prod_unfold)

lemma same_trans: "same a b \<Longrightarrow> same b c \<Longrightarrow> same a c"
  unfolding same_def by (auto simp: option_rel_Some1 option_rel_Some2 split: option.splits elim!: option.rel_cases rel_sum.cases)

lemma same_bind:
  assumes "same m m'" and "\<And>a s t. bag s = bag t \<Longrightarrow> same (f a s) (g a t)"
  shows "same (ing_bind m f) (ing_bind m' g)"
  using assms by (auto simp: same_def elim!: option.rel_cases rel_sum.cases)

lemma bag_plus: "bag s = bag t \<Longrightarrow> bag (plus_out s u) = bag (plus_out t u)"
  by (simp add: bag_def plus_out_def)

lemma same_writer: "writer m \<Longrightarrow> bag s = bag t \<Longrightarrow> same (m s) (m t)"
  using writer_from_empty [of m s] writer_from_empty [of m t] bag_plus [of s t]
  by (cases "m empty_out"; cases "the (m empty_out)") (auto simp: same_def)

lemma same_bind_writer:
  assumes "same m m'" and "\<And>a. writer (g a)" and "\<And>a s. same (f a s) (g a s)"
  shows "same (ing_bind m f) (ing_bind m' g)"
  using same_bind [OF assms(1), of f g] same_trans [OF assms(3) same_writer [OF assms(2)]] by blast

lemma same_buildEntry:
  assumes "\<And>p ign. writer (bd' p ign)" and "\<And>p ign s. same (bd p ign s) (bd' p ign s)"
  shows "same (buildEntry E D fuel S bd full name ign s) (buildEntry E D fuel S bd' full name ign s)"
proof -
  have "same (entry_payload E D fuel S bd full name ign i e s) (entry_payload E D fuel S bd' full name ign i e s)" for i e s
    unfolding entry_payload_def Let_def
    by (auto intro!: same_bind_writer assms(2) writers assms(1))
  then show ?thesis unfolding buildEntry_def Let_def
    by (intro same_bind_writer same_refl writers assms(1))
qed

section \<open>The order in which a sink receives objects\<close>

lemma mset_interleave: "mset (interleave sched ls) = sum_list (map mset ls)"
proof (induction sched ls rule: interleave.induct)
  case (1 ls)
  then show ?case by (simp add: mset_concat)
next
  case (2 i sched ls)
  show ?case
  proof (cases "i < length ls \<and> ls ! i \<noteq> []")
    case True
    then have i: "i < length ls" and ne: "ls ! i \<noteq> []" by simp_all
    have "sum_list (map mset ls) = sum_list (map mset (take i ls)) + mset (ls ! i) + sum_list (map mset (drop (Suc i) ls))"
      by (subst id_take_nth_drop [OF i]) simp
    moreover have "sum_list (map mset (ls[i := tl (ls ! i)])) =
        sum_list (map mset (take i ls)) + mset (tl (ls ! i)) + sum_list (map mset (drop (Suc i) ls))"
      by (subst upd_conv_take_nth_drop [OF i]) simp
    moreover have "mset (ls ! i) = add_mset (hd (ls ! i)) (mset (tl (ls ! i)))"
      using ne by (metis list.collapse mset.simps(2))
    ultimately show ?thesis using True 2(1) by simp
  next
    case False
    then have "interleave (i # sched) ls = interleave sched ls" by auto
    then show ?thesis using 2(2) [OF False] by simp
  qed
qed

text \<open>A sink that already holds what the remaining children emit.\<close>

definition ahead :: "out \<Rightarrow> out \<Rightarrow> out list \<Rightarrow> bool" where
  "ahead s s' outs \<longleftrightarrow> mset (o_objs s') = mset (o_objs s) + sum_list (map (mset \<circ> o_objs) outs) \<and>
     o_files s' = o_files s + sum_list (map o_files outs) \<and> o_bytes s' = o_bytes s + sum_list (map o_bytes outs)"

lemma ahead_join: "ahead s (join_outs sched s outs) outs"
  by (simp add: ahead_def join_outs_def mset_interleave map_map [symmetric] del: map_map)

lemma ahead_step:
  assumes "ahead s s' (t # outs)" and "bag s1 = bag (plus_out s t)"
  shows "ahead (out_upd s1 T) (out_upd s' T) outs"
  using assms by (auto simp: ahead_def bag_def plus_out_def out_upd_def ac_simps)

section \<open>The two builders\<close>

lemma loops_agree:
  assumes w: "\<And>p ign. writer (bd' p ign)" and bd: "\<And>p ign s. same (bd p ign s) (bd' p ign s)"
    and "ahead s s' (map (\<lambda>de. result_out (buildEntry E D fuel S bd' (path @ [fst de]) (fst de) ign empty_out))
          (filter (\<lambda>de. \<not> Ignored (en_G E) ign (fst de) (snd de)) ents))"
  shows "same (dir_entries E D fuel S bd path ign ents db s)
     (add_results E fuel (map (\<lambda>de. buildEntry E D fuel S bd' (path @ [fst de]) (fst de) ign empty_out)
        (filter (\<lambda>de. \<not> Ignored (en_G E) ign (fst de) (snd de)) ents)) db s')"
  using assms(3)
proof (induction ents arbitrary: db s s')
  case Nil
  then show ?case by (simp add: ahead_def same_def bag_def)
next
  case (Cons de ents)
  show ?case
  proof (cases "Ignored (en_G E) ign (fst de) (snd de)")
    case False
    let ?b = "\<lambda>bd s. buildEntry E D fuel S bd (path @ [fst de]) (fst de) ign s"
    have wr: "?b bd' s = ing_after s (?b bd' empty_out)" by (rule writer_from_empty [OF writer_buildEntry [OF w]])
    have sm: "same (?b bd s) (ing_after s (?b bd' empty_out))" unfolding wr [symmetric] by (rule same_buildEntry [OF w bd])
    show ?thesis
    proof (cases "?b bd' empty_out")
      case None
      then have "?b bd s = None" using sm by (simp add: same_def)
      then show ?thesis using None False by simp
    next
      case (Some r)
      note r = this
      show ?thesis
      proof (cases r)
        case (Inl err)
        then have "?b bd s = Some (Inl err)" using sm r by (auto simp: same_def option_rel_Some2 elim: rel_sum.cases)
        then show ?thesis using r Inl False by simp
      next
        case (Inr et)
        obtain e t where et: "et = (e, t)" by force
        obtain s1 where s1: "?b bd s = Some (Inr (e, s1))" "bag s1 = bag (plus_out s t)"
          using sm r Inr et by (auto simp: same_def option_rel_Some2 elim!: rel_sum.cases)
        have ah: "ahead (out_upd s1 T) (out_upd s' T) (map (\<lambda>de. result_out (buildEntry E D fuel S bd' (path @ [fst de]) (fst de) ign empty_out))
            (filter (\<lambda>de. \<not> Ignored (en_G E) ign (fst de) (snd de)) ents))" for T
          using Cons.prems False r Inr et by (intro ahead_step [OF _ s1(2)]) (simp add: result_out_def)
        have "same (ing_bind (of_tree (after out_upd s1 q)) (\<lambda>db s. dir_entries E D fuel S bd path ign ents db s))
          (ing_bind (of_tree (after out_upd s' q)) (\<lambda>db s. add_results E fuel (map (\<lambda>de. buildEntry E D fuel S bd' (path @ [fst de]) (fst de) ign empty_out)
            (filter (\<lambda>de. \<not> Ignored (en_G E) ign (fst de) (snd de)) ents)) db s))" for q
          using Cons.IH [OF ah] by (cases q; cases "the q") (auto simp: of_tree_def)
        then show ?thesis using False r Inr et s1 by (simp add: out_sink.from_empty)
      qed
    qed
  qed (use Cons in simp)
qed

lemma writer_add_results [writers]: "writer (\<lambda>s. add_results E fuel rs db s)"
proof (induction rs arbitrary: db)
  case (Cons r rs)
  have "writer (\<lambda>s. ing_bind r (\<lambda>e _. ing_bind (of_tree (AddEntry (en_C E) (en_H E) out_emit fuel db e s)) (\<lambda>db s. add_results E fuel rs db s)))"
  proof (cases r)
    case (Some q)
    then show ?thesis by (cases q) (auto intro!: writers Cons)
  qed (simp add: writer_return)
  then show ?case by simp
qed (simp add: writer_def)

lemma join_outs_plus: "join_outs sched (plus_out s t) outs = plus_out s (join_outs sched t outs)"
  by (simp add: join_outs_def plus_out_def)

lemma writer_pbuildDir [writers]: "writer (\<lambda>s. pbuildDir E D fuel S sched depth path ign s)"
proof (cases depth)
  case (Suc d)
  have "writer (\<lambda>s. add_results E fuel rs db (join_outs sch s outs))" for rs db sch outs
    using writer_add_results [of E fuel rs db] by (simp add: writer_def join_outs_plus)
  then show ?thesis by (auto simp: Suc Let_def intro!: writers)
qed (simp add: writer_return)

lemma builders_agree: "same (buildDir E D fuel S depth path ign s) (pbuildDir E D fuel S sched depth path ign s)"
proof (induction depth arbitrary: path ign s)
  case (Suc depth)
  let ?w = "\<lambda>ents s. ing_bind (add_results E fuel
      (map (\<lambda>de. buildEntry E D fuel S (pbuildDir E D fuel S sched depth) (path @ [fst de]) (fst de) ign empty_out)
        (filter (\<lambda>de. \<not> Ignored (en_G E) ign (fst de) (snd de)) ents)) (NewDirBuilder (dr_ic D))
      (join_outs (sched path) s (map result_out
        (map (\<lambda>de. buildEntry E D fuel S (pbuildDir E D fuel S sched depth) (path @ [fst de]) (fst de) ign empty_out)
        (filter (\<lambda>de. \<not> Ignored (en_G E) ign (fst de) (snd de)) ents)))))
      (\<lambda>db s. of_tree (Dir_Finish (en_C E) (en_H E) out_emit fuel db s))"
  have loop: "same (ing_bind (dir_entries E D fuel S (buildDir E D fuel S depth) path ign ents (NewDirBuilder (dr_ic D)) s)
      (\<lambda>db s. of_tree (Dir_Finish (en_C E) (en_H E) out_emit fuel db s))) (?w ents s)" for ents s
  proof (rule same_bind_writer)
    show "same (dir_entries E D fuel S (buildDir E D fuel S depth) path ign ents (NewDirBuilder (dr_ic D)) s)
      (add_results E fuel
      (map (\<lambda>de. buildEntry E D fuel S (pbuildDir E D fuel S sched depth) (path @ [fst de]) (fst de) ign empty_out)
        (filter (\<lambda>de. \<not> Ignored (en_G E) ign (fst de) (snd de)) ents)) (NewDirBuilder (dr_ic D))
      (join_outs (sched path) s (map result_out
        (map (\<lambda>de. buildEntry E D fuel S (pbuildDir E D fuel S sched depth) (path @ [fst de]) (fst de) ign empty_out)
        (filter (\<lambda>de. \<not> Ignored (en_G E) ign (fst de) (snd de)) ents)))))"
      by (rule loops_agree [OF writer_pbuildDir Suc]) (simp add: ahead_join o_def)
  qed (auto intro: writers)
  show ?case unfolding buildDir.simps pbuildDir.simps Let_def
    by (cases "host_ReadDir S path") (auto simp: of_sys_def simp del: map_map intro: loop)
qed simp

section \<open>Properties\<close>

text \<open>C12: the parallel builder is the sequential one: for every order in which its workers reach
  the sink, it returns the same root key, or the same error, and when it succeeds it has emitted
  the same objects, counted with their repetitions, and the same progress.\<close>

theorem ingest_deterministic:
  "same (buildDir E D fuel S depth path ign s) (pbuildDir E D fuel S sched depth path ign s)"
  by (rule builders_agree)

end
