(* ===== verification/Amber_IngestTree.thy ===== *)
theory Amber_IngestTree
  imports Amber_IngestRun
begin

text \<open>
  What an ingest builds. A tree is an inode with its named children; \<open>lies\<close> relates it to a
  file system, \<open>visible\<close> removes what the ignore files exclude, and \<open>ent_shows\<close> says that a
  directory entry denotes a named tree under a \<open>get\<close>. On a readable source the builders
  succeed with enough fuel, and their root denotes the visible tree.
\<close>

abbreviation has_objs :: "(key \<Rightarrow> 'e + bytes) \<Rightarrow> object list \<Rightarrow> bool" where
  "has_objs \<equiv> Amber_Build.holds"

section \<open>Trees\<close>

datatype tree = Tree (tr_inode: inode) (tr_kids: "(bytes \<times> tree) list")

abbreviation tr_body :: "tree \<Rightarrow> body" where
  "tr_body t \<equiv> in_body (tr_inode t)"

fun lies :: "fs \<Rightarrow> path \<Rightarrow> tree \<Rightarrow> bool" where
  "lies fs p (Tree i kids) \<longleftrightarrow> map_of fs p = Some i \<and> map fst kids = names_in fs p \<and>
     (\<forall>(n, t) \<in> set kids. lies fs (p @ [n]) t)"

fun height :: "tree \<Rightarrow> nat" where
  "height (Tree i kids) = Suc (Max (insert 0 ((\<lambda>(n, t). height t) ` set kids)))"

lemma height_kid: "(n, t) \<in> set (tr_kids u) \<Longrightarrow> height t < height u"
  by (cases u) (auto simp: less_Suc_eq_le intro!: Max_ge)

definition matcher_at :: "'p gitignore \<Rightarrow> src \<Rightarrow> path \<Rightarrow> 'p Matcher option \<Rightarrow> bytes \<Rightarrow> 'p Matcher option" where
  "matcher_at G S p ign n = (case Descend G S ign (p @ [n]) n of Inr m \<Rightarrow> m | Inl _ \<Rightarrow> None)"

definition kept :: "'p gitignore \<Rightarrow> 'p Matcher option \<Rightarrow> bytes \<times> tree \<Rightarrow> bool" where
  "kept G ign = (\<lambda>(n, t). \<not> Ignored G ign n (tr_body t = BDir))"

text \<open>\<open>ign\<close> is the matcher of the directory the tree is.\<close>

fun visible :: "'p gitignore \<Rightarrow> src \<Rightarrow> path \<Rightarrow> 'p Matcher option \<Rightarrow> tree \<Rightarrow> tree" where
  "visible G S p ign (Tree i kids) =
     Tree i (map (\<lambda>(n, t). (n, visible G S (p @ [n]) (matcher_at G S p ign n) t)) (filter (kept G ign) kids))"

lemma tr_inode_visible [simp]: "tr_inode (visible G S p ign t) = tr_inode t"
  by (cases t) simp

lemma tr_kids_visible: "tr_kids (visible G S p ign t) =
    map (\<lambda>(n, t). (n, visible G S (p @ [n]) (matcher_at G S p ign n) t)) (filter (kept G ign) (tr_kids t))"
  by (cases t) simp

section \<open>Readable sources\<close>

definition xattrs_ok :: "(bytes \<times> bytes) list \<Rightarrow> bool" where
  "xattrs_ok m \<longleftrightarrow> distinct (map fst m) \<and> (\<forall>(n, v) \<in> set m. n \<noteq> [] \<and> 0 \<notin> set n \<and> length n < 2 ^ 64 \<and> length v < 2 ^ 64) \<and>
     length (EncodeXattrs m) < 2 ^ 64"

definition src_ok :: "src \<Rightarrow> bool" where
  "src_ok S \<longleftrightarrow> wf_fs (sr_fs S) \<and> (\<forall>c p. sr_deny S c p = None) \<and>
     (\<forall>p i. map_of (sr_fs S) p = Some i \<longrightarrow> in_body i \<noteq> BOdd \<and> xattrs_ok (in_xattrs i))"

definition ignores_ok :: "src \<Rightarrow> bool" where
  "ignores_ok S \<longleftrightarrow> (\<forall>p e. is_dir (sr_fs S) p \<and> host_ReadFile S p FileName = Inl e \<longrightarrow> e = ENOENT)"

text \<open>The chunker cuts a file without losing a byte.\<close>

definition chunks_ok :: "(ByteOpts option \<Rightarrow> bytes \<Rightarrow> errno option \<Rightarrow> errno next_result list) \<Rightarrow> bool" where
  "chunks_ok U \<longleftrightarrow> (\<forall>opts b. \<exists>cs c. U opts b None = map NextChunk cs @ [NextEOF c] \<and> concat cs @ c = b)"

lemma src_okD:
  assumes "src_ok S"
  shows "sr_deny S c p = None" "sr_inode c S p = (case map_of (sr_fs S) p of None \<Rightarrow> Inl ENOENT | Some i \<Rightarrow> Inr i)"
    "map_of (sr_fs S) p = Some i \<Longrightarrow> in_body i \<noteq> BOdd" "map_of (sr_fs S) p = Some i \<Longrightarrow> xattrs_ok (in_xattrs i)" "wf_fs (sr_fs S)"
  using assms by (auto simp: src_ok_def sr_inode_def)

lemma Descend_ok:
  assumes "ign = None \<or> ignores_ok S" and "is_dir (sr_fs S) (p @ [n])"
  shows "Descend G S ign (p @ [n]) n = Inr (matcher_at G S p ign n)"
proof (cases ign)
  case (Some m)
  have "\<exists>r. ig_load G S (p @ [n]) (ig_rel m @ [n]) ign = Inr r"
  proof (cases "host_ReadFile S (p @ [n]) FileName")
    case (Inl e)
    then have "e = ENOENT" using assms Some unfolding ignores_ok_def by blast
    then show ?thesis using Inl Some by (simp add: ig_load_def)
  qed (simp add: ig_load_def Let_def)
  then show ?thesis using Some by (auto simp: matcher_at_def Descend_def)
qed (simp add: matcher_at_def Descend_def)

section \<open>Reading attributes\<close>

lemma split_at_part: "d \<notin> set n \<Longrightarrow> split_at d (n @ d # rest) = n # split_at d rest"
  by (induction n) auto

lemma names_split: "\<forall>(n, v) \<in> set m. n \<noteq> [] \<and> 0 \<notin> set n \<Longrightarrow> splitXattrNames (concat (map (\<lambda>(n, v). n @ [0]) m)) = map fst m"
  by (induction m) (auto simp: splitXattrNames_def split_at_part)

lemma update_fresh: "k \<notin> fst ` set m \<Longrightarrow> AList.update k v m = m @ [(k, v)]"
  by (induction m) auto

lemma read_values_all:
  assumes "\<And>n v. (n, v) \<in> set m \<Longrightarrow> get n 0 = Inr (length v, []) \<and> get n (length v) = Inr (length v, v)"
    and "distinct (map fst (m0 @ m))"
  shows "read_values get (map fst m) m0 = Inr (m0 @ m)"
  using assms
proof (induction m arbitrary: m0)
  case (Cons nv m)
  obtain n v where nv: "nv = (n, v)" by force
  have "get n 0 = Inr (length v, [])" "get n (length v) = Inr (length v, v)" using Cons.prems(1) [of n v] nv by auto
  moreover have "AList.update n v m0 = m0 @ [(n, v)]" using Cons.prems(2) nv by (intro update_fresh) auto
  moreover have "read_values get (map fst m) (m0 @ [(n, v)]) = Inr ((m0 @ [(n, v)]) @ m)"
    using Cons.prems nv by (intro Cons.IH) auto
  ultimately show ?case by (simp add: nv)
qed simp

lemma readXattrs_ok:
  assumes "src_ok S" and i: "map_of (sr_fs S) p = Some i"
  shows "readXattrs S p = Inr (in_xattrs i)"
proof -
  let ?m = "in_xattrs i" and ?names = "concat (map (\<lambda>(name, v). name @ [0]) (in_xattrs i))"
  note x = src_okD(4) [OF assms, unfolded xattrs_ok_def]
  have sr: "sr_inode c S p = Inr i" for c using src_okD(2) [OF assms(1)] i by simp
  have l: "Llistxattr S p n = fill_buffer n ?names" for n by (simp add: Llistxattr_def sr)
  have g: "Lgetxattr S p n 0 = Inr (length v, []) \<and> Lgetxattr S p n (length v) = Inr (length v, v)" if "(n, v) \<in> set ?m" for n v
    using that x by (auto simp: Lgetxattr_def sr fill_buffer_def)
  show ?thesis
  proof (cases "?m = []")
    case True
    then show ?thesis by (simp add: readXattrs_def readXattrsWith_def l fill_buffer_def)
  next
    case False
    then have ne: "?names \<noteq> []" by (cases ?m) auto
    have "splitXattrNames ?names = map fst ?m" using x by (intro names_split) auto
    then have "readAllXattrs ?names (Lgetxattr S p) = Inr ?m"
      using read_values_all [of ?m "Lgetxattr S p" "[]"] g x False by (simp add: readAllXattrs_def)
    then show ?thesis using ne
      by (auto simp: readXattrs_def readXattrsWith_def l fill_buffer_def simp del: concat_eq_Nil_conv)
  qed
qed

section \<open>What an entry denotes\<close>

definition shows_xattrs :: "(key \<Rightarrow> 'e + bytes) \<Rightarrow> Entry \<Rightarrow> inode \<Rightarrow> bool" where
  "shows_xattrs get e i \<longleftrightarrow>
     (if in_xattrs i = [] \<or> (\<exists>t. in_body i = BLnk t) then Ent_XattrsIn e = [] \<and> Ent_XattrsKey e = []
      else (Ent_XattrsIn e \<noteq> [] \<and> DecodeXattrs (Ent_XattrsIn e) = Inr (map_of (in_xattrs i))) \<or>
        (Ent_XattrsIn e = [] \<and> canonical (Ent_XattrsKey e) \<and>
           (\<exists>b. get (Ent_XattrsKey e) = Inr b \<and> DecodeXattrs b = Inr (map_of (in_xattrs i)))))"

definition ent_head :: "(key \<Rightarrow> 'e + bytes) \<Rightarrow> Entry \<Rightarrow> bytes \<Rightarrow> inode \<Rightarrow> bool" where
  "ent_head get e n i \<longleftrightarrow> Ent_Name e = n \<and> Ent_Mode e = st_mode i \<and> Ent_UID e = ucast (in_uid i) \<and> Ent_GID e = ucast (in_gid i) \<and>
     Ent_Mtime e = in_mtime i \<and> shows_xattrs get e i"

inductive ent_shows :: "cbor \<Rightarrow> (key \<Rightarrow> 'e + bytes) \<Rightarrow> Entry \<Rightarrow> bytes \<times> tree \<Rightarrow> bool"
  for C :: cbor and get :: "key \<Rightarrow> 'e + bytes" where
  reg: "ent_head get e n i \<Longrightarrow> in_body i = BReg b \<Longrightarrow> canonical (Ent_ContentKey e) \<Longrightarrow>
    file_tree C get h (Ent_ContentKey e) b \<Longrightarrow> Key_Length (Ent_ContentKey e) = of_nat (length b) \<Longrightarrow> ent_shows C get e (n, Tree i [])"
| dir: "ent_head get e n i \<Longrightarrow> in_body i = BDir \<Longrightarrow> canonical (Ent_ContentKey e) \<Longrightarrow>
    dir_tree C get h (Ent_ContentKey e) es \<Longrightarrow> list_all2 (ent_shows C get) es kids \<Longrightarrow> ent_shows C get e (n, Tree i kids)"
| lnk: "ent_head get e n i \<Longrightarrow> in_body i = BLnk t \<Longrightarrow> Ent_LinkTarget e = t \<Longrightarrow> ent_shows C get e (n, Tree i [])"
| dev: "ent_head get e n i \<Longrightarrow> in_body i = BChr a b \<or> in_body i = BBlk a b \<Longrightarrow> Ent_Rdev e = [ucast a, ucast b] \<Longrightarrow>
    ent_shows C get e (n, Tree i [])"
| plain: "ent_head get e n i \<Longrightarrow> in_body i = BFifo \<or> in_body i = BSock \<Longrightarrow> ent_shows C get e (n, Tree i [])"

definition dir_shows :: "cbor \<Rightarrow> (key \<Rightarrow> 'e + bytes) \<Rightarrow> key \<Rightarrow> (bytes \<times> tree) list \<Rightarrow> bool" where
  "dir_shows C get k kids \<longleftrightarrow> (\<exists>h es. dir_tree C get h k es \<and> list_all2 (ent_shows C get) es kids)"

lemma ent_shows_dir:
  "ent_head get e n i \<Longrightarrow> in_body i = BDir \<Longrightarrow> canonical (Ent_ContentKey e) \<Longrightarrow> dir_shows C get (Ent_ContentKey e) kids \<Longrightarrow>
     ent_shows C get e (n, Tree i kids)"
  unfolding dir_shows_def using ent_shows.dir by blast

section \<open>Files\<close>

lemma addBytes_simps [simp]:
  "addBytes D 0 s = s" "addBytes D m (addBytes D n s) = addBytes D (n + m) s"
  "addBytes D n (out_upd s T) = out_upd (addBytes D n s) T" "out_upd s [] = s" "out_upd (out_upd s T) U = out_upd s (T @ U)"
  by (simp_all add: addBytes_def out_upd_def)

text \<open>The chunker's callback is the loop \<open>add_chunks\<close> of the index builder.\<close>

definition real_chunks :: "bytes list \<Rightarrow> bytes list" where
  "real_chunks cs = filter (\<lambda>c. c \<noteq> []) cs"

lemma concat_real_chunks [simp]: "concat (real_chunks cs) = concat cs"
  by (induction cs) (auto simp: real_chunks_def)

lemma after_eq_Inr: "after upd s r = Some (Inr (x, s')) \<longleftrightarrow> (\<exists>T. r = Some (Inr (x, T)) \<and> s' = upd s T)"
  by (cases r; cases "the r") auto

lemma add_chunk_step:
  assumes "add_chunks C H (collect_emit :: (ps_err, object list) emit) fuel ib (c # cs) [] = Some (Inr (ib2, T))"
    and "C = en_C E" and "H = en_H E"
  obtains ib1 T1 T2 where "\<And>s. add_chunk E D fuel c ib s = Some (Inr (ib1, out_upd s T1))"
    "add_chunks C H (collect_emit :: (ps_err, object list) emit) fuel ib1 cs [] = Some (Inr (ib2, T2))" "T = T1 @ T2"
proof -
  obtain obj where obj: "EncodeBlob H c = (Inr obj :: ps_err fs_err + object)" using assms(1) by (auto split: sum.splits)
  obtain ib1 S1 where add: "AddChild C H (collect_emit :: (ps_err, object list) emit) fuel ib (Obj_Key obj) [] [obj] = Some (Inr (ib1, S1))"
    and rest: "add_chunks C H (collect_emit :: (ps_err, object list) emit) fuel ib1 cs S1 = Some (Inr (ib2, T))"
    using assms(1) obj by (auto simp: collect_emit_eq [of "[]"] split: option.splits sum.splits)
  have step: "add_chunk E D fuel c ib s = Some (Inr (ib1, out_upd s S1))" for s
    using obj add assms(2,3) out_sink.AddChild_upd [of C H fuel ib "Obj_Key obj" "[]" s "[obj]"]
    by (simp add: add_chunk_def of_obj_def emit_obj_def out_sink.emit of_tree_def)
  have "after (@) S1 (add_chunks C H (collect_emit :: (ps_err, object list) emit) fuel ib1 cs []) = Some (Inr (ib2, T))"
  proof -
    have "add_chunks C H (collect_emit :: (ps_err, object list) emit) fuel ib1 cs (S1 @ []) =
      after (@) S1 (add_chunks C H collect_emit fuel ib1 cs [])" by (rule list_sink.add_chunks_upd)
    then show ?thesis using rest by simp
  qed
  then obtain T2 where T2: "add_chunks C H (collect_emit :: (ps_err, object list) emit) fuel ib1 cs [] = Some (Inr (ib2, T2))" "T = S1 @ T2"
    by (auto simp: after_eq_Inr)
  show thesis using that step T2 by blast
qed

lemma split_chunks:
  assumes "add_chunks (en_C E) (en_H E) (collect_emit :: (ps_err, object list) emit) fuel ib (real_chunks (cs @ [c])) [] = Some (Inr (ib2, T))"
  shows "SplitBytes (map (next_err f) (map NextChunk cs @ [NextEOF c])) (file_chunk E D fuel) ((ib, saw), s) =
     Some (Inr ((ib2, saw \<or> real_chunks (cs @ [c]) \<noteq> []), out_upd (addBytes D (length (concat cs @ c)) s) T))"
  using assms
proof (induction cs arbitrary: ib T saw s)
  case Nil
  show ?case
  proof (cases "c = []")
    case False
    with Nil have "add_chunks (en_C E) (en_H E) (collect_emit :: (ps_err, object list) emit) fuel ib [c] [] = Some (Inr (ib2, T))"
      by (simp add: real_chunks_def)
    then obtain ib1 T1 T2 where "\<And>s. add_chunk E D fuel c ib s = Some (Inr (ib1, out_upd s T1))"
      "add_chunks (en_C E) (en_H E) (collect_emit :: (ps_err, object list) emit) fuel ib1 [] [] = Some (Inr (ib2, T2))" "T = T1 @ T2"
      using add_chunk_step [where E = E and D = D] by metis
    then show ?thesis using False by (simp add: file_chunk_def real_chunks_def)
  qed (use Nil in \<open>simp add: real_chunks_def\<close>)
next
  case (Cons b cs)
  show ?case
  proof (cases "b = []")
    case True
    then show ?thesis using Cons.IH [of ib T saw s] Cons.prems by (simp add: real_chunks_def)
  next
    case False
    from Cons.prems False have "add_chunks (en_C E) (en_H E) (collect_emit :: (ps_err, object list) emit) fuel ib (b # real_chunks (cs @ [c])) [] =
        Some (Inr (ib2, T))" by (simp add: real_chunks_def)
    then obtain ib1 T1 T2 where st: "\<And>s. add_chunk E D fuel b ib s = Some (Inr (ib1, out_upd s T1))"
      "add_chunks (en_C E) (en_H E) (collect_emit :: (ps_err, object list) emit) fuel ib1 (real_chunks (cs @ [c])) [] = Some (Inr (ib2, T2))" "T = T1 @ T2"
      using add_chunk_step [where E = E and D = D] by metis
    show ?thesis using Cons.IH [OF st(2), of True] st(1,3) False by (simp add: file_chunk_def real_chunks_def)
  qed
qed

lemma buildFile_ok:
  assumes "src_ok S" and i: "map_of (sr_fs S) p = Some i" "in_body i = BReg b"
    and "deps_ok (en_C E) (en_H E)" and "chunker_ok (dr_ic D)" and "chunks_ok (en_U E)"
  shows "\<exists>N. \<forall>fuel \<ge> N. \<exists>k objs. (\<forall>s. buildFile E D fuel S p s = Some (Inr (k, out_upd (addBytes D (length b) s) objs))) \<and>
     canonical k \<and> Key_Length k = of_nat (length b) \<and>
     (\<exists>h. \<forall>get :: key \<Rightarrow> ps_err + bytes. has_objs get objs \<longrightarrow> file_tree (en_C E) get h k b)"
proof -
  obtain cs c where u: "en_U E (dr_byteOpts D) b None = map NextChunk cs @ [NextEOF c]" "concat cs @ c = b"
    using assms(6) unfolding chunks_ok_def by meson
  define rc where "rc = real_chunks (cs @ [c])"
  define all where "all = (if rc = [] then [[]] else rc)"
  have cat: "concat rc = b" using u(2) by (simp add: rc_def)
  then have "concat all = b" "all \<noteq> []" by (auto simp: all_def)
  have op: "sr_inode COpen S p = Inr i" "sr_deny S CRead p = None" using src_okD(1,2) [OF assms(1)] i by simp_all
  have "\<exists>k objs. (\<forall>s. buildFile E D fuel S p s = Some (Inr (k, out_upd (addBytes D (length b) s) objs))) \<and>
     canonical k \<and> Key_Length k = of_nat (length b) \<and>
     (\<exists>h. \<forall>get :: key \<Rightarrow> ps_err + bytes. has_objs get objs \<longrightarrow> file_tree (en_C E) get h k b)" if fuel: "4 * length all + 4 \<le> fuel" for fuel
  proof -
    obtain k objs h where b: "build_file (en_C E) (en_H E) (dr_ic D) fuel all = (Some (Inr (k, objs)) :: (ps_err, object list, key) built)"
      "canonical k" "Key_Length k = of_nat (length (concat all))"
      "\<And>get :: key \<Rightarrow> ps_err + bytes. has_objs get objs \<Longrightarrow> file_tree (en_C E) get h k (concat all)"
      using build_file_tree [OF assms(4,5) fuel \<open>all \<noteq> []\<close>, where 'e = ps_err] by blast
    obtain ib2 T where ch: "add_chunks (en_C E) (en_H E) (collect_emit :: (ps_err, object list) emit) fuel (NewFileIndexBuilder (dr_ic D)) all [] = Some (Inr (ib2, T))"
      and fin: "Index_Finish (en_C E) (en_H E) (collect_emit :: (ps_err, object list) emit) fuel ib2 T = Some (Inr (k, objs))"
      using b(1) by (auto simp: build_file_def split: option.splits sum.splits)
    have fin': "of_tree (Index_Finish (en_C E) (en_H E) out_emit fuel ib2 (out_upd s T)) = Some (Inr (k, out_upd s objs))" for s
      using fin by (simp add: out_sink.Index_Finish_upd of_tree_def)
    have "buildFile E D fuel S p s = Some (Inr (k, out_upd (addBytes D (length b) s) objs))" for s
    proof (cases "rc = []")
      case False
      then have "add_chunks (en_C E) (en_H E) (collect_emit :: (ps_err, object list) emit) fuel (NewFileIndexBuilder (dr_ic D)) (real_chunks (cs @ [c])) [] = Some (Inr (ib2, T))"
        using ch by (simp add: all_def rc_def)
      from split_chunks [OF this, where f = "\<lambda>e :: errno. Some (ReadErr e)" and D = D and saw = False and s = s] show ?thesis
        using False fin' u(2) by (simp add: buildFile_def op i(2) u(1) Let_def file_finish_def rc_def)
    next
      case True
      then have ch': "add_chunks (en_C E) (en_H E) (collect_emit :: (ps_err, object list) emit) fuel (NewFileIndexBuilder (dr_ic D)) [[]] [] = Some (Inr (ib2, T))"
        and "b = []" using ch cat by (simp_all add: all_def)
      from ch' obtain ib1 T1 T2 where
        "\<And>s. add_chunk E D fuel [] (NewFileIndexBuilder (dr_ic D)) s = Some (Inr (ib1, out_upd s T1))"
        "add_chunks (en_C E) (en_H E) (collect_emit :: (ps_err, object list) emit) fuel ib1 [] [] = Some (Inr (ib2, T2))" "T = T1 @ T2"
        using add_chunk_step [where E = E and D = D] by metis
      moreover have "SplitBytes (map (next_err f) (map NextChunk cs @ [NextEOF c])) (file_chunk E D fuel) ((NewFileIndexBuilder (dr_ic D), False), s) =
          Some (Inr ((NewFileIndexBuilder (dr_ic D), False), s))" for f :: "errno \<Rightarrow> in_err option"
        using split_chunks [of E fuel "NewFileIndexBuilder (dr_ic D)" cs c "NewFileIndexBuilder (dr_ic D)" "[]" f D False s] True u(2) \<open>b = []\<close>
        by (simp add: rc_def)
      ultimately show ?thesis
        using fin' u(2) u(1) [unfolded \<open>b = []\<close>] \<open>b = []\<close> by (simp add: buildFile_def op i(2) Let_def file_finish_def)
    qed
    then show ?thesis using b \<open>concat all = b\<close> by auto
  qed
  then show ?thesis by blast
qed

section \<open>Entries\<close>

lemma st_mode_fmt: "st_mode i AND S_IFMT = fmt_of (in_body i)"
proof -
  have "(ucast (in_perm i) AND 0xFFF :: u64) AND 0xF000 = 0" by (simp add: and.assoc)
  then show ?thesis by (cases "in_body i") (simp_all add: st_mode_def S_IFMT_def bit.conj_disj_distrib2)
qed

lemma st_mode_perm: "st_mode i AND 0xFFF = ucast (in_perm i) AND 0xFFF"
  by (cases "in_body i") (simp_all add: st_mode_def bit.conj_disj_distrib2 and.assoc)

lemmas S_IF_defs = S_IFREG_def S_IFDIR_def S_IFLNK_def S_IFCHR_def S_IFBLK_def S_IFIFO_def S_IFSOCK_def

lemma Encode_nonempty [simp]: "EncodeXattrs m \<noteq> []"
  by (simp add: EncodeXattrs_eq appendHead_eq)

lemma entry_xattrs_ok:
  assumes "src_ok S" and i: "map_of (sr_fs S) p = Some i" and "deps_ok (en_C E) (en_H E)"
    and e: "Ent_XattrsIn e = []" "Ent_XattrsKey e = []"
  shows "\<exists>xin xkey objs. (\<forall>s. entry_xattrs E D S p i e s =
       Some (Inr (e\<lparr>Ent_XattrsIn := xin, Ent_XattrsKey := xkey\<rparr>, out_upd s objs))) \<and>
     (xin = [] \<or> (\<exists>m. xin = EncodeXattrs m)) \<and> (xkey = [] \<or> canonical xkey) \<and>
     (\<forall>get :: key \<Rightarrow> ps_err + bytes. has_objs get objs \<longrightarrow> shows_xattrs get (e\<lparr>Ent_XattrsIn := xin, Ent_XattrsKey := xkey\<rparr>) i)"
proof -
  let ?m = "in_xattrs i" and ?enc = "EncodeXattrs (in_xattrs i)"
  note x = src_okD(4) [OF assms(1,2), unfolded xattrs_ok_def]
  have rd: "readXattrs S p = Inr ?m" by (rule readXattrs_ok [OF assms(1,2)])
  have fmt: "me_Mode (entryMeta i) AND S_IFMT = S_IFLNK \<longleftrightarrow> (\<exists>t. in_body i = BLnk t)"
    by (cases "in_body i") (simp_all add: entryMeta_def st_mode_fmt S_IF_defs)
  have dec: "DecodeXattrs ?enc = Inr (map_of ?m)" using x by (intro DecodeXattrs_EncodeXattrs) auto
  have e0: "e\<lparr>Ent_XattrsIn := [], Ent_XattrsKey := []\<rparr> = e" using e by simp
  consider (none) "(\<exists>t. in_body i = BLnk t) \<or> ?m = []" | (inl) "\<not> (\<exists>t. in_body i = BLnk t)" "?m \<noteq> []" "int (length ?enc) \<le> dr_xattrInlineMax D"
    | (spill) "\<not> (\<exists>t. in_body i = BLnk t)" "?m \<noteq> []" "\<not> int (length ?enc) \<le> dr_xattrInlineMax D" by blast
  then show ?thesis
  proof cases
    case none
    then show ?thesis
      by (intro exI [of _ "[]"]) (auto simp: entry_xattrs_def fmt rd of_sys_def e e0 shows_xattrs_def)
  next
    case inl
    then show ?thesis
      by (intro exI [of _ ?enc] exI [of _ "[]"]) (auto simp: entry_xattrs_def fmt rd of_sys_def e shows_xattrs_def dec Let_def)
  next
    case spill
    obtain k where k: "mk_object (en_H E) XattrSet (of_nat (length ?enc)) ?enc = (Inr \<lparr>Obj_Key = k, Obj_Bytes = ?enc\<rparr> :: ps_err fs_err + object)"
      "canonical k" by (rule mk_object_ok [of "en_H E" XattrSet]) (use assms(3) in \<open>simp_all add: deps_ok_def\<close>)
    have "entry_xattrs E D S p i e s = Some (Inr (e\<lparr>Ent_XattrsIn := [], Ent_XattrsKey := k\<rparr>, out_upd s [\<lparr>Obj_Key = k, Obj_Bytes = ?enc\<rparr>]))" for s
      using spill e by (auto simp: entry_xattrs_def fmt rd of_sys_def of_obj_def EncodeXattrSet_def k emit_obj_def out_sink.emit Let_def)
    then show ?thesis using k(2) spill dec
      by (intro exI [of _ "[]"] exI [of _ k] exI [of _ "[\<lparr>Obj_Key = k, Obj_Bytes = ?enc\<rparr>]"])
        (auto simp: shows_xattrs_def Amber_Build.holds_def)
  qed
qed

text \<open>The entry of a child, given what its file or directory build returns.\<close>

definition child_built :: "'p env \<Rightarrow> driver \<Rightarrow> nat \<Rightarrow> src \<Rightarrow> 'p dir_build \<Rightarrow> path \<Rightarrow> 'p Matcher option \<Rightarrow> bytes \<Rightarrow> tree \<Rightarrow> bool" where
  "child_built E D fuel S bd p ign n t \<longleftrightarrow>
     (case tr_body t of
        BReg b \<Rightarrow> tr_kids t = [] \<and> (\<exists>k objs. (\<forall>s. buildFile E D fuel S (p @ [n]) s = Some (Inr (k, out_upd (addBytes D (length b) s) objs))) \<and>
          canonical k \<and> Key_Length k = of_nat (length b) \<and>
          (\<exists>h. \<forall>get :: key \<Rightarrow> ps_err + bytes. has_objs get objs \<longrightarrow> file_tree (en_C E) get h k b))
      | BDir \<Rightarrow> (\<exists>k u. bd (p @ [n]) (matcher_at (en_G E) S p ign n) empty_out = Some (Inr (k, u)) \<and> canonical k \<and>
          (\<forall>get :: key \<Rightarrow> ps_err + bytes. has_objs get (o_objs u) \<longrightarrow> dir_shows (en_C E) get k (tr_kids t)))
      | _ \<Rightarrow> tr_kids t = [])"

lemma buildEntry_ok:
  assumes "src_ok S" and i: "map_of (sr_fs S) (p @ [n]) = Some (tr_inode t)" and "deps_ok (en_C E) (en_H E)"
    and ig: "ign = None \<or> ignores_ok S" and ch: "child_built E D fuel S bd p ign n t"
  shows "\<exists>e u. buildEntry E D fuel S bd (p @ [n]) n ign empty_out = Some (Inr (e, u)) \<and> wf_entry e \<and> Ent_Name e = n \<and>
     (\<forall>get :: key \<Rightarrow> ps_err + bytes. has_objs get (o_objs u) \<longrightarrow> ent_shows (en_C E) get e (n, t))"
proof -
  obtain ino kids where t: "t = Tree ino kids" by (cases t)
  let ?e = "\<lparr>Ent_Name = n, Ent_Mode = st_mode ino, Ent_UID = ucast (in_uid ino), Ent_GID = ucast (in_gid ino), Ent_Mtime = in_mtime ino,
                Ent_ContentKey = [], Ent_LinkTarget = [], Ent_Rdev = [], Ent_XattrsIn = [], Ent_XattrsKey = []\<rparr>"
  have ls: "sr_inode c S (p @ [n]) = Inr ino" for c using src_okD(2) [OF assms(1)] i t by simp
  have pay: "\<exists>ck lt rd u. entry_payload E D fuel S bd (p @ [n]) n ign ino ?e empty_out =
        Some (Inr (?e\<lparr>Ent_ContentKey := ck, Ent_LinkTarget := lt, Ent_Rdev := rd\<rparr>, u)) \<and> (ck = [] \<or> canonical ck) \<and>
      (\<forall>(get :: key \<Rightarrow> ps_err + bytes) xin xkey. has_objs get (o_objs u) \<longrightarrow>
        shows_xattrs get (?e\<lparr>Ent_ContentKey := ck, Ent_LinkTarget := lt, Ent_Rdev := rd, Ent_XattrsIn := xin, Ent_XattrsKey := xkey\<rparr>) ino \<longrightarrow>
        ent_shows (en_C E) get (?e\<lparr>Ent_ContentKey := ck, Ent_LinkTarget := lt, Ent_Rdev := rd, Ent_XattrsIn := xin, Ent_XattrsKey := xkey\<rparr>) (n, t))"
    (is "\<exists>ck lt rd u. ?P ck lt rd u")
  proof (cases "in_body ino")
    case (BReg b)
    obtain k objs h where f: "\<And>s. buildFile E D fuel S (p @ [n]) s = Some (Inr (k, out_upd (addBytes D (length b) s) objs))" "canonical k"
      "Key_Length k = of_nat (length b)" "\<And>get :: key \<Rightarrow> ps_err + bytes. has_objs get objs \<Longrightarrow> file_tree (en_C E) get h k b" "kids = []"
      using ch BReg by (auto simp: child_built_def t)
    let ?u = "fileDone D (out_upd (addBytes D (length b) empty_out) objs)"
    have o: "o_objs ?u = objs" by (simp add: fileDone_def out_upd_def addBytes_def empty_out_def)
    have "?P k [] [] ?u" unfolding o
      using f BReg by (auto simp: entry_payload_def entryMeta_def st_mode_fmt S_IF_defs t ent_head_def Let_def intro!: ent_shows.reg)
    then show ?thesis by blast
  next
    case BDir
    obtain k u where f: "bd (p @ [n]) (matcher_at (en_G E) S p ign n) empty_out = Some (Inr (k, u))" "canonical k"
      "\<And>get :: key \<Rightarrow> ps_err + bytes. has_objs get (o_objs u) \<Longrightarrow> dir_shows (en_C E) get k kids"
      using ch BDir by (auto simp: child_built_def t)
    have "is_dir (sr_fs S) (p @ [n])" using i t BDir by (simp add: is_dir_def)
    note d = Descend_ok [OF ig this, of "en_G E"]
    have "?P k [] [] u"
      using f BDir d by (auto simp: entry_payload_def entryMeta_def st_mode_fmt S_IF_defs t ent_head_def Let_def of_sys_def intro!: ent_shows_dir)
    then show ?thesis by blast
  next
    case (BLnk tgt)
    have "?P [] tgt [] empty_out"
      using BLnk ch by (auto simp: entry_payload_def entryMeta_def st_mode_fmt S_IF_defs t ent_head_def Let_def of_sys_def child_built_def
          host_Readlink_def ls intro!: ent_shows.lnk)
    then show ?thesis by blast
  next
    case (BChr a b)
    have "?P [] [] [ucast a, ucast b] empty_out"
      using BChr ch by (auto simp: entry_payload_def entryMeta_def st_mode_fmt S_IF_defs t ent_head_def Let_def deviceNumbers_def child_built_def
          intro!: ent_shows.dev)
    then show ?thesis by blast
  next
    case (BBlk a b)
    have "?P [] [] [ucast a, ucast b] empty_out"
      using BBlk ch by (auto simp: entry_payload_def entryMeta_def st_mode_fmt S_IF_defs t ent_head_def Let_def deviceNumbers_def child_built_def
          intro!: ent_shows.dev)
    then show ?thesis by blast
  next
    case BFifo
    have "?P [] [] [] empty_out"
      using BFifo ch by (auto simp: entry_payload_def entryMeta_def st_mode_fmt S_IF_defs t ent_head_def Let_def child_built_def intro!: ent_shows.plain)
    then show ?thesis by blast
  next
    case BSock
    have "?P [] [] [] empty_out"
      using BSock ch by (auto simp: entry_payload_def entryMeta_def st_mode_fmt S_IF_defs t ent_head_def Let_def child_built_def intro!: ent_shows.plain)
    then show ?thesis by blast
  next
    case BOdd
    then show ?thesis using src_okD(3) [OF assms(1) i] t by simp
  qed
  then obtain ck lt rd u where P: "?P ck lt rd u" by blast
  let ?e1 = "?e\<lparr>Ent_ContentKey := ck, Ent_LinkTarget := lt, Ent_Rdev := rd\<rparr>"
  obtain xin xkey objs where X: "\<And>s. entry_xattrs E D S (p @ [n]) ino ?e1 s =
       Some (Inr (?e1\<lparr>Ent_XattrsIn := xin, Ent_XattrsKey := xkey\<rparr>, out_upd s objs))"
     "xin = [] \<or> (\<exists>m. xin = EncodeXattrs m)" "xkey = [] \<or> canonical xkey"
     "\<And>get :: key \<Rightarrow> ps_err + bytes. has_objs get objs \<Longrightarrow> shows_xattrs get (?e1\<lparr>Ent_XattrsIn := xin, Ent_XattrsKey := xkey\<rparr>) ino"
    using entry_xattrs_ok [OF assms(1) i [unfolded t tree.sel] assms(3), of ?e1 D] by auto
  let ?e2 = "?e1\<lparr>Ent_XattrsIn := xin, Ent_XattrsKey := xkey\<rparr>"
  have "buildEntry E D fuel S bd (p @ [n]) n ign empty_out = Some (Inr (?e2, out_upd u objs))"
    using P X(1) by (simp add: buildEntry_def of_sys_def ls entryMeta_def Let_def)
  moreover have "wf_entry ?e2" using P X(2,3) by (auto simp: wf_entry_def Size_def)
  moreover have "ent_shows (en_C E) get ?e2 (n, t)" if "has_objs get (o_objs (out_upd u objs))" for get :: "key \<Rightarrow> ps_err + bytes"
    using P X(4) that by (auto simp: out_upd_def)
  ultimately show ?thesis by (intro exI [of _ ?e2] exI [of _ "out_upd u objs"]) auto
qed

section \<open>Directories\<close>

lemma names_in_props: "sorted (names_in fs p)" "distinct (names_in fs p)" "n \<in> set (names_in fs p) \<longleftrightarrow> map_of fs (p @ [n]) \<noteq> None"
proof -
  have "p @ [n] \<in> fst ` set fs \<longleftrightarrow> n \<in> last ` {q \<in> fst ` set fs. q \<noteq> [] \<and> butlast q = p}"
  proof
    assume "p @ [n] \<in> fst ` set fs"
    then show "n \<in> last ` {q \<in> fst ` set fs. q \<noteq> [] \<and> butlast q = p}"
      by (intro image_eqI [where x = "p @ [n]"]) simp_all
  next
    assume "n \<in> last ` {q \<in> fst ` set fs. q \<noteq> [] \<and> butlast q = p}"
    then obtain q where q: "q \<in> fst ` set fs" "q \<noteq> []" "butlast q = p" "n = last q" by blast
    then have "p @ [n] = q" using append_butlast_last_id [OF q(2)] by simp
    then show "p @ [n] \<in> fst ` set fs" using q(1) by simp
  qed
  then show "n \<in> set (names_in fs p) \<longleftrightarrow> map_of fs (p @ [n]) \<noteq> None"
    by (simp add: names_in_def map_of_eq_None_iff)
qed (simp_all add: names_in_def)

lemma lies_inode: "lies fs p t \<Longrightarrow> map_of fs p = Some (tr_inode t)"
  by (cases t) simp

lemma lies_kids: "lies fs p t \<Longrightarrow> map fst (tr_kids t) = names_in fs p"
  by (cases t) simp

lemma lies_kid: "lies fs p t \<Longrightarrow> (n, u) \<in> set (tr_kids t) \<Longrightarrow> lies fs (p @ [n]) u"
  by (cases t) auto

lemma lies_leaf: "wf_fs fs \<Longrightarrow> lies fs p t \<Longrightarrow> tr_body t \<noteq> BDir \<Longrightarrow> tr_kids t = []"
proof (rule ccontr)
  assume fs: "wf_fs fs" and l: "lies fs p t" and b: "tr_body t \<noteq> BDir" and "tr_kids t \<noteq> []"
  then obtain n u where nu: "(n, u) \<in> set (tr_kids t)" by (metis list.set_intros(1) neq_Nil_conv surj_pair)
  have "map_of fs (p @ [n]) \<noteq> None" using lies_inode [OF lies_kid [OF l nu]] by simp
  then have "p @ [n] \<in> fst ` set fs" by (auto simp: map_of_eq_None_iff)
  then have "is_dir fs p" using fs by (fastforce simp: wf_fs_def)
  then show False using lies_inode [OF l] b by (simp add: is_dir_def)
qed

lemma list_all2_of_map: "(\<And>x. x \<in> set xs \<Longrightarrow> P (f x) (g x)) \<Longrightarrow> list_all2 P (map f xs) (map g xs)"
  by (induction xs) auto

lemma interleave_set: "set (interleave sched ls) = \<Union> (set ` set ls)"
proof -
  have "set_mset (mset (interleave sched ls)) = set_mset (sum_list (map mset ls))" by (simp only: mset_interleave)
  moreover have "set_mset (sum_list (map mset ls)) = \<Union> (set ` set ls)" by (induction ls) auto
  ultimately show ?thesis by simp
qed

lemma add_results_ok:
  "add_results E fuel (map (\<lambda>eu. Some (Inr eu)) ers) db s = of_tree (add_entries (en_C E) (en_H E) out_emit fuel db (map fst ers) s)"
proof (induction ers arbitrary: db s)
  case (Cons er ers)
  obtain e u where er: "er = (e, u)" by force
  have "ing_bind (of_tree r) (\<lambda>db s. of_tree (add_entries (en_C E) (en_H E) out_emit fuel db (map fst ers) s)) =
      of_tree (case r of None \<Rightarrow> None | Some (Inl err) \<Rightarrow> Some (Inl err)
        | Some (Inr (db1, s1)) \<Rightarrow> add_entries (en_C E) (en_H E) out_emit fuel db1 (map fst ers) s1)" for r
    by (auto simp: of_tree_def split: option.split sum.split)
  moreover have "add_results E fuel (map (\<lambda>eu. Some (Inr eu)) ers) = (\<lambda>db s. of_tree (add_entries (en_C E) (en_H E) out_emit fuel db (map fst ers) s))"
    by (intro ext Cons)
  ultimately show ?case by (simp add: er)
qed (simp add: of_tree_def)

lemma dir_from_children:
  assumes S: "src_ok S" and deps: "deps_ok (en_C E) (en_H E)" "chunker_ok (dr_ic D)"
    and l: "lies (sr_fs S) p t" "tr_body t = BDir" and ig: "ign = None \<or> ignores_ok S"
    and ch: "\<And>n u. (n, u) \<in> set (tr_kids t) \<Longrightarrow> kept (en_G E) ign (n, u) \<Longrightarrow>
        child_built E D fuel S (pbuildDir E D fuel S sched depth) p ign n (visible (en_G E) S (p @ [n]) (matcher_at (en_G E) S p ign n) u)"
    and fuel: "4 * length (tr_kids t) + 4 \<le> fuel"
  shows "\<exists>k s. pbuildDir E D fuel S sched (Suc depth) p ign empty_out = Some (Inr (k, s)) \<and> canonical k \<and>
     (\<forall>get :: key \<Rightarrow> ps_err + bytes. has_objs get (o_objs s) \<longrightarrow> dir_shows (en_C E) get k (tr_kids (visible (en_G E) S p ign t)))"
proof -
  let ?G = "en_G E" and ?bd = "pbuildDir E D fuel S sched depth"
  let ?kids = "filter (kept ?G ign) (tr_kids t)"
  let ?vis = "\<lambda>(n, u). (n, visible ?G S (p @ [n]) (matcher_at ?G S p ign n) u)"
  let ?ents = "map (\<lambda>n. (n, is_dir (sr_fs S) (p @ [n]))) (names_in (sr_fs S) p)"
  have rd: "host_ReadDir S p = Inr ?ents"
    using src_okD(2) [OF S] lies_inode [OF l(1)] l(2) by (simp add: host_ReadDir_def)
  have isd: "is_dir (sr_fs S) (p @ [n]) \<longleftrightarrow> tr_body u = BDir" if "(n, u) \<in> set (tr_kids t)" for n u
    using lies_inode [OF lies_kid [OF l(1) that]] by (simp add: is_dir_def)
  have ents: "?ents = map (\<lambda>(n, u). (n, tr_body u = BDir)) (tr_kids t)"
    unfolding lies_kids [OF l(1), symmetric] using isd by (auto simp: case_prod_unfold)
  have filt: "filter (\<lambda>de. \<not> Ignored ?G ign (fst de) (snd de)) ?ents = map (\<lambda>(n, u). (n, tr_body u = BDir)) ?kids"
    unfolding ents by (auto simp: filter_map o_def kept_def case_prod_unfold intro!: arg_cong2 [where f = map] filter_cong)
  have "\<exists>e u'. buildEntry E D fuel S ?bd (p @ [n]) n ign empty_out = Some (Inr (e, u')) \<and> wf_entry e \<and> Ent_Name e = n \<and>
     (\<forall>get :: key \<Rightarrow> ps_err + bytes. has_objs get (o_objs u') \<longrightarrow> ent_shows (en_C E) get e (?vis (n, u)))" if "(n, u) \<in> set ?kids" for n u
  proof -
    have in_t: "(n, u) \<in> set (tr_kids t)" "kept ?G ign (n, u)" using that by auto
    have "map_of (sr_fs S) (p @ [n]) = Some (tr_inode (visible ?G S (p @ [n]) (matcher_at ?G S p ign n) u))"
      using lies_inode [OF lies_kid [OF l(1) in_t(1)]] by simp
    from buildEntry_ok [OF S this deps(1) ig ch [OF in_t]] show ?thesis by simp
  qed
  then have "\<forall>x \<in> set ?kids. \<exists>eu. buildEntry E D fuel S ?bd (p @ [fst x]) (fst x) ign empty_out = Some (Inr eu) \<and> wf_entry (fst eu) \<and>
     (\<forall>get :: key \<Rightarrow> ps_err + bytes. has_objs get (o_objs (snd eu)) \<longrightarrow> ent_shows (en_C E) get (fst eu) (?vis x))" by fastforce
  from bchoice [OF this] obtain euf where f: "\<forall>x \<in> set ?kids. buildEntry E D fuel S ?bd (p @ [fst x]) (fst x) ign empty_out = Some (Inr (euf x)) \<and>
      wf_entry (fst (euf x)) \<and>
      (\<forall>get :: key \<Rightarrow> ps_err + bytes. has_objs get (o_objs (snd (euf x))) \<longrightarrow> ent_shows (en_C E) get (fst (euf x)) (?vis x))" ..
  let ?es = "map (\<lambda>x. fst (euf x)) ?kids" and ?ers = "map euf ?kids"
  let ?rs = "map (\<lambda>de. buildEntry E D fuel S ?bd (p @ [fst de]) (fst de) ign empty_out) (filter (\<lambda>de. \<not> Ignored ?G ign (fst de) (snd de)) ?ents)"
  have rs: "?rs = map (\<lambda>eu. Some (Inr eu)) ?ers" unfolding filt using f by (auto simp: case_prod_unfold)
  define s0 where "s0 = join_outs (sched p) empty_out (map result_out ?rs)"
  have o0: "o_objs s0 = interleave (sched p) (map (\<lambda>x. o_objs (snd (euf x))) ?kids)"
    unfolding s0_def rs by (simp add: join_outs_def empty_out_def result_out_def o_def case_prod_unfold)
  have wf: "\<forall>e \<in> set ?es. wf_entry e" using f by auto
  have "length ?kids \<le> length (tr_kids t)" by (rule length_filter_le)
  then have "4 * length ?es + 4 \<le> fuel" using fuel unfolding length_map by linarith
  from build_dir_tree [OF deps wf this, where 'e = ps_err] obtain k objs h where
    b: "build_dir (en_C E) (en_H E) (dr_ic D) fuel ?es = (Some (Inr (k, objs)) :: (ps_err, object list, key) built)" "canonical k"
      "\<And>get :: key \<Rightarrow> ps_err + bytes. has_objs get objs \<Longrightarrow> dir_tree (en_C E) get h k ?es" by blast
  obtain db T where a: "add_entries (en_C E) (en_H E) (collect_emit :: (ps_err, object list) emit) fuel (NewDirBuilder (dr_ic D)) ?es [] = Some (Inr (db, T))"
    and fin: "Dir_Finish (en_C E) (en_H E) (collect_emit :: (ps_err, object list) emit) fuel db T = Some (Inr (k, objs))"
    using b(1) by (auto simp: build_dir_def split: option.splits sum.splits)
  have "add_results E fuel ?rs (NewDirBuilder (dr_ic D)) s0 = Some (Inr (db, out_upd s0 T))"
    unfolding rs add_results_ok using out_sink.add_entries_upd [of "en_C E" "en_H E" fuel "NewDirBuilder (dr_ic D)" ?es s0 "[]"] a
    by (simp add: of_tree_def o_def)
  then have "pbuildDir E D fuel S sched (Suc depth) p ign empty_out = Some (Inr (k, out_upd s0 objs))"
    using fin unfolding pbuildDir.simps rd of_sys_def Let_def
    by (simp add: s0_def [symmetric] out_sink.Dir_Finish_upd of_tree_def del: map_map)
  moreover have "dir_shows (en_C E) get k (tr_kids (visible ?G S p ign t))" if g: "has_objs get (o_objs (out_upd s0 objs))"
    for get :: "key \<Rightarrow> ps_err + bytes"
  proof -
    have "has_objs get objs" and s0: "has_objs get (o_objs s0)" using g by (simp_all add: out_upd_def)
    have kid: "has_objs get (o_objs (snd (euf x)))" if "x \<in> set ?kids" for x
      using s0 that unfolding o0 Amber_Build.holds_def interleave_set by (cases x) auto
    have "list_all2 (ent_shows (en_C E) get) ?es (map ?vis ?kids)"
      using f kid by (intro list_all2_of_map) blast
    then show ?thesis using b(3) [OF \<open>has_objs get objs\<close>] unfolding dir_shows_def tr_kids_visible by blast
  qed
  ultimately show ?thesis using b(2) by blast
qed

lemma eventually_all:
  fixes P :: "'a \<Rightarrow> nat \<Rightarrow> bool"
  assumes "\<And>x. x \<in> set xs \<Longrightarrow> \<exists>N. \<forall>fuel \<ge> N. P x fuel"
  shows "\<exists>N. \<forall>fuel \<ge> N. \<forall>x \<in> set xs. P x fuel"
  using assms
proof (induction xs)
  case (Cons x xs)
  obtain N where "\<forall>fuel \<ge> N. P x fuel" using Cons.prems [of x] by auto
  moreover obtain M where "\<forall>fuel \<ge> M. \<forall>x \<in> set xs. P x fuel" using Cons.IH Cons.prems by (meson list.set_intros(2))
  ultimately have "\<forall>fuel \<ge> max N M. \<forall>x \<in> set (x # xs). P x fuel" by auto
  then show ?case by blast
qed simp

lemma pbuildDir_ok:
  assumes "src_ok S" and "deps_ok (en_C E) (en_H E)" and "chunker_ok (dr_ic D)" and "chunks_ok (en_U E)"
    and "lies (sr_fs S) p t" and "tr_body t = BDir" and "height t \<le> depth" and "ign = None \<or> ignores_ok S"
  shows "\<exists>N. \<forall>fuel \<ge> N. \<forall>sched. \<exists>k s. pbuildDir E D fuel S sched depth p ign empty_out = Some (Inr (k, s)) \<and> canonical k \<and>
     (\<forall>get :: key \<Rightarrow> ps_err + bytes. has_objs get (o_objs s) \<longrightarrow> dir_shows (en_C E) get k (tr_kids (visible (en_G E) S p ign t)))"
  using assms(5-8)
proof (induction depth arbitrary: p t ign)
  case 0
  then show ?case by (cases t) simp
next
  case (Suc depth)
  let ?G = "en_G E"
  let ?built = "\<lambda>x fuel. \<forall>sched. child_built E D fuel S (pbuildDir E D fuel S sched depth) p ign (fst x)
      (visible ?G S (p @ [fst x]) (matcher_at ?G S p ign (fst x)) (snd x))"
  have "\<exists>N. \<forall>fuel \<ge> N. ?built x fuel" if x: "x \<in> set (tr_kids t)" for x
  proof -
    obtain n u where nu: "x = (n, u)" by force
    note l = lies_kid [OF Suc.prems(1) x [unfolded nu]]
    note ino = lies_inode [OF l]
    have leaf: "tr_kids (visible ?G S (p @ [n]) (matcher_at ?G S p ign n) u) = []" if "tr_body u \<noteq> BDir"
      using lies_leaf [OF src_okD(5) [OF assms(1)] l that] by (simp add: tr_kids_visible)
    show ?thesis
    proof (cases "tr_body u")
      case (BReg b)
      from buildFile_ok [OF assms(1) ino BReg assms(2-4)] obtain N where "\<forall>fuel \<ge> N. \<exists>k objs. (\<forall>s. buildFile E D fuel S (p @ [n]) s =
          Some (Inr (k, out_upd (addBytes D (length b) s) objs))) \<and> canonical k \<and> Key_Length k = of_nat (length b) \<and>
          (\<exists>h. \<forall>get :: key \<Rightarrow> ps_err + bytes. has_objs get objs \<longrightarrow> file_tree (en_C E) get h k b)" ..
      then have "\<forall>fuel \<ge> N. ?built x fuel" using leaf BReg by (simp add: nu child_built_def)
      then show ?thesis by blast
    next
      case BDir
      have "height u \<le> depth" using height_kid [OF x [unfolded nu]] Suc.prems(3) by linarith
      moreover have "matcher_at ?G S p ign n = None \<or> ignores_ok S"
        using Suc.prems(4) by (auto simp: matcher_at_def Descend_def)
      ultimately obtain N where "\<forall>fuel \<ge> N. \<forall>sched. \<exists>k s. pbuildDir E D fuel S sched depth (p @ [n]) (matcher_at ?G S p ign n) empty_out =
          Some (Inr (k, s)) \<and> canonical k \<and> (\<forall>get :: key \<Rightarrow> ps_err + bytes. has_objs get (o_objs s) \<longrightarrow>
            dir_shows (en_C E) get k (tr_kids (visible ?G S (p @ [n]) (matcher_at ?G S p ign n) u)))"
        using Suc.IH [OF l BDir] by blast
      then have "\<forall>fuel \<ge> N. ?built x fuel" using BDir by (simp add: nu child_built_def)
      then show ?thesis by blast
    qed (use leaf in \<open>simp_all add: nu child_built_def\<close>)
  qed
  from eventually_all [of "tr_kids t" ?built, OF this] obtain N where N: "\<forall>fuel \<ge> N. \<forall>x \<in> set (tr_kids t). ?built x fuel" by blast
  have "\<forall>fuel \<ge> max N (4 * length (tr_kids t) + 4). \<forall>sched. \<exists>k s. pbuildDir E D fuel S sched (Suc depth) p ign empty_out = Some (Inr (k, s)) \<and>
     canonical k \<and> (\<forall>get :: key \<Rightarrow> ps_err + bytes. has_objs get (o_objs s) \<longrightarrow> dir_shows (en_C E) get k (tr_kids (visible ?G S p ign t)))"
  proof (intro allI impI)
    fix fuel sched
    assume f: "max N (4 * length (tr_kids t) + 4) \<le> fuel"
    have "child_built E D fuel S (pbuildDir E D fuel S sched depth) p ign n (visible ?G S (p @ [n]) (matcher_at ?G S p ign n) u)"
      if "(n, u) \<in> set (tr_kids t)" for n u
      using N f that by force
    moreover have "4 * length (tr_kids t) + 4 \<le> fuel" using f by simp
    ultimately show "\<exists>k s. pbuildDir E D fuel S sched (Suc depth) p ign empty_out = Some (Inr (k, s)) \<and>
     canonical k \<and> (\<forall>get :: key \<Rightarrow> ps_err + bytes. has_objs get (o_objs s) \<longrightarrow> dir_shows (en_C E) get k (tr_kids (visible ?G S p ign t)))"
      using dir_from_children [OF assms(1-3) Suc.prems(1,2,4)] by blast
  qed
  then show ?case by blast
qed

end
