(* ===== verification/Amber_Paths.thy ===== *)
theory Amber_Paths
  imports Amber_Host
begin

text \<open>
  Lemmas on lexical paths and on their resolution: joining and splitting are inverse on real
  components, cleaning keeps them, and a path that continues below a directory resolves from
  that directory.
\<close>

section \<open>Names that stay\<close>

definition real_name :: "bytes \<Rightarrow> bool" where
  "real_name c \<longleftrightarrow> c \<noteq> [] \<and> c \<noteq> dot \<and> c \<noteq> dotdot \<and> 0x2F \<notin> set c"

lemma good_real: "good_name n \<Longrightarrow> real_name n"
  by (simp add: good_name_def real_name_def)

lemma split_slash_cons [simp]: "split_slash (0x2F # s) = [] # split_slash s"
  by simp

lemma split_slash_plain: "0x2F \<notin> set c \<Longrightarrow> split_slash c = [c]"
  by (induction c) auto

lemma split_slash_nonempty [simp]: "split_slash s \<noteq> []"
  by (induction s) (auto split: list.split)

lemma split_slash_part: "0x2F \<notin> set c \<Longrightarrow> split_slash (c @ 0x2F # s) = c # split_slash s"
  by (induction c) auto

lemma split_slash_append: "split_slash (a @ 0x2F # b) = split_slash a @ split_slash b"
proof (induction a)
  case (Cons x a)
  then show ?case by (cases "split_slash a") auto
qed simp

lemma split_slash_slashless: "c \<in> set (split_slash s) \<Longrightarrow> 0x2F \<notin> set c"
proof (induction s arbitrary: c)
  case (Cons x s)
  then show ?case by (cases "split_slash s") (auto split: if_splits)
qed auto

lemma split_join: "cs \<noteq> [] \<Longrightarrow> \<forall>c \<in> set cs. 0x2F \<notin> set c \<Longrightarrow> split_slash (join_slash cs) = cs"
  by (induction cs) (auto simp: split_slash_part split_slash_plain)

lemma join_split: "join_slash (split_slash s) = s"
proof (induction s)
  case (Cons x s)
  then show ?case by (cases "split_slash s") (auto split: if_splits)
qed simp

lemma join_slash_eq_Nil: "\<forall>c \<in> set cs. c \<noteq> [] \<Longrightarrow> join_slash cs = [] \<longleftrightarrow> cs = []"
  by (cases cs) auto

lemma join_slash_snoc: "cs \<noteq> [] \<Longrightarrow> join_slash (cs @ [n]) = join_slash cs @ 0x2F # n"
  by (induction cs) auto

lemma join_slash_append: "cs \<noteq> [] \<Longrightarrow> ds \<noteq> [] \<Longrightarrow> join_slash (cs @ ds) = join_slash cs @ 0x2F # join_slash ds"
  by (induction cs) auto

section \<open>Cleaning\<close>

lemma clean_real: "\<forall>c \<in> set cs. real_name c \<Longrightarrow> foldl (clean_step r) out cs = rev cs @ out"
  by (induction cs arbitrary: out) (auto simp: clean_step_def real_name_def)

lemma is_abs_join: "\<forall>c \<in> set cs. real_name c \<Longrightarrow> \<not> is_abs (join_slash cs)"
  by (cases cs) (auto simp: is_abs_def real_name_def hd_append dest: hd_in_set)

lemma Clean_join: "cs \<noteq> [] \<Longrightarrow> \<forall>c \<in> set cs. real_name c \<Longrightarrow> filepath_Clean (join_slash cs) = join_slash cs"
  using is_abs_join [of cs] split_join [of cs] clean_real [of cs False "[]"]
  by (auto simp: filepath_Clean_def real_name_def)

lemma Clean_abs_join: "\<forall>c \<in> set cs. real_name c \<Longrightarrow> filepath_Clean (0x2F # join_slash cs) = 0x2F # join_slash cs"
  using split_join [of cs] clean_real [of cs True "[]"]
  by (cases "cs = []") (auto simp: filepath_Clean_def is_abs_def clean_step_def real_name_def)

lemma Join_child:
  assumes "\<forall>c \<in> set cs. real_name c" and "real_name n"
  shows "filepath_Join (join_slash cs) n = join_slash (cs @ [n])"
proof (cases "cs = []")
  case True
  then show ?thesis using assms Clean_join [of "[n]"] by (auto simp: filepath_Join_def real_name_def)
next
  case False
  have "join_slash cs \<noteq> []" using False assms(1) join_slash_eq_Nil [of cs] by (auto simp: real_name_def)
  then show ?thesis using Clean_join [of "cs @ [n]"] assms False by (simp add: filepath_Join_def join_slash_snoc)
qed

section \<open>Joining a name to a destination\<close>

definition kept_name :: "bytes \<Rightarrow> bool" where
  "kept_name c \<longleftrightarrow> c \<noteq> [] \<and> c \<noteq> dot"

lemma clean_no_dotdot: "dotdot \<notin> set cs \<Longrightarrow> foldl (clean_step r) out cs = rev (filter kept_name cs) @ out"
  by (induction cs arbitrary: out) (auto simp: clean_step_def kept_name_def)

lemma kept_real: "dotdot \<notin> set (split_slash s) \<Longrightarrow> \<forall>c \<in> set (filter kept_name (split_slash s)). real_name c"
  using split_slash_slashless by (auto simp: kept_name_def real_name_def)

text \<open>A cleaned path: real names, after leading parents if it is relative.\<close>

lemma clean_abs_shape: "\<forall>c \<in> set out. real_name c \<Longrightarrow> \<forall>c \<in> set cs. 0x2F \<notin> set c \<Longrightarrow> \<forall>c \<in> set (foldl (clean_step True) out cs). real_name c"
proof (induction cs arbitrary: out)
  case (Cons c cs)
  have "\<forall>d \<in> set (clean_step True out c). real_name d"
    using Cons.prems by (auto simp: clean_step_def real_name_def split: list.splits if_splits)
  then show ?case using Cons.IH Cons.prems(2) by simp
qed simp

definition ups :: "bytes list \<Rightarrow> bool" where
  "ups cs \<longleftrightarrow> (\<exists>k ds. cs = replicate k dotdot @ ds \<and> (\<forall>d \<in> set ds. real_name d))"

lemma clean_rel_shape: "ups (rev out) \<Longrightarrow> \<forall>c \<in> set cs. 0x2F \<notin> set c \<Longrightarrow> ups (rev (foldl (clean_step False) out cs))"
proof (induction cs arbitrary: out)
  case (Cons c cs)
  obtain k ds where o: "rev out = replicate k dotdot @ ds" "\<forall>d \<in> set ds. real_name d" using Cons.prems(1) by (auto simp: ups_def)
  have "ups (rev (clean_step False out c))"
  proof (cases "c = [] \<or> c = dot")
    case True
    then show ?thesis using Cons.prems(1) by (simp add: clean_step_def)
  next
    case False
    show ?thesis
    proof (cases "c = dotdot")
      case True
      show ?thesis
      proof (cases ds rule: rev_cases)
        case Nil
        then have "out = replicate k dotdot" using o(1) by (metis append_Nil2 rev_replicate rev_rev_ident)
        then have "clean_step False out c = replicate (Suc k) dotdot" using True False by (cases k) (auto simp: clean_step_def)
        then have "rev (clean_step False out c) = replicate (Suc k) dotdot @ []" by (simp add: replicate_append_same)
        then show ?thesis unfolding ups_def by (intro exI [of _ "Suc k"] exI [of _ "[]"]) auto
      next
        case (snoc es d)
        then have "out = d # rev (replicate k dotdot @ es)" using o(1) by (metis append.assoc rev_eq_append_conv rev_rev_ident rev.simps(2) rev_append rev_singleton_conv append_Cons append_Nil)
        moreover have "d \<noteq> dotdot" using snoc o(2) by (auto simp: real_name_def)
        ultimately have "rev (clean_step False out c) = replicate k dotdot @ es" using True False by (simp add: clean_step_def)
        then show ?thesis using o(2) snoc by (auto simp: ups_def)
      qed
    next
      case nd: False
      then have "rev (clean_step False out c) = replicate k dotdot @ (ds @ [c])" using False o(1) by (simp add: clean_step_def)
      moreover have "real_name c" using False nd Cons.prems(2) by (simp add: real_name_def)
      ultimately show ?thesis using o(2) unfolding ups_def by (intro exI [of _ k] exI [of _ "ds @ [c]"]) auto
    qed
  qed
  then show ?case using Cons.IH Cons.prems(2) by simp
qed simp

lemma clean_ups: "ups cs \<Longrightarrow> foldl (clean_step False) [] cs = rev cs"
proof -
  have d: "foldl (clean_step False) (replicate n dotdot) (replicate k dotdot) = replicate (n + k) dotdot" for n k
  proof (induction k arbitrary: n)
    case (Suc k)
    have "clean_step False (replicate n dotdot) dotdot = replicate (Suc n) dotdot"
      by (cases n) (auto simp: clean_step_def dotdot_def dot_def)
    then show ?case using Suc [of "Suc n"] by simp
  qed simp
  assume "ups cs"
  then obtain k ds where "cs = replicate k dotdot @ ds" "\<forall>d \<in> set ds. real_name d" by (auto simp: ups_def)
  then show ?thesis using d [of 0 k] clean_real [of ds False "replicate k dotdot"] by simp
qed

lemma ups_prefix: "ups (xs @ ys) \<Longrightarrow> ups xs"
proof -
  assume "ups (xs @ ys)"
  then obtain k ds where e: "xs @ ys = replicate k dotdot @ ds" and r: "\<forall>d \<in> set ds. real_name d" by (auto simp: ups_def)
  show ?thesis
  proof (cases "length xs \<le> k")
    case True
    have "xs = take (length xs) (replicate k dotdot @ ds)" using e by (metis append_eq_conv_conj)
    then have "xs = replicate (length xs) dotdot @ []" using True by (simp add: min_def)
    then show ?thesis unfolding ups_def by (metis empty_iff empty_set)
  next
    case False
    have "xs = take (length xs) (replicate k dotdot @ ds)" using e by (metis append_eq_conv_conj)
    then have "xs = replicate k dotdot @ take (length xs - k) ds" using False by simp
    then show ?thesis using r unfolding ups_def by (metis in_set_takeD)
  qed
qed

text \<open>After a part of the path that has a name, only names follow.\<close>

lemma ups_suffix: "ups (xs @ ys) \<Longrightarrow> \<not> (\<forall>x \<in> set xs. x = dotdot) \<Longrightarrow> \<forall>y \<in> set ys. real_name y"
proof -
  assume u: "ups (xs @ ys)" and n: "\<not> (\<forall>x \<in> set xs. x = dotdot)"
  obtain k ds where e: "xs @ ys = replicate k dotdot @ ds" and r: "\<forall>d \<in> set ds. real_name d" using u by (auto simp: ups_def)
  have "k \<le> length xs"
  proof (rule ccontr)
    assume "\<not> k \<le> length xs"
    moreover have "xs = take (length xs) (replicate k dotdot @ ds)" using e by (metis append_eq_conv_conj)
    ultimately have "xs = replicate (length xs) dotdot" by (simp add: min_def)
    then show False using n by (metis in_set_replicate)
  qed
  have "ys = drop (length xs) (replicate k dotdot @ ds)" unfolding e [symmetric] by simp
  also have "\<dots> = drop (length xs - k) ds" using \<open>k \<le> length xs\<close> by simp
  finally have "ys = drop (length xs - k) ds" .
  then show ?thesis using r by (metis in_set_dropD)
qed

end
