(* ===== verification/Amber_Export.thy ===== *)
theory Amber_Export
  imports Amber_IngestTree Amber_Paths
begin

text \<open>
  Package \<open>tarexport\<close>: a directory of the object store as a tar archive. The archive package of
  the standard library is modelled by the sequence of members it carries, each a header and
  its content; the writer refuses a header that the PAX format cannot represent, a member
  that is shorter or longer than its header says, and it fails when the writer below it does.
  \<open>fits\<close> says which headers have PAX records that the writer accepts: no equals sign or NUL in
  a key, and all records within its size limit.

  The exporter's members are those of the tree that its root denotes (\<open>export_members\<close>), in
  the order of a walk that puts a directory before its entries.
\<close>

section \<open>archive/tar, writing\<close>

datatype tar_type = TypeReg | TypeDir | TypeSymlink | TypeFifo | TypeChar | TypeBlock | TypeOther byte

record 'pax tar_hdr =
  th_Name :: bytes
  th_Mode :: u64
  th_Uid :: u64
  th_Gid :: u64
  th_ModTime :: "64 word"
  th_Typeflag :: tar_type
  th_Size :: u64
  th_Linkname :: bytes
  th_Devmajor :: u64
  th_Devminor :: u64
  th_PAX :: 'pax

type_synonym pax_map = "bytes \<rightharpoonup> bytes"
type_synonym member = "pax_map tar_hdr \<times> bytes"

datatype tar_err = ErrHeader | ErrWriteTooLong | ErrMissing | ErrIO

text \<open>\<open>tw_left\<close> counts the calls that the underlying writer still serves, without a bound if it
  is \<open>None\<close>.\<close>

record tar_writer =
  tw_members :: "member list"
  tw_left :: "nat option"

definition SchilyPrefix :: bytes where
  "SchilyPrefix = [0x53, 0x43, 0x48, 0x49, 0x4C, 0x59, 0x2E, 0x78, 0x61, 0x74, 0x74, 0x72, 0x2E]"

definition header_ok :: "(pax_map tar_hdr \<Rightarrow> bool) \<Rightarrow> pax_map tar_hdr \<Rightarrow> bool" where
  "header_ok fits h \<longleftrightarrow> 0 \<notin> set (th_Name h) \<and> 0 \<notin> set (th_Linkname h) \<and> 0 \<le> sint (th_Size h) \<and>
     th_Devmajor h < 0x200000 \<and> th_Devminor h < 0x200000 \<and> fits h"

definition tw_call :: "tar_writer \<Rightarrow> tar_err + tar_writer" where
  "tw_call w =
     (case tw_left w of None \<Rightarrow> Inr w | Some 0 \<Rightarrow> Inl ErrIO | Some (Suc n) \<Rightarrow> Inr (w\<lparr>tw_left := Some n\<rparr>))"

definition member_short :: "member list \<Rightarrow> bool" where
  "member_short ms \<longleftrightarrow> ms \<noteq> [] \<and> length (snd (last ms)) < unat (th_Size (fst (last ms)))"

definition tw_WriteHeader :: "(pax_map tar_hdr \<Rightarrow> bool) \<Rightarrow> pax_map tar_hdr \<Rightarrow> tar_writer \<Rightarrow> tar_err + tar_writer" where
  "tw_WriteHeader fits h w =
     (if member_short (tw_members w) then Inl ErrMissing
      else if \<not> header_ok fits h then Inl ErrHeader
      else case tw_call w of Inl e \<Rightarrow> Inl e | Inr w' \<Rightarrow> Inr (w'\<lparr>tw_members := tw_members w' @ [(h, [])]\<rparr>))"

definition tw_Write :: "tar_writer \<Rightarrow> bytes \<Rightarrow> tar_err + tar_writer" where
  "tw_Write w b =
     (let (h, c) = last (tw_members w) in
      if unat (th_Size h) < length c + length b then Inl ErrWriteTooLong
      else case tw_call w of Inl e \<Rightarrow> Inl e | Inr w' \<Rightarrow> Inr (w'\<lparr>tw_members := butlast (tw_members w') @ [(h, c @ b)]\<rparr>))"

definition tw_Close :: "tar_writer \<Rightarrow> tar_err + tar_writer" where
  "tw_Close w = (if member_short (tw_members w) then Inl ErrMissing else tw_call w)"

section \<open>The exporter\<close>

text \<open>A store's error type holds the writer's errors through \<open>mk\<close>, as Go's error values do.\<close>

datatype 'e ex_err =
    ExTree "'e fs_err"
  | ExGet 'e
  | ExTar tar_err
  | ExNotDir key
  | ExUnsafe bytes
  | ExKey key_err
  | ExXattrsKey bytes key_err
  | ExXattrs cbor_err
  | ExDevice bytes
  | ExType bytes u64

definition unsafe_name :: "bytes \<Rightarrow> bool" where
  "unsafe_name part \<longleftrightarrow> part = [] \<or> part = dot \<or> part = dotdot \<or> 0x2F \<in> set part"

definition pax_of :: "pax_map \<Rightarrow> pax_map" where
  "pax_of m = (\<lambda>k. if HasPrefix k SchilyPrefix then m (drop (length SchilyPrefix) k) else None)"

definition setXattrs :: "(key \<Rightarrow> 'e + bytes) \<Rightarrow> pax_map tar_hdr \<Rightarrow> Entry \<Rightarrow> 'e ex_err + pax_map tar_hdr" where
  "setXattrs get hdr ent =
     (let found =
        (if 0 < length (Ent_XattrsIn ent) then
           (case DecodeXattrs (Ent_XattrsIn ent) of Inl e \<Rightarrow> Inl (ExXattrs e) | Inr m \<Rightarrow> Inr m)
         else if length (Ent_XattrsKey ent) = Size then
           (case Parse (Ent_XattrsKey ent) of
              Inl e \<Rightarrow> Inl (ExXattrsKey (th_Name hdr) e)
            | Inr xk \<Rightarrow>
                (case get xk of
                   Inl e \<Rightarrow> Inl (ExGet e)
                 | Inr data \<Rightarrow> (case DecodeXattrs data of Inl e \<Rightarrow> Inl (ExXattrs e) | Inr m \<Rightarrow> Inr m)))
         else Inr Map.empty)
      in case found of Inl e \<Rightarrow> Inl e | Inr m \<Rightarrow> Inr (hdr\<lparr>th_PAX := pax_of m\<rparr>))"

definition put_header :: "(pax_map tar_hdr \<Rightarrow> bool) \<Rightarrow> pax_map tar_hdr \<Rightarrow> tar_writer \<Rightarrow> ('e ex_err + tar_writer) option" where
  "put_header fits h w = Some (case tw_WriteHeader fits h w of Inl e \<Rightarrow> Inl (ExTar e) | Inr w' \<Rightarrow> Inr w')"

definition ex_then :: "('e ex_err + 'a) option \<Rightarrow> ('a \<Rightarrow> ('e ex_err + 'b) option) \<Rightarrow> ('e ex_err + 'b) option" where
  "ex_then r f = (case r of None \<Rightarrow> None | Some (Inl e) \<Rightarrow> Some (Inl e) | Some (Inr a) \<Rightarrow> f a)"

definition tar_sink :: "(tar_err \<Rightarrow> 'e) \<Rightarrow> tar_writer \<Rightarrow> bytes \<Rightarrow> 'e + tar_writer" where
  "tar_sink mk w b = (case tw_Write w b of Inl e \<Rightarrow> Inl (mk e) | Inr w' \<Rightarrow> Inr w')"

definition writeContent :: "cbor \<Rightarrow> (tar_err \<Rightarrow> 'e) \<Rightarrow> (key \<Rightarrow> 'e + bytes) \<Rightarrow> nat \<Rightarrow> key \<Rightarrow> tar_writer \<Rightarrow> ('e ex_err + tar_writer) option" where
  "writeContent C mk get fuel k w =
     map_option (map_sum ExTree id) (WriteContent C (tar_sink mk) get fuel w k)"

definition base_header :: "bytes \<Rightarrow> Entry \<Rightarrow> pax_map tar_hdr" where
  "base_header name ent =
     \<lparr>th_Name = name, th_Mode = Ent_Mode ent AND 0xFFF, th_Uid = Ent_UID ent, th_Gid = Ent_GID ent, th_ModTime = Ent_Mtime ent,
      th_Typeflag = TypeReg, th_Size = 0, th_Linkname = [], th_Devmajor = 0, th_Devminor = 0, th_PAX = Map.empty\<rparr>"

definition export_entry :: "cbor \<Rightarrow> (pax_map tar_hdr \<Rightarrow> bool) \<Rightarrow> (tar_err \<Rightarrow> 'e) \<Rightarrow> (key \<Rightarrow> 'e + bytes) \<Rightarrow> nat \<Rightarrow>
    (key \<Rightarrow> bytes \<Rightarrow> tar_writer \<Rightarrow> ('e ex_err + tar_writer) option) \<Rightarrow> bytes \<Rightarrow> tar_writer \<Rightarrow> Entry \<Rightarrow> ('e ex_err + tar_writer) option" where
  "export_entry C fits mk get fuel dir pre w ent =
     (let part = Ent_Name ent in
      if unsafe_name part then Some (Inl (ExUnsafe part))
      else
        let name = filepath_Join pre part in
        case setXattrs get (base_header name ent) ent of
          Inl e \<Rightarrow> Some (Inl e)
        | Inr hdr \<Rightarrow>
            let fmt = Ent_Mode ent AND S_IFMT in
            if fmt = S_IFDIR then
              ex_then (put_header fits (hdr\<lparr>th_Typeflag := TypeDir, th_Name := name @ [0x2F]\<rparr>) w) (\<lambda>w.
                case Parse (Ent_ContentKey ent) of Inl e \<Rightarrow> Some (Inl (ExKey e)) | Inr ck \<Rightarrow> dir ck name w)
            else if fmt = S_IFREG then
              (case Parse (Ent_ContentKey ent) of
                 Inl e \<Rightarrow> Some (Inl (ExKey e))
               | Inr ck \<Rightarrow>
                   ex_then (put_header fits (hdr\<lparr>th_Typeflag := TypeReg, th_Size := Key_Length ck\<rparr>) w) (\<lambda>w.
                     writeContent C mk get fuel ck w))
            else if fmt = S_IFLNK then
              put_header fits (hdr\<lparr>th_Typeflag := TypeSymlink, th_Linkname := Ent_LinkTarget ent\<rparr>) w
            else if fmt = S_IFIFO then put_header fits (hdr\<lparr>th_Typeflag := TypeFifo\<rparr>) w
            else if fmt = S_IFCHR \<or> fmt = S_IFBLK then
              (if length (Ent_Rdev ent) \<noteq> 2 then Some (Inl (ExDevice name))
               else put_header fits (hdr\<lparr>th_Typeflag := (if fmt = S_IFCHR then TypeChar else TypeBlock),
                      th_Devmajor := Ent_Rdev ent ! 0, th_Devminor := Ent_Rdev ent ! 1\<rparr>) w)
            else if fmt = S_IFSOCK then Some (Inr w)
            else Some (Inl (ExType name fmt)))"

primrec export_dir :: "cbor \<Rightarrow> (pax_map tar_hdr \<Rightarrow> bool) \<Rightarrow> (tar_err \<Rightarrow> 'e) \<Rightarrow> (key \<Rightarrow> 'e + bytes) \<Rightarrow> nat \<Rightarrow> nat \<Rightarrow>
    key \<Rightarrow> bytes \<Rightarrow> tar_writer \<Rightarrow> ('e ex_err + tar_writer) option" where
  "export_dir C fits mk get fuel 0 k pre w = None"
| "export_dir C fits mk get fuel (Suc depth) k pre w =
     ex_then (map_option (map_sum ExTree id) (CollectEntries C get fuel k)) (\<lambda>entries.
       fold_err (export_entry C fits mk get fuel (export_dir C fits mk get fuel depth) pre) w entries)"

text \<open>\<open>tarexport.Write\<close> on a writer that serves \<open>calls\<close> calls; the result is the archive.\<close>

definition tar_Write :: "cbor \<Rightarrow> (pax_map tar_hdr \<Rightarrow> bool) \<Rightarrow> (tar_err \<Rightarrow> 'e) \<Rightarrow> (key \<Rightarrow> 'e + bytes) \<Rightarrow> nat \<Rightarrow> nat option \<Rightarrow>
    key \<Rightarrow> ('e ex_err + member list) option" where
  "tar_Write C fits mk get fuel calls root =
     (if Key_Type root \<noteq> DirLeaf \<and> Key_Type root \<noteq> DirNode then Some (Inl (ExNotDir root))
      else
        ex_then (export_dir C fits mk get fuel fuel root [] \<lparr>tw_members = [], tw_left = calls\<rparr>) (\<lambda>w.
          Some (case tw_Close w of Inl e \<Rightarrow> Inl (ExTar e) | Inr w \<Rightarrow> Inr (tw_members w))))"

section \<open>The members of a tree\<close>

definition child_path :: "bytes \<Rightarrow> bytes \<Rightarrow> bytes" where
  "child_path pre n = (if pre = [] then n else pre @ 0x2F # n)"

definition tree_header :: "bytes \<Rightarrow> inode \<Rightarrow> pax_map tar_hdr" where
  "tree_header name i =
     \<lparr>th_Name = name, th_Mode = ucast (in_perm i) AND 0xFFF, th_Uid = ucast (in_uid i), th_Gid = ucast (in_gid i), th_ModTime = in_mtime i,
      th_Typeflag = TypeReg, th_Size = 0, th_Linkname = [], th_Devmajor = 0, th_Devminor = 0,
      th_PAX = (case in_body i of BLnk t \<Rightarrow> Map.empty | _ \<Rightarrow> pax_of (map_of (in_xattrs i)))\<rparr>"

fun tree_members :: "bytes \<Rightarrow> bytes \<times> tree \<Rightarrow> member list" where
  "tree_members pre (n, Tree i kids) =
     (let name = child_path pre n; hdr = tree_header name i in
      case in_body i of
        BReg b \<Rightarrow> [(hdr\<lparr>th_Typeflag := TypeReg, th_Size := of_nat (length b)\<rparr>, b)]
      | BDir \<Rightarrow> (hdr\<lparr>th_Typeflag := TypeDir, th_Name := name @ [0x2F]\<rparr>, []) # concat (map (tree_members name) kids)
      | BLnk t \<Rightarrow> [(hdr\<lparr>th_Typeflag := TypeSymlink, th_Linkname := t\<rparr>, [])]
      | BChr a b \<Rightarrow> [(hdr\<lparr>th_Typeflag := TypeChar, th_Devmajor := ucast a, th_Devminor := ucast b\<rparr>, [])]
      | BBlk a b \<Rightarrow> [(hdr\<lparr>th_Typeflag := TypeBlock, th_Devmajor := ucast a, th_Devminor := ucast b\<rparr>, [])]
      | BFifo \<Rightarrow> [(hdr\<lparr>th_Typeflag := TypeFifo\<rparr>, [])]
      | _ \<Rightarrow> [])"

section \<open>What the writer accepts\<close>

text \<open>A tree that a PAX archive can carry: names without NUL or separator, small device numbers,
  file sizes below 2^63, headers whose records fit.\<close>

fun portable :: "(pax_map tar_hdr \<Rightarrow> bool) \<Rightarrow> bytes \<Rightarrow> bytes \<times> tree \<Rightarrow> bool" where
  "portable fits pre (n, Tree i kids) \<longleftrightarrow> good_name n \<and>
     (case in_body i of
        BReg b \<Rightarrow> length b < 2 ^ 63
      | BLnk t \<Rightarrow> 0 \<notin> set t
      | BChr a b \<Rightarrow> a < 0x200000 \<and> b < 0x200000
      | BBlk a b \<Rightarrow> a < 0x200000 \<and> b < 0x200000
      | BOdd \<Rightarrow> False
      | _ \<Rightarrow> True) \<and>
     list_all (\<lambda>m. fits (fst m)) (tree_members pre (n, Tree i kids)) \<and> sorted_wrt (<) (map fst kids) \<and>
     (\<forall>x \<in> set kids. portable fits (child_path pre n) x)"

definition open_writer :: "member list \<Rightarrow> tar_writer" where
  "open_writer ms = \<lparr>tw_members = ms, tw_left = None\<rparr>"

lemma WriteHeader_open:
  "\<not> member_short ms \<Longrightarrow> header_ok fits h \<Longrightarrow> tw_WriteHeader fits h (open_writer ms) = Inr (open_writer (ms @ [(h, [])]))"
  by (simp add: tw_WriteHeader_def open_writer_def tw_call_def)

lemma put_header_open:
  "\<not> member_short ms \<Longrightarrow> header_ok fits h \<Longrightarrow> put_header fits h (open_writer ms) = Some (Inr (open_writer (ms @ [(h, [])])))"
  by (simp add: put_header_def WriteHeader_open)

lemma Write_open:
  "length c + length b \<le> unat (th_Size h) \<Longrightarrow> tw_Write (open_writer (ms @ [(h, c)])) b = Inr (open_writer (ms @ [(h, c @ b)]))"
  by (simp add: tw_Write_def open_writer_def tw_call_def)

lemma not_short_snoc: "member_short (ms @ [(h, c)]) \<longleftrightarrow> length c < unat (th_Size h)"
  by (simp add: member_short_def)

section \<open>Content\<close>

lemma fold_content_tar:
  assumes "list_all2 (\<lambda>k c. \<forall>d. length d + length c \<le> unat (th_Size h) \<longrightarrow>
      f (open_writer (ms @ [(h, d)])) k = Some (Inr (open_writer (ms @ [(h, d @ c)])))) ks cs"
    and "length d + length (concat cs) \<le> unat (th_Size h)"
  shows "fold_err f (open_writer (ms @ [(h, d)])) ks = Some (Inr (open_writer (ms @ [(h, d @ concat cs)])))"
  using assms
proof (induction ks cs arbitrary: d rule: list_all2_induct)
  case (Cons k ks c cs)
  have "f (open_writer (ms @ [(h, d)])) k = Some (Inr (open_writer (ms @ [(h, d @ c)])))" using Cons(1,4) by simp
  moreover have "fold_err f (open_writer (ms @ [(h, d @ c)])) ks = Some (Inr (open_writer (ms @ [(h, (d @ c) @ concat cs)])))"
    using Cons.IH Cons.prems by simp
  ultimately show ?case by simp
qed simp

lemma tar_content:
  assumes "file_tree C get n k c" and "n \<le> fuel" and "length d + length c \<le> unat (th_Size h)"
  shows "WriteContent C (tar_sink mk) get fuel (open_writer (ms @ [(h, d)])) k = Some (Inr (open_writer (ms @ [(h, d @ c)])))"
  using assms
proof (induction arbitrary: fuel d rule: file_tree.induct)
  case (blob k b n)
  then obtain f where f: "fuel = Suc f" by (cases fuel) auto
  then show ?case using blob by (simp add: tar_sink_def Write_open)
next
  case (fnode k b ks n cs)
  then obtain f where f: "fuel = Suc f" "n \<le> f" by (cases fuel) auto
  have "list_all2 (\<lambda>k c. \<forall>d. length d + length c \<le> unat (th_Size h) \<longrightarrow>
      WriteContent C (tar_sink mk) get f (open_writer (ms @ [(h, d)])) k = Some (Inr (open_writer (ms @ [(h, d @ c)])))) ks cs"
    using fnode.IH by (rule list_all2_mono) (use f(2) in auto)
  then have "fold_err (WriteContent C (tar_sink mk) get f) (open_writer (ms @ [(h, d)])) ks =
      Some (Inr (open_writer (ms @ [(h, d @ concat cs)])))"
    using fnode.prems(2) by (rule fold_content_tar)
  moreover have "\<forall>k \<in> set ks. canonical k"
    using fnode.IH by (auto simp: list_all2_conv_all_nth in_set_conv_nth)
  ultimately show ?case
    using fnode.hyps(1-3) by (simp add: f(1) ktype_defs DecodeFileNode_canonical)
qed

section \<open>Entries\<close>

lemma pax_of_empty [simp]: "pax_of Map.empty = Map.empty"
  by (simp add: pax_of_def fun_eq_iff)

lemma setXattrs_ok:
  assumes "ent_head get e n i"
  shows "setXattrs get (base_header name e) e = Inr (tree_header name i)"
proof -
  have b: "(base_header name e)\<lparr>th_PAX := m\<rparr> = (tree_header name i)\<lparr>th_PAX := m\<rparr>" for m
    using assms by (simp add: base_header_def tree_header_def ent_head_def st_mode_perm)
  have x: "shows_xattrs get e i" using assms by (simp add: ent_head_def)
  consider (lnk) t where "in_body i = BLnk t" | (other) "\<forall>t. in_body i \<noteq> BLnk t" by blast
  then show ?thesis
  proof cases
    case lnk
    then have "Ent_XattrsIn e = []" "Ent_XattrsKey e = []" using x by (simp_all add: shows_xattrs_def)
    then show ?thesis using lnk b [of Map.empty] by (simp add: setXattrs_def Size_def) (simp add: tree_header_def)
  next
    case other
    then have p: "th_PAX (tree_header name i) = pax_of (map_of (in_xattrs i))" by (simp add: tree_header_def split: body.split)
    have h: "(tree_header name i)\<lparr>th_PAX := pax_of (map_of (in_xattrs i))\<rparr> = tree_header name i" unfolding p [symmetric] by simp
    show ?thesis
    proof (cases "in_xattrs i = []")
      case True
      then have "Ent_XattrsIn e = []" "Ent_XattrsKey e = []" using x by (simp_all add: shows_xattrs_def)
      then show ?thesis using b [of Map.empty] h True by (simp add: setXattrs_def Size_def)
    next
      case False
      from x other False consider (inl) "Ent_XattrsIn e \<noteq> []" "DecodeXattrs (Ent_XattrsIn e) = Inr (map_of (in_xattrs i))"
        | (spill) data where "Ent_XattrsIn e = []" "canonical (Ent_XattrsKey e)" "get (Ent_XattrsKey e) = Inr data"
          "DecodeXattrs data = Inr (map_of (in_xattrs i))"
        unfolding shows_xattrs_def by (metis (mono_tags, lifting))
      then show ?thesis
      proof cases
        case inl
        then show ?thesis using b [of "pax_of (map_of (in_xattrs i))"] h by (simp add: setXattrs_def)
      next
        case spill
        moreover have "length (Ent_XattrsKey e) = Size" using spill(2) by (simp add: canonical_def is_key_def)
        moreover have "Parse (Ent_XattrsKey e) = Inr (Ent_XattrsKey e)" using spill(2) by (simp add: Parse_ok)
        ultimately show ?thesis using b [of "pax_of (map_of (in_xattrs i))"] h by (simp add: setXattrs_def)
      qed
    qed
  qed
qed

lemma of_nat_len: "length b < 2 ^ 63 \<Longrightarrow> unat (of_nat (length b) :: u64) = length b" "length b < 2 ^ 63 \<Longrightarrow> 0 \<le> sint (of_nat (length b) :: u64)"
proof -
  assume b: "length b < 2 ^ 63"
  then show u: "unat (of_nat (length b) :: u64) = length b" by (simp add: unat_of_nat)
  then have "uint (of_nat (length b) :: u64) < 2 ^ 63" using b by (metis nat_int_comparison(2) of_nat_numeral of_nat_power uint_nat)
  then have "signed_take_bit 63 (uint (of_nat (length b) :: u64)) = uint (of_nat (length b) :: u64)"
    by (intro signed_take_bit_int_eq_self) (simp_all add: order.trans [OF _ uint_ge_0])
  then show "0 \<le> sint (of_nat (length b) :: u64)" by (simp add: sint_uint)
qed

lemma child_path_join: "\<forall>c \<in> set cs. real_name c \<Longrightarrow> child_path (join_slash cs) n = join_slash (cs @ [n])"
  using join_slash_eq_Nil [of cs] by (cases "cs = []") (auto simp: child_path_def join_slash_snoc real_name_def)

lemma join_no_nul: "\<forall>c \<in> set cs. good_name c \<Longrightarrow> 0 \<notin> set (join_slash cs)"
  by (induction cs) (auto simp: good_name_def)

lemma members_full: "(h, c) \<in> set (tree_members pre x) \<Longrightarrow> portable fits pre x \<Longrightarrow> \<not> length c < unat (th_Size h)"
proof (induction pre x rule: tree_members.induct)
  case (1 pre n i kids)
  then show ?case by (auto simp: Let_def tree_header_def of_nat_len split: body.splits)
qed

lemma not_short_append:
  assumes "\<not> member_short ms" and "\<And>h c. (h, c) \<in> set xs \<Longrightarrow> \<not> length c < unat (th_Size h)"
  shows "\<not> member_short (ms @ xs)"
proof (cases xs rule: rev_cases)
  case (snoc ys m)
  then show ?thesis using assms(2) [of "fst m" "snd m"] by (cases m) (auto simp: member_short_def)
qed (use assms(1) in simp)

definition exports :: "cbor \<Rightarrow> (pax_map tar_hdr \<Rightarrow> bool) \<Rightarrow> (tar_err \<Rightarrow> 'e) \<Rightarrow> (key \<Rightarrow> 'e + bytes) \<Rightarrow> bytes \<Rightarrow> Entry \<Rightarrow> bytes \<times> tree \<Rightarrow> nat \<Rightarrow> bool" where
  "exports C fits mk get pre e x N \<longleftrightarrow> (\<forall>fuel \<ge> N. \<forall>depth \<ge> N. \<forall>ms. \<not> member_short ms \<longrightarrow>
     export_entry C fits mk get fuel (export_dir C fits mk get fuel depth) pre (open_writer ms) e = Some (Inr (open_writer (ms @ tree_members pre x))))"

lemma exports_mono: "exports C fits mk get pre e x N \<Longrightarrow> N \<le> M \<Longrightarrow> exports C fits mk get pre e x M"
  by (auto simp: exports_def)

lemma exports_loop:
  assumes "list_all2 (\<lambda>e x. exports C fits mk get pre e x N) es kids" and "\<forall>x \<in> set kids. portable fits pre x"
    and "N \<le> fuel" and "N \<le> depth" and "\<not> member_short ms"
  shows "fold_err (export_entry C fits mk get fuel (export_dir C fits mk get fuel depth) pre) (open_writer ms) es =
     Some (Inr (open_writer (ms @ concat (map (tree_members pre) kids))))"
  using assms
proof (induction es kids arbitrary: ms rule: list_all2_induct)
  case (Cons e es x kids)
  have "export_entry C fits mk get fuel (export_dir C fits mk get fuel depth) pre (open_writer ms) e =
      Some (Inr (open_writer (ms @ tree_members pre x)))"
    using Cons(1) Cons.prems(2-4) by (simp add: exports_def)
  moreover have "\<not> member_short (ms @ tree_members pre x)"
  proof (rule not_short_append [OF Cons.prems(4)])
    show "\<not> length c < unat (th_Size h)" if "(h, c) \<in> set (tree_members pre x)" for h c
      using members_full [OF that, of fits] Cons.prems(1) by simp
  qed
  ultimately show ?case using Cons.IH [of "ms @ tree_members pre x"] Cons.prems by simp
qed simp

lemma exports_all:
  assumes "list_all2 (\<lambda>e x. \<exists>N. exports C fits mk get pre e x N) es kids"
  shows "\<exists>N. list_all2 (\<lambda>e x. exports C fits mk get pre e x N) es kids"
  using assms
proof (induction es kids rule: list_all2_induct)
  case (Cons e es x kids)
  obtain N M where "exports C fits mk get pre e x N" "list_all2 (\<lambda>e x. exports C fits mk get pre e x M) es kids"
    using Cons by blast
  then have "exports C fits mk get pre e x (max N M)" "list_all2 (\<lambda>e x. exports C fits mk get pre e x (max N M)) es kids"
    by (auto intro: exports_mono elim!: list_all2_mono)
  then show ?case by (intro exI [of _ "max N M"]) simp
qed simp

lemma header_of_tree:
  assumes "portable fits pre (n, Tree i kids)" and "pre = join_slash cs" and "\<forall>c \<in> set cs. good_name c"
    and "(h, c) \<in> set (take 1 (tree_members pre (n, Tree i kids)))"
  shows "header_ok fits h"
proof -
  have r: "\<forall>c \<in> set cs. real_name c" using assms(3) good_real by blast
  have "0 \<notin> set (child_path pre n)"
    using assms(1,3) join_no_nul [of "cs @ [n]"] by (simp add: assms(2) child_path_join [OF r])
  moreover have "fits h" using assms(1,4) by (auto simp: list_all_iff dest!: in_set_takeD)
  moreover have "(ucast a :: u64) < 0x200000" if "a < 0x200000" for a :: u32
    using that by (simp add: word_less_nat_alt unat_ucast_wider)
  ultimately show ?thesis using assms(1,4)
    by (cases "in_body i") (auto simp: Let_def header_ok_def tree_header_def of_nat_len)
qed

lemma entry_head:
  assumes "ent_head get e n i" and "good_name n" and "pre = join_slash cs" and "\<forall>c \<in> set cs. good_name c"
  shows "\<not> unsafe_name (Ent_Name e)" "filepath_Join pre (Ent_Name e) = child_path pre n" "Ent_Mode e AND S_IFMT = fmt_of (in_body i)"
proof -
  have n: "Ent_Name e = n" "Ent_Mode e = st_mode i" using assms(1) by (simp_all add: ent_head_def)
  have r: "\<forall>c \<in> set cs. real_name c" "real_name n" using assms(2,4) good_real by auto
  show "\<not> unsafe_name (Ent_Name e)" using assms(2) by (simp add: n unsafe_name_def good_name_def)
  show "filepath_Join pre (Ent_Name e) = child_path pre n" using Join_child [OF r] child_path_join [OF r(1)] by (simp add: n assms(3))
  show "Ent_Mode e AND S_IFMT = fmt_of (in_body i)" by (simp add: n st_mode_fmt)
qed

lemma shown_names: "list_all2 (ent_shows C get) es kids \<Longrightarrow> map Ent_Name es = map fst kids"
  by (induction es kids rule: list_all2_induct) (auto simp: ent_head_def elim: ent_shows.cases)

lemma entry_exports:
  assumes "ent_shows C get e x" and "portable fits pre x" and "pre = join_slash cs" and "\<forall>c \<in> set cs. good_name c"
  shows "\<exists>N. exports C fits mk get pre e x N"
  using assms
proof (induction arbitrary: pre cs rule: ent_shows.induct)
  case (reg e n i b h)
  have g: "good_name n" "length b < 2 ^ 63" using reg.prems(1) reg.hyps(2) by simp_all
  note hd = entry_head [OF reg.hyps(1) g(1) reg.prems(2,3)]
  let ?h = "(tree_header (child_path pre n) i)\<lparr>th_Typeflag := TypeReg, th_Size := of_nat (length b)\<rparr>"
  have ok: "header_ok fits ?h" using header_of_tree [OF reg.prems, of ?h b] reg.hyps(2) by (simp add: Let_def)
  have ct: "WriteContent C (tar_sink mk) get fuel (open_writer (ms @ [(?h, [])])) (Ent_ContentKey e) = Some (Inr (open_writer (ms @ [(?h, b)])))"
    if "h \<le> fuel" for fuel ms
    using tar_content [OF reg.hyps(4) that, of "[]" ?h mk ms] g(2) by (simp add: of_nat_len)
  have "exports C fits mk get pre e (n, Tree i []) h"
    using hd ct ok reg.hyps(2,3,5) setXattrs_ok [OF reg.hyps(1)]
    by (simp add: exports_def export_entry_def Let_def S_IF_defs Parse_ok [THEN iffD2] put_header_open ex_then_def writeContent_def)
  then show ?case by blast
next
  case (dir e n i h es kids)
  have g: "good_name n" using dir.prems(1) by simp
  note hd = entry_head [OF dir.hyps(1) g dir.prems(2,3)]
  let ?name = "child_path pre n"
  let ?h = "(tree_header ?name i)\<lparr>th_Typeflag := TypeDir, th_Name := ?name @ [0x2F]\<rparr>"
  have r: "\<forall>c \<in> set cs. real_name c" using dir.prems(3) good_real by blast
  have nm: "?name = join_slash (cs @ [n])" "\<forall>c \<in> set (cs @ [n]). good_name c"
    using g dir.prems(2,3) child_path_join [OF r] by auto
  have kp: "\<forall>x \<in> set kids. portable fits ?name x" using dir.prems(1) by simp
  have "list_all2 (\<lambda>e x. \<exists>N. exports C fits mk get ?name e x N) es kids"
    using dir.IH by (rule list.rel_mono_strong) (use kp nm in blast)
  then obtain N where N: "list_all2 (\<lambda>e x. exports C fits mk get ?name e x N) es kids" using exports_all by blast
  have "0 \<notin> set ?name" using join_no_nul [OF nm(2)] nm(1) by simp
  moreover have "fits ?h" using dir.prems(1) dir.hyps(2) by (simp add: Let_def)
  ultimately have ok: "header_ok fits ?h" by (simp add: header_ok_def tree_header_def)
  have "list_all2 (ent_shows C get) es kids" using dir.IH by (rule list_all2_mono) simp
  then have "names_sorted es" using shown_names dir.prems(1) by (metis names_sorted_def portable.simps)
  then have col: "CollectEntries C get fuel (Ent_ContentKey e) = Some (Inr es)" if "h \<le> fuel" for fuel
    using collectEntries_tree [OF dir.hyps(4), of "[]" fuel] that by (simp add: CollectEntries_def)
  have step: "export_entry C fits mk get fuel (export_dir C fits mk get fuel depth) pre (open_writer ms) e =
      export_dir C fits mk get fuel depth (Ent_ContentKey e) ?name (open_writer (ms @ [(?h, [])]))" if "\<not> member_short ms" for fuel depth ms
    using hd ok dir.hyps(2,3) setXattrs_ok [OF dir.hyps(1)] that
    by (simp add: export_entry_def Let_def S_IF_defs Parse_ok [THEN iffD2] put_header_open ex_then_def)
  have "exports C fits mk get pre e (n, Tree i kids) (Suc (max h N))"
    unfolding exports_def
  proof (intro allI impI)
    fix fuel depth ms
    assume f: "Suc (max h N) \<le> fuel" "Suc (max h N) \<le> depth" and sh: "\<not> member_short ms"
    then obtain d where d: "depth = Suc d" "N \<le> d" by (cases depth) auto
    have "fold_err (export_entry C fits mk get fuel (export_dir C fits mk get fuel d) ?name) (open_writer (ms @ [(?h, [])])) es =
        Some (Inr (open_writer ((ms @ [(?h, [])]) @ concat (map (tree_members ?name) kids))))"
      using f d by (intro exports_loop [OF N kp]) (auto simp: not_short_snoc tree_header_def)
    then show "export_entry C fits mk get fuel (export_dir C fits mk get fuel depth) pre (open_writer ms) e =
        Some (Inr (open_writer (ms @ tree_members pre (n, Tree i kids))))"
      using col [of fuel] f dir.hyps(2) by (simp add: step [OF sh] d(1) ex_then_def Let_def)
  qed
  then show ?case by blast
next
  case (lnk e n i t)
  have g: "good_name n" using lnk.prems(1) by simp
  note hd = entry_head [OF lnk.hyps(1) g lnk.prems(2,3)]
  have ok: "header_ok fits ((tree_header (child_path pre n) i)\<lparr>th_Typeflag := TypeSymlink, th_Linkname := t\<rparr>)"
    using header_of_tree [OF lnk.prems, of _ "[]"] lnk.hyps(2) by (simp add: Let_def)
  have "exports C fits mk get pre e (n, Tree i []) 0"
    using hd ok lnk.hyps(2,3) setXattrs_ok [OF lnk.hyps(1)]
    by (simp add: exports_def export_entry_def Let_def S_IF_defs put_header_open)
  then show ?case by blast
next
  case (dev e n i a b)
  have g: "good_name n" using dev.prems(1) by simp
  note hd = entry_head [OF dev.hyps(1) g dev.prems(2,3)]
  have ok: "header_ok fits h" if "(h, c) \<in> set (take 1 (tree_members pre (n, Tree i [])))" for h c
    using header_of_tree [OF dev.prems that] .
  have "exports C fits mk get pre e (n, Tree i []) 0"
    using dev.hyps(2) hd ok dev.hyps(3) setXattrs_ok [OF dev.hyps(1)]
    by (auto simp: exports_def export_entry_def Let_def S_IF_defs put_header_open)
  then show ?case by blast
next
  case (plain e n i)
  have g: "good_name n" using plain.prems(1) by simp
  note hd = entry_head [OF plain.hyps(1) g plain.prems(2,3)]
  have ok: "header_ok fits h" if "(h, c) \<in> set (take 1 (tree_members pre (n, Tree i [])))" for h c
    using header_of_tree [OF plain.prems that] .
  have "exports C fits mk get pre e (n, Tree i []) 0"
    using plain.hyps(2) hd ok setXattrs_ok [OF plain.hyps(1)]
    by (auto simp: exports_def export_entry_def Let_def S_IF_defs put_header_open)
  then show ?case by blast
qed

text \<open>The export of a directory is the sequence of its tree's members.\<close>

lemma export_members:
  assumes "dir_shows C get k kids" and "\<forall>x \<in> set kids. portable fits [] x" and "sorted_wrt (<) (map fst kids)"
    and "Key_Type k = DirLeaf \<or> Key_Type k = DirNode"
  shows "\<exists>N. \<forall>fuel \<ge> N. tar_Write C fits mk get fuel None k = Some (Inr (concat (map (tree_members []) kids)))"
proof -
  obtain h es where d: "dir_tree C get h k es" "list_all2 (ent_shows C get) es kids" using assms(1) by (auto simp: dir_shows_def)
  have "list_all2 (\<lambda>e x. \<exists>N. exports C fits mk get [] e x N) es kids"
    using d(2) by (rule list.rel_mono_strong) (rule entry_exports [where cs = "[]"], use assms(2) in simp_all)
  then obtain N where N: "list_all2 (\<lambda>e x. exports C fits mk get [] e x N) es kids" using exports_all by blast
  have "names_sorted es" using shown_names [OF d(2)] assms(3) by (simp add: names_sorted_def)
  then have col: "CollectEntries C get fuel k = Some (Inr es)" if "h \<le> fuel" for fuel
    using collectEntries_tree [OF d(1), of "[]" fuel] that by (simp add: CollectEntries_def)
  have "tar_Write C fits mk get fuel None k = Some (Inr (concat (map (tree_members []) kids)))" if f: "Suc (max h N) \<le> fuel" for fuel
  proof -
    obtain d where d: "fuel = Suc d" "N \<le> d" using f by (cases fuel) auto
    have "fold_err (export_entry C fits mk get fuel (export_dir C fits mk get fuel d) []) (open_writer []) es =
        Some (Inr (open_writer ([] @ concat (map (tree_members []) kids))))"
      using f d by (intro exports_loop [OF N assms(2)]) (auto simp: member_short_def)
    then have "export_dir C fits mk get fuel fuel k [] (open_writer []) = Some (Inr (open_writer (concat (map (tree_members []) kids))))"
      using col [of fuel] f by (subst d(1)) (simp add: ex_then_def)
    moreover have "\<not> member_short ([] @ concat (map (tree_members []) kids))"
    proof (rule not_short_append)
      fix h c
      assume "(h, c) \<in> set (concat (map (tree_members []) kids))"
      then obtain x where x: "x \<in> set kids" "(h, c) \<in> set (tree_members [] x)" by auto
      show "\<not> length c < unat (th_Size h)" using members_full [OF x(2), of fits] x(1) assms(2) by blast
    qed (simp add: member_short_def)
    ultimately show ?thesis using assms(4)
      by (auto simp: tar_Write_def ex_then_def open_writer_def tw_Close_def tw_call_def)
  qed
  then show ?thesis by blast
qed

end
