(* ===== verification/Amber_Extract.thy ===== *)
theory Amber_Extract
  imports Amber_Export
begin

text \<open>
  Package \<open>tarextract\<close>: an archive laid out in a directory. The archive reader of the standard
  library delivers members, each with the content that could be read and the error that
  interrupted it, and then the end of the archive or an error. A header's PAX records are a
  list, in the order in which the loop over Go's map happens to visit them.
\<close>

section \<open>archive/tar, reading\<close>

type_synonym in_hdr = "(bytes \<times> bytes) list tar_hdr"

record in_member =
  im_hdr :: in_hdr
  im_body :: bytes
  im_err :: "errno option"

datatype ext_err = ExtSys errno | ExtTar errno | ExtUnsafe bytes | ExtNonDir bytes | ExtType bytes tar_type

type_synonym 'r ext = "host \<Rightarrow> (ext_err + 'r) \<times> host"

definition ext_sys :: "'r os \<Rightarrow> 'r ext" where
  "ext_sys f h = (case f h of (Inl e, h) \<Rightarrow> (Inl (ExtSys e), h) | (Inr r, h) \<Rightarrow> (Inr r, h))"

definition ext_then :: "'a ext \<Rightarrow> ('a \<Rightarrow> 'b ext) \<Rightarrow> 'b ext" where
  "ext_then m f h = (case m h of (Inl e, h) \<Rightarrow> (Inl e, h) | (Inr a, h) \<Rightarrow> f a h)"

definition ext_return :: "'a \<Rightarrow> 'a ext" where
  "ext_return a h = (Inr a, h)"

section \<open>Where a member goes\<close>

definition safeJoin :: "bytes \<Rightarrow> bytes \<Rightarrow> ext_err + bytes" where
  "safeJoin dest name =
     (if dotdot \<in> set (split_slash name) then Inl (ExtUnsafe name)
      else
        let clean = filepath_Clean (0x2F # name); target = filepath_Join dest clean in
        if target \<noteq> dest \<and> \<not> HasPrefix target (dest @ [0x2F]) then Inl (ExtUnsafe name) else Inr target)"

text \<open>The loop over a path and its parents below the destination; a path has fewer components
  than bytes, which bounds it.\<close>

primrec reject_loop :: "nat \<Rightarrow> bytes \<Rightarrow> bytes \<Rightarrow> host \<Rightarrow> ext_err option" where
  "reject_loop 0 dest p h = None"
| "reject_loop (Suc n) dest p h =
     (if \<not> HasPrefix p (dest @ [0x2F]) then None
      else case host_Lstat p h of
        Inl e \<Rightarrow> if e = ENOENT then reject_loop n dest (filepath_Dir p) h else Some (ExtSys e)
      | Inr i \<Rightarrow> if in_body i \<noteq> BDir then Some (ExtNonDir p) else reject_loop n dest (filepath_Dir p) h)"

definition rejectSymlinkComponents :: "bytes \<Rightarrow> bytes \<Rightarrow> unit ext" where
  "rejectSymlinkComponents dest p h =
     (case reject_loop (Suc (length p)) dest p h of None \<Rightarrow> (Inr (), h) | Some e \<Rightarrow> (Inl e, h))"

section \<open>Files and their attributes\<close>

text \<open>The copy writes what the reader delivers; the file is closed on every path.\<close>

definition writeRegular :: "bytes \<Rightarrow> bytes \<Rightarrow> errno option \<Rightarrow> unit ext" where
  "writeRegular target b rerr =
     ext_then (ext_sys (host_CreateExcl target 0x180)) (\<lambda>f h.
       case ext_sys (host_WriteAll f b) h of
         (Inl e, h) \<Rightarrow> (Inl e, snd (host_Close h))
       | (Inr _, h) \<Rightarrow>
           (case rerr of
              Some e \<Rightarrow> (Inl (ExtTar e), snd (host_Close h))
            | None \<Rightarrow> ext_sys host_Close h))"

definition isPrivilegeError :: "errno \<Rightarrow> bool" where
  "isPrivilegeError e \<longleftrightarrow> e = EPERM \<or> e = EACCES \<or> e = EOPNOTSUPP"

definition setMtime :: "bytes \<Rightarrow> 64 word \<Rightarrow> bool \<Rightarrow> unit ext" where
  "setMtime target ns isSymlink = ext_sys (unix_Utimes target isSymlink ns)"

primrec set_pax :: "bytes \<Rightarrow> (bytes \<times> bytes) list \<Rightarrow> unit ext" where
  "set_pax target [] h = (Inr (), h)"
| "set_pax target (kv # kvs) h =
     (if \<not> HasPrefix (fst kv) SchilyPrefix then set_pax target kvs h
      else case unix_Lsetxattr target (drop (length SchilyPrefix) (fst kv)) (snd kv) h of
        (Inr _, h) \<Rightarrow> set_pax target kvs h
      | (Inl e, h) \<Rightarrow> if isPrivilegeError e then set_pax target kvs h else (Inl (ExtSys e), h))"

definition applyMeta :: "bytes \<Rightarrow> in_hdr \<Rightarrow> bool \<Rightarrow> unit ext" where
  "applyMeta target hdr isSymlink =
     ext_then (\<lambda>h. if ho_root h then ext_sys (host_Lchown target (ucast (th_Uid hdr)) (ucast (th_Gid hdr))) h else (Inr (), h)) (\<lambda>_.
     ext_then (if isSymlink then ext_return ()
               else ext_then (ext_sys (unix_Chmod target (ucast (th_Mode hdr AND 0xFFF)))) (\<lambda>_. set_pax target (th_PAX hdr))) (\<lambda>_.
     setMtime target (th_ModTime hdr) isSymlink))"

section \<open>The members\<close>

text \<open>One member: the directories seen so far, whose attributes are applied at the end, are the
  result.\<close>

definition make_member :: "bytes \<Rightarrow> in_member \<Rightarrow> in_hdr list \<Rightarrow> in_hdr list ext" where
  "make_member target m dirs =
     (let hdr = im_hdr m; perm = ucast (th_Mode hdr AND 0xFFF) in
      case th_Typeflag hdr of
        TypeDir \<Rightarrow> ext_then (ext_sys (host_MkdirAll target 0x1C0)) (\<lambda>_. ext_return (dirs @ [hdr]))
      | TypeReg \<Rightarrow>
          ext_then (writeRegular target (im_body m) (im_err m)) (\<lambda>_.
          ext_then (applyMeta target hdr False) (\<lambda>_. ext_return dirs))
      | TypeSymlink \<Rightarrow>
          ext_then (ext_sys (host_Symlink (th_Linkname hdr) target)) (\<lambda>_.
          ext_then (applyMeta target hdr True) (\<lambda>_. ext_return dirs))
      | TypeFifo \<Rightarrow>
          ext_then (ext_sys (unix_Mkfifo target perm)) (\<lambda>_.
          ext_then (applyMeta target hdr False) (\<lambda>_. ext_return dirs))
      | TypeOther c \<Rightarrow> (\<lambda>h. (Inl (ExtType target (TypeOther c)), h))
      | t \<Rightarrow>
          (let dev = (if t = TypeChar then BChr else BBlk) (ucast (th_Devmajor hdr)) (ucast (th_Devminor hdr)) in
           (\<lambda>h. case unix_Mknod target dev perm h of
                 (Inl e, h) \<Rightarrow> if isPrivilegeError e then (Inr dirs, h) else (Inl (ExtSys e), h)
               | (Inr _, h) \<Rightarrow> ext_then (applyMeta target hdr False) (\<lambda>_. ext_return dirs) h)))"

definition extract_member :: "bytes \<Rightarrow> in_member \<Rightarrow> in_hdr list \<Rightarrow> in_hdr list ext" where
  "extract_member dest m dirs h =
     (case safeJoin dest (th_Name (im_hdr m)) of
        Inl e \<Rightarrow> (Inl e, h)
      | Inr target \<Rightarrow> ext_then (rejectSymlinkComponents dest target) (\<lambda>_. make_member target m dirs) h)"

primrec extract_members :: "bytes \<Rightarrow> in_member list \<Rightarrow> in_hdr list \<Rightarrow> in_hdr list ext" where
  "extract_members dest [] dirs = ext_return dirs"
| "extract_members dest (m # ms) dirs = ext_then (extract_member dest m dirs) (\<lambda>dirs. extract_members dest ms dirs)"

primrec apply_dirs :: "bytes \<Rightarrow> in_hdr list \<Rightarrow> unit ext" where
  "apply_dirs dest [] = ext_return ()"
| "apply_dirs dest (hdr # hdrs) = (\<lambda>h.
     case safeJoin dest (th_Name hdr) of
       Inl e \<Rightarrow> (Inl e, h)
     | Inr target \<Rightarrow> ext_then (applyMeta target hdr False) (\<lambda>_. apply_dirs dest hdrs) h)"

text \<open>\<open>tend\<close> is the error that ends the archive early, if any.\<close>

definition Extract :: "in_member list \<Rightarrow> errno option \<Rightarrow> bytes \<Rightarrow> unit ext" where
  "Extract ms tend dest =
     ext_then (ext_sys (host_MkdirAll dest 0x1ED)) (\<lambda>_.
     ext_then (extract_members dest ms []) (\<lambda>dirs h.
       case tend of Some e \<Rightarrow> (Inl (ExtTar e), h) | None \<Rightarrow> apply_dirs dest dirs h))"

end
