(* ===== verification/Amber_Confine.thy ===== *)
theory Amber_Confine
  imports Amber_Extract
begin

text \<open>
  An extraction writes below its destination only. A member's path is the destination and
  names below it (\<open>safe_target\<close>); once the symbolic-link check has passed, each component that
  exists is a directory (\<open>clear\<close>), so the path resolves to the same names below the
  directory that the destination denotes, and no call of the member reaches another path.
\<close>

section \<open>Paths below the destination\<close>

definition under :: "bytes \<Rightarrow> bytes list \<Rightarrow> bytes" where
  "under d cs = (if cs = [] then d else d @ 0x2F # join_slash cs)"

text \<open>A destination in clean form that can have names below it.\<close>

definition normal :: "bytes \<Rightarrow> bool" where
  "normal d \<longleftrightarrow> (\<exists>ds. ds \<noteq> [] \<and> (if is_abs d then d = 0x2F # join_slash ds \<and> (\<forall>c \<in> set ds. real_name c) else d = join_slash ds \<and> ups ds))"

lemma ups_slashless: "ups ds \<Longrightarrow> \<forall>c \<in> set ds. 0x2F \<notin> set c \<and> c \<noteq> []"
proof -
  assume "ups ds"
  then obtain k es where "ds = replicate k dotdot @ es" "\<forall>c \<in> set es. real_name c" unfolding ups_def by blast
  then have "c = dotdot \<or> real_name c" if "c \<in> set ds" for c using that by (auto split: if_splits)
  then show ?thesis by (fastforce simp: dotdot_def real_name_def)
qed

lemma clean_render:
  assumes "normal d" and cs: "\<forall>c \<in> set cs. real_name c"
  shows "filepath_Clean (under d cs) = under d cs" "filepath_Clean (under d cs @ [0x2F]) = under d cs" "normal (under d cs)" "under d cs \<noteq> []"
proof -
  obtain ds where ds: "ds \<noteq> []" "if is_abs d then d = 0x2F # join_slash ds \<and> (\<forall>c \<in> set ds. real_name c) else d = join_slash ds \<and> ups ds"
    using assms(1) unfolding normal_def by blast
  define all where "all = ds @ cs"
  have all: "all \<noteq> []" "if is_abs d then \<forall>c \<in> set all. real_name c else ups all"
  proof -
    have "ups (ds @ cs)" if "ups ds"
    proof -
      obtain k es where "ds = replicate k dotdot @ es" "\<forall>c \<in> set es. real_name c" using \<open>ups ds\<close> unfolding ups_def by blast
      then show ?thesis using cs unfolding ups_def by (intro exI [of _ k] exI [of _ "es @ cs"]) auto
    qed
    then show "all \<noteq> []" "if is_abs d then \<forall>c \<in> set all. real_name c else ups all" using ds cs by (auto simp: all_def split: if_splits)
  qed
  have sl: "\<forall>c \<in> set all. 0x2F \<notin> set c \<and> c \<noteq> []"
    using all ups_slashless [of all] by (cases "is_abs d") (simp_all add: real_name_def)
  have sl': "\<forall>c \<in> set ds. c \<noteq> []" using sl by (simp add: all_def)
  have ne: "d \<noteq> []" using ds sl' join_slash_eq_Nil [of ds] by (cases "is_abs d") (simp_all add: is_abs_def)
  have ab: "is_abs (under d cs) = is_abs d" "is_abs (under d cs @ [0x2F]) = is_abs d" "under d cs \<noteq> []"
    using ne by (auto simp: under_def is_abs_def)
  have r: "under d cs = (if is_abs d then 0x2F # join_slash all else join_slash all)"
    using ds join_slash_append [of ds cs] by (cases "is_abs d"; cases "cs = []") (simp_all add: under_def all_def)
  have sj: "split_slash (join_slash all) = all" using split_join [OF all(1)] sl by blast
  have sp: "split_slash (under d cs) = (if is_abs d then [] # all else all)" by (simp add: r sj)
  have sp': "split_slash (under d cs @ [0x2F]) = split_slash (under d cs) @ [[]]"
    using split_slash_append [of "under d cs" "[]"] by simp
  have f: "foldl (clean_step (is_abs d)) [] (split_slash (under d cs)) = rev all"
  proof (cases "is_abs d")
    case True
    then show ?thesis using all(2) clean_real [of all True "[]"] by (simp add: sp clean_step_def)
  next
    case False
    then show ?thesis using all(2) clean_ups [of all] by (simp add: sp)
  qed
  have f': "foldl (clean_step (is_abs d)) [] (split_slash (under d cs @ [0x2F])) = rev all" by (simp add: sp' f clean_step_def)
  show "filepath_Clean (under d cs) = under d cs" unfolding filepath_Clean_def ab f Let_def using all(1) by (simp add: r)
  show "filepath_Clean (under d cs @ [0x2F]) = under d cs" unfolding filepath_Clean_def ab f' Let_def using all(1) by (simp add: r)
  show "normal (under d cs)" unfolding normal_def ab using all by (intro exI [of _ all]) (simp add: r)
  show "under d cs \<noteq> []" by (rule ab)
qed

lemma under_snoc: "under d (cs @ [n]) = under d cs @ 0x2F # n"
  by (cases cs) (simp_all add: under_def join_slash_snoc)

lemma Dir_under:
  assumes "normal d" and "\<forall>c \<in> set cs. real_name c" and "0x2F \<notin> set n"
  shows "filepath_Dir (under d (cs @ [n])) = under d cs"
proof -
  have "dropWhile (\<lambda>c. c \<noteq> 0x2F) (rev n @ 0x2F # rev (under d cs)) = 0x2F # rev (under d cs)"
    using assms(3) by (subst dropWhile_append2) auto
  then show ?thesis using clean_render(2) [OF assms(1,2)] by (simp add: filepath_Dir_def under_snoc)
qed

lemma under_below: "cs \<noteq> [] \<Longrightarrow> HasPrefix (under d cs) (d @ [0x2F])" "\<not> HasPrefix d (d @ [0x2F])"
  by (simp_all add: HasPrefix_def under_def)

text \<open>What \<open>safeJoin\<close> accepts.\<close>

definition safe_target :: "bytes \<Rightarrow> bytes list \<Rightarrow> bytes \<Rightarrow> bool" where
  "safe_target dest cs t \<longleftrightarrow> (\<forall>c \<in> set cs. real_name c) \<and> t = under dest cs \<and> (cs \<noteq> [] \<longrightarrow> normal dest)"

lemma joined:
  assumes "dest \<noteq> []" and "dotdot \<notin> set (split_slash name)"
  defines "rs \<equiv> filter kept_name (split_slash name)" and "dc \<equiv> rev (foldl (clean_step (is_abs dest)) [] (split_slash dest))"
  shows "filepath_Join dest (filepath_Clean (0x2F # name)) =
     (if is_abs dest then 0x2F # join_slash (dc @ rs) else if dc @ rs = [] then dot else join_slash (dc @ rs))"
proof -
  have rr: "\<forall>c \<in> set rs. real_name c" unfolding rs_def by (rule kept_real [OF assms(2)])
  have c: "filepath_Clean (0x2F # name) = 0x2F # join_slash rs"
    using clean_no_dotdot [OF assms(2), of True "[]"] by (simp add: filepath_Clean_def is_abs_def clean_step_def rs_def)
  have "split_slash (0x2F # join_slash rs) = [] # (if rs = [] then [[]] else rs)"
    using split_join [of rs] rr by (auto simp: real_name_def)
  then have sp: "split_slash (dest @ 0x2F # 0x2F # join_slash rs) = split_slash dest @ [] # (if rs = [] then [[]] else rs)"
    using split_slash_append [of dest "0x2F # join_slash rs"] by simp
  have ab: "is_abs (dest @ 0x2F # 0x2F # join_slash rs) = is_abs dest" using assms(1) by (simp add: is_abs_def)
  have f: "foldl (clean_step (is_abs dest)) [] (split_slash (dest @ 0x2F # 0x2F # join_slash rs)) = rev rs @ rev dc"
    using clean_real [OF rr] by (simp add: sp clean_step_def dc_def)
  have "filepath_Join dest (filepath_Clean (0x2F # name)) = filepath_Clean (dest @ 0x2F # 0x2F # join_slash rs)"
    unfolding c using assms(1) by (simp add: filepath_Join_def)
  also have "\<dots> = (if is_abs dest then 0x2F # join_slash (dc @ rs) else if dc @ rs = [] then dot else join_slash (dc @ rs))"
    unfolding filepath_Clean_def ab f Let_def by auto
  finally show ?thesis .
qed

lemma joined_shape:
  fixes dest :: bytes
  assumes "dotdot \<notin> set (split_slash name)"
  defines "all \<equiv> rev (foldl (clean_step (is_abs dest)) [] (split_slash dest)) @ filter kept_name (split_slash name)"
  shows "if is_abs dest then \<forall>c \<in> set all. real_name c else ups all"
proof -
  let ?rs = "filter kept_name (split_slash name)" and ?dc = "rev (foldl (clean_step (is_abs dest)) [] (split_slash dest))"
  have rr: "\<forall>c \<in> set ?rs. real_name c" by (rule kept_real [OF assms(1)])
  have sl: "\<forall>c \<in> set (split_slash dest). 0x2F \<notin> set c" using split_slash_slashless by blast
  show ?thesis
  proof (cases "is_abs dest")
    case True
    then show ?thesis using clean_abs_shape [of "[]", OF _ sl] rr by (auto simp: all_def)
  next
    case False
    then have "ups ?dc" using clean_rel_shape [of "[]", OF _ sl] by (simp add: ups_def)
    then obtain k es where "?dc = replicate k dotdot @ es" "\<forall>c \<in> set es. real_name c" unfolding ups_def by blast
    then have "ups all" using rr unfolding ups_def all_def by (intro exI [of _ k] exI [of _ "es @ ?rs"]) auto
    then show ?thesis using False by simp
  qed
qed

lemma safeJoin_target:
  assumes "dest \<noteq> []" and "safeJoin dest name = Inr t"
  shows "\<exists>cs. safe_target dest cs t"
proof -
  let ?rs = "filter kept_name (split_slash name)" and ?dc = "rev (foldl (clean_step (is_abs dest)) [] (split_slash dest))"
  have nd: "dotdot \<notin> set (split_slash name)" using assms(2) by (auto simp: safeJoin_def split: if_splits)
  have t: "t = filepath_Join dest (filepath_Clean (0x2F # name))" "t = dest \<or> HasPrefix t (dest @ [0x2F])"
    using assms(2) nd by (auto simp: safeJoin_def Let_def split: if_splits)
  note tj = t(1) [unfolded joined [OF assms(1) nd]]
  have rr: "\<forall>c \<in> set ?rs. real_name c" by (rule kept_real [OF nd])
  show ?thesis
  proof (cases "t = dest")
    case True
    then show ?thesis by (intro exI [of _ "[]"]) (simp add: safe_target_def under_def)
  next
    case False
    then obtain rest where rest: "t = dest @ 0x2F # rest"
      using t(2) by (metis HasPrefix_def append.assoc append_Cons append_Nil append_take_drop_id)
    let ?ys = "split_slash rest"
    have st: "split_slash t = split_slash dest @ ?ys" unfolding rest by (rule split_slash_append)
    have len: "length t \<ge> 2" using assms(1) by (cases dest) (auto simp: rest)
    have result: "\<exists>cs. safe_target dest cs t" if "normal dest" "\<forall>c \<in> set ?ys. real_name c"
      using that rest join_split [of rest] by (intro exI [of _ ?ys]) (simp add: safe_target_def under_def)
    show ?thesis
    proof (cases "is_abs dest")
      case True
      have dr: "\<forall>c \<in> set (?dc @ ?rs). real_name c" using joined_shape [OF nd, of dest] True by simp
      have ne: "?dc @ ?rs \<noteq> []" using tj True len by auto
      have "split_slash t = [] # ?dc @ ?rs" using tj True split_join [OF ne] dr by (auto simp: real_name_def)
      moreover obtain d' where d': "dest = 0x2F # d'" using True by (cases dest) (auto simp: is_abs_def)
      ultimately have e: "?dc @ ?rs = split_slash d' @ ?ys" using st by simp
      then have "\<forall>c \<in> set (split_slash d'). real_name c" "\<forall>c \<in> set ?ys. real_name c" using dr by auto
      moreover have "normal dest" unfolding normal_def
        using True d' calculation(1) join_split [of d'] by (intro exI [of _ "split_slash d'"]) simp
      ultimately show ?thesis using result by blast
    next
      case False
      have du: "ups (?dc @ ?rs)" using joined_shape [OF nd, of dest] False by simp
      have ne: "?dc @ ?rs \<noteq> []" using tj False len by (auto simp: dot_def)
      have e: "?dc @ ?rs = split_slash dest @ ?ys"
        using st tj False split_join [OF ne] ups_slashless [OF du] ne by auto
      have "normal dest" unfolding normal_def using False join_split [of dest] ups_prefix [OF du [unfolded e]]
        by (intro exI [of _ "split_slash dest"]) simp
      moreover have "\<forall>c \<in> set ?ys. real_name c"
      proof (cases "\<forall>x \<in> set (split_slash dest). x = dotdot")
        case False
        then show ?thesis using ups_suffix [OF du [unfolded e]] by blast
      next
        case True
        have "split_slash dest = replicate (length (split_slash dest)) dotdot @ []" using True by (simp add: replicate_eqI)
        then have "ups (split_slash dest)" unfolding ups_def by (metis empty_iff empty_set)
        then have "?dc = split_slash dest" using clean_ups [of "split_slash dest"] False by simp
        then show ?thesis using e rr by auto
      qed
      ultimately show ?thesis by (rule result)
    qed
  qed
qed

text \<open>A destination that is not clean takes no member: an archive's names are below it, but
  not below it as written.\<close>

lemma unclean_destination:
  assumes "dest \<noteq> []" and "\<not> normal dest" and "filter kept_name (split_slash name) \<noteq> []"
  shows "safeJoin dest name = Inl (ExtUnsafe name)"
proof (cases "safeJoin dest name")
  case (Inl e)
  then show ?thesis by (auto simp: safeJoin_def Let_def split: if_splits)
next
  case (Inr t)
  let ?all = "rev (foldl (clean_step (is_abs dest)) [] (split_slash dest)) @ filter kept_name (split_slash name)"
  have nd: "dotdot \<notin> set (split_slash name)" using Inr by (auto simp: safeJoin_def split: if_splits)
  have ne: "?all \<noteq> []" using assms(3) by simp
  have "t = filepath_Join dest (filepath_Clean (0x2F # name))" using Inr nd by (auto simp: safeJoin_def Let_def split: if_splits)
  then have t: "t = (if is_abs dest then 0x2F # join_slash ?all else join_slash ?all)"
    using joined [OF assms(1) nd] if_not_P [OF ne] by metis
  obtain cs where "safe_target dest cs t" using safeJoin_target [OF assms(1) Inr] by blast
  then have "t = dest" using assms(2) by (auto simp: safe_target_def under_def)
  then have d: "dest = (if is_abs dest then 0x2F # join_slash ?all else join_slash ?all)" using t by argo
  have both: "(if P then A \<and> C else B \<and> D)" if "x = (if P then u else v)" "if P then C else D" "A = (x = u)" "B = (x = v)" for P A B C D and x u v :: bytes
    using that by (cases P) simp_all
  have "if is_abs dest then dest = 0x2F # join_slash ?all \<and> (\<forall>c \<in> set ?all. real_name c) else dest = join_slash ?all \<and> ups ?all"
    using d joined_shape [OF nd, of dest] by (rule both) (rule refl)+
  then have "normal dest" unfolding normal_def using ne by blast
  then show ?thesis using assms(2) by simp
qed

end
