(* ===== verification/Amber_Reach.thy ===== *)
theory Amber_Reach
  imports Amber_Confine
begin

text \<open>
  What the calls of an extraction reach. \<open>keeps A h h'\<close> says that the file system changed at
  paths of \<open>A\<close> only, and that whatever existed still exists with its type; it composes over the
  calls of a member. A destination that resolves to the directory \<open>R\<close> keeps doing so, and once
  a member's components are known to be directories its path resolves to the same names
  below \<open>R\<close>.
\<close>

section \<open>Resolution\<close>

lemma resolve_append:
  assumes "resolve fs L cur xs True = Inr R" and "is_dir fs R" and "ys \<noteq> []"
  shows "\<exists>L'. resolve fs L cur (xs @ ys) f = resolve fs L' R ys f"
  using assms
proof (induction fs L cur xs "True" rule: resolve.induct)
  case (2 fs L cur c cs)
  show ?case
  proof (cases "c = [] \<or> c = dot \<or> c = dotdot")
    case True
    then show ?thesis using 2 by (cases "c = [] \<or> c = dot") auto
  next
    case False
    then obtain i where i: "map_of fs (cur @ [c]) = Some i"
      using "2.prems" by (cases "map_of fs (cur @ [c])") (auto simp: is_dir_def split: if_splits)
    show ?thesis
    proof (cases "in_body i")
      case BDir
      then show ?thesis using False i 2 by simp
    next
      case (BLnk t)
      then obtain l where l: "L = Suc l" using "2.prems"(1) False i by (cases L) auto
      have "\<exists>L'. resolve fs l (if is_abs t then [] else cur) ((split_slash t @ cs) @ ys) f = resolve fs L' R ys f"
        using False i BLnk l 2 by simp
      then show ?thesis using False i BLnk l "2.prems"(3) by simp
    qed (use False i "2.prems" in \<open>auto simp: is_dir_def split: if_splits\<close>)
  qed
qed auto

text \<open>The same path, not following a link at its end, names something that exists.\<close>

lemma resolve_nofollow:
  assumes "resolve fs L cur xs True = Inr R" and "is_dir fs R"
  shows "\<exists>R0. resolve fs L cur xs False = Inr R0 \<and> map_of fs R0 \<noteq> None"
  using assms
proof (induction fs L cur xs "True" rule: resolve.induct)
  case (1 fs L cur)
  then show ?case by (auto simp: is_dir_def split: option.splits)
next
  case (2 fs L cur c cs)
  show ?case
  proof (cases "c = [] \<or> c = dot \<or> c = dotdot")
    case True
    then show ?thesis using 2 by (cases "c = [] \<or> c = dot") auto
  next
    case False
    then obtain i where i: "map_of fs (cur @ [c]) = Some i"
      using "2.prems" by (cases "map_of fs (cur @ [c])") (auto simp: is_dir_def split: if_splits)
    show ?thesis
    proof (cases "in_body i")
      case BDir
      then show ?thesis using False i 2 by simp
    next
      case (BLnk t)
      then obtain l where l: "L = Suc l" using "2.prems"(1) False i by (cases L) auto
      show ?thesis using False i BLnk l 2 by (cases "cs = []") simp_all
    qed (use False i "2.prems" in \<open>auto simp: is_dir_def split: if_splits\<close>)
  qed
qed

text \<open>The type of an inode; a symbolic link's includes its target.\<close>

definition kind :: "body \<Rightarrow> body" where
  "kind b = (case b of BReg c \<Rightarrow> BReg [] | _ \<Rightarrow> b)"

lemma kind_simps: "kind b = BDir \<longleftrightarrow> b = BDir" "kind b = BLnk t \<longleftrightarrow> b = BLnk t"
  by (cases b; simp add: kind_def)+

definition kinds_kept :: "fs \<Rightarrow> fs \<Rightarrow> bool" where
  "kinds_kept fs fs' \<longleftrightarrow> (\<forall>p i. map_of fs p = Some i \<longrightarrow> (\<exists>j. map_of fs' p = Some j \<and> kind (in_body j) = kind (in_body i)))"

lemma kinds_is_dir: "kinds_kept fs fs' \<Longrightarrow> is_dir fs p \<Longrightarrow> is_dir fs' p"
proof -
  assume k: "kinds_kept fs fs'" and "is_dir fs p"
  then obtain i where i: "map_of fs p = Some i" "in_body i = BDir" by (auto simp: is_dir_def split: option.splits)
  then obtain j where j: "map_of fs' p = Some j" "kind (in_body j) = kind (in_body i)" using k unfolding kinds_kept_def by blast
  then have "in_body j = BDir" using i(2) kind_simps(1) by metis
  then show ?thesis using j(1) by (simp add: is_dir_def)
qed

lemma resolve_kinds:
  assumes "resolve fs L cur xs f = Inr p" and "map_of fs p \<noteq> None \<or> is_dir fs' p" and "kinds_kept fs fs'"
  shows "resolve fs' L cur xs f = Inr p"
  using assms
proof (induction fs L cur xs f rule: resolve.induct)
  case (2 fs L cur c cs f)
  show ?case
  proof (cases "c = [] \<or> c = dot \<or> c = dotdot")
    case True
    then show ?thesis using 2 by (cases "c = [] \<or> c = dot") auto
  next
    case nd: False
    show ?thesis
    proof (cases "map_of fs (cur @ [c])")
      case None
      then have "cs = []" "p = cur @ [c]" using "2.prems"(1) nd by (auto split: if_splits)
      moreover from this have "is_dir fs' (cur @ [c])" using "2.prems"(2) None by simp
      ultimately show ?thesis using nd by (auto simp: is_dir_def split: option.splits)
    next
    case i: (Some i)
    note False = nd
    obtain j where j: "map_of fs' (cur @ [c]) = Some j" "kind (in_body j) = kind (in_body i)"
      using "2.prems"(3) i unfolding kinds_kept_def by blast
    show ?thesis
    proof (cases "in_body i")
      case BDir
      then have "in_body j = BDir" using j(2) kind_simps(1) by metis
      then show ?thesis using False i j BDir 2 by simp
    next
      case (BLnk t)
      then have bj: "in_body j = BLnk t" using j(2) kind_simps(2) by metis
      show ?thesis
      proof (cases "cs = [] \<and> \<not> f")
        case True
        then show ?thesis using False i j(1) BLnk bj "2.prems"(1) by simp
      next
        case nf: False
        then obtain l where l: "L = Suc l" using "2.prems"(1) False i BLnk by (cases L) auto
        have "resolve fs l (if is_abs t then [] else cur) (split_slash t @ cs) f = Inr p"
          using "2.prems"(1) False i BLnk nf l by (simp split: if_splits)
        then have "resolve fs' l (if is_abs t then [] else cur) (split_slash t @ cs) f = Inr p"
          using "2.IH"(4) [OF _ _ i BLnk nf l] False "2.prems"(2,3) by blast
        then show ?thesis using False j(1) bj nf l by auto
      qed
    qed (use False i j "2.prems" in \<open>cases "in_body j"; auto simp: kind_def split: if_splits\<close>)+
    qed
  qed
qed simp

lemma resolve_follow:
  assumes "resolve fs L cur xs False = Inr p" and "is_dir fs p"
  shows "resolve fs L cur xs True = Inr p"
  using assms
proof (induction fs L cur xs "False" rule: resolve.induct)
  case (2 fs L cur c cs)
  show ?case
  proof (cases "c = [] \<or> c = dot \<or> c = dotdot")
    case True
    then show ?thesis using 2 by (cases "c = [] \<or> c = dot") auto
  next
    case nd: False
    show ?thesis
    proof (cases "map_of fs (cur @ [c])")
      case None
      then show ?thesis using nd "2.prems" by simp
    next
      case (Some i)
      show ?thesis
      proof (cases "in_body i")
        case BDir
        then show ?thesis using nd Some 2 by simp
      next
        case (BLnk t)
        show ?thesis
        proof (cases "cs = []")
          case True
          then show ?thesis using nd Some BLnk "2.prems" by (auto simp: is_dir_def)
        next
          case False
          then obtain l where l: "L = Suc l" using "2.prems"(1) nd Some BLnk by (cases L) auto
          have "resolve fs l (if is_abs t then [] else cur) (split_slash t @ cs) False = Inr p"
            using "2.prems"(1) nd Some BLnk False l by simp
          then have "resolve fs l (if is_abs t then [] else cur) (split_slash t @ cs) True = Inr p"
            using "2.hyps"(4) [OF _ _ Some BLnk _ l] nd False "2.prems"(2) by blast
          then show ?thesis using nd Some BLnk False l by simp
        qed
      qed (use nd Some "2.prems" in simp_all)
    qed
  qed
qed simp

text \<open>Names below a directory, with no symbolic link on the way.\<close>

definition clear_to :: "fs \<Rightarrow> path \<Rightarrow> bytes list \<Rightarrow> bool" where
  "clear_to fs R cs \<longleftrightarrow> (\<forall>k. 0 < k \<and> k < length cs \<longrightarrow> map_of fs (R @ take k cs) = None \<or> is_dir fs (R @ take k cs))"

definition open_to :: "fs \<Rightarrow> path \<Rightarrow> bytes list \<Rightarrow> bool" where
  "open_to fs R cs \<longleftrightarrow> (\<forall>k. 0 < k \<and> k < length cs \<longrightarrow> is_dir fs (R @ take k cs))"

definition no_link :: "fs \<Rightarrow> path \<Rightarrow> bool" where
  "no_link fs p \<longleftrightarrow> (\<forall>i t. map_of fs p = Some i \<longrightarrow> in_body i \<noteq> BLnk t)"

lemma below_Cons:
  "cs \<noteq> [] \<Longrightarrow> clear_to fs R (c # cs) \<longleftrightarrow> (map_of fs (R @ [c]) = None \<or> is_dir fs (R @ [c])) \<and> clear_to fs (R @ [c]) cs"
  "cs \<noteq> [] \<Longrightarrow> open_to fs R (c # cs) \<longleftrightarrow> is_dir fs (R @ [c]) \<and> open_to fs (R @ [c]) cs"
proof -
  have split: "(\<forall>k. 0 < k \<and> k < Suc n \<longrightarrow> P k) \<longleftrightarrow> P 1 \<and> (\<forall>k. 0 < k \<and> k < n \<longrightarrow> P (Suc k))" if "0 < n" for P and n :: nat
  proof -
    have "P k" if "P 1" "\<forall>k. 0 < k \<and> k < n \<longrightarrow> P (Suc k)" "0 < k" "k < Suc n" for k
      using that by (cases "k = 1"; cases k) auto
    then show ?thesis using \<open>0 < n\<close> by auto
  qed
  assume "cs \<noteq> []"
  then have n: "0 < length cs" by simp
  show "clear_to fs R (c # cs) \<longleftrightarrow> (map_of fs (R @ [c]) = None \<or> is_dir fs (R @ [c])) \<and> clear_to fs (R @ [c]) cs"
    unfolding clear_to_def length_Cons split [OF n] by simp
  show "open_to fs R (c # cs) \<longleftrightarrow> is_dir fs (R @ [c]) \<and> open_to fs (R @ [c]) cs"
    unfolding open_to_def length_Cons split [OF n] by simp
qed

lemma real_step: "real_name c \<Longrightarrow> \<not> (c = [] \<or> c = dot) \<and> c \<noteq> dotdot"
  by (simp add: real_name_def)

lemma resolve_down:
  assumes "resolve fs L R cs f = Inr p" and "cs \<noteq> []" and "\<forall>c \<in> set cs. real_name c" and "clear_to fs R cs"
    and "f \<Longrightarrow> no_link fs (R @ cs)"
  shows "p = R @ cs \<and> open_to fs R cs"
  using assms
proof (induction cs arbitrary: R)
  case (Cons c cs)
  have c: "\<not> (c = [] \<or> c = dot)" "c \<noteq> dotdot" using real_step [of c] Cons.prems(3) by auto
  show ?case
  proof (cases "cs = []")
    case True
    have "p = R @ [c]"
    proof (cases "map_of fs (R @ [c])")
      case (Some i)
      then show ?thesis using Cons.prems(1,5) c True by (cases "in_body i") (auto simp: no_link_def split: if_splits)
    qed (use Cons.prems(1) c True in auto)
    then show ?thesis using True by (simp add: open_to_def)
  next
    case False
    note cl = Cons.prems(4) [unfolded below_Cons(1) [OF False]]
    have d: "is_dir fs (R @ [c])" using cl Cons.prems(1) c False by (auto split: option.splits)
    then have "resolve fs L (R @ [c]) cs f = Inr p"
      using Cons.prems(1) c by (auto simp: is_dir_def split: option.splits)
    then have "p = (R @ [c]) @ cs \<and> open_to fs (R @ [c]) cs"
      using Cons.prems(3,5) cl False by (intro Cons.IH) auto
    then show ?thesis using d below_Cons(2) [OF False] by simp
  qed
qed simp

lemma resolve_open:
  assumes "cs \<noteq> []" and "\<forall>c \<in> set cs. real_name c" and "open_to fs R cs" and "f \<Longrightarrow> no_link fs (R @ cs)"
  shows "resolve fs L R cs f = Inr (R @ cs)"
  using assms
proof (induction cs arbitrary: R)
  case (Cons c cs)
  have c: "\<not> (c = [] \<or> c = dot)" "c \<noteq> dotdot" using real_step [of c] Cons.prems(2) by auto
  show ?case
  proof (cases "cs = []")
    case True
    show ?thesis
    proof (cases "map_of fs (R @ [c])")
      case (Some i)
      then show ?thesis using Cons.prems(4) c True by (cases "in_body i") (auto simp: no_link_def)
    qed (use c True in auto)
  next
    case False
    note o = Cons.prems(3) [unfolded below_Cons(2) [OF False]]
    then have "resolve fs L R (c # cs) f = resolve fs L (R @ [c]) cs f" using c by (auto simp: is_dir_def split: option.splits)
    then show ?thesis using Cons.IH [of "R @ [c]"] Cons.prems(2,4) False o by simp
  qed
qed simp

section \<open>Changes at known paths\<close>

definition rooted :: "fs \<Rightarrow> bool" where
  "rooted fs \<longleftrightarrow> (\<forall>p. p \<noteq> [] \<and> map_of fs p \<noteq> None \<longrightarrow> map_of fs (butlast p) \<noteq> None)"

definition keeps :: "path set \<Rightarrow> host \<Rightarrow> host \<Rightarrow> bool" where
  "keeps A h h' \<longleftrightarrow> ho_cwd h' = ho_cwd h \<and> (\<forall>p. p \<notin> A \<longrightarrow> map_of (ho_fs h') p = map_of (ho_fs h) p) \<and>
     kinds_kept (ho_fs h) (ho_fs h') \<and> (rooted (ho_fs h) \<longrightarrow> rooted (ho_fs h'))"

lemma keeps_refl: "keeps A h h"
  by (simp add: keeps_def kinds_kept_def)

lemma keeps_trans: "keeps A h1 h2 \<Longrightarrow> keeps A h2 h3 \<Longrightarrow> keeps A h1 h3"
  unfolding keeps_def kinds_kept_def by metis

lemma keeps_mono: "keeps A h h' \<Longrightarrow> A \<subseteq> B \<Longrightarrow> keeps B h h'"
  unfolding keeps_def by blast

lemma keeps_plan [simp]: "keeps A h (h'\<lparr>ho_plan := pl\<rparr>) = keeps A h h'" "keeps A (h\<lparr>ho_plan := pl\<rparr>) h' = keeps A h h'"
  by (simp_all add: keeps_def)

lemma keeps_put:
  assumes "p \<in> A" and "map_of (ho_fs h) p = Some i" and "kind (in_body j) = kind (in_body i)"
  shows "keeps A h (put_inode p j h)"
  using assms by (auto simp: keeps_def put_inode_def kinds_kept_def rooted_def)

lemma keeps_create:
  assumes "p \<in> A" and "map_of (ho_fs h) p = None \<Longrightarrow> butlast p \<in> A"
  shows "keeps A h (snd (create b perm p h))"
proof (cases "map_of (ho_fs h) p = None \<and> (\<exists>d. map_of (ho_fs h) (butlast p) = Some d \<and> may_write h d)")
  case False
  then have "snd (create b perm p h) = h" by (auto simp: create_def split: option.splits)
  then show ?thesis by (simp add: keeps_refl)
next
  case True
  then obtain d where d: "map_of (ho_fs h) p = None" "map_of (ho_fs h) (butlast p) = Some d" "may_write h d" by blast
  let ?h1 = "put_inode (butlast p) (d\<lparr>in_mtime := ho_now h\<rparr>) h"
  have 1: "keeps A h ?h1" using assms d by (intro keeps_put) auto
  have p: "butlast p \<noteq> p" using d by auto
  have n: "map_of (ho_fs ?h1) p = None" "map_of (ho_fs ?h1) (butlast p) \<noteq> None" using d p by (auto simp: put_inode_def)
  have "keeps A ?h1 (put_inode p i ?h1)" for i
  proof -
    have "rooted (ho_fs ?h1) \<Longrightarrow> rooted (ho_fs (put_inode p i ?h1))" using n unfolding rooted_def put_inode_def by auto
    moreover have "kinds_kept (ho_fs ?h1) (ho_fs (put_inode p i ?h1))" using n(1) unfolding kinds_kept_def put_inode_def by auto
    ultimately show ?thesis using assms(1) unfolding keeps_def by (auto simp: put_inode_def)
  qed
  then show ?thesis using 1 d by (auto simp: create_def intro: keeps_trans)
qed

lemma keeps_sys:
  assumes "\<And>pl n. keeps A h (snd (f (h\<lparr>ho_plan := pl\<rparr>))) \<and> keeps A h (snd (partial n (h\<lparr>ho_plan := pl\<rparr>)))"
  shows "keeps A h (snd (sys partial f h))"
proof (cases "ho_plan h")
  case Nil
  have "h\<lparr>ho_plan := ho_plan h\<rparr> = h" by simp
  then have "keeps A h (snd (f h))" using assms [of "ho_plan h"] by metis
  then show ?thesis using Nil by (simp add: sys_def)
next
  case (Cons x pl)
  then show ?thesis using assms [of pl] by (cases x) (auto simp: sys_def)
qed

lemma keeps_nothing [simp]: "keeps A h (snd (nothing n h'))= keeps A h h'"
  by (simp add: nothing_def)

text \<open>\<open>reaches A follow t h\<close>: from here on, whatever else happens at \<open>A\<close>, the path leads into \<open>A\<close>.\<close>

definition lands :: "path set \<Rightarrow> bool \<Rightarrow> bytes \<Rightarrow> host \<Rightarrow> bool" where
  "lands A follow t h \<longleftrightarrow> (\<forall>p. namei (ho_fs h) (ho_cwd h) follow t = Inr p \<longrightarrow> p \<in> A \<and> (map_of (ho_fs h) p = None \<longrightarrow> butlast p \<in> A))"

definition stays :: "path set \<Rightarrow> bool \<Rightarrow> bytes \<Rightarrow> host \<Rightarrow> bool" where
  "stays A follow t h \<longleftrightarrow> (\<forall>h'. keeps A h h' \<longrightarrow> lands A follow t h')"

lemma stays_lands: "stays A follow t h \<Longrightarrow> keeps A h h' \<Longrightarrow> lands A follow t h'"
  by (simp add: stays_def)

lemma stays_later: "stays A follow t h \<Longrightarrow> keeps A h h' \<Longrightarrow> stays A follow t h'"
  unfolding stays_def using keeps_trans by blast

lemma lands_plan [simp]: "lands A follow t (h\<lparr>ho_plan := pl\<rparr>) = lands A follow t h"
  by (simp add: lands_def)

lemma keeps_create_at: "lands A follow t h \<Longrightarrow> keeps A h (snd (at_path follow t (\<lambda>p h. create b (m h) p h) h))"
  by (auto simp: at_path_def lands_def keeps_refl split: sum.split intro: keeps_create)

lemma keeps_change:
  assumes "lands A follow t h" and "\<And>i. in_body (g i) = in_body i"
  shows "keeps A h (snd (change_when bad follow t g h))"
  unfolding change_when_def
proof (rule keeps_sys)
  fix pl n
  have "keeps A h (snd (at_inode follow t (\<lambda>p i h. case bad h i of None \<Rightarrow> (Inr (), put_inode p (g i) h) | Some e \<Rightarrow> (Inl e, h)) h1))"
    if "h1 = h\<lparr>ho_plan := pl\<rparr>" for h1
  proof -
    have l: "lands A follow t h1" and k: "keeps A h h1" using assms(1) that by (simp_all add: keeps_refl)
    show ?thesis
    proof (cases "namei (ho_fs h1) (ho_cwd h1) follow t")
      case (Inr p)
      show ?thesis
      proof (cases "map_of (ho_fs h1) p")
        case (Some i)
        have "keeps A h1 (put_inode p (g i) h1)" using l Inr Some assms(2) by (intro keeps_put [OF _ Some]) (simp_all add: lands_def)
        then show ?thesis using Inr Some k
          by (cases "bad h1 i") (auto simp: at_inode_def at_path_def intro: keeps_trans)
      qed (use Inr k in \<open>simp add: at_inode_def at_path_def\<close>)
    qed (use k in \<open>simp add: at_inode_def at_path_def\<close>)
  qed
  then show "keeps A h (snd (at_inode follow t (\<lambda>p i h. case bad h i of None \<Rightarrow> (Inr (), put_inode p (g i) h) | Some e \<Rightarrow> (Inl e, h)) (h\<lparr>ho_plan := pl\<rparr>))) \<and>
      keeps A h (snd (nothing n (h\<lparr>ho_plan := pl\<rparr>)))" by (simp add: keeps_refl)
qed

section \<open>Steps of an extraction\<close>

text \<open>A step that changes \<open>A\<close> only, from any state that the earlier steps may have left.\<close>

definition within :: "path set \<Rightarrow> host \<Rightarrow> 'r ext \<Rightarrow> bool" where
  "within A h m \<longleftrightarrow> (\<forall>h'. keeps A h h' \<longrightarrow> keeps A h (snd (m h')))"

lemma within_then:
  assumes "within A h m" and "\<And>a. within A h (f a)"
  shows "within A h (ext_then m f)"
  unfolding within_def
proof (intro allI impI)
  fix h1
  assume "keeps A h h1"
  then have "keeps A h (snd (m h1))" using assms(1) by (simp add: within_def)
  then show "keeps A h (snd (ext_then m f h1))"
    using assms(2) by (cases "m h1"; cases "fst (m h1)") (auto simp: ext_then_def within_def)
qed

lemma within_return: "within A h (ext_return a)" "within A h (\<lambda>h. (r, h))"
  by (simp_all add: within_def ext_return_def)

lemma within_if: "within A h m \<Longrightarrow> within A h n \<Longrightarrow> within A h (\<lambda>h. if c h then m h else n h)"
  by (simp add: within_def)

lemma within_sys:
  assumes "\<And>h'. keeps A h h' \<Longrightarrow> keeps A h' (snd (f h'))"
  shows "within A h (ext_sys f)"
proof -
  have "snd (ext_sys f h') = snd (f h')" for h' by (auto simp: ext_sys_def split: prod.splits sum.splits)
  then show ?thesis using assms keeps_trans unfolding within_def by metis
qed

lemma within_change:
  assumes "stays A follow t h" and "\<And>i. in_body (g i) = in_body i"
  shows "within A h (ext_sys (change_when bad follow t g))"
proof (rule within_sys)
  fix h'
  assume "keeps A h h'"
  from keeps_change [OF stays_lands [OF assms(1) this] assms(2)] show "keeps A h' (snd (change_when bad follow t g h'))" .
qed

lemma within_set_pax:
  assumes "stays A False t h"
  shows "within A h (set_pax t kvs)"
  unfolding within_def
proof (induction kvs)
  case (Cons kv kvs)
  show ?case
  proof (intro allI impI)
    fix h1
    assume k: "keeps A h h1"
    let ?r = "unix_Lsetxattr t (drop (length SchilyPrefix) (fst kv)) (snd kv) h1"
    have "keeps A h1 (snd ?r)" unfolding unix_Lsetxattr_def using stays_lands [OF assms k] by (intro keeps_change) simp_all
    then have k2: "keeps A h (snd ?r)" using k keeps_trans by blast
    show "keeps A h (snd (set_pax t (kv # kvs) h1))"
      using Cons k k2 by (cases ?r; cases "fst ?r") auto
  qed
qed simp

lemma within_applyMeta:
  assumes "stays A False t h" and "\<not> isSymlink \<Longrightarrow> stays A True t h"
  shows "within A h (applyMeta t hdr isSymlink)"
proof -
  have chown: "within A h (ext_sys (host_Lchown t u g))" for u g
    unfolding host_Lchown_def change_def by (rule within_change [OF assms(1)]) simp
  have chmod: "within A h (ext_sys (unix_Chmod t m))" if "\<not> isSymlink" for m
    unfolding unix_Chmod_def change_def by (rule within_change [OF assms(2) [OF that]]) simp
  have utimes: "within A h (setMtime t ns isSymlink)" for ns
  proof (cases isSymlink)
    case True
    show ?thesis unfolding setMtime_def unix_Utimes_def change_def True by (rule within_change) (use assms(1) True in simp_all)
  next
    case False
    show ?thesis unfolding setMtime_def unix_Utimes_def change_def by (rule within_change) (use assms(2) [OF False] False in simp_all)
  qed
  have mode: "within A h (if isSymlink then ext_return () else ext_then (ext_sys (unix_Chmod t m)) (\<lambda>_. set_pax t kvs))" for m kvs
  proof (cases isSymlink)
    case True
    then show ?thesis by (simp add: within_return)
  next
    case False
    have "within A h (ext_then (ext_sys (unix_Chmod t m)) (\<lambda>_. set_pax t kvs))"
      by (rule within_then [OF chmod [OF False]]) (rule within_set_pax [OF assms(1)])
    then show ?thesis using False by simp
  qed
  show ?thesis unfolding applyMeta_def
    by (rule within_then, rule within_if, rule chown, rule within_return, rule within_then, rule mode, rule utimes)
qed

end
