(* ===== verification/Amber_Contain.thy ===== *)
theory Amber_Contain
  imports Amber_Reach
begin

text \<open>
  The members of an archive, and the extraction as a whole. \<open>stands\<close> is a destination that
  denotes a directory; the check of a member's path makes it \<open>clear\<close>, and then everything the
  member does stays at the path's own components.
\<close>

section \<open>A destination that is a directory\<close>

definition stands :: "bytes \<Rightarrow> path \<Rightarrow> path \<Rightarrow> host \<Rightarrow> bool" where
  "stands dest R R0 h \<longleftrightarrow> namei (ho_fs h) (ho_cwd h) True dest = Inr R \<and> is_dir (ho_fs h) R \<and>
     namei (ho_fs h) (ho_cwd h) False dest = Inr R0 \<and> map_of (ho_fs h) R0 \<noteq> None \<and> rooted (ho_fs h)"

lemma keeps_is_dir: "keeps A h h' \<Longrightarrow> is_dir (ho_fs h) p \<Longrightarrow> is_dir (ho_fs h') p"
  unfolding keeps_def using kinds_is_dir by blast

lemma keeps_exists: "keeps A h h' \<Longrightarrow> map_of (ho_fs h) p \<noteq> None \<Longrightarrow> map_of (ho_fs h') p \<noteq> None"
  unfolding keeps_def kinds_kept_def by blast

lemma is_dir_exists: "is_dir fs p \<Longrightarrow> map_of fs p \<noteq> None"
  by (auto simp: is_dir_def split: option.splits)

lemma namei_kinds:
  assumes "namei fs cwd f s = Inr p" and "map_of fs p \<noteq> None" and "kinds_kept fs fs'"
  shows "namei fs' cwd f s = Inr p"
proof -
  have n: "0 \<notin> set s" "s \<noteq> []" using assms(1) by (auto simp: namei_def)
  then have "resolve fs MaxLinks (if is_abs s then [] else cwd) (split_slash s) f = Inr p" using assms(1) by (simp add: namei_def)
  from resolve_kinds [OF this disjI1 [OF assms(2)] assms(3)] show ?thesis using n by (simp add: namei_def)
qed

lemma stands_keeps:
  assumes "stands dest R R0 h" and "keeps A h h'"
  shows "stands dest R R0 h'"
proof -
  note st = assms(1) [unfolded stands_def]
  have k: "kinds_kept (ho_fs h) (ho_fs h')" "ho_cwd h' = ho_cwd h" "rooted (ho_fs h')"
    using assms st by (simp_all add: keeps_def)
  have e: "map_of (ho_fs h) R \<noteq> None" using st is_dir_exists by blast
  have "namei (ho_fs h') (ho_cwd h) True dest = Inr R" "namei (ho_fs h') (ho_cwd h) False dest = Inr R0"
    using st e k(1) namei_kinds by blast+
  then show ?thesis unfolding stands_def using st k keeps_is_dir [OF assms(2)] keeps_exists [OF assms(2)] by simp
qed

lemma stands_nonempty: "stands dest R R0 h \<Longrightarrow> dest \<noteq> []"
  by (auto simp: stands_def namei_def)

lemma standsI:
  assumes "namei (ho_fs h) (ho_cwd h) True dest = Inr R" and "is_dir (ho_fs h) R" and "rooted (ho_fs h)"
  shows "\<exists>R0. stands dest R R0 h"
  using assms resolve_nofollow unfolding stands_def namei_def by (auto split: if_splits)

text \<open>A path below the destination resolves from the destination's directory.\<close>

lemma namei_below:
  assumes "stands dest R R0 h" and "cs \<noteq> []" and "\<forall>c \<in> set cs. real_name c"
  shows "\<exists>L. namei (ho_fs h) (ho_cwd h) f (under dest cs) = (if \<exists>c \<in> set cs. 0 \<in> set c then Inl EINVAL else resolve (ho_fs h) L R cs f)"
proof -
  note st = assms(1) [unfolded stands_def]
  have ne: "dest \<noteq> []" by (rule stands_nonempty [OF assms(1)])
  have u: "under dest cs = dest @ 0x2F # join_slash cs" using assms(2) by (simp add: under_def)
  have ab: "is_abs (under dest cs) = is_abs dest" using ne by (simp add: u is_abs_def)
  have nul: "0 \<notin> set dest" using st by (auto simp: namei_def split: if_splits)
  have "(0 \<in> set (join_slash cs)) = (\<exists>c \<in> set cs. 0 \<in> set c)" by (induction cs) auto
  then have z: "(0 \<in> set (under dest cs)) = (\<exists>c \<in> set cs. 0 \<in> set c)" using nul by (simp add: u)
  have sp: "split_slash (under dest cs) = split_slash dest @ cs"
    using split_slash_append [of dest "join_slash cs"] split_join [OF assms(2)] assms(3) by (auto simp: u real_name_def)
  have "resolve (ho_fs h) MaxLinks (if is_abs dest then [] else ho_cwd h) (split_slash dest) True = Inr R"
    using st ne nul by (simp add: namei_def split: if_splits)
  from resolve_append [OF this _ assms(2)] obtain L where
    "resolve (ho_fs h) MaxLinks (if is_abs dest then [] else ho_cwd h) (split_slash dest @ cs) f = resolve (ho_fs h) L R cs f"
    using st by blast
  then show ?thesis using ne by (intro exI [of _ L]) (simp add: namei_def z ab sp, simp add: u)
qed

text \<open>The components of a path, and the paths a member may touch.\<close>

definition clear :: "fs \<Rightarrow> path \<Rightarrow> bytes list \<Rightarrow> bool" where
  "clear fs R cs \<longleftrightarrow> (\<forall>k. 0 < k \<and> k \<le> length cs \<longrightarrow> map_of fs (R @ take k cs) = None \<or> is_dir fs (R @ take k cs))"

definition steps :: "path \<Rightarrow> path \<Rightarrow> bytes list \<Rightarrow> path set" where
  "steps R R0 cs = (if cs = [] then {R, R0} else (\<lambda>k. R @ take k cs) ` {..length cs})"

lemma steps_ends: "cs \<noteq> [] \<Longrightarrow> R @ cs \<in> steps R R0 cs" "cs \<noteq> [] \<Longrightarrow> butlast (R @ cs) \<in> steps R R0 cs"
proof -
  assume ne: "cs \<noteq> []"
  have m: "R @ take k cs \<in> steps R R0 cs" if "k \<le> length cs" for k using that ne by (simp add: steps_def)
  have "R @ cs = R @ take (length cs) cs" "butlast (R @ cs) = R @ take (length cs - 1) cs" using ne by (simp_all add: butlast_append butlast_conv_take [of cs])
  then show "R @ cs \<in> steps R R0 cs" "butlast (R @ cs) \<in> steps R R0 cs"
    using m [of "length cs"] m [of "length cs - 1"] by simp_all
qed

lemma steps_snoc: "cs \<noteq> [] \<Longrightarrow> steps R R0 cs \<subseteq> steps R R0 (cs @ [c])"
proof
  fix p
  assume "cs \<noteq> []" "p \<in> steps R R0 cs"
  then obtain k where k: "k \<le> length cs" "p = R @ take k cs" by (auto simp: steps_def)
  then have "p = R @ take k (cs @ [c])" "k \<le> length (cs @ [c])" by simp_all
  then show "p \<in> steps R R0 (cs @ [c])" unfolding steps_def by auto
qed

lemma clear_parts: "clear fs R cs \<Longrightarrow> clear_to fs R cs" "clear fs R (cs @ [c]) \<Longrightarrow> clear fs R cs"
proof -
  show "clear fs R cs \<Longrightarrow> clear_to fs R cs" by (simp add: clear_def clear_to_def)
  assume c: "clear fs R (cs @ [c])"
  show "clear fs R cs" unfolding clear_def
  proof (intro allI impI)
    fix k
    assume "0 < k \<and> k \<le> length cs"
    then show "map_of fs (R @ take k cs) = None \<or> is_dir fs (R @ take k cs)" using c [unfolded clear_def, rule_format, of k] by simp
  qed
qed

lemma clear_snoc: "clear fs R (cs @ [c]) \<longleftrightarrow> clear fs R cs \<and> (map_of fs (R @ cs @ [c]) = None \<or> is_dir fs (R @ cs @ [c]))"
proof
  assume c: "clear fs R (cs @ [c])"
  show "clear fs R cs \<and> (map_of fs (R @ cs @ [c]) = None \<or> is_dir fs (R @ cs @ [c]))"
    using clear_parts(2) [OF c] c [unfolded clear_def, rule_format, of "Suc (length cs)"] by simp
next
  assume c: "clear fs R cs \<and> (map_of fs (R @ cs @ [c]) = None \<or> is_dir fs (R @ cs @ [c]))"
  show "clear fs R (cs @ [c])" unfolding clear_def
  proof (intro allI impI)
    fix k
    assume k: "0 < k \<and> k \<le> length (cs @ [c])"
    show "map_of fs (R @ take k (cs @ [c])) = None \<or> is_dir fs (R @ take k (cs @ [c]))"
    proof (cases "k = Suc (length cs)")
      case False
      then show ?thesis using c k unfolding clear_def by auto
    qed (use c in simp)
  qed
qed

lemma clear_no_link: "clear fs R cs \<Longrightarrow> cs \<noteq> [] \<Longrightarrow> no_link fs (R @ cs)"
  by (cases cs rule: rev_cases) (auto simp: clear_snoc no_link_def is_dir_def)

lemma clear_namei:
  assumes "stands dest R R0 h" and "cs \<noteq> []" and "\<forall>c \<in> set cs. real_name c" and "clear (ho_fs h) R cs"
    and "namei (ho_fs h) (ho_cwd h) f (under dest cs) = Inr p"
  shows "p = R @ cs \<and> open_to (ho_fs h) R cs"
proof -
  obtain L where "resolve (ho_fs h) L R cs f = Inr p" using namei_below [OF assms(1-3), of f] assms(5) by (auto split: if_splits)
  then show ?thesis using resolve_down [OF _ assms(2,3) clear_parts(1) [OF assms(4)]] clear_no_link [OF assms(4,2)] by blast
qed

lemma open_namei:
  assumes "stands dest R R0 h" and "cs \<noteq> []" and "\<forall>c \<in> set cs. real_name c" and "open_to (ho_fs h) R cs" and "f \<Longrightarrow> no_link (ho_fs h) (R @ cs)"
  shows "namei (ho_fs h) (ho_cwd h) f (under dest cs) = (if \<exists>c \<in> set cs. 0 \<in> set c then Inl EINVAL else Inr (R @ cs))"
  using namei_below [OF assms(1-3), of f] resolve_open [OF assms(2-5)] by auto

section \<open>The check of a path\<close>

lemma rooted_take: "rooted fs \<Longrightarrow> map_of fs (R @ xs) \<noteq> None \<Longrightarrow> map_of fs (R @ take k xs) \<noteq> None"
proof (induction xs rule: rev_induct)
  case (snoc x xs)
  have "map_of fs (butlast (R @ xs @ [x])) \<noteq> None" using snoc.prems unfolding rooted_def by blast
  then have "map_of fs (R @ take k xs) \<noteq> None" using snoc by (simp add: butlast_append)
  then show ?case using snoc.prems(2) by (cases "k \<le> length xs") auto
qed simp

lemma rooted_open:
  assumes "rooted fs" and "clear fs R cs" and "map_of fs (R @ cs @ [c]) \<noteq> None"
  shows "open_to fs R (cs @ [c])"
  unfolding open_to_def
proof (intro allI impI)
  fix k
  assume k: "0 < k \<and> k < length (cs @ [c])"
  then have "map_of fs (R @ take k cs) \<noteq> None" using rooted_take [OF assms(1), of R "cs @ [c]" k] assms(3) by simp
  then show "is_dir fs (R @ take k (cs @ [c]))" using assms(2) [unfolded clear_def, rule_format, of k] k by auto
qed

lemma reject_clear:
  assumes "stands dest R R0 h" and "cs \<noteq> [] \<longrightarrow> normal dest" and "\<forall>c \<in> set cs. real_name c" and "length cs < n"
    and "reject_loop n dest (under dest cs) h = None"
  shows "clear (ho_fs h) R cs"
  using assms(2-)
proof (induction cs arbitrary: n rule: rev_induct)
  case (snoc c cs)
  let ?p = "under dest (cs @ [c])"
  obtain m where m: "n = Suc m" "length cs < m" using snoc.prems(3) by (cases n) auto
  have nd: "normal dest" and rn: "\<forall>c \<in> set cs. real_name c" using snoc.prems by auto
  have dir: "filepath_Dir ?p = under dest cs" using Dir_under [OF nd rn] snoc.prems(2) by (simp add: real_name_def)
  have pre: "HasPrefix ?p (dest @ [0x2F])" by (rule under_below) simp
  have loop: "reject_loop m dest (under dest cs) h = None" "host_Lstat ?p h = Inl ENOENT \<or> (\<exists>i. host_Lstat ?p h = Inr i \<and> in_body i = BDir)"
    using snoc.prems(4) pre dir by (auto simp: m(1) split: sum.splits if_splits)
  have c: "clear (ho_fs h) R cs" using snoc.IH [OF _ rn m(2) loop(1)] nd by blast
  have "is_dir (ho_fs h) (R @ cs @ [c])" if e: "map_of (ho_fs h) (R @ cs @ [c]) = Some i" for i
  proof -
    have r: "rooted (ho_fs h)" using assms(1) by (simp add: stands_def)
    have "open_to (ho_fs h) R (cs @ [c])" using rooted_open [OF r c, of c] e by simp
    from open_namei [OF assms(1) _ snoc.prems(2) this, of False] show ?thesis
      using loop(2) e by (auto simp: host_Lstat_def stat_path_def is_dir_def split: if_splits)
  qed
  then show ?case using c by (cases "map_of (ho_fs h) (R @ cs @ [c])") (auto simp: clear_snoc)
qed (simp add: clear_def)

lemma length_join: "\<forall>c \<in> set cs. real_name c \<Longrightarrow> length cs \<le> length (join_slash cs)"
proof (induction cs)
  case (Cons c cs)
  then have "1 \<le> length c" by (cases c) (auto simp: real_name_def)
  then show ?case using Cons by auto
qed simp

lemma checked_clear:
  assumes "stands dest R R0 h" and "safe_target dest cs t" and "rejectSymlinkComponents dest t h = (Inr (), h')"
  shows "clear (ho_fs h) R cs \<and> h' = h"
proof -
  have t: "t = under dest cs" "\<forall>c \<in> set cs. real_name c" "cs \<noteq> [] \<longrightarrow> normal dest" using assms(2) by (simp_all add: safe_target_def)
  have "length cs < Suc (length (under dest cs))" using length_join [OF t(2)] by (auto simp: under_def)
  moreover have "reject_loop (Suc (length (under dest cs))) dest (under dest cs) h = None" "h' = h"
    using assms(3) by (auto simp: t(1) rejectSymlinkComponents_def simp del: reject_loop.simps split: option.splits)
  ultimately show ?thesis using reject_clear [OF assms(1) t(3,2)] by blast
qed

section \<open>Making directories\<close>

definition new_dirs :: "host \<Rightarrow> host \<Rightarrow> bool" where
  "new_dirs h h' \<longleftrightarrow> (\<forall>p. map_of (ho_fs h) p = None \<longrightarrow> map_of (ho_fs h') p = None \<or> is_dir (ho_fs h') p)"

lemma new_dirs_refl: "new_dirs h h"
  by (simp add: new_dirs_def)

lemma new_dirs_trans: "new_dirs h1 h2 \<Longrightarrow> new_dirs h2 h3 \<Longrightarrow> keeps A h2 h3 \<Longrightarrow> new_dirs h1 h3"
  unfolding new_dirs_def using keeps_is_dir by blast

lemma clear_keeps: "clear (ho_fs h) R cs \<Longrightarrow> keeps A h h' \<Longrightarrow> new_dirs h h' \<Longrightarrow> clear (ho_fs h') R cs"
  unfolding clear_def new_dirs_def using keeps_is_dir by blast

lemma open_keeps: "open_to (ho_fs h) R cs \<Longrightarrow> keeps A h h' \<Longrightarrow> open_to (ho_fs h') R cs"
  unfolding open_to_def using keeps_is_dir by blast

lemma clear_lands:
  assumes "stands dest R R0 h" and "\<forall>c \<in> set cs. real_name c" and "clear (ho_fs h) R cs"
  shows "lands (steps R R0 cs) f (under dest cs) h"
proof (cases "cs = []")
  case True
  have "p = R \<or> p = R0" if "namei (ho_fs h) (ho_cwd h) f dest = Inr p" for p
    using assms(1) that by (cases f) (simp_all add: stands_def)
  moreover have "map_of (ho_fs h) R \<noteq> None" "map_of (ho_fs h) R0 \<noteq> None" using assms(1) is_dir_exists by (simp_all add: stands_def)
  ultimately show ?thesis using True unfolding lands_def steps_def under_def by auto
next
  case False
  then show ?thesis using clear_namei [OF assms(1) False assms(2,3)] steps_ends [OF False] unfolding lands_def by metis
qed

lemma create_new:
  assumes "create b perm p h = (r, h')"
  shows "map_of (ho_fs h) q = None \<Longrightarrow> q \<noteq> p \<Longrightarrow> map_of (ho_fs h') q = None"
    and "r = Inr () \<Longrightarrow> map_of (ho_fs h) p = None \<and> (\<exists>i. map_of (ho_fs h') p = Some i \<and> in_body i = b)"
    and "r \<noteq> Inr () \<Longrightarrow> h' = h"
  using assms by (auto simp: create_def put_inode_def split: if_splits option.splits)

lemma same_plan: "ho_plan h = pl \<Longrightarrow> h\<lparr>ho_plan := pl\<rparr> = h"
  by auto

lemma sys_ok: "sys partial f h = (Inr x, h') \<Longrightarrow> \<exists>pl. f (h\<lparr>ho_plan := pl\<rparr>) = (Inr x, h')"
proof (cases "ho_plan h")
  case Nil
  assume s: "sys partial f h = (Inr x, h')"
  have "f (h\<lparr>ho_plan := []\<rparr>) = (Inr x, h')" unfolding same_plan [OF Nil] using s Nil by (simp add: sys_def)
  then show ?thesis by blast
next
  case (Cons y pl)
  assume "sys partial f h = (Inr x, h')"
  then show ?thesis using Cons by (cases y) (auto simp: sys_def)
qed

lemma Mkdir_effect:
  assumes "lands A False t h" and "host_Mkdir t perm h = (r, h')"
  shows "keeps A h h'" "new_dirs h h'"
    "r = Inr () \<Longrightarrow> \<exists>p. namei (ho_fs h) (ho_cwd h) False t = Inr p \<and> is_dir (ho_fs h') p"
proof -
  let ?f = "at_path False t (\<lambda>p h. create BDir (masked h (perm AND 0x1FF)) p h)"
  have k: "keeps A h (snd (?f (h\<lparr>ho_plan := pl\<rparr>)))" for pl
    using keeps_create_at [of A False t "h\<lparr>ho_plan := pl\<rparr>"] assms(1) by simp
  have "keeps A h (snd (host_Mkdir t perm h))" unfolding host_Mkdir_def by (rule keeps_sys) (use k in \<open>simp add: keeps_refl\<close>)
  then show "keeps A h h'" by (simp add: assms(2))
  have eff: "new_dirs h h2 \<and> (x = Inr () \<longrightarrow> (\<exists>p. namei (ho_fs h) (ho_cwd h) False t = Inr p \<and> is_dir (ho_fs h2) p))"
    if "?f (h\<lparr>ho_plan := pl\<rparr>) = (x, h2)" for pl x h2
  proof (cases "namei (ho_fs h) (ho_cwd h) False t")
    case (Inl e)
    then show ?thesis using that by (auto simp: at_path_def new_dirs_def)
  next
    case (Inr p)
    then have c: "create BDir (masked (h\<lparr>ho_plan := pl\<rparr>) (perm AND 0x1FF)) p (h\<lparr>ho_plan := pl\<rparr>) = (x, h2)"
      using that by (simp add: at_path_def)
    note n = create_new [OF c]
    show ?thesis
    proof (cases "x = Inr ()")
      case True
      then have "is_dir (ho_fs h2) p" using n(2) by (auto simp: is_dir_def)
      then show ?thesis using n(1) Inr unfolding new_dirs_def by auto
    next
      case False
      then show ?thesis using n(3) by (auto simp: new_dirs_def)
    qed
  qed
  have fail: "new_dirs h (h\<lparr>ho_plan := pl\<rparr>)" for pl by (simp add: new_dirs_def)
  show "new_dirs h h'"
  proof (cases "ho_plan h")
    case Nil
    show ?thesis using assms(2) Nil eff [of "[]" r h', unfolded same_plan [OF Nil]] by (simp add: host_Mkdir_def sys_def)
  next
    case (Cons y pl)
    then show ?thesis using assms(2) eff [of pl] fail [of pl] by (cases y) (auto simp: host_Mkdir_def sys_def nothing_def)
  qed
  assume ok: "r = Inr ()"
  obtain pl where "?f (h\<lparr>ho_plan := pl\<rparr>) = (Inr (), h')"
    using sys_ok [OF assms(2) [unfolded host_Mkdir_def ok]] by blast
  then show "\<exists>p. namei (ho_fs h) (ho_cwd h) False t = Inr p \<and> is_dir (ho_fs h') p" using eff by blast
qed

lemma stat_dir: "stat_path f t h = Inr i \<Longrightarrow> in_body i = BDir \<Longrightarrow> \<exists>p. namei (ho_fs h) (ho_cwd h) f t = Inr p \<and> is_dir (ho_fs h) p"
  by (auto simp: stat_path_def is_dir_def split: sum.splits option.splits)

lemma mkdir_dest: "stands dest R R0 h \<Longrightarrow> mkdir_all n dest perm h = (if n = 0 then Inl EINVAL else Inr (), h)"
  by (cases n) (auto simp: stands_def host_Stat_def stat_path_def is_dir_def split: option.splits)

lemma mkdir_all_effect:
  assumes "stands dest R R0 h" and "cs \<noteq> [] \<longrightarrow> normal dest" and "\<forall>c \<in> set cs. real_name c" and "clear (ho_fs h) R cs"
    and "mkdir_all n (under dest cs) perm h = (r, h')"
  shows "keeps (steps R R0 cs) h h' \<and> new_dirs h h' \<and> (r = Inr () \<longrightarrow> is_dir (ho_fs h') (R @ cs))"
  using assms(2-)
proof (induction cs arbitrary: n r h' rule: rev_induct)
  case Nil
  have "h' = h" using mkdir_dest [OF assms(1), of n perm] Nil.prems(4) by (simp add: under_def split: if_splits)
  then show ?case using assms(1) by (simp add: keeps_refl new_dirs_refl stands_def)
next
  case (snoc c cs)
  let ?cs = "cs @ [c]" and ?t = "under dest (cs @ [c])"
  let ?A = "steps R R0 ?cs"
  have ne: "?cs \<noteq> []" by simp
  have nd: "normal dest" and rn: "\<forall>c \<in> set cs. real_name c" using snoc.prems(1,2) by auto
  have up: "filepath_Dir ?t = under dest cs" using Dir_under [OF nd rn] snoc.prems(2) by (simp add: real_name_def)
  have found: "is_dir (ho_fs h1) (R @ ?cs)"
    if "stat_path f ?t h1 = Inr i" "in_body i = BDir" "stands dest R R0 h1" "clear (ho_fs h1) R ?cs" for f i h1
    using stat_dir [OF that(1,2)] clear_namei [OF that(3) ne snoc.prems(2) that(4)] by blast
  show ?case
  proof (cases n)
    case 0
    then show ?thesis using snoc.prems(4) by (auto simp: keeps_refl new_dirs_refl)
  next
    case (Suc m)
    show ?thesis
    proof (cases "host_Stat ?t h")
      case (Inr i)
      then have "h' = h" "r = Inr () \<Longrightarrow> in_body i = BDir" using snoc.prems(4) by (auto simp: Suc split: if_splits)
      then show ?thesis using found [of True h i] Inr assms(1) snoc.prems(3) by (auto simp: host_Stat_def keeps_refl new_dirs_refl)
    next
      case (Inl e)
      obtain r1 h1 where h1: "(if under dest cs = ?t \<or> under dest cs = dot \<or> under dest cs = [0x2F] then (Inr (), h)
          else mkdir_all m (under dest cs) perm h) = (r1, h1)" by force
      have 1: "keeps ?A h h1 \<and> new_dirs h h1"
      proof (cases "cs = []")
        case True
        then have "h1 = h" using h1 mkdir_dest [OF assms(1), of m perm] by (auto simp: under_def split: if_splits)
        then show ?thesis by (simp add: keeps_refl new_dirs_refl)
      next
        case False
        show ?thesis
        proof (cases "under dest cs = ?t \<or> under dest cs = dot \<or> under dest cs = [0x2F]")
          case True
          then show ?thesis using h1 by (auto simp: keeps_refl new_dirs_refl)
        next
          case rec: False
          then have "mkdir_all m (under dest cs) perm h = (r1, h1)" using h1 by simp
          from snoc.IH [OF _ rn clear_parts(2) [OF snoc.prems(3)] this] nd show ?thesis
            using keeps_mono steps_snoc [OF False] by blast
        qed
      qed
      have st: "stands dest R R0 h1" "clear (ho_fs h1) R ?cs"
        using stands_keeps [OF assms(1)] clear_keeps [OF snoc.prems(3)] 1 by blast+
      have res: "(case r1 of Inl e \<Rightarrow> (Inl e, h1) | Inr _ \<Rightarrow>
          (case host_Mkdir ?t perm h1 of (Inr _, h) \<Rightarrow> (Inr (), h)
           | (Inl e, h) \<Rightarrow> (case host_Lstat ?t h of Inr i \<Rightarrow> (if in_body i = BDir then Inr () else Inl e, h) | Inl _ \<Rightarrow> (Inl e, h)))) = (r, h')"
        using snoc.prems(4) by (simp only: Suc mkdir_all.simps Inl sum.case up Let_def h1 prod.case)
      show ?thesis
      proof (cases r1)
        case (Inl e1)
        then show ?thesis using res 1 by auto
      next
        case (Inr u)
        obtain r2 h2 where m2: "host_Mkdir ?t perm h1 = (r2, h2)" by force
        note eff = Mkdir_effect [OF clear_lands [OF st(1) snoc.prems(2) st(2)] m2]
        have st2: "stands dest R R0 h2" "clear (ho_fs h2) R ?cs"
          using stands_keeps [OF st(1) eff(1)] clear_keeps [OF st(2) eff(1,2)] by blast+
        have h2: "h' = h2" using res Inr m2 by (auto split: sum.splits if_splits)
        have 2: "keeps ?A h h2" "new_dirs h h2" using 1 eff(1,2) keeps_trans new_dirs_trans by blast+
        have "is_dir (ho_fs h2) (R @ ?cs)" if ok: "r = Inr ()"
        proof (cases r2)
          case (Inr v)
          then show ?thesis using eff(3) clear_namei [OF st(1) ne snoc.prems(2) st(2)] by auto
        next
          case (Inl e2)
          then obtain i where "host_Lstat ?t h2 = Inr i" "in_body i = BDir"
            using res Inr m2 ok by (auto split: sum.splits if_splits)
          then show ?thesis using found [OF _ _ st2] by (simp add: host_Lstat_def)
        qed
        then show ?thesis using 2 h2 by simp
      qed
    qed
  qed
qed

section \<open>Making files\<close>

text \<open>A call that makes a new entry at the path: what it leaves, whether it fails or not.\<close>

definition makes :: "path set \<Rightarrow> bytes \<Rightarrow> body \<Rightarrow> host \<Rightarrow> (errno + 'r) \<times> host \<Rightarrow> bool" where
  "makes A t b h r \<longleftrightarrow> keeps A h (snd r) \<and>
     (\<forall>x. fst r = Inr x \<longrightarrow> (\<exists>p i. namei (ho_fs h) (ho_cwd h) False t = Inr p \<and> map_of (ho_fs h) p = None \<and>
        map_of (ho_fs (snd r)) p = Some i \<and> in_body i = b))"

lemma makes_sys:
  assumes "\<And>pl. makes A t b h (f (h\<lparr>ho_plan := pl\<rparr>))"
  shows "makes A t b h (sys nothing f h)"
proof (cases "ho_plan h")
  case Nil
  show ?thesis using assms [of "[]", unfolded same_plan [OF Nil]] Nil by (simp add: sys_def)
next
  case (Cons y pl)
  then show ?thesis using assms [of pl] by (cases y) (auto simp: sys_def nothing_def makes_def keeps_refl)
qed

lemma makes_create:
  assumes "lands A False t h"
  shows "makes A t b h (at_path False t (\<lambda>p h. create b (m h) p h) (h\<lparr>ho_plan := pl\<rparr>))"
proof (cases "namei (ho_fs h) (ho_cwd h) False t")
  case (Inl e)
  then show ?thesis by (simp add: at_path_def makes_def keeps_refl)
next
  case (Inr p)
  let ?h = "h\<lparr>ho_plan := pl\<rparr>"
  obtain r h2 where c: "create b (m ?h) p ?h = (r, h2)" by force
  have k: "keeps A h (snd (at_path False t (\<lambda>p h. create b (m h) p h) ?h))" using keeps_create_at [of A False t ?h b m] assms by simp
  show ?thesis using k Inr c create_new(2) [OF c] by (auto simp: makes_def at_path_def)
qed

lemma makes_Symlink: "lands A False t h \<Longrightarrow> makes A t (BLnk target) h (host_Symlink target t h)"
  unfolding host_Symlink_def
  by (rule makes_sys) (use makes_create [where m = "\<lambda>_. 0x1FF"] in \<open>auto simp: makes_def keeps_refl\<close>)

lemma makes_Mkfifo: "lands A False t h \<Longrightarrow> makes A t BFifo h (unix_Mkfifo t perm h)"
  unfolding unix_Mkfifo_def by (rule makes_sys) (rule makes_create)

lemma makes_Mknod: "lands A False t h \<Longrightarrow> makes A t b h (unix_Mknod t b perm h)"
  unfolding unix_Mknod_def by (rule makes_sys) (use makes_create in \<open>auto simp: makes_def keeps_refl\<close>)

lemma makes_CreateExcl:
  assumes "lands A False t h"
  shows "makes A t (BReg []) h (host_CreateExcl t perm h)"
    and "host_CreateExcl t perm h = (Inr p, h') \<Longrightarrow> namei (ho_fs h) (ho_cwd h) False t = Inr p"
proof -
  let ?f = "at_path False t (\<lambda>p h. case create (BReg []) (masked h perm) p h of (Inl e, h) \<Rightarrow> (Inl e, h) | (Inr _, h) \<Rightarrow> (Inr p, h))"
  have step: "makes A t (BReg []) h (?f (h\<lparr>ho_plan := pl\<rparr>)) \<and>
      (\<forall>p h'. ?f (h\<lparr>ho_plan := pl\<rparr>) = (Inr p, h') \<longrightarrow> namei (ho_fs h) (ho_cwd h) False t = Inr p)" for pl
  proof (cases "namei (ho_fs h) (ho_cwd h) False t")
    case (Inl e)
    then show ?thesis by (simp add: at_path_def makes_def keeps_refl)
  next
    case (Inr p)
    let ?h = "h\<lparr>ho_plan := pl\<rparr>"
    have m: "makes A t (BReg []) h (create (BReg []) (masked ?h perm) p ?h)"
      using makes_create [OF assms, of "BReg []" "\<lambda>h. masked h perm" pl] Inr by (simp add: at_path_def)
    then show ?thesis using Inr by (auto simp: at_path_def makes_def split: prod.splits sum.splits)
  qed
  show "makes A t (BReg []) h (host_CreateExcl t perm h)" unfolding host_CreateExcl_def by (rule makes_sys) (use step in blast)
  assume "host_CreateExcl t perm h = (Inr p, h')"
  from sys_ok [OF this [unfolded host_CreateExcl_def]] show "namei (ho_fs h) (ho_cwd h) False t = Inr p" using step by blast
qed

lemma keeps_content:
  assumes "p \<in> A" and "map_of (ho_fs h) p = Some i" and "in_body i = BReg c"
  shows "keeps A h (snd (host_WriteAll p b h))"
proof -
  have "keeps A h (snd (set_content p d (h\<lparr>ho_plan := pl\<rparr>)))" for d pl
  proof -
    have "keeps A (h\<lparr>ho_plan := pl\<rparr>) (put_inode p (i\<lparr>in_body := BReg d, in_mtime := ho_now h\<rparr>) (h\<lparr>ho_plan := pl\<rparr>))"
      using assms by (intro keeps_put [where i = i]) (simp_all add: kind_def)
    then show ?thesis using assms(2) by (simp add: set_content_def)
  qed
  then show ?thesis unfolding host_WriteAll_def by (intro keeps_sys) simp
qed

lemma keeps_Close: "keeps A h (snd (host_Close h'))= keeps A h h'"
proof -
  have "keeps A h (snd (sys nothing (\<lambda>h. (Inr (), h)) h')) = keeps A h h'"
    by (cases "ho_plan h'") (auto simp: sys_def split: option.splits)
  then show ?thesis by (simp add: host_Close_def)
qed

lemma kind_reg: "kind b = BReg [] \<longleftrightarrow> (\<exists>c. b = BReg c)"
  by (cases b) (simp_all add: kind_def)

text \<open>A regular file: made, filled and closed.\<close>

lemma writeRegular_effect:
  assumes "lands A False t h"
  shows "makes A t b0 h (Inl EIO :: errno + unit, snd (writeRegular t b rerr h)) \<and>
     (fst (writeRegular t b rerr h) = Inr () \<longrightarrow> (\<exists>p i c. namei (ho_fs h) (ho_cwd h) False t = Inr p \<and> map_of (ho_fs h) p = None \<and>
        map_of (ho_fs (snd (writeRegular t b rerr h))) p = Some i \<and> in_body i = BReg c))"
proof (cases "host_CreateExcl t 0x180 h")
  case (Pair r h1)
  note m = makes_CreateExcl(1) [OF assms, where perm = "0x180", unfolded Pair] makes_CreateExcl(2) [OF assms, where perm = "0x180"]
  show ?thesis
  proof (cases r)
    case (Inl e)
    then show ?thesis using m(1) by (simp add: writeRegular_def ext_then_def ext_sys_def Pair makes_def)
  next
    case (Inr p)
    have p: "namei (ho_fs h) (ho_cwd h) False t = Inr p" using m(2) [of p h1] Inr Pair by simp
    have k1: "keeps A h h1" and n: "map_of (ho_fs h) p = None" using m(1) Inr p by (auto simp: makes_def)
    obtain i where i: "map_of (ho_fs h1) p = Some i" "in_body i = BReg []" using m(1) Inr p by (auto simp: makes_def)
    obtain r2 h2 where w: "host_WriteAll p b h1 = (r2, h2)" by force
    have pA: "p \<in> A" using assms p by (simp add: lands_def)
    have k2: "keeps A h1 h2" using keeps_content [OF pA i, of b] by (simp add: w)
    have "\<exists>j. map_of (ho_fs h2) p = Some j \<and> kind (in_body j) = BReg []"
      using k2 i unfolding keeps_def kinds_kept_def by (fastforce simp: kind_def)
    then obtain j c where j: "map_of (ho_fs h2) p = Some j" "in_body j = BReg c" using kind_reg by blast
    have k: "keeps A h h2" using k1 k2 keeps_trans by blast
    have cl: "ho_fs (snd (host_Close h2)) = ho_fs h2"
      by (cases "ho_plan h2") (auto simp: host_Close_def sys_def nothing_def split: option.splits)
    have h': "snd (writeRegular t b rerr h) = snd (host_Close h2)"
      using w by (cases r2; cases rerr; cases "host_Close h2"; cases "fst (host_Close h2)")
        (auto simp: writeRegular_def ext_then_def ext_sys_def Pair Inr)
    show ?thesis using k p n j by (auto simp: makes_def h' cl keeps_Close)
  qed
qed

section \<open>Members\<close>

lemma open_stays:
  assumes "stands dest R R0 h" and "cs \<noteq> []" and "\<forall>c \<in> set cs. real_name c" and "open_to (ho_fs h) R cs"
    and "map_of (ho_fs h) (R @ cs) = Some i" and "f \<Longrightarrow> \<forall>t. in_body i \<noteq> BLnk t" and "steps R R0 cs \<subseteq> A"
  shows "stays A f (under dest cs) h"
  unfolding stays_def
proof (intro allI impI)
  fix h'
  assume k: "keeps A h h'"
  obtain j where j: "map_of (ho_fs h') (R @ cs) = Some j" "kind (in_body j) = kind (in_body i)"
    using k assms(5) unfolding keeps_def kinds_kept_def by blast
  have "no_link (ho_fs h') (R @ cs)" if f
  proof -
    have "in_body j \<noteq> BLnk t" for t using assms(6) [OF that] j(2) kind_simps(2) [of "in_body i" t] kind_simps(2) [of "in_body j" t] by auto
    then show ?thesis using j(1) by (simp add: no_link_def)
  qed
  note n = open_namei [OF stands_keeps [OF assms(1) k] assms(2,3) open_keeps [OF assms(4) k] this]
  show "lands A f (under dest cs) h'" using n steps_ends [OF assms(2)] assms(7) by (auto simp: lands_def split: if_splits)
qed

lemma dest_stays:
  assumes "stands dest R R0 h" and "steps R R0 [] \<subseteq> A"
  shows "stays A f dest h"
  unfolding stays_def
proof (intro allI impI)
  fix h'
  assume "keeps A h h'"
  from clear_lands [OF stands_keeps [OF assms(1) this], of "[]" f] show "lands A f dest h'"
    using assms(2) by (auto simp: lands_def under_def clear_def)
qed

end
