(* ===== verification/Amber_ExtractSafe.thy ===== *)
theory Amber_ExtractSafe
  imports Amber_Contain
begin

text \<open>
  An extraction as a whole: each member, the deferred directories, and the property that
  nothing outside the destination changes and no file that existed is overwritten.
\<close>

section \<open>One member\<close>

lemma made_target:
  assumes "stands dest R R0 h" and "\<forall>c \<in> set cs. real_name c" and "clear (ho_fs h) R cs" and "keeps (steps R R0 cs) h h1"
    and "namei (ho_fs h) (ho_cwd h) False (under dest cs) = Inr p" and "map_of (ho_fs h) p = None"
  shows "cs \<noteq> []" "p = R @ cs" "open_to (ho_fs h1) R cs" "stands dest R R0 h1"
proof -
  show ne: "cs \<noteq> []" using assms(1,5,6) by (auto simp: under_def stands_def)
  show "p = R @ cs" "open_to (ho_fs h1) R cs" using clear_namei [OF assms(1) ne assms(2,3,5)] open_keeps [OF _ assms(4)] by blast+
  show "stands dest R R0 h1" by (rule stands_keeps [OF assms(1,4)])
qed

text \<open>A member that makes an entry and then gives it its attributes.\<close>

lemma member_keeps:
  assumes "stands dest R R0 h" and "\<forall>c \<in> set cs. real_name c" and "clear (ho_fs h) R cs"
    and "keeps (steps R R0 cs) h (snd (mk h))"
    and "\<And>x. fst (mk h) = Inr x \<Longrightarrow> \<exists>p i. namei (ho_fs h) (ho_cwd h) False (under dest cs) = Inr p \<and> map_of (ho_fs h) p = None \<and>
        map_of (ho_fs (snd (mk h))) p = Some i \<and> (sl \<or> (\<forall>t. in_body i \<noteq> BLnk t))"
  shows "keeps (steps R R0 cs) h (snd (ext_then mk (\<lambda>_. ext_then (applyMeta (under dest cs) hdr sl) (\<lambda>_. ext_return dirs)) h))"
proof (cases "mk h")
  case (Pair r h1)
  show ?thesis
  proof (cases r)
    case (Inl e)
    then show ?thesis using assms(4) by (simp add: ext_then_def Pair)
  next
    case (Inr x)
    let ?A = "steps R R0 cs"
    have k: "keeps ?A h h1" using assms(4) by (simp add: Pair)
    obtain p i where p: "namei (ho_fs h) (ho_cwd h) False (under dest cs) = Inr p" "map_of (ho_fs h) p = None"
      "map_of (ho_fs h1) p = Some i" "sl \<or> (\<forall>t. in_body i \<noteq> BLnk t)" using assms(5) Inr by (auto simp: Pair)
    note m = made_target [OF assms(1-3) k p(1,2)]
    have "stays ?A f (under dest cs) h1" if "f \<Longrightarrow> \<not> sl" for f
      using p(3,4) that by (intro open_stays [OF m(4,1) assms(2) m(3), where i = i]) (auto simp: m(2))
    then have "within ?A h1 (ext_then (applyMeta (under dest cs) hdr sl) (\<lambda>_. ext_return dirs))"
      by (intro within_then within_applyMeta within_return) auto
    then have "keeps ?A h1 (snd (ext_then (applyMeta (under dest cs) hdr sl) (\<lambda>_. ext_return dirs) h1))"
      by (simp add: within_def keeps_refl)
    then show ?thesis using keeps_trans [OF k] by (simp add: ext_then_def [of mk] Pair Inr)
  qed
qed

lemma makes_ext:
  assumes "makes A t b h (f h)"
  shows "keeps A h (snd (ext_sys f h))"
    and "fst (ext_sys f h) = Inr x \<Longrightarrow> \<exists>p i. namei (ho_fs h) (ho_cwd h) False t = Inr p \<and> map_of (ho_fs h) p = None \<and>
        map_of (ho_fs (snd (ext_sys f h))) p = Some i \<and> in_body i = b"
  using assms by (cases "f h"; cases "fst (f h)"; simp add: ext_sys_def makes_def)+

text \<open>What is recorded about a directory whose attributes are still to be applied.\<close>

definition dir_seen :: "bytes \<Rightarrow> path \<Rightarrow> host \<Rightarrow> in_hdr \<Rightarrow> bool" where
  "dir_seen dest R h hdr \<longleftrightarrow> (\<exists>cs. safeJoin dest (th_Name hdr) = Inr (under dest cs) \<and> (\<forall>c \<in> set cs. real_name c) \<and>
     (\<forall>k \<le> length cs. is_dir (ho_fs h) (R @ take k cs)))"

lemma dir_seen_keeps: "dir_seen dest R h hdr \<Longrightarrow> keeps A h h' \<Longrightarrow> dir_seen dest R h' hdr"
  unfolding dir_seen_def using keeps_is_dir by blast

abbreviation with_meta :: "'a ext \<Rightarrow> bytes \<Rightarrow> in_hdr \<Rightarrow> bool \<Rightarrow> in_hdr list \<Rightarrow> in_hdr list ext" where
  "with_meta mk t hdr sl dirs \<equiv> ext_then mk (\<lambda>_. ext_then (applyMeta t hdr sl) (\<lambda>_. ext_return dirs))"

lemma with_meta_dirs: "with_meta mk t hdr sl dirs h = (Inr dirs', h') \<Longrightarrow> dirs' = dirs"
  by (auto simp: ext_then_def ext_return_def split: prod.splits sum.splits)

definition dev_member :: "bytes \<Rightarrow> body \<Rightarrow> u32 \<Rightarrow> in_hdr \<Rightarrow> in_hdr list \<Rightarrow> in_hdr list ext" where
  "dev_member t b perm hdr dirs h =
     (case unix_Mknod t b perm h of
        (Inl e, h) \<Rightarrow> if isPrivilegeError e then (Inr dirs, h) else (Inl (ExtSys e), h)
      | (Inr _, h) \<Rightarrow> ext_then (applyMeta t hdr False) (\<lambda>_. ext_return dirs) h)"

lemma dev_member_meta:
  "snd (dev_member t b perm hdr dirs h) = snd (with_meta (ext_sys (unix_Mknod t b perm)) t hdr False dirs h)"
  "dev_member t b perm hdr dirs h = (Inr dirs', h') \<Longrightarrow> dirs' = dirs"
proof -
  obtain r h1 where p: "unix_Mknod t b perm h = (r, h1)" by force
  show "snd (dev_member t b perm hdr dirs h) = snd (with_meta (ext_sys (unix_Mknod t b perm)) t hdr False dirs h)"
    by (cases r) (simp_all add: dev_member_def p ext_sys_def ext_then_def [of "\<lambda>a. case unix_Mknod t b perm a of (Inl e, h) \<Rightarrow> (Inl (ExtSys e), h) | (Inr r, h) \<Rightarrow> (Inr r, h)"] ext_then_def [of "ext_sys (unix_Mknod t b perm)"])
  assume "dev_member t b perm hdr dirs h = (Inr dirs', h')"
  then show "dirs' = dirs"
    by (cases r) (auto simp: dev_member_def p ext_then_def ext_return_def split: prod.splits sum.splits if_splits)
qed

lemma make_member_cases:
  defines "perm m \<equiv> ucast (th_Mode (im_hdr m) AND 0xFFF) :: u32"
  shows "th_Typeflag (im_hdr m) = TypeReg \<Longrightarrow> make_member t m dirs = with_meta (writeRegular t (im_body m) (im_err m)) t (im_hdr m) False dirs"
    "th_Typeflag (im_hdr m) = TypeSymlink \<Longrightarrow> make_member t m dirs = with_meta (ext_sys (host_Symlink (th_Linkname (im_hdr m)) t)) t (im_hdr m) True dirs"
    "th_Typeflag (im_hdr m) = TypeFifo \<Longrightarrow> make_member t m dirs = with_meta (ext_sys (unix_Mkfifo t (perm m))) t (im_hdr m) False dirs"
    "th_Typeflag (im_hdr m) = TypeChar \<Longrightarrow> make_member t m dirs =
       dev_member t (BChr (ucast (th_Devmajor (im_hdr m))) (ucast (th_Devminor (im_hdr m)))) (perm m) (im_hdr m) dirs"
    "th_Typeflag (im_hdr m) = TypeBlock \<Longrightarrow> make_member t m dirs =
       dev_member t (BBlk (ucast (th_Devmajor (im_hdr m))) (ucast (th_Devminor (im_hdr m)))) (perm m) (im_hdr m) dirs"
  by (auto simp: make_member_def perm_def Let_def dev_member_def fun_eq_iff)

lemma dir_member_effect:
  assumes "stands dest R R0 h" and "safe_target dest cs t" and "clear (ho_fs h) R cs" and "make_member t m dirs h = (r, h')"
    and "safeJoin dest (th_Name (im_hdr m)) = Inr t" and "th_Typeflag (im_hdr m) = TypeDir"
  shows "keeps (steps R R0 cs) h h' \<and> (\<forall>dirs'. r = Inr dirs' \<longrightarrow> dirs' = dirs @ [im_hdr m] \<and> dir_seen dest R h' (im_hdr m))"
proof -
  have t: "t = under dest cs" "\<forall>c \<in> set cs. real_name c" "cs \<noteq> [] \<longrightarrow> normal dest" using assms(2) by (simp_all add: safe_target_def)
  obtain r1 h1 where md: "mkdir_all (Suc (length t)) t 0x1C0 h = (r1, h1)" by force
  note e = mkdir_all_effect [OF assms(1) t(3,2) assms(3) md [unfolded t(1)]]
  have h': "h' = h1" "r = (case r1 of Inl e \<Rightarrow> Inl (ExtSys e) | Inr _ \<Rightarrow> Inr (dirs @ [im_hdr m]))"
    using assms(4) by (cases r1; simp add: make_member_def assms(6) Let_def ext_then_def ext_sys_def host_MkdirAll_def md ext_return_def del: mkdir_all.simps)+
  have "dir_seen dest R h1 (im_hdr m)" if "r1 = Inr ()"
  proof -
    have d: "is_dir (ho_fs h1) (R @ cs)" using e that by blast
    have st: "stands dest R R0 h1" "clear (ho_fs h1) R cs" using stands_keeps [OF assms(1)] clear_keeps [OF assms(3)] e by blast+
    have "is_dir (ho_fs h1) (R @ take k cs)" if "k \<le> length cs" for k
    proof (cases "k = 0")
      case False
      have "map_of (ho_fs h1) (R @ take k cs) \<noteq> None"
        using rooted_take [of "ho_fs h1" R cs k] is_dir_exists [OF d] st(1) by (simp add: stands_def)
      then show ?thesis using st(2) [unfolded clear_def, rule_format, of k] that False by auto
    qed (use st(1) in \<open>simp add: stands_def\<close>)
    then show ?thesis unfolding dir_seen_def using assms(5) t(1,2) by blast
  qed
  then show ?thesis using e h' by (cases r1) simp_all
qed

lemma make_member_keeps:
  assumes "stands dest R R0 h" and "safe_target dest cs t" and "clear (ho_fs h) R cs" and "make_member t m dirs h = (r, h')"
    and "safeJoin dest (th_Name (im_hdr m)) = Inr t"
  shows "keeps (steps R R0 cs) h h' \<and> (\<forall>dirs'. r = Inr dirs' \<longrightarrow> (\<forall>hdr \<in> set dirs'. hdr \<in> set dirs \<or> dir_seen dest R h' hdr))"
proof -
  let ?A = "steps R R0 cs" and ?hdr = "im_hdr m"
  have t: "t = under dest cs" "\<forall>c \<in> set cs. real_name c" using assms(2) by (simp_all add: safe_target_def)
  have l: "lands ?A False t h" unfolding t(1) by (rule clear_lands [OF assms(1) t(2) assms(3)])
  have h': "h' = snd (make_member t m dirs h)" using assms(4) by simp
  have mk: "keeps ?A h (snd (with_meta (ext_sys f) t ?hdr sl dirs h))"
    if f: "makes ?A t b h (f h)" and b: "sl \<or> (\<forall>t. b \<noteq> BLnk t)" for f :: "unit os" and b sl
  proof -
    have k: "keeps ?A h (snd (ext_sys f h))" by (rule makes_ext(1) [where b = b and t = t and f = f and h = h, OF f])
    have new: "\<exists>p i. namei (ho_fs h) (ho_cwd h) False (under dest cs) = Inr p \<and> map_of (ho_fs h) p = None \<and>
        map_of (ho_fs (snd (ext_sys f h))) p = Some i \<and> (sl \<or> (\<forall>t. in_body i \<noteq> BLnk t))" if "fst (ext_sys f h) = Inr x" for x
      using makes_ext(2) [where b = b and t = t and f = f and h = h, OF f that] b unfolding t(1) by blast
    show ?thesis unfolding t(1)
      by (rule member_keeps [where mk = "ext_sys f" and R = R, OF assms(1) t(2) assms(3)]) (rule k, rule new)
  qed
  have dev: "keeps ?A h (snd (dev_member t b perm ?hdr dirs h))" if "\<forall>t. b \<noteq> BLnk t" for b perm
    unfolding dev_member_meta(1) by (rule mk [where f = "unix_Mknod t b perm" and b = b, OF makes_Mknod [OF l]]) (use that in blast)
  show ?thesis
  proof (cases "th_Typeflag ?hdr")
    case TypeDir
    then show ?thesis using dir_member_effect [OF assms TypeDir] by auto
  next
    case TypeReg
    note w = writeRegular_effect [OF l, of BFifo "im_body m" "im_err m"]
    have "keeps ?A h (snd (writeRegular t (im_body m) (im_err m) h))" using w by (simp add: makes_def)
    moreover have "\<exists>p i. namei (ho_fs h) (ho_cwd h) False t = Inr p \<and> map_of (ho_fs h) p = None \<and>
        map_of (ho_fs (snd (writeRegular t (im_body m) (im_err m) h))) p = Some i \<and> (False \<or> (\<forall>t. in_body i \<noteq> BLnk t))"
      if "fst (writeRegular t (im_body m) (im_err m) h) = Inr x" for x
    proof -
      have "fst (writeRegular t (im_body m) (im_err m) h) = Inr ()" using that by simp
      then obtain p i c where "namei (ho_fs h) (ho_cwd h) False t = Inr p" "map_of (ho_fs h) p = None"
        "map_of (ho_fs (snd (writeRegular t (im_body m) (im_err m) h))) p = Some i" "in_body i = BReg c" using w by blast
      then show ?thesis by (intro exI [of _ p] exI [of _ i]) simp
    qed
    ultimately have "keeps ?A h (snd (with_meta (writeRegular t (im_body m) (im_err m)) t ?hdr False dirs h))"
      using member_keeps [OF assms(1) t(2) assms(3), of "writeRegular t (im_body m) (im_err m)" False ?hdr dirs] by (simp add: t(1))
    then show ?thesis using h' assms(4) with_meta_dirs unfolding make_member_cases(1) [OF TypeReg] by blast
  next
    case TypeSymlink
    show ?thesis using mk [where f = "host_Symlink (th_Linkname ?hdr) t" and sl = True, OF makes_Symlink [OF l]] h' assms(4) with_meta_dirs
      unfolding make_member_cases(2) [OF TypeSymlink] by blast
  next
    case TypeFifo
    show ?thesis using mk [where f = "unix_Mkfifo t (ucast (th_Mode ?hdr AND 0xFFF))" and b = BFifo and sl = False, OF makes_Mkfifo [OF l]] h' assms(4) with_meta_dirs
      unfolding make_member_cases(3) [OF TypeFifo] by blast
  next
    case (TypeOther c)
    then show ?thesis using assms(4) by (auto simp: make_member_def Let_def keeps_refl)
  next
    case TypeChar
    show ?thesis using dev h' assms(4) dev_member_meta(2) unfolding make_member_cases(4) [OF TypeChar] by blast
  next
    case TypeBlock
    show ?thesis using dev h' assms(4) dev_member_meta(2) unfolding make_member_cases(5) [OF TypeBlock] by blast
  qed
qed

section \<open>The whole extraction\<close>

text \<open>The paths of the destination, and what an extraction leaves alone.\<close>

definition inside :: "path \<Rightarrow> path \<Rightarrow> path set" where
  "inside R R0 = {p. \<exists>q. p = R @ q} \<union> {R0}"

definition old_files :: "path \<Rightarrow> host \<Rightarrow> host \<Rightarrow> bool" where
  "old_files R0 h h' \<longleftrightarrow> (\<forall>p i. map_of (ho_fs h) p = Some i \<and> in_body i \<noteq> BDir \<and> p \<noteq> R0 \<longrightarrow> map_of (ho_fs h') p = Some i)"

lemma old_files_trans: "old_files R0 h1 h2 \<Longrightarrow> old_files R0 h2 h3 \<Longrightarrow> old_files R0 h1 h3"
  unfolding old_files_def by blast

lemma steps_inside: "steps R R0 cs \<subseteq> inside R R0"
  by (auto simp: steps_def inside_def intro: exI [of _ "[]"])

lemma old_files_keeps:
  assumes "keeps A h h'" and "\<And>p. p \<in> A \<Longrightarrow> p \<noteq> R0 \<Longrightarrow> map_of (ho_fs h) p = None \<or> is_dir (ho_fs h) p"
  shows "old_files R0 h h'"
  unfolding old_files_def
proof (intro allI impI)
  fix p i
  assume i: "map_of (ho_fs h) p = Some i \<and> in_body i \<noteq> BDir \<and> p \<noteq> R0"
  then have "\<not> (map_of (ho_fs h) p = None \<or> is_dir (ho_fs h) p)" by (auto simp: is_dir_def)
  then have "p \<notin> A" using assms(2) i by blast
  then show "map_of (ho_fs h') p = Some i" using assms(1) i by (simp add: keeps_def)
qed

lemma clear_steps:
  assumes "stands dest R R0 h" and "clear (ho_fs h) R cs" and "p \<in> steps R R0 cs" and "p \<noteq> R0"
  shows "map_of (ho_fs h) p = None \<or> is_dir (ho_fs h) p"
proof (cases "p = R")
  case True
  then show ?thesis using assms(1) by (simp add: stands_def)
next
  case False
  then obtain k where k: "k \<le> length cs" "p = R @ take k cs" using assms(3,4) by (auto simp: steps_def split: if_splits)
  then have "0 < k" using False by (cases k) auto
  then show ?thesis using assms(2) [unfolded clear_def, rule_format, of k] k by simp
qed

lemma extract_member_effect:
  assumes "stands dest R R0 h" and "extract_member dest m dirs h = (r, h')" and "\<forall>hdr \<in> set dirs. dir_seen dest R h hdr"
  shows "keeps (inside R R0) h h' \<and> old_files R0 h h' \<and> (\<forall>dirs'. r = Inr dirs' \<longrightarrow> (\<forall>hdr \<in> set dirs'. dir_seen dest R h' hdr))"
proof (cases "safeJoin dest (th_Name (im_hdr m))")
  case (Inl e)
  then show ?thesis using assms(2) by (auto simp: extract_member_def keeps_refl old_files_def)
next
  case (Inr t)
  obtain cs where cs: "safe_target dest cs t" using safeJoin_target [OF stands_nonempty [OF assms(1)] Inr] by blast
  obtain r1 h1 where rj: "rejectSymlinkComponents dest t h = (r1, h1)" by force
  have x: "extract_member dest m dirs h = (case r1 of Inl e \<Rightarrow> (Inl e, h1) | Inr a \<Rightarrow> make_member t m dirs h1)"
    by (simp add: extract_member_def Inr ext_then_def rj)
  show ?thesis
  proof (cases r1)
    case (Inl e)
    then have "h' = h" "r = Inl e" using assms(2) x rj by (auto simp: rejectSymlinkComponents_def split: option.splits)
    then show ?thesis by (simp add: keeps_refl old_files_def)
  next
    case ok: (Inr u)
    have c: "clear (ho_fs h) R cs" "h1 = h" using checked_clear [OF assms(1) cs, of h1] rj ok by simp_all
    have mm: "make_member t m dirs h = (r, h')" using assms(2) x ok c(2) by simp
    note e = make_member_keeps [OF assms(1) cs c(1) mm Inr]
    have k: "keeps (inside R R0) h h'" using e keeps_mono steps_inside by blast
    have "old_files R0 h h'" using old_files_keeps [of "steps R R0 cs" h h' R0] e clear_steps [OF assms(1) c(1)] by blast
    then show ?thesis using e k assms(3) dir_seen_keeps by blast
  qed
qed

lemma extract_members_effect:
  assumes "stands dest R R0 h" and "extract_members dest ms dirs h = (r, h')" and "\<forall>hdr \<in> set dirs. dir_seen dest R h hdr"
  shows "keeps (inside R R0) h h' \<and> old_files R0 h h' \<and> (\<forall>dirs'. r = Inr dirs' \<longrightarrow> (\<forall>hdr \<in> set dirs'. dir_seen dest R h' hdr))"
  using assms
proof (induction ms arbitrary: dirs h)
  case Nil
  then show ?case by (auto simp: ext_return_def keeps_refl old_files_def)
next
  case (Cons m ms)
  obtain r1 h1 where m: "extract_member dest m dirs h = (r1, h1)" by force
  note e = extract_member_effect [OF Cons.prems(1) m Cons.prems(3)]
  show ?case
  proof (cases r1)
    case (Inl e1)
    then show ?thesis using e Cons.prems(2) by (auto simp: ext_then_def m)
  next
    case (Inr dirs1)
    then have "extract_members dest ms dirs1 h1 = (r, h')" using Cons.prems(2) by (simp add: ext_then_def m)
    moreover have "stands dest R R0 h1" using stands_keeps [OF Cons.prems(1)] e by blast
    ultimately have f: "keeps (inside R R0) h1 h' \<and> old_files R0 h1 h' \<and> (\<forall>dirs'. r = Inr dirs' \<longrightarrow> (\<forall>hdr \<in> set dirs'. dir_seen dest R h' hdr))"
      using Cons.IH [of h1 dirs1] e Inr by blast
    then show ?thesis using e keeps_trans old_files_trans by blast
  qed
qed

lemma apply_dirs_effect:
  assumes "stands dest R R0 h" and "\<forall>hdr \<in> set dirs. dir_seen dest R h hdr"
  defines "A \<equiv> {p. p \<in> inside R R0 \<and> is_dir (ho_fs h) p} \<union> {R0}"
  shows "within A h (apply_dirs dest dirs)"
  using assms(2)
proof (induction dirs)
  case Nil
  then show ?case by (simp add: within_return)
next
  case (Cons hdr dirs)
  obtain cs where cs: "safeJoin dest (th_Name hdr) = Inr (under dest cs)" "\<forall>c \<in> set cs. real_name c"
    "\<forall>k \<le> length cs. is_dir (ho_fs h) (R @ take k cs)" using Cons.prems by (auto simp: dir_seen_def)
  have sub: "steps R R0 cs \<subseteq> A"
  proof
    fix p
    assume p: "p \<in> steps R R0 cs"
    then have "p = R0 \<or> (\<exists>k \<le> length cs. p = R @ take k cs)" unfolding steps_def by (cases "cs = []") auto
    then show "p \<in> A" using cs(3) p steps_inside unfolding A_def by blast
  qed
  have "stays A f (under dest cs) h" for f
  proof (cases "cs = []")
    case True
    then show ?thesis using dest_stays [OF assms(1), of A f] sub by (simp add: under_def)
  next
    case False
    have d: "is_dir (ho_fs h) (R @ cs)" using cs(3) [rule_format, of "length cs"] by simp
    then obtain i where i: "map_of (ho_fs h) (R @ cs) = Some i" "in_body i = BDir" by (auto simp: is_dir_def split: option.splits)
    have "open_to (ho_fs h) R cs" using cs(3) unfolding open_to_def by simp
    from open_stays [OF assms(1) False cs(2) this i(1) _ sub, of f] show ?thesis by (simp add: i(2))
  qed
  then have "within A h (ext_then (applyMeta (under dest cs) hdr False) (\<lambda>_. apply_dirs dest dirs))"
    using Cons by (intro within_then within_applyMeta) auto
  then show ?case by (simp add: cs(1))
qed

text \<open>\<open>MkdirAll\<close> of the destination.\<close>

lemma namei_follow: "namei fs cwd False s = Inr p \<Longrightarrow> is_dir fs p \<Longrightarrow> namei fs cwd True s = Inr p"
  using resolve_follow unfolding namei_def by (auto split: if_splits)

lemma Mkdir_follow:
  assumes "host_Mkdir s perm h = (Inr (), h')"
  shows "\<exists>p. namei (ho_fs h') (ho_cwd h') True s = Inr p \<and> is_dir (ho_fs h') p"
proof -
  have l: "lands UNIV False s h" by (simp add: lands_def)
  from Mkdir_effect(3) [OF l assms] obtain p where p: "namei (ho_fs h) (ho_cwd h) False s = Inr p" "is_dir (ho_fs h') p" by blast
  have k: "kinds_kept (ho_fs h) (ho_fs h')" "ho_cwd h' = ho_cwd h" using Mkdir_effect(1) [OF l assms] by (simp_all add: keeps_def)
  have n: "0 \<notin> set s" "s \<noteq> []" using p(1) by (auto simp: namei_def)
  then have "resolve (ho_fs h) MaxLinks (if is_abs s then [] else ho_cwd h) (split_slash s) False = Inr p" using p(1) by (simp add: namei_def)
  from resolve_kinds [OF this disjI2 [OF p(2)] k(1)] have "namei (ho_fs h') (ho_cwd h') False s = Inr p" using n k(2) by (simp add: namei_def)
  then show ?thesis using namei_follow p(2) by blast
qed

lemma mkdir_all_dir:
  assumes "mkdir_all n s perm h = (r, h')"
  shows "(rooted (ho_fs h) \<longrightarrow> rooted (ho_fs h')) \<and> (r = Inr () \<longrightarrow> (\<exists>p. namei (ho_fs h') (ho_cwd h') True s = Inr p \<and> is_dir (ho_fs h') p))"
  using assms
proof (induction n arbitrary: s h r h')
  case (Suc n)
  show ?case
  proof (cases "host_Stat s h")
    case (Inr i)
    then have "h' = h" "r = Inr () \<Longrightarrow> in_body i = BDir" using Suc.prems by (auto split: if_splits)
    then show ?thesis using Inr stat_dir [of True s h i] by (auto simp: host_Stat_def)
  next
    case (Inl e)
    let ?up = "filepath_Dir s"
    obtain r1 h1 where h1: "(if ?up = s \<or> ?up = dot \<or> ?up = [0x2F] then (Inr (), h) else mkdir_all n ?up perm h) = (r1, h1)" by force
    have 1: "rooted (ho_fs h) \<longrightarrow> rooted (ho_fs h1)" using Suc.IH [of ?up h r1 h1] h1 by (auto split: if_splits)
    obtain r2 h2 where m2: "host_Mkdir s perm h1 = (r2, h2)" by force
    have 2: "rooted (ho_fs h1) \<longrightarrow> rooted (ho_fs h2)" using Mkdir_effect(1) [of UNIV s h1 perm r2 h2] m2 by (simp add: lands_def keeps_def)
    have res: "(case r1 of Inl e \<Rightarrow> (Inl e, h1) | Inr _ \<Rightarrow>
        (case host_Mkdir s perm h1 of (Inr _, h) \<Rightarrow> (Inr (), h)
         | (Inl e, h) \<Rightarrow> (case host_Lstat s h of Inr i \<Rightarrow> (if in_body i = BDir then Inr () else Inl e, h) | Inl _ \<Rightarrow> (Inl e, h)))) = (r, h')"
      using Suc.prems by (simp only: mkdir_all.simps Inl sum.case Let_def h1 prod.case)
    have "rooted (ho_fs h) \<longrightarrow> rooted (ho_fs h')"
      using res 1 2 m2 by (cases r1; cases r2) (auto split: sum.splits if_splits)
    moreover have "\<exists>p. namei (ho_fs h') (ho_cwd h') True s = Inr p \<and> is_dir (ho_fs h') p" if ok: "r = Inr ()"
    proof -
      obtain u where r1: "r1 = Inr u" using res ok by (cases r1) auto
      show ?thesis
      proof (cases r2)
        case (Inr v)
        then have "h' = h2" "host_Mkdir s perm h1 = (Inr (), h2)" using res r1 m2 by auto
        then show ?thesis using Mkdir_follow by blast
      next
        case (Inl e2)
        then obtain i where "host_Lstat s h' = Inr i" "in_body i = BDir" using res r1 m2 ok by (auto split: sum.splits if_splits)
        then show ?thesis using stat_dir [of False s h' i] namei_follow by (auto simp: host_Lstat_def)
      qed
    qed
    ultimately show ?thesis by blast
  qed
qed auto

lemma wf_rooted: "wf_fs fs \<Longrightarrow> rooted fs"
  unfolding rooted_def wf_fs_def using is_dir_exists by (metis domIff dom_map_of_conv_image_fst)

lemma Extract_effect:
  assumes "wf_fs (ho_fs h)" and "host_MkdirAll dest 0x1ED h = (Inr (), h1)" and "Extract ms tend dest h = (r, h')"
  shows "\<exists>R R0. stands dest R R0 h1 \<and> keeps (inside R R0) h1 h' \<and> old_files R0 h1 h'"
proof -
  note m = mkdir_all_dir [OF assms(2) [unfolded host_MkdirAll_def]]
  obtain R R0 where st: "stands dest R R0 h1" using m wf_rooted [OF assms(1)] standsI by blast
  obtain r2 h2 where x: "extract_members dest ms [] h1 = (r2, h2)" by force
  note e = extract_members_effect [OF st x]
  have ext: "Extract ms tend dest h = (case r2 of Inl e \<Rightarrow> (Inl e, h2) | Inr dirs \<Rightarrow>
      (case tend of Some e \<Rightarrow> (Inl (ExtTar e), h2) | None \<Rightarrow> apply_dirs dest dirs h2))"
    by (simp add: Extract_def ext_then_def ext_sys_def assms(2) x)
  show ?thesis
  proof (cases "\<exists>dirs. r2 = Inr dirs \<and> tend = None")
    case False
    then have "h' = h2" using assms(3) ext by (cases r2; cases tend) auto
    then show ?thesis using st e by auto
  next
    case True
    then obtain dirs where d: "r2 = Inr dirs" "tend = None" by blast
    have st2: "stands dest R R0 h2" using stands_keeps [OF st] e by auto
    let ?A = "{p. p \<in> inside R R0 \<and> is_dir (ho_fs h2) p} \<union> {R0}"
    have "within ?A h2 (apply_dirs dest dirs)" using e d(1) by (intro apply_dirs_effect [OF st2]) auto
    then have "keeps ?A h2 (snd (apply_dirs dest dirs h2))" using keeps_refl unfolding within_def by blast
    moreover have "apply_dirs dest dirs h2 = (r, h')" using assms(3) ext d by simp
    ultimately have k: "keeps ?A h2 h'" by simp
    have "old_files R0 h2 h'" by (rule old_files_keeps [OF k]) auto
    moreover have "keeps (inside R R0) h2 h'" by (rule keeps_mono [OF k]) (auto simp: inside_def)
    ultimately show ?thesis using st e keeps_trans old_files_trans by (metis ball_empty list.set(1))
  qed
qed

section \<open>Properties\<close>

text \<open>C9: an extraction is confined to its destination. Whatever members the archive holds, in
  whatever order, with links among them, and whichever calls fail: once the destination exists,
  as a directory \<open>R\<close> that its path denotes, no path outside \<open>R\<close> changes (the path may itself
  be a symbolic link \<open>R0\<close>, which keeps its target), and no file, link or device that existed is
  changed, inside \<open>R\<close> or outside.\<close>

theorem extract_confined:
  assumes "wf_fs (ho_fs h)" and "host_MkdirAll dest 0x1ED h = (Inr (), h1)" and "Extract ms tend dest h = (r, h')"
  shows "\<exists>R R0. namei (ho_fs h1) (ho_cwd h1) True dest = Inr R \<and> is_dir (ho_fs h1) R \<and>
     namei (ho_fs h1) (ho_cwd h1) False dest = Inr R0 \<and>
     (\<forall>p. (\<nexists>q. p = R @ q) \<and> p \<noteq> R0 \<longrightarrow> map_of (ho_fs h') p = map_of (ho_fs h1) p) \<and>
     (\<forall>p i. map_of (ho_fs h1) p = Some i \<and> in_body i \<noteq> BDir \<and> p \<noteq> R0 \<longrightarrow> map_of (ho_fs h') p = Some i) \<and>
     (\<forall>i t. map_of (ho_fs h1) R0 = Some i \<and> in_body i = BLnk t \<longrightarrow> (\<exists>j. map_of (ho_fs h') R0 = Some j \<and> in_body j = BLnk t))"
proof -
  obtain R R0 where e: "stands dest R R0 h1" "keeps (inside R R0) h1 h'" "old_files R0 h1 h'"
    using Extract_effect [OF assms] by blast
  have "\<exists>j. map_of (ho_fs h') R0 = Some j \<and> in_body j = BLnk t" if "map_of (ho_fs h1) R0 = Some i" "in_body i = BLnk t" for i t
    using e(2) that kind_simps(2) unfolding keeps_def kinds_kept_def by metis
  then show ?thesis using e unfolding stands_def keeps_def old_files_def inside_def by blast
qed

text \<open>An archive that places a link out of the destination and then writes through it.\<close>

definition wit_hdr :: "bytes \<Rightarrow> tar_type \<Rightarrow> bytes \<Rightarrow> in_hdr" where
  "wit_hdr name ty link =
     \<lparr>th_Name = name, th_Mode = 0x1FF, th_Uid = 1, th_Gid = 1, th_ModTime = 5, th_Typeflag = ty, th_Size = 0, th_Linkname = link,
      th_Devmajor = 0, th_Devminor = 0, th_PAX = []\<rparr>"

definition wit_members :: "in_member list" where
  "wit_members =
     [\<lparr>im_hdr = wit_hdr [0x61] TypeSymlink [0x2F, 0x78], im_body = [], im_err = None\<rparr>,
      \<lparr>im_hdr = wit_hdr [0x61, 0x2F, 0x62] TypeReg [], im_body = [1], im_err = None\<rparr>]"

definition wit_dir :: inode where
  "wit_dir = \<lparr>in_body = BDir, in_perm = 0x1ED, in_uid = 7, in_gid = 8, in_mtime = 9, in_xattrs = []\<rparr>"

definition wit_host :: host where
  "wit_host = \<lparr>ho_fs = [([], wit_dir), ([[0x64]], wit_dir), ([[0x78]], wit_dir)], ho_cwd = [], ho_root = True,
     ho_uid = 0, ho_gid = 0, ho_umask = 0, ho_now = 3, ho_plan = []\<rparr>"

lemma wit_extract:
  "host_MkdirAll [0x2F, 0x64] 0x1ED wit_host = (Inr (), wit_host)"
  "namei (ho_fs wit_host) (ho_cwd wit_host) f [0x2F, 0x64] = Inr [[0x64]]"
proof -
  show n: "namei (ho_fs wit_host) (ho_cwd wit_host) f [0x2F, 0x64] = Inr [[0x64]]" for f
    by (cases f) (code_simp)+
  show "host_MkdirAll [0x2F, 0x64] 0x1ED wit_host = (Inr (), wit_host)"
    by (simp add: host_MkdirAll_def host_Stat_def stat_path_def n) (simp add: wit_host_def wit_dir_def)
qed

lemma wit_refused: "fst (Extract wit_members None [0x2F, 0x64] wit_host) = Inl (ExtNonDir [0x2F, 0x64, 0x2F, 0x61])"
  by code_simp

theorem extract_confined_witness:
  "map_of (ho_fs (snd (Extract wit_members None [0x2F, 0x64] wit_host))) [[0x78]] = Some wit_dir \<and>
   map_of (ho_fs (snd (Extract wit_members None [0x2F, 0x64] wit_host))) [[0x78], [0x62]] = None \<and>
   fst (Extract wit_members None [0x2F, 0x64] wit_host) = Inl (ExtNonDir [0x2F, 0x64, 0x2F, 0x61])"
proof -
  have "wf_fs (ho_fs wit_host)"
    by (auto simp: wf_fs_def wit_host_def wit_dir_def is_dir_def good_name_def dot_def dotdot_def split: if_splits)
  from extract_confined [OF this wit_extract(1) prod.collapse [symmetric]]
  have "map_of (ho_fs (snd (Extract wit_members None [0x2F, 0x64] wit_host))) p = map_of (ho_fs wit_host) p"
    if "\<nexists>q. p = [[0x64]] @ q" for p
    using that unfolding wit_extract(2) by fastforce
  from this [of "[[0x78]]"] this [of "[[0x78], [0x62]]"] wit_refused show ?thesis by (simp add: wit_host_def)
qed

end
