(* ===== verification/Amber_Archive.thy ===== *)
theory Amber_Archive
  imports Amber_Export
begin

text \<open>
  From a directory to an archive: the objects of an ingest, in any store that holds them, are
  exported as the members of the directory's visible tree.
\<close>

definition root_matcher :: "'p gitignore \<Rightarrow> src \<Rightarrow> path \<Rightarrow> Opts \<Rightarrow> 'p Matcher option" where
  "root_matcher G S p opts =
     (if op_NoIgnore opts then None else case ig_Root G S p of Inl e \<Rightarrow> None | Inr m \<Rightarrow> Some m)"

definition seen_kids :: "'p env \<Rightarrow> src \<Rightarrow> path \<Rightarrow> Opts \<Rightarrow> tree \<Rightarrow> (bytes \<times> tree) list" where
  "seen_kids E S p opts t = tr_kids (visible (en_G E) S p (root_matcher (en_G E) S p opts) t)"

lemma names_in_sorted: "sorted_wrt (<) (names_in fs p)"
  by (simp add: names_in_def strict_sorted_iff)

lemma seen_sorted:
  assumes "lies (sr_fs S) p t"
  shows "sorted_wrt (<) (map fst (seen_kids E S p opts t))"
proof -
  have "sorted_wrt (<) (map fst (tr_kids t))" using assms names_in_sorted by (cases t) simp
  then have "sorted_wrt (<) (map fst (filter (kept G ign) (tr_kids t)))" for G :: "'p gitignore" and ign
    by (simp add: sorted_wrt_map sorted_wrt_filter)
  then show ?thesis by (simp add: seen_kids_def tr_kids_visible case_prod_unfold comp_def)
qed

lemma root_matcher_ok:
  assumes "op_NoIgnore opts \<or> ignores_ok S" and "is_dir (sr_fs S) p"
  shows "(if \<not> op_NoIgnore opts then map_sum id Some (ig_Root G S p) else Inr None) = Inr (root_matcher G S p opts)"
    "root_matcher G S p opts = None \<or> ignores_ok S"
proof -
  have "\<exists>m. ig_Root G S p = Inr m" if "ignores_ok S"
  proof (cases "host_ReadFile S p FileName")
    case (Inl e)
    then have "e = ENOENT" using that assms(2) unfolding ignores_ok_def by blast
    then show ?thesis using Inl by (simp add: ig_Root_def ig_load_def)
  qed (simp add: ig_Root_def ig_load_def Let_def)
  then show "(if \<not> op_NoIgnore opts then map_sum id Some (ig_Root G S p) else Inr None) = Inr (root_matcher G S p opts)"
    "root_matcher G S p opts = None \<or> ignores_ok S" using assms(1) by (auto simp: root_matcher_def)
qed

lemma dir_shows_type: "dir_shows C get k kids \<Longrightarrow> Key_Type k = DirLeaf \<or> Key_Type k = DirNode"
  unfolding dir_shows_def by (auto elim: dir_tree.cases)

text \<open>The parts of an ingest that succeeds.\<close>

lemma ingest_objects:
  assumes "src_ok S" and "op_NoIgnore opts \<or> ignores_ok S"
    and "deps_ok (en_C E) (en_H E)" and "chunks_ok (en_U E)" and "co_ItemBits (op_Chunk opts) \<le> 15"
    and "lies (sr_fs S) p t" and "tr_body t = BDir" and "height t \<le> depth"
  shows "\<exists>N. \<forall>fuel \<ge> N. \<forall>sched before. \<exists>objs k. Objects E fuel S sched depth before p opts = Some (Inr (map Inr objs, Some k)) \<and>
     (\<forall>get :: key \<Rightarrow> ps_err + bytes. has_objs get objs \<longrightarrow> dir_shows (en_C E) get k (seen_kids E S p opts t))"
proof -
  let ?D = "opts_driver opts" and ?ign = "root_matcher (en_G E) S p opts"
  have d: "is_dir (sr_fs S) p" using assms(6,7) by (cases t) (simp add: is_dir_def)
  have st: "statPath S p = Inr True"
    using assms(6,7) src_okD(2) [OF assms(1), of CStat p] by (cases t) (simp add: statPath_def)
  have ck: "chunker_ok (dr_ic ?D)"
    using assms(5) default_chunker_ok [of 7] default_chunker_ok [of "co_ItemBits (op_Chunk opts)"]
    by (simp add: opts_driver_def Let_def DefaultItemBits_def)
  from pbuildDir_ok [OF assms(1,3) ck assms(4,6-8) root_matcher_ok(2) [OF assms(2) d]] obtain N where
    N: "\<forall>fuel \<ge> N. \<forall>sched. \<exists>k s. pbuildDir E ?D fuel S sched depth p ?ign empty_out = Some (Inr (k, s)) \<and> canonical k \<and>
      (\<forall>get :: key \<Rightarrow> ps_err + bytes. has_objs get (o_objs s) \<longrightarrow> dir_shows (en_C E) get k (tr_kids (visible (en_G E) S p ?ign t)))" ..
  have "\<exists>objs k. Objects E fuel S sched depth before p opts = Some (Inr (map Inr objs, Some k)) \<and>
     (\<forall>get :: key \<Rightarrow> ps_err + bytes. has_objs get objs \<longrightarrow> dir_shows (en_C E) get k (seen_kids E S p opts t))"
    if "N \<le> fuel" for fuel sched before
  proof -
    obtain k s where b: "pbuildDir E ?D fuel S sched depth p ?ign empty_out = Some (Inr (k, s))"
      "\<forall>get :: key \<Rightarrow> ps_err + bytes. has_objs get (o_objs s) \<longrightarrow> dir_shows (en_C E) get k (seen_kids E S p opts t)"
      using N \<open>N \<le> fuel\<close> unfolding seen_kids_def by meson
    then show ?thesis
      using root_matcher_ok(1) [OF assms(2) d, of "en_G E"]
      by (simp add: Objects_def st objects_def buildRoot_def split: if_splits)
  qed
  then show ?thesis by blast
qed

section \<open>Properties\<close>

text \<open>C11: an ingest of a readable directory succeeds, in every interleaving of the parallel
  builder's workers, and in any store that holds its objects the export of its root is the
  archive of the directory's visible tree: a member for each file, directory, link, device and
  pipe that no ignore file excludes, in the walk's order, with its path, permissions, owner,
  time, target, device numbers, extended attributes and content.\<close>

theorem ingest_export:
  assumes "src_ok S" and "op_NoIgnore opts \<or> ignores_ok S"
    and "deps_ok (en_C E) (en_H E)" and "chunks_ok (en_U E)" and "co_ItemBits (op_Chunk opts) \<le> 15"
    and "lies (sr_fs S) p t" and "tr_body t = BDir" and "height t \<le> depth"
    and "\<forall>x \<in> set (seen_kids E S p opts t). portable fits [] x"
  shows "\<exists>N. \<forall>fuel \<ge> N. \<forall>sched before. \<exists>objs k. Objects E fuel S sched depth before p opts = Some (Inr (map Inr objs, Some k)) \<and>
     (\<forall>(get :: key \<Rightarrow> ps_err + bytes) mk. has_objs get objs \<longrightarrow> (\<exists>M. \<forall>fuel \<ge> M.
        tar_Write (en_C E) fits mk get fuel None k = Some (Inr (concat (map (tree_members []) (seen_kids E S p opts t))))))"
proof -
  have ex: "\<exists>M. \<forall>fuel \<ge> M.
        tar_Write (en_C E) fits mk get fuel None k = Some (Inr (concat (map (tree_members []) (seen_kids E S p opts t))))"
    if "dir_shows (en_C E) get k (seen_kids E S p opts t)" for get :: "key \<Rightarrow> ps_err + bytes" and k mk
    using export_members [OF that assms(9) seen_sorted [OF assms(6)]] dir_shows_type [OF that] by blast
  show ?thesis using ingest_objects [OF assms(1-8)] ex by meson
qed

definition wit_inode :: "body \<Rightarrow> inode" where
  "wit_inode b = \<lparr>in_body = b, in_perm = 0x1ED, in_uid = 7, in_gid = 8, in_mtime = 9, in_xattrs = []\<rparr>"

text \<open>A directory with one file \<open>a\<close>.\<close>

definition wit_source :: src where
  "wit_source = \<lparr>sr_fs = [([], wit_inode BDir), ([[0x61]], wit_inode (BReg [0x68, 0x69]))], sr_deny = (\<lambda>_ _. None)\<rparr>"

definition wit_tree :: tree where
  "wit_tree = Tree (wit_inode BDir) [([0x61], Tree (wit_inode (BReg [0x68, 0x69])) [])]"

definition wit_env :: "unit env" where
  "wit_env = \<lparr>en_C = frame_cbor, en_H = pad_hash, en_U = (\<lambda>_ b _. [NextEOF b]),
     en_G = \<lparr>ParsePattern = (\<lambda>_ _. ()), Match = (\<lambda>_ _ _. False)\<rparr>\<rparr>"

definition wit_opts :: Opts where
  "wit_opts = \<lparr>op_Jobs = 1, op_Chunk = \<lparr>co_Byte = None, co_ItemBits = 0, co_XattrInlineMax = 0\<rparr>, op_NoIgnore = True, op_Progress = False\<rparr>"

lemma wit_source_ok: "src_ok wit_source" "lies (sr_fs wit_source) [] wit_tree" "chunks_ok (en_U wit_env)"
proof -
  have "xattrs_ok []" by (simp add: xattrs_ok_def EncodeXattrs_def appendHead_def)
  then show "src_ok wit_source"
    by (auto simp: src_ok_def wf_fs_def wit_source_def wit_inode_def is_dir_def good_name_def dot_def dotdot_def split: if_splits)
  have "names_in (sr_fs wit_source) [] = [[0x61]]" "names_in (sr_fs wit_source) [[0x61]] = []"
    by (simp_all add: names_in_def wit_source_def)
  then show "lies (sr_fs wit_source) [] wit_tree" by (simp add: wit_tree_def) (simp add: wit_source_def)
  have "U opts b None = map NextChunk [] @ [NextEOF b] \<and> concat [] @ b = b" if "U = en_U wit_env" for U opts and b :: bytes
    using that by (simp add: wit_env_def)
  then show "chunks_ok (en_U wit_env)" unfolding chunks_ok_def by blast
qed

lemma wit_seen: "seen_kids wit_env wit_source [] wit_opts wit_tree = [([0x61], Tree (wit_inode (BReg [0x68, 0x69])) [])]"
  by (simp add: seen_kids_def root_matcher_def wit_opts_def wit_tree_def kept_def Ignored_def)

theorem ingest_export_witness:
  "\<exists>N. \<forall>fuel \<ge> N. \<forall>sched before. \<exists>objs k. Objects wit_env fuel wit_source sched 2 before [] wit_opts = Some (Inr (map Inr objs, Some k)) \<and>
     (\<forall>(get :: key \<Rightarrow> ps_err + bytes) mk. has_objs get objs \<longrightarrow> (\<exists>M. \<forall>fuel \<ge> M.
        tar_Write (en_C wit_env) (\<lambda>_. True) mk get fuel None k =
          Some (Inr [((tree_header [0x61] (wit_inode (BReg [])))\<lparr>th_Size := 2\<rparr>, [0x68, 0x69])])))"
proof -
  have m: "tree_members [] ([0x61], Tree (wit_inode (BReg [0x68, 0x69])) []) =
      [((tree_header [0x61] (wit_inode (BReg [])))\<lparr>th_Size := 2\<rparr>, [0x68, 0x69])]"
    by (simp add: wit_inode_def tree_header_def child_path_def)
  have p: "\<forall>x \<in> set (seen_kids wit_env wit_source [] wit_opts wit_tree). portable (\<lambda>_. True) [] x"
    by (simp add: wit_seen wit_inode_def good_name_def dot_def dotdot_def)
  have "deps_ok (en_C wit_env) (en_H wit_env)" by (simp add: wit_env_def frame_deps_ok)
  from ingest_export [OF wit_source_ok(1) _ this wit_source_ok(3) _ wit_source_ok(2) _ _ p, of 2] show ?thesis
    unfolding wit_seen list.map concat.simps m by (simp add: wit_opts_def wit_tree_def wit_inode_def)
qed

end
