(* ===== verification/Amber_Restore.thy ===== *)
theory Amber_Restore
  imports Amber_ExtractSafe Amber_Archive
begin

text \<open>
  Restoring a tree: an archive of a tree, read back and extracted into an empty directory by
  root without a failing call, makes the tree again. A tree is flattened into its paths in the
  order of the walk (\<open>nodes\<close>), so that the extraction is one induction over a list whose
  entries come after their directories (\<open>walked\<close>); the directories get their attributes in a
  second pass.
\<close>

section \<open>A tree as a list of paths\<close>

fun nodes :: "path \<Rightarrow> bytes \<times> tree \<Rightarrow> (path \<times> inode) list" where
  "nodes pre (n, Tree i kids) =
     (case in_body i of
        BDir \<Rightarrow> (pre @ [n], i) # concat (map (nodes (pre @ [n])) kids)
      | BSock \<Rightarrow> []
      | BOdd \<Rightarrow> []
      | _ \<Rightarrow> [(pre @ [n], i)])"

definition tree_nodes :: "(bytes \<times> tree) list \<Rightarrow> (path \<times> inode) list" where
  "tree_nodes kids = concat (map (nodes []) kids)"

definition node_member :: "path \<Rightarrow> inode \<Rightarrow> member" where
  "node_member q i =
     (let name = join_slash q; hdr = tree_header name i in
      case in_body i of
        BReg b \<Rightarrow> (hdr\<lparr>th_Typeflag := TypeReg, th_Size := of_nat (length b)\<rparr>, b)
      | BDir \<Rightarrow> (hdr\<lparr>th_Typeflag := TypeDir, th_Name := name @ [0x2F]\<rparr>, [])
      | BLnk t \<Rightarrow> (hdr\<lparr>th_Typeflag := TypeSymlink, th_Linkname := t\<rparr>, [])
      | BChr a b \<Rightarrow> (hdr\<lparr>th_Typeflag := TypeChar, th_Devmajor := ucast a, th_Devminor := ucast b\<rparr>, [])
      | BBlk a b \<Rightarrow> (hdr\<lparr>th_Typeflag := TypeBlock, th_Devmajor := ucast a, th_Devminor := ucast b\<rparr>, [])
      | _ \<Rightarrow> (hdr\<lparr>th_Typeflag := TypeFifo\<rparr>, []))"

text \<open>What can be restored as it was: real names without duplicates in a directory, permissions in
  twelve bits, owners that are not the ID \<open>-1\<close>, and links with a target.\<close>

fun restorable :: "bytes \<times> tree \<Rightarrow> bool" where
  "restorable (n, Tree i kids) \<longleftrightarrow> good_name n \<and> in_perm i AND 0xFFF = in_perm i \<and> in_uid i \<noteq> 0xFFFFFFFF \<and> in_gid i \<noteq> 0xFFFFFFFF \<and>
     (\<forall>t. in_body i = BLnk t \<longrightarrow> t \<noteq> [] \<and> 0 \<notin> set t) \<and>
     distinct (map fst kids) \<and> (\<forall>x \<in> set kids. restorable x)"

definition node_ok :: "path \<Rightarrow> inode \<Rightarrow> bool" where
  "node_ok q i \<longleftrightarrow> q \<noteq> [] \<and> (\<forall>c \<in> set q. good_name c) \<and> in_perm i AND 0xFFF = in_perm i \<and> in_uid i \<noteq> 0xFFFFFFFF \<and>
     in_gid i \<noteq> 0xFFFFFFFF \<and> (\<forall>t. in_body i = BLnk t \<longrightarrow> t \<noteq> [] \<and> 0 \<notin> set t) \<and> in_body i \<noteq> BSock \<and> in_body i \<noteq> BOdd"

text \<open>The paths come after their directories, once each; \<open>M\<close> holds those that came before.\<close>

definition dir_in :: "(path \<rightharpoonup> inode) \<Rightarrow> path \<Rightarrow> bool" where
  "dir_in M p \<longleftrightarrow> p = [] \<or> (\<exists>d. M p = Some d \<and> in_body d = BDir)"

fun walked :: "(path \<rightharpoonup> inode) \<Rightarrow> (path \<times> inode) list \<Rightarrow> bool" where
  "walked M [] = True"
| "walked M ((q, i) # ns) \<longleftrightarrow> node_ok q i \<and> M q = None \<and> dir_in M (butlast q) \<and> walked (M(q \<mapsto> i)) ns"

definition adds :: "(path \<times> inode) list \<Rightarrow> (path \<rightharpoonup> inode) \<Rightarrow> (path \<rightharpoonup> inode)" where
  "adds ns M = foldl (\<lambda>M (q, i). M(q \<mapsto> i)) M ns"

lemma adds_simps [simp]: "adds [] M = M" "adds ((q, i) # ns) M = adds ns (M(q \<mapsto> i))" "adds (xs @ ys) M = adds ys (adds xs M)"
  by (simp_all add: adds_def)

lemma adds_other: "q \<notin> fst ` set ns \<Longrightarrow> adds ns M q = M q"
  by (induction ns arbitrary: M) auto

lemma walked_append: "walked M (xs @ ys) \<longleftrightarrow> walked M xs \<and> walked (adds xs M) ys"
  by (induction xs arbitrary: M) auto

lemma walked_new: "walked M ns \<Longrightarrow> (q, i) \<in> set ns \<Longrightarrow> M q = None"
proof (induction ns arbitrary: M)
  case (Cons x ns)
  obtain q' i' where x: "x = (q', i')" by (cases x)
  show ?case
  proof (cases "(q, i) = x")
    case False
    have w: "walked (M(q' \<mapsto> i')) ns" using Cons.prems(1) x by simp
    have "(q, i) \<in> set ns" using Cons.prems(2) x False by auto
    then have "(M(q' \<mapsto> i')) q = None" by (rule Cons.IH [OF w])
    then show ?thesis by (simp split: if_splits)
  qed (use Cons.prems x in simp)
qed simp

lemma walked_adds: "walked M ns \<Longrightarrow> adds ns M = M ++ map_of ns"
proof (induction ns arbitrary: M)
  case (Cons x ns)
  obtain q i where x: "x = (q, i)" by (cases x)
  have w: "walked (M(q \<mapsto> i)) ns" using Cons.prems x by simp
  then have "map_of ns q = None" using walked_new [OF w] by (metis fun_upd_same map_of_SomeD not_None_eq option.distinct(1) surj_pair)
  then have "M(q \<mapsto> i) ++ map_of ns = M ++ map_of ((q, i) # ns)" by (auto simp: fun_eq_iff map_add_def split: option.splits)
  moreover have "adds ns (M(q \<mapsto> i)) = M(q \<mapsto> i) ++ map_of ns" by (rule Cons.IH [OF w])
  ultimately show ?case unfolding x adds_simps by (rule trans [rotated])
qed simp

text \<open>All paths of a subtree extend its own.\<close>

lemma nodes_below: "(q, i) \<in> set (nodes pre x) \<Longrightarrow> \<exists>r. q = pre @ fst x # r"
proof (induction pre x arbitrary: q i rule: nodes.induct)
  case (1 pre n j kids)
  show ?case
  proof (cases "in_body j")
    case BDir
    then consider "q = pre @ [n]" | x where "x \<in> set kids" "(q, i) \<in> set (nodes (pre @ [n]) x)" using "1.prems" by auto
    then show ?thesis
    proof cases
      case 2
      then obtain r where "q = (pre @ [n]) @ fst x # r" using "1.IH" [OF BDir] by blast
      then show ?thesis by simp
    qed simp
  qed (use "1.prems" in auto)
qed

lemma dir_in_adds: "dir_in M p \<Longrightarrow> p \<notin> fst ` set ns \<Longrightarrow> dir_in (adds ns M) p"
  by (simp add: dir_in_def adds_other)

text \<open>Siblings do not meet.\<close>

lemma walked_siblings:
  assumes "\<And>x M. x \<in> set kids \<Longrightarrow> dir_in M pre \<Longrightarrow> (\<And>r. M (pre @ fst x # r) = None) \<Longrightarrow> walked M (nodes pre x)"
    and "distinct (map fst kids)" and "dir_in M pre" and "\<And>x r. x \<in> set kids \<Longrightarrow> M (pre @ fst x # r) = None"
  shows "walked M (concat (map (nodes pre) kids))"
  using assms
proof (induction kids arbitrary: M)
  case (Cons x kids)
  let ?M = "adds (nodes pre x) M"
  have "q \<notin> fst ` set (nodes pre x)" if "\<nexists>r. q = pre @ fst x # r" for q using nodes_below [of q _ pre x] that by fastforce
  then have other: "?M q = M q" if "\<nexists>r. q = pre @ fst x # r" for q using that adds_other by blast
  have "dir_in ?M pre" using Cons.prems(3) other [of pre] by (auto simp: dir_in_def)
  moreover have "?M (pre @ fst y # r) = None" if "y \<in> set kids" for y r
  proof -
    have "fst y \<in> fst ` set kids" using that by (rule imageI)
    moreover have "fst x \<notin> fst ` set kids" using Cons.prems(2) by simp
    ultimately have "fst y \<noteq> fst x" by metis
    then show ?thesis using other [of "pre @ fst y # r"] Cons.prems(4) [of y r] that by simp
  qed
  ultimately have "walked ?M (concat (map (nodes pre) kids))" using Cons.prems(1,2) by (intro Cons.IH) auto
  then show ?case using Cons.prems by (simp add: walked_append)
qed simp

lemma nodes_walked:
  "restorable x \<Longrightarrow> \<forall>c \<in> set pre. good_name c \<Longrightarrow> dir_in M pre \<Longrightarrow> (\<And>r. M (pre @ fst x # r) = None) \<Longrightarrow> walked M (nodes pre x)"
proof (induction pre x arbitrary: M rule: nodes.induct)
  case (1 pre n i kids)
  have ok: "node_ok (pre @ [n]) i" if "in_body i \<noteq> BSock" "in_body i \<noteq> BOdd" using "1.prems"(1,2) that by (simp add: node_ok_def)
  have new: "M (pre @ [n]) = None" using "1.prems"(4) [of "[]"] by simp
  show ?case
  proof (cases "in_body i")
    case BDir
    let ?M = "M(pre @ [n] \<mapsto> i)"
    have "walked ?M (concat (map (nodes (pre @ [n])) kids))"
    proof (rule walked_siblings)
      show "dir_in ?M (pre @ [n])" using BDir by (simp add: dir_in_def)
      show "?M ((pre @ [n]) @ fst x # r) = None" for x r using "1.prems"(4) [of "fst x # r"] by simp
    qed (use "1.IH" [OF BDir] "1.prems" in auto)
    then show ?thesis using ok new "1.prems"(3) BDir by simp
  qed (use ok new "1.prems"(3) in auto)
qed

lemma tree_walked:
  assumes "\<forall>x \<in> set kids. restorable x" and "distinct (map fst kids)"
  shows "walked Map.empty (tree_nodes kids)"
  unfolding tree_nodes_def
  by (rule walked_siblings) (use assms nodes_walked in \<open>auto simp: dir_in_def\<close>)

text \<open>The archive of a tree is the sequence of its nodes' members.\<close>

lemma members_nodes: "(\<And>c. c \<in> set pre \<Longrightarrow> c \<noteq> []) \<Longrightarrow> restorable x \<Longrightarrow> tree_members (join_slash pre) x = map (\<lambda>(q, i). node_member q i) (nodes pre x)"
proof (induction pre x rule: nodes.induct)
  case (1 pre n i kids)
  have "join_slash pre = [] \<longleftrightarrow> pre = []" using "1.prems"(1) by (intro join_slash_eq_Nil) blast
  then have name: "child_path (join_slash pre) n = join_slash (pre @ [n])" by (cases "pre = []") (simp_all add: child_path_def join_slash_snoc)
  show ?case
  proof (cases "in_body i")
    case BDir
    have "tree_members (join_slash (pre @ [n])) x = map (\<lambda>(q, i). node_member q i) (nodes (pre @ [n]) x)" if "x \<in> set kids" for x
      using "1.IH" [OF BDir that] "1.prems" that by (auto simp: good_name_def)
    then have "concat (map (tree_members (join_slash (pre @ [n]))) kids) = map (\<lambda>(q, i). node_member q i) (concat (map (nodes (pre @ [n])) kids))"
      by (simp add: map_concat comp_def cong: map_cong)
    then show ?thesis using name BDir by (simp add: node_member_def Let_def)
  qed (simp_all add: name node_member_def Let_def)
qed

lemma tree_members_nodes:
  assumes "\<forall>x \<in> set kids. restorable x"
  shows "concat (map (tree_members []) kids) = map (\<lambda>(q, i). node_member q i) (tree_nodes kids)"
proof -
  have "tree_members [] x = map (\<lambda>(q, i). node_member q i) (nodes [] x)" if "x \<in> set kids" for x
    using members_nodes [of "[]" x] assms that by simp
  then show ?thesis by (simp add: tree_nodes_def map_concat comp_def cong: map_cong)
qed

section \<open>Where a node goes\<close>

lemma good_names_real: "\<forall>c \<in> set q. good_name c \<Longrightarrow> \<forall>c \<in> set q. real_name c"
  using good_real by blast

lemma safeJoin_under:
  assumes "normal dest" and "q \<noteq> []" and "\<forall>c \<in> set q. good_name c" and "t = [] \<or> t = [0x2F]"
  shows "safeJoin dest (join_slash q @ t) = Inr (under dest q)"
proof -
  obtain ds where ds: "ds \<noteq> []" "if is_abs dest then dest = 0x2F # join_slash ds \<and> (\<forall>c \<in> set ds. real_name c) else dest = join_slash ds \<and> ups ds"
    using assms(1) unfolding normal_def by blast
  note real = good_names_real [OF assms(3)]
  have sl: "\<forall>c \<in> set q. 0x2F \<notin> set c" using real by (simp add: real_name_def)
  let ?name = "join_slash q @ t"
  have sp: "split_slash ?name = q @ (if t = [] then [] else [[]])"
    using assms(4) split_join [OF assms(2) sl] split_slash_append [of "join_slash q" "[]"] by auto
  have nd: "dotdot \<notin> set (split_slash ?name)" using real by (auto simp: sp real_name_def dotdot_def)
  have kept: "filter kept_name (split_slash ?name) = q"
    using real by (auto simp: sp kept_name_def real_name_def filter_id_conv)
  have ne: "dest \<noteq> []" using clean_render(4) [OF assms(1), of "[]"] by (simp add: under_def)
  have dc: "rev (foldl (clean_step (is_abs dest)) [] (split_slash dest)) = ds"
  proof (cases "is_abs dest")
    case True
    then have d: "dest = 0x2F # join_slash ds" "\<forall>c \<in> set ds. real_name c" using ds(2) by simp_all
    then have "split_slash dest = [] # ds" using split_join [OF ds(1)] by (simp add: real_name_def)
    then show ?thesis using clean_real [OF d(2), of True "[]"] True by (simp add: clean_step_def)
  next
    case False
    then have d: "dest = join_slash ds" "ups ds" using ds(2) by simp_all
    then have "split_slash dest = ds" using split_join [OF ds(1)] ups_slashless by simp
    then show ?thesis using clean_ups [OF d(2)] False by simp
  qed
  have "filepath_Join dest (filepath_Clean (0x2F # ?name)) = under dest q"
    using joined [OF ne nd] ds join_slash_append [OF ds(1) assms(2)] assms(2) unfolding kept dc
    by (cases "is_abs dest") (simp_all add: under_def)
  then show ?thesis using nd under_below(1) [OF assms(2), of dest] by (simp add: safeJoin_def Let_def)
qed

text \<open>Below directories, the check of the path passes.\<close>

lemma open_to_snoc: "open_to fs R (cs @ [c]) \<Longrightarrow> open_to fs R cs \<and> (cs \<noteq> [] \<longrightarrow> is_dir fs (R @ cs))"
proof -
  assume o: "open_to fs R (cs @ [c])"
  have "open_to fs R cs" unfolding open_to_def
  proof (intro allI impI)
    fix k
    assume "0 < k \<and> k < length cs"
    then show "is_dir fs (R @ take k cs)" using o [unfolded open_to_def, rule_format, of k] by simp
  qed
  then show ?thesis using o [unfolded open_to_def, rule_format, of "length cs"] by simp
qed

lemma reject_passes:
  assumes "stands dest R R0 h" and "normal dest" and "\<forall>c \<in> set cs. good_name c" and "open_to (ho_fs h) R cs"
    and "map_of (ho_fs h) (R @ cs) = None \<or> is_dir (ho_fs h) (R @ cs)"
  shows "reject_loop n dest (under dest cs) h = None"
  using assms(3-)
proof (induction cs arbitrary: n rule: rev_induct)
  case Nil
  then show ?case using under_below(2) by (cases n) (simp_all add: under_def)
next
  case (snoc c cs)
  let ?p = "under dest (cs @ [c])"
  note real = good_names_real [OF snoc.prems(1)]
  have o: "open_to (ho_fs h) R cs" "cs \<noteq> [] \<longrightarrow> is_dir (ho_fs h) (R @ cs)" using open_to_snoc [OF snoc.prems(2)] by simp_all
  have "is_dir (ho_fs h) (R @ cs)" using o(2) assms(1) by (cases "cs = []") (simp_all add: stands_def)
  then have next_ok: "reject_loop m dest (under dest cs) h = None" for m using snoc.IH snoc.prems(1) o(1) by simp
  have dir: "filepath_Dir ?p = under dest cs" using Dir_under [OF assms(2)] real by (simp add: real_name_def)
  have "\<not> (\<exists>c' \<in> set (cs @ [c]). 0 \<in> set c')" using snoc.prems(1) by (auto simp: good_name_def)
  then have n: "namei (ho_fs h) (ho_cwd h) False ?p = Inr (R @ cs @ [c])"
    using open_namei [OF assms(1) _ real snoc.prems(2), of False] by simp
  have "host_Lstat ?p h = Inl ENOENT \<or> (\<exists>i. host_Lstat ?p h = Inr i \<and> in_body i = BDir)"
    using snoc.prems(3) by (auto simp: host_Lstat_def stat_path_def n is_dir_def split: option.splits)
  then show ?case using next_ok dir by (cases n) auto
qed

section \<open>Changing one inode\<close>

definition upd :: "path \<Rightarrow> inode \<Rightarrow> host \<Rightarrow> host \<Rightarrow> bool" where
  "upd p j h h' \<longleftrightarrow> (\<exists>fs. h' = h\<lparr>ho_fs := fs\<rparr> \<and> (\<forall>r. map_of fs r = (if r = p then Some j else map_of (ho_fs h) r)))"

lemma upd_put: "upd p j h (put_inode p j h)"
  unfolding upd_def put_inode_def by (intro exI [of _ "(p, j) # ho_fs h"]) simp

lemma upd_trans: "upd p i h h1 \<Longrightarrow> upd p j h1 h2 \<Longrightarrow> upd p j h h2"
  unfolding upd_def by fastforce

lemma upd_same: "map_of (ho_fs h) p = Some i \<Longrightarrow> upd p i h h"
  unfolding upd_def by (intro exI [of _ "ho_fs h"]) simp

lemma upd_simps: "upd p j h h' \<Longrightarrow> map_of (ho_fs h') r = (if r = p then Some j else map_of (ho_fs h) r)"
  "upd p j h h' \<Longrightarrow> ho_cwd h' = ho_cwd h" "upd p j h h' \<Longrightarrow> ho_plan h' = ho_plan h" "upd p j h h' \<Longrightarrow> ho_root h' = ho_root h"
  by (auto simp: upd_def)

lemma upd_keeps:
  assumes "upd p j h h'" and "map_of (ho_fs h) p = Some i" and "kind (in_body j) = kind (in_body i)"
  shows "keeps UNIV h h'"
  using assms(2,3) upd_simps(1,2) [OF assms(1)] by (auto simp: keeps_def kinds_kept_def rooted_def)

text \<open>A path of the extraction whose directories are there, for root and without faults.\<close>

definition ready :: "bytes \<Rightarrow> path \<Rightarrow> path \<Rightarrow> path \<Rightarrow> host \<Rightarrow> bool" where
  "ready dest R R0 q h \<longleftrightarrow> stands dest R R0 h \<and> normal dest \<and> q \<noteq> [] \<and> (\<forall>c \<in> set q. good_name c) \<and> open_to (ho_fs h) R q \<and>
     ho_plan h = [] \<and> ho_root h"

lemma ready_upd:
  assumes "ready dest R R0 q h" and "upd p j h h'" and "map_of (ho_fs h) p = Some i" and "kind (in_body j) = kind (in_body i)"
  shows "ready dest R R0 q h'"
proof -
  note k = upd_keeps [OF assms(2-4)]
  show ?thesis using assms(1) stands_keeps [OF _ k] open_keeps [OF _ k] upd_simps(3,4) [OF assms(2)] by (simp add: ready_def)
qed

lemma ready_namei:
  assumes "ready dest R R0 q h" and "f \<Longrightarrow> no_link (ho_fs h) (R @ q)"
  shows "namei (ho_fs h) (ho_cwd h) f (under dest q) = Inr (R @ q)"
proof -
  note r = assms(1) [unfolded ready_def]
  have "\<not> (\<exists>c \<in> set q. 0 \<in> set c)" using r by (auto simp: good_name_def)
  then show ?thesis using open_namei [of dest R R0 h q f] r good_names_real [of q] assms(2) by simp
qed

lemma change_ready:
  assumes "ready dest R R0 q h" and "map_of (ho_fs h) (R @ q) = Some i" and "f \<Longrightarrow> \<forall>t. in_body i \<noteq> BLnk t" and "bad h i = None"
  shows "\<exists>h'. change_when bad f (under dest q) g h = (Inr (), h') \<and> upd (R @ q) (g i) h h'"
proof -
  have "namei (ho_fs h) (ho_cwd h) f (under dest q) = Inr (R @ q)"
    using ready_namei [OF assms(1), of f] assms(2,3) by (simp add: no_link_def)
  moreover have "ho_plan h = []" using assms(1) by (simp add: ready_def)
  ultimately show ?thesis using assms(2,4) upd_put [of "R @ q" "g i" h]
    by (simp add: change_when_def sys_def at_inode_def at_path_def)
qed

section \<open>Attributes\<close>

definition pax_step :: "(bytes \<times> bytes) list \<Rightarrow> bytes \<times> bytes \<Rightarrow> (bytes \<times> bytes) list" where
  "pax_step xs kv =
     (if HasPrefix (fst kv) SchilyPrefix
      then (drop (length SchilyPrefix) (fst kv), snd kv) # filter (\<lambda>(n, _). n \<noteq> drop (length SchilyPrefix) (fst kv)) xs else xs)"

definition full_meta :: "in_hdr \<Rightarrow> inode \<Rightarrow> inode" where
  "full_meta hdr i =
     i\<lparr>in_perm := ucast (th_Mode hdr AND 0xFFF), in_uid := new_id (in_uid i) (ucast (th_Uid hdr)),
       in_gid := new_id (in_gid i) (ucast (th_Gid hdr)), in_xattrs := foldl pax_step (in_xattrs i) (th_PAX hdr),
       in_mtime := th_ModTime hdr\<rparr>"

definition link_meta :: "in_hdr \<Rightarrow> inode \<Rightarrow> inode" where
  "link_meta hdr i =
     i\<lparr>in_perm := in_perm i AND NOT 0xC00, in_uid := new_id (in_uid i) (ucast (th_Uid hdr)),
       in_gid := new_id (in_gid i) (ucast (th_Gid hdr)), in_mtime := th_ModTime hdr\<rparr>"

lemma HasPrefix_Schily: "HasPrefix k SchilyPrefix \<longleftrightarrow> (\<exists>n. k = SchilyPrefix @ n)"
  unfolding HasPrefix_def by (metis append_eq_conv_conj append_take_drop_id)

lemma map_of_pax:
  assumes "distinct (map fst kvs)"
  shows "map_of (foldl pax_step xs kvs) n = (case map_of kvs (SchilyPrefix @ n) of None \<Rightarrow> map_of xs n | Some v \<Rightarrow> Some v)"
  using assms
proof (induction kvs arbitrary: xs)
  case (Cons kv kvs)
  obtain k v where kv: "kv = (k, v)" by (cases kv)
  have step: "map_of (pax_step xs kv) n = (if k = SchilyPrefix @ n then Some v else map_of xs n)"
  proof (cases "HasPrefix k SchilyPrefix")
    case True
    then obtain m where m: "k = SchilyPrefix @ m" using HasPrefix_Schily by blast
    have "map_of (filter (\<lambda>(n, _). n \<noteq> m) xs) n = map_of xs n" if "n \<noteq> m" using that by (induction xs) auto
    then show ?thesis using True by (simp add: pax_step_def kv m)
  next
    case False
    then have "k \<noteq> SchilyPrefix @ n" using HasPrefix_Schily by blast
    then show ?thesis using False by (simp add: pax_step_def kv)
  qed
  have new: "map_of kvs (SchilyPrefix @ n) = None" if "k = SchilyPrefix @ n" using Cons.prems kv that by (auto simp: map_of_eq_None_iff)
  have IH: "map_of (foldl pax_step (pax_step xs kv) kvs) n =
      (case map_of kvs (SchilyPrefix @ n) of None \<Rightarrow> map_of (pax_step xs kv) n | Some v \<Rightarrow> Some v)"
    using Cons.IH Cons.prems by simp
  show ?case
  proof (cases "k = SchilyPrefix @ n")
    case True
    then show ?thesis using IH step new [OF True] by (simp add: kv)
  next
    case False
    then have s: "map_of (pax_step xs kv) n = map_of xs n" using step by simp
    from IH [unfolded s] have "map_of (foldl pax_step xs (kv # kvs)) n = (case map_of kvs (SchilyPrefix @ n) of None \<Rightarrow> map_of xs n | Some v \<Rightarrow> Some v)" by simp
    then show ?thesis using False by (simp add: kv)
  qed
qed simp

lemma root_may: "ho_root h \<Longrightarrow> may_write h i" "ho_root h \<Longrightarrow> owns h i"
  by (simp_all add: may_write_def owns_def)

lemma ready_root: "ready dest R R0 q h \<Longrightarrow> ho_root h"
  by (simp add: ready_def)

lemma set_pax_ready:
  assumes "ready dest R R0 q h" and "map_of (ho_fs h) (R @ q) = Some i"
  shows "\<exists>h'. set_pax (under dest q) kvs h = (Inr (), h') \<and> upd (R @ q) (i\<lparr>in_xattrs := foldl pax_step (in_xattrs i) kvs\<rparr>) h h'"
  using assms
proof (induction kvs arbitrary: h i)
  case Nil
  then show ?case using upd_same [of h "R @ q" i] by simp
next
  case (Cons kv kvs)
  show ?case
  proof (cases "HasPrefix (fst kv) SchilyPrefix")
    case False
    then show ?thesis using Cons by (simp add: pax_step_def)
  next
    case True
    let ?n = "drop (length SchilyPrefix) (fst kv)" and ?j = "i\<lparr>in_xattrs := pax_step (in_xattrs i) kv\<rparr>"
    have j: "?j = i\<lparr>in_xattrs := (?n, snd kv) # filter (\<lambda>(n, _). n \<noteq> ?n) (in_xattrs i)\<rparr>" using True by (simp add: pax_step_def)
    have may: "(if may_write h i then None else Some EACCES) = None" using root_may(1) [OF ready_root [OF Cons.prems(1)], of i] by simp
    obtain h1 where h1: "unix_Lsetxattr (under dest q) ?n (snd kv) h = (Inr (), h1)" "upd (R @ q) ?j h h1"
      using change_ready [OF Cons.prems, of False "\<lambda>h i. if may_write h i then None else Some EACCES"
          "\<lambda>i. i\<lparr>in_xattrs := (?n, snd kv) # filter (\<lambda>(n, _). n \<noteq> ?n) (in_xattrs i)\<rparr>"] may
      unfolding unix_Lsetxattr_def j by blast
    have "ready dest R R0 q h1" by (rule ready_upd [OF Cons.prems(1) h1(2) Cons.prems(2)]) simp
    moreover have "map_of (ho_fs h1) (R @ q) = Some ?j" using upd_simps(1) [OF h1(2)] by simp
    ultimately obtain h2 where "set_pax (under dest q) kvs h1 = (Inr (), h2)"
      "upd (R @ q) (?j\<lparr>in_xattrs := foldl pax_step (in_xattrs ?j) kvs\<rparr>) h1 h2" using Cons.IH by blast
    then show ?thesis using True h1 upd_trans [OF h1(2)] by simp
  qed
qed

lemma change_done:
  assumes "ready dest R R0 q h" and "map_of (ho_fs h) (R @ q) = Some i" and "f \<Longrightarrow> \<forall>t. in_body i \<noteq> BLnk t" and "in_body (g i) = in_body i"
  shows "\<exists>h'. ext_sys (change f (under dest q) g) h = (Inr (), h') \<and> upd (R @ q) (g i) h h' \<and> ready dest R R0 q h' \<and>
     map_of (ho_fs h') (R @ q) = Some (g i)"
proof -
  have "owns h i" using root_may(2) [OF ready_root [OF assms(1)]] .
  then obtain h' where h': "change f (under dest q) g h = (Inr (), h')" "upd (R @ q) (g i) h h'"
    using change_ready [where bad = "\<lambda>h i. if owns h i then None else Some EPERM" and g = g, OF assms(1-3)] unfolding change_def by auto
  then show ?thesis using ready_upd [OF assms(1) h'(2) assms(2)] upd_simps(1) [OF h'(2)] assms(4) by (simp add: ext_sys_def)
qed

lemma applyMeta_ready:
  assumes "ready dest R R0 q h" and "map_of (ho_fs h) (R @ q) = Some i" and "lnk \<longleftrightarrow> (\<exists>t. in_body i = BLnk t)"
  shows "\<exists>h'. applyMeta (under dest q) hdr lnk h = (Inr (), h') \<and>
     upd (R @ q) (if lnk then link_meta hdr i else full_meta hdr i) h h'"
proof -
  let ?own = "\<lambda>i. i\<lparr>in_uid := new_id (in_uid i) (ucast (th_Uid hdr)), in_gid := new_id (in_gid i) (ucast (th_Gid hdr)),
      in_perm := (if in_body i = BDir then in_perm i else in_perm i AND NOT 0xC00)\<rparr>"
  obtain h1 where h1: "ext_sys (host_Lchown (under dest q) (ucast (th_Uid hdr)) (ucast (th_Gid hdr))) h = (Inr (), h1)"
    "upd (R @ q) (?own i) h h1" "ready dest R R0 q h1" "map_of (ho_fs h1) (R @ q) = Some (?own i)"
    using change_done [OF assms(1,2), of False ?own] unfolding host_Lchown_def by auto
  show ?thesis
  proof (cases lnk)
    case True
    then have b: "in_body i \<noteq> BDir" using assms(3) by auto
    obtain h2 where "setMtime (under dest q) (th_ModTime hdr) True h1 = (Inr (), h2)" "upd (R @ q) ((?own i)\<lparr>in_mtime := th_ModTime hdr\<rparr>) h1 h2"
      using change_done [OF h1(3,4), of False "\<lambda>i. i\<lparr>in_mtime := th_ModTime hdr\<rparr>"] unfolding setMtime_def unix_Utimes_def by auto
    moreover have "(?own i)\<lparr>in_mtime := th_ModTime hdr\<rparr> = link_meta hdr i" using b by (simp add: link_meta_def)
    ultimately show ?thesis using True h1 upd_trans [OF h1(2)] ready_root [OF assms(1)]
      by (auto simp: applyMeta_def ext_then_def ext_return_def)
  next
    case False
    then have nl: "\<forall>t. in_body i \<noteq> BLnk t" using assms(3) by simp
    let ?i1 = "?own i" let ?i2 = "?i1\<lparr>in_perm := ucast (th_Mode hdr AND 0xFFF)\<rparr>"
    obtain h2 where h2: "ext_sys (unix_Chmod (under dest q) (ucast (th_Mode hdr AND 0xFFF))) h1 = (Inr (), h2)"
      "upd (R @ q) ?i2 h1 h2" "ready dest R R0 q h2" "map_of (ho_fs h2) (R @ q) = Some ?i2"
      using change_done [OF h1(3,4), of True "\<lambda>i. i\<lparr>in_perm := ucast (th_Mode hdr AND 0xFFF)\<rparr>"] nl unfolding unix_Chmod_def by auto
    let ?i3 = "?i2\<lparr>in_xattrs := foldl pax_step (in_xattrs ?i2) (th_PAX hdr)\<rparr>"
    obtain h3 where h3: "set_pax (under dest q) (th_PAX hdr) h2 = (Inr (), h3)" "upd (R @ q) ?i3 h2 h3"
      using set_pax_ready [OF h2(3,4)] by blast
    have r3: "ready dest R R0 q h3" by (rule ready_upd [OF h2(3) h3(2) h2(4)]) simp
    have m3: "map_of (ho_fs h3) (R @ q) = Some ?i3" using upd_simps(1) [OF h3(2)] by simp
    obtain h4 where h4: "setMtime (under dest q) (th_ModTime hdr) False h3 = (Inr (), h4)"
      "upd (R @ q) (?i3\<lparr>in_mtime := th_ModTime hdr\<rparr>) h3 h4"
      using change_done [OF r3 m3, of True "\<lambda>i. i\<lparr>in_mtime := th_ModTime hdr\<rparr>"] nl unfolding setMtime_def unix_Utimes_def by auto
    have "?i3\<lparr>in_mtime := th_ModTime hdr\<rparr> = full_meta hdr i" by (simp add: full_meta_def)
    then have "upd (R @ q) (full_meta hdr i) h h4"
      using upd_trans [OF h1(2) upd_trans [OF h2(2) upd_trans [OF h3(2) h4(2)]]] by simp
    then show ?thesis using False h1(1) h2(1) h3(1) h4(1) ready_root [OF assms(1)]
      by (simp add: applyMeta_def ext_then_def)
  qed
qed

section \<open>Making one node\<close>

definition made :: "path \<Rightarrow> inode \<Rightarrow> host \<Rightarrow> host \<Rightarrow> bool" where
  "made p j h h' \<longleftrightarrow> (\<exists>fs d. h' = h\<lparr>ho_fs := fs\<rparr> \<and> map_of (ho_fs h) (butlast p) = Some d \<and>
     (\<forall>r. map_of fs r = (if r = p then Some j else if r = butlast p then Some (d\<lparr>in_mtime := ho_now h\<rparr>) else map_of (ho_fs h) r)))"

lemma made_upd: "made p i h h1 \<Longrightarrow> upd p j h1 h2 \<Longrightarrow> made p j h h2"
  unfolding made_def upd_def by fastforce

lemma made_simps: "made p j h h' \<Longrightarrow> map_of (ho_fs h') p = Some j" "made p j h h' \<Longrightarrow> ho_cwd h' = ho_cwd h"
  "made p j h h' \<Longrightarrow> ho_plan h' = ho_plan h" "made p j h h' \<Longrightarrow> ho_root h' = ho_root h"
  by (auto simp: made_def)

lemma made_keeps:
  assumes "made p j h h'" and "map_of (ho_fs h) p = None"
  shows "keeps UNIV h h'"
proof -
  obtain d where d: "map_of (ho_fs h) (butlast p) = Some d"
    "\<forall>r. map_of (ho_fs h') r = (if r = p then Some j else if r = butlast p then Some (d\<lparr>in_mtime := ho_now h\<rparr>) else map_of (ho_fs h) r)"
    using assms(1) by (auto simp: made_def)
  have "kinds_kept (ho_fs h) (ho_fs h')" using d assms(2) by (auto simp: kinds_kept_def)
  moreover have "rooted (ho_fs h) \<longrightarrow> rooted (ho_fs h')" using d unfolding rooted_def by auto
  ultimately show ?thesis using made_simps(2) [OF assms(1)] by (simp add: keeps_def)
qed

lemma create_made:
  assumes "map_of (ho_fs h) p = None" and "is_dir (ho_fs h) (butlast p)" and "p \<noteq> []" and "ho_root h"
  shows "\<exists>h'. create b perm p h = (Inr (), h') \<and>
     made p \<lparr>in_body = b, in_perm = perm, in_uid = ho_uid h, in_gid = ho_gid h, in_mtime = ho_now h, in_xattrs = []\<rparr> h h'"
proof -
  obtain d where d: "map_of (ho_fs h) (butlast p) = Some d" using assms(2) by (auto simp: is_dir_def split: option.splits)
  have "butlast p \<noteq> p" using assms(3) by (metis append_butlast_last_id append_self_conv list.distinct(1))
  then show ?thesis using assms(1) d root_may(1) [OF assms(4), of d]
    unfolding create_def made_def put_inode_def by (auto intro!: exI)
qed

section \<open>A member read back\<close>

text \<open>What a reader of the archive delivers for a member that was written: its fields and its whole
  content; the PAX records are in some order, each key once, perhaps with others that are not
  extended attributes.\<close>

definition delivered :: "member \<Rightarrow> in_member \<Rightarrow> bool" where
  "delivered w m \<longleftrightarrow>
     (let a = fst w; b = im_hdr m in
      th_Name b = th_Name a \<and> th_Mode b = th_Mode a \<and> th_Uid b = th_Uid a \<and> th_Gid b = th_Gid a \<and> th_ModTime b = th_ModTime a \<and>
      th_Typeflag b = th_Typeflag a \<and> th_Size b = th_Size a \<and> th_Linkname b = th_Linkname a \<and> th_Devmajor b = th_Devmajor a \<and>
      th_Devminor b = th_Devminor a \<and> distinct (map fst (th_PAX b)) \<and>
      (\<forall>n. map_of (th_PAX b) (SchilyPrefix @ n) = th_PAX a (SchilyPrefix @ n)) \<and> im_body m = snd w \<and> im_err m = None)"

text \<open>An inode made again. A link has no permissions of its own, and the ingest does not read
  its extended attributes.\<close>

definition restores :: "inode \<Rightarrow> inode \<Rightarrow> bool" where
  "restores i j \<longleftrightarrow> in_body j = in_body i \<and> in_uid j = in_uid i \<and> in_gid j = in_gid i \<and> in_mtime j = in_mtime i \<and>
     ((\<forall>t. in_body i \<noteq> BLnk t) \<longrightarrow> in_perm j = in_perm i \<and> map_of (in_xattrs j) = map_of (in_xattrs i))"

lemma node_header:
  assumes "node_ok q i" and "delivered (node_member q i) m"
  shows "th_Uid (im_hdr m) = ucast (in_uid i)" "th_Gid (im_hdr m) = ucast (in_gid i)" "th_ModTime (im_hdr m) = in_mtime i"
    "ucast (th_Mode (im_hdr m) AND 0xFFF) = in_perm i" "distinct (map fst (th_PAX (im_hdr m)))" "im_err m = None"
    "(\<forall>t. in_body i \<noteq> BLnk t) \<Longrightarrow> map_of (th_PAX (im_hdr m)) (SchilyPrefix @ n) = map_of (in_xattrs i) n"
proof -
  have p: "in_perm i AND 0xFFF = in_perm i" using assms(1) by (simp add: node_ok_def)
  have "(ucast (ucast (in_perm i) AND 0xFFF AND (0xFFF :: u64)) :: u32) = in_perm i AND 0xFFF"
    by (rule bit_word_eqI) (auto simp: bit_simps)
  then show "ucast (th_Mode (im_hdr m) AND 0xFFF) = in_perm i" using assms(2) p
    by (auto simp: delivered_def node_member_def tree_header_def Let_def split: body.splits)
qed (use assms(2) HasPrefix_Schily in \<open>auto simp: delivered_def node_member_def tree_header_def Let_def pax_of_def split: body.splits\<close>)

section \<open>The paths made so far\<close>

text \<open>\<open>M\<close> is what was made, \<open>D\<close> the directories whose attributes were applied.\<close>

definition stored :: "path set \<Rightarrow> path \<Rightarrow> inode option \<Rightarrow> inode option \<Rightarrow> bool" where
  "stored D q a b \<longleftrightarrow>
     (case a of
        None \<Rightarrow> b = None
      | Some i \<Rightarrow>
          (case b of
             None \<Rightarrow> False
           | Some j \<Rightarrow> if in_body i = BDir \<and> q \<notin> D then in_body j = BDir \<and> in_xattrs j = [] else restores i j))"

definition placed :: "path set \<Rightarrow> path \<Rightarrow> (path \<rightharpoonup> inode) \<Rightarrow> host \<Rightarrow> bool" where
  "placed D R M h \<longleftrightarrow> (\<forall>q. q \<noteq> [] \<longrightarrow> stored D q (M q) (map_of (ho_fs h) (R @ q)))"

text \<open>The state of an extraction: the destination stands, the caller is root, nothing fails.\<close>

definition works :: "bytes \<Rightarrow> path \<Rightarrow> path \<Rightarrow> host \<Rightarrow> bool" where
  "works dest R R0 h \<longleftrightarrow> stands dest R R0 h \<and> normal dest \<and> ho_plan h = [] \<and> ho_root h"

definition grown :: "(path \<rightharpoonup> inode) \<Rightarrow> bool" where
  "grown M \<longleftrightarrow> (\<forall>q i. M q = Some i \<longrightarrow> q \<noteq> [] \<and> dir_in M (butlast q))"

lemma grown_upd: "grown M \<Longrightarrow> M q = None \<Longrightarrow> q \<noteq> [] \<Longrightarrow> dir_in M (butlast q) \<Longrightarrow> grown (M(q \<mapsto> i))"
proof -
  assume g: "grown M" and n: "M q = None" "q \<noteq> []" "dir_in M (butlast q)"
  have k: "dir_in (M(q \<mapsto> i)) p" if "dir_in M p" for p using that n(1) by (auto simp: dir_in_def)
  show "grown (M(q \<mapsto> i))" unfolding grown_def
  proof (intro allI impI)
    fix p j
    assume "(M(q \<mapsto> i)) p = Some j"
    then have "p = q \<or> M p = Some j" by (simp split: if_splits)
    then show "p \<noteq> [] \<and> dir_in (M(q \<mapsto> i)) (butlast p)" using g n(2,3) k unfolding grown_def by blast
  qed
qed

lemma grown_take: "grown M \<Longrightarrow> dir_in M q \<Longrightarrow> dir_in M (take k q)"
proof (induction q rule: rev_induct)
  case (snoc c q)
  obtain i where "M (q @ [c]) = Some i" using snoc.prems(2) by (auto simp: dir_in_def)
  then have "dir_in M q" using snoc.prems(1) unfolding grown_def by fastforce
  then have "dir_in M (take k q)" using snoc by blast
  then show ?case using snoc.prems(2) by (cases "k \<le> length q") auto
qed simp

lemma placed_dir:
  assumes "placed D R M h" and "dir_in M q" and "q \<noteq> []"
  shows "is_dir (ho_fs h) (R @ q)"
proof -
  obtain d where d: "M q = Some d" "in_body d = BDir" using assms(2,3) by (auto simp: dir_in_def)
  have "stored D q (M q) (map_of (ho_fs h) (R @ q))" using assms(1,3) by (simp add: placed_def)
  then show ?thesis using d by (auto simp: stored_def is_dir_def restores_def split: option.splits if_splits)
qed

lemma placed_open:
  assumes "placed D R M h" and "grown M" and "dir_in M (butlast q)"
  shows "open_to (ho_fs h) R q"
  unfolding open_to_def
proof (intro allI impI)
  fix k
  assume k: "0 < k \<and> k < length q"
  then have "take k (butlast q) = take k q" by (simp add: take_butlast)
  then have "dir_in M (take k q)" using grown_take [OF assms(2,3), of k] by simp
  moreover have "take k q \<noteq> []" using k by auto
  ultimately show "is_dir (ho_fs h) (R @ take k q)" by (rule placed_dir [OF assms(1)])
qed

lemma works_ready:
  assumes "works dest R R0 h" and "placed D R M h" and "grown M" and "dir_in M (butlast q)" and "node_ok q i"
  shows "ready dest R R0 q h"
  using assms(1,5) placed_open [OF assms(2-4)] by (simp add: works_def ready_def node_ok_def)

lemma works_upd:
  assumes "works dest R R0 h" and "upd p j h h'" and "map_of (ho_fs h) p = Some i" and "kind (in_body j) = kind (in_body i)"
  shows "works dest R R0 h'"
  using assms(1) stands_keeps [OF _ upd_keeps [OF assms(2-4)]] upd_simps(3,4) [OF assms(2)] by (simp add: works_def)

lemma works_made:
  assumes "works dest R R0 h" and "made p j h h'" and "map_of (ho_fs h) p = None"
  shows "works dest R R0 h'"
  using assms(1) stands_keeps [OF _ made_keeps [OF assms(2,3)]] made_simps(3,4) [OF assms(2)] by (simp add: works_def)

lemma placed_made:
  assumes "placed D R M h" and "made (R @ q) j h h'" and "q \<noteq> []" and "D = {}" and "dir_in M (butlast q)"
    and "if in_body i = BDir then in_body j = BDir \<and> in_xattrs j = [] else restores i j"
  shows "placed D R (M(q \<mapsto> i)) h'"
  unfolding placed_def
proof (intro allI impI)
  fix p :: path
  assume p: "p \<noteq> []"
  obtain d where d: "map_of (ho_fs h) (R @ butlast q) = Some d"
    "map_of (ho_fs h') (R @ p) = (if p = q then Some j else if p = butlast q then Some (d\<lparr>in_mtime := ho_now h\<rparr>) else map_of (ho_fs h) (R @ p))"
    using assms(2,3) by (auto simp: made_def butlast_append)
  have s: "stored D p (M p) (map_of (ho_fs h) (R @ p))" using assms(1) p by (simp add: placed_def)
  consider "p = q" | "p \<noteq> q" "p = butlast q" | "p \<noteq> q" "p \<noteq> butlast q" by blast
  then show "stored D p ((M(q \<mapsto> i)) p) (map_of (ho_fs h') (R @ p))"
  proof cases
    case 2
    then obtain e where "M p = Some e" "in_body e = BDir" using assms(5) p by (auto simp: dir_in_def)
    then show ?thesis using s d 2 assms(4) by (simp add: stored_def)
  qed (use s d assms(4,6) in \<open>simp_all add: stored_def\<close>)
qed

section \<open>One member\<close>

text \<open>Each call that makes a node, from a ready path.\<close>

definition fresh :: "body \<Rightarrow> u32 \<Rightarrow> host \<Rightarrow> inode" where
  "fresh b perm h = \<lparr>in_body = b, in_perm = perm, in_uid = ho_uid h, in_gid = ho_gid h, in_mtime = ho_now h, in_xattrs = []\<rparr>"

lemma ready_name:
  assumes "ready dest R R0 q h"
  shows "namei (ho_fs h) (ho_cwd h) False (under dest q) = Inr (R @ q)" "ho_plan h = []" "ho_root h"
  using ready_namei [OF assms, of False] assms by (simp_all add: ready_def)

lemma ready_create:
  assumes "ready dest R R0 q h" and "map_of (ho_fs h) (R @ q) = None" and "is_dir (ho_fs h) (R @ butlast q)"
  shows "\<exists>h'. create b perm (R @ q) h = (Inr (), h') \<and> made (R @ q) (fresh b perm h) h h'"
proof -
  have "q \<noteq> []" using assms(1) by (simp add: ready_def)
  then have "butlast (R @ q) = R @ butlast q" "R @ q \<noteq> []" by (simp_all add: butlast_append)
  then show ?thesis using create_made [of h "R @ q"] assms(2,3) ready_root [OF assms(1)] unfolding fresh_def by simp
qed

lemma create_calls:
  assumes "ready dest R R0 q h" and "map_of (ho_fs h) (R @ q) = None" and "is_dir (ho_fs h) (R @ butlast q)"
  shows "\<exists>perm' h'. host_Mkdir (under dest q) perm h = (Inr (), h') \<and> made (R @ q) (fresh BDir perm' h) h h'"
    and "\<exists>perm' h'. unix_Mkfifo (under dest q) perm h = (Inr (), h') \<and> made (R @ q) (fresh BFifo perm' h) h h'"
    and "\<exists>perm' h'. unix_Mknod (under dest q) b perm h = (Inr (), h') \<and> made (R @ q) (fresh b perm' h) h h'"
    and "t \<noteq> [] \<Longrightarrow> 0 \<notin> set t \<Longrightarrow> \<exists>perm' h'. host_Symlink t (under dest q) h = (Inr (), h') \<and> made (R @ q) (fresh (BLnk t) perm' h) h h'"
    and "\<exists>perm' h'. host_CreateExcl (under dest q) perm h = (Inr (R @ q), h') \<and> made (R @ q) (fresh (BReg []) perm' h) h h'"
proof -
  note n = ready_name [OF assms(1)] and c = ready_create [OF assms]
  show "\<exists>perm' h'. host_Mkdir (under dest q) perm h = (Inr (), h') \<and> made (R @ q) (fresh BDir perm' h) h h'"
    using c [of BDir "masked h (perm AND 0x1FF)"] n by (auto simp: host_Mkdir_def sys_def at_path_def)
  show "\<exists>perm' h'. unix_Mkfifo (under dest q) perm h = (Inr (), h') \<and> made (R @ q) (fresh BFifo perm' h) h h'"
    using c [of BFifo "masked h perm"] n by (auto simp: unix_Mkfifo_def sys_def at_path_def)
  show "\<exists>perm' h'. unix_Mknod (under dest q) b perm h = (Inr (), h') \<and> made (R @ q) (fresh b perm' h) h h'"
    using c [of b "masked h perm"] n by (auto simp: unix_Mknod_def sys_def at_path_def)
  show "\<exists>perm' h'. host_Symlink t (under dest q) h = (Inr (), h') \<and> made (R @ q) (fresh (BLnk t) perm' h) h h'" if "t \<noteq> []" "0 \<notin> set t"
    using c [of "BLnk t" "0x1FF"] n that by (auto simp: host_Symlink_def sys_def at_path_def)
  show "\<exists>perm' h'. host_CreateExcl (under dest q) perm h = (Inr (R @ q), h') \<and> made (R @ q) (fresh (BReg []) perm' h) h h'"
    using c [of "BReg []" "masked h perm"] n by (auto simp: host_CreateExcl_def sys_def at_path_def)
qed

text \<open>A new file with its content.\<close>

lemma write_regular:
  assumes "ready dest R R0 q h" and "map_of (ho_fs h) (R @ q) = None" and "is_dir (ho_fs h) (R @ butlast q)"
  shows "\<exists>perm h'. writeRegular (under dest q) b None h = (Inr (), h') \<and> made (R @ q) (fresh (BReg b) perm h) h h'"
proof -
  obtain perm h1 where h1: "host_CreateExcl (under dest q) 0x180 h = (Inr (R @ q), h1)" "made (R @ q) (fresh (BReg []) perm h) h h1"
    using create_calls(5) [OF assms] by blast
  have p: "ho_plan h1 = []" "ho_now h1 = ho_now h" using h1(2) ready_name(2) [OF assms(1)] by (auto simp: made_def)
  let ?h2 = "put_inode (R @ q) ((fresh (BReg []) perm h)\<lparr>in_body := BReg b, in_mtime := ho_now h1\<rparr>) h1"
  have w: "host_WriteAll (R @ q) b h1 = (Inr (), ?h2)"
    using p(1) made_simps(1) [OF h1(2)] by (simp add: host_WriteAll_def sys_def set_content_def)
  have c: "host_Close ?h2 = (Inr (), ?h2)" using p(1) by (simp add: host_Close_def sys_def put_inode_def)
  have "made (R @ q) ((fresh (BReg []) perm h)\<lparr>in_body := BReg b, in_mtime := ho_now h1\<rparr>) h ?h2"
    by (rule made_upd [OF h1(2) upd_put])
  moreover have "(fresh (BReg []) perm h)\<lparr>in_body := BReg b, in_mtime := ho_now h1\<rparr> = fresh (BReg b) perm h" by (simp add: fresh_def p(2))
  moreover have "writeRegular (under dest q) b None h = (Inr (), ?h2)" using h1(1) w c by (simp add: writeRegular_def ext_then_def ext_sys_def)
  ultimately show ?thesis by metis
qed

lemma narrow_wide: "(ucast (ucast a :: u64) :: u32) = a" for a :: u32
  by (rule bit_word_eqI) (auto simp: bit_simps)

lemma meta_restores:
  assumes "node_ok q i" and "delivered (node_member q i) m" and "in_body j = in_body i" and "in_xattrs j = []"
  shows "restores i (if \<exists>t. in_body i = BLnk t then link_meta (im_hdr m) j else full_meta (im_hdr m) j)"
proof -
  note h = node_header [OF assms(1,2)]
  have ids: "new_id x (ucast (ucast (in_uid i) :: u64)) = in_uid i" "new_id x (ucast (ucast (in_gid i) :: u64)) = in_gid i" for x
    using assms(1) by (simp_all add: node_ok_def new_id_def narrow_wide)
  have "map_of (foldl pax_step [] (th_PAX (im_hdr m))) = map_of (in_xattrs i)" if "\<forall>t. in_body i \<noteq> BLnk t"
    using map_of_pax [OF h(5), of "[]"] h(7) [OF that] by (auto simp: fun_eq_iff split: option.splits)
  then show ?thesis using assms(3,4) ids h(1-4) by (auto simp: restores_def link_meta_def full_meta_def)
qed

lemma meta_done:
  assumes "ready dest R R0 q h" and "map_of (ho_fs h) (R @ q) = None" and "made (R @ q) j h h1" and "lnk \<longleftrightarrow> (\<exists>t. in_body j = BLnk t)"
  shows "\<exists>h'. applyMeta (under dest q) hdr lnk h1 = (Inr (), h') \<and> made (R @ q) (if lnk then link_meta hdr j else full_meta hdr j) h h'"
proof -
  have "ready dest R R0 q h1"
    using assms(1) made_keeps [OF assms(3,2)] stands_keeps open_keeps made_simps [OF assms(3)] unfolding ready_def by metis
  from applyMeta_ready [OF this made_simps(1) [OF assms(3)] assms(4), of hdr] show ?thesis
    using made_upd [OF assms(3)] by blast
qed

text \<open>The call that makes a node, followed by its attributes.\<close>

lemma attached:
  assumes "ready dest R R0 q h" and "map_of (ho_fs h) (R @ q) = None" and "made (R @ q) (fresh (in_body i) perm h) h h1"
    and "node_ok q i" and "delivered (node_member q i) m" and "lnk \<longleftrightarrow> (\<exists>t. in_body i = BLnk t)"
  shows "\<exists>h' j. ext_then (applyMeta (under dest q) (im_hdr m) lnk) (\<lambda>_. ext_return dirs) h1 = (Inr dirs, h') \<and>
     made (R @ q) j h h' \<and> restores i j"
proof -
  let ?f = "fresh (in_body i) perm h"
  obtain h' where h': "applyMeta (under dest q) (im_hdr m) lnk h1 = (Inr (), h')"
    "made (R @ q) (if lnk then link_meta (im_hdr m) ?f else full_meta (im_hdr m) ?f) h h'"
    using meta_done [OF assms(1-3), of lnk "im_hdr m"] assms(6) by (auto simp: fresh_def)
  have "restores i (if lnk then link_meta (im_hdr m) ?f else full_meta (im_hdr m) ?f)"
    using meta_restores [OF assms(4,5), of ?f] assms(6) by (simp add: fresh_def)
  then show ?thesis using h' by (auto simp: ext_then_def ext_return_def)
qed

lemma with_meta_done:
  assumes "mk h = (Inr x, h1)"
  shows "with_meta mk t hdr lnk dirs h = ext_then (applyMeta t hdr lnk) (\<lambda>_. ext_return dirs) h1"
  by (simp add: ext_then_def [of mk] assms)

lemma dev_member_done:
  assumes "unix_Mknod t b perm h = (Inr (), h1)"
  shows "dev_member t b perm hdr dirs h = ext_then (applyMeta t hdr False) (\<lambda>_. ext_return dirs) h1"
  by (simp add: dev_member_def assms)

lemma ext_sys_done: "f h = (Inr x, h') \<Longrightarrow> ext_sys f h = (Inr x, h')"
  by (simp add: ext_sys_def)

lemma node_made:
  assumes "ready dest R R0 q h" and "map_of (ho_fs h) (R @ q) = None" and "is_dir (ho_fs h) (R @ butlast q)"
    and "node_ok q i" and "delivered (node_member q i) m" and "in_body i \<noteq> BDir"
  shows "\<exists>h' j. make_member (under dest q) m dirs h = (Inr dirs, h') \<and> made (R @ q) j h h' \<and> restores i j"
proof -
  let ?t = "under dest q"
  note c = create_calls [OF assms(1-3)] and a = attached [OF assms(1,2) _ assms(4,5)] and mm = make_member_cases [of m ?t dirs]
  have hd: "th_Typeflag (im_hdr m) = th_Typeflag (fst (node_member q i))" "th_Linkname (im_hdr m) = th_Linkname (fst (node_member q i))"
    "th_Devmajor (im_hdr m) = th_Devmajor (fst (node_member q i))" "th_Devminor (im_hdr m) = th_Devminor (fst (node_member q i))"
    "im_body m = snd (node_member q i)" "im_err m = None"
    using assms(5) by (simp_all add: delivered_def Let_def)
  show ?thesis
  proof (cases "in_body i")
    case (BReg b)
    obtain perm h1 where h1: "writeRegular ?t b None h = (Inr (), h1)" "made (R @ q) (fresh (in_body i) perm h) h h1"
      using write_regular [OF assms(1-3), of b] BReg unfolding BReg by blast
    have "make_member ?t m dirs = with_meta (writeRegular ?t b None) ?t (im_hdr m) False dirs"
      using mm(1) hd BReg by (simp add: node_member_def Let_def narrow_wide)
    then show ?thesis using a [OF h1(2), of False dirs] with_meta_done [where mk = "writeRegular ?t b None" and h = h, OF h1(1)] BReg by simp
  next
    case (BLnk t)
    have t: "t \<noteq> []" "0 \<notin> set t" using assms(4) BLnk by (simp_all add: node_ok_def)
    obtain perm h1 where h1: "host_Symlink t ?t h = (Inr (), h1)" "made (R @ q) (fresh (in_body i) perm h) h h1" using c(4) [OF t] BLnk by auto
    have "make_member ?t m dirs = with_meta (ext_sys (host_Symlink t ?t)) ?t (im_hdr m) True dirs"
      using mm(2) hd BLnk by (simp add: node_member_def Let_def narrow_wide)
    then show ?thesis using a [OF h1(2), of True dirs] with_meta_done [where mk = "ext_sys (host_Symlink t ?t)" and h = h, OF ext_sys_done, OF h1(1)] BLnk by simp
  next
    case BFifo
    obtain perm h1 where h1: "unix_Mkfifo ?t (ucast (th_Mode (im_hdr m) AND 0xFFF)) h = (Inr (), h1)" "made (R @ q) (fresh (in_body i) perm h) h h1"
      using c(2) [of "ucast (th_Mode (im_hdr m) AND 0xFFF)"] BFifo by auto
    have "make_member ?t m dirs = with_meta (ext_sys (unix_Mkfifo ?t (ucast (th_Mode (im_hdr m) AND 0xFFF)))) ?t (im_hdr m) False dirs"
      using mm(3) hd BFifo by (simp add: node_member_def Let_def narrow_wide)
    then show ?thesis using a [OF h1(2), of False dirs] with_meta_done [where mk = "ext_sys (unix_Mkfifo ?t (ucast (th_Mode (im_hdr m) AND 0xFFF)))" and h = h, OF ext_sys_done, OF h1(1)] BFifo by simp
  next
    case (BChr x y)
    obtain perm h1 where h1: "unix_Mknod ?t (BChr x y) (ucast (th_Mode (im_hdr m) AND 0xFFF)) h = (Inr (), h1)" "made (R @ q) (fresh (in_body i) perm h) h h1"
      using c(3) [of "BChr x y" "ucast (th_Mode (im_hdr m) AND 0xFFF)"] BChr by auto
    have "make_member ?t m dirs = dev_member ?t (BChr x y) (ucast (th_Mode (im_hdr m) AND 0xFFF)) (im_hdr m) dirs"
      using mm(4) hd BChr by (simp add: node_member_def Let_def narrow_wide)
    then show ?thesis using a [OF h1(2), of False dirs] dev_member_done [where h = h, OF h1(1)] BChr by simp
  next
    case (BBlk x y)
    obtain perm h1 where h1: "unix_Mknod ?t (BBlk x y) (ucast (th_Mode (im_hdr m) AND 0xFFF)) h = (Inr (), h1)" "made (R @ q) (fresh (in_body i) perm h) h h1"
      using c(3) [of "BBlk x y" "ucast (th_Mode (im_hdr m) AND 0xFFF)"] BBlk by auto
    have "make_member ?t m dirs = dev_member ?t (BBlk x y) (ucast (th_Mode (im_hdr m) AND 0xFFF)) (im_hdr m) dirs"
      using mm(5) hd BBlk by (simp add: node_member_def Let_def narrow_wide)
    then show ?thesis using a [OF h1(2), of False dirs] dev_member_done [where h = h, OF h1(1)] BBlk by simp
  qed (use assms(4,6) in \<open>simp_all add: node_ok_def\<close>)
qed

text \<open>A directory whose parent is there.\<close>

lemma stat_parent:
  assumes "ready dest R R0 q h" and "is_dir (ho_fs h) (R @ butlast q)"
  shows "\<exists>d. host_Stat (under dest (butlast q)) h = Inr d \<and> in_body d = BDir"
proof -
  note r = assms(1) [unfolded ready_def]
  have "namei (ho_fs h) (ho_cwd h) True (under dest (butlast q)) = Inr (R @ butlast q)"
  proof (cases "butlast q = []")
    case True
    then show ?thesis using r by (simp add: under_def stands_def)
  next
    case False
    have q: "q = butlast q @ [last q]" using r by simp
    have g: "\<forall>c \<in> set (butlast q). good_name c" using r by (auto dest: in_set_butlastD)
    then have n: "\<not> (\<exists>c \<in> set (butlast q). 0 \<in> set c)" by (auto simp: good_name_def)
    have "open_to (ho_fs h) R (butlast q @ [last q])" using r q by simp
    then have o: "open_to (ho_fs h) R (butlast q)" using open_to_snoc by blast
    have l: "no_link (ho_fs h) (R @ butlast q)" using assms(2) by (auto simp: no_link_def is_dir_def)
    show ?thesis using open_namei [of dest R R0 h "butlast q" True] False good_names_real [OF g] o l r n by simp
  qed
  then show ?thesis using assms(2) by (auto simp: host_Stat_def stat_path_def is_dir_def split: option.splits)
qed

lemma dir_made:
  assumes "ready dest R R0 q h" and "map_of (ho_fs h) (R @ q) = None" and "is_dir (ho_fs h) (R @ butlast q)"
    and "th_Typeflag (im_hdr m) = TypeDir"
  shows "\<exists>perm h'. make_member (under dest q) m dirs h = (Inr (dirs @ [im_hdr m]), h') \<and> made (R @ q) (fresh BDir perm h) h h'"
proof -
  let ?t = "under dest q" and ?up = "under dest (butlast q)"
  note r = assms(1) [unfolded ready_def]
  have real: "\<forall>c \<in> set q. real_name c" using r good_names_real by blast
  have "no_link (ho_fs h) (R @ q)" using assms(2) by (simp add: no_link_def)
  then have st: "host_Stat ?t h = Inl ENOENT" using ready_namei [OF assms(1), of True] assms(2) by (simp add: host_Stat_def stat_path_def)
  obtain perm h1 where h1: "host_Mkdir ?t 0x1C0 h = (Inr (), h1)" "made (R @ q) (fresh BDir perm h) h h1"
    using create_calls(1) [OF assms(1-3), of "0x1C0"] by blast
  have up: "filepath_Dir ?t = ?up"
  proof -
    have "q = butlast q @ [last q]" "\<forall>c \<in> set (butlast q). real_name c" "0x2F \<notin> set (last q)"
      using r real by (auto simp: real_name_def dest: in_set_butlastD)
    then show ?thesis using Dir_under [of dest "butlast q" "last q"] r by simp
  qed
  obtain n where n: "length ?t = Suc n" using r by (cases "length ?t") (simp_all add: under_def)
  have "mkdir_all (Suc n) ?up 0x1C0 h = (Inr (), h)" using stat_parent [OF assms(1,3)] by auto
  then have "host_MkdirAll ?t 0x1C0 h = (Inr (), h1)"
    unfolding host_MkdirAll_def n by (subst mkdir_all.simps(2)) (simp add: st up h1(1) Let_def del: mkdir_all.simps)
  then have "make_member ?t m dirs h = (Inr (dirs @ [im_hdr m]), h1)"
    by (simp add: make_member_def assms(4) Let_def ext_then_def ext_sys_def ext_return_def)
  then show ?thesis using h1(2) by blast
qed

section \<open>The members\<close>

lemma placed_absent: "placed D R M h \<Longrightarrow> M q = None \<Longrightarrow> q \<noteq> [] \<Longrightarrow> map_of (ho_fs h) (R @ q) = None"
  unfolding placed_def stored_def by fastforce

lemma member_step:
  assumes "works dest R R0 h" and "placed {} R M h" and "grown M" and "node_ok q i" and "M q = None" and "dir_in M (butlast q)"
    and "delivered (node_member q i) m"
  shows "\<exists>h'. extract_member dest m dirs h = (Inr (dirs @ (if in_body i = BDir then [im_hdr m] else [])), h') \<and>
     works dest R R0 h' \<and> placed {} R (M(q \<mapsto> i)) h'"
proof -
  have q: "q \<noteq> []" "\<forall>c \<in> set q. good_name c" using assms(4) by (simp_all add: node_ok_def)
  note w = assms(1) [unfolded works_def]
  have rdy: "ready dest R R0 q h" by (rule works_ready [OF assms(1-3,6,4)])
  have none: "map_of (ho_fs h) (R @ q) = None" by (rule placed_absent [OF assms(2,5) q(1)])
  have up: "is_dir (ho_fs h) (R @ butlast q)"
    using placed_dir [OF assms(2,6)] w by (cases "butlast q = []") (simp_all add: stands_def)
  have "th_Name (im_hdr m) = join_slash q @ (if in_body i = BDir then [0x2F] else [])"
    using assms(7) by (auto simp: delivered_def node_member_def tree_header_def Let_def split: body.splits)
  then have sj: "safeJoin dest (th_Name (im_hdr m)) = Inr (under dest q)" using safeJoin_under [OF _ q, of dest] w by simp
  have "open_to (ho_fs h) R q" using rdy by (simp add: ready_def)
  then have rej: "rejectSymlinkComponents dest (under dest q) h = (Inr (), h)"
    using reject_passes [of dest R R0 h q] w q(2) none by (simp add: rejectSymlinkComponents_def del: reject_loop.simps)
  have em: "extract_member dest m dirs h = make_member (under dest q) m dirs h"
    by (simp add: extract_member_def sj ext_then_def rej)
  have "\<exists>h' j. make_member (under dest q) m dirs h = (Inr (dirs @ (if in_body i = BDir then [im_hdr m] else [])), h') \<and> made (R @ q) j h h' \<and>
      (if in_body i = BDir then in_body j = BDir \<and> in_xattrs j = [] else restores i j)"
  proof (cases "in_body i = BDir")
    case True
    have "th_Typeflag (im_hdr m) = TypeDir" using assms(7) True by (simp add: delivered_def node_member_def Let_def)
    then obtain perm h' where "make_member (under dest q) m dirs h = (Inr (dirs @ [im_hdr m]), h')" "made (R @ q) (fresh BDir perm h) h h'"
      using dir_made [OF rdy none up] by blast
    moreover have "in_body (fresh BDir perm h) = BDir \<and> in_xattrs (fresh BDir perm h) = []" by (simp add: fresh_def)
    ultimately show ?thesis using True by auto
  next
    case False
    then show ?thesis using node_made [OF rdy none up assms(4,7)] by simp
  qed
  then obtain h' j where h': "make_member (under dest q) m dirs h = (Inr (dirs @ (if in_body i = BDir then [im_hdr m] else [])), h')"
    "made (R @ q) j h h'" "if in_body i = BDir then in_body j = BDir \<and> in_xattrs j = [] else restores i j" by blast
  have "works dest R R0 h'" by (rule works_made [OF assms(1) h'(2) none])
  moreover have "placed {} R (M(q \<mapsto> i)) h'" by (rule placed_made [OF assms(2) h'(2) q(1) refl assms(6) h'(3)])
  ultimately show ?thesis using h'(1) by (simp add: em)
qed

lemma members_made:
  assumes "works dest R R0 h" and "placed {} R M h" and "grown M" and "walked M ns"
    and "list_all2 (\<lambda>(q, i) m. delivered (node_member q i) m) ns ms"
  shows "\<exists>h'. extract_members dest ms dirs h =
      (Inr (dirs @ map (\<lambda>(x, m). im_hdr m) (filter (\<lambda>((q, i), m). in_body i = BDir) (zip ns ms))), h') \<and>
     works dest R R0 h' \<and> placed {} R (adds ns M) h'"
  using assms
proof (induction ns arbitrary: M ms dirs h)
  case Nil
  then show ?case by (simp add: ext_return_def)
next
  case (Cons x ns)
  obtain q i where x: "x = (q, i)" by (cases x)
  obtain m ms' where ms: "ms = m # ms'" "delivered (node_member q i) m" "list_all2 (\<lambda>(q, i) m. delivered (node_member q i) m) ns ms'"
    using Cons.prems(5) x by (cases ms) auto
  have k: "node_ok q i" "M q = None" "dir_in M (butlast q)" "walked (M(q \<mapsto> i)) ns" using Cons.prems(4) x by simp_all
  let ?dirs = "dirs @ (if in_body i = BDir then [im_hdr m] else [])"
  obtain h1 where h1: "extract_member dest m dirs h = (Inr ?dirs, h1)" "works dest R R0 h1" "placed {} R (M(q \<mapsto> i)) h1"
    using member_step [OF Cons.prems(1-3) k(1-3) ms(2)] by blast
  have "grown (M(q \<mapsto> i))" using grown_upd [OF Cons.prems(3) k(2) _ k(3)] k(1) by (simp add: node_ok_def)
  from Cons.IH [OF h1(2,3) this k(4) ms(3), of ?dirs] obtain h' where h':
    "extract_members dest ms' ?dirs h1 = (Inr (?dirs @ map (\<lambda>(x, m). im_hdr m) (filter (\<lambda>((q, i), m). in_body i = BDir) (zip ns ms'))), h')"
    "works dest R R0 h'" "placed {} R (adds ns (M(q \<mapsto> i))) h'" by blast
  have "extract_members dest ms dirs h = (Inr (dirs @ map (\<lambda>(x, m). im_hdr m) (filter (\<lambda>((q, i), m). in_body i = BDir) (zip (x # ns) ms))), h')"
    using h1(1) h'(1) by (simp add: x ms(1) ext_then_def)
  then show ?case using h'(2,3) unfolding x adds_simps by blast
qed

section \<open>The directories\<close>

lemma placed_upd:
  assumes "placed D R M h" and "upd (R @ q) j h h'" and "M q = Some i" and "restores i j"
  shows "placed (insert q D) R M h'"
  unfolding placed_def
proof (intro allI impI)
  fix p :: path
  assume p: "p \<noteq> []"
  have s: "stored D p (M p) (map_of (ho_fs h) (R @ p))" using assms(1) p by (simp add: placed_def)
  have m: "map_of (ho_fs h') (R @ p) = (if p = q then Some j else map_of (ho_fs h) (R @ p))" using upd_simps(1) [OF assms(2)] by simp
  show "stored (insert q D) p (M p) (map_of (ho_fs h') (R @ p))"
  proof (cases "p = q")
    case True
    then show ?thesis using m assms(3,4) by (simp add: stored_def)
  next
    case False
    then have "stored (insert q D) p a b \<longleftrightarrow> stored D p a b" for a b by (simp add: stored_def cong: option.case_cong)
    then show ?thesis using s m False by simp
  qed
qed

lemma dirs_applied:
  assumes "works dest R R0 h" and "placed D R M h" and "grown M" and "distinct (map (fst \<circ> fst) nms)" and "fst ` fst ` set nms \<inter> D = {}"
    and "\<And>q i m. ((q, i), m) \<in> set nms \<Longrightarrow> in_body i = BDir \<and> M q = Some i \<and> node_ok q i \<and> delivered (node_member q i) m"
  shows "\<exists>h'. apply_dirs dest (map (\<lambda>(x, m). im_hdr m) nms) h = (Inr (), h') \<and> placed (D \<union> fst ` fst ` set nms) R M h'"
  using assms
proof (induction nms arbitrary: D h)
  case Nil
  then show ?case by (simp add: ext_return_def)
next
  case (Cons y nms)
  obtain q i m where y: "y = ((q, i), m)" by (metis surj_pair)
  have k: "in_body i = BDir" "M q = Some i" "node_ok q i" "delivered (node_member q i) m" using Cons.prems(6) [of q i m] y by simp_all
  have q: "q \<noteq> []" "\<forall>c \<in> set q. good_name c" "q \<notin> D" using k(3) Cons.prems(5) y by (simp_all add: node_ok_def)
  have "dir_in M (butlast q)" using Cons.prems(3) k(2) unfolding grown_def by blast
  then have rdy: "ready dest R R0 q h" using works_ready [OF Cons.prems(1-3) _ k(3)] by blast
  have "stored D q (M q) (map_of (ho_fs h) (R @ q))" using Cons.prems(2) q(1) by (simp add: placed_def)
  then obtain j where j: "map_of (ho_fs h) (R @ q) = Some j" "in_body j = BDir" "in_xattrs j = []"
    using k(1,2) q(3) by (auto simp: stored_def split: option.splits)
  obtain h1 where h1: "applyMeta (under dest q) (im_hdr m) False h = (Inr (), h1)" "upd (R @ q) (full_meta (im_hdr m) j) h h1"
    using applyMeta_ready [OF rdy j(1), of False "im_hdr m"] j(2) by auto
  have "restores i (full_meta (im_hdr m) j)" using meta_restores [OF k(3,4), of j] j k(1) by simp
  then have p1: "placed (insert q D) R M h1" by (rule placed_upd [OF Cons.prems(2) h1(2) k(2)])
  have w1: "works dest R R0 h1" by (rule works_upd [OF Cons.prems(1) h1(2) j(1)]) (simp add: full_meta_def)
  have "th_Name (im_hdr m) = join_slash q @ [0x2F]" using k(1,4) by (simp add: delivered_def node_member_def tree_header_def Let_def)
  then have sj: "safeJoin dest (th_Name (im_hdr m)) = Inr (under dest q)"
    using safeJoin_under [OF _ q(1,2), of dest "[0x2F]"] Cons.prems(1) by (simp add: works_def)
  have "fst ` fst ` set nms \<inter> insert q D = {}" using Cons.prems(4,5) by (auto simp: y image_image)
  then obtain h' where h': "apply_dirs dest (map (\<lambda>(x, m). im_hdr m) nms) h1 = (Inr (), h')" "placed (insert q D \<union> fst ` fst ` set nms) R M h'"
    using Cons.IH [OF w1 p1 Cons.prems(3)] Cons.prems(4,6) by auto
  moreover have "insert q D \<union> fst ` fst ` set nms = D \<union> fst ` fst ` set (y # nms)" by (simp add: y)
  ultimately show ?case using h1(1) sj by (simp add: y ext_then_def)
qed

section \<open>The tree again\<close>

definition recreated :: "path \<Rightarrow> (bytes \<times> tree) list \<Rightarrow> host \<Rightarrow> bool" where
  "recreated R kids h \<longleftrightarrow>
     (\<forall>q. q \<noteq> [] \<longrightarrow>
        (case map_of (tree_nodes kids) q of
           None \<Rightarrow> map_of (ho_fs h) (R @ q) = None
         | Some i \<Rightarrow> (\<exists>j. map_of (ho_fs h) (R @ q) = Some j \<and> restores i j)))"

lemma walked_distinct: "walked M ns \<Longrightarrow> distinct (map fst ns)"
proof (induction ns arbitrary: M)
  case (Cons x ns)
  obtain q i where x: "x = (q, i)" by (cases x)
  have w: "walked (M(q \<mapsto> i)) ns" using Cons.prems x by simp
  have "q \<notin> fst ` set ns"
  proof
    assume "q \<in> fst ` set ns"
    then obtain j where "(q, j) \<in> set ns" by auto
    from walked_new [OF w this] show False by simp
  qed
  then show ?case using Cons.IH [OF w] x by simp
qed simp

lemma walked_nodes: "walked M ns \<Longrightarrow> (q, i) \<in> set ns \<Longrightarrow> node_ok q i"
proof (induction ns arbitrary: M)
  case (Cons x ns)
  obtain q' i' where x: "x = (q', i')" by (cases x)
  have w: "walked (M(q' \<mapsto> i')) ns" and o: "node_ok q' i'" using Cons.prems(1) x by simp_all
  show ?case using Cons.IH [OF w] o Cons.prems(2) x by auto
qed simp

lemma walked_grown: "walked M ns \<Longrightarrow> grown M \<Longrightarrow> grown (adds ns M)"
proof (induction ns arbitrary: M)
  case (Cons x ns)
  obtain q i where x: "x = (q, i)" by (cases x)
  have w: "walked (M(q \<mapsto> i)) ns" and k: "node_ok q i" "M q = None" "dir_in M (butlast q)" using Cons.prems(1) x by simp_all
  have "grown (M(q \<mapsto> i))" using grown_upd [OF Cons.prems(2) k(2) _ k(3)] k(1) by (simp add: node_ok_def)
  from Cons.IH [OF w this] show ?case unfolding x adds_simps .
qed simp

lemma placed_all:
  assumes "placed D R M h" and "\<And>q i. M q = Some i \<Longrightarrow> in_body i = BDir \<Longrightarrow> q \<in> D" and "q \<noteq> []"
  shows "case M q of None \<Rightarrow> map_of (ho_fs h) (R @ q) = None | Some i \<Rightarrow> (\<exists>j. map_of (ho_fs h) (R @ q) = Some j \<and> restores i j)"
proof (cases "M q")
  case None
  then show ?thesis using placed_absent [OF assms(1) None assms(3)] by simp
next
  case (Some i)
  have "stored D q (M q) (map_of (ho_fs h) (R @ q))" using assms(1,3) by (simp add: placed_def)
  then show ?thesis using Some assms(2) [OF Some] by (auto simp: stored_def split: option.splits if_splits)
qed

lemma extraction:
  assumes "works dest R R0 h" and "\<forall>q. q \<noteq> [] \<longrightarrow> map_of (ho_fs h) (R @ q) = None" and "walked Map.empty ns"
    and "list_all2 (\<lambda>(q, i) m. delivered (node_member q i) m) ns ms"
  shows "\<exists>dirs h1 h'. extract_members dest ms [] h = (Inr dirs, h1) \<and> apply_dirs dest dirs h1 = (Inr (), h') \<and>
     (\<forall>q. q \<noteq> [] \<longrightarrow> (case map_of ns q of None \<Rightarrow> map_of (ho_fs h') (R @ q) = None
        | Some i \<Rightarrow> (\<exists>j. map_of (ho_fs h') (R @ q) = Some j \<and> restores i j)))"
proof -
  let ?nms = "filter (\<lambda>((q, i), m). in_body i = BDir) (zip ns ms)" and ?M = "adds ns Map.empty"
  have g0: "grown Map.empty" by (simp add: grown_def)
  have "placed {} R Map.empty h" using assms(2) by (simp add: placed_def stored_def)
  from members_made [OF assms(1) this g0 assms(3,4), of "[]"] obtain h1 where
    h1: "extract_members dest ms [] h = (Inr (map (\<lambda>(x, m). im_hdr m) ?nms), h1)" "works dest R R0 h1" "placed {} R ?M h1" by auto
  have M: "?M = map_of ns" using walked_adds [OF assms(3)] by simp
  have len: "length ns = length ms" using assms(4) by (rule list_all2_lengthD)
  have d: "distinct (map fst ns)" by (rule walked_distinct [OF assms(3)])
  have z: "map fst (zip ns ms) = ns" using len by simp
  have "distinct (map (fst \<circ> fst) (zip ns ms))" using d z by (metis map_map)
  then have dn: "distinct (map (fst \<circ> fst) ?nms)" by (rule distinct_map_filter)
  have el: "in_body i = BDir \<and> ?M q = Some i \<and> node_ok q i \<and> delivered (node_member q i) m" if "((q, i), m) \<in> set ?nms" for q i m
  proof -
    have z: "((q, i), m) \<in> set (zip ns ms)" "in_body i = BDir" using that by auto
    have n: "(q, i) \<in> set ns" using z(1) by (rule set_zip_leftD)
    have "delivered (node_member q i) m" using assms(4) z(1) by (auto simp: list_all2_iff)
    then show ?thesis using z(2) n walked_nodes [OF assms(3) n] d by (simp add: M)
  qed
  obtain h' where h': "apply_dirs dest (map (\<lambda>(x, m). im_hdr m) ?nms) h1 = (Inr (), h')" "placed ({} \<union> fst ` fst ` set ?nms) R ?M h'"
    using dirs_applied [OF h1(2,3) walked_grown [OF assms(3) g0] dn _ el] by auto
  have all: "q \<in> {} \<union> fst ` fst ` set ?nms" if m: "?M q = Some i" "in_body i = BDir" for q i
  proof -
    have "(q, i) \<in> set ns" using m(1) M by (simp add: map_of_SomeD)
    then obtain m' where "((q, i), m') \<in> set (zip ns ms)" using z by (metis (no_types, lifting) fst_conv imageE list.set_map surj_pair)
    then have "((q, i), m') \<in> set ?nms" using m(2) by simp
    then show ?thesis by force
  qed
  have "case map_of ns q of None \<Rightarrow> map_of (ho_fs h') (R @ q) = None
      | Some i \<Rightarrow> (\<exists>j. map_of (ho_fs h') (R @ q) = Some j \<and> restores i j)" if "q \<noteq> []" for q
    using placed_all [OF h'(2) all that] unfolding M .
  then show ?thesis using h1(1) h'(1) by blast
qed

text \<open>An empty directory of a host whose caller is root and where nothing fails.\<close>

definition blank :: "bytes \<Rightarrow> path \<Rightarrow> host \<Rightarrow> bool" where
  "blank dest R h \<longleftrightarrow> wf_fs (ho_fs h) \<and> ho_root h \<and> ho_plan h = [] \<and> normal dest \<and> namei (ho_fs h) (ho_cwd h) True dest = Inr R \<and>
     is_dir (ho_fs h) R \<and> (\<forall>q. q \<noteq> [] \<longrightarrow> map_of (ho_fs h) (R @ q) = None)"

lemma extract_recreates:
  assumes "blank dest R h" and "\<forall>x \<in> set kids. restorable x" and "distinct (map fst kids)"
    and "list_all2 delivered (concat (map (tree_members []) kids)) ms"
  shows "\<exists>h'. Extract ms None dest h = (Inr (), h') \<and> recreated R kids h'"
proof -
  note b = assms(1) [unfolded blank_def]
  obtain R0 where st: "stands dest R R0 h" using standsI [of h dest R] b wf_rooted by blast
  have w: "works dest R R0 h" using st b by (simp add: works_def)
  have "list_all2 (\<lambda>(q, i) m. delivered (node_member q i) m) (tree_nodes kids) ms"
    using assms(4) by (simp add: tree_members_nodes [OF assms(2)] list_all2_map1 case_prod_unfold)
  from extraction [OF w _ tree_walked [OF assms(2,3)] this] b obtain dirs h1 h' where
    x: "extract_members dest ms [] h = (Inr dirs, h1)" "apply_dirs dest dirs h1 = (Inr (), h')" "recreated R kids h'"
    unfolding recreated_def by blast
  have "host_MkdirAll dest 0x1ED h = (Inr (), h)" unfolding host_MkdirAll_def mkdir_dest [OF st] by simp
  then have "Extract ms None dest h = (Inr (), h')" using x(1,2) by (simp add: Extract_def ext_then_def ext_sys_def)
  then show ?thesis using x(3) by blast
qed

section \<open>Properties\<close>

text \<open>C5: a backup can be restored. A directory is ingested, in every interleaving of the
  workers; from any store that holds the objects the root is exported; whatever a reader of that
  archive delivers, with the PAX records in any order, is extracted by root into an empty
  directory where no call fails. Every step succeeds, and at the end the directory holds the
  paths of the visible tree and no other, each with its content, target or device, its owner and
  its time, and its permissions and extended attributes unless it is a link: the times of
  directories too, which the creation of their entries had changed.\<close>

theorem backup_restores:
  assumes "src_ok S" and "op_NoIgnore opts \<or> ignores_ok S"
    and "deps_ok (en_C E) (en_H E)" and "chunks_ok (en_U E)" and "co_ItemBits (op_Chunk opts) \<le> 15"
    and "lies (sr_fs S) p t" and "tr_body t = BDir" and "height t \<le> depth"
    and "\<forall>x \<in> set (seen_kids E S p opts t). portable fits [] x \<and> restorable x" and "blank dest R h"
  shows "\<exists>N. \<forall>fuel \<ge> N. \<forall>sched before. \<exists>objs k. Objects E fuel S sched depth before p opts = Some (Inr (map Inr objs, Some k)) \<and>
     (\<forall>(get :: key \<Rightarrow> ps_err + bytes) mk. has_objs get objs \<longrightarrow> (\<exists>M. \<forall>fuel \<ge> M. \<exists>archive.
        tar_Write (en_C E) fits mk get fuel None k = Some (Inr archive) \<and>
        (\<forall>ms. list_all2 delivered archive ms \<longrightarrow>
          (\<exists>h'. Extract ms None dest h = (Inr (), h') \<and> recreated R (seen_kids E S p opts t) h'))))"
proof -
  let ?kids = "seen_kids E S p opts t"
  have k: "\<forall>x \<in> set ?kids. portable fits [] x" "\<forall>x \<in> set ?kids. restorable x" using assms(9) by blast+
  note sorted = seen_sorted [OF assms(6), of E opts]
  have dist: "distinct (map fst ?kids)" using sorted by (simp add: strict_sorted_iff)
  have ex: "\<exists>M. \<forall>fuel \<ge> M. tar_Write (en_C E) fits mk get fuel None k = Some (Inr (concat (map (tree_members []) ?kids)))"
    if "dir_shows (en_C E) get k ?kids" for get :: "key \<Rightarrow> ps_err + bytes" and k mk
    using export_members [OF that k(1) sorted] dir_shows_type [OF that] by blast
  note re = extract_recreates [OF assms(10) k(2) dist]
  have "\<exists>M. \<forall>fuel \<ge> M. \<exists>archive. tar_Write (en_C E) fits mk get fuel None k = Some (Inr archive) \<and>
      (\<forall>ms. list_all2 delivered archive ms \<longrightarrow> (\<exists>h'. Extract ms None dest h = (Inr (), h') \<and> recreated R ?kids h'))"
    if "dir_shows (en_C E) get k ?kids" for get :: "key \<Rightarrow> ps_err + bytes" and k mk
    using ex [OF that, of mk] re by blast
  then show ?thesis using ingest_objects [OF assms(1-8)] by meson
qed

text \<open>A host with an empty directory \<open>/d\<close>, and the archive of \<open>wit_source\<close> as a reader delivers it.\<close>

definition wit_blank :: host where
  "wit_blank = \<lparr>ho_fs = [([], wit_inode BDir), ([[0x64]], wit_inode BDir)], ho_cwd = [], ho_root = True, ho_uid = 0, ho_gid = 0,
     ho_umask = 0x12, ho_now = 5, ho_plan = []\<rparr>"

definition wit_read :: "in_member list" where
  "wit_read = [\<lparr>im_hdr = \<lparr>th_Name = [0x61], th_Mode = 0x1ED, th_Uid = 7, th_Gid = 8, th_ModTime = 9, th_Typeflag = TypeReg,
     th_Size = 2, th_Linkname = [], th_Devmajor = 0, th_Devminor = 0, th_PAX = []\<rparr>, im_body = [0x68, 0x69], im_err = None\<rparr>]"

lemma wit_blank_ok: "blank [0x2F, 0x64] [[0x64]] wit_blank"
proof -
  have n: "normal [0x2F, 0x64]" unfolding normal_def by (rule exI [of _ "[[0x64]]"]) (simp add: is_abs_def real_name_def dot_def dotdot_def)
  have s: "split_slash [0x2F, 0x64] = [[], [0x64]]" by simp
  show ?thesis using n
    by (auto simp: blank_def wit_blank_def wf_fs_def wit_inode_def is_dir_def good_name_def dot_def dotdot_def namei_def is_abs_def s split: if_splits)
qed

theorem backup_restores_witness:
  "\<exists>N. \<forall>fuel \<ge> N. \<forall>sched before. \<exists>objs k. Objects wit_env fuel wit_source sched 2 before [] wit_opts = Some (Inr (map Inr objs, Some k)) \<and>
     (\<forall>(get :: key \<Rightarrow> ps_err + bytes) mk. has_objs get objs \<longrightarrow> (\<exists>M. \<forall>fuel \<ge> M. \<exists>archive.
        tar_Write (en_C wit_env) (\<lambda>_. True) mk get fuel None k = Some (Inr archive) \<and>
        (\<forall>ms. list_all2 delivered archive ms \<longrightarrow>
          (\<exists>h'. Extract ms None [0x2F, 0x64] wit_blank = (Inr (), h') \<and> recreated [[0x64]] [([0x61], Tree (wit_inode (BReg [0x68, 0x69])) [])] h'))))"
proof -
  have p: "\<forall>x \<in> set (seen_kids wit_env wit_source [] wit_opts wit_tree). portable (\<lambda>_. True) [] x \<and> restorable x"
    by (simp add: wit_seen wit_inode_def good_name_def dot_def dotdot_def)
  have "deps_ok (en_C wit_env) (en_H wit_env)" by (simp add: wit_env_def frame_deps_ok)
  from backup_restores [OF wit_source_ok(1) _ this wit_source_ok(3) _ wit_source_ok(2) _ _ p wit_blank_ok, of 2] show ?thesis
    unfolding wit_seen by (simp add: wit_opts_def wit_tree_def wit_inode_def)
qed

text \<open>Archives do get delivered.\<close>

lemma wit_delivered: "list_all2 delivered (concat (map (tree_members []) [([0x61], Tree (wit_inode (BReg [0x68, 0x69])) [])])) wit_read"
  by (simp add: delivered_def wit_read_def tree_header_def wit_inode_def child_path_def Let_def pax_of_def)

end
