(* ===== verification/Amber_Inbox.thy ===== *)
theory Amber_Inbox
  imports Amber_ParallelLog Amber_Ref
begin

text \<open>
  Package \<open>inbox\<close>: packs received, made durable and drained into the store by a pool of workers
  (inbox.go), and the header of an entry (entry.go). The inbox directory, its \<open>tmp\<close> and its
  \<open>failed\<close> directories are lists of named files; each call of the operating system takes its
  outcome from a fault plan. The CBOR package is a parameter (\<open>meta_cbor\<close>).

  \<open>Commit\<close> and the worker loop are cut where other goroutines may run: between system calls
  and at the critical sections. \<open>Commit\<close> and \<open>process\<close> compose the parts in the code's order;
  \<open>ib_step\<close> interleaves the parts of any number of commits and workers.
\<close>

section \<open>The header of an entry\<close>

record Meta =
  Me_Ref :: bytes
  Me_Root :: bytes
  Me_ReceivedAt :: "64 word"

record meta_cbor =
  MarshalMeta :: "Meta \<Rightarrow> bytes"
  UnmarshalMeta :: "bytes \<Rightarrow> Meta option"

datatype ib_err = IbIO | IbMetaLen | IbMetaShort | IbMeta | IbKey key_err

definition writeMetaHeader :: "meta_cbor \<Rightarrow> Meta \<Rightarrow> bytes" where
  "writeMetaHeader M m = (let b = MarshalMeta M m in PutUint32 (of_nat (length b)) @ b)"

text \<open>The result holds what is left to read: the body.\<close>

definition readMetaHeader :: "meta_cbor \<Rightarrow> bytes \<Rightarrow> ib_err + Meta \<times> bytes" where
  "readMetaHeader M r =
     (if length r < 4 then Inl IbMetaLen
      else let n = unat (Uint32 (take 4 r)); r = drop 4 r in
        if length r < n then Inl IbMetaShort
        else case UnmarshalMeta M (take n r) of None \<Rightarrow> Inl IbMeta | Some m \<Rightarrow> Inr (m, drop n r))"

section \<open>The inbox\<close>

record workItem =
  wi_name :: string
  wi_root :: key

record Inbox =
  ib_dir :: "(string \<times> bytes) list"
  ib_tmp :: "(string \<times> bytes) list"
  ib_failed :: "(string \<times> bytes) list"
  ib_work :: "workItem list"
  ib_groups :: "key \<rightharpoonup> nat"
  ib_closed :: bool
  ib_faults :: "bool list"

text \<open>Whether the next system call works.\<close>

definition ib_io :: "Inbox \<Rightarrow> bool \<times> Inbox" where
  "ib_io ib = (case ib_faults ib of [] \<Rightarrow> (True, ib) | bad # fs \<Rightarrow> (\<not> bad, ib\<lparr>ib_faults := fs\<rparr>))"

definition group_count :: "key \<Rightarrow> Inbox \<Rightarrow> nat" where
  "group_count root ib = (case ib_groups ib root of None \<Rightarrow> 0 | Some n \<Rightarrow> n)"

definition enqueue :: "workItem \<Rightarrow> Inbox \<Rightarrow> Inbox" where
  "enqueue item ib = ib\<lparr>ib_groups := (ib_groups ib)(wi_root item \<mapsto> group_count (wi_root item) ib + 1), ib_work := ib_work ib @ [item]\<rparr>"

section \<open>Receiving\<close>

definition Discard :: "string \<Rightarrow> Inbox \<Rightarrow> Inbox" where
  "Discard tmp ib = (case ib_io ib of (True, ib) \<Rightarrow> ib\<lparr>ib_tmp := AList.delete tmp (ib_tmp ib)\<rparr> | (False, ib) \<Rightarrow> ib)"

text \<open>\<open>tmp\<close> is the name that \<open>os.CreateTemp\<close> finds unused; a call that fails leaves some of the
  file (\<open>part\<close>), which is then removed. The body's reader may fail (\<open>rerr\<close>).\<close>

definition stage_fail :: "string \<Rightarrow> bytes \<Rightarrow> Inbox \<Rightarrow> (ib_err + string \<times> bytes \<times> nat) \<times> Inbox" where
  "stage_fail tmp part ib = (Inl IbIO, Discard tmp (ib\<lparr>ib_tmp := AList.update tmp part (ib_tmp ib)\<rparr>))"

definition Stage :: "meta_cbor \<Rightarrow> (bytes \<Rightarrow> bytes) \<Rightarrow> string \<Rightarrow> bytes \<Rightarrow> Meta \<Rightarrow> bytes \<Rightarrow> bool \<Rightarrow> Inbox \<Rightarrow> (ib_err + string \<times> bytes \<times> nat) \<times> Inbox" where
  "Stage M H tmp part meta body rerr ib =
     (case ib_io ib of
        (False, ib) \<Rightarrow> (Inl IbIO, ib)
      | (True, ib) \<Rightarrow>
          if map_of (ib_tmp ib) tmp \<noteq> None then (Inl IbIO, ib)
          else case ib_io ib of
            (False, ib) \<Rightarrow> stage_fail tmp part ib
          | (True, ib) \<Rightarrow>
              case ib_io ib of
                (False, ib) \<Rightarrow> stage_fail tmp part ib
              | (True, ib) \<Rightarrow>
                  if rerr then stage_fail tmp part ib
                  else case ib_io ib of
                    (False, ib) \<Rightarrow> stage_fail tmp part ib
                  | (True, ib) \<Rightarrow>
                      case ib_io ib of
                        (False, ib) \<Rightarrow> stage_fail tmp part ib
                      | (True, ib) \<Rightarrow>
                          (Inr (tmp, H body, length body), ib\<lparr>ib_tmp := AList.update tmp (writeMetaHeader M meta @ body) (ib_tmp ib)\<rparr>))"

definition packSuffix :: string where "packSuffix = ''.pack''"

definition entry_name :: "bytes \<Rightarrow> string" where
  "entry_name bodyHash = concat (map hex_byte bodyHash) @ packSuffix"

text \<open>The parts of a commit: the check for the entry, the rename, the directory's sync and the
  critical section.\<close>

definition commit_check :: "string \<Rightarrow> string \<Rightarrow> Inbox \<Rightarrow> (ib_err + bool) \<times> Inbox" where
  "commit_check tmp name ib =
     (case ib_io ib of
        (False, ib) \<Rightarrow> (Inl IbIO, ib)
      | (True, ib) \<Rightarrow> if map_of (ib_dir ib) name \<noteq> None then (Inr False, Discard tmp ib) else (Inr True, ib))"

definition commit_rename :: "string \<Rightarrow> string \<Rightarrow> Inbox \<Rightarrow> (ib_err + unit) \<times> Inbox" where
  "commit_rename tmp name ib =
     (case ib_io ib of
        (False, ib) \<Rightarrow> (Inl IbIO, ib)
      | (True, ib) \<Rightarrow>
          (case map_of (ib_tmp ib) tmp of
             None \<Rightarrow> (Inl IbIO, ib)
           | Some b \<Rightarrow> (Inr (), ib\<lparr>ib_dir := AList.update name b (ib_dir ib), ib_tmp := AList.delete tmp (ib_tmp ib)\<rparr>)))"

definition syncDir :: "Inbox \<Rightarrow> (ib_err + unit) \<times> Inbox" where
  "syncDir ib = (case ib_io ib of (False, ib) \<Rightarrow> (Inl IbIO, ib) | (True, ib) \<Rightarrow> (Inr (), ib))"

definition Commit :: "string \<Rightarrow> bytes \<Rightarrow> key \<Rightarrow> Inbox \<Rightarrow> (ib_err + bool) \<times> Inbox" where
  "Commit tmp bodyHash root ib =
     (let name = entry_name bodyHash in
      case commit_check tmp name ib of
        (Inl e, ib) \<Rightarrow> (Inl e, ib)
      | (Inr False, ib) \<Rightarrow> (Inr False, ib)
      | (Inr True, ib) \<Rightarrow>
          (case commit_rename tmp name ib of
             (Inl e, ib) \<Rightarrow> (Inl e, ib)
           | (Inr _, ib) \<Rightarrow>
               (case syncDir ib of
                  (Inl e, ib) \<Rightarrow> (Inl e, ib)
                | (Inr _, ib) \<Rightarrow> (Inr True, enqueue \<lparr>wi_name = name, wi_root = root\<rparr> ib))))"

text \<open>\<open>WaitFor\<close> returns when this holds.\<close>

definition WaitFor :: "key \<Rightarrow> Inbox \<Rightarrow> bool" where
  "WaitFor root ib \<longleftrightarrow> group_count root ib = 0"

definition inbox_Close :: "Inbox \<Rightarrow> Inbox" where
  "inbox_Close ib = ib\<lparr>ib_closed := True\<rparr>"

section \<open>Recovery\<close>

definition readRoot :: "meta_cbor \<Rightarrow> string \<Rightarrow> Inbox \<Rightarrow> (ib_err + key) \<times> Inbox" where
  "readRoot M name ib =
     (case ib_io ib of
        (False, ib) \<Rightarrow> (Inl IbIO, ib)
      | (True, ib) \<Rightarrow>
          (case map_of (ib_dir ib) name of
             None \<Rightarrow> (Inl IbIO, ib)
           | Some b \<Rightarrow>
               (case readMetaHeader M b of
                  Inl e \<Rightarrow> (Inl e, ib)
                | Inr (m, _) \<Rightarrow> (case Parse (Me_Root m) of Inl e \<Rightarrow> Inl (IbKey e) | Inr k \<Rightarrow> Inr k, ib))))"

definition quarantine :: "string \<Rightarrow> Inbox \<Rightarrow> Inbox" where
  "quarantine name ib =
     (case ib_io ib of
        (False, ib) \<Rightarrow> ib
      | (True, ib) \<Rightarrow>
          (case map_of (ib_dir ib) name of
             None \<Rightarrow> ib
           | Some b \<Rightarrow> ib\<lparr>ib_dir := AList.delete name (ib_dir ib), ib_failed := AList.update name b (ib_failed ib)\<rparr>))"

primrec sweep_tmps :: "string list \<Rightarrow> Inbox \<Rightarrow> Inbox" where
  "sweep_tmps [] ib = ib"
| "sweep_tmps (n # ns) ib = sweep_tmps ns (Discard n ib)"

text \<open>The entries are visited in name order; \<open>ib_dir\<close> holds the files, the subdirectories are
  skipped.\<close>

primrec requeue :: "meta_cbor \<Rightarrow> string list \<Rightarrow> Inbox \<Rightarrow> Inbox" where
  "requeue M [] ib = ib"
| "requeue M (name # names) ib =
     (if \<not> suffix packSuffix name then requeue M names ib
      else case readRoot M name ib of
        (Inl _, ib) \<Rightarrow> requeue M names (quarantine name ib)
      | (Inr root, ib) \<Rightarrow> requeue M names (enqueue \<lparr>wi_name = name, wi_root = root\<rparr> ib))"

definition inbox_recover :: "meta_cbor \<Rightarrow> Inbox \<Rightarrow> (ib_err + unit) \<times> Inbox" where
  "inbox_recover M ib =
     (case ib_io ib of
        (False, ib) \<Rightarrow> (Inl IbIO, ib)
      | (True, ib) \<Rightarrow>
          let ib = sweep_tmps (map fst (ib_tmp ib)) ib in
          (case ib_io ib of
             (False, ib) \<Rightarrow> (Inl IbIO, ib)
           | (True, ib) \<Rightarrow> (Inr (), requeue M (sort (map fst (ib_dir ib))) ib)))"

text \<open>Opening the directories as a previous run left them.\<close>

definition inbox_Open :: "meta_cbor \<Rightarrow> (string \<times> bytes) list \<Rightarrow> (string \<times> bytes) list \<Rightarrow> (string \<times> bytes) list \<Rightarrow> bool list \<Rightarrow> (ib_err + unit) \<times> Inbox" where
  "inbox_Open M dir tmp failed faults =
     (let ib = \<lparr>ib_dir = dir, ib_tmp = tmp, ib_failed = failed, ib_work = [], ib_groups = Map.empty, ib_closed = False, ib_faults = faults\<rparr> in
      case ib_io ib of
        (False, ib) \<Rightarrow> (Inl IbIO, ib)
      | (True, ib) \<Rightarrow>
          (case ib_io ib of
             (False, ib) \<Rightarrow> (Inl IbIO, ib)
           | (True, ib) \<Rightarrow> (case ib_io ib of (False, ib) \<Rightarrow> (Inl IbIO, ib) | (True, ib) \<Rightarrow> inbox_recover M ib)))"

section \<open>Processing\<close>

text \<open>What becomes of an entry: \<open>Ingested\<close> with the keys of its objects, quarantined, gone before
  it was opened, or left in place because it could not be opened.\<close>

datatype outcome = Ingested "key list" | Quarantined | Missing | OpenFailed

definition open_entry :: "string \<Rightarrow> Inbox \<Rightarrow> (outcome + bytes) \<times> Inbox" where
  "open_entry name ib =
     (case ib_io ib of
        (False, ib) \<Rightarrow> (Inl OpenFailed, ib)
      | (True, ib) \<Rightarrow> (case map_of (ib_dir ib) name of None \<Rightarrow> (Inl Missing, ib) | Some b \<Rightarrow> (Inr b, ib)))"

text \<open>The objects of a pack as the writer receives them.\<close>

definition pack_seq :: "zstd \<Rightarrow> bytes \<Rightarrow> (ps_err + psObject) list" where
  "pack_seq Z body =
     (let (objs, err) = Reader_All Z body in
      map (\<lambda>obj. Inr \<lparr>ob_Key = Obj_Key obj, ob_Data = Some (Obj_Bytes obj), ob_Record = None\<rparr>) objs @
      (case err of None \<Rightarrow> [] | Some e \<Rightarrow> [Inl (PackErr e)]))"

definition ingest_entry :: "meta_cbor \<Rightarrow> (bytes \<Rightarrow> bytes) \<Rightarrow> xorfilter \<Rightarrow> zstd \<Rightarrow> nat \<Rightarrow> move list \<Rightarrow> bytes \<Rightarrow> store \<Rightarrow> outcome \<times> store" where
  "ingest_entry M H X Z procs moves b st =
     (case readMetaHeader M b of
        Inl e \<Rightarrow> (Quarantined, st)
      | Inr (_, body) \<Rightarrow>
          (case WriteParallel H X Z procs moves (pack_seq Z body) \<lparr>wo_Writers = 0, wo_BatchSize = 0, wo_Verify = True\<rparr> st of
             ((_, Some e), st) \<Rightarrow> (Quarantined, st)
           | ((_, None), st) \<Rightarrow> (Ingested (seq_keys (pack_seq Z body)), st)))"

definition finish_entry :: "string \<Rightarrow> outcome \<Rightarrow> Inbox \<Rightarrow> Inbox" where
  "finish_entry name r ib =
     (case r of
        Quarantined \<Rightarrow> quarantine name ib
      | Ingested ks \<Rightarrow> (case ib_io ib of (True, ib) \<Rightarrow> ib\<lparr>ib_dir := AList.delete name (ib_dir ib)\<rparr> | (False, ib) \<Rightarrow> ib)
      | _ \<Rightarrow> ib)"

definition inbox_process :: "meta_cbor \<Rightarrow> (bytes \<Rightarrow> bytes) \<Rightarrow> xorfilter \<Rightarrow> zstd \<Rightarrow> nat \<Rightarrow> move list \<Rightarrow> string \<Rightarrow> Inbox \<Rightarrow> store \<Rightarrow> outcome \<times> Inbox \<times> store" where
  "inbox_process M H X Z procs moves name ib st =
     (case open_entry name ib of
        (Inl r, ib) \<Rightarrow> (r, ib, st)
      | (Inr b, ib) \<Rightarrow> (let (r, st) = ingest_entry M H X Z procs moves b st in (r, finish_entry name r ib, st)))"

text \<open>The critical sections of the worker loop: taking an item, and counting it as processed.\<close>

definition take_item :: "Inbox \<Rightarrow> (workItem \<times> Inbox) option" where
  "take_item ib = (case ib_work ib of [] \<Rightarrow> None | item # work \<Rightarrow> Some (item, ib\<lparr>ib_work := work\<rparr>))"

definition count_done :: "key \<Rightarrow> Inbox \<Rightarrow> Inbox" where
  "count_done root ib =
     (let n = group_count root ib in
      if n = 0 then ib else if n = 1 then ib\<lparr>ib_groups := (ib_groups ib)(root := None)\<rparr> else ib\<lparr>ib_groups := (ib_groups ib)(root \<mapsto> n - 1)\<rparr>)"

section \<open>The goroutines\<close>

datatype commit_at = CCheck | CRename | CSync | CEnqueue

record commit =
  cm_tmp :: string
  cm_name :: string
  cm_root :: key
  cm_at :: commit_at

datatype ib_worker = WWait | WTook workItem | WOpen workItem bytes | WRead workItem outcome | WCount workItem | WGone

text \<open>\<open>iw_acked\<close> are the items whose commit got past its sync, or that recovery queued;
  \<open>iw_log\<close> records what became of an item.\<close>

record iworld =
  iw_ib :: Inbox
  iw_store :: store
  iw_commits :: "commit list"
  iw_workers :: "ib_worker list"
  iw_acked :: "workItem list"
  iw_log :: "(workItem \<times> outcome) list"

definition cm_item :: "commit \<Rightarrow> workItem" where
  "cm_item c = \<lparr>wi_name = cm_name c, wi_root = cm_root c\<rparr>"

definition commit_step :: "nat \<Rightarrow> iworld \<Rightarrow> iworld" where
  "commit_step i w =
     (let c = iw_commits w ! i; cs = iw_commits w; gone = take i cs @ drop (Suc i) cs in
      case cm_at c of
        CCheck \<Rightarrow>
          (case commit_check (cm_tmp c) (cm_name c) (iw_ib w) of
             (Inr True, ib) \<Rightarrow> w\<lparr>iw_ib := ib, iw_commits := cs[i := c\<lparr>cm_at := CRename\<rparr>]\<rparr>
           | (_, ib) \<Rightarrow> w\<lparr>iw_ib := ib, iw_commits := gone\<rparr>)
      | CRename \<Rightarrow>
          (case commit_rename (cm_tmp c) (cm_name c) (iw_ib w) of
             (Inr _, ib) \<Rightarrow> w\<lparr>iw_ib := ib, iw_commits := cs[i := c\<lparr>cm_at := CSync\<rparr>]\<rparr>
           | (Inl _, ib) \<Rightarrow> w\<lparr>iw_ib := ib, iw_commits := gone\<rparr>)
      | CSync \<Rightarrow>
          (case syncDir (iw_ib w) of
             (Inr _, ib) \<Rightarrow> w\<lparr>iw_ib := ib, iw_commits := cs[i := c\<lparr>cm_at := CEnqueue\<rparr>]\<rparr>
           | (Inl _, ib) \<Rightarrow> w\<lparr>iw_ib := ib, iw_commits := gone\<rparr>)
      | CEnqueue \<Rightarrow>
          w\<lparr>iw_ib := enqueue (cm_item c) (iw_ib w), iw_commits := gone, iw_acked := cm_item c # iw_acked w\<rparr>)"

definition set_iworker :: "nat \<Rightarrow> ib_worker \<Rightarrow> iworld \<Rightarrow> iworld" where
  "set_iworker i a w = w\<lparr>iw_workers := (iw_workers w)[i := a]\<rparr>"

definition ib_worker_step :: "meta_cbor \<Rightarrow> (bytes \<Rightarrow> bytes) \<Rightarrow> xorfilter \<Rightarrow> zstd \<Rightarrow> nat \<Rightarrow> move list \<Rightarrow> nat \<Rightarrow> iworld \<Rightarrow> iworld" where
  "ib_worker_step M H X Z procs moves i w =
     (case iw_workers w ! i of
        WWait \<Rightarrow>
          (case take_item (iw_ib w) of
             Some (item, ib) \<Rightarrow> set_iworker i (WTook item) (w\<lparr>iw_ib := ib\<rparr>)
           | None \<Rightarrow> if ib_closed (iw_ib w) then set_iworker i WGone w else w)
      | WTook item \<Rightarrow>
          (case open_entry (wi_name item) (iw_ib w) of
             (Inl r, ib) \<Rightarrow> set_iworker i (WCount item) (w\<lparr>iw_ib := ib, iw_log := (item, r) # iw_log w\<rparr>)
           | (Inr b, ib) \<Rightarrow> set_iworker i (WOpen item b) (w\<lparr>iw_ib := ib\<rparr>))
      | WOpen item b \<Rightarrow>
          (let (r, st) = ingest_entry M H X Z procs moves b (iw_store w) in set_iworker i (WRead item r) (w\<lparr>iw_store := st\<rparr>))
      | WRead item r \<Rightarrow>
          set_iworker i (WCount item) (w\<lparr>iw_ib := finish_entry (wi_name item) r (iw_ib w), iw_log := (item, r) # iw_log w\<rparr>)
      | WCount item \<Rightarrow> set_iworker i WWait (w\<lparr>iw_ib := count_done (wi_root item) (iw_ib w)\<rparr>)
      | WGone \<Rightarrow> w)"

text \<open>One step: a client stages, discards or starts to commit a file, a commit or a worker goes
  on, or the inbox is closed.\<close>

inductive ib_step :: "meta_cbor \<Rightarrow> (bytes \<Rightarrow> bytes) \<Rightarrow> xorfilter \<Rightarrow> zstd \<Rightarrow> nat \<Rightarrow> iworld \<Rightarrow> iworld \<Rightarrow> bool"
  for M H X Z procs where
  stage: "ib_step M H X Z procs w (w\<lparr>iw_ib := snd (Stage M H tmp part meta body rerr (iw_ib w))\<rparr>)"
| discard: "ib_step M H X Z procs w (w\<lparr>iw_ib := Discard tmp (iw_ib w)\<rparr>)"
| begin_commit: "ib_step M H X Z procs w
    (w\<lparr>iw_commits := iw_commits w @ [\<lparr>cm_tmp = tmp, cm_name = entry_name bodyHash, cm_root = root, cm_at = CCheck\<rparr>]\<rparr>)"
| commit: "i < length (iw_commits w) \<Longrightarrow> ib_step M H X Z procs w (commit_step i w)"
| work: "i < length (iw_workers w) \<Longrightarrow> ib_step M H X Z procs w (ib_worker_step M H X Z procs moves i w)"
| close: "ib_step M H X Z procs w (w\<lparr>iw_ib := inbox_Close (iw_ib w)\<rparr>)"

text \<open>The inbox right after \<open>Open\<close>: \<open>workers\<close> goroutines wait.\<close>

definition opened :: "nat \<Rightarrow> Inbox \<Rightarrow> store \<Rightarrow> iworld" where
  "opened workers ib st =
     \<lparr>iw_ib = ib, iw_store = st, iw_commits = [], iw_workers = replicate workers WWait, iw_acked = ib_work ib, iw_log = []\<rparr>"

end
