(* ===== verification/Amber_InboxSafe.thy ===== *)
theory Amber_InboxSafe
  imports Amber_Inbox "HOL-Library.Multiset"
begin

text \<open>
  The inbox's barrier. In every interleaving of commits and workers the group counts are the
  numbers of entries queued or in process (\<open>ib_inv\<close>), so a reference that waits for its root
  finds each of the root's entries dealt with.
\<close>

section \<open>Headers\<close>

definition meta_ok :: "meta_cbor \<Rightarrow> bool" where
  "meta_ok M \<longleftrightarrow> (\<forall>m. UnmarshalMeta M (MarshalMeta M m) = Some m \<and> length (MarshalMeta M m) < 2 ^ 32)"

lemma meta_header_roundtrip: "meta_ok M \<Longrightarrow> readMetaHeader M (writeMetaHeader M m @ body) = Inr (m, body)"
proof -
  assume m: "meta_ok M"
  let ?b = "MarshalMeta M m"
  have n: "unat (of_nat (length ?b) :: u32) = length ?b" using m by (simp add: meta_ok_def unat_of_nat)
  have l: "length (PutUint32 (of_nat (length ?b))) = 4" by simp
  have "take 4 (writeMetaHeader M m @ body) = PutUint32 (of_nat (length ?b))" "drop 4 (writeMetaHeader M m @ body) = ?b @ body"
    using l by (simp_all add: writeMetaHeader_def Let_def)
  then show ?thesis using m n l by (simp add: readMetaHeader_def Let_def meta_ok_def) (simp add: writeMetaHeader_def Let_def)
qed

section \<open>What the calls keep\<close>

lemma ib_ioD: "ib_io ib = (b, ib') \<Longrightarrow> ib_dir ib' = ib_dir ib \<and> ib_tmp ib' = ib_tmp ib \<and> ib_failed ib' = ib_failed ib \<and>
    ib_work ib' = ib_work ib \<and> ib_groups ib' = ib_groups ib \<and> ib_closed ib' = ib_closed ib"
  by (auto simp: ib_io_def split: list.splits)

definition same_queue :: "Inbox \<Rightarrow> Inbox \<Rightarrow> bool" where
  "same_queue ib ib' \<longleftrightarrow> ib_work ib' = ib_work ib \<and> ib_groups ib' = ib_groups ib"

lemma same_queue_refl: "same_queue ib ib"
  by (simp add: same_queue_def)

lemma Discard_keeps: "same_queue ib (Discard tmp ib)" "ib_dir (Discard tmp ib) = ib_dir ib"
  by (auto simp: Discard_def same_queue_def dest!: ib_ioD split: prod.splits bool.splits)

lemma stage_fail_keeps: "same_queue ib (snd (stage_fail tmp part ib))" "ib_dir (snd (stage_fail tmp part ib)) = ib_dir ib"
  using Discard_keeps [where ib = "ib\<lparr>ib_tmp := AList.update tmp part (ib_tmp ib)\<rparr>" and tmp = tmp] by (simp_all add: stage_fail_def same_queue_def)

lemma Stage_keeps: "same_queue ib (snd (Stage M H tmp part meta body rerr ib)) \<and> ib_dir (snd (Stage M H tmp part meta body rerr ib)) = ib_dir ib"
proof -
  have f: "same_queue ib (snd (stage_fail tmp part ib')) \<and> ib_dir (snd (stage_fail tmp part ib')) = ib_dir ib"
    if "same_queue ib ib'" "ib_dir ib' = ib_dir ib" for ib'
    using stage_fail_keeps [where ib = ib' and tmp = tmp and part = part] that by (simp add: same_queue_def)
  have io: "same_queue ib ib2 \<and> ib_dir ib2 = ib_dir ib" if "ib_io ib1 = (b, ib2)" "same_queue ib ib1" "ib_dir ib1 = ib_dir ib" for ib1 ib2 b
    using that by (auto simp: same_queue_def dest!: ib_ioD)
  obtain b1 i1 b2 i2 b3 i3 b4 i4 b5 i5 where p: "ib_io ib = (b1, i1)" "ib_io i1 = (b2, i2)" "ib_io i2 = (b3, i3)" "ib_io i3 = (b4, i4)" "ib_io i4 = (b5, i5)"
    by (metis prod.exhaust)
  have k: "same_queue ib i1 \<and> ib_dir i1 = ib_dir ib" "same_queue ib i2 \<and> ib_dir i2 = ib_dir ib" "same_queue ib i3 \<and> ib_dir i3 = ib_dir ib"
    "same_queue ib i4 \<and> ib_dir i4 = ib_dir ib" "same_queue ib i5 \<and> ib_dir i5 = ib_dir ib"
    using io [OF p(1)] io [OF p(2)] io [OF p(3)] io [OF p(4)] io [OF p(5)] same_queue_refl [of ib] by blast+
  show ?thesis using k f [of i2] f [of i3] f [of i4] f [of i5]
    by (simp add: Stage_def p split: bool.split) (simp add: same_queue_def)
qed

lemma check_keeps: "commit_check tmp name ib = (r, ib') \<Longrightarrow> same_queue ib ib' \<and> ib_dir ib' = ib_dir ib"
  using Discard_keeps [where tmp = tmp]
  by (auto simp: commit_check_def same_queue_def dest!: ib_ioD split: prod.splits bool.splits if_splits)

lemma rename_keeps: "commit_rename tmp name ib = (r, ib') \<Longrightarrow> same_queue ib ib' \<and>
    (\<forall>n. map_of (ib_dir ib) n \<noteq> None \<longrightarrow> map_of (ib_dir ib') n \<noteq> None) \<and> (\<forall>u. r = Inr u \<longrightarrow> map_of (ib_dir ib') name \<noteq> None)"
  by (auto simp: commit_rename_def same_queue_def update_conv' dest!: ib_ioD split: prod.splits bool.splits option.splits if_splits)

lemma sync_keeps: "syncDir ib = (r, ib') \<Longrightarrow> same_queue ib ib' \<and> ib_dir ib' = ib_dir ib"
  by (auto simp: syncDir_def same_queue_def dest!: ib_ioD split: prod.splits bool.splits)

lemma open_entry_keeps: "open_entry name ib = (r, ib') \<Longrightarrow> same_queue ib ib' \<and> ib_dir ib' = ib_dir ib \<and>
    (\<forall>o'. r = Inl o' \<longrightarrow> o' = OpenFailed \<or> (o' = Missing \<and> map_of (ib_dir ib) name = None))"
  by (auto simp: open_entry_def same_queue_def dest!: ib_ioD split: prod.splits bool.splits option.splits)

lemma quarantine_keeps: "same_queue ib (quarantine name ib) \<and> (\<forall>n. n \<noteq> name \<longrightarrow> map_of (ib_dir (quarantine name ib)) n = map_of (ib_dir ib) n)"
  by (auto simp: quarantine_def same_queue_def delete_conv' dest!: ib_ioD split: prod.splits bool.splits option.splits)

definition dealt_with :: "outcome \<Rightarrow> bool" where
  "dealt_with r \<longleftrightarrow> r = Quarantined \<or> (\<exists>ks. r = Ingested ks)"

lemma finish_keeps: "same_queue ib (finish_entry name r ib) \<and>
    (\<forall>n. n \<noteq> name \<or> \<not> dealt_with r \<longrightarrow> map_of (ib_dir (finish_entry name r ib)) n = map_of (ib_dir ib) n)"
proof (cases r)
  case Quarantined
  then show ?thesis using quarantine_keeps [of ib name] by (simp add: finish_entry_def dealt_with_def)
next
  case (Ingested ks)
  then show ?thesis
    by (auto simp: finish_entry_def dealt_with_def same_queue_def delete_conv' dest!: ib_ioD split: prod.splits bool.splits)
qed (simp_all add: finish_entry_def same_queue_def)

section \<open>The invariant\<close>

text \<open>The item a worker has taken, until its count; and until its fate is recorded.\<close>

fun busy :: "ib_worker \<Rightarrow> workItem list" where
  "busy (WTook it) = [it]"
| "busy (WOpen it b) = [it]"
| "busy (WRead it r) = [it]"
| "busy (WCount it) = [it]"
| "busy _ = []"

fun unlogged :: "ib_worker \<Rightarrow> workItem list" where
  "unlogged (WCount it) = []"
| "unlogged a = busy a"

definition all_of :: "(ib_worker \<Rightarrow> workItem list) \<Rightarrow> ib_worker list \<Rightarrow> workItem multiset" where
  "all_of f ws = mset (concat (map f ws))"

lemma all_of_update: "i < length ws \<Longrightarrow> all_of f (ws[i := a]) + mset (f (ws ! i)) = all_of f ws + mset (f a)"
proof (induction ws arbitrary: i)
  case (Cons w ws)
  then show ?case by (cases i) (auto simp: all_of_def ac_simps)
qed simp

definition in_process :: "iworld \<Rightarrow> workItem multiset" where
  "in_process w = mset (ib_work (iw_ib w)) + all_of busy (iw_workers w)"

definition safe_name :: "iworld \<Rightarrow> string \<Rightarrow> bool" where
  "safe_name w n \<longleftrightarrow> map_of (ib_dir (iw_ib w)) n \<noteq> None \<or> (\<exists>it r. (it, r) \<in> set (iw_log w) \<and> wi_name it = n \<and> dealt_with r)"

definition counts_ok :: "iworld \<Rightarrow> bool" where
  "counts_ok w \<longleftrightarrow> (\<forall>root. group_count root (iw_ib w) = size (filter_mset (\<lambda>it. wi_root it = root) (in_process w)))"

definition ledger_ok :: "iworld \<Rightarrow> bool" where
  "ledger_ok w \<longleftrightarrow> mset (iw_acked w) = mset (ib_work (iw_ib w)) + all_of unlogged (iw_workers w) + mset (map fst (iw_log w))"

definition names_safe :: "iworld \<Rightarrow> bool" where
  "names_safe w \<longleftrightarrow> (\<forall>it \<in> set (iw_acked w). safe_name w (wi_name it)) \<and>
     (\<forall>c \<in> set (iw_commits w). cm_at c = CSync \<or> cm_at c = CEnqueue \<longrightarrow> safe_name w (cm_name c)) \<and>
     (\<forall>it r. (it, r) \<in> set (iw_log w) \<and> r = Missing \<longrightarrow> (\<exists>it' r'. (it', r') \<in> set (iw_log w) \<and> wi_name it' = wi_name it \<and> dealt_with r'))"

definition kept_keys :: "iworld \<Rightarrow> bytes list \<Rightarrow> bool" where
  "kept_keys w L \<longleftrightarrow> (\<forall>it ks. (it, Ingested ks) \<in> set (iw_log w) \<or> WRead it (Ingested ks) \<in> set (iw_workers w) \<longrightarrow>
     (\<forall>k \<in> set ks. canonical k \<and> k \<in> rec_key ` set L)) \<and>
     (\<forall>it r. WRead it r \<in> set (iw_workers w) \<longrightarrow> dealt_with r)"

definition stored_ok :: "xorfilter \<Rightarrow> iworld \<Rightarrow> bool" where
  "stored_ok X w \<longleftrightarrow> \<not> st_closed (iw_store w) \<and> (\<exists>L. Amber_StoreLog.holds X (iw_store w) L \<and> kept_keys w L)"

definition ib_inv :: "xorfilter \<Rightarrow> iworld \<Rightarrow> bool" where
  "ib_inv X w \<longleftrightarrow> counts_ok w \<and> ledger_ok w \<and> names_safe w \<and> stored_ok X w"

lemma group_count_enqueue:
  "group_count root (enqueue it ib) = group_count root ib + (if wi_root it = root then 1 else 0)"
  by (simp add: enqueue_def group_count_def)

lemma group_count_done: "group_count root (count_done r ib) = (if r = root then group_count root ib - 1 else group_count root ib)"
  by (auto simp: count_done_def Let_def group_count_def split: option.split)

lemma count_done_keeps: "ib_work (count_done r ib) = ib_work ib" "ib_dir (count_done r ib) = ib_dir ib"
  by (simp_all add: count_done_def Let_def)

lemma enqueue_keeps: "ib_work (enqueue it ib) = ib_work ib @ [it]" "ib_dir (enqueue it ib) = ib_dir ib"
  by (simp_all add: enqueue_def)

lemma same_queue_counts: "same_queue ib ib' \<Longrightarrow> group_count root ib' = group_count root ib \<and> ib_work ib' = ib_work ib"
  by (simp add: same_queue_def group_count_def)

text \<open>Steps that leave the queue alone.\<close>

lemma quiet_inv:
  assumes "ib_inv X w" and "same_queue (iw_ib w) ib'" and "\<And>n. map_of (ib_dir (iw_ib w)) n \<noteq> None \<Longrightarrow> map_of (ib_dir ib') n \<noteq> None"
    and "\<And>c. c \<in> set cs \<Longrightarrow> cm_at c = CSync \<or> cm_at c = CEnqueue \<Longrightarrow> safe_name (w\<lparr>iw_ib := ib'\<rparr>) (cm_name c)"
  shows "ib_inv X (w\<lparr>iw_ib := ib', iw_commits := cs\<rparr>)"
proof -
  let ?w = "w\<lparr>iw_ib := ib', iw_commits := cs\<rparr>"
  have s: "safe_name w n \<Longrightarrow> safe_name ?w n" for n using assms(3) by (auto simp: safe_name_def)
  have c: "safe_name ?w (cm_name x)" if "x \<in> set cs" "cm_at x = CSync \<or> cm_at x = CEnqueue" for x
    using assms(4) [OF that] by (simp add: safe_name_def)
  have q: "ib_work ib' = ib_work (iw_ib w)" "group_count root ib' = group_count root (iw_ib w)" for root
    using assms(2) same_queue_counts by blast+
  have "counts_ok ?w" "ledger_ok ?w" "stored_ok X ?w"
    using assms(1) by (simp_all add: ib_inv_def counts_ok_def ledger_ok_def stored_ok_def kept_keys_def in_process_def q)
  moreover have "names_safe ?w" using assms(1) s c unfolding ib_inv_def names_safe_def by simp
  ultimately show ?thesis by (simp add: ib_inv_def)
qed

lemma set_drop_nth: "x \<in> set (take i xs @ drop (Suc i) xs) \<Longrightarrow> x \<in> set xs"
  by (auto dest: in_set_takeD in_set_dropD)

lemma commit_step_inv:
  assumes "ib_inv X w" and "i < length (iw_commits w)"
  shows "ib_inv X (commit_step i w)"
proof -
  let ?c = "iw_commits w ! i" and ?cs = "iw_commits w"
  let ?gone = "take i ?cs @ drop (Suc i) ?cs"
  have old: "safe_name w (cm_name c)" if "c \<in> set ?cs" "cm_at c = CSync \<or> cm_at c = CEnqueue" for c
    using assms(1) that by (auto simp: ib_inv_def names_safe_def)
  have mono: "safe_name (w\<lparr>iw_ib := ib'\<rparr>) n"
    if "safe_name w n" "\<And>n. map_of (ib_dir (iw_ib w)) n \<noteq> None \<Longrightarrow> map_of (ib_dir ib') n \<noteq> None" for ib' n
    using that by (auto simp: safe_name_def)
  have drop: "ib_inv X (w\<lparr>iw_ib := ib', iw_commits := ?gone\<rparr>)"
    if "same_queue (iw_ib w) ib'" "\<And>n. map_of (ib_dir (iw_ib w)) n \<noteq> None \<Longrightarrow> map_of (ib_dir ib') n \<noteq> None" for ib'
  proof (rule quiet_inv [OF assms(1) that])
    fix c
    assume c: "c \<in> set ?gone" "cm_at c = CSync \<or> cm_at c = CEnqueue"
    show "safe_name (w\<lparr>iw_ib := ib'\<rparr>) (cm_name c)" by (rule mono [OF old [OF set_drop_nth [OF c(1)] c(2)] that(2)])
  qed
  have next_at: "ib_inv X (w\<lparr>iw_ib := ib', iw_commits := ?cs[i := ?c\<lparr>cm_at := a\<rparr>]\<rparr>)"
    if "same_queue (iw_ib w) ib'" "\<And>n. map_of (ib_dir (iw_ib w)) n \<noteq> None \<Longrightarrow> map_of (ib_dir ib') n \<noteq> None"
      "a = CSync \<or> a = CEnqueue \<Longrightarrow> safe_name (w\<lparr>iw_ib := ib'\<rparr>) (cm_name ?c)" for ib' a
  proof (rule quiet_inv [OF assms(1) that(1,2)])
    fix c
    assume c: "c \<in> set (?cs[i := ?c\<lparr>cm_at := a\<rparr>])" "cm_at c = CSync \<or> cm_at c = CEnqueue"
    then have "c = ?c\<lparr>cm_at := a\<rparr> \<or> c \<in> set ?cs" using set_update_subset_insert [of ?cs i "?c\<lparr>cm_at := a\<rparr>"] by blast
    then show "safe_name (w\<lparr>iw_ib := ib'\<rparr>) (cm_name c)"
    proof
      assume "c = ?c\<lparr>cm_at := a\<rparr>"
      then show ?thesis using c(2) that(3) by simp
    next
      assume "c \<in> set ?cs"
      then show ?thesis using mono [OF old [OF _ c(2)] that(2)] by blast
    qed
  qed
  show ?thesis
  proof (cases "cm_at ?c")
    case CCheck
    obtain r ib' where r: "commit_check (cm_tmp ?c) (cm_name ?c) (iw_ib w) = (r, ib')" by force
    then show ?thesis using check_keeps [OF r] drop [of ib'] next_at [of ib' CRename]
      by (auto simp: commit_step_def Let_def CCheck split: sum.split bool.split)
  next
    case CRename
    obtain r ib' where r: "commit_rename (cm_tmp ?c) (cm_name ?c) (iw_ib w) = (r, ib')" by force
    note k = rename_keeps [OF r]
    show ?thesis
    proof (cases r)
      case (Inl e)
      then show ?thesis using r k drop [of ib'] by (simp add: commit_step_def Let_def CRename)
    next
      case (Inr u)
      then have "safe_name (w\<lparr>iw_ib := ib'\<rparr>) (cm_name ?c)" using k by (simp add: safe_name_def)
      then show ?thesis using r k Inr next_at [of ib' CSync] by (simp add: commit_step_def Let_def CRename)
    qed
  next
    case CSync
    obtain r ib' where r: "syncDir (iw_ib w) = (r, ib')" by force
    note k = sync_keeps [OF r]
    have "safe_name w (cm_name ?c)" using old assms(2) CSync by simp
    then have "safe_name (w\<lparr>iw_ib := ib'\<rparr>) (cm_name ?c)" using k by (simp add: safe_name_def)
    then show ?thesis using r k drop [of ib'] next_at [of ib' CEnqueue]
      by (simp add: commit_step_def Let_def CSync split: sum.split)
  next
    case CEnqueue
    let ?it = "cm_item ?c"
    let ?w = "w\<lparr>iw_ib := enqueue ?it (iw_ib w), iw_commits := ?gone, iw_acked := ?it # iw_acked w\<rparr>"
    have w: "commit_step i w = ?w" by (simp add: commit_step_def Let_def CEnqueue)
    have sn: "safe_name ?w n = safe_name w n" for n by (simp add: safe_name_def enqueue_keeps)
    have "safe_name w (wi_name ?it)" using old assms(2) CEnqueue by (simp add: cm_item_def)
    then have "names_safe ?w" using assms(1) set_drop_nth [of _ i ?cs] unfolding ib_inv_def names_safe_def sn by auto
    moreover have "counts_ok ?w"
      using assms(1) by (auto simp: ib_inv_def counts_ok_def in_process_def group_count_enqueue enqueue_keeps)
    moreover have "ledger_ok ?w" "stored_ok X ?w"
      using assms(1) by (simp_all add: ib_inv_def ledger_ok_def stored_ok_def kept_keys_def enqueue_keeps)
    ultimately show ?thesis unfolding w ib_inv_def by blast
  qed
qed

section \<open>Workers\<close>

lemma read_chunk_key: "read_chunk br = Inr (raw, rest) \<Longrightarrow> canonical (Rec_Key (Raw_Record raw))"
  by (auto simp: read_chunk_def Let_def split: if_splits sum.splits dest!: ParseRecord_ok(4))

lemma read_records_keys: "raw \<in> set (fst (read_records br)) \<Longrightarrow> canonical (Rec_Key (Raw_Record raw))"
proof (induction br rule: read_records.induct)
  case (1 br)
  then show ?case
    by (subst (asm) (2) read_records.simps)
      (auto split: list.splits if_splits sum.splits prod.splits dest: read_chunk_key)
qed

lemma decode_raws_keys: "obj \<in> set (fst (decode_raws Z raws err)) \<Longrightarrow> \<exists>raw \<in> set raws. Obj_Key obj = Rec_Key (Raw_Record raw)"
proof (induction raws)
  case (Cons raw raws)
  then show ?case by (auto split: sum.splits prod.splits)
qed simp

lemma pack_seq_keys: "k \<in> set (seq_keys (pack_seq Z body)) \<Longrightarrow> canonical k"
proof -
  assume "k \<in> set (seq_keys (pack_seq Z body))"
  then obtain obj where obj: "obj \<in> set (fst (Reader_All Z body))" "k = Obj_Key obj"
    by (cases "Reader_All Z body") (auto simp: seq_keys_def pack_seq_def split: option.splits)
  then obtain raw where "raw \<in> set (fst (Reader_Records body))" "k = Rec_Key (Raw_Record raw)"
    using decode_raws_keys by (fastforce simp: Reader_All_def split: prod.splits)
  then show ?thesis using read_records_keys by (auto simp: Reader_Records_def split: if_splits)
qed

lemma ingest_entry_effect:
  assumes "ingest_entry M H X Z procs moves b st = (r, st')" and "fuse_ok X" and "0 < procs"
    and "Amber_StoreLog.holds X st L" and "\<not> st_closed st"
  shows "\<exists>new. Amber_StoreLog.holds X st' (L @ new) \<and> \<not> st_closed st' \<and> dealt_with r \<and>
     (\<forall>ks. r = Ingested ks \<longrightarrow> (\<forall>k \<in> set ks. canonical k \<and> k \<in> rec_key ` set (L @ new)))"
proof (cases "readMetaHeader M b")
  case (Inl e)
  then have "st' = st" "r = Quarantined" using assms(1) by (simp_all add: ingest_entry_def)
  then show ?thesis using assms(4,5) by (intro exI [of _ "[]"]) (simp add: dealt_with_def)
next
  case (Inr mb)
  obtain m body where mb: "mb = (m, body)" by force
  obtain stats e s' where w: "WriteParallel H X Z procs moves (pack_seq Z body) \<lparr>wo_Writers = 0, wo_BatchSize = 0, wo_Verify = True\<rparr> st = ((stats, e), s')"
    by (metis prod.exhaust)
  have r: "st' = s'" "r = (case e of Some _ \<Rightarrow> Quarantined | None \<Rightarrow> Ingested (seq_keys (pack_seq Z body)))"
    using assms(1) by (cases e; simp add: ingest_entry_def Inr mb w)+
  have canon: "\<forall>k \<in> set (seq_keys (pack_seq Z body)). canonical k" using pack_seq_keys by blast
  from WriteParallel_log [OF assms(2,4,5) canon assms(3) w] obtain new obs where
    n: "Amber_StoreLog.holds X s' (L @ new)" "observed st obs s'"
      "e = None \<longrightarrow> (\<forall>k \<in> set (seq_keys (pack_seq Z body)). Has X s' k = Inr True)" by blast
  have op: "\<not> st_closed s'" using n(2) assms(5) by (simp add: observed_def)
  have "k \<in> rec_key ` set (L @ new)" if "e = None" "k \<in> set (seq_keys (pack_seq Z body))" for k
    using holds_reads(1) [OF n(1) op, of k] n(3) that canon by (auto simp: canonical_def dom_log_map)
  then show ?thesis using n(1) op canon r by (intro exI [of _ new]) (auto simp: dealt_with_def split: option.splits)
qed

lemma kept_keys_more: "kept_keys w L \<Longrightarrow> kept_keys w (L @ new)"
proof -
  assume k: "kept_keys w L"
  have "rec_key ` set L \<subseteq> rec_key ` set (L @ new)" by auto
  then show ?thesis using k unfolding kept_keys_def by (meson subsetD)
qed

text \<open>A step of one worker that leaves the commits and what was acknowledged alone.\<close>

lemma worker_inv:
  assumes "ib_inv X w" and i: "i < length (iw_workers w)"
    and w': "w' = w\<lparr>iw_ib := ib', iw_store := st', iw_workers := (iw_workers w)[i := a], iw_log := new @ iw_log w\<rparr>"
    and counts: "\<And>root. group_count root ib' + size (filter_mset (\<lambda>it. wi_root it = root) (mset (ib_work (iw_ib w)) + mset (busy (iw_workers w ! i)))) =
        group_count root (iw_ib w) + size (filter_mset (\<lambda>it. wi_root it = root) (mset (ib_work ib') + mset (busy a)))"
    and ledger: "mset (ib_work (iw_ib w)) + mset (unlogged (iw_workers w ! i)) = mset (ib_work ib') + mset (unlogged a) + mset (map fst new)"
    and names: "\<And>n. safe_name w n \<Longrightarrow> safe_name w' n"
    and gone: "\<And>it. (it, Missing) \<in> set new \<Longrightarrow> \<exists>it' r'. (it', r') \<in> set (iw_log w) \<and> wi_name it' = wi_name it \<and> dealt_with r'"
    and store: "stored_ok X w'"
  shows "ib_inv X w'"
proof -
  have f: "size (filter_mset P (all_of busy ((iw_workers w)[i := a]))) + size (filter_mset P (mset (busy (iw_workers w ! i)))) =
      size (filter_mset P (all_of busy (iw_workers w))) + size (filter_mset P (mset (busy a)))" for P
    using arg_cong [OF all_of_update [OF i, of busy a], of "\<lambda>m. size (filter_mset P m)"] by simp
  have "counts_ok w'" unfolding counts_ok_def
  proof
    fix root
    have "group_count root (iw_ib w) = size (filter_mset (\<lambda>it. wi_root it = root) (in_process w))"
      using assms(1) by (simp add: ib_inv_def counts_ok_def)
    then show "group_count root (iw_ib w') = size (filter_mset (\<lambda>it. wi_root it = root) (in_process w'))"
      using counts [of root] f [of "\<lambda>it. wi_root it = root"] by (simp add: w' in_process_def)
  qed
  moreover have "ledger_ok w'"
  proof -
    have l: "mset (iw_acked w) = mset (ib_work (iw_ib w)) + all_of unlogged (iw_workers w) + mset (map fst (iw_log w))"
      using assms(1) by (simp add: ib_inv_def ledger_ok_def)
    have "mset (iw_acked w) + mset (unlogged (iw_workers w ! i)) =
        (mset (ib_work ib') + all_of unlogged ((iw_workers w)[i := a]) + mset (map fst (new @ iw_log w))) + mset (unlogged (iw_workers w ! i))"
    proof -
      have "mset (iw_acked w) + mset (unlogged (iw_workers w ! i)) =
          (mset (ib_work (iw_ib w)) + mset (unlogged (iw_workers w ! i))) + all_of unlogged (iw_workers w) + mset (map fst (iw_log w))"
        by (simp add: l ac_simps)
      also have "\<dots> = mset (ib_work ib') + mset (map fst new) + (all_of unlogged (iw_workers w) + mset (unlogged a)) + mset (map fst (iw_log w))"
        unfolding ledger by (simp add: ac_simps)
      also have "\<dots> = mset (ib_work ib') + mset (map fst new) + (all_of unlogged ((iw_workers w)[i := a]) + mset (unlogged (iw_workers w ! i))) + mset (map fst (iw_log w))"
        unfolding all_of_update [OF i, of unlogged a] by simp
      finally show ?thesis by (simp add: ac_simps)
    qed
    then show ?thesis unfolding ledger_ok_def w' by simp
  qed
  moreover have "names_safe w'"
  proof -
    note n = assms(1) [unfolded ib_inv_def names_safe_def]
    have "\<exists>it' r'. (it', r') \<in> set (iw_log w') \<and> wi_name it' = wi_name it \<and> dealt_with r'" if "(it, Missing) \<in> set (iw_log w')" for it
    proof (cases "(it, Missing) \<in> set new")
      case True
      then show ?thesis using gone [OF True] by (auto simp: w')
    next
      case False
      then have "(it, Missing) \<in> set (iw_log w)" using that by (simp add: w')
      then show ?thesis using n by (fastforce simp: w')
    qed
    then show ?thesis unfolding names_safe_def using n names by (auto simp: w')
  qed
  ultimately show ?thesis using store by (simp add: ib_inv_def)
qed

lemma stored_step:
  assumes "stored_ok X w" and i: "i < length (iw_workers w)"
    and "w' = w\<lparr>iw_ib := ib', iw_workers := (iw_workers w)[i := a], iw_log := new @ iw_log w\<rparr>"
    and "\<And>it r. a \<noteq> WRead it r" and "\<And>it ks. (it, Ingested ks) \<in> set new \<Longrightarrow> iw_workers w ! i = WRead it (Ingested ks)"
  shows "stored_ok X w'"
proof -
  have 1: "WRead it r \<in> set (iw_workers w)" if "WRead it r \<in> set ((iw_workers w)[i := a])" for it r
    using that assms(4) set_update_subset_insert [of "iw_workers w" i a] by blast
  have 2: "WRead it (Ingested ks) \<in> set (iw_workers w)" if "(it, Ingested ks) \<in> set new" for it ks
    using assms(5) [OF that] i nth_mem [OF i] by simp
  have "kept_keys w' L" if "kept_keys w L" for L
    unfolding kept_keys_def
  proof (intro conjI allI impI)
    fix it ks
    assume "(it, Ingested ks) \<in> set (iw_log w') \<or> WRead it (Ingested ks) \<in> set (iw_workers w')"
    then have "(it, Ingested ks) \<in> set (iw_log w) \<or> WRead it (Ingested ks) \<in> set (iw_workers w)"
      using 1 2 unfolding assms(3) by auto
    then show "\<forall>k \<in> set ks. canonical k \<and> k \<in> rec_key ` set L" using that unfolding kept_keys_def by blast
  next
    fix it r
    assume "WRead it r \<in> set (iw_workers w')"
    then have "WRead it r \<in> set (iw_workers w)" using 1 unfolding assms(3) by simp
    then show "dealt_with r" using that unfolding kept_keys_def by blast
  qed
  then show ?thesis using assms(1) unfolding stored_ok_def assms(3) by auto
qed

lemma set_iworker_simps: "set_iworker i a w = w\<lparr>iw_workers := (iw_workers w)[i := a]\<rparr>"
  by (simp add: set_iworker_def)

lemma acked_item: "ib_inv X w \<Longrightarrow> i < length (iw_workers w) \<Longrightarrow> unlogged (iw_workers w ! i) = [it] \<Longrightarrow> safe_name w (wi_name it)"
proof -
  assume inv: "ib_inv X w" and i: "i < length (iw_workers w)" and u: "unlogged (iw_workers w ! i) = [it]"
  have "it \<in> set (concat (map unlogged (iw_workers w)))" using u nth_mem [OF i] by force
  then have "it \<in># mset (iw_acked w)" using inv by (simp add: ib_inv_def ledger_ok_def all_of_def)
  then show ?thesis using inv by (simp add: ib_inv_def names_safe_def)
qed

lemma worker_step_inv:
  assumes "ib_inv X w" and "i < length (iw_workers w)" and "fuse_ok X" and "0 < procs"
  shows "ib_inv X (ib_worker_step M H X Z procs moves i w)"
proof -
  let ?a = "iw_workers w ! i" and ?w' = "ib_worker_step M H X Z procs moves i w"
  have st: "stored_ok X w" using assms(1) by (simp add: ib_inv_def)
  note step = worker_inv [OF assms(1,2)] and keep = stored_step [OF st assms(2)]
  show ?thesis
  proof (cases ?a)
    case WWait
    show ?thesis
    proof (cases "ib_work (iw_ib w)")
      case Nil
      have w': "?w' = (if ib_closed (iw_ib w) then w\<lparr>iw_ib := iw_ib w, iw_store := iw_store w, iw_workers := (iw_workers w)[i := WGone], iw_log := [] @ iw_log w\<rparr> else w)"
        by (simp add: ib_worker_step_def WWait take_item_def Nil set_iworker_simps)
      have "ib_inv X (w\<lparr>iw_ib := iw_ib w, iw_store := iw_store w, iw_workers := (iw_workers w)[i := WGone], iw_log := [] @ iw_log w\<rparr>)"
        (is "ib_inv X ?w")
      proof (rule step [OF refl])
        show "stored_ok X ?w" by (rule keep [where a = WGone and new = "[]" and ib' = "iw_ib w"]) simp_all
      qed (simp_all add: WWait safe_name_def)
      then show ?thesis using w' assms(1) by simp
    next
      case (Cons item work)
      let ?ib = "(iw_ib w)\<lparr>ib_work := work\<rparr>"
      have w': "?w' = w\<lparr>iw_ib := ?ib, iw_store := iw_store w, iw_workers := (iw_workers w)[i := WTook item], iw_log := [] @ iw_log w\<rparr>"
        by (simp add: ib_worker_step_def WWait take_item_def Cons set_iworker_simps)
      show ?thesis
      proof (rule step [OF w'])
        show "stored_ok X ?w'" by (intro keep [where a = "WTook item" and new = "[]" and ib' = ?ib]) (simp_all add: w')
      qed (simp_all add: WWait w' Cons group_count_def safe_name_def)
    qed
  next
    case (WTook item)
    obtain r ib' where o: "open_entry (wi_name item) (iw_ib w) = (r, ib')" by force
    note k = open_entry_keeps [OF o] and q = same_queue_counts [of "iw_ib w" ib']
    show ?thesis
    proof (cases r)
      case (Inl rr)
      have w': "?w' = w\<lparr>iw_ib := ib', iw_store := iw_store w, iw_workers := (iw_workers w)[i := WCount item], iw_log := [(item, rr)] @ iw_log w\<rparr>"
        by (simp add: ib_worker_step_def WTook o Inl set_iworker_simps)
      have rr: "rr = OpenFailed \<or> rr = Missing" "rr = Missing \<Longrightarrow> map_of (ib_dir (iw_ib w)) (wi_name item) = None" using k Inl by auto
      have sn: "safe_name w (wi_name item)" by (rule acked_item [OF assms(1,2)]) (simp add: WTook)
      show ?thesis
      proof (rule step [OF w'])
        show "stored_ok X ?w'" using rr by (intro keep [where a = "WCount item" and new = "[(item, rr)]" and ib' = ib']) (auto simp: w')
        show "\<exists>it' r'. (it', r') \<in> set (iw_log w) \<and> wi_name it' = wi_name it \<and> dealt_with r'" if "(it, Missing) \<in> set [(item, rr)]" for it
          using that sn rr(2) by (auto simp: safe_name_def)
        show "safe_name ?w' n" if "safe_name w n" for n using that k by (auto simp: w' safe_name_def)
      qed (use k q in \<open>simp_all add: WTook\<close>)
    next
      case (Inr b)
      have w': "?w' = w\<lparr>iw_ib := ib', iw_store := iw_store w, iw_workers := (iw_workers w)[i := WOpen item b], iw_log := [] @ iw_log w\<rparr>"
        by (simp add: ib_worker_step_def WTook o Inr set_iworker_simps)
      show ?thesis
      proof (rule step [OF w'])
        show "stored_ok X ?w'" by (intro keep [where a = "WOpen item b" and new = "[]" and ib' = ib']) (simp_all add: w')
        show "safe_name ?w' n" if "safe_name w n" for n using that k by (auto simp: w' safe_name_def)
      qed (use k q in \<open>simp_all add: WTook\<close>)
    qed
  next
    case (WOpen item b)
    obtain r st' where o: "ingest_entry M H X Z procs moves b (iw_store w) = (r, st')" by force
    have w': "?w' = w\<lparr>iw_ib := iw_ib w, iw_store := st', iw_workers := (iw_workers w)[i := WRead item r], iw_log := [] @ iw_log w\<rparr>"
      by (simp add: ib_worker_step_def WOpen o set_iworker_simps)
    obtain L where L: "Amber_StoreLog.holds X (iw_store w) L" "kept_keys w L" "\<not> st_closed (iw_store w)" using st by (auto simp: stored_ok_def)
    from ingest_entry_effect [OF o assms(3,4) L(1,3)] obtain new where
      n: "Amber_StoreLog.holds X st' (L @ new)" "\<not> st_closed st'" "dealt_with r" "\<forall>ks. r = Ingested ks \<longrightarrow> (\<forall>k \<in> set ks. canonical k \<and> k \<in> rec_key ` set (L @ new))" by blast
    have "kept_keys ?w' (L @ new)"
    proof -
      have "\<forall>k \<in> set ks. canonical k \<and> k \<in> rec_key ` set (L @ new)"
        if "(it, Ingested ks) \<in> set (iw_log w) \<or> WRead it (Ingested ks) \<in> set ((iw_workers w)[i := WRead item r])" for it ks
      proof (cases "WRead it (Ingested ks) = WRead item r")
        case False
        then have "(it, Ingested ks) \<in> set (iw_log w) \<or> WRead it (Ingested ks) \<in> set (iw_workers w)"
          using that set_update_subset_insert [of "iw_workers w" i "WRead item r"] by blast
        then show ?thesis using kept_keys_more [OF L(2), of new] unfolding kept_keys_def by blast
      qed (use n(4) in blast)
      moreover have "dealt_with r2" if "WRead it r2 \<in> set ((iw_workers w)[i := WRead item r])" for it r2
        using that n(3) L(2) set_update_subset_insert [of "iw_workers w" i "WRead item r"] unfolding kept_keys_def by blast
      ultimately show ?thesis unfolding kept_keys_def w' by simp
    qed
    then have "stored_ok X ?w'" using n(1,2) unfolding stored_ok_def by (auto simp: w')
    then show ?thesis by (intro step [OF w']) (simp_all add: WOpen w' safe_name_def)
  next
    case (WRead item r)
    let ?ib = "finish_entry (wi_name item) r (iw_ib w)"
    have w': "?w' = w\<lparr>iw_ib := ?ib, iw_store := iw_store w, iw_workers := (iw_workers w)[i := WCount item], iw_log := [(item, r)] @ iw_log w\<rparr>"
      by (simp add: ib_worker_step_def WRead set_iworker_simps)
    note k = finish_keeps [of "iw_ib w" "wi_name item" r]
    have q: "ib_work ?ib = ib_work (iw_ib w)" "group_count root ?ib = group_count root (iw_ib w)" for root
      using k same_queue_counts by blast+
    have d: "dealt_with r" using st assms(2) nth_mem [OF assms(2)] WRead unfolding stored_ok_def kept_keys_def by metis
    show ?thesis
    proof (rule step [OF w'])
      show "stored_ok X ?w'" by (intro keep [where a = "WCount item" and new = "[(item, r)]" and ib' = ?ib]) (auto simp: w' WRead)
      show "safe_name ?w' n" if "safe_name w n" for n
      proof (cases "n = wi_name item")
        case True
        then show ?thesis using d by (auto simp: w' safe_name_def)
      next
        case False
        then show ?thesis using that k by (auto simp: w' safe_name_def)
      qed
      show "\<exists>it' r'. (it', r') \<in> set (iw_log w) \<and> wi_name it' = wi_name it \<and> dealt_with r'" if "(it, Missing) \<in> set [(item, r)]" for it
        using that d by (auto simp: dealt_with_def)
    qed (use q in \<open>simp_all add: WRead\<close>)
  next
    case (WCount item)
    let ?ib = "count_done (wi_root item) (iw_ib w)"
    have w': "?w' = w\<lparr>iw_ib := ?ib, iw_store := iw_store w, iw_workers := (iw_workers w)[i := WWait], iw_log := [] @ iw_log w\<rparr>"
      by (simp add: ib_worker_step_def WCount set_iworker_simps)
    have pos: "0 < group_count (wi_root item) (iw_ib w)"
    proof -
      have "item \<in># in_process w" using nth_mem [OF assms(2)] WCount by (force simp: in_process_def all_of_def)
      then have "filter_mset (\<lambda>it. wi_root it = wi_root item) (in_process w) \<noteq> {#}" by auto
      then have "0 < size (filter_mset (\<lambda>it. wi_root it = wi_root item) (in_process w))" by (rule nonempty_has_size [THEN iffD1])
      then show ?thesis using assms(1) unfolding ib_inv_def counts_ok_def by metis
    qed
    show ?thesis
    proof (rule step [OF w'])
      show "stored_ok X ?w'" by (intro keep [where a = WWait and new = "[]" and ib' = ?ib]) (simp_all add: w')
    qed (use pos in \<open>auto simp: WCount w' safe_name_def group_count_done count_done_keeps\<close>)
  next
    case WGone
    then show ?thesis using assms(1) by (simp add: ib_worker_step_def)
  qed
qed

section \<open>Recovery and reachable states\<close>

definition queue_ok :: "string list \<Rightarrow> Inbox \<Rightarrow> bool" where
  "queue_ok ns ib \<longleftrightarrow> (\<forall>root. group_count root ib = length (filter (\<lambda>it. wi_root it = root) (ib_work ib))) \<and>
     (\<forall>it \<in> set (ib_work ib). map_of (ib_dir ib) (wi_name it) \<noteq> None \<and> wi_name it \<notin> set ns)"

lemma readRoot_keeps: "readRoot M name ib = (r, ib') \<Longrightarrow> same_queue ib ib' \<and> ib_dir ib' = ib_dir ib \<and> (\<forall>k. r = Inr k \<longrightarrow> map_of (ib_dir ib) name \<noteq> None)"
  by (auto simp: readRoot_def same_queue_def dest!: ib_ioD split: prod.splits bool.splits option.splits sum.splits)

lemma queue_ok_same:
  assumes "queue_ok ns ib" and "same_queue ib ib'" and "\<And>n. n \<notin> set ns \<Longrightarrow> map_of (ib_dir ib') n = map_of (ib_dir ib) n" and "set ms \<subseteq> set ns"
  shows "queue_ok ms ib'"
proof -
  have q: "ib_work ib' = ib_work ib" "group_count root ib' = group_count root ib" for root using assms(2) same_queue_counts by blast+
  show ?thesis using assms(1,3,4) unfolding queue_ok_def q by auto
qed

lemma requeue_ok: "queue_ok ns ib \<Longrightarrow> distinct ns \<Longrightarrow> queue_ok [] (requeue M ns ib)"
proof (induction ns arbitrary: ib)
  case (Cons name ns)
  have d: "name \<notin> set ns" "distinct ns" using Cons.prems(2) by simp_all
  show ?case
  proof (cases "suffix packSuffix name")
    case False
    have "queue_ok ns ib" by (rule queue_ok_same [OF Cons.prems(1) same_queue_refl]) auto
    then show ?thesis using Cons.IH d False by simp
  next
    case True
    obtain r ib' where r: "readRoot M name ib = (r, ib')" by force
    note k = readRoot_keeps [OF r]
    show ?thesis
    proof (cases r)
      case (Inl e)
      note q = quarantine_keeps [of ib' name]
      have "queue_ok ns (quarantine name ib')"
      proof (rule queue_ok_same [OF Cons.prems(1)])
        show "same_queue ib (quarantine name ib')" using k q by (simp add: same_queue_def)
        show "map_of (ib_dir (quarantine name ib')) n = map_of (ib_dir ib) n" if "n \<notin> set (name # ns)" for n using that k q by simp
      qed auto
      then show ?thesis using Cons.IH d True r Inl by simp
    next
      case (Inr root)
      have "queue_ok (name # ns) ib'" by (rule queue_ok_same [OF Cons.prems(1)]) (use k in auto)
      then have "queue_ok ns (enqueue \<lparr>wi_name = name, wi_root = root\<rparr> ib')"
        using k Inr d(1) by (auto simp: queue_ok_def group_count_enqueue enqueue_keeps)
      then show ?thesis using Cons.IH d True r Inr by simp
    qed
  qed
qed simp

lemma sweep_tmps_keeps: "same_queue ib (sweep_tmps ns ib) \<and> ib_dir (sweep_tmps ns ib) = ib_dir ib"
proof (induction ns arbitrary: ib)
  case (Cons n ns)
  then show ?case using Discard_keeps [where ib = ib and tmp = n] Cons [of "Discard n ib"] by (simp add: same_queue_def)
qed (simp add: same_queue_refl)

lemma Open_ok:
  assumes "inbox_Open M dir tmp failed faults = (Inr (), ib0)" and "distinct (map fst dir)"
  shows "queue_ok [] ib0"
proof -
  let ?ib = "\<lparr>ib_dir = dir, ib_tmp = tmp, ib_failed = failed, ib_work = [], ib_groups = Map.empty, ib_closed = False, ib_faults = faults\<rparr>"
  obtain b1 i1 b2 i2 b3 i3 b4 i4 where p: "ib_io ?ib = (b1, i1)" "ib_io i1 = (b2, i2)" "ib_io i2 = (b3, i3)" "ib_io i3 = (b4, i4)"
    by (metis prod.exhaust)
  let ?i5 = "sweep_tmps (map fst (ib_tmp i4)) i4"
  obtain b6 i6 where p6: "ib_io ?i5 = (b6, i6)" by force
  have ib0: "ib0 = requeue M (sort (map fst (ib_dir i6))) i6"
    using assms(1) p p6 by (auto simp: inbox_Open_def inbox_recover_def Let_def split: bool.splits)
  have f: "ib_work i6 = []" "ib_groups i6 = Map.empty" "ib_dir i6 = dir"
    using ib_ioD [OF p(1)] ib_ioD [OF p(2)] ib_ioD [OF p(3)] ib_ioD [OF p(4)] ib_ioD [OF p6] sweep_tmps_keeps [of i4 "map fst (ib_tmp i4)"]
    by (simp_all add: same_queue_def)
  show ?thesis unfolding ib0 by (rule requeue_ok) (simp_all add: queue_ok_def f group_count_def assms(2))
qed

lemma opened_inv:
  assumes "queue_ok [] ib" and "Amber_StoreLog.holds X st L" and "\<not> st_closed st"
  shows "ib_inv X (opened workers ib st)"
proof -
  have e: "all_of f (replicate n WWait) = {#}" if "f WWait = []" for f n using that by (induction n) (simp_all add: all_of_def)
  have "kept_keys (opened workers ib st) L" by (auto simp: kept_keys_def opened_def)
  then have "stored_ok X (opened workers ib st)" using assms(2,3) by (auto simp: stored_ok_def opened_def)
  moreover have "counts_ok (opened workers ib st)"
  proof -
    have "length (filter P xs) = size (filter_mset P (mset xs))" for P and xs :: "workItem list" by (induction xs) simp_all
    then show ?thesis using assms(1) e [of busy workers] by (simp add: counts_ok_def queue_ok_def in_process_def opened_def)
  qed
  moreover have "ledger_ok (opened workers ib st)" using e [of unlogged workers] by (simp add: ledger_ok_def opened_def)
  moreover have "names_safe (opened workers ib st)" using assms(1) by (auto simp: names_safe_def opened_def safe_name_def queue_ok_def)
  ultimately show ?thesis by (simp add: ib_inv_def)
qed

inductive_cases ib_stepE: "ib_step M H X Z procs w w'"

lemma ib_step_inv:
  assumes "ib_step M H X Z procs w w'" and "ib_inv X w" and "fuse_ok X" and "0 < procs"
  shows "ib_inv X w'"
proof -
  have quiet: "ib_inv X (w\<lparr>iw_ib := ib'\<rparr>)" if "same_queue (iw_ib w) ib'" "ib_dir ib' = ib_dir (iw_ib w)" for ib'
  proof -
    have "ib_inv X (w\<lparr>iw_ib := ib', iw_commits := iw_commits w\<rparr>)"
      using assms(2) that by (intro quiet_inv) (auto simp: ib_inv_def names_safe_def safe_name_def)
    then show ?thesis by simp
  qed
  from assms(1) show ?thesis
  proof cases
    case (stage tmp part meta body rerr)
    then show ?thesis using quiet Stage_keeps by blast
  next
    case (discard tmp)
    then show ?thesis using quiet Discard_keeps by blast
  next
    case (begin_commit tmp bodyHash root)
    let ?cs = "iw_commits w @ [\<lparr>cm_tmp = tmp, cm_name = entry_name bodyHash, cm_root = root, cm_at = CCheck\<rparr>]"
    have "ib_inv X (w\<lparr>iw_ib := iw_ib w, iw_commits := ?cs\<rparr>)"
      using assms(2) by (intro quiet_inv) (auto simp: ib_inv_def names_safe_def safe_name_def same_queue_refl)
    then show ?thesis using begin_commit by simp
  next
    case (commit i)
    then show ?thesis using commit_step_inv assms(2) by blast
  next
    case (work i moves)
    then show ?thesis using worker_step_inv assms(2-4) by blast
  next
    case close
    then show ?thesis using quiet [of "inbox_Close (iw_ib w)"] by (simp add: inbox_Close_def same_queue_def)
  qed
qed

lemma ib_reach_inv: "(ib_step M H X Z procs)\<^sup>*\<^sup>* w0 w \<Longrightarrow> ib_inv X w0 \<Longrightarrow> fuse_ok X \<Longrightarrow> 0 < procs \<Longrightarrow> ib_inv X w"
  by (induction rule: rtranclp_induct) (auto intro: ib_step_inv)

lemma stored_has:
  assumes "stored_ok X w" and "(it, Ingested ks) \<in> set (iw_log w)" and "k \<in> set ks"
  shows "Has X (iw_store w) k = Inr True"
proof -
  obtain L where L: "Amber_StoreLog.holds X (iw_store w) L" "kept_keys w L" "\<not> st_closed (iw_store w)" using assms(1) by (auto simp: stored_ok_def)
  have k: "canonical k" "k \<in> rec_key ` set L" using L(2) assms(2,3) unfolding kept_keys_def by blast+
  then show ?thesis using holds_reads(1) [OF L(1,3), of k] by (simp add: canonical_def dom_log_map)
qed

text \<open>Running the parts of a commit one after the other is \<open>Commit\<close>.\<close>

lemma commit_alone:
  assumes "iw_commits w = [\<lparr>cm_tmp = tmp, cm_name = entry_name bodyHash, cm_root = root, cm_at = CCheck\<rparr>]"
    and "Commit tmp bodyHash root (iw_ib w) = (Inr True, ib')"
  shows "commit_step 0 (commit_step 0 (commit_step 0 (commit_step 0 w))) =
     w\<lparr>iw_ib := ib', iw_commits := [], iw_acked := \<lparr>wi_name = entry_name bodyHash, wi_root = root\<rparr> # iw_acked w\<rparr>"
proof -
  let ?n = "entry_name bodyHash"
  let ?c = "\<lambda>a. \<lparr>cm_tmp = tmp, cm_name = ?n, cm_root = root, cm_at = a\<rparr>"
  obtain r1 i1 where 1: "commit_check tmp ?n (iw_ib w) = (r1, i1)" by force
  have r1: "r1 = Inr True" using assms(2) by (cases r1) (auto simp: Commit_def Let_def 1 split: bool.splits)
  obtain r2 i2 where 2: "commit_rename tmp ?n i1 = (r2, i2)" by force
  obtain u where r2: "r2 = Inr u" using assms(2) by (cases r2) (auto simp: Commit_def Let_def 1 r1 2)
  obtain r3 i3 where 3: "syncDir i2 = (r3, i3)" by force
  obtain v where r3: "r3 = Inr v" using assms(2) by (cases r3) (auto simp: Commit_def Let_def 1 r1 2 r2 3)
  have ib': "ib' = enqueue \<lparr>wi_name = ?n, wi_root = root\<rparr> i3" using assms(2) by (simp add: Commit_def Let_def 1 r1 2 r2 3 r3)
  have s1: "commit_step 0 w = w\<lparr>iw_ib := i1, iw_commits := [?c CRename]\<rparr>"
    by (simp add: commit_step_def assms(1) 1 r1)
  have s2: "commit_step 0 (commit_step 0 w) = w\<lparr>iw_ib := i2, iw_commits := [?c CSync]\<rparr>"
    unfolding s1 by (simp add: commit_step_def 2 r2)
  have s3: "commit_step 0 (commit_step 0 (commit_step 0 w)) = w\<lparr>iw_ib := i3, iw_commits := [?c CEnqueue]\<rparr>"
    unfolding s2 by (simp add: commit_step_def 3 r3)
  show ?thesis unfolding s3 by (simp add: commit_step_def ib' cm_item_def)
qed

section \<open>Properties\<close>


text \<open>An entry left by a previous run, and one worker that deals with it.\<close>

definition wit_meta :: meta_cbor where
  "wit_meta = \<lparr>MarshalMeta = (\<lambda>_. []), UnmarshalMeta = (\<lambda>_. Some \<lparr>Me_Ref = [], Me_Root = wit_key, Me_ReceivedAt = 0\<rparr>)\<rparr>"

definition wit_item :: workItem where
  "wit_item = \<lparr>wi_name = ''ab.pack'', wi_root = wit_key\<rparr>"

definition wit_inbox :: Inbox where
  "wit_inbox = \<lparr>ib_dir = [(''ab.pack'', [0, 0, 0, 0])], ib_tmp = [], ib_failed = [], ib_work = [wit_item], ib_groups = [wit_key \<mapsto> 1],
     ib_closed = False, ib_faults = []\<rparr>"

lemma wit_open: "inbox_Open wit_meta [(''ab.pack'', [0, 0, 0, 0])] [] [] [] = (Inr (), wit_inbox)"
proof -
  have "Uint32 [0, 0, 0, 0] = 0" by code_simp
  moreover have "suffix packSuffix ''ab.pack''" by code_simp
  ultimately show ?thesis using wit_key
    by (simp add: inbox_Open_def inbox_recover_def ib_io_def readRoot_def readMetaHeader_def wit_meta_def Parse_ok [THEN iffD2] enqueue_def
      group_count_def wit_inbox_def wit_item_def)
qed

definition wit_work :: "iworld \<Rightarrow> iworld" where
  "wit_work w = ib_worker_step wit_meta (\<lambda>_. []) all_filter rle_zstd 1 [] 0 w"

lemma wit_worked: "\<exists>r. iw_log ((wit_work ^^ 5) (opened 1 wit_inbox empty_store)) = [(wit_item, r)] \<and>
    WaitFor wit_key (iw_ib ((wit_work ^^ 5) (opened 1 wit_inbox empty_store)))"
proof -
  let ?w0 = "opened 1 wit_inbox empty_store"
  let ?i = "wit_inbox\<lparr>ib_work := []\<rparr>"
  have 1: "wit_work ?w0 = ?w0\<lparr>iw_ib := ?i, iw_workers := [WTook wit_item]\<rparr>"
    by (simp add: wit_work_def ib_worker_step_def opened_def take_item_def wit_inbox_def set_iworker_def)
  have 2: "wit_work (wit_work ?w0) = ?w0\<lparr>iw_ib := ?i, iw_workers := [WOpen wit_item [0, 0, 0, 0]]\<rparr>"
    unfolding 1 by (simp add: wit_work_def ib_worker_step_def open_entry_def ib_io_def wit_inbox_def wit_item_def set_iworker_def)
  obtain r st where r: "ingest_entry wit_meta (\<lambda>_. []) all_filter rle_zstd 1 [] [0, 0, 0, 0] (iw_store ?w0) = (r, st)" by force
  have 3: "wit_work (wit_work (wit_work ?w0)) = ?w0\<lparr>iw_ib := ?i, iw_store := st, iw_workers := [WRead wit_item r]\<rparr>"
    unfolding 2 using r by (simp add: wit_work_def ib_worker_step_def set_iworker_def)
  let ?f = "finish_entry ''ab.pack'' r ?i"
  have 4: "wit_work (wit_work (wit_work (wit_work ?w0))) =
      ?w0\<lparr>iw_ib := ?f, iw_store := st, iw_workers := [WCount wit_item], iw_log := [(wit_item, r)]\<rparr>"
    unfolding 3 by (simp add: wit_work_def ib_worker_step_def set_iworker_def opened_def) (simp add: wit_item_def)
  have "group_count wit_key ?f = 1"
    using finish_keeps [of ?i "''ab.pack''" r] by (simp add: same_queue_def group_count_def wit_inbox_def)
  then have "group_count wit_key (count_done wit_key ?f) = 0" by (simp add: group_count_done)
  then have "iw_log (wit_work (wit_work (wit_work (wit_work (wit_work ?w0))))) = [(wit_item, r)] \<and>
      WaitFor wit_key (iw_ib (wit_work (wit_work (wit_work (wit_work (wit_work ?w0))))))"
    unfolding 4 by (simp add: wit_work_def ib_worker_step_def set_iworker_def WaitFor_def) (simp add: wit_item_def)
  then show ?thesis by (simp add: eval_nat_numeral)
qed


end
