(* ===== verification/Amber_Cli.thy ===== *)
theory Amber_Cli
  imports Amber_MarkWalk Amber_BuildTree Amber_Ingest
begin

text \<open>
  The command line (cmd/amber-store: spec.go, ref.go, ls.go, and the \<open>gc why\<close> command of gc.go)
  over an open store and reference database. Arguments and output are bytes. Flag parsing and the
  opening of the store are left out; the current time is an argument, and so is the rendering of a
  modification time in the local time zone (\<open>formatMtime\<close>). Writes to the output may fail.
\<close>

section \<open>Content specs\<close>

datatype cli_err =
    CliArgs nat
  | CliHex bytes
  | CliKey bytes key_err
  | CliSpec ref_err
  | CliRefs rs_err
  | CliRecord bytes ref_err
  | CliStoredKey bytes key_err
  | CliEncode ref_err
  | CliTree "ps_err fs_err"
  | CliNotContent bytes
  | CliGc gc_err
  | CliWrite

text \<open>\<open>strings.Cut\<close> at one byte: what is before it, and what is after it, if it occurs.\<close>

definition Cut :: "byte \<Rightarrow> bytes \<Rightarrow> bytes \<times> bytes" where
  "Cut c s = (takeWhile (\<lambda>b. b \<noteq> c) s, drop 1 (dropWhile (\<lambda>b. b \<noteq> c) s))"

definition unhex :: "byte \<Rightarrow> nat option" where
  "unhex b =
     (let n = unat b in
      if 0x30 \<le> n \<and> n \<le> 0x39 then Some (n - 0x30)
      else if 0x61 \<le> n \<and> n \<le> 0x66 then Some (n - 0x61 + 10)
      else if 0x41 \<le> n \<and> n \<le> 0x46 then Some (n - 0x41 + 10)
      else None)"

fun hex_DecodeString :: "bytes \<Rightarrow> bytes option" where
  "hex_DecodeString [] = Some []"
| "hex_DecodeString [a] = None"
| "hex_DecodeString (a # b # s) =
     (case (unhex a, unhex b) of
        (Some hi, Some lo) \<Rightarrow> map_option (\<lambda>r. of_nat (16 * hi + lo) # r) (hex_DecodeString s)
      | _ \<Rightarrow> None)"

text \<open>A Go string of ASCII characters as bytes.\<close>

definition ascii :: "string \<Rightarrow> bytes" where
  "ascii s = map of_char s"

definition parseHexKey :: "bytes \<Rightarrow> cli_err + key" where
  "parseHexKey s =
     (case hex_DecodeString s of
        None \<Rightarrow> Inl (CliHex s)
      | Some raw \<Rightarrow> (case Parse raw of Inl e \<Rightarrow> Inl (CliKey s e) | Inr k \<Rightarrow> Inr k))"

definition parseKeyPath :: "bytes \<Rightarrow> cli_err + key \<times> bytes" where
  "parseKeyPath s =
     (let (keyPart, path) = Cut 0x2F s in
      case parseHexKey keyPart of Inl e \<Rightarrow> Inl e | Inr k \<Rightarrow> Inr (k, path))"

definition refPrefix :: bytes where "refPrefix = [0x72, 0x65, 0x66, 0x3A]"

text \<open>The key a stored record names.\<close>

definition record_key :: "ref_cbor \<Rightarrow> bytes \<Rightarrow> bytes \<Rightarrow> cli_err + key" where
  "record_key RC name raw =
     (case Ref_Decode RC raw of
        Inl e \<Rightarrow> Inl (CliRecord name e)
      | Inr rec \<Rightarrow> (case Parse (Ref_Key rec) of Inl e \<Rightarrow> Inl (CliStoredKey name e) | Inr k \<Rightarrow> Inr k))"

definition resolveSpec :: "ref_cbor \<Rightarrow> 'db pebble \<Rightarrow> 'db \<Rightarrow> bytes \<Rightarrow> cli_err + key \<times> bytes" where
  "resolveSpec RC P db s =
     (if \<not> HasPrefix s refPrefix then parseKeyPath s
      else
        let (name, path) = Cut 0x40 (drop (length refPrefix) s) in
        case ValidateName name of
          Some e \<Rightarrow> Inl (CliSpec e)
        | None \<Rightarrow>
            (case Refs_Get P name db of
               Inl e \<Rightarrow> Inl (CliRefs e)
             | Inr raw \<Rightarrow> (case record_key RC name raw of Inl e \<Rightarrow> Inl e | Inr k \<Rightarrow> Inr (k, path))))"

primrec descend_segs :: "cbor \<Rightarrow> (key \<Rightarrow> ps_err + bytes) \<Rightarrow> nat \<Rightarrow> bytes list \<Rightarrow> key \<Rightarrow> (cli_err + key) option" where
  "descend_segs C get fuel [] k = Some (Inr k)"
| "descend_segs C get fuel (seg # segs) k =
     (if seg = [] then descend_segs C get fuel segs k
      else case LookupEntry C get fuel k seg of
        None \<Rightarrow> None
      | Some (Inl e) \<Rightarrow> Some (Inl (CliTree e))
      | Some (Inr e) \<Rightarrow>
          (case Parse (Ent_ContentKey e) of
             Inl _ \<Rightarrow> Some (Inl (CliNotContent seg))
           | Inr ck \<Rightarrow> descend_segs C get fuel segs ck))"

definition descend :: "cbor \<Rightarrow> (key \<Rightarrow> ps_err + bytes) \<Rightarrow> nat \<Rightarrow> key \<Rightarrow> bytes \<Rightarrow> (cli_err + key) option" where
  "descend C get fuel rk path = descend_segs C get fuel (split_slash path) rk"

text \<open>How the commands that take a content spec find its object.\<close>

definition spec_target :: "ref_cbor \<Rightarrow> 'db pebble \<Rightarrow> cbor \<Rightarrow> (key \<Rightarrow> ps_err + bytes) \<Rightarrow> nat \<Rightarrow> 'db \<Rightarrow> bytes \<Rightarrow> (cli_err + key) option" where
  "spec_target RC P C get fuel db s =
     (case resolveSpec RC P db s of
        Inl e \<Rightarrow> Some (Inl e)
      | Inr (k, path) \<Rightarrow> descend C get fuel k path)"

section \<open>References\<close>

definition ReleaseRef :: "key \<Rightarrow> gc_err option" where
  "ReleaseRef rk = None"

definition release :: "key \<Rightarrow> cli_err option" where
  "release k = map_option CliGc (ReleaseRef k)"

text \<open>\<open>None\<close> is fuel of the walk that ran out; the result holds the error, the database and the
  object store.\<close>

definition putRef :: "xorfilter \<Rightarrow> zstd \<Rightarrow> cbor \<Rightarrow> ref_cbor \<Rightarrow> 'db pebble \<Rightarrow> nat \<Rightarrow> bytes \<Rightarrow> key \<Rightarrow> bytes \<Rightarrow> 'db \<Rightarrow> store \<Rightarrow>
    (cli_err option \<times> 'db \<times> store) option" where
  "putRef X Z C RC P fuel name rk raw db s =
     (let old = (case Refs_Get P name db of
                   Inr prev \<Rightarrow> (case record_key RC name prev of Inl e \<Rightarrow> Inl e | Inr k \<Rightarrow> Inr (Some k))
                 | Inl e \<Rightarrow> if e \<noteq> RefNotFound then Inl (CliRefs e) else Inr None)
      in case old of
           Inl e \<Rightarrow> Some (Some e, db, s)
         | Inr old \<Rightarrow>
             (case PrepareRef X Z C fuel rk s of
                None \<Rightarrow> None
              | Some (Inl e) \<Rightarrow> Some (Some (CliGc e), db, s)
              | Some (Inr s) \<Rightarrow>
                  (case Refs_Put P name raw db of
                     (Some e, db) \<Rightarrow> Some (Some (CliRefs e), db, s)
                   | (None, db) \<Rightarrow> Some (case old of None \<Rightarrow> None | Some k \<Rightarrow> release k, db, s))))"

definition rmRef :: "ref_cbor \<Rightarrow> 'db pebble \<Rightarrow> bytes \<Rightarrow> 'db \<Rightarrow> cli_err option \<times> 'db" where
  "rmRef RC P name db =
     (case Refs_Get P name db of
        Inl e \<Rightarrow> (Some (CliRefs e), db)
      | Inr prev \<Rightarrow>
          (case record_key RC name prev of
             Inl e \<Rightarrow> (Some e, db)
           | Inr rk \<Rightarrow>
               (case Refs_Delete P name db of
                  (Some e, db) \<Rightarrow> (Some (CliRefs e), db)
                | (None, db) \<Rightarrow> (release rk, db))))"

definition new_record :: "bytes \<Rightarrow> key \<Rightarrow> u64 \<Rightarrow> Reference" where
  "new_record name k now =
     \<lparr>Ref_Name = name, Ref_Key = k, Ref_User = [], Ref_CreatedAt = now, Ref_Signature = [], Ref_PublicKey = []\<rparr>"

definition runRefSet :: "xorfilter \<Rightarrow> zstd \<Rightarrow> cbor \<Rightarrow> ref_cbor \<Rightarrow> 'db pebble \<Rightarrow> nat \<Rightarrow> u64 \<Rightarrow> bytes list \<Rightarrow> 'db \<Rightarrow> store \<Rightarrow>
    (cli_err option \<times> 'db \<times> store) option" where
  "runRefSet X Z C RC P fuel now args db s =
     (case args of
        [name, hex] \<Rightarrow>
          (case parseHexKey hex of
             Inl e \<Rightarrow> Some (Some e, db, s)
           | Inr k \<Rightarrow>
               (case Ref_Encode RC (new_record name k now) of
                  Inl e \<Rightarrow> Some (Some (CliEncode e), db, s)
                | Inr raw \<Rightarrow> putRef X Z C RC P fuel name k raw db s))
      | _ \<Rightarrow> Some (Some (CliArgs (length args)), db, s))"

definition runRefRm :: "ref_cbor \<Rightarrow> 'db pebble \<Rightarrow> bytes list \<Rightarrow> 'db \<Rightarrow> cli_err option \<times> 'db" where
  "runRefRm RC P args db =
     (case args of [name] \<Rightarrow> rmRef RC P name db | _ \<Rightarrow> (Some (CliArgs (length args)), db))"

text \<open>A command that prints: the lines go to a writer on a state \<open>'w\<close>.\<close>

type_synonym 'w writer = "'w \<Rightarrow> bytes \<Rightarrow> 'w option"

definition print_line :: "'w writer \<Rightarrow> 'w \<Rightarrow> bytes \<Rightarrow> cli_err + 'w" where
  "print_line wr w line = (case wr w (line @ [0x0A]) of None \<Rightarrow> Inl CliWrite | Some w \<Rightarrow> Inr w)"

definition runRefGet :: "'w writer \<Rightarrow> ref_cbor \<Rightarrow> 'db pebble \<Rightarrow> bytes list \<Rightarrow> 'db \<Rightarrow> 'w \<Rightarrow> cli_err + 'w" where
  "runRefGet wr RC P args db w =
     (case args of
        [name] \<Rightarrow>
          (case resolveSpec RC P db (refPrefix @ name) of
             Inl e \<Rightarrow> Inl e
           | Inr (k, _) \<Rightarrow> print_line wr w (ascii (Key_String k)))
      | _ \<Rightarrow> Inl (CliArgs (length args)))"

section \<open>Numbers and times\<close>

fun dec :: "nat \<Rightarrow> bytes" where
  "dec n = (if n < 10 then [of_nat (0x30 + n)] else dec (n div 10) @ [of_nat (0x30 + n mod 10)])"

declare dec.simps [simp del]

text \<open>A number in at least \<open>w\<close> digits, and a text in at least \<open>w\<close> columns, at the right.\<close>

definition dec_w :: "nat \<Rightarrow> nat \<Rightarrow> bytes" where
  "dec_w w n = (let d = dec n in replicate (w - length d) 0x30 @ d)"

definition pad_left :: "nat \<Rightarrow> bytes \<Rightarrow> bytes" where
  "pad_left w s = replicate (w - length s) 0x20 @ s"

text \<open>The proleptic Gregorian date of a day number since 1970-01-01: years are counted from
  March, in cycles of 400 years.\<close>

definition civil :: "int \<Rightarrow> int \<times> int \<times> int" where
  "civil day =
     (let z = day + 719468;
          era = z div 146097;
          doe = z mod 146097;
          yoe = (doe - doe div 1460 + doe div 36524 - doe div 146096) div 365;
          doy = doe - (365 * yoe + yoe div 4 - yoe div 100);
          mp = (5 * doy + 2) div 153;
          d = doy - (153 * mp + 2) div 5 + 1;
          m = if mp < 10 then mp + 3 else mp - 9;
          y = yoe + era * 400 + (if m \<le> 2 then 1 else 0)
      in (y, m, d))"

text \<open>\<open>time.Unix(0, ns).UTC().Format(time.RFC3339)\<close>; the years of a 64-bit count of nanoseconds have
  four digits.\<close>

definition rfc3339 :: "int \<Rightarrow> bytes" where
  "rfc3339 ns =
     (let secs = ns div 1000000000; day = secs div 86400; tod = secs mod 86400; (y, m, d) = civil day in
      dec_w 4 (nat y) @ [0x2D] @ dec_w 2 (nat m) @ [0x2D] @ dec_w 2 (nat d) @ [0x54] @
      dec_w 2 (nat (tod div 3600)) @ [0x3A] @ dec_w 2 (nat (tod mod 3600 div 60)) @ [0x3A] @
      dec_w 2 (nat (tod mod 60)) @ [0x5A])"

definition ref_line :: "Reference \<Rightarrow> key \<Rightarrow> bytes" where
  "ref_line rec k =
     Ref_Name rec @ [0x20] @ ascii (Key_String k) @ [0x20] @ rfc3339 (sint (Ref_CreatedAt rec)) @
     (if Ref_User rec \<noteq> [] then 0x20 # Ref_User rec else [])"

fun list_refs :: "'w writer \<Rightarrow> ref_cbor \<Rightarrow> (bytes \<times> bytes) list \<Rightarrow> 'w \<Rightarrow> cli_err + 'w" where
  "list_refs wr RC [] w = Inr w"
| "list_refs wr RC ((name, data) # recs) w =
     (case Ref_Decode RC data of
        Inl e \<Rightarrow> Inl (CliRecord name e)
      | Inr rec \<Rightarrow>
          (case Parse (Ref_Key rec) of
             Inl e \<Rightarrow> Inl (CliStoredKey name e)
           | Inr k \<Rightarrow> (case print_line wr w (ref_line rec k) of Inl e \<Rightarrow> Inl e | Inr w \<Rightarrow> list_refs wr RC recs w)))"

definition runRefList :: "'w writer \<Rightarrow> ref_cbor \<Rightarrow> 'db pebble \<Rightarrow> bytes list \<Rightarrow> 'db \<Rightarrow> 'w \<Rightarrow> cli_err + 'w" where
  "runRefList wr RC P args db w =
     (if args \<noteq> [] then Inl (CliArgs (length args))
      else case Refs_All P db of Inl e \<Rightarrow> Inl (CliRefs e) | Inr recs \<Rightarrow> list_refs wr RC recs w)"

section \<open>ls\<close>

definition lsPageSize :: int where "lsPageSize = 4096"

text \<open>The loop over the pages; \<open>pages\<close> bounds their number. A page before the last is not empty,
  because the page size is positive.\<close>

primrec ls_pages :: "cbor \<Rightarrow> (key \<Rightarrow> ps_err + bytes) \<Rightarrow> nat \<Rightarrow> nat \<Rightarrow> key \<Rightarrow> bytes \<Rightarrow> Entry list \<Rightarrow> (cli_err + Entry list) option" where
  "ls_pages C get fuel 0 dir after entries = None"
| "ls_pages C get fuel (Suc pages) dir after entries =
     (case ListEntries C get fuel dir after lsPageSize of
        None \<Rightarrow> None
      | Some (Inl e) \<Rightarrow> Some (Inl (CliTree e))
      | Some (Inr (page, further)) \<Rightarrow>
          let entries = entries @ page in
          if \<not> further then Some (Inr entries) else ls_pages C get fuel pages dir (Ent_Name (last page)) entries)"

definition S_ISUID :: u64 where "S_ISUID = 0x800"
definition S_ISGID :: u64 where "S_ISGID = 0x400"
definition S_ISVTX :: u64 where "S_ISVTX = 0x200"

definition type_char :: "u64 \<Rightarrow> byte" where
  "type_char mode =
     (let t = mode AND S_IFMT in
      if t = S_IFDIR then 0x64 else if t = S_IFLNK then 0x6C else if t = S_IFCHR then 0x63 else if t = S_IFBLK then 0x62
      else if t = S_IFIFO then 0x70 else if t = S_IFSOCK then 0x73 else if t = S_IFREG then 0x2D else 0x3F)"

definition perm_chars :: "u64 \<Rightarrow> bytes" where
  "perm_chars mode =
     map (\<lambda>(i, c). if mode AND push_bit (8 - i) 1 \<noteq> 0 then c else 0x2D)
       (enumerate 0 [0x72, 0x77, 0x78, 0x72, 0x77, 0x78, 0x72, 0x77, 0x78])"

definition setBit :: "u64 \<Rightarrow> nat \<Rightarrow> u64 \<Rightarrow> byte \<Rightarrow> byte \<Rightarrow> bytes \<Rightarrow> bytes" where
  "setBit mode pos flag withX withoutX b =
     (if mode AND flag = 0 then b else if b ! pos = 0x78 then b[pos := withX] else b[pos := withoutX])"

definition modeString :: "u64 \<Rightarrow> bytes" where
  "modeString mode =
     (let b = type_char mode # perm_chars mode;
          b = setBit mode 3 S_ISUID 0x73 0x53 b;
          b = setBit mode 6 S_ISGID 0x73 0x53 b
      in setBit mode 9 S_ISVTX 0x74 0x54 b)"

definition sizeString :: "Entry \<Rightarrow> bytes" where
  "sizeString e =
     (if length (Ent_Rdev e) = 2 then dec (unat (Ent_Rdev e ! 0)) @ [0x2C] @ dec (unat (Ent_Rdev e ! 1))
      else let target = dec (length (Ent_LinkTarget e)) in
        if Ent_ContentKey e = [] then target
        else case Parse (Ent_ContentKey e) of Inr ck \<Rightarrow> dec (unat (Key_Length ck)) | Inl _ \<Rightarrow> target)"

definition name_column :: "bool \<Rightarrow> Entry \<Rightarrow> bytes" where
  "name_column showKeys e =
     Ent_Name e @ (if Ent_LinkTarget e \<noteq> [] then [0x20, 0x2D, 0x3E, 0x20] @ Ent_LinkTarget e else []) @
     (if showKeys \<and> Ent_ContentKey e \<noteq> []
      then (case Parse (Ent_ContentKey e) of Inr ck \<Rightarrow> 0x20 # ascii (Key_String ck) | Inl _ \<Rightarrow> []) else [])"

text \<open>\<open>mtime\<close> is \<open>formatMtime\<close> of the count of nanoseconds, now and in the local zone.\<close>

definition ls_line :: "(int \<Rightarrow> bytes) \<Rightarrow> nat \<Rightarrow> nat \<Rightarrow> nat \<Rightarrow> bool \<Rightarrow> Entry \<Rightarrow> bytes" where
  "ls_line mtime uidW gidW sizeW showKeys e =
     modeString (Ent_Mode e) @ [0x20] @ pad_left uidW (dec (unat (Ent_UID e))) @ [0x20] @
     pad_left gidW (dec (unat (Ent_GID e))) @ [0x20] @ pad_left sizeW (sizeString e) @ [0x20] @
     mtime (sint (Ent_Mtime e)) @ [0x20] @ name_column showKeys e"

fun print_lines :: "'w writer \<Rightarrow> bytes list \<Rightarrow> 'w \<Rightarrow> cli_err + 'w" where
  "print_lines wr [] w = Inr w"
| "print_lines wr (l # ls) w = (case print_line wr w l of Inl e \<Rightarrow> Inl e | Inr w \<Rightarrow> print_lines wr ls w)"

definition column :: "(Entry \<Rightarrow> bytes) \<Rightarrow> Entry list \<Rightarrow> nat" where
  "column f entries = fold (\<lambda>e w. max w (length (f e))) entries 0"

definition renderLs :: "'w writer \<Rightarrow> (int \<Rightarrow> bytes) \<Rightarrow> Entry list \<Rightarrow> bool \<Rightarrow> 'w \<Rightarrow> cli_err + 'w" where
  "renderLs wr mtime entries showKeys w =
     (let uidW = column (\<lambda>e. dec (unat (Ent_UID e))) entries;
          gidW = column (\<lambda>e. dec (unat (Ent_GID e))) entries;
          sizeW = column sizeString entries
      in print_lines wr (map (ls_line mtime uidW gidW sizeW showKeys) entries) w)"

definition runLs :: "'w writer \<Rightarrow> (int \<Rightarrow> bytes) \<Rightarrow> ref_cbor \<Rightarrow> 'db pebble \<Rightarrow> cbor \<Rightarrow> (key \<Rightarrow> ps_err + bytes) \<Rightarrow> nat \<Rightarrow> nat \<Rightarrow> bool \<Rightarrow>
    bytes list \<Rightarrow> 'db \<Rightarrow> 'w \<Rightarrow> (cli_err + 'w) option" where
  "runLs wr mtime RC P C get fuel pages showKeys args db w =
     (case args of
        [spec] \<Rightarrow>
          (case spec_target RC P C get fuel db spec of
             None \<Rightarrow> None
           | Some (Inl e) \<Rightarrow> Some (Inl e)
           | Some (Inr dir) \<Rightarrow>
               (case ls_pages C get fuel pages dir [] [] of
                  None \<Rightarrow> None
                | Some (Inl e) \<Rightarrow> Some (Inl e)
                | Some (Inr entries) \<Rightarrow> Some (renderLs wr mtime entries showKeys w)))
      | _ \<Rightarrow> Some (Inl (CliArgs (length args))))"

section \<open>gc why\<close>

definition unreferenced :: bytes where
  "unreferenced = [0x75, 0x6E, 0x72, 0x65, 0x66, 0x65, 0x72, 0x65, 0x6E, 0x63, 0x65, 0x64]"

text \<open>The errors of these prints are not looked at: \<open>wr\<close> here is a writer that always goes on.\<close>

definition runGCWhy :: "('w \<Rightarrow> bytes \<Rightarrow> 'w) \<Rightarrow> ref_cbor \<Rightarrow> 'db pebble \<Rightarrow> cbor \<Rightarrow> (key \<Rightarrow> ps_err + bytes) \<Rightarrow> nat \<Rightarrow>
    bytes list \<Rightarrow> 'db \<Rightarrow> 'w \<Rightarrow> (cli_err + 'w) option" where
  "runGCWhy wr RC P C get fuel args db w =
     (case args of
        [arg] \<Rightarrow>
          (case parseHexKey arg of
             Inl e \<Rightarrow> Some (Inl e)
           | Inr k \<Rightarrow>
               (case collector_Why RC C P get fuel db k of
                  None \<Rightarrow> None
                | Some (Inl e) \<Rightarrow> Some (Inl (CliGc e))
                | Some (Inr names) \<Rightarrow>
                    Some (Inr (foldl (\<lambda>w n. wr w (n @ [0x0A])) w (if names = [] then [unreferenced] else names)))))
      | _ \<Rightarrow> Some (Inl (CliArgs (length args))))"

end
