(* ===== verification/Amber_CliRun.thy ===== *)
theory Amber_CliRun
  imports Amber_Cli Amber_CollectorSafety
begin

text \<open>
  The commands end to end: a spec names what its key or reference names, setting a reference
  publishes a complete tree under its name, and \<open>ls\<close> prints a directory as a whole, page by page.
\<close>

section \<open>Lemmas: specs\<close>

lemma unhex_digit: "n < 16 \<Longrightarrow> unhex (of_char (hex_digit n)) = Some n"
proof -
  have "\<forall>n \<in> set [0..<16]. unhex (of_char (hex_digit n)) = Some n" by code_simp
  then show "n < 16 \<Longrightarrow> unhex (of_char (hex_digit n)) = Some n" by simp
qed

lemma ascii_simps [simp]:
  "ascii [] = []" "ascii (c # s) = of_char c # ascii s" "ascii (s @ t) = ascii s @ ascii t"
  by (simp_all add: ascii_def)

lemma nibbles: "unat (b :: byte) div 16 < 16" "unat b mod 16 < 16"
proof -
  have "unat b < 16 * 16" using unat_byte [of b] by simp
  then show "unat b div 16 < 16" by (rule less_mult_imp_div_less)
qed simp

lemma hex_byte_read: "hex_DecodeString (ascii (hex_byte b) @ s) = map_option ((#) b) (hex_DecodeString s)"
proof -
  have "unhex (of_char (hex_digit (unat b div 16))) = Some (unat b div 16)"
    "unhex (of_char (hex_digit (unat b mod 16))) = Some (unat b mod 16)" using nibbles by (simp_all add: unhex_digit)
  moreover have "16 * (unat b div 16) + unat b mod 16 = unat b" by simp
  ultimately show ?thesis by (simp add: hex_byte_def del: of_nat_add of_nat_mult)
qed

lemma hex_key_read: "hex_DecodeString (ascii (Key_String k)) = Some k"
proof (induction k)
  case (Cons b k)
  then show ?case using hex_byte_read [of b "ascii (Key_String k)"] by (simp add: Key_String_def)
qed (simp add: Key_String_def)

lemma unhex_chars: "unhex 0x2F = None" "unhex 0x3A = None" "unhex 0x72 = None"
  by (simp_all add: unhex_def)

lemma hex_key_chars: "b \<in> set (ascii (Key_String k)) \<Longrightarrow> unhex b \<noteq> None"
proof (induction k)
  case (Cons a k)
  then show ?case using Cons nibbles [of a] by (auto simp: Key_String_def hex_byte_def unhex_digit)
qed (simp add: Key_String_def)

lemma Cut_found [simp]: "c \<notin> set s \<Longrightarrow> Cut c (s @ c # t) = (s, t)"
  by (auto simp: Cut_def takeWhile_append dropWhile_append)

lemma Cut_absent [simp]: "c \<notin> set s \<Longrightarrow> Cut c s = (s, [])"
proof -
  assume "c \<notin> set s"
  then have d: "dropWhile (\<lambda>b. b \<noteq> c) s = []" "takeWhile (\<lambda>b. b \<noteq> c) s = s"
    unfolding dropWhile_eq_Nil_conv takeWhile_eq_all_conv by auto
  show ?thesis unfolding Cut_def d by simp
qed

lemma parse_hex_key: "canonical k \<Longrightarrow> parseHexKey (ascii (Key_String k)) = Inr k"
  by (simp add: parseHexKey_def hex_key_read Parse_ok [THEN iffD2])

lemma hex_no_slash: "0x2F \<notin> set (ascii (Key_String k))"
  using hex_key_chars [of "0x2F" k] unhex_chars by auto

text \<open>A key in hex, with or without a path below it.\<close>

lemma resolve_key:
  assumes "canonical k"
  shows "resolveSpec RC P db (ascii (Key_String k)) = Inr (k, [])"
    and "resolveSpec RC P db (ascii (Key_String k) @ 0x2F # path) = Inr (k, path)"
proof -
  have "k \<noteq> []" using assms by (auto simp: canonical_def is_key_def Size_def)
  then obtain b bs where h: "ascii (Key_String k) = b # bs" by (cases k) (auto simp: Key_String_def hex_byte_def)
  then have "unhex b \<noteq> None" using hex_key_chars [of b k] by simp
  then have "b \<noteq> 0x72" using unhex_chars by auto
  then have "\<not> HasPrefix (ascii (Key_String k) @ t) refPrefix" for t by (simp add: h HasPrefix_def refPrefix_def)
  from this [of "[]"] this [of "0x2F # path"]
  show "resolveSpec RC P db (ascii (Key_String k)) = Inr (k, [])"
    "resolveSpec RC P db (ascii (Key_String k) @ 0x2F # path) = Inr (k, path)"
    by (simp_all add: resolveSpec_def parseKeyPath_def parse_hex_key [OF assms] hex_no_slash)
qed

lemma name_no_at: "ValidateName name = None \<Longrightarrow> 0x40 \<notin> set name"
proof -
  assume v: "ValidateName name = None"
  then have "ValidString name" "name_runes (map fst (utf8_runes name)) = None"
    by (auto simp: ValidateName_def split: if_splits)
  then have "list_all (\<lambda>b. unat b \<noteq> 64 \<and> 32 \<le> unat b \<and> unat b \<noteq> 127) name"
    using runes_bytes [of name "\<lambda>r. r \<noteq> 64 \<and> 32 \<le> r \<and> r \<noteq> 127"] by (simp add: name_runes_ok)
  then show ?thesis by (auto simp: list_all_iff)
qed

text \<open>A reference by name, once the database has a valid record of the name.\<close>

lemma resolve_ref:
  assumes "pebble_ok P m" and "ValidateName name = None" and "m db name = Some raw" and "Ref_Decode RC raw = Inr rec"
    and "Parse (Ref_Key rec) = Inr k" and "t = [] \<or> t = 0x40 # path" and "t = [] \<Longrightarrow> path = []"
  shows "resolveSpec RC P db (refPrefix @ name @ t) = Inr (k, path) \<or>
     (\<exists>x. resolveSpec RC P db (refPrefix @ name @ t) = Inl (CliRefs (PebbleErr x)))"
proof -
  have "Cut 0x40 (name @ t) = (name, path)" using assms(6,7) name_no_at [OF assms(2)] by auto
  then have r: "resolveSpec RC P db (refPrefix @ name @ t) =
      (case Refs_Get P name db of
         Inl e \<Rightarrow> Inl (CliRefs e)
       | Inr raw \<Rightarrow> (case record_key RC name raw of Inl e \<Rightarrow> Inl e | Inr k \<Rightarrow> Inr (k, path)))"
    by (simp add: resolveSpec_def HasPrefix_def refPrefix_def assms(2))
  have g: "case Refs_Get P name db of Inr v \<Rightarrow> m db name = Some v | Inl e \<Rightarrow> m db name = None \<or> e \<noteq> RefNotFound"
    using refs_refine [OF assms(1)] by blast
  show ?thesis
  proof (cases "Refs_Get P name db")
    case (Inl e)
    then have "e \<noteq> RefNotFound" using g assms(3) by simp
    then obtain x where "e = PebbleErr x" by (cases e) auto
    then show ?thesis using r Inl by auto
  next
    case (Inr v)
    then show ?thesis using g r assms(3-5) by (simp add: record_key_def)
  qed
qed

section \<open>Lemmas: listing\<close>

text \<open>A page of a sorted listing leaves what is above its last name.\<close>

lemma after_page:
  assumes "names_sorted es" and "0 < n" and "n < length es"
  shows "after_entries (Ent_Name (last (take n es))) es = drop n es"
proof -
  have es: "es = take n es @ drop n es" by simp
  have ne: "take n es \<noteq> []" using assms(2,3) by auto
  have srt: "names_sorted (take n es)" "\<forall>x \<in> set (take n es). \<forall>y \<in> set (drop n es). Ent_Name x < Ent_Name y"
    using assms(1) es names_sorted_append by metis+
  have "after_entries (Ent_Name (last (take n es))) (take n es) = []"
    using names_sorted_last [OF srt(1)] by (fastforce simp: after_entries_def filter_empty_conv)
  moreover have "after_entries (Ent_Name (last (take n es))) (drop n es) = drop n es"
    using srt(2) ne by (auto simp: after_entries_def filter_id_conv)
  ultimately show ?thesis using es after_entries_append by (metis append_Nil)
qed

lemma after_after: "after \<le> b \<Longrightarrow> after_entries b (after_entries after es) = after_entries b es"
  by (auto simp: after_entries_def intro: filter_cong)

lemma ls_pages_all:
  assumes "dir_tree C get h k es" and "names_sorted es" and "h \<le> fuel"
    and "length (after_entries after es) < 4096 * pages \<or> pages \<noteq> 0 \<and> after_entries after es = []"
  shows "ls_pages C get fuel pages k after out = Some (Inr (out @ after_entries after es))"
  using assms(4)
proof (induction pages arbitrary: after out)
  case (Suc pages)
  let ?xs = "after_entries after es" and ?n = "4096 :: nat"
  have page: "ListEntries C get fuel k after lsPageSize = Some (Inr (take ?n ?xs, ?n < length ?xs))"
    using listInto_tree [OF assms(1-3), of "[]" ?n after] by (simp add: ListEntries_def lsPageSize_def page_of_def)
  show ?case
  proof (cases "?n < length ?xs")
    case False
    then show ?thesis using page by simp
  next
    case True
    have srt: "names_sorted ?xs" using assms(2) by (simp add: after_entries_def names_sorted_def sorted_wrt_filter sorted_wrt_map)
    let ?b = "Ent_Name (last (take ?n ?xs))"
    have "last (take ?n ?xs) \<in> set ?xs" using True by (intro in_set_takeD [OF last_in_set]) auto
    then have "after \<le> ?b" by (auto simp: after_entries_def)
    then have rest: "after_entries ?b es = drop ?n ?xs"
      using after_page [OF srt _ True] after_after [of after ?b es] by simp
    have "ls_pages C get fuel pages k ?b (out @ take ?n ?xs) = Some (Inr ((out @ take ?n ?xs) @ after_entries ?b es))"
      by (rule Suc.IH) (use Suc.prems True rest in auto)
    then show ?thesis using page True rest by simp
  qed
qed auto

text \<open>\<open>leads\<close>: names that lead from one directory or file to another.\<close>

inductive leads :: "cbor \<Rightarrow> (key \<Rightarrow> ps_err + bytes) \<Rightarrow> nat \<Rightarrow> key \<Rightarrow> bytes list \<Rightarrow> key \<Rightarrow> bool" for C get h where
  here: "leads C get h k [] k"
| below: "dir_tree C get h k es \<Longrightarrow> names_sorted es \<Longrightarrow> e \<in> set es \<Longrightarrow> Parse (Ent_ContentKey e) = Inr ck \<Longrightarrow>
    leads C get h ck ns k' \<Longrightarrow> leads C get h k (Ent_Name e # ns) k'"

lemma find_entry_sorted: "names_sorted es \<Longrightarrow> e \<in> set es \<Longrightarrow> find_entry (Ent_Name e) es = Some e"
  by (induction es) auto

lemma descend_segs_skip: "descend_segs C get fuel segs k = descend_segs C get fuel (filter (\<lambda>n. n \<noteq> []) segs) k"
  by (induction segs arbitrary: k) (auto split: option.split sum.split)

lemma descend_leads:
  assumes "leads C get h k ns k'" and "[] \<notin> set ns" and "h \<le> fuel"
  shows "descend_segs C get fuel ns k = Some (Inr k')"
  using assms
proof (induction rule: leads.induct)
  case (below k es e ck ns k')
  have "LookupEntry C get fuel k (Ent_Name e) = Some (Inr e)"
    using LookupEntry_tree [OF below.hyps(1,2) below.prems(2)] find_entry_sorted [OF below.hyps(2,3)] by (simp add: lookup_result_def)
  then show ?case using below by auto
qed simp

section \<open>Lemmas: publishing\<close>

lemma looks_observed: "look X Z C (ObserveKeys ks s) = look X Z C s"
  by (simp add: look_def same_contents_reads [OF same_contents_intros(3)])

lemma putRef_effect:
  assumes "putRef X Z C RC P fuel name rk raw db s = Some (e, db', s')"
  shows "e \<noteq> None \<and> db' = db \<or>
     whole_tree (look X Z C s) rk \<and> (\<exists>ks. s' = ObserveKeys ks s) \<and>
     (\<exists>x. Refs_Put P name raw db = (x, db') \<and> (x = None \<longleftrightarrow> e = None))"
proof (cases "e \<noteq> None \<and> db' = db")
  case False
  define old where "old =
     (case Refs_Get P name db of
        Inr prev \<Rightarrow> (case record_key RC name prev of Inl e \<Rightarrow> Inl e | Inr k \<Rightarrow> Inr (Some k))
      | Inl e \<Rightarrow> if e \<noteq> RefNotFound then Inl (CliRefs e) else Inr None)"
  obtain k where old: "old = Inr k"
  proof (cases old)
    case (Inl e')
    then show ?thesis using assms False unfolding putRef_def old_def [symmetric] by (auto simp: Let_def)
  qed
  then obtain s1 where prep: "PrepareRef X Z C fuel rk s = Some (Inr s1)"
    using assms False unfolding putRef_def old_def [symmetric] by (auto simp: Let_def split: option.splits sum.splits)
  have "s' = s1 \<and> (\<exists>x. Refs_Put P name raw db = (x, db') \<and> (x = None \<longleftrightarrow> e = None))"
    using assms False unfolding putRef_def old_def [symmetric]
    by (auto simp: Let_def old prep release_def ReleaseRef_def split: prod.splits option.splits)
  then show ?thesis using PrepareRef_ok [OF prep] by blast
qed simp

section \<open>Properties\<close>




text \<open>A directory with one entry, the directory itself.\<close>

definition wit_loop_entry :: Entry where
  "wit_loop_entry = \<lparr>Ent_Name = [0x64], Ent_Mode = 0x41ED, Ent_UID = 0, Ent_GID = 0, Ent_Mtime = 0, Ent_ContentKey = empty_dir_key,
     Ent_LinkTarget = [], Ent_Rdev = [], Ent_XattrsIn = [], Ent_XattrsKey = []\<rparr>"

definition wit_loop_get :: "key \<Rightarrow> ps_err + bytes" where
  "wit_loop_get k = (if k = empty_dir_key then Inr (the (MarshalEntries frame_cbor [wit_loop_entry])) else Inl ObjNotFound)"


end
