(* ===== verification/Amber_Gates.thy ===== *)
theory Amber_Gates
  imports Amber_Recover Amber_Compact
begin

text \<open>
  The gates of the store (packstore.go, gc.go): the tokens of writes in flight, and the counter
  that keeps a segment mapped while a scrub or an index scan walks it without a lock. The second
  is a protocol between goroutines: walks register under the read lock, \<open>Remove\<close>, \<open>Compact\<close>,
  \<open>Wipe\<close> and \<open>Close\<close> detach segments under the write lock, wait for the counter to be zero and
  then unmap; a walk that registers after the wait must not reach what is unmapped.
\<close>

section \<open>Configuration\<close>

definition DefaultSegmentSize :: int where "DefaultSegmentSize = 268435456"

record config =
  cf_segmentSize :: int
  cf_sync :: bool

definition defaultConfig :: config where
  "defaultConfig = \<lparr>cf_segmentSize = DefaultSegmentSize, cf_sync = True\<rparr>"

definition WithSegmentSize :: "int \<Rightarrow> config \<Rightarrow> config" where
  "WithSegmentSize n c = c\<lparr>cf_segmentSize := n\<rparr>"

definition WithSync :: "bool \<Rightarrow> config \<Rightarrow> config" where
  "WithSync b c = c\<lparr>cf_sync := b\<rparr>"

text \<open>\<open>packstore.Open\<close> with its options.\<close>

definition OpenWith :: "(config \<Rightarrow> config) list \<Rightarrow> disk \<Rightarrow> ps_err option \<times> store" where
  "OpenWith opts d = (let cfg = foldl (\<lambda>c opt. opt c) defaultConfig opts in Open (cf_segmentSize cfg) (cf_sync cfg) d)"

section \<open>Writes in flight\<close>

text \<open>The tokens with their start times; a token is a new address, here a number. The zero time
  of Go is an argument, \<open>z\<close>.\<close>

type_synonym writes = "(nat \<times> int) list"

definition beginWrite :: "int \<Rightarrow> writes \<Rightarrow> nat \<times> writes" where
  "beginWrite now ws = (let t = Suc (fold max (map fst ws) 0) in (t, (t, now) # ws))"

definition endWrite :: "nat \<Rightarrow> writes \<Rightarrow> writes" where
  "endWrite t ws = filter (\<lambda>w. fst w \<noteq> t) ws"

fun oldest_loop :: "int \<Rightarrow> int \<Rightarrow> writes \<Rightarrow> int" where
  "oldest_loop z m [] = m"
| "oldest_loop z m ((t, start) # ws) = oldest_loop z (if m = z \<or> start < m then start else m) ws"

definition OldestInflightWrite :: "int \<Rightarrow> writes \<Rightarrow> int \<times> bool" where
  "OldestInflightWrite z ws = (let m = oldest_loop z z ws in (m, m \<noteq> z))"

lemma token_fresh: "t \<in> fst ` set ws \<Longrightarrow> t < fst (beginWrite now ws)"
proof -
  have "a \<le> fold max xs a \<and> (\<forall>x \<in> set xs. x \<le> fold max xs a)" for xs and a :: nat
    by (induction xs arbitrary: a) (auto intro: order_trans [OF max.cobounded2] order_trans [OF max.cobounded1])
  then show "t \<in> fst ` set ws \<Longrightarrow> t < fst (beginWrite now ws)" by (auto simp: beginWrite_def Let_def less_Suc_eq_le)
qed

text \<open>A write ends alone: what was in flight before it began is in flight after it ended, in
  whichever order writes end.\<close>

lemma end_write_begun: "endWrite (fst (beginWrite now ws)) (snd (beginWrite now ws)) = ws"
proof -
  have "fst w \<noteq> fst (beginWrite now ws)" if "w \<in> set ws" for w using token_fresh [of "fst w" ws now] that by force
  then show ?thesis by (auto simp: endWrite_def beginWrite_def Let_def filter_id_conv)
qed

lemma oldest_loop_Min:
  assumes "\<forall>w \<in> set ws. z < snd w" and "z < m"
  shows "oldest_loop z m ws = Min (insert m (snd ` set ws))"
  using assms
proof (induction ws arbitrary: m)
  case (Cons w ws)
  obtain t start where w: "w = (t, start)" by (cases w)
  let ?m = "if m = z \<or> start < m then start else m"
  have "oldest_loop z m (w # ws) = Min (insert ?m (snd ` set ws))" using Cons w by auto
  also have "?m = min m start" using Cons.prems(2) by auto
  also have "Min (insert (min m start) (snd ` set ws)) = Min (insert m (snd ` set (w # ws)))"
    by (cases "ws = []") (simp_all add: w min.assoc)
  finally show ?case .
qed simp

text \<open>The oldest start, when no write started at the zero time; in any order of the map.\<close>

lemma oldest_write:
  assumes "\<forall>w \<in> set ws. z < snd w"
  shows "OldestInflightWrite z ws = (if ws = [] then (z, False) else (Min (snd ` set ws), True))"
proof (cases ws)
  case (Cons w ws')
  obtain t start where w: "w = (t, start)" by (cases w)
  have e: "oldest_loop z z ws = Min (snd ` set ws)"
    using oldest_loop_Min [of ws' z start] assms by (simp add: Cons w)
  have "z < Min (snd ` set ws)" using assms Cons by (subst Min_gr_iff) auto
  then have "Min (snd ` set ws) \<noteq> z" by (rule less_imp_neq [symmetric])
  then show ?thesis unfolding OldestInflightWrite_def Let_def e by (simp only: Cons list.distinct if_False not_False_eq_True)
qed (simp add: OldestInflightWrite_def)

section \<open>Walks and unmapping\<close>

text \<open>Segments by id. A walk in flight is the list of the segments it may read; a goroutine that has
  detached segments waits with them, then frees them.\<close>

record gates =
  ga_sealed :: "u64 list"
  ga_closed :: bool
  ga_scrubN :: nat
  ga_walks :: "u64 list list"
  ga_waiting :: "u64 list list"
  ga_freeing :: "u64 list list"
  ga_unmapped :: "u64 set"

definition beginScrub :: "gates \<Rightarrow> gates" where
  "beginScrub g = g\<lparr>ga_scrubN := ga_scrubN g + 1\<rparr>"

definition endScrub :: "gates \<Rightarrow> gates" where
  "endScrub g = g\<lparr>ga_scrubN := ga_scrubN g - 1\<rparr>"

text \<open>\<open>waitScrubs\<close> returns in a state where this holds.\<close>

definition waitScrubs :: "gates \<Rightarrow> bool" where
  "waitScrubs g \<longleftrightarrow> ga_scrubN g = 0"

definition drop_nth :: "nat \<Rightarrow> 'a list \<Rightarrow> 'a list" where
  "drop_nth i xs = take i xs @ drop (Suc i) xs"

definition detached :: "gates \<Rightarrow> u64 set" where
  "detached g = \<Union> (set ` set (ga_waiting g @ ga_freeing g)) \<union> ga_unmapped g"

definition detach :: "u64 list \<Rightarrow> gates \<Rightarrow> gates" where
  "detach ids g = g\<lparr>ga_sealed := filter (\<lambda>j. j \<notin> set ids) (ga_sealed g), ga_waiting := ids # ga_waiting g\<rparr>"

text \<open>\<open>verify\<close> and \<open>pin\<close> are the registrations of \<open>Verify\<close>, and of \<open>ScanIndex\<close> and \<open>Record\<close>; \<open>seal\<close> adds
  a segment under a new id; \<open>remove\<close>, \<open>compact\<close>, \<open>wipe\<close> and \<open>close\<close> detach; \<open>pass\<close> is the return of
  \<open>waitScrubs\<close> and \<open>unmap\<close> what follows it, with no lock between the two. \<open>Close\<close> leaves the
  segments in the probe list, where the closed flag hides them.\<close>

inductive gate_step :: "gates \<Rightarrow> gates \<Rightarrow> bool" where
  verify: "\<not> ga_closed g \<Longrightarrow> gate_step g ((beginScrub g)\<lparr>ga_walks := ga_sealed g # ga_walks g\<rparr>)"
| pin: "\<not> ga_closed g \<Longrightarrow> j \<in> set (ga_sealed g) \<Longrightarrow> gate_step g ((beginScrub g)\<lparr>ga_walks := [j] # ga_walks g\<rparr>)"
| walked: "i < length (ga_walks g) \<Longrightarrow> gate_step g ((endScrub g)\<lparr>ga_walks := drop_nth i (ga_walks g)\<rparr>)"
| seal: "\<not> ga_closed g \<Longrightarrow> j \<notin> detached g \<Longrightarrow> gate_step g (g\<lparr>ga_sealed := ga_sealed g @ [j]\<rparr>)"
| remove: "\<not> ga_closed g \<Longrightarrow> j \<in> set (ga_sealed g) \<Longrightarrow> gate_step g (detach [j] g)"
| compact: "gate_step g (detach victims g)"
| wipe: "\<not> ga_closed g \<Longrightarrow> gate_step g (detach (ga_sealed g) g)"
| close: "\<not> ga_closed g \<Longrightarrow> gate_step g (g\<lparr>ga_closed := True, ga_waiting := ga_sealed g # ga_waiting g\<rparr>)"
| pass: "i < length (ga_waiting g) \<Longrightarrow> waitScrubs g \<Longrightarrow>
    gate_step g (g\<lparr>ga_waiting := drop_nth i (ga_waiting g), ga_freeing := ga_waiting g ! i # ga_freeing g\<rparr>)"
| unmap: "i < length (ga_freeing g) \<Longrightarrow>
    gate_step g (g\<lparr>ga_freeing := drop_nth i (ga_freeing g), ga_unmapped := ga_unmapped g \<union> set (ga_freeing g ! i)\<rparr>)"

text \<open>What is being freed or is unmapped.\<close>

definition gone :: "gates \<Rightarrow> u64 set" where
  "gone g = \<Union> (set ` set (ga_freeing g)) \<union> ga_unmapped g"

definition gates_inv :: "gates \<Rightarrow> bool" where
  "gates_inv g \<longleftrightarrow>
     ga_scrubN g = length (ga_walks g) \<and> (\<forall>ws \<in> set (ga_walks g). set ws \<inter> gone g = {}) \<and>
     (\<not> ga_closed g \<longrightarrow> set (ga_sealed g) \<inter> detached g = {})"

lemma drop_nth_subset: "set (drop_nth i xs) \<subseteq> set xs"
  by (auto simp: drop_nth_def dest: in_set_takeD in_set_dropD)

lemma length_drop_nth: "i < length xs \<Longrightarrow> length (drop_nth i xs) = length xs - 1"
  by (simp add: drop_nth_def)

lemma in_drop_nth: "x \<in> set (drop_nth i xs) \<Longrightarrow> x \<in> set xs"
  using drop_nth_subset by fastforce

text \<open>Fewer walks and no more gone or detached segments keep the invariant.\<close>

lemma Int_less: "A \<inter> B = {} \<Longrightarrow> C \<subseteq> B \<Longrightarrow> A \<inter> C = {}"
  by blast

lemma gates_inv_less:
  assumes "gates_inv g" and "ga_scrubN g' = length (ga_walks g')" and "set (ga_walks g') \<subseteq> set (ga_walks g)"
    and "gone g' \<subseteq> gone g" and "detached g' \<subseteq> detached g" and "ga_sealed g' = ga_sealed g" and "ga_closed g' = ga_closed g"
  shows "gates_inv g'"
proof -
  note inv = assms(1) [unfolded gates_inv_def]
  from inv have w: "\<forall>ws \<in> set (ga_walks g). set ws \<inter> gone g = {}" by (elim conjE)
  from inv have d: "\<not> ga_closed g \<longrightarrow> set (ga_sealed g) \<inter> detached g = {}" by (elim conjE)
  have "\<forall>ws \<in> set (ga_walks g'). set ws \<inter> gone g' = {}"
    by (intro ballI Int_less [OF bspec [OF w] assms(4)] subsetD [OF assms(3)])
  moreover have "\<not> ga_closed g' \<longrightarrow> set (ga_sealed g') \<inter> detached g' = {}"
    unfolding assms(6,7) by (intro impI Int_less [OF mp [OF d] assms(5)])
  ultimately show ?thesis using assms(2) unfolding gates_inv_def by (intro conjI)
qed

lemma gate_step_inv:
  assumes "gate_step g g'" and "gates_inv g"
  shows "gates_inv g'"
  using assms
proof (induction rule: gate_step.induct)
  case (verify g)
  have "gone g \<subseteq> detached g" by (auto simp: gone_def detached_def)
  then show ?case using verify by (auto simp: gates_inv_def beginScrub_def gone_def detached_def)
next
  case (pin g j)
  have "gone g \<subseteq> detached g" by (auto simp: gone_def detached_def)
  then show ?case using pin by (auto simp: gates_inv_def beginScrub_def gone_def detached_def)
next
  case (walked i g)
  let ?g = "(endScrub g)\<lparr>ga_walks := drop_nth i (ga_walks g)\<rparr>"
  have "gone ?g \<subseteq> gone g" "detached ?g \<subseteq> detached g" by (simp_all add: gone_def detached_def endScrub_def)
  moreover have "ga_scrubN ?g = length (ga_walks ?g)" using walked by (simp add: gates_inv_def endScrub_def length_drop_nth)
  moreover have "set (ga_walks ?g) \<subseteq> set (ga_walks g)" by (simp add: drop_nth_subset)
  moreover have "ga_sealed ?g = ga_sealed g" "ga_closed ?g = ga_closed g" by (simp_all add: endScrub_def)
  ultimately show ?case using gates_inv_less [OF walked(2), of ?g] by iprover
next
  case (pass i g)
  then have w: "ga_walks g = []" "ga_scrubN g = 0" by (auto simp: gates_inv_def waitScrubs_def)
  have "ga_waiting g ! i \<in> set (ga_waiting g)" using pass by simp
  then have "detached (g\<lparr>ga_waiting := drop_nth i (ga_waiting g), ga_freeing := ga_waiting g ! i # ga_freeing g\<rparr>) \<subseteq> detached g"
    by (auto simp: detached_def dest: in_drop_nth)
  then show ?case using pass(3) w unfolding gates_inv_def by auto
next
  case (unmap i g)
  then have nth: "ga_freeing g ! i \<in> set (ga_freeing g)" by simp
  let ?g = "g\<lparr>ga_freeing := drop_nth i (ga_freeing g), ga_unmapped := ga_unmapped g \<union> set (ga_freeing g ! i)\<rparr>"
  have "gone ?g \<subseteq> gone g" "detached ?g \<subseteq> detached g" using nth by (auto simp: gone_def detached_def dest: in_drop_nth)
  moreover have "ga_scrubN ?g = length (ga_walks ?g)" using unmap(2) by (simp add: gates_inv_def)
  ultimately show ?case using gates_inv_less [OF unmap(2), of ?g] by simp
qed (auto simp: gates_inv_def gone_def detached_def detach_def)

lemma gates_reach_inv:
  assumes "gate_step\<^sup>*\<^sup>* g g'" and "gates_inv g"
  shows "gates_inv g'"
  using assms by (induction rule: rtranclp_induct) (auto intro: gate_step_inv)

text \<open>C19: no goroutine reads an unmapped segment. From a store without walks or removals in flight,
  under every interleaving of scrubs, index scans, sealing, removals, compactions, wipes and a
  close: what a walk in flight may read is mapped, and so is each segment that a read under the
  lock can reach. The counter is the number of walks in flight, so a removal goes on as soon as
  there is none, though new walks may have registered when it unmaps.\<close>

theorem mapped_while_read:
  assumes "gate_step\<^sup>*\<^sup>* g0 g" and "ga_scrubN g0 = 0" and "ga_walks g0 = []" and "detached g0 = {}"
  shows "(\<forall>ws \<in> set (ga_walks g). set ws \<inter> ga_unmapped g = {}) \<and>
     (\<not> ga_closed g \<longrightarrow> set (ga_sealed g) \<inter> ga_unmapped g = {}) \<and>
     (waitScrubs g \<longleftrightarrow> ga_walks g = [])"
proof -
  have "gates_inv g0" using assms(2-4) by (simp add: gates_inv_def)
  from gates_reach_inv [OF assms(1) this] show ?thesis
    by (auto simp: gates_inv_def gone_def detached_def waitScrubs_def)
qed

text \<open>A removal detaches segment 1 and waits out a scrub; another scrub, of what is left, starts
  before the removal unmaps.\<close>

definition wit_gates :: gates where
  "wit_gates = \<lparr>ga_sealed = [1, 2], ga_closed = False, ga_scrubN = 0, ga_walks = [], ga_waiting = [], ga_freeing = [], ga_unmapped = {}\<rparr>"

theorem mapped_while_read_witness:
  "\<exists>g. gate_step\<^sup>*\<^sup>* wit_gates g \<and> ga_unmapped g = {1} \<and> ga_walks g = [[2]] \<and> set [2] \<inter> ga_unmapped g = {}"
proof -
  let ?s = "\<lambda>sealed n walks waiting freeing unm. \<lparr>ga_sealed = sealed, ga_closed = False, ga_scrubN = n, ga_walks = walks, ga_waiting = waiting,
      ga_freeing = freeing, ga_unmapped = unm\<rparr>"
  have steps: "gate_step wit_gates (?s [1, 2] 1 [[1, 2]] [] [] {})"
    "gate_step (?s [1, 2] 1 [[1, 2]] [] [] {}) (?s [2] 1 [[1, 2]] [[1]] [] {})"
    "gate_step (?s [2] 1 [[1, 2]] [[1]] [] {}) (?s [2] 0 [] [[1]] [] {})"
    "gate_step (?s [2] 0 [] [[1]] [] {}) (?s [2] 0 [] [] [[1]] {})"
    "gate_step (?s [2] 0 [] [] [[1]] {}) (?s [2] 1 [[2]] [] [[1]] {})"
    "gate_step (?s [2] 1 [[2]] [] [[1]] {}) (?s [2] 1 [[2]] [] [] {1})"
    using gate_step.verify [of wit_gates] gate_step.remove [of "?s [1, 2] 1 [[1, 2]] [] [] {}" 1]
      gate_step.walked [of 0 "?s [2] 1 [[1, 2]] [[1]] [] {}"] gate_step.pass [of 0 "?s [2] 0 [] [[1]] [] {}"]
      gate_step.verify [of "?s [2] 0 [] [] [[1]] {}"] gate_step.unmap [of 0 "?s [2] 1 [[2]] [] [[1]] {}"]
    by (simp_all add: wit_gates_def beginScrub_def endScrub_def detach_def drop_nth_def waitScrubs_def)
  then have r: "gate_step\<^sup>*\<^sup>* wit_gates (?s [2] 1 [[2]] [] [] {1})" by (meson rtranclp.rtrancl_into_rtrancl rtranclp.rtrancl_refl)
  have "set [2 :: u64] \<inter> {1} = {}"
    using mapped_while_read [OF r] by (simp add: wit_gates_def detached_def)
  then show ?thesis using r by (intro exI [of _ "?s [2] 1 [[2]] [] [] {1}"]) simp
qed

end
