(* ===== verification/Spec2Isabelle.thy ===== *)
theory Spec2Isabelle
  imports Amber_BuildTree Amber_CompactLog Amber_Marks Amber_Scrub Amber_ParallelLog Amber_CollectorSafety Amber_Restore Amber_InboxSafe Amber_CliRun Amber_Gates
begin

text \<open>
  Amber-Store: a content-addressed store for file trees, written in Go.

  \<^bold>\<open>The program.\<close> Objects are blobs, index nodes of files (\<open>FileNode\<close>) and directories
  (\<open>DirLeaf\<close>, \<open>DirNode\<close>) and attribute sets. An object is named by a 32-byte key that carries its
  type, a length and a truncated BLAKE3 digest. \<open>ingest\<close> walks a directory of the host, cuts files
  into chunks and entries into prolly-tree runs, and emits objects; \<open>packstore\<close> keeps them as
  records in append-only segments that are sealed with an index and a filter; \<open>refstore\<close> names
  roots; \<open>gc\<close> marks what the references reach and lets \<open>packstore\<close> compact the rest away; \<open>inbox\<close>
  receives packs from other stores and drains them into \<open>packstore\<close>; \<open>tarexport\<close> and \<open>tarextract\<close>
  turn a directory object into a tar archive and an archive into files.

  \<^bold>\<open>Conventions.\<close> Bytes, keys, names and paths are \<open>byte list\<close>; unsigned fields are words of
  their width, Go's \<open>int\<close> and \<open>int64\<close> are \<open>int\<close> where the code cannot overflow them. A fallible
  function returns \<open>Inl\<close> of an error datatype of its package or \<open>Inr\<close> of the result; the
  constructors are the error paths of the source, messages are dropped. State is a record that is
  passed and returned. Definitions keep the source's names, with a prefix where two packages
  share one (\<open>seg_get\<close>, \<open>ms_Contains\<close>, \<open>Refs_Put\<close>, \<open>inbox_Open\<close>). Third-party code is an argument:
  the digest \<open>H\<close>, zstd \<open>Z\<close>, the binary fuse filter \<open>X\<close>, the CBOR codecs \<open>C\<close>, \<open>RC\<close>, \<open>M\<close>, Pebble
  \<open>P\<close>, the chunker and the gitignore matcher in the environment \<open>E\<close>. What the code relies on is a
  predicate (\<open>digest_ok\<close>, \<open>zstd_ok\<close>, \<open>fuse_ok\<close>, \<open>cbor_ok\<close>, \<open>ref_cbor_ok\<close>, \<open>meta_ok\<close>, \<open>pebble_ok\<close>,
  \<open>chunks_ok\<close>), and each has an instance that the witnesses evaluate (\<open>pad_hash\<close>, \<open>frame_cbor\<close>,
  \<open>mem_pebble\<close> and others).

  \<^bold>\<open>I/O and concurrency.\<close> A system call that may fail takes its outcome from a fault plan in the
  state (\<open>Amber_Disk\<close> for the store's flat directory with page cache and durable contents,
  \<open>Amber_Host\<close> for the inode tree of the host, \<open>ib_faults\<close> for the inbox), and theorems hold for
  every plan. Goroutines are either a function of a schedule that picks the next stage
  (\<open>Compact\<close>, \<open>WriteParallel\<close>, \<open>pbuildDir\<close>) or an inductive step relation (\<open>gc_step\<close>, \<open>ib_step\<close>);
  theorems hold for every schedule and every reachable state. The grain of a step is a critical
  section or a call that the code makes without the lock.

  \<^bold>\<open>The theories and the code.\<close>
  \<^item> \<open>Amber_Prelude\<close>: words and big-endian fields, CRC-32C, \<open>sort\<close> and \<open>bytes\<close> of Go's library,
    lists and loops with errors.
  \<^item> \<open>Amber_Key\<close> (key/): accessors, \<open>Validate\<close>, \<open>Parse\<close>, \<open>NewFromHash\<close>; canonical keys are exactly the
    constructed ones (C32). \<open>Amber_Cborx\<close> (cborx/): the attribute map (C33).
  \<^item> \<open>Amber_Pack\<close> (amberpack/): record framing and the wire pack; round trips, truncation and
    corruption (C28 to C31).
  \<^item> \<open>Amber_Chunkers\<close> (chunkers/); \<open>Amber_Fstree\<close>, \<open>Amber_Tree\<close>, \<open>Amber_Build\<close>, \<open>Amber_Walk\<close>, \<open>Amber_BuildTree\<close>
    (fstree/): codecs, lookup, paging, streaming builders, walks. \<open>dir_tree\<close> and \<open>file_tree\<close> say what
    a key denotes in an object store; the locale \<open>index_tree\<close> holds the common argument of the two
    index builders. What was built reads back (C17, C18), listings are strictly sorted (C37), the two
    path resolvers agree (C39), the walks end and are exact (C23, C24).
  \<^item> \<open>Amber_Disk\<close>, \<open>Amber_Footer\<close> (packstore/footer.go, segment.go), \<open>Amber_Store\<close> (packstore.go, prepare.go,
    barrier.go, missing.go), \<open>Amber_Sweep\<close> (verify.go, gc.go, markset.go), \<open>Amber_Compact\<close> (compact.go),
    \<open>Amber_Parallel\<close> (parallel.go), \<open>Amber_Recover\<close> (recover.go and \<open>Open\<close>). The specification is a log of
    records, oldest first: \<open>holds X s L\<close> (\<open>Amber_StoreLog\<close>) says that the store \<open>s\<close> stores the log \<open>L\<close>;
    the last record of a key answers reads (C8, C16, C38), writes append (C7, C13, C14, C25), recovery and
    crashes keep it (C4, C6, C20), compaction keeps what is live and only that (C3, C15;
    \<open>Amber_CompactLog\<close>), scrubs and mark sets are exact (C21, C22; \<open>Amber_Scrub\<close>, \<open>Amber_Marks\<close>), and
    \<open>Missing\<close> and \<open>SortByLocation\<close> are their plain specifications (\<open>Amber_StoreOps\<close>). The locale
    \<open>segment_probe\<close> is what the three lookups of a segment share. \<open>Amber_Gates\<close> is the protocol that keeps
    a segment mapped while a goroutine walks it without a lock (C19).
  \<^item> \<open>Amber_Ref\<close> (reference/, refstore/): rules over decoded runes, canonical records, the map of
    names (C26, C27).
  \<^item> \<open>Amber_Collector\<close>, \<open>Amber_MarkWalk\<close>, \<open>Amber_CollectorSafety\<close> (gc/): options, throttle, roots, the mark
    walk, cycles and \<open>Why\<close>; a quiet cycle is exact (C2, C36, C40) and references never dangle whatever
    interleaves (C1).
  \<^item> \<open>Amber_Host\<close>: paths, inodes, symbolic links and the system calls the file packages use.
    \<open>Amber_Ingest\<close> (amberignore/, ingest/), \<open>Amber_IngestRun\<close> (the parallel builder is the sequential one,
    C12; locale \<open>sink\<close>), \<open>Amber_IngestTree\<close> (what an ingest builds), \<open>Amber_Export\<close> (tarexport/) and
    \<open>Amber_Archive\<close> (an ingest is exported as its visible tree, C11).
  \<^item> \<open>Amber_Extract\<close> (tarextract/), \<open>Amber_Paths\<close>, \<open>Amber_Confine\<close>, \<open>Amber_Reach\<close>, \<open>Amber_Contain\<close>,
    \<open>Amber_ExtractSafe\<close>: lexical paths against resolved ones, and the confinement of an extraction
    (C9). \<open>Amber_Restore\<close> composes ingest, export and extraction: a backup restores the directory (C5).
  \<^item> \<open>Amber_Inbox\<close>, \<open>Amber_InboxSafe\<close> (inbox/): staging, commits, recovery, workers and the barrier (C10).
  \<^item> \<open>Amber_Cli\<close>, \<open>Amber_CliRun\<close> (cmd/amber-store: spec.go, ref.go, ls.go, gc why): setting a reference
    publishes a complete tree under its name (C34), \<open>ls\<close> prints a directory as a whole (C35).

  \<^bold>\<open>Fuel and loops.\<close> Recursions that follow keys through a store (\<open>LookupEntry\<close>, \<open>CollectEntries\<close>,
  \<open>WriteContent\<close>, \<open>ResolvePath\<close>) take fuel, and \<open>None\<close> is fuel that ran out; the height of the tree is
  enough, which is the \<open>\<exists>h. \<forall>n \<ge> h\<close> of the read-back properties. The walks (\<open>CheckComplete\<close>,
  \<open>ReachableKeys\<close>, \<open>mark_loop\<close>) return for every large enough fuel over a store that holds a log,
  which has finitely many keys. The builders take fuel for the chain of levels: \<open>4 * length es + 4\<close>
  is enough for \<open>es\<close> entries or chunks. Loops over bytes (\<open>scan_loop\<close>, \<open>utf8_runes\<close>) are functions
  with a measure; what a schedule leaves undone is completed stage by stage. The cap on symbolic
  links in \<open>namei\<close> is the kernel's 40.

  \<^bold>\<open>Not modelled.\<close> In cmd/amber-store, flag parsing, the opening of the store, the progress display,
  the printing of collector statistics, and the commands ingest, export and restore, which chain
  modelled operations over files and a pipe; cmd/amber-bench, a benchmark driver. Logging, contexts other than as cancellation
  predicates, the flock of a store directory, mmap (a mapped segment is the contents of its file),
  free-space and clock readings (arguments of the collector). The modification times of
  segments are arguments of the collector, and so is the rendering of a time in the local time zone. The macOS variant of the attribute calls
  only renames the Linux one. \<open>WriteParallel\<close> is one step of the inbox's workers: that other writers
  interleave with it is the subject of \<open>Amber_ParallelLog\<close> and \<open>Amber_CollectorSafety\<close>, not of \<open>ib_step\<close>.
\<close>

end
